(* ===== verification/Prelude.thy ===== *)
theory Prelude
  imports Main "HOL-Library.Word"
begin

text \<open>
  Shared vocabulary of the development: the machine types of the C code, the shape of a C
  function that returns 1 with an out-parameter or 0, the arithmetic of \<open>size_t\<close>, and the
  big-endian reading of byte lists, with the lemmas the components share.
\<close>

unbundle bit_operations_syntax

section \<open>Machine types\<close>

type_synonym byte = "8 word"
type_synonym u16 = "16 word"
type_synonym u32 = "32 word"
type_synonym u64 = "64 word"

text \<open>
  A \<open>size_t\<close> (64 bits on the targets of the app) is a \<open>nat\<close> below \<open>size_mod\<close>; its
  addition wraps, and is written out wherever the code can overflow it.
\<close>

abbreviation size_mod :: nat where
  "size_mod \<equiv> 2 ^ 64"

definition size_add :: "nat \<Rightarrow> nat \<Rightarrow> nat" where
  "size_add a b = (a + b) mod size_mod"

definition size_mul :: "nat \<Rightarrow> nat \<Rightarrow> nat" where
  "size_mul a b = (a * b) mod size_mod"

lemma size_add_exact: "a + b < size_mod \<Longrightarrow> size_add a b = a + b"
  by (simp add: size_add_def)

lemma size_mul_exact: "a * b < size_mod \<Longrightarrow> size_mul a b = a * b"
  by (simp add: size_mul_def)

text \<open>The overflow test \<open>a + b < a\<close> of the C code is exact for operands in range.\<close>

lemma size_add_overflow_iff:
  assumes "a < size_mod" and "b < size_mod"
  shows "size_add a b < a \<longleftrightarrow> size_mod \<le> a + b"
proof (cases "a + b < size_mod")
  case True
  then show ?thesis by (simp add: size_add_exact)
next
  case False
  with assms have "size_add a b = a + b - size_mod"
    by (simp add: size_add_def mod_if)
  with False assms show ?thesis by linarith
qed

section \<open>Functions that return 1 with a result, or 0\<close>

text \<open>
  A C function \<open>int f(STATE *s, T *out)\<close> that returns 1 and sets \<open>*out\<close>, or returns 0,
  is a function from the state to an optional result and the state it leaves behind. The
  state after a failure is part of the model: several functions move their cursor before
  they fail. \<open>op_bind\<close> is the C idiom \<open>if (!f(s, &x)) return 0; ...\<close>.
\<close>

type_synonym ('s, 'a) cop = "'s \<Rightarrow> 'a option \<times> 's"

definition op_ret :: "'a \<Rightarrow> ('s, 'a) cop" where
  "op_ret a s = (Some a, s)"

definition op_fail :: "('s, 'a) cop" where
  "op_fail s = (None, s)"

definition op_bind :: "('s, 'a) cop \<Rightarrow> ('a \<Rightarrow> ('s, 'b) cop) \<Rightarrow> ('s, 'b) cop" where
  "op_bind m f s = (case m s of (None, s') \<Rightarrow> (None, s') | (Some a, s') \<Rightarrow> f a s')"

definition op_then :: "('s, 'a) cop \<Rightarrow> ('s, 'b) cop \<Rightarrow> ('s, 'b) cop" where
  "op_then m k = op_bind m (\<lambda>_. k)"

definition op_guard :: "bool \<Rightarrow> ('s, unit) cop" where
  "op_guard b s = (if b then (Some (), s) else (None, s))"

named_theorems op_simps

lemma op_ret_apply [op_simps]: "op_ret a s = (Some a, s)"
  by (simp add: op_ret_def)

lemma op_fail_apply [op_simps]: "op_fail s = (None, s)"
  by (simp add: op_fail_def)

lemma op_guard_apply [op_simps]: "op_guard b s = (if b then (Some (), s) else (None, s))"
  by (simp add: op_guard_def)

lemma op_bind_apply [op_simps]:
  "op_bind m f s = (case m s of (None, s') \<Rightarrow> (None, s') | (Some a, s') \<Rightarrow> f a s')"
  by (simp add: op_bind_def)

lemma op_then_apply [op_simps]:
  "op_then m k s = (case m s of (None, s') \<Rightarrow> (None, s') | (Some a, s') \<Rightarrow> k s')"
  by (simp add: op_then_def op_bind_def)

lemma op_bind_Some_iff:
  "op_bind m f s = (Some b, t) \<longleftrightarrow> (\<exists>a s'. m s = (Some a, s') \<and> f a s' = (Some b, t))"
  by (auto simp: op_bind_def split: prod.splits option.splits)

lemma op_then_Some_iff:
  "op_then m k s = (Some b, t) \<longleftrightarrow> (\<exists>a s'. m s = (Some a, s') \<and> k s' = (Some b, t))"
  by (auto simp: op_then_def op_bind_Some_iff)

section \<open>Big-endian byte strings\<close>

text \<open>The number a byte string denotes, and the \<open>n\<close>-byte string of a number.\<close>

definition be_val :: "byte list \<Rightarrow> nat" where
  "be_val bs = foldl (\<lambda>a b. a * 256 + unat b) 0 bs"

fun be_bytes :: "nat \<Rightarrow> nat \<Rightarrow> byte list" where
  "be_bytes 0 v = []"
| "be_bytes (Suc n) v = be_bytes n (v div 256) @ [word_of_nat v]"

lemma be_val_Nil [simp]: "be_val [] = 0"
  by (simp add: be_val_def)

lemma be_val_snoc [simp]: "be_val (bs @ [b]) = be_val bs * 256 + unat b"
  by (simp add: be_val_def)

lemma be_val_append: "be_val (xs @ ys) = be_val xs * 256 ^ length ys + be_val ys"
proof (induction ys rule: rev_induct)
  case Nil
  then show ?case by simp
next
  case (snoc y ys)
  have "be_val (xs @ ys @ [y]) = be_val (xs @ ys) * 256 + unat y"
    using be_val_snoc [of "xs @ ys" y] by simp
  with snoc show ?case by (simp add: algebra_simps)
qed

lemma be_val_Cons: "be_val (b # bs) = unat b * 256 ^ length bs + be_val bs"
  using be_val_append [of "[b]" bs] by (simp add: be_val_def)

lemma byte_256: "(256 :: byte) = 0"
  by (rule word_unat_eq_iff [THEN iffD2]) simp

lemma unat_byte_less [simp]: "unat (b :: byte) < 256"
  using unsigned_less [of b, where ?'a = nat] by simp

lemma unat_byte_le [simp]: "unat (b :: byte) \<le> 255"
  using unat_byte_less [of b] by linarith

lemma be_val_less: "be_val bs < 256 ^ length bs"
proof (induction bs rule: rev_induct)
  case Nil
  then show ?case by simp
next
  case (snoc b bs)
  have "be_val bs * 256 + unat b < (be_val bs + 1) * 256"
    by simp
  also have "\<dots> \<le> 256 ^ length bs * 256"
    using snoc by (intro mult_right_mono) auto
  finally show ?case by (simp add: mult.commute)
qed

lemma length_be_bytes [simp]: "length (be_bytes n v) = n"
  by (induction n arbitrary: v) auto

lemma unat_word_of_nat_byte: "unat (word_of_nat v :: byte) = v mod 256"
  by (simp add: unat_of_nat)

lemma be_val_be_bytes: "be_val (be_bytes n v) = v mod 256 ^ n"
proof (induction n arbitrary: v)
  case 0
  then show ?case by simp
next
  case (Suc n)
  have "be_val (be_bytes (Suc n) v) = (v div 256 mod 256 ^ n) * 256 + v mod 256"
    by (simp add: Suc unat_word_of_nat_byte)
  also have "\<dots> = v mod (256 * 256 ^ n)"
    by (simp add: mod_mult2_eq mult.commute)
  finally show ?case by simp
qed

lemma be_bytes_be_val: "be_bytes (length bs) (be_val bs) = bs"
proof (induction bs rule: rev_induct)
  case Nil
  then show ?case by simp
next
  case (snoc b bs)
  have "(be_val bs * 256 + unat b) div 256 = be_val bs"
    by (simp add: div_add1_eq [of "be_val bs * 256"])
  moreover have "(word_of_nat (be_val bs * 256 + unat b) :: byte) = b"
    by (simp add: byte_256)
  ultimately show ?case using snoc by simp
qed

lemma be_bytes_eqI: "length bs = n \<Longrightarrow> be_val bs = v \<Longrightarrow> be_bytes n v = bs"
  using be_bytes_be_val by blast

section \<open>Words and numbers\<close>

lemma byte_eqI: "(\<And>n. n < 8 \<Longrightarrow> bit a n = bit b n) \<Longrightarrow> a = (b :: byte)"
  by (rule bit_word_eqI) simp

lemma unat_take_bit: "unat (take_bit n w) = unat w mod 2 ^ n" for w :: "'a::len word"
  by (simp add: unsigned_take_bit_eq take_bit_eq_mod [where ?'a = nat])

lemma unat_drop_bit: "unat (drop_bit n w) = unat w div 2 ^ n" for w :: "'a::len word"
  by (simp add: unat_drop_bit_eq drop_bit_eq_div [where ?'a = nat])

lemma bit_word_iff_odd: "bit w n \<longleftrightarrow> odd (unat w div 2 ^ n)" for w :: "'a::len word"
proof -
  have "bit (unat w) n = bit w n"
    by (simp add: bit_unsigned_iff)
  then show ?thesis using bit_iff_odd [of "unat w" n] by simp
qed

lemma unat_ucast: "unat (ucast w :: 'b::len word) = unat w mod 2 ^ LENGTH('b)" for w :: "'a::len word"
proof -
  have "ucast w = (word_of_nat (unat w) :: 'b word)" by simp
  then show ?thesis by (simp only: unat_of_nat)
qed

lemma unat_ucast_up:
  "LENGTH('a) \<le> LENGTH('b) \<Longrightarrow> unat (ucast w :: 'b::len word) = unat w" for w :: "'a::len word"
  using unsigned_less [of w, where ?'a = nat]
  by (simp only: unat_ucast) (meson less_le_trans mod_less power_increasing one_le_numeral)

lemma unat_byte_of_nat: "n < 256 \<Longrightarrow> unat (word_of_nat n :: byte) = n"
  by (simp only: unat_word_of_nat_byte mod_less)

lemma byte_of_nat_eqI: "unat b = n \<Longrightarrow> word_of_nat n = (b :: byte)"
  by auto

lemma take_bit_word_self: "unat b < 2 ^ k \<Longrightarrow> take_bit k b = b" for b :: "'a::len word"
  by (rule word_unat_eq_iff [THEN iffD2]) (simp add: unat_take_bit)

lemma push_bit_and_small:
  fixes a b :: "'a::len word"
  assumes "unat b < 2 ^ k"
  shows "push_bit k a AND b = 0"
proof -
  have "push_bit k a AND take_bit k b = 0"
    by (rule bit_word_eqI) (auto simp: bit_simps)
  then show ?thesis using take_bit_word_self [OF assms] by simp
qed

text \<open>Shifting left and or-ing in a small value is multiplication and addition.\<close>

lemma push_bit_or_small:
  fixes a b :: "'a::len word"
  assumes "unat b < 2 ^ k"
  shows "push_bit k a OR b = a * 2 ^ k + b"
  using disjunctive_add_eq_or [OF push_bit_and_small [OF assms, of a]]
  by (simp add: push_bit_eq_mult)

lemma unat_push_bit_or:
  fixes a b :: "'a::len word"
  assumes "unat b < 2 ^ k" and "unat a * 2 ^ k + unat b < 2 ^ LENGTH('a)"
  shows "unat (push_bit k a OR b) = unat a * 2 ^ k + unat b"
proof -
  have "push_bit k a OR b = word_of_nat (unat a * 2 ^ k + unat b)"
    using push_bit_or_small [OF assms(1), of a] by simp
  then show ?thesis using assms(2) by (simp only: unat_of_nat) simp
qed

lemma drop_bit_zero_iff_unat: "drop_bit n w = 0 \<longleftrightarrow> unat w < 2 ^ n" for w :: "'a::len word"
proof -
  have "drop_bit n w = 0 \<longleftrightarrow> unat (drop_bit n w) = 0"
    by (simp add: word_unat_eq_iff)
  also have "\<dots> \<longleftrightarrow> unat w div 2 ^ n = 0"
    by (simp only: unat_drop_bit)
  finally show ?thesis by (simp add: div_eq_0_iff)
qed

lemma byte_and_0x7f: "unat (b AND 0x7f) = unat b mod 128" for b :: byte
proof -
  have "b AND 0x7f = take_bit 7 b"
    by (simp add: take_bit_eq_mask mask_eq_exp_minus_1)
  then show ?thesis by (simp only: unat_take_bit) simp
qed

lemma byte_and_0x80: "b AND 0x80 = 0 \<longleftrightarrow> unat b < 128" for b :: byte
proof -
  have "b AND 0x80 = 0 \<longleftrightarrow> \<not> bit b 7"
    using and_exp_eq_0_iff_not_bit [of b 7] by simp
  also have "\<dots> \<longleftrightarrow> unat b div 128 = 0"
  proof -
    have "bit b 7 \<longleftrightarrow> odd (unat b div 2 ^ 7)"
      by (rule bit_word_iff_odd)
    moreover have "unat b div 2 ^ 7 < 2"
      using unat_byte_less [of b] by (simp add: less_mult_imp_div_less)
    ultimately show ?thesis by (auto simp: less_2_cases_iff)
  qed
  finally show ?thesis by (simp add: div_eq_0_iff)
qed

lemma xor_eq_zero_iff: "x XOR y = 0 \<longleftrightarrow> x = y" for x y :: "'a::len word"
proof
  assume "x XOR y = 0"
  then have "(x XOR y) XOR y = y" by simp
  then show "x = y" by (simp only: xor.assoc xor_self_eq xor.right_neutral)
qed simp

end
