(* ===== verification/Mem.thy ===== *)
theory Mem
  imports Prelude
begin

text \<open>
  \<open>crypto/mem.c\<close>: the allocator wrappers, the constant-time comparison, the FNV hash and the
  C-string helpers of BoringSSL. libc's \<open>malloc\<close> is a parameter: it answers a request of
  \<open>n\<close> bytes with \<open>None\<close> (\<open>NULL\<close>) or a block of bytes of unspecified contents;
  \<open>malloc_law\<close> is what the C standard and the platform promise of it. A memory block is the
  list of its bytes, and a \<open>char *\<close> is the list of the bytes from the pointer to the end of the
  array: \<open>None\<close> as the result of a string function is a read or a write past that end.
\<close>

section \<open>Allocation\<close>

type_synonym mallocf = "nat \<Rightarrow> byte list option"

text \<open>Documented behaviour of \<open>malloc\<close>: a block has the size asked for, and no object is
  larger than \<open>PTRDIFF_MAX\<close>.\<close>

definition malloc_law :: "mallocf \<Rightarrow> bool" where
  "malloc_law m \<longleftrightarrow> (\<forall>n b. m n = Some b \<longrightarrow> length b = n \<and> n < 2 ^ 63)"

lemma malloc_lawD: "malloc_law m \<Longrightarrow> m n = Some b \<Longrightarrow> length b = n \<and> n < 2 ^ 63"
  by (simp add: malloc_law_def)

text \<open>The 8-byte prefix in front of a block holds its size.\<close>

definition OPENSSL_MALLOC_PREFIX :: nat where
  "OPENSSL_MALLOC_PREFIX = 8"

declare OPENSSL_MALLOC_PREFIX_def [simp]

definition OPENSSL_malloc :: "mallocf \<Rightarrow> nat \<Rightarrow> byte list option" where
  "OPENSSL_malloc m n =
     (case m (size_add n OPENSSL_MALLOC_PREFIX) of
        None \<Rightarrow> None
      | Some ptr \<Rightarrow> Some (drop OPENSSL_MALLOC_PREFIX ptr))"

text \<open>\<open>OPENSSL_realloc\<close> copies the common prefix into a fresh block; \<open>[]\<close> stands for
  \<open>NULL\<close>, whose size is 0.\<close>

definition OPENSSL_realloc :: "mallocf \<Rightarrow> byte list \<Rightarrow> nat \<Rightarrow> byte list option" where
  "OPENSSL_realloc m orig new_size =
     (case OPENSSL_malloc m new_size of
        None \<Rightarrow> None
      | Some ret \<Rightarrow>
          (let to_copy = (if length orig < new_size then length orig else new_size)
           in Some (take to_copy orig @ drop to_copy ret)))"

text \<open>An allocator that grants small requests, for the examples.\<close>

definition small_malloc :: mallocf where
  "small_malloc n = (if n < 1024 then Some (replicate n 0) else None)"

lemma small_malloc_law: "malloc_law small_malloc"
  by (simp add: small_malloc_def malloc_law_def)

text \<open>\<open>OPENSSL_cleanse\<close> overwrites, and \<open>OPENSSL_free\<close> hands \<open>sdallocx\<close> the prefix and the
  block, both overwritten.\<close>

definition OPENSSL_cleanse :: "byte list \<Rightarrow> nat \<Rightarrow> byte list" where
  "OPENSSL_cleanse ptr len = replicate len 0 @ drop len ptr"

definition OPENSSL_free :: "byte list \<Rightarrow> byte list \<Rightarrow> byte list" where
  "OPENSSL_free prefix orig =
     OPENSSL_cleanse (prefix @ orig) (length orig + OPENSSL_MALLOC_PREFIX)"

definition OPENSSL_memdup :: "mallocf \<Rightarrow> byte list \<Rightarrow> nat \<Rightarrow> byte list option" where
  "OPENSSL_memdup m dat n =
     (if n = 0 then None
      else case OPENSSL_malloc m n of
        None \<Rightarrow> None
      | Some ret \<Rightarrow> Some (take n dat @ drop n ret))"

lemma OPENSSL_malloc_length:
  assumes "malloc_law m" and "n < size_mod - 8" and "OPENSSL_malloc m n = Some b"
  shows "length b = n"
  using assms
  by (auto simp: OPENSSL_malloc_def size_add_exact dest!: malloc_lawD split: option.splits)

text \<open>A request within 8 bytes of \<open>SIZE_MAX\<close> wraps around in the addition of the prefix.\<close>

lemma OPENSSL_malloc_wraps_length:
  assumes "malloc_law m" and "size_mod - 8 \<le> n" and "n < size_mod"
    and "OPENSSL_malloc m n = Some b"
  shows "length b = 0"
proof -
  have "size_add n 8 < 8"
    using assms(2,3) by (auto simp: size_add_def mod_if)
  with assms(1,4) show ?thesis
    by (auto simp: OPENSSL_malloc_def dest!: malloc_lawD split: option.splits)
qed

lemma OPENSSL_malloc_bound:
  assumes "malloc_law m" and "n < size_mod - 8" and "OPENSSL_malloc m n = Some b"
  shows "n + 8 < 2 ^ 63"
  using assms
  by (auto simp: OPENSSL_malloc_def size_add_exact dest!: malloc_lawD split: option.splits)

lemma OPENSSL_realloc_SomeD:
  assumes "malloc_law m" and "n < size_mod - 8" and "OPENSSL_realloc m orig n = Some b"
  shows "length b = n" and "take (min (length orig) n) b = take n orig" and "n + 8 < 2 ^ 63"
  using assms OPENSSL_malloc_length [OF assms(1,2)] OPENSSL_malloc_bound [OF assms(1,2)]
  by (auto simp: OPENSSL_realloc_def Let_def split: option.splits if_splits)

lemma OPENSSL_memdup_SomeD:
  assumes "malloc_law m" and "n \<le> length dat" and "n < size_mod - 8"
    and "OPENSSL_memdup m dat n = Some b"
  shows "b = take n dat"
  using assms OPENSSL_malloc_length [OF assms(1,3)]
  by (auto simp: OPENSSL_memdup_def split: option.splits if_splits)

section \<open>Comparison and hashing\<close>

definition CRYPTO_memcmp :: "byte list \<Rightarrow> byte list \<Rightarrow> nat \<Rightarrow> byte" where
  "CRYPTO_memcmp a b len = foldl (\<lambda>x i. x OR (a ! i XOR b ! i)) 0 [0..<len]"

lemma byte_or_zero_iff: "x OR y = 0 \<longleftrightarrow> x = 0 \<and> y = 0" for x y :: "'a::len word"
  by (simp add: or_eq_0_iff)

lemma foldl_or_zero_iff:
  "foldl (\<lambda>x i. x OR f i) x0 is = (0 :: 'a::len word) \<longleftrightarrow> x0 = 0 \<and> (\<forall>i \<in> set is. f i = 0)"
  by (induction "is" arbitrary: x0) (auto simp: byte_or_zero_iff)

lemma CRYPTO_memcmp_zero_iff:
  assumes "len \<le> length a" and "len \<le> length b"
  shows "CRYPTO_memcmp a b len = 0 \<longleftrightarrow> take len a = take len b"
  using assms by (auto simp: CRYPTO_memcmp_def foldl_or_zero_iff xor_eq_zero_iff list_eq_iff_nth_eq)

definition OPENSSL_hash32 :: "byte list \<Rightarrow> u32" where
  "OPENSSL_hash32 ptr = foldl (\<lambda>h b. (h XOR ucast b) * 16777619) 2166136261 ptr"

text \<open>\<open>OPENSSL_memcmp\<close> is libc's lexicographic comparison of unsigned bytes, whose sign is all
  the callers use.\<close>

fun OPENSSL_memcmp :: "byte list \<Rightarrow> byte list \<Rightarrow> nat \<Rightarrow> int" where
  "OPENSSL_memcmp a b 0 = 0"
| "OPENSSL_memcmp (x # a) (y # b) (Suc n) =
     (if x = y then OPENSSL_memcmp a b n else if x < y then -1 else 1)"
| "OPENSSL_memcmp _ _ (Suc n) = 0"

section \<open>Strings\<close>

fun OPENSSL_strnlen :: "byte list \<Rightarrow> nat \<Rightarrow> nat option" where
  "OPENSSL_strnlen s 0 = Some 0"
| "OPENSSL_strnlen [] (Suc len) = None"
| "OPENSSL_strnlen (c # s) (Suc len) =
     (if c = 0 then Some 0 else map_option Suc (OPENSSL_strnlen s len))"

fun strlen :: "byte list \<Rightarrow> nat option" where
  "strlen [] = None"
| "strlen (c # s) = (if c = 0 then Some 0 else map_option Suc (strlen s))"

definition OPENSSL_strndup :: "mallocf \<Rightarrow> byte list \<Rightarrow> nat \<Rightarrow> byte list option" where
  "OPENSSL_strndup m str size0 =
     (case OPENSSL_strnlen str size0 of
        None \<Rightarrow> None
      | Some n \<Rightarrow>
          (let alloc_size = size_add n 1
           in if alloc_size < n then None
              else case OPENSSL_malloc m alloc_size of
                     None \<Rightarrow> None
                   | Some ret \<Rightarrow> Some ((take n str @ drop n ret)[n := 0])))"

text \<open>\<open>char\<close> is signed on the targets of the app, so the characters are compared as \<open>sint\<close>.\<close>

definition OPENSSL_tolower :: "int \<Rightarrow> int" where
  "OPENSSL_tolower c = (if c \<ge> 65 \<and> c \<le> 90 then c + (97 - 65) else c)"

fun OPENSSL_strcasecmp :: "byte list \<Rightarrow> byte list \<Rightarrow> int option" where
  "OPENSSL_strcasecmp (a # as) (b # bs) =
     (let aa = OPENSSL_tolower (sint a); bb = OPENSSL_tolower (sint b)
      in if aa < bb then Some (-1)
         else if aa > bb then Some 1
         else if aa = 0 then Some 0
         else OPENSSL_strcasecmp as bs)"
| "OPENSSL_strcasecmp _ _ = None"

fun OPENSSL_strncasecmp :: "byte list \<Rightarrow> byte list \<Rightarrow> nat \<Rightarrow> int option" where
  "OPENSSL_strncasecmp as bs 0 = Some 0"
| "OPENSSL_strncasecmp (a # as) (b # bs) (Suc n) =
     (let aa = OPENSSL_tolower (sint a); bb = OPENSSL_tolower (sint b)
      in if aa < bb then Some (-1)
         else if aa > bb then Some 1
         else if aa = 0 then Some 0
         else OPENSSL_strncasecmp as bs n)"
| "OPENSSL_strncasecmp _ _ (Suc n) = None"

text \<open>\<open>OPENSSL_strlcpy\<close>: the copied characters are consed in front of what the recursion leaves
  of \<open>dst\<close>; the result is the new contents of \<open>dst\<close> and the length of the whole source.\<close>

fun OPENSSL_strlcpy :: "byte list \<Rightarrow> byte list \<Rightarrow> nat \<Rightarrow> (byte list \<times> nat) option" where
  "OPENSSL_strlcpy dst src dst_size =
     (case src of
        [] \<Rightarrow> None
      | c # src' \<Rightarrow>
          (if dst_size > 1 \<and> c \<noteq> 0 then
             (case dst of
                [] \<Rightarrow> None
              | _ # dst' \<Rightarrow>
                  map_option (\<lambda>(d, l). (c # d, Suc l)) (OPENSSL_strlcpy dst' src' (dst_size - 1)))
           else if dst_size \<noteq> 0 then
             (case dst of
                [] \<Rightarrow> None
              | _ # dst' \<Rightarrow> map_option (\<lambda>l. (0 # dst', l)) (strlen src))
           else map_option (\<lambda>l. (dst, l)) (strlen src)))"

declare OPENSSL_strlcpy.simps [simp del]

fun OPENSSL_strlcat :: "byte list \<Rightarrow> byte list \<Rightarrow> nat \<Rightarrow> (byte list \<times> nat) option" where
  "OPENSSL_strlcat dst src 0 = OPENSSL_strlcpy dst src 0"
| "OPENSSL_strlcat [] src (Suc n) = None"
| "OPENSSL_strlcat (d # dst) src (Suc n) =
     (if d \<noteq> 0 then map_option (\<lambda>(r, l). (d # r, Suc l)) (OPENSSL_strlcat dst src n)
      else OPENSSL_strlcpy (d # dst) src (Suc n))"

text \<open>A C string: non-NUL bytes, a NUL, and whatever follows in the array.\<close>

definition cstring :: "byte list \<Rightarrow> byte list \<Rightarrow> byte list" where
  "cstring s rest = s @ 0 # rest"

lemma strlen_cstring: "0 \<notin> set s \<Longrightarrow> strlen (cstring s rest) = Some (length s)"
  by (induction s) (auto simp: cstring_def)

lemma strnlen_cstring:
  "0 \<notin> set s \<Longrightarrow> OPENSSL_strnlen (cstring s rest) n = Some (min n (length s))"
  by (induction s arbitrary: n; case_tac n) (auto simp: cstring_def)

text \<open>The copy: at most \<open>dst_size - 1\<close> characters and a NUL, inside the first \<open>dst_size\<close> bytes
  of the destination; the result is the length of the source, truncated or not.\<close>

lemma strlcpy_spec:
  assumes "0 \<notin> set s" and "dst_size \<le> length dst" and "0 < dst_size"
  shows "OPENSSL_strlcpy dst (cstring s rest) dst_size =
    Some (take (dst_size - 1) s @ 0 # drop (min (length s) (dst_size - 1) + 1) dst, length s)"
  using assms
proof (induction s arbitrary: dst dst_size)
  case Nil
  then obtain d dst' where "dst = d # dst'" by (cases dst) auto
  with Nil show ?case
    by (simp add: OPENSSL_strlcpy.simps [of "d # dst'"] cstring_def)
next
  case (Cons c s)
  obtain d dst' where dst: "dst = d # dst'"
    using Cons.prems by (cases dst) auto
  show ?case
  proof (cases "dst_size > 1")
    case True
    then have "dst_size = Suc (Suc (dst_size - 2))"
      by arith
    then obtain m where m: "dst_size = Suc (Suc m)" ..
    then have "OPENSSL_strlcpy dst' (cstring s rest) (Suc m) =
      Some (take m s @ 0 # drop (min (length s) m + 1) dst', length s)"
      using Cons.IH [of "Suc m" dst'] Cons.prems dst by auto
    with m show ?thesis
      using True Cons.prems dst
      by (simp add: OPENSSL_strlcpy.simps [of "d # dst'"] cstring_def)
  next
    case False
    with Cons.prems have "dst_size = 1" by simp
    moreover have "strlen (cstring (c # s) rest) = Some (length (c # s))"
      using Cons.prems by (intro strlen_cstring)
    ultimately show ?thesis
      using Cons.prems dst
      by (simp add: OPENSSL_strlcpy.simps [of "d # dst'"] cstring_def)
  qed
qed

lemma strlcpy_zero_spec:
  "0 \<notin> set s \<Longrightarrow> OPENSSL_strlcpy dst (cstring s rest) 0 = Some (dst, length s)"
  using strlen_cstring [of s rest]
  by (cases s) (auto simp: OPENSSL_strlcpy.simps [of dst] cstring_def)

lemma strlcat_spec:
  assumes "0 \<notin> set s" and "0 \<notin> set t"
    and "dst_size \<le> length (cstring t junk)" and "length t < dst_size"
  shows "OPENSSL_strlcat (cstring t junk) (cstring s rest) dst_size =
    Some (t @ take (dst_size - length t - 1) s
            @ 0 # drop (min (length s) (dst_size - length t - 1)) junk,
          length t + length s)"
  using assms
proof (induction t arbitrary: dst_size)
  case Nil
  then obtain n where n: "dst_size = Suc n" by (cases dst_size) auto
  with Nil show ?case
    using strlcpy_spec [of s dst_size "0 # junk" rest] by (simp add: cstring_def)
next
  case (Cons c t)
  then obtain n where n: "dst_size = Suc n" by (cases dst_size) auto
  have "OPENSSL_strlcat (cstring t junk) (cstring s rest) n =
    Some (t @ take (n - length t - 1) s @ 0 # drop (min (length s) (n - length t - 1)) junk,
          length t + length s)"
    using Cons.IH [of n] Cons.prems n by (simp add: cstring_def)
  with Cons.prems n show ?case by (simp add: cstring_def)
qed

lemma strndup_spec:
  assumes "malloc_law m" and "0 \<notin> set s" and "length s + 1 < size_mod - 8"
    and "OPENSSL_strndup m (cstring s rest) n = Some d"
  shows "d = take n s @ [0]"
proof -
  let ?k = "min n (length s)"
  have k: "?k + 1 < size_mod - 8" using assms(3) by linarith
  then have add: "size_add ?k 1 = ?k + 1" by (intro size_add_exact) linarith
  obtain ret where ret: "OPENSSL_malloc m (?k + 1) = Some ret"
    and d: "d = (take ?k (cstring s rest) @ drop ?k ret)[?k := 0]"
    using assms(4) add
    by (auto simp: OPENSSL_strndup_def strnlen_cstring [OF assms(2)] Let_def split: option.splits if_splits)
  have len: "length ret = ?k + 1"
    using OPENSSL_malloc_length [OF assms(1) k ret] .
  have tk: "take ?k (cstring s rest) = take n s"
    by (simp add: cstring_def min_def)
  obtain x where x: "drop ?k ret = [x]"
  proof -
    have "length (drop ?k ret) = Suc 0" using len by simp
    then show ?thesis using that by (auto simp: length_Suc_conv simp del: length_drop)
  qed
  have "(take n s @ [x])[?k := 0] = take n s @ [0]"
    by (simp add: list_update_append min.commute)
  with d tk x show ?thesis by simp
qed

text \<open>Case-insensitive comparison decides equality of the lower-cased strings.\<close>

lemma OPENSSL_tolower_zero_iff: "OPENSSL_tolower c = 0 \<longleftrightarrow> c = 0"
  by (auto simp: OPENSSL_tolower_def)

lemma OPENSSL_tolower_zero [simp]: "OPENSSL_tolower 0 = 0"
  by (simp add: OPENSSL_tolower_def)

lemma sint_zero_iff: "sint (w :: byte) = 0 \<longleftrightarrow> w = 0"
  by (metis signed_0 signed_word_eqI)

lemma strcasecmp_total:
  assumes "0 \<notin> set s" and "0 \<notin> set t"
  shows "\<exists>r. OPENSSL_strcasecmp (cstring s x) (cstring t y) = Some r \<and>
    (r = 0 \<longleftrightarrow> map (OPENSSL_tolower \<circ> sint) s = map (OPENSSL_tolower \<circ> sint) t)"
  using assms
proof (induction s arbitrary: t)
  case Nil
  then show ?case
    by (cases t) (auto simp: cstring_def Let_def OPENSSL_tolower_zero_iff sint_zero_iff not_less)
next
  case (Cons a s)
  show ?case
  proof (cases t)
    case Nil
    with Cons.prems show ?thesis
      by (auto simp: cstring_def Let_def OPENSSL_tolower_zero_iff sint_zero_iff not_less)
  next
    case (Cons b t')
    then show ?thesis
      using Cons.IH [of t'] Cons.prems
      by (auto simp: cstring_def Let_def OPENSSL_tolower_zero_iff sint_zero_iff not_less)
  qed
qed

section \<open>Properties\<close>

text \<open>\<open>OPENSSL_strlcpy\<close> stays within the first \<open>dst_size\<close> bytes of the destination, always
  terminates the copy with a NUL, and returns the length of the whole source; a copy into a
  buffer of size 0 writes nothing.\<close>

theorem OPENSSL_strlcpy_bounded:
  assumes "0 \<notin> set s" and "dst_size \<le> length dst"
  shows "OPENSSL_strlcpy dst (cstring s rest) dst_size =
    Some (if dst_size = 0 then dst
          else take (dst_size - 1) s @ 0 # drop (min (length s) (dst_size - 1) + 1) dst, length s)"
  using strlcpy_spec [OF assms] strlcpy_zero_spec [OF assms(1)] by auto

theorem OPENSSL_strlcpy_bounded_witness:
  "OPENSSL_strlcpy [9, 9, 9, 9] (cstring [1, 2, 3, 4, 5] []) 3 = Some ([1, 2, 0, 9], 5)"
  using OPENSSL_strlcpy_bounded [of "[1, 2, 3, 4, 5]" 3 "[9, 9, 9, 9]" "[]"] by simp

text \<open>\<open>OPENSSL_strndup\<close> returns a block of its own with the first characters of the string and
  a NUL, however long the array behind the string is.\<close>

theorem OPENSSL_strndup_copies:
  assumes "malloc_law m" and "0 \<notin> set s" and "length s + 1 < size_mod - 8"
    and "OPENSSL_strndup m (cstring s rest) n = Some d"
  shows "d = take n s @ [0]"
  by (rule strndup_spec [OF assms])

theorem OPENSSL_strndup_copies_witness:
  "OPENSSL_strndup (\<lambda>n. if n < 64 then Some (replicate n 7) else None) (cstring [1, 2, 3] [5]) 2 =
    Some ([1, 2] @ [0])"
proof -
  let ?m = "\<lambda>n. if n < 64 then Some (replicate n 7) else None"
  obtain d where d: "OPENSSL_strndup ?m (cstring [1, 2, 3] [5]) 2 = Some d"
    using strnlen_cstring [of "[1, 2, 3]" "[5]" 2]
    by (auto simp: OPENSSL_strndup_def size_add_def OPENSSL_malloc_def)
  have "malloc_law ?m" by (simp add: malloc_law_def)
  from OPENSSL_strndup_copies [OF this _ _ d] d show ?thesis by simp
qed

text \<open>\<open>OPENSSL_malloc\<close> does not check the addition of its prefix: a request within 8 bytes of
  \<open>SIZE_MAX\<close> wraps around, and a successful call then returns a block with no bytes of its own.\<close>

theorem OPENSSL_malloc_wraps:
  assumes "malloc_law m" and "size_mod - 8 \<le> n" and "n < size_mod"
    and "OPENSSL_malloc m n = Some b"
  shows "b = []"
  using OPENSSL_malloc_wraps_length [OF assms] by simp

theorem OPENSSL_malloc_wraps_witness:
  "OPENSSL_malloc (\<lambda>n. if n < 64 then Some (replicate n 7) else None) (2 ^ 64 - 1) = Some []"
proof -
  let ?m = "\<lambda>n. if n < 64 then Some (replicate n 7) else None"
  obtain b where b: "OPENSSL_malloc ?m (2 ^ 64 - 1) = Some b"
    by (auto simp: OPENSSL_malloc_def size_add_def)
  have "malloc_law ?m" by (simp add: malloc_law_def)
  from OPENSSL_malloc_wraps [OF this _ _ b] b show ?thesis by simp
qed

end
