(* ===== verification/Cbs.thy ===== *)
theory Cbs
  imports Mem
begin

text \<open>
  \<open>crypto/bytestring/cbs.c\<close>, the length-checked reader: a \<open>CBS\<close> is a window (\<open>data\<close>,
  \<open>len\<close>) on immutable memory, modelled as the list of the bytes in the window. A reader takes
  bytes off its front and leaves the rest; \<open>None\<close> is the return value 0.
\<close>

type_synonym cbs = "byte list"

section \<open>The window\<close>

definition CBS_init :: "byte list \<Rightarrow> nat \<Rightarrow> cbs" where
  "CBS_init dat len = take len dat"

definition cbs_get :: "nat \<Rightarrow> (cbs, byte list) cop" where
  "cbs_get n cbs = (if length cbs < n then (None, cbs) else (Some (take n cbs), drop n cbs))"

definition CBS_skip :: "nat \<Rightarrow> (cbs, unit) cop" where
  "CBS_skip len = op_bind (cbs_get len) (\<lambda>dummy. op_ret ())"

definition CBS_data :: "cbs \<Rightarrow> byte list" where
  "CBS_data cbs = cbs"

definition CBS_len :: "cbs \<Rightarrow> nat" where
  "CBS_len cbs = length cbs"

text \<open>\<open>CBS_stow\<close> returns its success and what it leaves in \<open>*out_ptr\<close> and \<open>*out_len\<close>;
  \<open>None\<close> is \<open>NULL\<close>.\<close>

definition CBS_stow :: "mallocf \<Rightarrow> cbs \<Rightarrow> bool \<times> byte list option \<times> nat" where
  "CBS_stow m cbs =
     (if CBS_len cbs = 0 then (True, None, 0)
      else case OPENSSL_memdup m (CBS_data cbs) (CBS_len cbs) of
             None \<Rightarrow> (False, None, 0)
           | Some p \<Rightarrow> (True, Some p, CBS_len cbs))"

definition CBS_strdup :: "mallocf \<Rightarrow> cbs \<Rightarrow> byte list option" where
  "CBS_strdup m cbs = OPENSSL_strndup m (CBS_data cbs) (CBS_len cbs)"

definition CBS_contains_zero_byte :: "cbs \<Rightarrow> bool" where
  "CBS_contains_zero_byte cbs = list_ex (\<lambda>b. b = 0) (CBS_data cbs)"

definition CBS_mem_equal :: "cbs \<Rightarrow> byte list \<Rightarrow> nat \<Rightarrow> bool" where
  "CBS_mem_equal cbs dat len =
     (if len \<noteq> CBS_len cbs then False else CRYPTO_memcmp (CBS_data cbs) dat len = 0)"

section \<open>Integers\<close>

definition cbs_get_u :: "nat \<Rightarrow> (cbs, u64) cop" where
  "cbs_get_u len =
     op_bind (cbs_get len) (\<lambda>data.
       op_ret (foldl (\<lambda>result b. push_bit 8 result OR ucast b) 0 data))"

definition CBS_get_u8 :: "(cbs, byte) cop" where
  "CBS_get_u8 = op_bind (cbs_get 1) (\<lambda>v. op_ret (hd v))"

definition CBS_get_u16 :: "(cbs, u16) cop" where
  "CBS_get_u16 = op_bind (cbs_get_u 2) (\<lambda>v. op_ret (ucast v))"

definition CRYPTO_bswap2 :: "u16 \<Rightarrow> u16" where
  "CRYPTO_bswap2 x = drop_bit 8 x OR push_bit 8 x"

definition CRYPTO_bswap4 :: "u32 \<Rightarrow> u32" where
  "CRYPTO_bswap4 x0 =
     (let x = drop_bit 16 x0 OR push_bit 16 x0
      in drop_bit 8 (x AND 0xff00ff00) OR push_bit 8 (x AND 0x00ff00ff))"

definition CRYPTO_bswap8 :: "u64 \<Rightarrow> u64" where
  "CRYPTO_bswap8 x =
     ucast (CRYPTO_bswap4 (ucast (drop_bit 32 x))) OR
     push_bit 32 (ucast (CRYPTO_bswap4 (ucast x)))"

definition CBS_get_u16le :: "(cbs, u16) cop" where
  "CBS_get_u16le = op_bind CBS_get_u16 (\<lambda>out. op_ret (CRYPTO_bswap2 out))"

definition CBS_get_u24 :: "(cbs, u32) cop" where
  "CBS_get_u24 = op_bind (cbs_get_u 3) (\<lambda>v. op_ret (ucast v))"

definition CBS_get_u32 :: "(cbs, u32) cop" where
  "CBS_get_u32 = op_bind (cbs_get_u 4) (\<lambda>v. op_ret (ucast v))"

definition CBS_get_u32le :: "(cbs, u32) cop" where
  "CBS_get_u32le = op_bind CBS_get_u32 (\<lambda>out. op_ret (CRYPTO_bswap4 out))"

definition CBS_get_u64 :: "(cbs, u64) cop" where
  "CBS_get_u64 = cbs_get_u 8"

definition CBS_get_u64le :: "(cbs, u64) cop" where
  "CBS_get_u64le = op_bind (cbs_get_u 8) (\<lambda>out. op_ret (CRYPTO_bswap8 out))"

definition CBS_get_last_u8 :: "(cbs, byte) cop" where
  "CBS_get_last_u8 cbs =
     (if length cbs = 0 then (None, cbs)
      else (Some (cbs ! (length cbs - 1)), take (length cbs - 1) cbs))"

definition CBS_get_bytes :: "nat \<Rightarrow> (cbs, cbs) cop" where
  "CBS_get_bytes len = op_bind (cbs_get len) (\<lambda>v. op_ret (CBS_init v len))"

definition CBS_copy_bytes :: "nat \<Rightarrow> (cbs, byte list) cop" where
  "CBS_copy_bytes len = op_bind (cbs_get len) (\<lambda>v. op_ret (take len v))"

section \<open>Length-prefixed vectors\<close>

definition cbs_get_length_prefixed :: "nat \<Rightarrow> (cbs, cbs) cop" where
  "cbs_get_length_prefixed len_len =
     op_bind (cbs_get_u len_len) (\<lambda>len. CBS_get_bytes (unat len))"

definition CBS_get_u8_length_prefixed :: "(cbs, cbs) cop" where
  "CBS_get_u8_length_prefixed = cbs_get_length_prefixed 1"

definition CBS_get_u16_length_prefixed :: "(cbs, cbs) cop" where
  "CBS_get_u16_length_prefixed = cbs_get_length_prefixed 2"

definition CBS_get_u24_length_prefixed :: "(cbs, cbs) cop" where
  "CBS_get_u24_length_prefixed = cbs_get_length_prefixed 3"

section \<open>Lemmas\<close>

lemmas cbs_window_defs = CBS_init_def CBS_data_def CBS_len_def

lemma cbs_get_Some_iff:
  "cbs_get n s = (Some p, s') \<longleftrightarrow> s = p @ s' \<and> length p = n"
  by (auto simp: cbs_get_def)

lemma cbs_get_append: "length p = n \<Longrightarrow> cbs_get n (p @ s) = (Some p, s)"
  by (simp add: cbs_get_def)

lemma cbs_get_None_iff: "cbs_get n s = (None, s') \<longleftrightarrow> length s < n \<and> s' = s"
  by (auto simp: cbs_get_def)

lemma CBS_get_bytes_eq: "CBS_get_bytes n = cbs_get n"
  by (rule ext) (auto simp: CBS_get_bytes_def op_simps CBS_init_def cbs_get_def)

lemma CBS_get_u8_Nil [simp]: "CBS_get_u8 [] = (None, [])"
  by (simp add: CBS_get_u8_def op_simps cbs_get_def)

lemma CBS_get_u8_Cons [simp]: "CBS_get_u8 (b # s) = (Some b, s)"
  by (simp add: CBS_get_u8_def op_simps cbs_get_def)

lemma CBS_get_u8_Some_iff: "CBS_get_u8 s = (Some b, s') \<longleftrightarrow> s = b # s'"
  by (cases s) auto

lemma CBS_skip_append: "length p = n \<Longrightarrow> CBS_skip n (p @ s) = (Some (), s)"
  by (simp add: CBS_skip_def op_simps cbs_get_append)

lemma CBS_skip_eq:
  "CBS_skip n s = (if length s < n then (None, s) else (Some (), drop n s))"
  by (simp add: CBS_skip_def op_simps cbs_get_def)

text \<open>The shift-and-or loop computes the big-endian value of the bytes, modulo \<open>2 ^ 64\<close>.\<close>

lemma ucast_byte_or_add:
  "push_bit 8 (r :: u64) OR ucast (b :: byte) = r * 256 + ucast b"
proof -
  have "push_bit 8 r AND ucast b = (0 :: u64)"
    by (rule bit_word_eqI) (auto simp: bit_simps dest!: bit_imp_le_length)
  then have "push_bit 8 r OR ucast b = push_bit 8 r + (ucast b :: u64)"
    by (rule disjunctive_add_eq_or [symmetric])
  then show ?thesis by (simp add: push_bit_eq_mult)
qed

lemma foldl_bytes_u64:
  "foldl (\<lambda>result b. push_bit 8 result OR ucast b) (word_of_nat v :: u64) bs =
   word_of_nat (v * 256 ^ length bs + be_val bs)"
proof (induction bs rule: rev_induct)
  case Nil
  then show ?case by simp
next
  case (snoc b bs)
  have "(word_of_nat (v * 256 ^ length bs + be_val bs) :: u64) * 256 + ucast b =
    word_of_nat ((v * 256 ^ length bs + be_val bs) * 256 + unat b)"
    by simp
  with snoc show ?case by (simp add: ucast_byte_or_add algebra_simps)
qed

lemma cbs_get_u_eq:
  "cbs_get_u n s =
    (if length s < n then (None, s)
     else (Some (word_of_nat (be_val (take n s))), drop n s))"
  using foldl_bytes_u64 [of 0] by (simp add: cbs_get_u_def op_simps cbs_get_def)

lemma unat_be_val_u64:
  assumes "length bs \<le> 8"
  shows "unat (word_of_nat (be_val bs) :: u64) = be_val bs"
proof -
  have "(256 :: nat) ^ length bs \<le> 256 ^ 8"
    using assms by (intro power_increasing) auto
  with be_val_less [of bs] have "be_val bs < 2 ^ 64"
    by (simp add: less_le_trans)
  then show ?thesis by (simp add: unat_of_nat)
qed

lemma cbs_get_u_Some_iff:
  assumes "n \<le> 8"
  shows "cbs_get_u n s = (Some v, s') \<longleftrightarrow> s = be_bytes n (unat v) @ s' \<and> unat v < 256 ^ n"
proof
  assume "cbs_get_u n s = (Some v, s')"
  then have n: "n \<le> length s" and v: "v = word_of_nat (be_val (take n s))"
    and s': "s' = drop n s"
    by (auto simp: cbs_get_u_eq split: if_splits)
  have l: "length (take n s) = n" using n by simp
  have uv: "unat v = be_val (take n s)"
    using v l assms by (simp add: unat_be_val_u64)
  have "be_bytes n (unat v) = take n s"
    using be_bytes_be_val [of "take n s"] l uv by simp
  moreover have "unat v < 256 ^ n"
    using be_val_less [of "take n s"] l uv by simp
  ultimately show "s = be_bytes n (unat v) @ s' \<and> unat v < 256 ^ n"
    using s' by simp
next
  assume "s = be_bytes n (unat v) @ s' \<and> unat v < 256 ^ n"
  then show "cbs_get_u n s = (Some v, s')"
    by (simp add: cbs_get_u_eq be_val_be_bytes)
qed

lemma cbs_get_u_be_bytes:
  assumes "n \<le> 8" and "v < 256 ^ n"
  shows "cbs_get_u n (be_bytes n v @ s) = (Some (word_of_nat v), s)"
  using assms by (simp add: cbs_get_u_eq be_val_be_bytes)

lemma cbs_get_u_None_iff: "cbs_get_u n s = (None, s') \<longleftrightarrow> length s < n \<and> s' = s"
  by (auto simp: cbs_get_u_eq)

text \<open>The byte swap of the 16-bit reader reverses the two bytes.\<close>

lemma CRYPTO_bswap2_bit: "bit (CRYPTO_bswap2 x) n \<longleftrightarrow> n < 16 \<and> bit x (if n < 8 then n + 8 else n - 8)"
  by (auto simp: CRYPTO_bswap2_def bit_simps add.commute dest: bit_imp_le_length)

lemma CRYPTO_bswap2_involution: "CRYPTO_bswap2 (CRYPTO_bswap2 x) = x"
  by (rule bit_word_eqI) (auto simp: CRYPTO_bswap2_bit)

end
