(* ===== verification/Asn1Spec.thy ===== *)
theory Asn1Spec
  imports Prelude
begin

text \<open>
  The abstract specification shared by the ASN.1 reader and the ASN.1 writer: the minimal
  base-128 numbers, the identifier octets and the definite length octets of DER (X.690), as
  functions from numbers to bytes. Nothing here models code; \<open>CbsAsn1\<close> shows that the reader
  accepts exactly these strings and \<open>CbbAsn1\<close> that the writer emits them.
\<close>

section \<open>Tag constants\<close>

abbreviation CBS_ASN1_TAG_SHIFT :: nat where
  "CBS_ASN1_TAG_SHIFT \<equiv> 24"

definition CBS_ASN1_CONSTRUCTED :: u32 where
  "CBS_ASN1_CONSTRUCTED = push_bit CBS_ASN1_TAG_SHIFT 0x20"

definition CBS_ASN1_TAG_NUMBER_MASK :: u32 where
  "CBS_ASN1_TAG_NUMBER_MASK = push_bit (5 + CBS_ASN1_TAG_SHIFT) 1 - 1"

definition CBS_ASN1_BOOLEAN :: u32 where
  "CBS_ASN1_BOOLEAN = 1"

definition CBS_ASN1_INTEGER :: u32 where
  "CBS_ASN1_INTEGER = 2"

definition CBS_ASN1_OCTETSTRING :: u32 where
  "CBS_ASN1_OCTETSTRING = 4"

lemma CBS_ASN1_TAG_NUMBER_MASK_eq: "CBS_ASN1_TAG_NUMBER_MASK = 0x1fffffff"
  by (simp add: CBS_ASN1_TAG_NUMBER_MASK_def)

lemma CBS_ASN1_CONSTRUCTED_eq: "CBS_ASN1_CONSTRUCTED = 0x20000000"
  by (simp add: CBS_ASN1_CONSTRUCTED_def)

section \<open>Base-128 numbers\<close>

fun base128_cont :: "nat \<Rightarrow> byte list" where
  "base128_cont v =
     (if v = 0 then [] else base128_cont (v div 128) @ [word_of_nat (128 + v mod 128)])"

declare base128_cont.simps [simp del]

definition base128 :: "nat \<Rightarrow> byte list" where
  "base128 v = base128_cont (v div 128) @ [word_of_nat (v mod 128)]"

lemma base128_cont_0 [simp]: "base128_cont 0 = []"
  by (simp add: base128_cont.simps)

lemma base128_cont_pos:
  "0 < v \<Longrightarrow> base128_cont v = base128_cont (v div 128) @ [word_of_nat (128 + v mod 128)]"
  by (simp add: base128_cont.simps [of v])

lemma base128_cont_step:
  assumes "d < 128" and "v \<noteq> 0 \<or> d \<noteq> 0"
  shows "base128_cont (v * 128 + d) = base128_cont v @ [word_of_nat (128 + d)]"
  using assms by (subst base128_cont_pos) auto

lemma base128_step:
  assumes "d < 128"
  shows "base128 (v * 128 + d) = base128_cont v @ [word_of_nat d]"
  using assms by (simp add: base128_def)

lemma length_base128_cont: "v < 128 ^ k \<Longrightarrow> length (base128_cont v) \<le> k"
proof (induction k arbitrary: v)
  case 0
  then show ?case by simp
next
  case (Suc k)
  show ?case
  proof (cases "v = 0")
    case False
    from Suc.prems have "v div 128 < 128 ^ k"
      by (simp add: less_mult_imp_div_less mult.commute)
    from Suc.IH [OF this] False show ?thesis
      by (simp add: base128_cont_pos)
  qed simp
qed

lemma length_base128:
  assumes "v < 128 ^ Suc k"
  shows "length (base128 v) \<le> Suc k"
proof -
  from assms have "v div 128 < 128 ^ k"
    by (simp add: less_mult_imp_div_less mult.commute)
  from length_base128_cont [OF this] show ?thesis by (simp add: base128_def)
qed

section \<open>Identifier octets\<close>

text \<open>The class and constructed bits are the top three bits of a tag, the number the lower 29.\<close>

definition der_tag :: "u32 \<Rightarrow> byte list" where
  "der_tag tag =
     (let bits = unat tag div 2 ^ 29 * 32; num = unat tag mod 2 ^ 29
      in if num < 31 then [word_of_nat (bits + num)]
         else word_of_nat (bits + 31) # base128 num)"

lemma der_tag_nonempty [simp]: "der_tag tag \<noteq> []"
  by (simp add: der_tag_def Let_def)

lemma length_der_tag_pos: "0 < length (der_tag tag)"
  by simp

lemma length_der_tag_le: "length (der_tag tag) \<le> 6"
proof -
  have "unat tag mod 2 ^ 29 < 128 ^ Suc 4"
    by (rule less_trans [of _ "2 ^ 29"]) simp_all
  from length_base128 [OF this] show ?thesis by (simp add: der_tag_def Let_def)
qed

section \<open>Length octets\<close>

fun byte_len :: "nat \<Rightarrow> nat" where
  "byte_len n = (if n = 0 then 0 else Suc (byte_len (n div 256)))"

declare byte_len.simps [simp del]

definition der_length :: "nat \<Rightarrow> byte list" where
  "der_length n =
     (if n < 128 then [word_of_nat n]
      else word_of_nat (128 + byte_len n) # be_bytes (byte_len n) n)"

lemma byte_len_0 [simp]: "byte_len 0 = 0"
  by (simp add: byte_len.simps)

lemma byte_len_pos: "0 < n \<Longrightarrow> byte_len n = Suc (byte_len (n div 256))"
  by (simp add: byte_len.simps [of n])

lemma byte_len_unique:
  assumes "256 ^ k \<le> n" and "n < 256 ^ Suc k"
  shows "byte_len n = Suc k"
  using assms
proof (induction k arbitrary: n)
  case 0
  then show ?case by (simp add: byte_len_pos)
next
  case (Suc k)
  have "256 ^ k \<le> n div 256" and "n div 256 < 256 ^ Suc k"
    using Suc.prems by (simp_all add: less_eq_div_iff_mult_less_eq less_mult_imp_div_less mult.commute)
  then have "byte_len (n div 256) = Suc k"
    by (rule Suc.IH)
  moreover have "0 < n"
    using Suc.prems(1) by (cases n) simp_all
  ultimately show ?case
    by (simp add: byte_len_pos)
qed

lemma less_256_byte_len: "n < 256 ^ byte_len n"
proof (induction n rule: byte_len.induct)
  case (1 n)
  show ?case
  proof (cases "n = 0")
    case False
    with 1 have "n div 256 < 256 ^ byte_len (n div 256)" by blast
    then have "n < 256 ^ byte_len (n div 256) * 256"
      by (simp add: div_less_iff_less_mult)
    with False show ?thesis by (simp add: byte_len_pos mult.commute)
  qed simp
qed

lemma byte_len_ge: "0 < n \<Longrightarrow> 256 ^ (byte_len n - 1) \<le> n"
proof (induction n rule: byte_len.induct)
  case (1 n)
  show ?case
  proof (cases "n div 256 = 0")
    case True
    with 1 show ?thesis by (simp add: byte_len_pos)
  next
    case False
    then obtain k where k: "byte_len (n div 256) = Suc k"
      by (simp add: byte_len_pos)
    have "256 ^ (byte_len (n div 256) - 1) \<le> n div 256"
      using 1 False by blast
    then have "256 ^ k * 256 \<le> n"
      using k by (simp add: less_eq_div_iff_mult_less_eq)
    with 1 k show ?thesis by (simp add: byte_len_pos mult.commute)
  qed
qed

lemma byte_len_le: "n < 256 ^ k \<Longrightarrow> byte_len n \<le> k"
proof (induction k arbitrary: n)
  case 0
  then show ?case by simp
next
  case (Suc k)
  then have "n div 256 < 256 ^ k"
    by (simp add: less_mult_imp_div_less mult.commute)
  with Suc.IH show ?case
    by (cases "n = 0") (simp_all add: byte_len_pos)
qed

lemma der_length_nonempty [simp]: "der_length n \<noteq> []"
  by (simp add: der_length_def)

lemma length_der_length: "length (der_length n) = (if n < 128 then 1 else Suc (byte_len n))"
  by (simp add: der_length_def)

lemma length_der_length_le: "n < 2 ^ 32 \<Longrightarrow> length (der_length n) \<le> 5"
  using byte_len_le [of n 4] by (simp add: length_der_length)

section \<open>Elements\<close>

definition der_header :: "u32 \<Rightarrow> nat \<Rightarrow> byte list" where
  "der_header tag n = der_tag tag @ der_length n"

definition der_element :: "u32 \<Rightarrow> byte list \<Rightarrow> byte list" where
  "der_element tag c = der_header tag (length c) @ c"

lemma length_der_header_le: "n < 2 ^ 32 \<Longrightarrow> length (der_header tag n) \<le> 11"
  using length_der_tag_le [of tag] length_der_length_le [of n] by (simp add: der_header_def)

lemma length_der_header_ge: "2 \<le> length (der_header tag n)"
proof -
  have "0 < length (der_tag tag)" and "0 < length (der_length n)" by simp_all
  then show ?thesis unfolding der_header_def length_append by linarith
qed

section \<open>Integers\<close>

text \<open>The contents of an \<open>INTEGER\<close>: the shortest two's complement big-endian string.\<close>

function der_int :: "int \<Rightarrow> byte list" where
  "der_int i =
     (if -128 \<le> i \<and> i < 128 then [word_of_int i]
      else der_int (i div 256) @ [word_of_int i])"
  by pat_completeness auto
termination
  by (relation "measure (\<lambda>i. nat \<bar>i\<bar>)") (auto simp: nat_less_iff abs_if)

declare der_int.simps [simp del]

text \<open>The value of such a string, and what makes it the shortest one.\<close>

definition signed_val :: "byte list \<Rightarrow> int" where
  "signed_val bs = int (be_val bs) - (if unat (hd bs) < 128 then 0 else 256 ^ length bs)"

definition minimal_int :: "byte list \<Rightarrow> bool" where
  "minimal_int bs \<longleftrightarrow> 1 < length bs \<longrightarrow>
     \<not> (bs ! 0 = 0 \<and> unat (bs ! 1) < 128) \<and> \<not> (bs ! 0 = 0xff \<and> 128 \<le> unat (bs ! 1))"

lemma der_int_small: "-128 \<le> i \<Longrightarrow> i < 128 \<Longrightarrow> der_int i = [word_of_int i]"
  by (simp add: der_int.simps [of i])

lemma der_int_big: "i < -128 \<or> 128 \<le> i \<Longrightarrow> der_int i = der_int (i div 256) @ [word_of_int i]"
  by (subst der_int.simps) auto

lemma der_int_nonempty [simp]: "der_int i \<noteq> []"
  by (subst der_int.simps) simp

lemma int_unat_word_of_int: "int (unat (word_of_int i :: byte)) = i mod 256"
  by (simp add: uint_word_of_int flip: uint_nat)

lemma unat_byte_eq_256: "unat (b :: byte) = 256 \<Longrightarrow> P"
  using unat_byte_less [of b] by linarith

lemma signed_val_single: "signed_val [b] = int (unat b) - (if unat b < 128 then 0 else 256)"
  by (simp add: signed_val_def be_val_def)

lemma signed_val_snoc: "bs \<noteq> [] \<Longrightarrow> signed_val (bs @ [b]) = signed_val bs * 256 + int (unat b)"
  by (simp add: signed_val_def algebra_simps)

lemma small_iff_div: "-128 \<le> i \<and> i < 128 \<longleftrightarrow>
    (i div 256 = 0 \<and> i mod 256 < 128) \<or> (i div 256 = -1 \<and> 128 \<le> i mod 256)" for i :: int
proof -
  have "i = i div 256 * 256 + i mod 256" and "0 \<le> i mod 256" and "i mod 256 < 256"
    by simp_all
  then show ?thesis by (smt (verit))
qed

lemma signed_val_der_int: "signed_val (der_int i) = i"
proof (induction i rule: der_int.induct)
  case (1 i)
  show ?case
  proof (cases "-128 \<le> i \<and> i < 128")
    case True
    have *: "unat (word_of_int i :: byte) < 128 \<longleftrightarrow> i mod 256 < 128"
      using int_unat_word_of_int [of i] by linarith
    have "signed_val [word_of_int i] = i mod 256 - (if i mod 256 < 128 then 0 else 256)"
      unfolding signed_val_single int_unat_word_of_int * by simp
    also have "\<dots> = i"
    proof -
      have "i = i div 256 * 256 + i mod 256" by simp
      then show ?thesis using True small_iff_div [of i] by (smt (verit))
    qed
    finally show ?thesis using True by (simp add: der_int_small)
  next
    case False
    with 1 have "signed_val (der_int (i div 256)) = i div 256" by blast
    then show ?thesis
      using False der_int_big [of i] div_mult_mod_eq [of i 256]
      by (auto simp: signed_val_snoc int_unat_word_of_int simp del: of_nat_unat)
  qed
qed

lemma length_der_int_1_iff: "length (der_int i) = 1 \<longleftrightarrow> -128 \<le> i \<and> i < 128"
  by (subst der_int.simps) simp

lemma minimal_int_snoc:
  assumes "2 \<le> length bs"
  shows "minimal_int (bs @ [b]) = minimal_int bs"
  using assms by (auto simp: minimal_int_def nth_append)

lemma minimal_int_two:
  "minimal_int [a, b] \<longleftrightarrow> \<not> (-128 \<le> signed_val [a, b] \<and> signed_val [a, b] < 128)"
proof -
  define v where "v = signed_val [a, b]"
  have v: "v = signed_val [a] * 256 + int (unat b)"
    using signed_val_snoc [of "[a]" b] by (simp add: v_def)
  have b: "int (unat b) < 256" using unat_byte_less [of b] by linarith
  have "v div 256 = signed_val [a]" and "v mod 256 = int (unat b)"
    using b by (simp_all add: v)
  moreover have "signed_val [a] = 0 \<longleftrightarrow> a = 0"
    using unat_byte_less [of a] by (auto simp: signed_val_single word_unat_eq_iff simp del: of_nat_unat dest: unat_byte_eq_256)
  moreover have "signed_val [a] = -1 \<longleftrightarrow> a = 0xff"
    using unat_byte_less [of a] by (auto simp: signed_val_single word_unat_eq_iff simp del: of_nat_unat dest: unat_byte_eq_256)
  ultimately show ?thesis
    using small_iff_div [of v] by (auto simp: minimal_int_def v_def simp del: of_nat_unat)
qed

lemma der_int_signed_val:
  "bs \<noteq> [] \<Longrightarrow> minimal_int bs \<Longrightarrow> der_int (signed_val bs) = bs"
proof (induction bs rule: rev_induct)
  case Nil
  then show ?case by simp
next
  case (snoc b bs)
  show ?case
  proof (cases "bs = []")
    case True
    have "-128 \<le> signed_val [b]" and "signed_val [b] < 128"
      using unat_byte_less [of b] by (simp_all only: signed_val_single split: if_split) linarith+
    moreover have "word_of_int (signed_val [b]) = b"
      using byte_256 by (simp add: signed_val_single)
    ultimately show ?thesis using True by (simp add: der_int_small)
  next
    case False
    define v where "v = signed_val (bs @ [b])"
    have v: "v = signed_val bs * 256 + int (unat b)"
      using False by (simp add: v_def signed_val_snoc)
    have b: "int (unat b) < 256" using unat_byte_less [of b] by linarith
    have d: "v div 256 = signed_val bs" "v mod 256 = int (unat b)"
      using b by (simp_all add: v)
    have IH: "der_int (signed_val bs) = bs"
    proof (cases "2 \<le> length bs")
      case True
      with snoc False show ?thesis by (simp add: minimal_int_snoc)
    next
      case small: False
      with False have "length bs = 1"
        by (cases "length bs") auto
      then have "minimal_int bs"
        by (simp add: minimal_int_def)
      with snoc False show ?thesis by blast
    qed
    have big: "\<not> (-128 \<le> v \<and> v < 128)"
    proof (cases "2 \<le> length bs")
      case True
      then have "length (der_int (signed_val bs)) \<noteq> 1" using IH by simp
      then have "\<not> (-128 \<le> signed_val bs \<and> signed_val bs < 128)"
        unfolding length_der_int_1_iff .
      then have "signed_val bs \<noteq> 0" "signed_val bs \<noteq> -1" by auto
      then show ?thesis using small_iff_div [of v] d by simp
    next
      case small: False
      with False obtain a where "bs = [a]" by (cases bs; cases "tl bs") auto
      then show ?thesis using snoc.prems minimal_int_two [of a b] by (simp add: v_def)
    qed
    have "word_of_int v = b"
      by (simp add: v byte_256)
    then have "der_int v = bs @ [b]"
      using big IH d der_int_big [of v] by auto
    then show ?thesis by (simp add: v_def)
  qed
qed

lemma minimal_int_der_int: "minimal_int (der_int i)"
proof (induction i rule: der_int.induct)
  case (1 i)
  show ?case
  proof (cases "-128 \<le> i \<and> i < 128")
    case True
    then show ?thesis by (simp add: der_int_small minimal_int_def)
  next
    case False
    then have e: "der_int i = der_int (i div 256) @ [word_of_int i]"
      by (intro der_int_big) auto
    show ?thesis
    proof (cases "2 \<le> length (der_int (i div 256))")
      case True
      then show ?thesis using 1 False e by (simp add: minimal_int_snoc)
    next
      case small: False
      then obtain a where a: "der_int (i div 256) = [a]"
        using der_int_nonempty [of "i div 256"] by (cases "der_int (i div 256)"; cases "tl (der_int (i div 256))") auto
      have "signed_val (der_int i) = i" by (rule signed_val_der_int)
      with a e False show ?thesis
        using minimal_int_two [of a "word_of_int i"] by auto
    qed
  qed
qed

lemma length_der_int_le:
  assumes "- (2 ^ (8 * k + 7)) \<le> i" and "i < 2 ^ (8 * k + 7)"
  shows "length (der_int i) \<le> Suc k"
  using assms
proof (induction k arbitrary: i)
  case 0
  then show ?case by (simp add: der_int_small)
next
  case (Suc k)
  show ?case
  proof (cases "-128 \<le> i \<and> i < 128")
    case False
    have "- (2 ^ (8 * k + 7)) * 256 \<le> i" and "i < 2 ^ (8 * k + 7) * 256"
      using Suc.prems by (simp_all add: power_add)
    then have "- (2 ^ (8 * k + 7)) \<le> i div 256" and "i div 256 < 2 ^ (8 * k + 7)"
      by linarith+
    from Suc.IH [OF this] False show ?thesis
      using der_int_big [of i] by auto
  qed (simp add: der_int_small)
qed

text \<open>A string of at most 8 bytes denotes a 64-bit value.\<close>

lemma signed_val_range:
  assumes "bs \<noteq> []"
  shows "- (2 ^ (8 * length bs - 1)) \<le> signed_val bs \<and> signed_val bs < 2 ^ (8 * length bs - 1)"
  using assms
proof (induction bs rule: rev_induct)
  case Nil
  then show ?case by simp
next
  case (snoc b bs)
  show ?case
  proof (cases "bs = []")
    case True
    then show ?thesis
      using unat_byte_less [of b]
      by (auto simp: signed_val_single simp del: of_nat_unat unat_byte_less unat_byte_le)
  next
    case False
    then obtain k where k: "8 * length bs = Suc k" by (cases "8 * length bs") auto
    from snoc.IH [OF False] k have "- (2 ^ k) \<le> signed_val bs" "signed_val bs < 2 ^ k"
      by simp_all
    then have "- (2 ^ k) * 256 \<le> signed_val bs * 256" "signed_val bs * 256 + 256 \<le> 2 ^ k * 256"
      by linarith+
    moreover have "int (unat b) < 256" using unat_byte_less [of b] by linarith
    moreover have "8 * length (bs @ [b]) - 1 = k + 8" using k by simp
    ultimately show ?thesis
      using False by (simp add: signed_val_snoc power_add del: of_nat_unat unat_byte_less)
  qed
qed

lemma signed_val_bounds:
  assumes "bs \<noteq> []" and "length bs \<le> 8"
  shows "- (2 ^ 63) \<le> signed_val bs" and "signed_val bs < 2 ^ 63"
proof -
  have "8 * length bs - 1 \<le> 63" using assms(2) by simp
  then have "(2 :: int) ^ (8 * length bs - 1) \<le> 2 ^ 63" by (intro power_increasing) simp_all
  with signed_val_range [OF assms(1)]
  show "- (2 ^ 63) \<le> signed_val bs" and "signed_val bs < 2 ^ 63" by linarith+
qed

lemma hd_der_int_nonneg: "unat (hd (der_int i)) < 128 \<longleftrightarrow> 0 \<le> i"
proof -
  let ?b = "der_int i"
  have v: "i = int (be_val ?b) - (if unat (hd ?b) < 128 then 0 else 256 ^ length ?b)"
    using signed_val_der_int [of i] by (simp only: signed_val_def)
  have u: "int (be_val ?b) < 256 ^ length ?b"
    using be_val_less [of ?b] by (metis of_nat_less_iff of_nat_numeral of_nat_power)
  show ?thesis
  proof (cases "unat (hd ?b) < 128")
    case True
    then have "i = int (be_val ?b)" using v by (simp only: if_True)
    with True show ?thesis by linarith
  next
    case False
    then have "i = int (be_val ?b) - 256 ^ length ?b" using v by (simp only: if_False)
    with u False show ?thesis by linarith
  qed
qed

end
