(* ===== verification/CbsAsn1.thy ===== *)
theory CbsAsn1
  imports Cbs Asn1Spec
begin

text \<open>
  The ASN.1 half of \<open>crypto/bytestring/cbs.c\<close>: base-128 numbers, tags, elements with their
  length octets, and the typed readers on top. The lemmas show that the element reader accepts
  exactly the DER strings of \<open>Asn1Spec\<close>, so that nothing but the canonical encoding of an
  element is accepted.
\<close>

section \<open>Tags and elements\<close>

text \<open>The loop of \<open>parse_base128_integer\<close>, on the bytes \<open>CBS_get_u8\<close> takes off the window.\<close>

fun parse_base128_loop :: "u64 \<Rightarrow> (cbs, u64) cop" where
  "parse_base128_loop v [] = (None, [])"
| "parse_base128_loop v (b # cbs) =
     (if drop_bit (64 - 7) v \<noteq> 0 then (None, cbs)
      else if v = 0 \<and> b = 0x80 then (None, cbs)
      else (let v' = push_bit 7 v OR ucast (b AND 0x7f)
            in if b AND 0x80 \<noteq> 0 then parse_base128_loop v' cbs else (Some v', cbs)))"

definition parse_base128_integer :: "(cbs, u64) cop" where
  "parse_base128_integer = parse_base128_loop 0"

definition parse_asn1_tag :: "(cbs, u32) cop" where
  "parse_asn1_tag =
     op_bind CBS_get_u8 (\<lambda>tag_byte.
       let tag = push_bit CBS_ASN1_TAG_SHIFT (ucast tag_byte AND 0xe0 :: u32);
           tag_number = ucast (tag_byte AND 0x1f) :: u32
       in if tag_number = 0x1f then
            op_bind parse_base128_integer (\<lambda>v.
              if v > ucast CBS_ASN1_TAG_NUMBER_MASK \<or> v < 0x1f then op_fail
              else op_ret (tag OR ucast v))
          else op_ret (tag OR tag_number))"

text \<open>
  \<open>header\<close> is a copy of the window, so the window itself moves only in the final
  \<open>CBS_get_bytes\<close>. The result is the element, its tag and the length of its header.
\<close>

definition cbs_get_any_asn1_element :: "bool \<Rightarrow> (cbs, cbs \<times> u32 \<times> nat) cop" where
  "cbs_get_any_asn1_element ber_ok cbs =
     (case parse_asn1_tag cbs of
        (None, _) \<Rightarrow> (None, cbs)
      | (Some tag, header) \<Rightarrow>
     (case CBS_get_u8 header of
        (None, _) \<Rightarrow> (None, cbs)
      | (Some length_byte, header) \<Rightarrow>
     (let header_len = CBS_len cbs - CBS_len header in
      if length_byte AND 0x80 = 0 then
        op_bind (CBS_get_bytes (unat length_byte + header_len))
          (\<lambda>out. op_ret (out, tag, header_len)) cbs
      else
        (let num_bytes = unat (length_byte AND 0x7f) in
         if ber_ok \<and> tag AND CBS_ASN1_CONSTRUCTED \<noteq> 0 \<and> num_bytes = 0 then
           op_bind (CBS_get_bytes header_len) (\<lambda>out. op_ret (out, tag, header_len)) cbs
         else if num_bytes = 0 \<or> num_bytes > 4 then (None, cbs)
         else
           (case cbs_get_u num_bytes header of
              (None, _) \<Rightarrow> (None, cbs)
            | (Some len64, header) \<Rightarrow>
                if len64 < 128 then (None, cbs)
                else if drop_bit ((num_bytes - 1) * 8) len64 = 0 then (None, cbs)
                else
                  (let len = unat len64 in
                   if size_add (size_add len header_len) num_bytes < len then (None, cbs)
                   else
                     op_bind (CBS_get_bytes (size_add len (header_len + num_bytes)))
                       (\<lambda>out. op_ret (out, tag, header_len + num_bytes)) cbs))))))"

definition CBS_get_any_asn1_element :: "(cbs, cbs \<times> u32 \<times> nat) cop" where
  "CBS_get_any_asn1_element = cbs_get_any_asn1_element False"

definition CBS_get_any_ber_asn1_element :: "(cbs, cbs \<times> u32 \<times> nat) cop" where
  "CBS_get_any_ber_asn1_element = cbs_get_any_asn1_element True"

definition CBS_get_any_asn1 :: "(cbs, cbs \<times> u32) cop" where
  "CBS_get_any_asn1 =
     op_bind CBS_get_any_asn1_element (\<lambda>(out, tag, header_len).
       case CBS_skip header_len out of
         (None, _) \<Rightarrow> op_fail
       | (Some _, out') \<Rightarrow> op_ret (out', tag))"

definition cbs_get_asn1 :: "u32 \<Rightarrow> bool \<Rightarrow> (cbs, cbs) cop" where
  "cbs_get_asn1 tag_value skip_header =
     op_bind CBS_get_any_asn1_element (\<lambda>(out, tag, header_len).
       if tag \<noteq> tag_value then op_fail
       else if skip_header then
         (case CBS_skip header_len out of
            (None, _) \<Rightarrow> op_fail
          | (Some _, out') \<Rightarrow> op_ret out')
       else op_ret out)"

definition CBS_get_asn1 :: "u32 \<Rightarrow> (cbs, cbs) cop" where
  "CBS_get_asn1 tag_value = cbs_get_asn1 tag_value True"

definition CBS_get_asn1_element :: "u32 \<Rightarrow> (cbs, cbs) cop" where
  "CBS_get_asn1_element tag_value = cbs_get_asn1 tag_value False"

definition CBS_peek_asn1_tag :: "cbs \<Rightarrow> u32 \<Rightarrow> bool" where
  "CBS_peek_asn1_tag cbs tag_value =
     (if CBS_len cbs < 1 then False
      else (case parse_asn1_tag cbs of
              (None, _) \<Rightarrow> False
            | (Some actual_tag, _) \<Rightarrow> tag_value = actual_tag))"

section \<open>Typed readers\<close>

fun asn1_uint64_loop :: "u64 \<Rightarrow> byte list \<Rightarrow> u64 option" where
  "asn1_uint64_loop out [] = Some out"
| "asn1_uint64_loop out (b # data) =
     (if drop_bit 56 out \<noteq> 0 then None
      else asn1_uint64_loop (push_bit 8 out OR ucast b) data)"

definition CBS_get_asn1_uint64 :: "(cbs, u64) cop" where
  "CBS_get_asn1_uint64 =
     op_bind (CBS_get_asn1 CBS_ASN1_INTEGER) (\<lambda>bytes.
       let data = CBS_data bytes; len = CBS_len bytes in
       if len = 0 then op_fail
       else if data ! 0 AND 0x80 \<noteq> 0 then op_fail
       else if data ! 0 = 0 \<and> len > 1 \<and> data ! 1 AND 0x80 = 0 then op_fail
       else (case asn1_uint64_loop 0 data of None \<Rightarrow> op_fail | Some v \<Rightarrow> op_ret v))"

text \<open>The union of an \<open>int64_t\<close> and its bytes, least significant first; the result is the
  two's complement bit pattern.\<close>

definition le_u64 :: "byte list \<Rightarrow> u64" where
  "le_u64 bytes = foldr (\<lambda>b r. push_bit 8 r OR ucast b) bytes 0"

definition CBS_get_asn1_int64 :: "(cbs, u64) cop" where
  "CBS_get_asn1_int64 =
     op_bind (CBS_get_asn1 CBS_ASN1_INTEGER) (\<lambda>bytes.
       let data = CBS_data bytes; len = CBS_len bytes in
       if len = 0 \<or> len > 8 then op_fail
       else if len > 1 \<and> data ! 0 = 0 \<and> data ! 1 AND 0x80 = 0 then op_fail
       else if len > 1 \<and> data ! 0 = 0xff \<and> data ! 1 AND 0x80 \<noteq> 0 then op_fail
       else
         (let is_negative = data ! 0 AND 0x80 \<noteq> 0;
              u = replicate 8 (if is_negative then 0xff else 0)
          in op_ret (le_u64 (map (\<lambda>i. data ! (len - i - 1)) [0..<len] @ drop len u))))"

definition CBS_get_asn1_bool :: "(cbs, bool) cop" where
  "CBS_get_asn1_bool =
     op_bind (CBS_get_asn1 CBS_ASN1_BOOLEAN) (\<lambda>bytes.
       if CBS_len bytes \<noteq> 1 then op_fail
       else
         (let value = CBS_data bytes ! 0 in
          if value \<noteq> 0 \<and> value \<noteq> 0xff then op_fail else op_ret (value \<noteq> 0)))"

text \<open>Optional elements: \<open>None\<close> inside the result is \<open>*out_present = 0\<close>.\<close>

definition CBS_get_optional_asn1 :: "u32 \<Rightarrow> (cbs, cbs option) cop" where
  "CBS_get_optional_asn1 tag cbs =
     (if CBS_peek_asn1_tag cbs tag then op_bind (CBS_get_asn1 tag) (\<lambda>out. op_ret (Some out)) cbs
      else op_ret None cbs)"

definition CBS_get_optional_asn1_octet_string :: "u32 \<Rightarrow> (cbs, cbs \<times> bool) cop" where
  "CBS_get_optional_asn1_octet_string tag =
     op_bind (CBS_get_optional_asn1 tag) (\<lambda>child_opt.
       case child_opt of
         Some child \<Rightarrow>
           (case CBS_get_asn1 CBS_ASN1_OCTETSTRING child of
              (None, _) \<Rightarrow> op_fail
            | (Some out, child') \<Rightarrow>
                if CBS_len child' \<noteq> 0 then op_fail else op_ret (out, True))
       | None \<Rightarrow> op_ret (CBS_init [] 0, False))"

definition CBS_get_optional_asn1_uint64 :: "u32 \<Rightarrow> u64 \<Rightarrow> (cbs, u64) cop" where
  "CBS_get_optional_asn1_uint64 tag default_value =
     op_bind (CBS_get_optional_asn1 tag) (\<lambda>child_opt.
       case child_opt of
         Some child \<Rightarrow>
           (case CBS_get_asn1_uint64 child of
              (None, _) \<Rightarrow> op_fail
            | (Some out, child') \<Rightarrow> if CBS_len child' \<noteq> 0 then op_fail else op_ret out)
       | None \<Rightarrow> op_ret default_value)"

definition CBS_get_optional_asn1_bool :: "u32 \<Rightarrow> bool \<Rightarrow> (cbs, bool) cop" where
  "CBS_get_optional_asn1_bool tag default_value =
     op_bind (CBS_get_optional_asn1 tag) (\<lambda>child_opt.
       case child_opt of
         Some child \<Rightarrow>
           (case CBS_get_asn1 CBS_ASN1_BOOLEAN child of
              (None, _) \<Rightarrow> op_fail
            | (Some child2, child') \<Rightarrow>
                if CBS_len child2 \<noteq> 1 \<or> CBS_len child' \<noteq> 0 then op_fail
                else
                  (let boolean = CBS_data child2 ! 0 in
                   if boolean = 0 then op_ret False
                   else if boolean = 0xff then op_ret True
                   else op_fail))
       | None \<Rightarrow> op_ret default_value)"

section \<open>Bit strings\<close>

definition CBS_is_valid_asn1_bitstring :: "cbs \<Rightarrow> bool" where
  "CBS_is_valid_asn1_bitstring cbs =
     (case CBS_get_u8 cbs of
        (None, _) \<Rightarrow> False
      | (Some num_unused_bits, rest) \<Rightarrow>
          if num_unused_bits > 7 then False
          else if num_unused_bits = 0 then True
          else
            (case CBS_get_last_u8 rest of
               (None, _) \<Rightarrow> False
             | (Some last_byte, _) \<Rightarrow>
                 ucast last_byte AND (push_bit (unat num_unused_bits) 1 - 1) = (0 :: u32)))"

definition CBS_asn1_bitstring_has_bit :: "cbs \<Rightarrow> u32 \<Rightarrow> bool" where
  "CBS_asn1_bitstring_has_bit cbs bit_index =
     (if \<not> CBS_is_valid_asn1_bitstring cbs then False
      else
        (let byte_num = unat (drop_bit 3 bit_index + 1); bit_num = unat (7 - (bit_index AND 7))
         in byte_num < CBS_len cbs \<and>
            ucast (CBS_data cbs ! byte_num) AND push_bit bit_num 1 \<noteq> (0 :: u32)))"

section \<open>Base-128 numbers: exactly the minimal encodings\<close>

lemma unat_base128_step:
  assumes "drop_bit 57 v = (0 :: u64)"
  shows "unat (push_bit 7 v OR ucast (b AND 0x7f)) = unat v * 128 + unat (b :: byte) mod 128"
proof -
  have v: "unat v < 2 ^ 57"
    using assms by (simp add: drop_bit_zero_iff_unat)
  have u: "unat (ucast (b AND 0x7f) :: u64) = unat b mod 128"
    using byte_and_0x7f [of b] unat_ucast_up [of "b AND 0x7f", where ?'b = 64] by simp
  then have "unat (ucast (b AND 0x7f) :: u64) < 2 ^ 7"
    by simp
  moreover have "unat v * 2 ^ 7 + unat (ucast (b AND 0x7f) :: u64) < 2 ^ LENGTH(64)"
    using v u by simp
  ultimately show ?thesis
    using unat_push_bit_or [of "ucast (b AND 0x7f) :: u64" 7 v] u by simp
qed

lemma nat_mod_128: "128 \<le> n \<Longrightarrow> n < 256 \<Longrightarrow> n mod 128 = n - (128 :: nat)"
  by (simp add: le_mod_geq)

lemma byte_cont_eq: "128 \<le> unat b \<Longrightarrow> word_of_nat (128 + unat b mod 128) = (b :: byte)"
  using unat_byte_less [of b] by (intro byte_of_nat_eqI) (simp only: nat_mod_128)

lemma byte_0x80_iff: "b = 0x80 \<longleftrightarrow> unat b = 128" for b :: byte
  by (simp add: word_unat_eq_iff)

text \<open>The two ways one iteration of the loop can go.\<close>

lemma parse_base128_loop_continue:
  assumes "drop_bit 57 v = 0" and "\<not> (v = 0 \<and> b = 0x80)" and "b AND 0x80 \<noteq> 0"
  shows "parse_base128_loop v (b # s) = parse_base128_loop (push_bit 7 v OR ucast (b AND 0x7f)) s"
  using assms by (auto simp: Let_def)

lemma parse_base128_loop_last:
  assumes "drop_bit 57 v = 0" and "\<not> (v = 0 \<and> b = 0x80)" and "b AND 0x80 = 0"
  shows "parse_base128_loop v (b # s) = (Some (push_bit 7 v OR ucast (b AND 0x7f)), s)"
  using assms by (auto simp: Let_def)

lemma parse_base128_loop_SomeD:
  assumes "parse_base128_loop v (b # s) = (Some w, s')"
  shows "drop_bit 57 v = 0 \<and> \<not> (v = 0 \<and> b = 0x80)"
  using assms by (auto split: if_splits)

lemma parse_base128_loop_sound:
  "parse_base128_loop v s = (Some w, s') \<Longrightarrow> base128_cont (unat v) @ s = base128 (unat w) @ s'"
proof (induction s arbitrary: v)
  case Nil
  then show ?case by simp
next
  case (Cons b s)
  define v' :: u64 where "v' = push_bit 7 v OR ucast (b AND 0x7f)"
  note d = parse_base128_loop_SomeD [OF Cons.prems]
  have v': "unat v' = unat v * 128 + unat b mod 128"
    using unat_base128_step d unfolding v'_def by blast
  show ?case
  proof (cases "b AND 0x80 = 0")
    case True
    then have "w = v'" and "s' = s" and "unat b mod 128 = unat b"
      using Cons.prems parse_base128_loop_last [of v b s] d
      by (simp_all add: v'_def byte_and_0x80)
    with v' base128_step [of "unat b" "unat v"] True show ?thesis
      by (simp add: byte_and_0x80)
  next
    case False
    then have hi: "128 \<le> unat b" by (simp add: byte_and_0x80 not_less)
    have "parse_base128_loop v' s = (Some w, s')"
      using Cons.prems parse_base128_loop_continue [of v b s] d False by (simp add: v'_def)
    then have "base128_cont (unat v') @ s = base128 (unat w) @ s'"
      by (rule Cons.IH)
    moreover have "base128_cont (unat v') = base128_cont (unat v) @ [b]"
    proof -
      have "unat b = 128" if "unat b mod 128 = 0"
        using that hi nat_mod_128 [OF hi unat_byte_less] by linarith
      then have "unat v \<noteq> 0 \<or> unat b mod 128 \<noteq> 0"
        using d by (auto simp: byte_0x80_iff word_unat_eq_iff)
      from base128_cont_step [OF _ this] show ?thesis
        by (simp only: v' byte_cont_eq [OF hi] mod_less_divisor zero_less_numeral)
    qed
    ultimately show ?thesis by simp
  qed
qed

lemma parse_base128_loop_cont:
  "unat v = n \<Longrightarrow> parse_base128_loop 0 (base128_cont n @ s) = parse_base128_loop v s"
proof (induction n arbitrary: v s rule: base128_cont.induct)
  case (1 n)
  show ?case
  proof (cases "n = 0")
    case False
    define q :: u64 where "q = drop_bit 7 v"
    define b :: byte where "b = word_of_nat (128 + n mod 128)"
    have q: "unat q = n div 128"
      using "1.prems" by (simp only: q_def unat_drop_bit) simp
    have b: "unat b = 128 + n mod 128"
      unfolding b_def by (rule unat_byte_of_nat) simp
    have d: "drop_bit 57 q = 0"
      using unsigned_less [of v, where ?'a = nat] "1.prems" q
      by (simp add: drop_bit_zero_iff_unat less_mult_imp_div_less)
    have "n div 128 \<noteq> 0 \<or> n mod 128 \<noteq> 0"
      using False by (cases "n < 128") (auto simp: div_eq_0_iff)
    then have m: "\<not> (q = 0 \<and> b = 0x80)"
      using q b by (auto simp: word_unat_eq_iff)
    have h: "b AND 0x80 \<noteq> 0"
      using b by (simp add: byte_and_0x80)
    have st: "push_bit 7 q OR ucast (b AND 0x7f) = v"
      using unat_base128_step [OF d, of b] q b "1.prems" by (simp add: word_unat_eq_iff)
    have "base128_cont n @ s = base128_cont (n div 128) @ b # s"
      using False by (simp add: base128_cont_pos b_def)
    then have "parse_base128_loop 0 (base128_cont n @ s) = parse_base128_loop q (b # s)"
      using "1.IH" [OF False q, of "b # s"] by (simp only:)
    also have "\<dots> = parse_base128_loop v s"
      using parse_base128_loop_continue [OF d m h, of s] st by (simp only:)
    finally show ?thesis .
  next
    case True
    with "1.prems" have "v = 0" by (simp add: word_unat_eq_iff)
    with True show ?thesis by simp
  qed
qed

text \<open>The reader inverts the minimal encoding, and accepts nothing else.\<close>

lemma parse_base128_integer_iff:
  "parse_base128_integer s = (Some w, s') \<longleftrightarrow> s = base128 (unat w) @ s'"
proof
  assume "parse_base128_integer s = (Some w, s')"
  then show "s = base128 (unat w) @ s'"
    using parse_base128_loop_sound [of 0 s w s'] by (simp add: parse_base128_integer_def)
next
  assume s: "s = base128 (unat w) @ s'"
  define q :: u64 where "q = drop_bit 7 w"
  define b :: byte where "b = word_of_nat (unat w mod 128)"
  have q: "unat q = unat w div 128" by (simp only: q_def unat_drop_bit) simp
  have b: "unat b = unat w mod 128" unfolding b_def by (rule unat_byte_of_nat) simp
  have d: "drop_bit 57 q = 0"
    using unsigned_less [of w, where ?'a = nat] q
    by (simp add: drop_bit_zero_iff_unat less_mult_imp_div_less)
  have m: "\<not> (q = 0 \<and> b = 0x80)" and h: "b AND 0x80 = 0"
    using b by (auto simp: byte_0x80_iff byte_and_0x80)
  have st: "push_bit 7 q OR ucast (b AND 0x7f) = w"
    using unat_base128_step [OF d, of b] q b by (simp add: word_unat_eq_iff)
  have "s = base128_cont (unat w div 128) @ b # s'"
    by (simp add: s base128_def b_def)
  then have "parse_base128_integer s = parse_base128_loop q (b # s')"
    using parse_base128_loop_cont [OF q, of "b # s'"] by (simp only: parse_base128_integer_def)
  also have "\<dots> = (Some w, s')"
    using parse_base128_loop_last [OF d m h, of s'] st by (simp only:)
  finally show "parse_base128_integer s = (Some w, s')" .
qed

section \<open>Tags: exactly the identifier octets\<close>

lemma u32_class_bits:
  "push_bit 24 (ucast b AND 0xe0 :: u32) = push_bit 29 (ucast (drop_bit 5 (b :: byte)))"
proof -
  have e: "(0xe0 :: u32) = push_bit 5 (mask 3)"
    by (simp add: mask_eq_exp_minus_1)
  show ?thesis
    unfolding e by (rule bit_word_eqI) (auto simp: bit_simps dest: bit_imp_le_length)
qed

lemma byte_and_0x1f: "unat (b AND 0x1f) = unat b mod 32" for b :: byte
proof -
  have "b AND 0x1f = take_bit 5 b"
    by (simp add: take_bit_eq_mask mask_eq_exp_minus_1)
  then show ?thesis by (simp only: unat_take_bit) simp
qed

lemma unat_tag_word:
  assumes "unat (n :: u32) < 2 ^ 29"
  shows "unat (push_bit 24 (ucast b AND 0xe0) OR n) = unat (b :: byte) div 32 * 2 ^ 29 + unat n"
proof -
  have c: "unat (ucast (drop_bit 5 b) :: u32) = unat b div 32"
    using unat_ucast_up [of "drop_bit 5 b", where ?'b = 32] by (simp only: unat_drop_bit) simp
  have "unat b div 32 < 8"
    using unat_byte_less [of b] by (simp add: less_mult_imp_div_less)
  then have "unat (ucast (drop_bit 5 b) :: u32) * 2 ^ 29 + unat n < 2 ^ LENGTH(32)"
    using assms c by simp
  from unat_push_bit_or [OF assms this] show ?thesis
    by (simp only: u32_class_bits c)
qed

lemma parse_asn1_tag_low:
  assumes "unat b mod 32 \<noteq> 31"
  shows "\<exists>tag. parse_asn1_tag (b # s) = (Some tag, s) \<and>
    unat tag = unat b div 32 * 2 ^ 29 + unat b mod 32"
proof -
  have n: "unat (ucast (b AND 0x1f) :: u32) = unat b mod 32"
    using unat_ucast_up [of "b AND 0x1f", where ?'b = 32] byte_and_0x1f [of b] by simp
  then have "unat (ucast (b AND 0x1f) :: u32) < 2 ^ 29"
    by simp
  note v = unat_tag_word [OF this, of b]
  have "ucast (b AND 0x1f) \<noteq> (0x1f :: u32)"
    using n assms by (simp add: word_unat_eq_iff)
  then have p: "parse_asn1_tag (b # s) =
      (Some (push_bit 24 (ucast b AND 0xe0) OR ucast (b AND 0x1f)), s)"
    by (simp add: parse_asn1_tag_def op_simps Let_def)
  show ?thesis
    by (intro exI conjI, rule p) (simp only: v n)
qed

lemma parse_asn1_tag_high:
  assumes "unat b mod 32 = 31"
  shows "parse_asn1_tag (b # s) = (Some tag, s') \<longleftrightarrow>
    (\<exists>v. parse_base128_integer s = (Some v, s') \<and> 31 \<le> unat v \<and> unat v < 2 ^ 29 \<and>
         unat tag = unat b div 32 * 2 ^ 29 + unat v)"
proof -
  have "ucast (b AND 0x1f) = (0x1f :: u32)"
    using unat_ucast_up [of "b AND 0x1f", where ?'b = 32] byte_and_0x1f [of b] assms
    by (simp add: word_unat_eq_iff)
  then have e: "parse_asn1_tag (b # s) = op_bind parse_base128_integer (\<lambda>v.
      if v > ucast CBS_ASN1_TAG_NUMBER_MASK \<or> v < 0x1f then op_fail
      else op_ret (push_bit 24 (ucast b AND 0xe0) OR ucast v)) s"
    by (simp add: parse_asn1_tag_def op_simps Let_def del: push_bit_and)
  have range: "(v > ucast CBS_ASN1_TAG_NUMBER_MASK \<or> v < 0x1f) \<longleftrightarrow>
      \<not> (31 \<le> unat v \<and> unat v < 2 ^ 29)" for v :: u64
    by (auto simp: CBS_ASN1_TAG_NUMBER_MASK_eq word_less_nat_alt)
  have val: "tag = push_bit 24 (ucast b AND 0xe0) OR ucast v \<longleftrightarrow>
      unat tag = unat b div 32 * 2 ^ 29 + unat v" if "unat v < 2 ^ 29" for v :: u64
  proof -
    have "unat (ucast v :: u32) = unat v"
      using that by (simp add: unat_ucast)
    with unat_tag_word [of "ucast v" b] that show ?thesis
      by (simp add: word_unat_eq_iff)
  qed
  have body: "(if v > ucast CBS_ASN1_TAG_NUMBER_MASK \<or> v < 0x1f then op_fail
      else op_ret (push_bit 24 (ucast b AND 0xe0) OR ucast v)) t = (Some tag, s') \<longleftrightarrow>
      t = s' \<and> 31 \<le> unat v \<and> unat v < 2 ^ 29 \<and>
      unat tag = unat b div 32 * 2 ^ 29 + unat v" for v :: u64 and t
    unfolding range using val [of v] by (auto simp: op_simps simp del: push_bit_and)
  show ?thesis
    unfolding e op_bind_Some_iff body by blast
qed

lemma der_tag_low_iff:
  assumes "unat tag = c * 2 ^ 29 + n" and "n < 31"
  shows "der_tag tag = [word_of_nat (c * 32 + n)]"
proof -
  have "n < 2 ^ 29" using assms(2) by simp
  then have "unat tag div 2 ^ 29 = c" and "unat tag mod 2 ^ 29 = n"
    unfolding assms(1) by simp_all
  with assms(2) show ?thesis by (simp only: der_tag_def Let_def if_True)
qed

lemma der_tag_high_iff:
  assumes "unat tag = c * 2 ^ 29 + n" and "31 \<le> n" and "n < 2 ^ 29"
  shows "der_tag tag = word_of_nat (c * 32 + 31) # base128 n"
proof -
  have "unat tag div 2 ^ 29 = c" and "unat tag mod 2 ^ 29 = n"
    unfolding assms(1) using assms(3) by simp_all
  moreover have "\<not> n < 31" using assms(2) by simp
  ultimately show ?thesis by (simp only: der_tag_def Let_def if_False)
qed

lemma parse_asn1_tag_iff:
  "parse_asn1_tag s = (Some tag, s') \<longleftrightarrow> s = der_tag tag @ s'"
proof (cases s)
  case Nil
  then show ?thesis by (auto simp: parse_asn1_tag_def op_simps)
next
  case (Cons b s1)
  have b: "word_of_nat (unat b div 32 * 32 + unat b mod 32) = b"
    by simp
  define c where "c = unat tag div 2 ^ 29"
  define n where "n = unat tag mod 2 ^ 29"
  have tag: "unat tag = c * 2 ^ 29 + n" and n: "n < 2 ^ 29"
    unfolding c_def n_def by (simp_all add: div_mult_mod_eq)
  have c: "c < 8"
    using unsigned_less [of tag, where ?'a = nat] by (simp add: c_def less_mult_imp_div_less)
  have byte: "unat (word_of_nat (c * 32 + k) :: byte) = c * 32 + k" if "k < 32" for k
    using c that by (intro unat_byte_of_nat) simp
  show ?thesis
  proof (cases "unat b mod 32 = 31")
    case True
    show ?thesis
    proof
      assume "parse_asn1_tag s = (Some tag, s')"
      then obtain v where v: "parse_base128_integer s1 = (Some v, s')" "31 \<le> unat v"
          "unat v < 2 ^ 29" "unat tag = unat b div 32 * 2 ^ 29 + unat v"
        using Cons parse_asn1_tag_high [OF True] by auto
      from der_tag_high_iff [OF v(4,2,3)] show "s = der_tag tag @ s'"
        using v(1) b True Cons by (simp add: parse_base128_integer_iff)
    next
      assume s: "s = der_tag tag @ s'"
      have hi: "31 \<le> n"
      proof (rule ccontr)
        assume lo: "\<not> 31 \<le> n"
        then have "b = word_of_nat (c * 32 + n)"
          using der_tag_low_iff [OF tag] s Cons by simp
        then have "unat b = c * 32 + n" using byte [of n] lo by simp
        with True lo show False by simp
      qed
      from der_tag_high_iff [OF tag hi n]
      have b': "b = word_of_nat (c * 32 + 31)" and s1: "s1 = base128 n @ s'"
        using s Cons by simp_all
      have "unat b = c * 32 + 31" unfolding b' by (rule byte) simp
      then have "unat b div 32 = c" by simp
      moreover have "unat (word_of_nat n :: u64) = n"
        using n by (simp add: unat_of_nat)
      moreover from this s1 have "parse_base128_integer s1 = (Some (word_of_nat n), s')"
        by (simp only: parse_base128_integer_iff)
      ultimately show "parse_asn1_tag s = (Some tag, s')"
        unfolding Cons parse_asn1_tag_high [OF True] using tag hi n by metis
    qed
  next
    case False
    obtain t where t: "parse_asn1_tag (b # s1) = (Some t, s1)"
        "unat t = unat b div 32 * 2 ^ 29 + unat b mod 32"
      using parse_asn1_tag_low [OF False] by blast
    have lt: "unat b mod 32 < 31" using False by (simp add: nat_less_le)
    have dt: "der_tag t = [b]"
      using der_tag_low_iff [OF t(2) lt] b by simp
    show ?thesis
    proof
      assume "parse_asn1_tag s = (Some tag, s')"
      then show "s = der_tag tag @ s'" using t dt Cons by simp
    next
      assume s: "s = der_tag tag @ s'"
      have lo: "n < 31"
      proof (rule ccontr)
        assume hi: "\<not> n < 31"
        then have "b = word_of_nat (c * 32 + 31)"
          using der_tag_high_iff [OF tag _ n] s Cons by simp
        then have "unat b = c * 32 + 31" using byte [of 31] by simp
        with False show False by simp
      qed
      have b': "b = word_of_nat (c * 32 + n)" and s1: "s1 = s'"
        using der_tag_low_iff [OF tag lo] s Cons by simp_all
      have "unat b = c * 32 + n" unfolding b' using lo by (intro byte) simp
      then have "unat t = unat tag"
        using t(2) tag lo by simp
      with t(1) s1 Cons show "parse_asn1_tag s = (Some tag, s')"
        by (simp add: word_unat_eq_iff)
    qed
  qed
qed

section \<open>Elements: exactly DER, or also the indefinite lengths of BER\<close>

lemma header_drop_len: "CBS_len (p @ lb # rest) - CBS_len rest = length p + 1"
  by (simp add: CBS_len_def)

lemma element_reader_def:
  "op_bind (CBS_get_bytes n) (\<lambda>out. op_ret (out, tag, hl)) s =
    (if length s < n then (None, s) else (Some (take n s, tag, hl), drop n s))"
  by (simp add: CBS_get_bytes_eq op_simps cbs_get_def)

lemma unat_byte_high: "128 \<le> unat b \<Longrightarrow> unat (b AND 0x7f) = unat b - 128" for b :: byte
  using nat_mod_128 [OF _ unat_byte_less] byte_and_0x7f [of b] by simp

lemma length_minimal_iff:
  "drop_bit ((k - 1) * 8) v = 0 \<longleftrightarrow> unat v < 256 ^ (k - 1)" for v :: u64
  by (simp add: drop_bit_zero_iff_unat power_mult mult.commute [of _ 8])

text \<open>What the element reader does once the tag is read, with the words evaluated.\<close>

lemma cbs_get_any_asn1_element_eval:
  fixes tag :: u32 and lb :: byte and rest :: cbs
  defines "s \<equiv> der_tag tag @ lb # rest" and "hdr \<equiv> length (der_tag tag) + 1"
    and "k \<equiv> unat lb - 128"
  shows "cbs_get_any_asn1_element ber s =
    (let get = \<lambda>n hl. (if length s < n then (None, s) else (Some (take n s, tag, hl), drop n s))
     in if unat lb < 128 then get (unat lb + hdr) hdr
        else if ber \<and> tag AND CBS_ASN1_CONSTRUCTED \<noteq> 0 \<and> k = 0 then get hdr hdr
        else if k = 0 \<or> 4 < k \<or> length rest < k then (None, s)
        else if be_val (take k rest) < 128 \<or> be_val (take k rest) < 256 ^ (k - 1) then (None, s)
        else get (be_val (take k rest) + (hdr + k)) (hdr + k))"
proof -
  have tag: "parse_asn1_tag s = (Some tag, lb # rest)"
    by (simp add: parse_asn1_tag_iff s_def)
  have hl: "CBS_len s - CBS_len rest = hdr"
    by (simp add: s_def hdr_def CBS_len_def)
  show ?thesis
  proof (cases "unat lb < 128")
    case True
    then show ?thesis
      by (simp add: cbs_get_any_asn1_element_def tag hl element_reader_def byte_and_0x80 Let_def)
  next
    case False
    then have nb: "unat (lb AND 0x7f) = k" and hb: "lb AND 0x80 \<noteq> 0"
      by (simp_all add: unat_byte_high k_def byte_and_0x80)
    show ?thesis
    proof (cases "k = 0 \<or> 4 < k \<or> length rest < k")
      case True
      then show ?thesis using False hb
        by (auto simp: cbs_get_any_asn1_element_def tag hl nb element_reader_def cbs_get_u_eq Let_def
            simp del: be_val_Nil)
    next
      case k: False
      define n where "n = be_val (take k rest)"
      have n8: "unat (word_of_nat n :: u64) = n"
        unfolding n_def using k by (intro unat_be_val_u64) simp
      have "(256 :: nat) ^ k \<le> 256 ^ 4"
        using k by (intro power_increasing) auto
      moreover have "n < 256 ^ k"
        using be_val_less [of "take k rest"] k by (simp add: n_def)
      ultimately have n: "n < 2 ^ 32" by simp
      have hdr: "hdr \<le> 7"
        using length_der_tag_le [of tag] by (simp add: hdr_def)
      have sums: "size_add (size_add n hdr) k = n + hdr + k" "size_add n (hdr + k) = n + (hdr + k)"
        using n hdr k by (simp_all add: size_add_exact)
      have "cbs_get_u k rest = (Some (word_of_nat n), drop k rest)"
        using k by (simp add: cbs_get_u_eq n_def)
      moreover have "(word_of_nat n :: u64) < 128 \<longleftrightarrow> n < 128"
        using n8 by (simp add: word_less_nat_alt)
      moreover have "drop_bit ((k - Suc 0) * 8) (word_of_nat n :: u64) = 0 \<longleftrightarrow> n < 256 ^ (k - Suc 0)"
        using length_minimal_iff [of k "word_of_nat n"] n8 by simp
      ultimately show ?thesis using False hb k
        by (simp add: cbs_get_any_asn1_element_def tag hl nb Let_def length_minimal_iff n8 sums
            element_reader_def n_def [symmetric] del: of_nat_numeral)
    qed
  qed
qed

text \<open>Length octets, read back.\<close>

lemma der_length_short: "unat lb < 128 \<Longrightarrow> der_length (unat lb) = [lb]"
  by (simp add: der_length_def)

lemma der_length_long:
  assumes "128 \<le> unat lb" and "k = unat lb - 128" and "0 < k" and "length bs = k"
    and "128 \<le> be_val bs" and "256 ^ (k - 1) \<le> be_val bs"
  shows "der_length (be_val bs) = lb # bs"
proof -
  obtain j where j: "k = Suc j" using assms(3) by (cases k) auto
  have "be_val bs < 256 ^ Suc j"
    using be_val_less [of bs] assms(4) j by simp
  with assms(6) j have "byte_len (be_val bs) = k"
    using byte_len_unique [of j "be_val bs"] by simp
  moreover have "word_of_nat (128 + k) = lb"
    using assms(1,2) by (intro byte_of_nat_eqI) linarith
  ultimately show ?thesis
    using assms(4,5) be_bytes_be_val [of bs] by (simp add: der_length_def)
qed

text \<open>Whatever the reader returns is a definite-length DER element at the front of the input, or,
  for the BER reader only, the bare header of a constructed element of indefinite length.\<close>

lemma cbs_get_any_asn1_element_sound:
  assumes "cbs_get_any_asn1_element ber s = (Some (e, tag, hl), s')"
  shows "s = e @ s' \<and>
    ((\<exists>c. e = der_element tag c \<and> hl = length (der_header tag (length c)) \<and> length c < 2 ^ 32) \<or>
     (ber \<and> tag AND CBS_ASN1_CONSTRUCTED \<noteq> 0 \<and> e = der_tag tag @ [0x80] \<and> hl = length e))"
proof -
  obtain lb rest where "parse_asn1_tag s = (Some tag, lb # rest)"
    using assms by (auto simp: cbs_get_any_asn1_element_def op_simps CBS_get_bytes_eq cbs_get_def Let_def
        CBS_get_u8_Some_iff split: prod.splits option.splits if_splits)
  then have s: "s = der_tag tag @ lb # rest"
    by (simp add: parse_asn1_tag_iff)
  define hdr where "hdr = length (der_tag tag) + 1"
  define k where "k = unat lb - 128"
  note ev = assms [unfolded s cbs_get_any_asn1_element_eval Let_def, folded s hdr_def k_def]
  consider (short) "unat lb < 128"
    | (indef) "128 \<le> unat lb" "ber" "tag AND CBS_ASN1_CONSTRUCTED \<noteq> 0" "k = 0"
    | (long) "128 \<le> unat lb" "0 < k" "k \<le> 4" "k \<le> length rest"
        "128 \<le> be_val (take k rest)" "256 ^ (k - 1) \<le> be_val (take k rest)"
    using ev by (force split: if_splits)
  then show ?thesis
  proof cases
    case short
    with ev have e: "e = take (unat lb + hdr) s" "hl = hdr" "s' = drop (unat lb + hdr) s"
        and len: "unat lb + hdr \<le> length s"
      by (auto split: if_splits)
    let ?c = "take (unat lb) rest"
    have c: "length ?c = unat lb" using len by (simp add: s hdr_def)
    have "e = der_element tag ?c"
      using e(1) c by (simp add: s hdr_def der_element_def der_header_def der_length_short [OF short])
    moreover have "hl = length (der_header tag (length ?c))"
      using e(2) c by (simp add: der_header_def der_length_short [OF short] hdr_def)
    moreover have "length ?c < 2 ^ 32" using c short by simp
    moreover have "s = e @ s'" using e by (simp only: append_take_drop_id)
    ultimately show ?thesis by blast
  next
    case indef
    then have lb: "lb = 0x80" by (simp add: k_def word_unat_eq_iff)
    from indef ev have "e = take hdr s" "hl = hdr" "s' = drop hdr s"
      by (auto split: if_splits)
    then show ?thesis using indef lb by (auto simp: s hdr_def)
  next
    case long
    define n where "n = be_val (take k rest)"
    from long ev have e: "e = take (n + (hdr + k)) s" "hl = hdr + k" "s' = drop (n + (hdr + k)) s"
        and len: "n + (hdr + k) \<le> length s"
      by (auto simp: n_def split: if_splits)
    let ?c = "take n (drop k rest)"
    have c: "length ?c = n" using len by (simp add: s hdr_def)
    have dl: "der_length n = lb # take k rest"
      unfolding n_def by (rule der_length_long [OF long(1) k_def long(2) _ long(5,6)]) (simp add: long(4))
    have "(256 :: nat) ^ k \<le> 256 ^ 4" using long by (intro power_increasing) auto
    moreover have "n < 256 ^ k" using be_val_less [of "take k rest"] long by (simp add: n_def)
    ultimately have n: "n < 2 ^ 32" by simp
    have "e = der_element tag ?c"
      using e(1) c dl long by (simp add: s hdr_def der_element_def der_header_def take_add [symmetric] add.commute)
    moreover have "hl = length (der_header tag (length ?c))"
      using e(2) c dl long by (simp add: der_header_def hdr_def)
    moreover have "s = e @ s'" using e by (simp only: append_take_drop_id)
    moreover have "length ?c < 2 ^ 32" using c n by simp
    ultimately show ?thesis by blast
  qed
qed

text \<open>And every definite-length DER element is read back, with whatever follows it left over.\<close>

lemma cbs_get_any_asn1_element_complete:
  assumes "length c < 2 ^ 32"
  shows "cbs_get_any_asn1_element ber (der_element tag c @ t) =
    (Some (der_element tag c, tag, length (der_header tag (length c))), t)"
proof (cases "length c < 128")
  case True
  define lb :: byte where "lb = word_of_nat (length c)"
  have lb: "unat lb = length c" unfolding lb_def using True by (intro unat_byte_of_nat) simp
  have dl: "der_length (length c) = [lb]"
    using True by (simp add: der_length_def lb_def)
  then have e: "der_element tag c @ t = der_tag tag @ lb # (c @ t)"
    by (simp add: der_element_def der_header_def)
  show ?thesis
    unfolding e cbs_get_any_asn1_element_eval Let_def lb
    using True by (simp add: der_element_def der_header_def dl)
next
  case False
  define k where "k = byte_len (length c)"
  define lb :: byte where "lb = word_of_nat (128 + k)"
  have "0 < length c" using False by linarith
  then have k: "0 < k" "k \<le> 4"
    using byte_len_le [of "length c" 4] assms by (simp_all only: k_def byte_len_pos) simp_all
  have lb: "unat lb = 128 + k" unfolding lb_def using k by (intro unat_byte_of_nat) simp
  have bv: "be_val (be_bytes k (length c)) = length c"
    using less_256_byte_len [of "length c"] by (simp add: be_val_be_bytes k_def)
  have lo: "256 ^ (k - 1) \<le> length c"
    using byte_len_ge [of "length c"] False by (cases c) (auto simp: k_def)
  have dl: "der_length (length c) = lb # be_bytes k (length c)"
    using False by (simp add: der_length_def lb_def k_def)
  then have e: "der_element tag c @ t = der_tag tag @ lb # (be_bytes k (length c) @ c @ t)"
    by (simp add: der_element_def der_header_def)
  have "\<not> length c < 128" "\<not> length c < 256 ^ (k - 1)"
    using False lo by simp_all
  then show ?thesis
    unfolding e cbs_get_any_asn1_element_eval Let_def lb
    using k bv by (simp add: der_element_def der_header_def dl)
qed

lemma CBS_get_any_asn1_element_iff:
  "CBS_get_any_asn1_element s = (Some (e, tag, hl), s') \<longleftrightarrow>
    s = e @ s' \<and> (\<exists>c. e = der_element tag c \<and> hl = length (der_header tag (length c)) \<and> length c < 2 ^ 32)"
  using cbs_get_any_asn1_element_sound [of False s e tag hl s'] cbs_get_any_asn1_element_complete
  by (fastforce simp: CBS_get_any_asn1_element_def)

section \<open>The typed readers\<close>

lemma CBS_get_asn1_iff:
  "CBS_get_asn1 tag s = (Some c, s') \<longleftrightarrow> s = der_element tag c @ s' \<and> length c < 2 ^ 32"
proof -
  have skip: "CBS_skip (length (der_header t (length d))) (der_element t d) = (Some (), d)" for t d
    by (simp add: der_element_def CBS_skip_append)
  show ?thesis
  proof
    assume "CBS_get_asn1 tag s = (Some c, s')"
    then obtain e t hl s1 where "CBS_get_any_asn1_element s = (Some (e, t, hl), s1)"
        and rest: "(if t \<noteq> tag then op_fail else
          (case CBS_skip hl e of (None, _) \<Rightarrow> op_fail | (Some _, out') \<Rightarrow> op_ret out')) s1 = (Some c, s')"
      unfolding CBS_get_asn1_def cbs_get_asn1_def op_bind_Some_iff if_True by auto
    then obtain d where d: "s = e @ s1" "e = der_element t d" "hl = length (der_header t (length d))"
        "length d < 2 ^ 32"
      unfolding CBS_get_any_asn1_element_iff by blast
    with rest show "s = der_element tag c @ s' \<and> length c < 2 ^ 32"
      by (auto simp: skip op_simps split: if_splits)
  next
    assume "s = der_element tag c @ s' \<and> length c < 2 ^ 32"
    then have "CBS_get_any_asn1_element s =
      (Some (der_element tag c, tag, length (der_header tag (length c))), s')"
      unfolding CBS_get_any_asn1_element_iff by blast
    then show "CBS_get_asn1 tag s = (Some c, s')"
      by (simp add: CBS_get_asn1_def cbs_get_asn1_def op_simps skip)
  qed
qed

lemma CBS_get_asn1_element_iff:
  "CBS_get_asn1_element tag s = (Some e, s') \<longleftrightarrow>
    s = e @ s' \<and> (\<exists>c. e = der_element tag c \<and> length c < 2 ^ 32)"
  unfolding CBS_get_asn1_element_def cbs_get_asn1_def op_bind_Some_iff
  by (auto simp: CBS_get_any_asn1_element_iff op_simps split: if_splits)

lemma CBS_peek_asn1_tag_iff: "CBS_peek_asn1_tag s tag \<longleftrightarrow> (\<exists>t. s = der_tag tag @ t)"
proof -
  have "CBS_peek_asn1_tag s tag \<longleftrightarrow> (\<exists>t. parse_asn1_tag s = (Some tag, t))"
    by (cases s) (auto simp: CBS_peek_asn1_tag_def CBS_len_def parse_asn1_tag_def op_simps
        split: prod.splits option.splits)
  then show ?thesis by (simp only: parse_asn1_tag_iff)
qed

lemma asn1_uint64_loop_eq:
  assumes "n < 2 ^ 64"
  shows "asn1_uint64_loop (word_of_nat n) bs =
    (if n * 256 ^ length bs + be_val bs < 2 ^ 64
     then Some (word_of_nat (n * 256 ^ length bs + be_val bs)) else None)"
  using assms
proof (induction bs arbitrary: n)
  case Nil
  then show ?case by simp
next
  case (Cons b bs)
  have n: "unat (word_of_nat n :: u64) = n"
    using Cons.prems by (simp add: unat_of_nat)
  have d: "drop_bit 56 (word_of_nat n :: u64) = 0 \<longleftrightarrow> n < 2 ^ 56"
    by (simp only: drop_bit_zero_iff_unat n)
  have step: "push_bit 8 (word_of_nat n) OR ucast b = (word_of_nat (n * 256 + unat b) :: u64)"
    unfolding ucast_byte_or_add by simp
  have val: "n * 256 ^ length (b # bs) + be_val (b # bs) =
      (n * 256 + unat b) * 256 ^ length bs + be_val bs"
    by (simp add: be_val_Cons algebra_simps)
  show ?case
  proof (cases "n < 2 ^ 56")
    case True
    then have "n + 1 \<le> 2 ^ 56" by simp
    then have up: "(n + 1) * 256 \<le> 2 ^ 56 * 256" by (intro mult_right_mono) simp_all
    have "n * 256 + unat b < (n + 1) * 256" by simp
    from less_le_trans [OF this up] have "n * 256 + unat b < 2 ^ 64"
      by (rule less_le_trans) simp
    from Cons.IH [OF this] show ?thesis
      unfolding val asn1_uint64_loop.simps d using True step by simp
  next
    case False
    have "2 ^ 64 \<le> n * 256" using False by simp
    also have "n * 256 \<le> (n * 256 + unat b) * 256 ^ length bs + be_val bs"
    proof -
      have "n * 256 + unat b \<le> (n * 256 + unat b) * 256 ^ length bs"
        by simp
      then show ?thesis by (rule order_trans [rotated, OF trans_le_add1]) simp
    qed
    finally show ?thesis
      unfolding val asn1_uint64_loop.simps d using False by simp
  qed
qed

text \<open>The contents both integer readers refuse are the ones \<open>minimal_int\<close> excludes.\<close>

lemma minimal_int_reader:
  "minimal_int bs \<longleftrightarrow>
    \<not> (length bs > 1 \<and> bs ! 0 = 0 \<and> bs ! 1 AND 0x80 = 0) \<and>
    \<not> (length bs > 1 \<and> bs ! 0 = 0xff \<and> bs ! 1 AND 0x80 \<noteq> 0)"
  by (auto simp: minimal_int_def byte_and_0x80 not_less)

definition uint64_contents :: "byte list \<Rightarrow> u64 option" where
  "uint64_contents bs =
     (if bs \<noteq> [] \<and> unat (hd bs) < 128 \<and> minimal_int bs \<and> be_val bs < 2 ^ 64
      then Some (word_of_nat (be_val bs)) else None)"

lemma CBS_get_asn1_uint64_eq:
  "CBS_get_asn1_uint64 s =
    (case CBS_get_asn1 CBS_ASN1_INTEGER s of
       (None, s') \<Rightarrow> (None, s')
     | (Some bs, s') \<Rightarrow> (uint64_contents bs, s'))"
proof -
  have loop: "asn1_uint64_loop 0 bs =
      (if be_val bs < 2 ^ 64 then Some (word_of_nat (be_val bs)) else None)" for bs
    using asn1_uint64_loop_eq [of 0 bs] by simp
  have z: "b = 0 \<Longrightarrow> b AND 0x80 = 0" "(0xff :: byte) AND 0x80 \<noteq> 0" for b :: byte
    by simp_all
  have "(if bs = [] then op_fail
       else if bs ! 0 AND 0x80 \<noteq> 0 then op_fail
       else if bs ! 0 = 0 \<and> length bs > 1 \<and> bs ! 1 AND 0x80 = 0 then op_fail
       else (case asn1_uint64_loop 0 bs of None \<Rightarrow> op_fail | Some v \<Rightarrow> op_ret v)) s'
      = (uint64_contents bs, s')" for bs :: cbs and s' :: cbs
    unfolding loop uint64_contents_def minimal_int_reader
    by (cases bs) (auto simp: op_simps byte_and_0x80 [symmetric])
  then show ?thesis
    by (simp add: CBS_get_asn1_uint64_def op_simps CBS_data_def CBS_len_def Let_def
        split: prod.splits option.splits)
qed

lemma uint64_contents_iff:
  "uint64_contents bs = Some v \<longleftrightarrow> bs = der_int (int (unat v))"
proof
  assume "uint64_contents bs = Some v"
  then have bs: "bs \<noteq> []" "unat (hd bs) < 128" "minimal_int bs" "be_val bs < 2 ^ 64"
      and v: "v = word_of_nat (be_val bs)"
    by (auto simp: uint64_contents_def split: if_splits)
  have "unat v = be_val bs"
    unfolding v using bs(4) by (simp add: unat_of_nat)
  with bs(2) have "signed_val bs = int (unat v)"
    by (simp only: signed_val_def if_True diff_zero)
  with der_int_signed_val [OF bs(1,3)] show "bs = der_int (int (unat v))"
    by (simp only:)
next
  assume bs: "bs = der_int (int (unat v))"
  have h: "unat (hd bs) < 128"
    unfolding bs hd_der_int_nonneg by simp
  have "signed_val bs = int (unat v)"
    unfolding bs by (rule signed_val_der_int)
  with h have bv: "be_val bs = unat v"
    by (simp only: signed_val_def if_True diff_zero of_nat_eq_iff)
  have "minimal_int bs" and "bs \<noteq> []"
    unfolding bs by (simp_all only: minimal_int_der_int der_int_nonempty not_False_eq_True)
  with h bv show "uint64_contents bs = Some v"
    using unsigned_less [of v, where ?'a = nat] by (simp add: uint64_contents_def)
qed

lemma CBS_get_asn1_SomeD_length: "CBS_get_asn1 tag s = (Some c, s') \<Longrightarrow> length c < 2 ^ 32"
  by (simp add: CBS_get_asn1_iff)

lemma CBS_get_asn1_uint64_iff:
  "CBS_get_asn1_uint64 s = (Some v, s') \<longleftrightarrow>
    s = der_element CBS_ASN1_INTEGER (der_int (int (unat v))) @ s'"
proof -
  have "unat v < 2 ^ (8 * 8 + 7)"
    using unsigned_less [of v, where ?'a = nat] by simp
  then have "int (unat v) < 2 ^ (8 * 8 + 7)"
    by (simp del: of_nat_unat)
  moreover have "- (2 ^ (8 * 8 + 7)) \<le> int (unat v)"
    by (rule order_trans [of _ 0]) (simp_all only: of_nat_0_le_iff, simp)
  ultimately have "length (der_int (int (unat v))) \<le> Suc 8"
    by (intro length_der_int_le)
  then have len: "length (der_int (int (unat v))) < 2 ^ 32"
    by simp
  let ?I = "der_int (int (unat v))"
  have "CBS_get_asn1_uint64 s = (Some v, s') \<longleftrightarrow> CBS_get_asn1 CBS_ASN1_INTEGER s = (Some ?I, s')"
    unfolding CBS_get_asn1_uint64_eq
    by (cases "CBS_get_asn1 CBS_ASN1_INTEGER s"; cases "fst (CBS_get_asn1 CBS_ASN1_INTEGER s)")
      (simp_all only: fst_conv option.case prod.case prod.inject option.distinct option.inject
        uint64_contents_iff simp_thms)
  with len show ?thesis by (simp only: CBS_get_asn1_iff simp_thms)
qed

text \<open>The union of \<open>CBS_get_asn1_int64\<close> sign-extends the contents.\<close>

lemma le_u64_eq: "le_u64 bytes = word_of_nat (be_val (rev bytes))"
proof (induction bytes)
  case Nil
  then show ?case by (simp add: le_u64_def)
next
  case (Cons b bytes)
  have "le_u64 (b # bytes) = push_bit 8 (le_u64 bytes) OR ucast b"
    by (simp add: le_u64_def)
  also have "\<dots> = word_of_nat (be_val (rev bytes) * 256 + unat b)"
    unfolding Cons.IH ucast_byte_or_add by simp
  finally show ?case by simp
qed

lemma map_nth_rev: "map (\<lambda>i. bs ! (length bs - i - 1)) [0..<length bs] = rev bs"
  by (rule nth_equalityI) (simp_all add: rev_nth)

lemma be_val_replicate_ff: "int (be_val (replicate n 0xff)) = 256 ^ n - 1"
proof (induction n)
  case 0
  then show ?case by simp
next
  case (Suc n)
  have "be_val (replicate (Suc n) 0xff) = 255 * 256 ^ n + be_val (replicate n 0xff)"
    by (simp add: be_val_Cons)
  with Suc show ?case by simp
qed

lemma be_val_replicate_0: "be_val (replicate n 0) = 0"
  by (induction n) (simp_all add: be_val_Cons)

lemma le_u64_sign_extend:
  assumes "bs \<noteq> []" and "length bs \<le> 8"
  shows "le_u64 (rev bs @ replicate (8 - length bs) (if unat (hd bs) < 128 then 0 else 0xff)) =
    word_of_int (signed_val bs)"
proof -
  let ?n = "8 - length bs" and ?f = "if unat (hd bs) < 128 then 0 else 0xff :: byte"
  have "256 ^ ?n * 256 ^ length bs = (256 :: int) ^ 8"
    using assms(2) by (simp flip: power_add)
  then have "word_of_int (256 ^ ?n * 256 ^ length bs) = (0 :: u64)"
    by (simp only:) (simp add: word_of_int_eq_iff)
  moreover have "int (be_val (replicate ?n ?f @ bs)) =
      signed_val bs + (if unat (hd bs) < 128 then 0 else 256 ^ ?n * 256 ^ length bs)"
    by (simp add: be_val_append be_val_replicate_0 be_val_replicate_ff signed_val_def
        left_diff_distrib)
  ultimately have "word_of_int (int (be_val (replicate ?n ?f @ bs))) = (word_of_int (signed_val bs) :: u64)"
    by (simp only: of_int_add split: if_split) simp
  then show ?thesis
    unfolding le_u64_eq by simp
qed

definition int64_contents :: "byte list \<Rightarrow> u64 option" where
  "int64_contents bs =
     (if bs \<noteq> [] \<and> length bs \<le> 8 \<and> minimal_int bs then Some (word_of_int (signed_val bs)) else None)"

lemma CBS_get_asn1_int64_eq:
  "CBS_get_asn1_int64 s =
    (case CBS_get_asn1 CBS_ASN1_INTEGER s of
       (None, s') \<Rightarrow> (None, s')
     | (Some bs, s') \<Rightarrow> (int64_contents bs, s'))"
proof -
  have ext: "le_u64 (map (\<lambda>i. bs ! (length bs - i - 1)) [0..<length bs] @
        drop (length bs) (replicate 8 (if bs ! 0 AND 0x80 \<noteq> 0 then 0xff else 0))) =
      word_of_int (signed_val bs)" if "bs \<noteq> []" "length bs \<le> 8" for bs :: cbs
  proof -
    have "(if bs ! 0 AND 0x80 \<noteq> 0 then 0xff else 0) = (if unat (hd bs) < 128 then 0 else 0xff :: byte)"
      using that(1) by (simp add: hd_conv_nth byte_and_0x80)
    then show ?thesis
      using le_u64_sign_extend [OF that] by (simp only: map_nth_rev drop_replicate)
  qed
  have body: "(if length bs = 0 \<or> length bs > 8 then op_fail
       else if length bs > 1 \<and> bs ! 0 = 0 \<and> bs ! 1 AND 0x80 = 0 then op_fail
       else if length bs > 1 \<and> bs ! 0 = 0xff \<and> bs ! 1 AND 0x80 \<noteq> 0 then op_fail
       else op_ret (le_u64 (map (\<lambda>i. bs ! (length bs - i - 1)) [0..<length bs] @
        drop (length bs) (replicate 8 (if bs ! 0 AND 0x80 \<noteq> 0 then 0xff else 0))))) s'
      = (int64_contents bs, s')" for bs :: cbs and s' :: cbs
  proof (cases "bs \<noteq> [] \<and> length bs \<le> 8 \<and> minimal_int bs")
    case True
    then have t: "bs \<noteq> []" "length bs \<le> 8" by simp_all
    from True have a: "\<not> (length bs = 0 \<or> length bs > 8)"
        "\<not> (length bs > 1 \<and> bs ! 0 = 0 \<and> bs ! 1 AND 0x80 = 0)"
        "\<not> (length bs > 1 \<and> bs ! 0 = 0xff \<and> bs ! 1 AND 0x80 \<noteq> 0)"
      unfolding minimal_int_reader by auto
    from True have e: "int64_contents bs = Some (word_of_int (signed_val bs))"
      by (simp only: int64_contents_def simp_thms if_True)
    show ?thesis
      unfolding e using a by (simp only: if_False ext [OF t] op_ret_apply)
  next
    case False
    then have e: "int64_contents bs = None"
      by (simp only: int64_contents_def if_False)
    from False have "length bs = 0 \<or> length bs > 8 \<or> \<not> minimal_int bs"
      by auto
    then consider "length bs = 0 \<or> length bs > 8"
      | "length bs > 1 \<and> bs ! 0 = 0 \<and> bs ! 1 AND 0x80 = 0"
      | "length bs > 1 \<and> bs ! 0 = 0xff \<and> bs ! 1 AND 0x80 \<noteq> 0"
      unfolding minimal_int_reader by blast
    then show ?thesis
      unfolding e by cases (simp_all only: if_True op_fail_apply simp_thms split: if_split)
  qed
  show ?thesis
    by (simp only: CBS_get_asn1_int64_def op_bind_apply CBS_data_def CBS_len_def Let_def body)
qed

lemma sint_u64_bounds: "- (2 ^ 63) \<le> sint (v :: u64)" "sint (v :: u64) < 2 ^ 63"
  using sint_range_size [of v] by (auto simp: word_size)

lemma int64_contents_iff: "int64_contents bs = Some v \<longleftrightarrow> bs = der_int (sint v)"
proof
  assume "int64_contents bs = Some v"
  then have bs: "bs \<noteq> []" "length bs \<le> 8" "minimal_int bs" and v: "v = word_of_int (signed_val bs)"
    by (auto simp: int64_contents_def split: if_splits)
  have d: "der_int (signed_val bs) = bs" using bs by (intro der_int_signed_val)
  have "- (2 ^ 63) \<le> signed_val bs" and "signed_val bs < 2 ^ 63"
    using signed_val_bounds [OF bs(1,2)] by simp_all
  then have "sint v = signed_val bs"
    unfolding v by (simp add: signed_of_int signed_take_bit_int_eq_self)
  with d show "bs = der_int (sint v)" by simp
next
  assume bs: "bs = der_int (sint v)"
  have "length bs \<le> 8"
    using length_der_int_le [of 7 "sint v"] sint_u64_bounds [of v] by (simp add: bs)
  moreover have "minimal_int bs" "bs \<noteq> []" "signed_val bs = sint v"
    by (simp_all add: bs minimal_int_der_int signed_val_der_int)
  ultimately show "int64_contents bs = Some v"
    by (simp add: int64_contents_def)
qed

lemma CBS_get_asn1_int64_iff:
  "CBS_get_asn1_int64 s = (Some v, s') \<longleftrightarrow>
    s = der_element CBS_ASN1_INTEGER (der_int (sint v)) @ s'"
proof -
  have len: "length (der_int (sint v)) < 2 ^ 32"
    using length_der_int_le [of 7 "sint v"] sint_u64_bounds [of v] by simp
  let ?I = "der_int (sint v)"
  have "CBS_get_asn1_int64 s = (Some v, s') \<longleftrightarrow> CBS_get_asn1 CBS_ASN1_INTEGER s = (Some ?I, s')"
    unfolding CBS_get_asn1_int64_eq
    by (cases "CBS_get_asn1 CBS_ASN1_INTEGER s"; cases "fst (CBS_get_asn1 CBS_ASN1_INTEGER s)")
      (simp_all only: fst_conv option.case prod.case prod.inject option.distinct option.inject
        int64_contents_iff simp_thms)
  with len show ?thesis by (simp only: CBS_get_asn1_iff simp_thms)
qed

lemma CBS_get_asn1_bool_iff:
  "CBS_get_asn1_bool s = (Some b, s') \<longleftrightarrow>
    s = der_element CBS_ASN1_BOOLEAN [if b then 0xff else 0] @ s'"
proof -
  have "CBS_get_asn1_bool s = (Some b, s') \<longleftrightarrow>
      CBS_get_asn1 CBS_ASN1_BOOLEAN s = (Some [if b then 0xff else 0], s')"
    unfolding CBS_get_asn1_bool_def op_bind_Some_iff
    by (auto simp: CBS_len_def CBS_data_def op_simps Let_def length_Suc_conv split: if_splits)
  then show ?thesis by (simp add: CBS_get_asn1_iff)
qed

section \<open>Properties\<close>

text \<open>C1: The element reader is exact: it returns the contents \<open>c\<close> and the rest \<open>s'\<close> if and
  only if the window is the DER encoding of \<open>c\<close> under the tag, followed by \<open>s'\<close>; so no other
  encoding of the length or the tag is accepted.\<close>

theorem CBS_get_asn1_exact:
  "CBS_get_asn1 tag s = (Some c, s') \<longleftrightarrow> s = der_element tag c @ s' \<and> length c < 2 ^ 32"
  by (rule CBS_get_asn1_iff)

text \<open>C14: The INTEGER and BOOLEAN readers are exact: they accept the unique DER encoding of the
  value they return and nothing else, for the full ranges of \<open>uint64_t\<close> and \<open>int64_t\<close>.\<close>

theorem CBS_get_asn1_values_exact:
  "(CBS_get_asn1_uint64 s = (Some v, s') \<longleftrightarrow> s = der_element CBS_ASN1_INTEGER (der_int (int (unat v))) @ s') \<and>
   (CBS_get_asn1_int64 s = (Some v, s') \<longleftrightarrow> s = der_element CBS_ASN1_INTEGER (der_int (sint v)) @ s') \<and>
   (CBS_get_asn1_bool s = (Some b, s') \<longleftrightarrow> s = der_element CBS_ASN1_BOOLEAN [if b then 0xff else 0] @ s')"
  by (simp only: CBS_get_asn1_uint64_iff CBS_get_asn1_int64_iff CBS_get_asn1_bool_iff simp_thms)

end
