(* ===== verification/Cbb.thy ===== *)
theory Cbb
  imports Cbs Asn1Spec
begin

text \<open>
  \<open>crypto/bytestring/cbb.c\<close>, the byte builder. In C a tree of \<open>CBB\<close> structs shares one
  \<open>cbb_buffer_st\<close>: every \<open>CBB\<close> points to the shared buffer and to at most one open child,
  whose length prefix is still pending. The model keeps that chain as a list: element 0 is the
  top-level \<open>CBB\<close>, element \<open>d + 1\<close> the open child of element \<open>d\<close>. A caller's pointer to
  a \<open>CBB\<close> is its depth \<open>d\<close>; a depth beyond the list is a child that has been flushed, whose
  \<open>base\<close> is \<open>NULL\<close>. \<open>buf\<close> is the whole allocation, of which the first \<open>len\<close> bytes are
  valid.
\<close>

section \<open>State\<close>

record cbb_buffer_st =
  cbb_buf :: "byte list"
  cbb_blen :: nat
  cbb_cap :: nat
  cbb_can_resize :: bool
  cbb_error :: bool

record cbb_node =
  cbb_offset :: nat
  cbb_pending_len_len :: nat
  cbb_pending_is_asn1 :: bool
  cbb_is_child :: bool

record cbb_st =
  cbb_base :: "cbb_buffer_st option"
  cbb_nodes :: "cbb_node list"

definition zero_node :: cbb_node where
  "zero_node = \<lparr>cbb_offset = 0, cbb_pending_len_len = 0, cbb_pending_is_asn1 = False, cbb_is_child = False\<rparr>"

definition CBB_zero :: cbb_st where
  "CBB_zero = \<lparr>cbb_base = None, cbb_nodes = [zero_node]\<rparr>"

definition cbb_init :: "mallocf \<Rightarrow> byte list \<Rightarrow> nat \<Rightarrow> (cbb_st, unit) cop" where
  "cbb_init m buf cap cbb =
     (case OPENSSL_malloc m 32 of
        None \<Rightarrow> (None, cbb)
      | Some _ \<Rightarrow>
          (Some (), cbb\<lparr>cbb_base :=
             Some \<lparr>cbb_buf = buf, cbb_blen = 0, cbb_cap = cap, cbb_can_resize = True, cbb_error = False\<rparr>\<rparr>))"

definition CBB_init :: "mallocf \<Rightarrow> nat \<Rightarrow> unit option \<times> cbb_st" where
  "CBB_init m initial_capacity =
     (case OPENSSL_malloc m initial_capacity of
        None \<Rightarrow> (if initial_capacity > 0 then (None, CBB_zero) else cbb_init m [] initial_capacity CBB_zero)
      | Some buf \<Rightarrow> cbb_init m buf initial_capacity CBB_zero)"

definition CBB_init_fixed :: "mallocf \<Rightarrow> byte list \<Rightarrow> nat \<Rightarrow> unit option \<times> cbb_st" where
  "CBB_init_fixed m buf len =
     (case cbb_init m buf len CBB_zero of
        (None, cbb) \<Rightarrow> (None, cbb)
      | (Some _, cbb) \<Rightarrow>
          (Some (), cbb\<lparr>cbb_base := map_option (\<lambda>b. b\<lparr>cbb_can_resize := False\<rparr>) (cbb_base cbb)\<rparr>))"

definition CBB_cleanup :: "cbb_st \<Rightarrow> cbb_st" where
  "CBB_cleanup cbb = cbb\<lparr>cbb_base := None\<rparr>"

section \<open>The shared buffer\<close>

text \<open>The label \<open>err\<close>: the error flag is set and the call fails.\<close>

definition cbb_err :: "(cbb_buffer_st, 'a) cop" where
  "cbb_err base = (None, base\<lparr>cbb_error := True\<rparr>)"

text \<open>The result is the offset of \<open>*out\<close> in the buffer.\<close>

definition cbb_buffer_reserve :: "mallocf \<Rightarrow> nat \<Rightarrow> (cbb_buffer_st, nat) cop" where
  "cbb_buffer_reserve m len base =
     (let newlen = size_add (cbb_blen base) len in
      if newlen < cbb_blen base then cbb_err base
      else if newlen > cbb_cap base then
        (if \<not> cbb_can_resize base then cbb_err base
         else
           (let newcap0 = size_mul (cbb_cap base) 2;
                newcap = (if newcap0 < cbb_cap base \<or> newcap0 < newlen then newlen else newcap0)
            in case OPENSSL_realloc m (cbb_buf base) newcap of
                 None \<Rightarrow> cbb_err base
               | Some newbuf \<Rightarrow> (Some (cbb_blen base), base\<lparr>cbb_buf := newbuf, cbb_cap := newcap\<rparr>)))
      else (Some (cbb_blen base), base))"

definition cbb_buffer_add :: "mallocf \<Rightarrow> nat \<Rightarrow> (cbb_buffer_st, nat) cop" where
  "cbb_buffer_add m len =
     op_bind (cbb_buffer_reserve m len) (\<lambda>out base.
       (Some out, base\<lparr>cbb_blen := cbb_blen base + len\<rparr>))"

text \<open>The loop \<open>for (i = n - 1; i < n; i--) { buf[pos + i] = v; v >>= 8; }\<close>.\<close>

fun cbb_put_be :: "byte list \<Rightarrow> nat \<Rightarrow> nat \<Rightarrow> u64 \<Rightarrow> byte list \<times> u64" where
  "cbb_put_be buf pos 0 v = (buf, v)"
| "cbb_put_be buf pos (Suc i) v = cbb_put_be (buf[pos + i := ucast v]) pos i (drop_bit 8 v)"

definition cbb_write_be :: "nat \<Rightarrow> nat \<Rightarrow> u64 \<Rightarrow> (cbb_buffer_st, unit) cop" where
  "cbb_write_be pos n v base =
     (let (buf, rest) = cbb_put_be (cbb_buf base) pos n v; base' = base\<lparr>cbb_buf := buf\<rparr>
      in if rest \<noteq> 0 then cbb_err base' else (Some (), base'))"

definition cbb_buffer_add_u :: "mallocf \<Rightarrow> u64 \<Rightarrow> nat \<Rightarrow> (cbb_buffer_st, unit) cop" where
  "cbb_buffer_add_u m v len_len =
     (if len_len = 0 then op_ret ()
      else op_bind (cbb_buffer_add m len_len) (\<lambda>pos. cbb_write_be pos len_len v))"

text \<open>\<open>memcpy\<close> and \<open>memmove\<close> into the buffer.\<close>

definition mem_write :: "byte list \<Rightarrow> nat \<Rightarrow> byte list \<Rightarrow> byte list" where
  "mem_write buf pos bs = take pos buf @ bs @ drop (pos + length bs) buf"

section \<open>Flushing\<close>

text \<open>The choice of the DER length form: \<open>len_len\<close>, the first byte, and what is left to write.\<close>

definition cbb_asn1_len_form :: "nat \<Rightarrow> (nat \<times> byte \<times> nat) option" where
  "cbb_asn1_len_form len =
     (if len > 0xfffffffe then None
      else if len > 0xffffff then Some (5, 0x80 OR 4, len)
      else if len > 0xffff then Some (4, 0x80 OR 3, len)
      else if len > 0xff then Some (3, 0x80 OR 2, len)
      else if len > 0x7f then Some (2, 0x80 OR 1, len)
      else Some (1, word_of_nat len, 0))"

text \<open>The part of \<open>CBB_flush\<close> after the recursive call: the pending prefix of \<open>child\<close> is
  written, and the contents are moved along when the DER length needs more than one byte. The
  child's fields change too, and stay changed when the function fails.\<close>

definition cbb_close_child :: "mallocf \<Rightarrow> (cbb_buffer_st \<times> cbb_node, unit) cop" where
  "cbb_close_child m = (\<lambda>(base, child).
     (let child_start = size_add (cbb_offset child) (cbb_pending_len_len child);
          fail = (\<lambda>base child. (None, snd (cbb_err base :: unit option \<times> cbb_buffer_st), child))
      in if child_start < cbb_offset child \<or> cbb_blen base < child_start then fail base child
      else
        (let len = cbb_blen base - child_start;
             finish = (\<lambda>base child len.
               case cbb_write_be (cbb_offset child) (cbb_pending_len_len child) (word_of_nat len) base of
                 (r, base') \<Rightarrow> (r, base', child))
         in if cbb_pending_is_asn1 child then
              (case cbb_asn1_len_form len of
                 None \<Rightarrow> fail base child
               | Some (len_len, initial_length_byte, len') \<Rightarrow>
                   (let extra_bytes = len_len - 1;
                        grown =
                          (if len_len \<noteq> 1 then
                             (case cbb_buffer_add m extra_bytes base of
                                (None, base') \<Rightarrow> (None, base')
                              | (Some _, base') \<Rightarrow>
                                  (Some (), base'\<lparr>cbb_buf := mem_write (cbb_buf base') (child_start + extra_bytes)
                                     (take len (drop child_start (cbb_buf base')))\<rparr>))
                           else (Some (), base))
                    in case grown of
                         (None, base') \<Rightarrow> fail base' child
                       | (Some _, base') \<Rightarrow>
                           finish (base'\<lparr>cbb_buf := (cbb_buf base')[cbb_offset child := initial_length_byte]\<rparr>)
                             (child\<lparr>cbb_offset := cbb_offset child + 1, cbb_pending_len_len := len_len - 1\<rparr>)
                             len'))
            else finish base child len)))"

text \<open>\<open>CBB_flush\<close> on the \<open>CBB\<close> at depth \<open>d\<close>.\<close>

function CBB_flush :: "mallocf \<Rightarrow> nat \<Rightarrow> (cbb_st, unit) cop" where
  "CBB_flush m d cbb =
     (case cbb_base cbb of
        None \<Rightarrow> (None, cbb)
      | Some base \<Rightarrow>
          if length (cbb_nodes cbb) \<le> d \<or> cbb_error base then (None, cbb)
          else if length (cbb_nodes cbb) \<le> d + 1 \<or>
                  cbb_pending_len_len (cbb_nodes cbb ! (d + 1)) = 0 then (Some (), cbb)
          else
            (case CBB_flush m (d + 1) cbb of
               (None, cbb') \<Rightarrow>
                 (None, cbb'\<lparr>cbb_base := map_option (\<lambda>b. b\<lparr>cbb_error := True\<rparr>) (cbb_base cbb')\<rparr>)
             | (Some _, cbb') \<Rightarrow>
                 (case cbb_base cbb' of
                    None \<Rightarrow> (None, cbb')
                  | Some base' \<Rightarrow>
                      (case cbb_close_child m (base', cbb_nodes cbb' ! (d + 1)) of
                         (None, base'', child) \<Rightarrow>
                           (None, cbb'\<lparr>cbb_base := Some base'', cbb_nodes := (cbb_nodes cbb')[d + 1 := child]\<rparr>)
                       | (Some _, base'', child) \<Rightarrow>
                           (Some (), cbb'\<lparr>cbb_base := Some base'', cbb_nodes := take (d + 1) (cbb_nodes cbb')\<rparr>)))))"
  by pat_completeness auto
termination
  by (relation "measure (\<lambda>(m, d, cbb). length (cbb_nodes cbb) - d)") auto

declare CBB_flush.simps [simp del]

definition CBB_finish :: "mallocf \<Rightarrow> (cbb_st, byte list) cop" where
  "CBB_finish m cbb =
     (case CBB_flush m 0 cbb of
        (None, cbb') \<Rightarrow> (None, cbb')
      | (Some _, cbb') \<Rightarrow>
          (case cbb_base cbb' of
             None \<Rightarrow> (None, cbb')
           | Some base \<Rightarrow> (Some (take (cbb_blen base) (cbb_buf base)), CBB_cleanup cbb')))"

section \<open>Operations on the \<open>CBB\<close> at depth \<open>d\<close>\<close>

text \<open>A buffer operation on \<open>cbb->base\<close>.\<close>

definition on_base :: "(cbb_buffer_st, 'a) cop \<Rightarrow> (cbb_st, 'a) cop" where
  "on_base f cbb =
     (case cbb_base cbb of
        None \<Rightarrow> (None, cbb)
      | Some base \<Rightarrow> (case f base of (r, base') \<Rightarrow> (r, cbb\<lparr>cbb_base := Some base'\<rparr>)))"

definition CBB_data_len :: "nat \<Rightarrow> cbb_st \<Rightarrow> byte list" where
  "CBB_data_len d cbb =
     (case cbb_base cbb of
        None \<Rightarrow> []
      | Some base \<Rightarrow>
          (let n = cbb_nodes cbb ! d
           in drop (cbb_offset n + cbb_pending_len_len n) (take (cbb_blen base) (cbb_buf base))))"

text \<open>\<open>cbb->child = out_contents\<close>, the child at depth \<open>d + 1\<close>.\<close>

definition cbb_set_child :: "nat \<Rightarrow> nat \<Rightarrow> nat \<Rightarrow> bool \<Rightarrow> (cbb_st, unit) cop" where
  "cbb_set_child d offset len_len is_asn1 cbb =
     (Some (), cbb\<lparr>cbb_nodes := take (d + 1) (cbb_nodes cbb) @
        [\<lparr>cbb_offset = offset, cbb_pending_len_len = len_len, cbb_pending_is_asn1 = is_asn1,
          cbb_is_child = True\<rparr>]\<rparr>)"

definition cbb_add_length_prefixed :: "mallocf \<Rightarrow> nat \<Rightarrow> nat \<Rightarrow> (cbb_st, unit) cop" where
  "cbb_add_length_prefixed m d len_len =
     op_then (CBB_flush m d)
     (op_bind (on_base (op_bind (cbb_buffer_add m len_len) (\<lambda>pos base.
          (Some pos, base\<lparr>cbb_buf := mem_write (cbb_buf base) pos (replicate len_len 0)\<rparr>))))
       (\<lambda>offset. cbb_set_child d offset len_len False))"

definition CBB_add_u8_length_prefixed :: "mallocf \<Rightarrow> nat \<Rightarrow> (cbb_st, unit) cop" where
  "CBB_add_u8_length_prefixed m d = cbb_add_length_prefixed m d 1"

definition CBB_add_u16_length_prefixed :: "mallocf \<Rightarrow> nat \<Rightarrow> (cbb_st, unit) cop" where
  "CBB_add_u16_length_prefixed m d = cbb_add_length_prefixed m d 2"

definition CBB_add_u24_length_prefixed :: "mallocf \<Rightarrow> nat \<Rightarrow> (cbb_st, unit) cop" where
  "CBB_add_u24_length_prefixed m d = cbb_add_length_prefixed m d 3"

definition CBB_add_bytes :: "mallocf \<Rightarrow> nat \<Rightarrow> byte list \<Rightarrow> (cbb_st, unit) cop" where
  "CBB_add_bytes m d data =
     op_then (CBB_flush m d)
     (on_base (op_bind (cbb_buffer_add m (length data)) (\<lambda>dest base.
        (Some (), base\<lparr>cbb_buf := mem_write (cbb_buf base) dest data\<rparr>))))"

definition CBB_add_space :: "mallocf \<Rightarrow> nat \<Rightarrow> nat \<Rightarrow> (cbb_st, nat) cop" where
  "CBB_add_space m d len = op_then (CBB_flush m d) (on_base (cbb_buffer_add m len))"

definition CBB_reserve :: "mallocf \<Rightarrow> nat \<Rightarrow> nat \<Rightarrow> (cbb_st, nat) cop" where
  "CBB_reserve m d len = op_then (CBB_flush m d) (on_base (cbb_buffer_reserve m len))"

definition CBB_did_write :: "nat \<Rightarrow> nat \<Rightarrow> (cbb_st, unit) cop" where
  "CBB_did_write d len cbb =
     (case cbb_base cbb of
        None \<Rightarrow> (None, cbb)
      | Some base \<Rightarrow>
          (let newlen = size_add (cbb_blen base) len in
           if d + 1 < length (cbb_nodes cbb) \<or> newlen < cbb_blen base \<or> newlen > cbb_cap base
           then (None, cbb)
           else (Some (), cbb\<lparr>cbb_base := Some (base\<lparr>cbb_blen := newlen\<rparr>)\<rparr>)))"

definition CBB_add_u8 :: "mallocf \<Rightarrow> nat \<Rightarrow> byte \<Rightarrow> (cbb_st, unit) cop" where
  "CBB_add_u8 m d v = op_then (CBB_flush m d) (on_base (cbb_buffer_add_u m (ucast v) 1))"

definition CBB_add_u16 :: "mallocf \<Rightarrow> nat \<Rightarrow> u16 \<Rightarrow> (cbb_st, unit) cop" where
  "CBB_add_u16 m d v = op_then (CBB_flush m d) (on_base (cbb_buffer_add_u m (ucast v) 2))"

definition CBB_add_u16le :: "mallocf \<Rightarrow> nat \<Rightarrow> u16 \<Rightarrow> (cbb_st, unit) cop" where
  "CBB_add_u16le m d v = CBB_add_u16 m d (CRYPTO_bswap2 v)"

definition CBB_add_u24 :: "mallocf \<Rightarrow> nat \<Rightarrow> u32 \<Rightarrow> (cbb_st, unit) cop" where
  "CBB_add_u24 m d v = op_then (CBB_flush m d) (on_base (cbb_buffer_add_u m (ucast v) 3))"

definition CBB_add_u32 :: "mallocf \<Rightarrow> nat \<Rightarrow> u32 \<Rightarrow> (cbb_st, unit) cop" where
  "CBB_add_u32 m d v = op_then (CBB_flush m d) (on_base (cbb_buffer_add_u m (ucast v) 4))"

definition CBB_add_u32le :: "mallocf \<Rightarrow> nat \<Rightarrow> u32 \<Rightarrow> (cbb_st, unit) cop" where
  "CBB_add_u32le m d v = CBB_add_u32 m d (CRYPTO_bswap4 v)"

definition CBB_add_u64 :: "mallocf \<Rightarrow> nat \<Rightarrow> u64 \<Rightarrow> (cbb_st, unit) cop" where
  "CBB_add_u64 m d v = op_then (CBB_flush m d) (on_base (cbb_buffer_add_u m v 8))"

definition CBB_add_u64le :: "mallocf \<Rightarrow> nat \<Rightarrow> u64 \<Rightarrow> (cbb_st, unit) cop" where
  "CBB_add_u64le m d v = CBB_add_u64 m d (CRYPTO_bswap8 v)"

definition CBB_discard_child :: "nat \<Rightarrow> cbb_st \<Rightarrow> cbb_st" where
  "CBB_discard_child d cbb =
     (if length (cbb_nodes cbb) \<le> d + 1 then cbb
      else cbb\<lparr>cbb_base := map_option (\<lambda>b. b\<lparr>cbb_blen := cbb_offset (cbb_nodes cbb ! (d + 1))\<rparr>) (cbb_base cbb),
               cbb_nodes := take (d + 1) (cbb_nodes cbb)\<rparr>)"

end
