(* ===== verification/CbbSpec.thy ===== *)
theory CbbSpec
  imports Cbb
begin

text \<open>
  What the byte builder promises. The abstract builder is a stack of frames, each with the
  contents written to it so far; closing a frame puts the length of its contents in front of
  them. The lemmas show that the shared buffer of \<open>cbb.c\<close>, with its offsets, pending prefixes
  and moved contents, implements this stack: \<open>cbb_rel\<close> is the refinement relation.
\<close>

section \<open>The abstract builder\<close>

datatype frame_kind = Top | Prefixed nat | Asn1

type_synonym frame = "frame_kind \<times> byte list"

fun plen :: "frame_kind \<Rightarrow> nat" where
  "plen Top = 0"
| "plen (Prefixed n) = n"
| "plen Asn1 = 1"

text \<open>The bytes that close a frame: the length of its contents, if the prefix can hold it.\<close>

fun prefix_bytes :: "frame_kind \<Rightarrow> nat \<Rightarrow> byte list option" where
  "prefix_bytes Top len = Some []"
| "prefix_bytes (Prefixed n) len = (if len < 256 ^ n then Some (be_bytes n len) else None)"
| "prefix_bytes Asn1 len = (if len \<le> 0xfffffffe then Some (der_length len) else None)"

text \<open>Frames closed from the innermost outwards.\<close>

fun flat_frames :: "frame list \<Rightarrow> byte list option" where
  "flat_frames [] = Some []"
| "flat_frames ((k, c) # fs) =
     (case flat_frames fs of
        None \<Rightarrow> None
      | Some t \<Rightarrow>
          (case prefix_bytes k (length (c @ t)) of
             None \<Rightarrow> None
           | Some p \<Rightarrow> Some (p @ c @ t)))"

text \<open>Flushing the frame at depth \<open>d\<close> closes everything inside it.\<close>

definition flush_frames :: "nat \<Rightarrow> frame list \<Rightarrow> frame list option" where
  "flush_frames d fs =
     (if length fs \<le> d then None
      else map_option (\<lambda>t. take d fs @ [(fst (fs ! d), snd (fs ! d) @ t)]) (flat_frames (drop (d + 1) fs)))"

text \<open>The bytes and the \<open>CBB\<close> structs that represent a stack of frames from position
  \<open>pos\<close> of the buffer on.\<close>

fun render :: "frame list \<Rightarrow> byte list" where
  "render [] = []"
| "render ((k, c) # fs) = replicate (plen k) 0 @ c @ render fs"

definition frame_node :: "nat \<Rightarrow> frame_kind \<Rightarrow> cbb_node" where
  "frame_node pos k = \<lparr>cbb_offset = pos, cbb_pending_len_len = plen k,
     cbb_pending_is_asn1 = (k = Asn1), cbb_is_child = (k \<noteq> Top)\<rparr>"

fun nodes_of :: "nat \<Rightarrow> frame list \<Rightarrow> cbb_node list" where
  "nodes_of pos [] = []"
| "nodes_of pos ((k, c) # fs) = frame_node pos k # nodes_of (pos + plen k + length c) fs"

definition frames_wf :: "frame list \<Rightarrow> bool" where
  "frames_wf fs \<longleftrightarrow>
     fs \<noteq> [] \<and> fst (hd fs) = Top \<and> (\<forall>f \<in> set (tl fs). 0 < plen (fst f) \<and> plen (fst f) \<le> 8)"

section \<open>The shared buffer\<close>

definition buf_ok :: "cbb_buffer_st \<Rightarrow> bool" where
  "buf_ok base \<longleftrightarrow> length (cbb_buf base) = cbb_cap base \<and> cbb_blen base \<le> cbb_cap base \<and>
     cbb_cap base < 2 ^ 63 \<and> (cbb_can_resize base \<longrightarrow> cbb_cap base + 8 < 2 ^ 63)"

definition valid_bytes :: "cbb_buffer_st \<Rightarrow> byte list" where
  "valid_bytes base = take (cbb_blen base) (cbb_buf base)"

lemma length_valid_bytes: "buf_ok base \<Longrightarrow> length (valid_bytes base) = cbb_blen base"
  by (simp add: buf_ok_def valid_bytes_def)

definition cbb_rel :: "cbb_st \<Rightarrow> frame list \<Rightarrow> bool" where
  "cbb_rel cbb fs \<longleftrightarrow>
     (\<exists>base. cbb_base cbb = Some base \<and> buf_ok base \<and> \<not> cbb_error base \<and>
        valid_bytes base = render fs \<and> cbb_nodes cbb = nodes_of 0 fs \<and> frames_wf fs)"

definition same_mode :: "cbb_buffer_st \<Rightarrow> cbb_buffer_st \<Rightarrow> bool" where
  "same_mode base base' \<longleftrightarrow> cbb_can_resize base' = cbb_can_resize base \<and>
     (\<not> cbb_can_resize base \<longrightarrow> cbb_cap base' = cbb_cap base)"

lemma same_mode_refl [simp]: "same_mode base base"
  by (simp add: same_mode_def)

lemma same_mode_trans: "same_mode a b \<Longrightarrow> same_mode b c \<Longrightarrow> same_mode a c"
  by (auto simp: same_mode_def)

text \<open>No room for a result of \<open>n\<close> bytes: a fixed buffer is too small, or \<open>malloc\<close> refuses a
  block of at most twice the size.\<close>

definition no_room :: "mallocf \<Rightarrow> cbb_buffer_st \<Rightarrow> nat \<Rightarrow> bool" where
  "no_room m base n \<longleftrightarrow>
     (if cbb_can_resize base then \<exists>k \<le> 2 * n + 8. m k = None else cbb_cap base < n)"

lemma no_room_mono: "no_room m base n \<Longrightarrow> n \<le> n' \<Longrightarrow> no_room m base n'"
proof (cases "cbb_can_resize base")
  case True
  assume "no_room m base n" and le: "n \<le> n'"
  then obtain k where k: "k \<le> 2 * n + 8" "m k = None" using True by (auto simp: no_room_def)
  have "k \<le> 2 * n' + 8" using k(1) le by simp
  with k(2) True show ?thesis by (auto simp: no_room_def)
qed (simp add: no_room_def)

lemma no_room_same_mode: "same_mode base base' \<Longrightarrow> no_room m base' n \<longleftrightarrow> no_room m base n"
  by (auto simp: no_room_def same_mode_def)

text \<open>A buffer operation that returns the extended buffer, or sets the error flag and
  leaves the bytes alone.\<close>

lemma size_add_reserve:
  assumes "buf_ok base" and "n < 2 ^ 63"
  shows "size_add (cbb_blen base) n = cbb_blen base + n"
  using assms by (intro size_add_exact) (auto simp: buf_ok_def)

lemma cbb_buffer_reserve_Some:
  assumes "malloc_law m" and ok: "buf_ok base" and n: "n < 2 ^ 63"
    and r: "cbb_buffer_reserve m n base = (Some p, base')"
  shows "p = cbb_blen base" and "buf_ok base'" and "cbb_blen base' = cbb_blen base"
    and "cbb_blen base + n \<le> cbb_cap base'" and "valid_bytes base' = valid_bytes base"
    and "cbb_error base' = cbb_error base" and "cbb_can_resize base' = cbb_can_resize base"
    and "\<not> cbb_can_resize base \<Longrightarrow> base' = base"
proof -
  let ?newlen = "cbb_blen base + n"
  have add: "size_add (cbb_blen base) n = ?newlen"
    using ok n by (rule size_add_reserve)
  have "p = cbb_blen base \<and> buf_ok base' \<and> cbb_blen base' = cbb_blen base \<and>
    cbb_blen base + n \<le> cbb_cap base' \<and> valid_bytes base' = valid_bytes base \<and>
    cbb_error base' = cbb_error base \<and> cbb_can_resize base' = cbb_can_resize base \<and>
    (\<not> cbb_can_resize base \<longrightarrow> base' = base)"
  proof (cases "?newlen > cbb_cap base")
    case False
    with r ok show ?thesis
      by (auto simp: cbb_buffer_reserve_def add Let_def)
  next
    case True
    with r have res: "cbb_can_resize base"
      by (auto simp: cbb_buffer_reserve_def add Let_def cbb_err_def split: if_splits)
    with ok have cap: "cbb_cap base + 8 < 2 ^ 63" by (simp add: buf_ok_def)
    then have mul: "size_mul (cbb_cap base) 2 = cbb_cap base * 2"
      by (intro size_mul_exact) simp
    define newcap where "newcap = (if cbb_cap base * 2 < ?newlen then ?newlen else cbb_cap base * 2)"
    have newcap_lt: "newcap < size_mod - 8" and newcap_ge: "?newlen \<le> newcap"
      using cap n ok by (auto simp: newcap_def buf_ok_def)
    obtain newbuf where nb: "OPENSSL_realloc m (cbb_buf base) newcap = Some newbuf"
      and p: "p = cbb_blen base" and b': "base' = base\<lparr>cbb_buf := newbuf, cbb_cap := newcap\<rparr>"
      using r True res
      by (auto simp: cbb_buffer_reserve_def add mul Let_def cbb_err_def newcap_def
          split: option.splits)
    note nbf = OPENSSL_realloc_SomeD [OF assms(1) newcap_lt nb]
    have "take (cbb_blen base) newbuf = take (cbb_blen base) (cbb_buf base)"
    proof -
      have le: "cbb_blen base \<le> min (length (cbb_buf base)) newcap"
        using ok newcap_ge by (auto simp: buf_ok_def)
      have "take (cbb_blen base) newbuf =
          take (cbb_blen base) (take (min (length (cbb_buf base)) newcap) newbuf)"
        using le by (simp add: min_def)
      also have "\<dots> = take (cbb_blen base) (take newcap (cbb_buf base))"
        using nbf(2) by simp
      also have "\<dots> = take (cbb_blen base) (cbb_buf base)"
        using le by (simp add: min_absorb1)
      finally show ?thesis .
    qed
    with nbf p b' newcap_ge ok res show ?thesis
      by (auto simp: buf_ok_def valid_bytes_def)
  qed
  then show "p = cbb_blen base" and "buf_ok base'" and "cbb_blen base' = cbb_blen base"
    and "cbb_blen base + n \<le> cbb_cap base'" and "valid_bytes base' = valid_bytes base"
    and "cbb_error base' = cbb_error base" and "cbb_can_resize base' = cbb_can_resize base"
    and "\<not> cbb_can_resize base \<Longrightarrow> base' = base"
    by auto
qed

lemma cbb_buffer_reserve_None:
  assumes ok: "buf_ok base" and n: "n < 2 ^ 63" and r: "cbb_buffer_reserve m n base = (None, base')"
  shows "base' = base\<lparr>cbb_error := True\<rparr>" and "no_room m base (cbb_blen base + n)"
proof -
  let ?newlen = "cbb_blen base + n"
  have add: "size_add (cbb_blen base) n = ?newlen"
    using ok n by (rule size_add_reserve)
  show "base' = base\<lparr>cbb_error := True\<rparr>"
    using r by (auto simp: cbb_buffer_reserve_def Let_def cbb_err_def split: if_splits option.splits)
  have big: "cbb_cap base < ?newlen"
    using r by (auto simp: cbb_buffer_reserve_def add Let_def cbb_err_def split: if_splits)
  show "no_room m base ?newlen"
  proof (cases "cbb_can_resize base")
    case False
    with big show ?thesis by (simp add: no_room_def)
  next
    case True
    with ok have cap: "cbb_cap base + 8 < 2 ^ 63" by (simp add: buf_ok_def)
    then have mul: "size_mul (cbb_cap base) 2 = cbb_cap base * 2"
      by (intro size_mul_exact) simp
    define newcap where "newcap = (if cbb_cap base * 2 < ?newlen then ?newlen else cbb_cap base * 2)"
    have lt: "newcap + 8 < size_mod" and le: "newcap \<le> 2 * ?newlen"
      using cap n ok big by (auto simp: newcap_def buf_ok_def)
    have "OPENSSL_realloc m (cbb_buf base) newcap = None"
      using r True big
      by (auto simp: cbb_buffer_reserve_def add mul Let_def cbb_err_def newcap_def
          split: option.splits if_splits)
    then have "m (newcap + 8) = None"
      using lt by (auto simp: OPENSSL_realloc_def OPENSSL_malloc_def size_add_exact Let_def split: option.splits)
    moreover have "newcap + 8 \<le> 2 * ?newlen + 8" using le by simp
    ultimately have "\<exists>k \<le> 2 * ?newlen + 8. m k = None" by blast
    then show ?thesis using True unfolding no_room_def by simp
  qed
qed

text \<open>Room for \<open>n\<close> more bytes: what \<open>cbb_buffer_add\<close> leaves, with the new bytes still
  unspecified.\<close>

definition grown :: "cbb_buffer_st \<Rightarrow> nat \<Rightarrow> cbb_buffer_st \<Rightarrow> bool" where
  "grown base n base' \<longleftrightarrow>
     buf_ok base' \<and> cbb_blen base' = cbb_blen base + n \<and>
     take (cbb_blen base) (cbb_buf base') = valid_bytes base \<and>
     cbb_error base' = cbb_error base \<and> cbb_can_resize base' = cbb_can_resize base \<and>
     (\<not> cbb_can_resize base \<longrightarrow> cbb_cap base' = cbb_cap base)"

lemma cbb_buffer_add_Some:
  assumes "malloc_law m" and "buf_ok base" and "n < 2 ^ 63"
    and "cbb_buffer_add m n base = (Some p, base')"
  shows "p = cbb_blen base" and "grown base n base'"
proof -
  obtain b1 where r: "cbb_buffer_reserve m n base = (Some p, b1)"
    and b': "base' = b1\<lparr>cbb_blen := cbb_blen b1 + n\<rparr>"
    using assms(4) by (auto simp: cbb_buffer_add_def op_simps split: prod.splits option.splits)
  note f = cbb_buffer_reserve_Some [OF assms(1-3) r]
  show "p = cbb_blen base" by (rule f(1))
  show "grown base n base'"
    using f b' by (auto simp: grown_def buf_ok_def valid_bytes_def)
qed

lemma cbb_buffer_add_None:
  assumes "buf_ok base" and "n < 2 ^ 63" and "cbb_buffer_add m n base = (None, base')"
  shows "base' = base\<lparr>cbb_error := True\<rparr>" and "no_room m base (cbb_blen base + n)"
  using assms(3) cbb_buffer_reserve_None [OF assms(1,2)]
  by (auto simp: cbb_buffer_add_def op_simps split: prod.splits option.splits)

section \<open>Writing into the buffer\<close>

lemma length_mem_write:
  "pos + length bs \<le> length buf \<Longrightarrow> length (mem_write buf pos bs) = length buf"
  by (simp add: mem_write_def)

lemma take_mem_write:
  "pos + length bs = n \<Longrightarrow> n \<le> length buf \<Longrightarrow> take n (mem_write buf pos bs) = take pos buf @ bs"
  by (auto simp: mem_write_def)

lemma mem_write_snoc:
  assumes "pos + length bs < length buf"
  shows "mem_write (buf[pos + length bs := b]) pos bs = mem_write buf pos (bs @ [b])"
proof -
  have "drop (pos + length bs) (buf[pos + length bs := b]) = b # drop (pos + length bs + 1) buf"
    using assms by (simp add: drop_update_swap Cons_nth_drop_Suc [symmetric])
  then show ?thesis by (simp add: mem_write_def add.commute)
qed

lemma cbb_put_be_eq:
  "pos + n \<le> length buf \<Longrightarrow>
     cbb_put_be buf pos n v = (mem_write buf pos (be_bytes n (unat v)), drop_bit (8 * n) v)"
proof (induction n arbitrary: buf v)
  case 0
  then show ?case by (simp add: mem_write_def)
next
  case (Suc n)
  have v: "unat (drop_bit 8 v) = unat v div 256"
    by (simp only: unat_drop_bit) simp
  have b: "(word_of_nat (unat v) :: byte) = ucast v"
    by simp
  have "cbb_put_be buf pos (Suc n) v = cbb_put_be (buf[pos + n := ucast v]) pos n (drop_bit 8 v)"
    by simp
  also have "\<dots> = (mem_write (buf[pos + n := ucast v]) pos (be_bytes n (unat v div 256)),
      drop_bit (8 * n) (drop_bit 8 v))"
    using Suc by (simp add: v)
  also have "mem_write (buf[pos + n := ucast v]) pos (be_bytes n (unat v div 256)) =
      mem_write buf pos (be_bytes (Suc n) (unat v))"
    using mem_write_snoc [of pos "be_bytes n (unat v div 256)" buf "ucast v"] Suc.prems
    by (simp add: b)
  finally show ?case by (simp add: add.commute)
qed

lemma cbb_write_be_eq:
  assumes "pos + n \<le> length (cbb_buf base)"
  shows "cbb_write_be pos n v base =
    (if unat v < 256 ^ n
     then (Some (), base\<lparr>cbb_buf := mem_write (cbb_buf base) pos (be_bytes n (unat v))\<rparr>)
     else (None, base\<lparr>cbb_buf := mem_write (cbb_buf base) pos (be_bytes n (unat v)), cbb_error := True\<rparr>))"
proof -
  have "drop_bit (8 * n) v = 0 \<longleftrightarrow> unat v < 256 ^ n"
    by (simp add: drop_bit_zero_iff_unat power_mult)
  then show ?thesis
    using assms by (simp add: cbb_write_be_def cbb_put_be_eq Let_def cbb_err_def)
qed

section \<open>Closing a child\<close>

lemma be_val_of_small: "len < 2 ^ 64 \<Longrightarrow> unat (word_of_nat len :: u64) = len"
  by (simp only: unat_of_nat) simp

lemma der_length_forms:
  "len \<le> 0x7f \<Longrightarrow> der_length len = [word_of_nat len]"
  "0x7f < len \<Longrightarrow> len \<le> 0xff \<Longrightarrow> der_length len = 0x81 # be_bytes 1 len"
  "0xff < len \<Longrightarrow> len \<le> 0xffff \<Longrightarrow> der_length len = 0x82 # be_bytes 2 len"
  "0xffff < len \<Longrightarrow> len \<le> 0xffffff \<Longrightarrow> der_length len = 0x83 # be_bytes 3 len"
  "0xffffff < len \<Longrightarrow> len \<le> 0xffffffff \<Longrightarrow> der_length len = 0x84 # be_bytes 4 len"
proof -
  have bl: "byte_len len = n" if "256 ^ (n - 1) \<le> len" "len < 256 ^ n" "0 < n" for n
    using byte_len_unique [of "n - 1" len] that by simp
  show "der_length len = [word_of_nat len]" if "len \<le> 0x7f"
    using that by (simp add: der_length_def)
  show "der_length len = 0x81 # be_bytes 1 len" if "0x7f < len" "len \<le> 0xff"
    using that bl [of 1] by (simp add: der_length_def)
  show "der_length len = 0x82 # be_bytes 2 len" if "0xff < len" "len \<le> 0xffff"
    using that bl [of 2] by (simp add: der_length_def del: be_bytes.simps)
  show "der_length len = 0x83 # be_bytes 3 len" if "0xffff < len" "len \<le> 0xffffff"
    using that bl [of 3] by (simp add: der_length_def del: be_bytes.simps)
  show "der_length len = 0x84 # be_bytes 4 len" if "0xffffff < len" "len \<le> 0xffffffff"
    using that bl [of 4] by (simp add: der_length_def del: be_bytes.simps)
qed

text \<open>The length form of the code writes \<open>der_length\<close>.\<close>

lemma cbb_asn1_len_form_None: "cbb_asn1_len_form len = None \<longleftrightarrow> 0xfffffffe < len"
  by (simp add: cbb_asn1_len_form_def)

lemma cbb_asn1_len_form_Some:
  assumes "cbb_asn1_len_form len = Some (ll, b, len')"
  shows "der_length len = b # be_bytes (ll - 1) len'" and "1 \<le> ll" and "ll \<le> 5"
    and "len' < 256 ^ (ll - 1)" and "len \<le> 0xfffffffe" and "len' < 2 ^ 64"
proof -
  have le: "len \<le> 0xfffffffe"
    using assms by (auto simp: cbb_asn1_len_form_def split: if_splits)
  consider (a) "len \<le> 0x7f" | (b) "0x7f < len" "len \<le> 0xff" | (c) "0xff < len" "len \<le> 0xffff"
    | (d) "0xffff < len" "len \<le> 0xffffff" | (e) "0xffffff < len" "len \<le> 0xffffffff"
    using le by linarith
  then have "der_length len = b # be_bytes (ll - 1) len' \<and> 1 \<le> ll \<and> ll \<le> 5 \<and>
      len' < 256 ^ (ll - 1) \<and> len' < 2 ^ 64"
  proof cases
    case a with assms der_length_forms(1) [OF a] show ?thesis
      by (auto simp: cbb_asn1_len_form_def)
  next
    case b with assms der_length_forms(2) [OF b] show ?thesis
      by (auto simp: cbb_asn1_len_form_def simp del: be_bytes.simps)
  next
    case c with assms der_length_forms(3) [OF c] show ?thesis
      by (auto simp: cbb_asn1_len_form_def simp del: be_bytes.simps)
  next
    case d with assms der_length_forms(4) [OF d] show ?thesis
      by (auto simp: cbb_asn1_len_form_def simp del: be_bytes.simps)
  next
    case e with assms le der_length_forms(5) [OF e] show ?thesis
      by (auto simp: cbb_asn1_len_form_def simp del: be_bytes.simps)
  qed
  with le show "der_length len = b # be_bytes (ll - 1) len'" and "1 \<le> ll" and "ll \<le> 5"
    and "len' < 256 ^ (ll - 1)" and "len \<le> 0xfffffffe" and "len' < 2 ^ 64"
    by auto
qed

lemma buf_splitE:
  assumes ok: "buf_ok base" and v: "valid_bytes base = bs"
  obtains rest where "cbb_buf base = bs @ rest" and "cbb_blen base = length bs"
    and "cbb_cap base = length bs + length rest"
proof
  have t: "take (cbb_blen base) (cbb_buf base) = bs"
    using v by (simp add: valid_bytes_def)
  then show "cbb_buf base = bs @ drop (cbb_blen base) (cbb_buf base)"
    using append_take_drop_id [of "cbb_blen base" "cbb_buf base"] by simp
  show l: "cbb_blen base = length bs"
    using length_valid_bytes [OF ok] v by simp
  show "cbb_cap base = length bs + length (drop (cbb_blen base) (cbb_buf base))"
    using ok l by (simp add: buf_ok_def)
qed

lemma buf_joinI:
  assumes "buf_ok base0" and "cbb_cap base = cbb_cap base0" and "cbb_can_resize base = cbb_can_resize base0"
    and "cbb_buf base = bs @ rest" and "cbb_blen base = length bs"
    and "cbb_cap base = length bs + length rest"
  shows "buf_ok base \<and> valid_bytes base = bs"
  using assms by (auto simp: buf_ok_def valid_bytes_def)

lemma mem_write_append: "mem_write (pre @ old @ rest) (length pre) bs = pre @ bs @ drop (length bs) (old @ rest)"
  by (simp add: mem_write_def)

text \<open>The bytes of the child as the code sees them: the part before it, its pending bytes,
  its contents.\<close>

definition child_in :: "cbb_buffer_st \<Rightarrow> byte list \<Rightarrow> cbb_node \<Rightarrow> byte list \<Rightarrow> bool" where
  "child_in base pre child body \<longleftrightarrow>
     (\<exists>z. valid_bytes base = pre @ z @ body \<and> length z = cbb_pending_len_len child \<and>
          cbb_offset child = length pre)"

text \<open>The last step of the flush: the length is written over the pending bytes.\<close>

lemma write_prefix:
  assumes ok: "buf_ok base" and v: "valid_bytes base = pre @ z @ body" and z: "length z = n"
    and len: "len < 2 ^ 64"
  shows "cbb_write_be (length pre) n (word_of_nat len) base =
    (let base' = base\<lparr>cbb_buf := mem_write (cbb_buf base) (length pre) (be_bytes n len)\<rparr>
     in if len < 256 ^ n then (Some (), base') else (None, base'\<lparr>cbb_error := True\<rparr>))"
    and "buf_ok (base\<lparr>cbb_buf := mem_write (cbb_buf base) (length pre) (be_bytes n len)\<rparr>)"
    and "valid_bytes (base\<lparr>cbb_buf := mem_write (cbb_buf base) (length pre) (be_bytes n len)\<rparr>) =
      pre @ be_bytes n len @ body"
proof -
  obtain rest where b: "cbb_buf base = (pre @ z @ body) @ rest"
    and l: "cbb_blen base = length (pre @ z @ body)"
    and c: "cbb_cap base = length (pre @ z @ body) + length rest"
    using buf_splitE [OF ok v] .
  have "length pre + n \<le> length (cbb_buf base)"
    using b z by simp
  from cbb_write_be_eq [OF this, of "word_of_nat len"]
  show "cbb_write_be (length pre) n (word_of_nat len) base =
    (let base' = base\<lparr>cbb_buf := mem_write (cbb_buf base) (length pre) (be_bytes n len)\<rparr>
     in if len < 256 ^ n then (Some (), base') else (None, base'\<lparr>cbb_error := True\<rparr>))"
    by (simp add: be_val_of_small [OF len] Let_def del: be_bytes.simps)
  have mw: "mem_write (cbb_buf base) (length pre) (be_bytes n len) = pre @ be_bytes n len @ body @ rest"
    using b z mem_write_append [of pre z "body @ rest" "be_bytes n len"] by simp
  let ?b = "base\<lparr>cbb_buf := mem_write (cbb_buf base) (length pre) (be_bytes n len)\<rparr>"
  have "cbb_buf ?b = (pre @ be_bytes n len @ body) @ rest"
    by (simp add: mw)
  moreover have "cbb_blen ?b = length (pre @ be_bytes n len @ body)"
    using l z by simp
  moreover have "cbb_cap ?b = length (pre @ be_bytes n len @ body) + length rest"
    using c z by simp
  ultimately have "buf_ok ?b \<and> valid_bytes ?b = pre @ be_bytes n len @ body"
    by (intro buf_joinI [OF ok]) simp_all
  then show "buf_ok ?b" and "valid_bytes ?b = pre @ be_bytes n len @ body"
    by simp_all
qed

text \<open>The move of the contents, which makes room for the longer DER length.\<close>

lemma move_contents:
  assumes ok: "buf_ok base" and v: "valid_bytes base = pre @ [z] @ body"
    and g: "grown base n base'"
  defines "b2 \<equiv> base'\<lparr>cbb_buf := mem_write (cbb_buf base') (length pre + 1 + n)
      (take (length body) (drop (length pre + 1) (cbb_buf base')))\<rparr>"
  shows "buf_ok b2" and "\<exists>y. length y = n \<and> valid_bytes b2 = pre @ [z] @ y @ body"
    and "cbb_blen b2 = cbb_blen base + n"
proof -
  from g have ok': "buf_ok base'" and l': "cbb_blen base' = cbb_blen base + n"
    and t': "take (cbb_blen base) (cbb_buf base') = pre @ [z] @ body"
    by (auto simp: grown_def v)
  have l: "cbb_blen base = length (pre @ [z] @ body)"
    using length_valid_bytes [OF ok] v by simp
  define r where "r = drop (cbb_blen base) (cbb_buf base')"
  have buf': "cbb_buf base' = (pre @ [z] @ body) @ r"
    using t' by (metis append_take_drop_id r_def)
  have lr: "n \<le> length r"
  proof -
    have "cbb_blen base + n \<le> length (cbb_buf base')"
      using ok' l' by (simp add: buf_ok_def)
    then show ?thesis by (simp add: r_def)
  qed
  define y where "y = take n (body @ r)"
  have tk: "take (length pre + 1 + n) (cbb_buf base') = pre @ [z] @ y"
    by (simp add: buf' y_def)
  have dr: "drop (length pre + 1 + n + length body) (cbb_buf base') = drop n r"
    by (simp add: buf')
  have bd: "take (length body) (drop (length pre + 1) (cbb_buf base')) = body"
    by (simp add: buf')
  have b2: "cbb_buf b2 = pre @ [z] @ y @ body @ drop n r"
    using tk dr bd by (simp add: b2_def mem_write_def)
  have ly: "length y = n"
    using lr by (simp add: y_def)
  show "cbb_blen b2 = cbb_blen base + n"
    using l' by (simp add: b2_def)
  have "cbb_buf b2 = (pre @ [z] @ y @ body) @ drop n r"
    using b2 by simp
  moreover have "cbb_blen b2 = length (pre @ [z] @ y @ body)"
    using l l' ly by (simp add: b2_def)
  moreover have "cbb_cap b2 = length (pre @ [z] @ y @ body) + length (drop n r)"
  proof -
    have "cbb_cap base' = length (cbb_buf base')"
      using ok' by (simp add: buf_ok_def)
    then show ?thesis using ly lr by (simp add: b2_def buf')
  qed
  ultimately have "buf_ok b2 \<and> valid_bytes b2 = pre @ [z] @ y @ body"
    by (intro buf_joinI [OF ok', where rest = "drop n r"]) (simp_all add: b2_def)
  with ly show "buf_ok b2" and "\<exists>y. length y = n \<and> valid_bytes b2 = pre @ [z] @ y @ body"
    by blast+
qed

lemma set_first_byte:
  assumes ok: "buf_ok base" and v: "valid_bytes base = pre @ [z] @ rest"
  shows "buf_ok (base\<lparr>cbb_buf := (cbb_buf base)[length pre := b]\<rparr>)"
    and "valid_bytes (base\<lparr>cbb_buf := (cbb_buf base)[length pre := b]\<rparr>) = (pre @ [b]) @ rest"
proof -
  let ?b = "base\<lparr>cbb_buf := (cbb_buf base)[length pre := b]\<rparr>"
  obtain r where r: "cbb_buf base = (pre @ [z] @ rest) @ r"
    "cbb_blen base = length (pre @ [z] @ rest)" "cbb_cap base = length (pre @ [z] @ rest) + length r"
    using buf_splitE [OF ok v] .
  have "cbb_buf ?b = ((pre @ [b]) @ rest) @ r"
    by (simp add: r(1) list_update_append)
  with r(2,3) have "buf_ok ?b \<and> valid_bytes ?b = (pre @ [b]) @ rest"
    by (intro buf_joinI [OF ok]) simp_all
  then show "buf_ok ?b" and "valid_bytes ?b = (pre @ [b]) @ rest"
    by simp_all
qed

text \<open>What a call may do to the buffer: extend the valid bytes to \<open>bs\<close>, or fail with the error
  flag set, and then only because the result is undefined, does not fit a fixed buffer, or
  needs a block that \<open>malloc\<close> refuses, of at most twice its size.\<close>

definition extends_to :: "cbb_buffer_st \<Rightarrow> byte list \<Rightarrow> cbb_buffer_st \<Rightarrow> bool" where
  "extends_to base bs base' \<longleftrightarrow> buf_ok base' \<and> valid_bytes base' = bs \<and> same_mode base base' \<and>
     cbb_error base' = cbb_error base"

definition fails_for :: "mallocf \<Rightarrow> cbb_buffer_st \<Rightarrow> byte list option \<Rightarrow> cbb_buffer_st \<Rightarrow> bool" where
  "fails_for m base r base' \<longleftrightarrow> buf_ok base' \<and> cbb_error base' \<and> same_mode base base' \<and>
     (\<forall>bs. r = Some bs \<longrightarrow> no_room m base (length bs))"

lemma fails_forI:
  assumes "buf_ok base" and "same_mode base0 base"
    and "\<And>bs. r = Some bs \<Longrightarrow> no_room m base0 (length bs)"
  shows "fails_for m base0 r (base\<lparr>cbb_error := True\<rparr>)"
  using assms by (auto simp: fails_for_def buf_ok_def same_mode_def)

lemma close_plain:
  assumes ok: "buf_ok base" and v: "valid_bytes base = pre @ z @ body" and z: "length z = n"
  shows "case cbb_close_child m (base, frame_node (length pre) (Prefixed n)) of
      (Some _, base', _) \<Rightarrow> length body < 256 ^ n \<and> extends_to base (pre @ be_bytes n (length body) @ body) base'
    | (None, base', _) \<Rightarrow> \<not> length body < 256 ^ n \<and> fails_for m base None base'"
proof -
  have l: "cbb_blen base = length pre + n + length body" "length pre + n + length body < 2 ^ 63"
    using length_valid_bytes [OF ok] v z ok by (auto simp: buf_ok_def)
  then have start: "size_add (length pre) n = length pre + n"
    by (intro size_add_exact) simp
  have small: "length body < 2 ^ 64" using l by simp
  note w = write_prefix [OF ok v z small]
  let ?b = "base\<lparr>cbb_buf := mem_write (cbb_buf base) (length pre) (be_bytes n (length body))\<rparr>"
  have err: "fails_for m base None (?b\<lparr>cbb_error := True\<rparr>)"
    using w(2) by (intro fails_forI) (auto simp: same_mode_def)
  have ext: "extends_to base (pre @ be_bytes n (length body) @ body) ?b"
    using w(2,3) by (auto simp: extends_to_def same_mode_def)
  show ?thesis
    using l start err ext w(1)
    by (simp add: cbb_close_child_def frame_node_def Let_def)
qed

lemma close_asn1:
  assumes m: "malloc_law m" and ok: "buf_ok base" and v: "valid_bytes base = pre @ z @ body"
    and z: "length z = 1"
  shows "case cbb_close_child m (base, frame_node (length pre) Asn1) of
      (Some _, base', _) \<Rightarrow> length body \<le> 0xfffffffe \<and> extends_to base (pre @ der_length (length body) @ body) base'
    | (None, base', _) \<Rightarrow>
        fails_for m base (if length body \<le> 0xfffffffe then Some (pre @ der_length (length body) @ body) else None) base'"
proof -
  have l: "cbb_blen base = length pre + 1 + length body" "length pre + 1 + length body < 2 ^ 63"
    using length_valid_bytes [OF ok] v z ok by (auto simp: buf_ok_def)
  then have start: "size_add (length pre) 1 = length pre + 1"
    by (intro size_add_exact) simp
  obtain z0 where z0: "z = [z0]" using z by (cases z) auto
  with v have v1: "valid_bytes base = pre @ [z0] @ body" by simp
  show ?thesis
  proof (cases "cbb_asn1_len_form (length body)")
    case None
    then have "\<not> length body \<le> 0xfffffffe" by (simp add: cbb_asn1_len_form_None)
    moreover have "fails_for m base None (base\<lparr>cbb_error := True\<rparr>)"
      using ok by (intro fails_forI) auto
    ultimately show ?thesis
      using None l start by (simp add: cbb_close_child_def frame_node_def Let_def cbb_err_def)
  next
    case (Some f)
    obtain ll b len' where f: "f = (ll, b, len')" by (cases f)
    note form = cbb_asn1_len_form_Some [OF Some [unfolded f]]
    define p where "p = b # be_bytes (ll - 1) len'"
    have p: "der_length (length body) = p" "length p = ll" "length body \<le> 0xfffffffe"
      using form by (auto simp: p_def)
    have fin: "extends_to base (pre @ p @ body) b3 \<and>
        cbb_write_be (Suc (length pre)) (ll - 1) (word_of_nat len') b2' = (Some (), b3)"
      if ok2: "buf_ok b2" and v2: "valid_bytes b2 = pre @ [z0] @ y @ body" and y: "length y = ll - 1"
        and mode: "same_mode base b2" "cbb_error b2 = cbb_error base"
        and b2': "b2' = b2\<lparr>cbb_buf := (cbb_buf b2)[length pre := b]\<rparr>"
        and b3: "b3 = b2'\<lparr>cbb_buf := mem_write (cbb_buf b2') (length (pre @ [b])) (be_bytes (ll - 1) len')\<rparr>"
      for b2 y b2' b3
    proof -
      note s = set_first_byte [OF ok2 v2, of b, folded b2']
      note w = write_prefix [OF s y form(6), folded b3]
      have "extends_to base (pre @ p @ body) b3"
        using w(2,3) mode by (auto simp: extends_to_def same_mode_def p_def b3 b2')
      moreover have "cbb_write_be (Suc (length pre)) (ll - 1) (word_of_nat len') b2' = (Some (), b3)"
        using w(1) form(4) b3 by (simp add: Let_def del: be_bytes.simps)
      ultimately show ?thesis by blast
    qed
    show ?thesis
    proof (cases "ll = 1")
      case True
      with fin [of base "[]", OF ok] v1 l start Some f p
      show ?thesis
        by (simp add: cbb_close_child_def frame_node_def Let_def)
    next
      case False
      have n: "ll - 1 < 2 ^ 63" using form(3) by simp
      obtain r b1 where add: "cbb_buffer_add m (ll - 1) base = (r, b1)"
        by (cases "cbb_buffer_add m (ll - 1) base")
      show ?thesis
      proof (cases r)
        case None
        note g = cbb_buffer_add_None [OF ok n add [unfolded None]]
        have "fails_for m base (Some (pre @ p @ body)) (b1\<lparr>cbb_error := True\<rparr>)"
          using g ok p(2) l form(2)
          by (intro fails_forI) (auto simp: same_mode_def buf_ok_def elim: no_room_mono)
        then show ?thesis
          using None add l start Some f p False
          by (simp add: cbb_close_child_def frame_node_def Let_def cbb_err_def)
      next
        case (Some pos)
        note g = cbb_buffer_add_Some(2) [OF m ok n add [unfolded Some]]
        define b2 where "b2 = b1\<lparr>cbb_buf := mem_write (cbb_buf b1) (length pre + 1 + (ll - 1))
          (take (length body) (drop (length pre + 1) (cbb_buf b1)))\<rparr>"
        note mv = move_contents [OF ok v1 g, folded b2_def]
        obtain y where y: "length y = ll - 1" "valid_bytes b2 = pre @ [z0] @ y @ body"
          using mv(2) by blast
        have mode: "same_mode base b2" "cbb_error b2 = cbb_error base"
          using g by (auto simp: grown_def same_mode_def b2_def)
        note fi = fin [OF mv(1) y(2,1) mode refl refl]
        show ?thesis
          using fi add l start \<open>cbb_asn1_len_form (length body) = Some f\<close> f p(1,3) False
          by (simp add: cbb_close_child_def frame_node_def Let_def Some b2_def)
      qed
    qed
  qed
qed

lemma close_frame:
  assumes "malloc_law m" and "buf_ok base" and "valid_bytes base = pre @ replicate (plen k) 0 @ body"
    and "0 < plen k"
  shows "case cbb_close_child m (base, frame_node (length pre) k) of
      (Some _, base', _) \<Rightarrow>
        (\<exists>p. prefix_bytes k (length body) = Some p \<and> extends_to base (pre @ p @ body) base')
    | (None, base', _) \<Rightarrow>
        fails_for m base (map_option (\<lambda>p. pre @ p @ body) (prefix_bytes k (length body))) base'"
proof (cases k)
  case Top
  with assms(4) show ?thesis by simp
next
  case (Prefixed n)
  with close_plain [OF assms(2,3), where n = n and m = m] show ?thesis
    by (auto split: prod.splits option.splits)
next
  case Asn1
  with close_asn1 [OF assms(1-3)] show ?thesis
    by (auto split: prod.splits option.splits)
qed

section \<open>\<open>CBB_flush\<close> closes the open children\<close>

lemma length_nodes_of [simp]: "length (nodes_of pos fs) = length fs"
  by (induction pos fs rule: nodes_of.induct) auto

lemma nodes_of_append:
  "nodes_of pos (xs @ ys) = nodes_of pos xs @ nodes_of (pos + length (render xs)) ys"
  by (induction pos xs rule: nodes_of.induct) (auto simp: add.assoc)

lemma render_append: "render (xs @ ys) = render xs @ render ys"
  by (induction xs rule: render.induct) auto

lemma flush_frames_split:
  "flush_frames (length xs) (xs @ (k, c) # ys) =
     map_option (\<lambda>t. xs @ [(k, c @ t)]) (flat_frames ys)"
  by (simp add: flush_frames_def)

lemma frames_wf_close: "frames_wf (xs @ (k, c) # ys) \<Longrightarrow> frames_wf (xs @ [(k, c')])"
  by (cases xs) (auto simp: frames_wf_def)

lemma frames_wf_plen: "frames_wf (xs @ f # (k, c) # ys) \<Longrightarrow> 0 < plen k"
  by (cases xs) (auto simp: frames_wf_def)

lemma length_prefix_ge: "prefix_bytes k n = Some p \<Longrightarrow> plen k \<le> length p"
  by (cases k) (auto simp: Suc_le_eq split: if_splits)

lemma fails_for_mono:
  assumes "fails_for m base r base'" and "\<And>bs. r' = Some bs \<Longrightarrow> \<exists>as. r = Some as \<and> length as \<le> length bs"
  shows "fails_for m base r' base'"
  using assms by (fastforce simp: fails_for_def intro: no_room_mono)

text \<open>What \<open>CBB_flush\<close> may do to a builder that represents \<open>fs\<close>.\<close>

definition flush_result :: "mallocf \<Rightarrow> cbb_st \<Rightarrow> frame list option \<Rightarrow> 'a option \<times> cbb_st \<Rightarrow> bool" where
  "flush_result m cbb r res =
     (\<exists>base base'. cbb_base cbb = Some base \<and> cbb_base (snd res) = Some base' \<and>
        (case fst res of
           Some _ \<Rightarrow> same_mode base base' \<and> (\<exists>fs'. r = Some fs' \<and> cbb_rel (snd res) fs')
         | None \<Rightarrow> fails_for m base (map_option render r) base'))"

lemma CBB_flush_step:
  assumes "cbb_base cbb = Some base" and "\<not> cbb_error base" and "d + 1 < length (cbb_nodes cbb)"
    and "cbb_pending_len_len (cbb_nodes cbb ! (d + 1)) \<noteq> 0"
  shows "CBB_flush m d cbb =
    (case CBB_flush m (d + 1) cbb of
       (None, cbb') \<Rightarrow>
         (None, cbb'\<lparr>cbb_base := map_option (\<lambda>b. b\<lparr>cbb_error := True\<rparr>) (cbb_base cbb')\<rparr>)
     | (Some _, cbb') \<Rightarrow>
         (case cbb_base cbb' of
            None \<Rightarrow> (None, cbb')
          | Some base' \<Rightarrow>
              (case cbb_close_child m (base', cbb_nodes cbb' ! (d + 1)) of
                 (None, base'', child) \<Rightarrow>
                   (None, cbb'\<lparr>cbb_base := Some base'', cbb_nodes := (cbb_nodes cbb')[d + 1 := child]\<rparr>)
               | (Some _, base'', child) \<Rightarrow>
                   (Some (), cbb'\<lparr>cbb_base := Some base'', cbb_nodes := take (d + 1) (cbb_nodes cbb')\<rparr>))))"
  using assms by (subst CBB_flush.simps) simp

lemma CBB_flush_leaf:
  assumes "cbb_base cbb = Some base" and "\<not> cbb_error base" and "length (cbb_nodes cbb) = d + 1"
  shows "CBB_flush m d cbb = (Some (), cbb)"
  using assms by (subst CBB_flush.simps) simp

lemma CBB_flush_refines_split:
  assumes m: "malloc_law m" and rel: "cbb_rel cbb (xs @ (k0, c0) # ys)"
  shows "flush_result m cbb (flush_frames (length xs) (xs @ (k0, c0) # ys)) (CBB_flush m (length xs) cbb)"
  using rel
proof (induction ys arbitrary: xs k0 c0)
  case Nil
  then obtain base where "cbb_base cbb = Some base" "\<not> cbb_error base"
    "cbb_nodes cbb = nodes_of 0 (xs @ [(k0, c0)])"
    by (auto simp: cbb_rel_def)
  with Nil CBB_flush_leaf [of cbb base "length xs" m] show ?case
    by (auto simp: flush_frames_split flush_result_def)
next
  case (Cons f ys)
  obtain k c where f: "f = (k, c)" by (cases f)
  let ?fs = "xs @ (k0, c0) # (k, c) # ys" and ?ys = "xs @ [(k0, c0)]"
  let ?d = "length xs"
  obtain base where b: "cbb_base cbb = Some base" "buf_ok base" "\<not> cbb_error base"
    "valid_bytes base = render ?fs" "cbb_nodes cbb = nodes_of 0 ?fs" "frames_wf ?fs"
    using Cons.prems f by (auto simp: cbb_rel_def)
  have k: "0 < plen k" using b(6) by (rule frames_wf_plen)
  have node: "cbb_nodes cbb ! (?d + 1) = frame_node (length (render ?ys)) k"
    using b(5) by (simp add: nodes_of_append nth_append render_append add.assoc)
  have "?d + 1 < length (cbb_nodes cbb)" "cbb_pending_len_len (cbb_nodes cbb ! (?d + 1)) \<noteq> 0"
    using b(5) k node by (simp_all add: frame_node_def)
  note step = CBB_flush_step [OF b(1,3) this, of m]
  obtain r cbb1 where fl: "CBB_flush m (?d + 1) cbb = (r, cbb1)"
    by (cases "CBB_flush m (?d + 1) cbb")
  have ih: "flush_result m cbb (flush_frames (?d + 1) ?fs) (r, cbb1)"
    using Cons.IH [of ?ys k c] Cons.prems f fl by simp
  have f1: "flush_frames (Suc ?d) ?fs = map_option (\<lambda>t. ?ys @ [(k, c @ t)]) (flat_frames ys)"
    using flush_frames_split [of ?ys k c ys] by simp
  have f0: "flush_frames ?d ?fs = (case flat_frames ys of None \<Rightarrow> None | Some t \<Rightarrow>
      map_option (\<lambda>p. xs @ [(k0, c0 @ p @ c @ t)]) (prefix_bytes k (length (c @ t))))"
    by (auto simp: flush_frames_split split: option.splits)
  show ?case
  proof (cases r)
    case None
    then obtain base1 where b1: "cbb_base cbb1 = Some base1"
      "fails_for m base (map_option render (flush_frames (?d + 1) ?fs)) base1"
      using ih b(1) by (auto simp: flush_result_def)
    have "fails_for m base (map_option render (flush_frames ?d ?fs)) base1"
    proof (rule fails_for_mono [OF b1(2)])
      fix bs assume "map_option render (flush_frames ?d ?fs) = Some bs"
      then show "\<exists>as. map_option render (flush_frames (?d + 1) ?fs) = Some as \<and> length as \<le> length bs"
        by (auto simp: f0 f1 render_append dest!: length_prefix_ge split: option.splits)
    qed
    moreover from this have "base1\<lparr>cbb_error := True\<rparr> = base1"
      by (simp add: fails_for_def)
    ultimately show ?thesis
      using step fl None b1(1) b(1) f by (simp add: flush_result_def)
  next
    case (Some u)
    then obtain base1 t where b1: "cbb_base cbb1 = Some base1" "same_mode base base1"
      and t: "flat_frames ys = Some t" and rel1: "cbb_rel cbb1 (?ys @ [(k, c @ t)])"
      using ih b(1) by (auto simp: flush_result_def f1)
    then have r1: "buf_ok base1" "\<not> cbb_error base1"
      "valid_bytes base1 = render ?ys @ replicate (plen k) 0 @ (c @ t)"
      "cbb_nodes cbb1 = nodes_of 0 (?ys @ [(k, c @ t)])"
      using b1(1) by (auto simp: cbb_rel_def render_append)
    have node1: "cbb_nodes cbb1 ! (?d + 1) = frame_node (length (render ?ys)) k"
      using r1(4) by (simp add: nodes_of_append nth_append render_append add.assoc)
    have tk: "take (?d + 1) (cbb_nodes cbb1) = nodes_of 0 (xs @ [(k0, c')])" for c'
      using r1(4) by (simp add: nodes_of_append)
    obtain s base2 child where cl:
      "cbb_close_child m (base1, frame_node (length (render ?ys)) k) = (s, base2, child)"
      by (cases "cbb_close_child m (base1, frame_node (length (render ?ys)) k)") auto
    note close = close_frame [OF m r1(1,3) k, unfolded cl]
    show ?thesis
    proof (cases s)
      case None
      with close have "fails_for m base1 (map_option render (flush_frames ?d ?fs)) base2"
        by (simp add: f0 t option.map_comp comp_def render_append)
      then have "fails_for m base (map_option render (flush_frames ?d ?fs)) base2"
        using b1(2) by (auto simp: fails_for_def no_room_same_mode intro: same_mode_trans)
      then show ?thesis
        using step fl Some None b1(1) node1 cl b(1) f by (simp add: flush_result_def)
    next
      case s: (Some u')
      then obtain p where p: "prefix_bytes k (length (c @ t)) = Some p"
        and ext: "extends_to base1 (render ?ys @ p @ c @ t) base2"
        using close by auto
      let ?cbb2 = "cbb1\<lparr>cbb_base := Some base2, cbb_nodes := take (?d + 1) (cbb_nodes cbb1)\<rparr>"
      have "cbb_rel ?cbb2 (xs @ [(k0, c0 @ p @ c @ t)])"
        using ext r1(2) tk frames_wf_close [OF b(6)]
        by (simp add: cbb_rel_def extends_to_def render_append)
      then show ?thesis
        using step fl Some s b1 node1 cl b(1) f ext p
        by (auto simp: flush_result_def f0 t extends_to_def intro: same_mode_trans)
    qed
  qed
qed

section \<open>The operations of the builder\<close>

lemma CBB_flush_refines:
  assumes "malloc_law m" and "cbb_rel cbb fs" and "d < length fs"
  shows "flush_result m cbb (flush_frames d fs) (CBB_flush m d cbb)"
proof -
  have "fs = take d fs @ (fst (fs ! d), snd (fs ! d)) # drop (Suc d) fs"
    using assms(3) by (simp add: id_take_nth_drop [symmetric])
  moreover have "length (take d fs) = d"
    using assms(3) by simp
  ultimately show ?thesis
    using CBB_flush_refines_split [OF assms(1), of cbb "take d fs"] assms(2) by metis
qed

text \<open>A step on the shared buffer that appends \<open>r\<close>, or fails.\<close>

definition buf_result :: "mallocf \<Rightarrow> cbb_buffer_st \<Rightarrow> byte list option \<Rightarrow> 'a option \<times> cbb_buffer_st \<Rightarrow> bool" where
  "buf_result m base r res =
     (case fst res of
        Some _ \<Rightarrow> (\<exists>bs. r = Some bs \<and> extends_to base (valid_bytes base @ bs) (snd res))
      | None \<Rightarrow> fails_for m base (map_option (\<lambda>bs. valid_bytes base @ bs) r) (snd res))"

lemma grown_bytes:
  assumes ok: "buf_ok base" and g: "grown base n base'"
  obtains y where "length y = n" and "extends_to base (valid_bytes base @ y) base'"
proof -
  define y where "y = drop (cbb_blen base) (valid_bytes base')"
  have g': "buf_ok base'" "cbb_blen base' = cbb_blen base + n"
    "take (cbb_blen base) (cbb_buf base') = valid_bytes base"
    using g by (auto simp: grown_def)
  have "length y = n"
    using length_valid_bytes [OF g'(1)] g'(2) by (simp add: y_def)
  moreover have "take (cbb_blen base) (valid_bytes base') = valid_bytes base"
    using g' by (simp add: valid_bytes_def min_def)
  then have "valid_bytes base' = valid_bytes base @ y"
    unfolding y_def by (metis append_take_drop_id)
  ultimately show ?thesis
    using that g by (auto simp: extends_to_def grown_def same_mode_def)
qed

lemma extends_trans:
  "extends_to a bs b \<Longrightarrow> buf_ok c \<Longrightarrow> valid_bytes c = cs \<Longrightarrow> same_mode b c \<Longrightarrow>
     cbb_error c = cbb_error b \<Longrightarrow> extends_to a cs c"
  by (auto simp: extends_to_def intro: same_mode_trans)

lemma write_end:
  assumes e: "extends_to base (valid_bytes base @ y) b1" and n: "length y = length bs"
    and ok: "buf_ok base"
  shows "extends_to base (valid_bytes base @ bs) (b1\<lparr>cbb_buf := mem_write (cbb_buf b1) (cbb_blen base) bs\<rparr>)"
proof -
  from e have ok1: "buf_ok b1" and v1: "valid_bytes b1 = valid_bytes base @ y"
    by (auto simp: extends_to_def)
  obtain r where r: "cbb_buf b1 = (valid_bytes base @ y) @ r" "cbb_blen b1 = length (valid_bytes base @ y)"
    "cbb_cap b1 = length (valid_bytes base @ y) + length r"
    using buf_splitE [OF ok1 v1] .
  let ?b = "b1\<lparr>cbb_buf := mem_write (cbb_buf b1) (cbb_blen base) bs\<rparr>"
  have "mem_write (cbb_buf b1) (cbb_blen base) bs = (valid_bytes base @ bs) @ r"
    using mem_write_append [of "valid_bytes base" y r bs] r(1) n length_valid_bytes [OF ok] by simp
  with r(2,3) n have "buf_ok ?b \<and> valid_bytes ?b = valid_bytes base @ bs"
    by (intro buf_joinI [OF ok1, where rest = r]) simp_all
  then show ?thesis
    using e by (auto intro!: extends_trans [OF e] simp: same_mode_def)
qed

lemma buf_add_bytes:
  assumes "malloc_law m" and ok: "buf_ok base" and n: "length bs < 2 ^ 63"
  shows "buf_result m base (Some bs) (op_bind (cbb_buffer_add m (length bs)) (\<lambda>dest base.
        (Some (v dest), base\<lparr>cbb_buf := mem_write (cbb_buf base) dest bs\<rparr>)) base)"
proof -
  obtain r b1 where add: "cbb_buffer_add m (length bs) base = (r, b1)"
    by (cases "cbb_buffer_add m (length bs) base")
  show ?thesis
  proof (cases r)
    case None
    with cbb_buffer_add_None [OF ok n add [unfolded None]] add ok length_valid_bytes [OF ok]
    show ?thesis
      by (auto simp: op_simps buf_result_def fails_for_def buf_ok_def same_mode_def valid_bytes_def)
  next
    case (Some p)
    note a = cbb_buffer_add_Some [OF assms add [unfolded Some]]
    obtain y where "length y = length bs" "extends_to base (valid_bytes base @ y) b1"
      using grown_bytes [OF ok a(2)] .
    with write_end [OF this(2,1) ok] add Some a(1) show ?thesis
      by (simp add: op_simps buf_result_def)
  qed
qed

lemma buf_add_u:
  assumes "malloc_law m" and ok: "buf_ok base" and n: "0 < n" "n \<le> 8"
  shows "buf_result m base (if unat v < 256 ^ n then Some (be_bytes n (unat v)) else None)
     (cbb_buffer_add_u m v n base)"
proof -
  obtain r b1 where add: "cbb_buffer_add m n base = (r, b1)"
    by (cases "cbb_buffer_add m n base")
  have n': "n < 2 ^ 63" using n by simp
  show ?thesis
  proof (cases r)
    case None
    with cbb_buffer_add_None [OF ok n' add [unfolded None]] add ok length_valid_bytes [OF ok] n
    show ?thesis
      by (auto simp: op_simps buf_result_def fails_for_def buf_ok_def same_mode_def valid_bytes_def
          cbb_buffer_add_u_def)
  next
    case (Some p)
    note a = cbb_buffer_add_Some [OF assms(1,2) n' add [unfolded Some]]
    obtain y where y: "length y = n" "extends_to base (valid_bytes base @ y) b1"
      using grown_bytes [OF ok a(2)] .
    let ?b = "b1\<lparr>cbb_buf := mem_write (cbb_buf b1) (cbb_blen base) (be_bytes n (unat v))\<rparr>"
    have ext: "extends_to base (valid_bytes base @ be_bytes n (unat v)) ?b"
      using write_end [OF y(2), of "be_bytes n (unat v)"] y(1) ok by simp
    have "cbb_blen base + n \<le> length (cbb_buf b1)"
      using a(2) by (auto simp: grown_def buf_ok_def)
    from cbb_write_be_eq [OF this, of v]
    have w: "cbb_write_be (cbb_blen base) n v b1 =
        (if unat v < 256 ^ n then (Some (), ?b) else (None, ?b\<lparr>cbb_error := True\<rparr>))"
      by simp
    have "fails_for m base None (?b\<lparr>cbb_error := True\<rparr>)"
      using ext by (intro fails_forI) (auto simp: extends_to_def)
    with w ext add Some a(1) n show ?thesis
      by (simp add: op_simps buf_result_def cbb_buffer_add_u_def)
  qed
qed

text \<open>From the buffer to the builder: the frame at depth \<open>d\<close> is flushed, then extended.\<close>

definition add_frames :: "nat \<Rightarrow> byte list option \<Rightarrow> frame list \<Rightarrow> frame list option" where
  "add_frames d r fs =
     (case flush_frames d fs of
        None \<Rightarrow> None
      | Some fs' \<Rightarrow> map_option (\<lambda>bs. take d fs' @ [(fst (fs' ! d), snd (fs' ! d) @ bs)]) r)"

lemma flush_frames_shape:
  assumes "flush_frames d fs = Some fs'"
  obtains xs k c where "fs' = xs @ [(k, c)]" and "length xs = d"
  using assms by (auto simp: flush_frames_def split: if_splits)

lemma op_then_flush:
  assumes m: "malloc_law m" and rel: "cbb_rel cbb fs" and d: "d < length fs"
    and step: "\<And>cbb1 xs k c. cbb_rel cbb1 (xs @ [(k, c)]) \<Longrightarrow> length xs = d \<Longrightarrow>
      flush_result m cbb1 (g xs k c) (body cbb1)"
    and g: "\<And>xs k c fs'. g xs k c = Some fs' \<Longrightarrow> length (render (xs @ [(k, c)])) \<le> length (render fs')"
  shows "flush_result m cbb
      (Option.bind (flush_frames d fs) (\<lambda>fs'. g (take d fs') (fst (fs' ! d)) (snd (fs' ! d))))
      (op_then (CBB_flush m d) body cbb)"
proof -
  obtain r cbb1 where fl: "CBB_flush m d cbb = (r, cbb1)" by (cases "CBB_flush m d cbb")
  have res: "flush_result m cbb (flush_frames d fs) (r, cbb1)"
    using CBB_flush_refines [OF m rel d] fl by simp
  show ?thesis
  proof (cases r)
    case None
    with res obtain base base1 where b: "cbb_base cbb = Some base" "cbb_base cbb1 = Some base1"
      "fails_for m base (map_option render (flush_frames d fs)) base1"
      by (auto simp: flush_result_def)
    have "fails_for m base (map_option render
        (Option.bind (flush_frames d fs) (\<lambda>fs'. g (take d fs') (fst (fs' ! d)) (snd (fs' ! d))))) base1"
    proof (rule fails_for_mono [OF b(3)])
      fix bs assume "map_option render
        (Option.bind (flush_frames d fs) (\<lambda>fs'. g (take d fs') (fst (fs' ! d)) (snd (fs' ! d)))) = Some bs"
      then obtain fs1 fs2 where f1: "flush_frames d fs = Some fs1"
        and f2: "g (take d fs1) (fst (fs1 ! d)) (snd (fs1 ! d)) = Some fs2" and bs: "bs = render fs2"
        by (auto simp: bind_eq_Some_conv)
      obtain xs k c where "fs1 = xs @ [(k, c)]" "length xs = d"
        using flush_frames_shape [OF f1] .
      with f2 g [of xs k c fs2] f1 bs
      show "\<exists>as. map_option render (flush_frames d fs) = Some as \<and> length as \<le> length bs"
        by auto
    qed
    with fl None b show ?thesis by (auto simp: op_simps flush_result_def)
  next
    case (Some u)
    with res obtain base base1 fs1 where b: "cbb_base cbb = Some base" "cbb_base cbb1 = Some base1"
      "same_mode base base1" and f1: "flush_frames d fs = Some fs1" and rel1: "cbb_rel cbb1 fs1"
      by (auto simp: flush_result_def)
    obtain xs k c where sh: "fs1 = xs @ [(k, c)]" "length xs = d"
      using flush_frames_shape [OF f1] .
    with step [of cbb1 xs k c] rel1 have "flush_result m cbb1 (g xs k c) (body cbb1)" by simp
    with b sh fl Some f1 show ?thesis
      by (fastforce simp: op_simps flush_result_def fails_for_def no_room_same_mode intro: same_mode_trans
          split: option.splits)
  qed
qed

lemma frames_wf_snoc: "frames_wf (xs @ [(k, c)]) \<Longrightarrow> frames_wf (xs @ [(k, c')])"
  by (rule frames_wf_close [of xs k c "[]"]) simp

lemma on_base_append:
  assumes rel: "cbb_rel cbb (xs @ [(k, c)])"
    and res: "\<And>base. buf_ok base \<Longrightarrow> buf_result m base r (f base)"
  shows "flush_result m cbb (map_option (\<lambda>bs. xs @ [(k, c @ bs)]) r) (on_base f cbb)"
proof -
  obtain base where b: "cbb_base cbb = Some base" "buf_ok base" "\<not> cbb_error base"
    "valid_bytes base = render (xs @ [(k, c)])" "cbb_nodes cbb = nodes_of 0 (xs @ [(k, c)])"
    "frames_wf (xs @ [(k, c)])"
    using rel by (auto simp: cbb_rel_def)
  obtain q base1 where f: "f base = (q, base1)" by (cases "f base")
  have r: "buf_result m base r (q, base1)"
    using res [OF b(2)] f by simp
  have ren: "render (xs @ [(k, c @ bs)]) = valid_bytes base @ bs" for bs
    by (simp add: b(4) render_append)
  have nod: "nodes_of 0 (xs @ [(k, c @ bs)]) = cbb_nodes cbb" for bs
    by (simp add: b(5) nodes_of_append)
  show ?thesis
    using r b f frames_wf_snoc [OF b(6)]
    by (auto simp: flush_result_def on_base_def buf_result_def extends_to_def cbb_rel_def ren nod
        option.map_comp comp_def split: option.splits)
qed

lemma add_frames_bind:
  "add_frames d r fs = Option.bind (flush_frames d fs)
     (\<lambda>fs'. map_option (\<lambda>bs. take d fs' @ [(fst (fs' ! d), snd (fs' ! d) @ bs)]) r)"
  by (simp add: add_frames_def split: option.splits)

lemma on_base_refines:
  assumes "malloc_law m" and "cbb_rel cbb fs" and "d < length fs"
    and "\<And>base. buf_ok base \<Longrightarrow> buf_result m base r (f base)"
  shows "flush_result m cbb (add_frames d r fs) (op_then (CBB_flush m d) (on_base f) cbb)"
  unfolding add_frames_bind
  by (rule op_then_flush [OF assms(1-3), where g = "\<lambda>xs k c. map_option (\<lambda>bs. xs @ [(k, c @ bs)]) r"])
    (use on_base_append [OF _ assms(4)] in \<open>auto simp: render_append\<close>)

lemma CBB_add_bytes_refines:
  assumes "malloc_law m" and "cbb_rel cbb fs" and "d < length fs" and "length data < 2 ^ 63"
  shows "flush_result m cbb (add_frames d (Some data) fs) (CBB_add_bytes m d data cbb)"
  unfolding CBB_add_bytes_def
  using assms by (intro on_base_refines buf_add_bytes)

lemma CBB_add_u_refines:
  assumes "malloc_law m" and "cbb_rel cbb fs" and "d < length fs" and "0 < n" "n \<le> 8"
  shows "flush_result m cbb (add_frames d (if unat v < 256 ^ n then Some (be_bytes n (unat v)) else None) fs)
     (op_then (CBB_flush m d) (on_base (cbb_buffer_add_u m v n)) cbb)"
  using assms by (intro on_base_refines buf_add_u)

lemma CBB_add_u8_refines:
  assumes "malloc_law m" and "cbb_rel cbb fs" and "d < length fs"
  shows "flush_result m cbb (add_frames d (Some [v]) fs) (CBB_add_u8 m d v cbb)"
proof -
  have u: "unat (ucast v :: u64) = unat v" by (rule unat_ucast_up) simp
  have "be_bytes 1 (unat v) = [v]" by (rule be_bytes_eqI) (auto simp: be_val_Cons)
  with CBB_add_u_refines [OF assms, of 1 "ucast v"] u show ?thesis
    by (simp add: CBB_add_u8_def del: be_bytes.simps)
qed

lemma CBB_add_u16_refines:
  assumes "malloc_law m" and "cbb_rel cbb fs" and "d < length fs"
  shows "flush_result m cbb (add_frames d (Some (be_bytes 2 (unat v))) fs) (CBB_add_u16 m d v cbb)"
proof -
  have u: "unat (ucast v :: u64) = unat v" by (rule unat_ucast_up) simp
  have "unat v < 256 ^ 2" using unsigned_less [of v, where ?'a = nat] by simp
  with CBB_add_u_refines [OF assms, of 2 "ucast v"] u show ?thesis
    by (simp add: CBB_add_u16_def del: be_bytes.simps)
qed

lemma CBB_add_u24_refines:
  assumes "malloc_law m" and "cbb_rel cbb fs" and "d < length fs"
  shows "flush_result m cbb (add_frames d (if unat v < 2 ^ 24 then Some (be_bytes 3 (unat v)) else None) fs)
    (CBB_add_u24 m d v cbb)"
proof -
  have u: "unat (ucast v :: u64) = unat v" by (rule unat_ucast_up) simp
  have "flush_result m cbb (add_frames d (if unat v < 256 ^ 3 then Some (be_bytes 3 (unat v)) else None) fs)
     (op_then (CBB_flush m d) (on_base (cbb_buffer_add_u m (ucast v) 3)) cbb)"
    using CBB_add_u_refines [OF assms, of 3 "ucast v"] unfolding u by simp
  then show ?thesis
    by (simp add: CBB_add_u24_def del: be_bytes.simps)
qed

lemma CBB_add_u32_refines:
  assumes "malloc_law m" and "cbb_rel cbb fs" and "d < length fs"
  shows "flush_result m cbb (add_frames d (Some (be_bytes 4 (unat v))) fs) (CBB_add_u32 m d v cbb)"
proof -
  have u: "unat (ucast v :: u64) = unat v" by (rule unat_ucast_up) simp
  have "unat v < 256 ^ 4" using unsigned_less [of v, where ?'a = nat] by simp
  with CBB_add_u_refines [OF assms, of 4 "ucast v"] u show ?thesis
    by (simp add: CBB_add_u32_def del: be_bytes.simps)
qed

lemma CBB_add_u64_refines:
  assumes "malloc_law m" and "cbb_rel cbb fs" and "d < length fs"
  shows "flush_result m cbb (add_frames d (Some (be_bytes 8 (unat v))) fs) (CBB_add_u64 m d v cbb)"
proof -
  have "unat v < 256 ^ 8" using unsigned_less [of v, where ?'a = nat] by simp
  with CBB_add_u_refines [OF assms, of 8 v] show ?thesis
    by (simp add: CBB_add_u64_def del: be_bytes.simps)
qed

text \<open>A new child opens a frame.\<close>

definition push_frames :: "nat \<Rightarrow> frame_kind \<Rightarrow> frame list \<Rightarrow> frame list option" where
  "push_frames d k fs = map_option (\<lambda>fs'. fs' @ [(k, [])]) (flush_frames d fs)"

lemma frames_wf_push: "frames_wf xs \<Longrightarrow> 0 < plen k \<Longrightarrow> plen k \<le> 8 \<Longrightarrow> frames_wf (xs @ [(k, c)])"
  by (cases xs) (auto simp: frames_wf_def)

text \<open>\<open>k\<close> is the kind of a frame whose pending bytes the buffer already has.\<close>

lemma set_child_push:
  assumes rel: "cbb_rel cbb (xs @ [(k0, c)])" and f: "length xs = d"
    and k: "0 < plen k" "plen k \<le> 8"
    and res: "\<And>base. buf_ok base \<Longrightarrow> buf_result m base (Some (replicate (plen k) 0)) (f base)"
    and pos: "\<And>base p base'. buf_ok base \<Longrightarrow> f base = (Some p, base') \<Longrightarrow> p = cbb_blen base"
  shows "flush_result m cbb (Some (xs @ [(k0, c), (k, [])]))
    (op_bind (on_base f) (\<lambda>offset. cbb_set_child d offset (plen k) (k = Asn1)) cbb)"
proof -
  obtain base where b: "cbb_base cbb = Some base" "buf_ok base" "\<not> cbb_error base"
    "valid_bytes base = render (xs @ [(k0, c)])" "cbb_nodes cbb = nodes_of 0 (xs @ [(k0, c)])"
    "frames_wf (xs @ [(k0, c)])"
    using rel by (auto simp: cbb_rel_def)
  obtain q base1 where fb: "f base = (q, base1)" by (cases "f base")
  have r: "buf_result m base (Some (replicate (plen k) 0)) (q, base1)"
    using res [OF b(2)] fb by simp
  have ren: "render (xs @ [(k0, c), (k, [])]) = valid_bytes base @ replicate (plen k) 0"
    by (simp add: b(4) render_append)
  have kt: "k \<noteq> Top" using k by auto
  have wf: "frames_wf (xs @ [(k0, c), (k, [])])"
    using frames_wf_push [OF b(6) k, of "[]"] by simp
  show ?thesis
  proof (cases q)
    case None
    with r b fb show ?thesis
      by (auto simp: op_simps flush_result_def on_base_def buf_result_def ren)
  next
    case (Some p)
    then have p: "p = length (render (xs @ [(k0, c)]))"
      using pos [OF b(2), of p base1] fb length_valid_bytes [OF b(2)] b(4) by simp
    have "take (d + 1) (cbb_nodes cbb) @ [frame_node p k] = nodes_of 0 (xs @ [(k0, c), (k, [])])"
      using b(5) f p by (simp add: nodes_of_append render_append add.assoc)
    with r b fb Some ren wf kt show ?thesis
      by (auto simp: op_simps flush_result_def on_base_def buf_result_def extends_to_def cbb_rel_def
          cbb_set_child_def frame_node_def)
  qed
qed

lemma buf_add_bytes_pos:
  assumes "malloc_law m" and "buf_ok base" and "n < 2 ^ 63"
    and "op_bind (cbb_buffer_add m n) (\<lambda>pos base. (Some pos, g pos base)) base = (Some p, base')"
  shows "p = cbb_blen base"
  using assms(4) cbb_buffer_add_Some(1) [OF assms(1-3)]
  by (auto simp: op_simps split: prod.splits option.splits)

lemma cbb_add_length_prefixed_refines:
  assumes m: "malloc_law m" and "cbb_rel cbb fs" and "d < length fs" and n: "0 < n" "n \<le> 8"
  shows "flush_result m cbb (push_frames d (Prefixed n) fs) (cbb_add_length_prefixed m d n cbb)"
proof -
  let ?f = "op_bind (cbb_buffer_add m n) (\<lambda>pos base.
      (Some pos, base\<lparr>cbb_buf := mem_write (cbb_buf base) pos (replicate n 0)\<rparr>))"
  have n63: "n < 2 ^ 63" using n by simp
  have res: "buf_result m base (Some (replicate n 0)) (?f base)" if "buf_ok base" for base
    using buf_add_bytes [OF m that, of "replicate n 0" "\<lambda>x. x"] n63 by simp
  have pos: "p = cbb_blen base" if "buf_ok base" "?f base = (Some p, base')" for base p base'
    using buf_add_bytes_pos [OF m that(1) n63 that(2)] .
  have "flush_result m cbb (Option.bind (flush_frames d fs)
      (\<lambda>fs'. Some (take d fs' @ [(fst (fs' ! d), snd (fs' ! d)), (Prefixed n, [])])))
    (op_then (CBB_flush m d) (op_bind (on_base ?f) (\<lambda>offset. cbb_set_child d offset n False)) cbb)"
  proof (rule op_then_flush [OF assms(1-3), where g = "\<lambda>xs k c. Some (xs @ [(k, c), (Prefixed n, [])])"])
    show "flush_result m cbb1 (Some (xs @ [(k, c), (Prefixed n, [])]))
        (op_bind (on_base ?f) (\<lambda>offset. cbb_set_child d offset n False) cbb1)"
      if "cbb_rel cbb1 (xs @ [(k, c)])" "length xs = d" for cbb1 xs k c
      using set_child_push [OF that, where k = "Prefixed n" and f = ?f] n res pos by simp
  qed (auto simp: render_append)
  moreover have "Option.bind (flush_frames d fs)
      (\<lambda>fs'. Some (take d fs' @ [(fst (fs' ! d), snd (fs' ! d)), (Prefixed n, [])])) =
    push_frames d (Prefixed n) fs"
    by (cases "flush_frames d fs") (auto simp: push_frames_def elim!: flush_frames_shape)
  ultimately show ?thesis by (simp add: cbb_add_length_prefixed_def)
qed

text \<open>The start and the end of a builder's life.\<close>

lemma CBB_init_refines:
  assumes "malloc_law m" and "n + 8 < 2 ^ 63" and "CBB_init m n = (Some (), cbb)"
  shows "cbb_rel cbb [(Top, [])]"
proof -
  have n: "n < size_mod - 8" using assms(2) by simp
  show ?thesis
    using assms OPENSSL_malloc_length [OF assms(1) n]
    by (auto simp: CBB_init_def cbb_init_def CBB_zero_def zero_node_def cbb_rel_def buf_ok_def
        valid_bytes_def frames_wf_def frame_node_def split: option.splits if_splits)
qed

lemma CBB_init_fixed_refines:
  assumes "length buf = n" and "n < 2 ^ 63" and "CBB_init_fixed m buf n = (Some (), cbb)"
  shows "cbb_rel cbb [(Top, [])]"
    and "\<exists>base. cbb_base cbb = Some base \<and> \<not> cbb_can_resize base \<and> cbb_cap base = n"
  using assms
  by (auto simp: CBB_init_fixed_def cbb_init_def CBB_zero_def zero_node_def cbb_rel_def buf_ok_def
      valid_bytes_def frames_wf_def frame_node_def split: option.splits if_splits)

lemma CBB_finish_refines:
  assumes m: "malloc_law m" and rel: "cbb_rel cbb fs"
  shows "case CBB_finish m cbb of
      (Some out, cbb') \<Rightarrow> flat_frames fs = Some out \<and> cbb_base cbb' = None
    | (None, cbb') \<Rightarrow> flush_result m cbb (flush_frames 0 fs) (None :: unit option, cbb')"
proof -
  obtain c ys where fs: "fs = (Top, c) # ys"
    using rel by (cases fs) (auto simp: cbb_rel_def frames_wf_def)
  obtain r cbb1 where fl: "CBB_flush m 0 cbb = (r, cbb1)" by (cases "CBB_flush m 0 cbb")
  have res: "flush_result m cbb (flush_frames 0 fs) (r, cbb1)"
    using CBB_flush_refines [OF m rel, of 0] fs fl by simp
  show ?thesis
    using res fl fs
    by (auto simp: CBB_finish_def CBB_cleanup_def flush_result_def flush_frames_def cbb_rel_def
        valid_bytes_def split: option.splits)
qed

text \<open>After an error every call fails.\<close>

lemma CBB_flush_error:
  "cbb_base cbb = Some base \<Longrightarrow> cbb_error base \<Longrightarrow> CBB_flush m d cbb = (None, cbb)"
  by (subst CBB_flush.simps) simp

lemma CBB_discard_child_refines:
  assumes "cbb_rel cbb fs" and "d < length fs"
  shows "cbb_rel (CBB_discard_child d cbb) (take (d + 1) fs)"
proof (cases "length fs \<le> d + 1")
  case True
  with assms show ?thesis by (auto simp: CBB_discard_child_def cbb_rel_def)
next
  case False
  define xs where "xs = take (d + 1) fs"
  then obtain k c ys where fs: "fs = xs @ (k, c) # ys"
    using False id_take_nth_drop [of "d + 1" fs] by (metis not_le surj_pair)
  have l: "length xs = d + 1" using False by (simp add: xs_def)
  obtain base where b: "cbb_base cbb = Some base" "buf_ok base" "\<not> cbb_error base"
    "valid_bytes base = render fs" "cbb_nodes cbb = nodes_of 0 fs" "frames_wf fs"
    using assms by (auto simp: cbb_rel_def)
  have off: "cbb_offset (cbb_nodes cbb ! (d + 1)) = length (render xs)"
    using b(5) l by (simp add: fs nodes_of_append nth_append frame_node_def)
  have nod: "take (d + 1) (cbb_nodes cbb) = nodes_of 0 xs"
    using b(5) l by (simp add: fs nodes_of_append)
  have tk: "take (length (render xs)) (cbb_buf base) = render xs"
  proof -
    obtain r where "cbb_buf base = render fs @ r"
      using buf_splitE [OF b(2,4)] .
    then show ?thesis by (simp add: fs render_append)
  qed
  have le: "length (render xs) \<le> cbb_blen base"
    using length_valid_bytes [OF b(2)] b(4) by (simp add: fs render_append)
  have wf: "frames_wf xs"
    using b(6) l by (cases xs) (auto simp: fs frames_wf_def)
  have "cbb_rel (CBB_discard_child d cbb) xs"
    using False b(1-3) b(5) off nod tk le wf
    by (auto simp: CBB_discard_child_def cbb_rel_def buf_ok_def valid_bytes_def)
  then show ?thesis by (simp only: xs_def)
qed

section \<open>When \<open>malloc\<close> grants every request\<close>

text \<open>\<open>malloc\<close> grants every request up to \<open>n\<close> bytes.\<close>

definition grants :: "mallocf \<Rightarrow> nat \<Rightarrow> bool" where
  "grants m n \<longleftrightarrow> (\<forall>k \<le> n. m k \<noteq> None)"

definition resizable :: "cbb_st \<Rightarrow> bool" where
  "resizable cbb \<longleftrightarrow> (\<exists>base. cbb_base cbb = Some base \<and> cbb_can_resize base)"

lemma flush_result_granted:
  assumes res: "flush_result m cbb (Some fs) (r, cbb')" and "resizable cbb"
    and g: "grants m (2 * length (render fs) + 8)"
  shows "(\<exists>u. r = Some u) \<and> cbb_rel cbb' fs \<and> resizable cbb'"
proof (cases r)
  case None
  with res assms(2) g show ?thesis
    by (auto simp: flush_result_def fails_for_def no_room_def resizable_def grants_def split: if_splits)
next
  case (Some u)
  with res assms(2) show ?thesis
    by (auto simp: flush_result_def resizable_def same_mode_def)
qed

lemma flush_result_SomeD: "flush_result m cbb (Some fs) (Some u, cbb') \<Longrightarrow> cbb_rel cbb' fs"
  by (auto simp: flush_result_def)

lemma CBB_finish_leaf: "cbb_rel cbb [(Top, c)] \<Longrightarrow> CBB_finish m cbb = (Some c, CBB_cleanup cbb)"
  using CBB_flush_leaf [of cbb _ 0 m]
  by (auto simp: cbb_rel_def CBB_finish_def valid_bytes_def)

lemma CBB_init_granted:
  assumes m: "malloc_law m" and n: "n + 8 < 2 ^ 63" and g: "grants m (max 40 (n + 8))"
  shows "\<exists>cbb. CBB_init m n = (Some (), cbb) \<and> cbb_rel cbb [(Top, [])] \<and> resizable cbb"
proof -
  have "m 40 \<noteq> None" and "m (n + 8) \<noteq> None" using g by (auto simp: grants_def)
  then obtain b where b: "OPENSSL_malloc m n = Some b" and "OPENSSL_malloc m 32 \<noteq> None"
    using n by (auto simp: OPENSSL_malloc_def size_add_exact)
  then obtain cbb where i: "CBB_init m n = (Some (), cbb)"
    and c: "cbb_base cbb = Some \<lparr>cbb_buf = b, cbb_blen = 0, cbb_cap = n, cbb_can_resize = True, cbb_error = False\<rparr>"
    by (auto simp: CBB_init_def cbb_init_def)
  from CBB_init_refines [OF m n i] c i show ?thesis by (simp add: resizable_def)
qed

text \<open>A \<open>malloc\<close> with this law that grants up to a megabyte, for the instances at concrete
  inputs.\<close>

definition generous :: mallocf where
  "generous n = (if n < 1048576 then Some (replicate n 0) else None)"

lemma CBB_init_resizable: "CBB_init m n = (Some (), cbb) \<Longrightarrow> resizable cbb"
  by (auto simp: CBB_init_def cbb_init_def resizable_def split: option.splits if_splits)

lemma generous_laws [simp]: "malloc_law generous" "n < 1048576 \<Longrightarrow> grants generous n"
  by (simp_all add: generous_def malloc_law_def grants_def)

section \<open>A builder without open children\<close>

lemma CBB_add_bytes_top:
  assumes m: "malloc_law m" and rel: "cbb_rel cbb [(Top, bs)]" and n: "length data < 2 ^ 63"
  shows "flush_result m cbb (Some [(Top, bs @ data)]) (CBB_add_bytes m 0 data cbb)"
proof -
  have "add_frames 0 (Some data) [(Top, bs)] = Some [(Top, bs @ data)]"
    by (simp add: add_frames_def flush_frames_def)
  with CBB_add_bytes_refines [OF m rel, of 0 data] n show ?thesis by simp
qed

text \<open>One operation on a builder and the end of the message.\<close>

lemma add_then_finish:
  assumes res: "flush_result m cbb (add_frames 0 (Some bs) [(Top, c)]) (f cbb)" and rs: "resizable cbb"
    and g: "grants m (2 * length (c @ bs) + 8)"
  shows "\<exists>u cbb'. f cbb = (Some u, cbb') \<and> CBB_finish m cbb' = (Some (c @ bs), CBB_cleanup cbb')"
proof -
  have "add_frames 0 (Some bs) [(Top, c)] = Some [(Top, c @ bs)]"
    by (simp add: add_frames_def flush_frames_def)
  with res have "flush_result m cbb (Some [(Top, c @ bs)]) (fst (f cbb), snd (f cbb))" by simp
  moreover have "grants m (2 * length (render [(Top, c @ bs)]) + 8)" using g by simp
  ultimately obtain u where "fst (f cbb) = Some u" "cbb_rel (snd (f cbb)) [(Top, c @ bs)]"
    using flush_result_granted [OF _ rs] by blast
  with CBB_finish_leaf [of "snd (f cbb)" "c @ bs" m] show ?thesis by (cases "f cbb") auto
qed

section \<open>Properties\<close>

text \<open>C2: \<open>CBB_flush\<close> implements its abstract specification. On a builder that represents a stack
  of frames it closes the frames above depth \<open>d\<close>, writing each pending length; it fails only if
  a length does not fit its prefix or there is no room, and then leaves the error flag set.\<close>

theorem CBB_flush_implements_spec:
  assumes "malloc_law m" and "cbb_rel cbb fs" and "d < length fs"
  shows "case CBB_flush m d cbb of
      (Some _, cbb') \<Rightarrow> \<exists>fs'. flush_frames d fs = Some fs' \<and> cbb_rel cbb' fs'
    | (None, cbb') \<Rightarrow> \<exists>base base'. cbb_base cbb = Some base \<and> cbb_base cbb' = Some base' \<and> cbb_error base' \<and>
        (\<forall>fs'. flush_frames d fs = Some fs' \<longrightarrow> no_room m base (length (render fs')))"
  using CBB_flush_refines [OF assms]
  by (auto simp: flush_result_def fails_for_def split: prod.splits option.splits)

definition open_builder :: cbb_st where
  "open_builder = \<lparr>cbb_base = Some \<lparr>cbb_buf = [7, 0, 1, 2], cbb_blen = 4, cbb_cap = 4, cbb_can_resize = True,
       cbb_error = False\<rparr>,
     cbb_nodes = [zero_node, \<lparr>cbb_offset = 1, cbb_pending_len_len = 1, cbb_pending_is_asn1 = True,
       cbb_is_child = True\<rparr>]\<rparr>"

lemma open_builder_rel: "cbb_rel open_builder [(Top, [7]), (Asn1, [1, 2])]"
  by (simp add: open_builder_def cbb_rel_def buf_ok_def valid_bytes_def frames_wf_def zero_node_def
      frame_node_def)

theorem CBB_flush_implements_spec_witness:
  "\<exists>cbb'. CBB_flush generous 0 open_builder = (Some (), cbb') \<and> cbb_rel cbb' [(Top, [7, 2, 1, 2])]"
proof -
  have "flush_frames 0 [(Top, [7]), (Asn1, [1, 2])] = Some [(Top, [7, 2, 1, 2])]"
    by (simp add: flush_frames_def der_length_forms)
  moreover have "\<not> no_room generous base n" if "cbb_base open_builder = Some base" and "n < 8" for base n
    using that by (auto simp: no_room_def generous_def open_builder_def)
  ultimately show ?thesis
    using CBB_flush_implements_spec [OF generous_laws(1) open_builder_rel, of 0]
    by (auto split: prod.splits option.splits)
qed

text \<open>A builder on a fixed buffer of \<open>n\<close> bytes takes exactly the data that fit: the write
  succeeds if and only if there are at most \<open>n\<close> bytes, and then the message is those bytes.\<close>

theorem fixed_buffer_bound:
  assumes "malloc_law m" and "length buf = n" and "n < 2 ^ 63" and "length data < 2 ^ 63"
    and "CBB_init_fixed m buf n = (Some (), cbb)"
  shows "case CBB_add_bytes m 0 data cbb of
      (Some _, cbb') \<Rightarrow> length data \<le> n \<and> CBB_finish m cbb' = (Some data, CBB_cleanup cbb')
    | (None, _) \<Rightarrow> n < length data"
proof -
  have rel: "cbb_rel cbb [(Top, [])]" by (rule CBB_init_fixed_refines(1) [OF assms(2,3,5)])
  obtain base where b: "cbb_base cbb = Some base" "\<not> cbb_can_resize base" "cbb_cap base = n"
    using CBB_init_fixed_refines(2) [OF assms(2,3,5)] by blast
  have res: "flush_result m cbb (Some [(Top, data)]) (CBB_add_bytes m 0 data cbb)"
    using CBB_add_bytes_top [OF assms(1) rel assms(4)] by simp
  have fits: "length data \<le> n" if "cbb_rel c [(Top, data)]" "cbb_base c = Some base'" "same_mode base base'" for c base'
    using that b by (auto simp: cbb_rel_def buf_ok_def same_mode_def valid_bytes_def)
  show ?thesis
    using res b fits CBB_finish_leaf [of _ data m]
    by (auto simp: flush_result_def fails_for_def no_room_def split: prod.splits option.splits)
qed

theorem fixed_buffer_bound_witness:
  "case CBB_add_bytes generous 0 [1, 2, 3] (snd (CBB_init_fixed generous [0, 0] 2)) of
      (Some _, cbb') \<Rightarrow> length [1, 2, 3 :: byte] \<le> 2 \<and> CBB_finish generous cbb' = (Some [1, 2, 3], CBB_cleanup cbb')
    | (None, _) \<Rightarrow> 2 < length [1, 2, 3 :: byte]"
  by (rule fixed_buffer_bound [of _ "[0, 0]"])
    (simp_all add: CBB_init_fixed_def cbb_init_def OPENSSL_malloc_def generous_def size_add_def)


definition failed_builder :: cbb_st where
  "failed_builder = \<lparr>cbb_base = Some \<lparr>cbb_buf = [], cbb_blen = 0, cbb_cap = 0, cbb_can_resize = False,
     cbb_error = True\<rparr>, cbb_nodes = [zero_node]\<rparr>"


end
