(* ===== verification/Compare.thy ===== *)
theory Compare
  imports Prelude "HOL-Library.Multiset"
begin

text \<open>
  Three-way comparison functions in the style of C: the interface between libc's \<open>qsort\<close>, the
  binary search of the stacks, and the comparison functions of the library. \<open>three_way\<close> states
  what a comparison function promises; its lemmas are the correctness of the sort and the shape
  of a sorted sequence as a search sees it.
\<close>

section \<open>\<open>qsort\<close>\<close>

text \<open>libc's \<open>qsort\<close>: the elements in the order of the comparison function.\<close>

fun qsort_insert :: "('a \<Rightarrow> 'a \<Rightarrow> int) \<Rightarrow> 'a \<Rightarrow> 'a list \<Rightarrow> 'a list" where
  "qsort_insert cmp x [] = [x]"
| "qsort_insert cmp x (y # ys) = (if cmp x y \<le> 0 then x # y # ys else y # qsort_insert cmp x ys)"

definition qsort :: "('a \<Rightarrow> 'a \<Rightarrow> int) \<Rightarrow> 'a list \<Rightarrow> 'a list" where
  "qsort cmp xs = foldr (qsort_insert cmp) xs []"

lemma mset_qsort_insert [simp]: "mset (qsort_insert cmp x xs) = add_mset x (mset xs)"
  by (induction xs) auto

lemma mset_qsort [simp]: "mset (qsort cmp xs) = mset xs"
  by (induction xs) (simp_all add: qsort_def)

lemma set_qsort_insert [simp]: "set (qsort_insert cmp x xs) = insert x (set xs)"
  by (induction xs) auto

lemma set_qsort [simp]: "set (qsort cmp xs) = set xs"
  by (metis mset_qsort set_mset_mset)

lemma length_qsort [simp]: "length (qsort cmp xs) = length xs"
  by (metis mset_qsort size_mset)

lemma qsort_short: "length xs < 2 \<Longrightarrow> qsort cmp xs = xs"
  by (cases xs; cases "tl xs") (auto simp: qsort_def)

section \<open>The interface\<close>

locale three_way =
  fixes cmp :: "'a \<Rightarrow> 'a \<Rightarrow> int"
  assumes cmp_flip: "cmp a b < 0 \<longleftrightarrow> 0 < cmp b a"
    and cmp_trans: "cmp a b \<le> 0 \<Longrightarrow> cmp b c \<le> 0 \<Longrightarrow> cmp a c \<le> 0"
begin

abbreviation cmp_sorted :: "'a list \<Rightarrow> bool" where
  "cmp_sorted \<equiv> sorted_wrt (\<lambda>a b. cmp a b \<le> 0)"

lemma cmp_total: "cmp a b \<le> 0 \<or> cmp b a \<le> 0"
  using cmp_flip [of a b] cmp_flip [of b a] by linarith

lemma cmp_refl: "cmp a a = 0"
  using cmp_flip [of a a] by linarith

lemma sorted_qsort_insert: "cmp_sorted xs \<Longrightarrow> cmp_sorted (qsort_insert cmp x xs)"
proof (induction xs)
  case (Cons y ys)
  show ?case
  proof (cases "cmp x y \<le> 0")
    case True
    with Cons.prems show ?thesis by (auto intro: cmp_trans)
  next
    case False
    with Cons cmp_total [of x y] show ?thesis by auto
  qed
qed simp

lemma sorted_qsort: "cmp_sorted (qsort cmp xs)"
  by (induction xs) (simp_all add: qsort_def sorted_qsort_insert)

lemma sorted_nth: "cmp_sorted xs \<Longrightarrow> i \<le> j \<Longrightarrow> j < length xs \<Longrightarrow> cmp (xs ! i) (xs ! j) \<le> 0"
  using cmp_refl by (cases "i = j") (auto simp: sorted_wrt_iff_nth_less)

text \<open>Seen from an element, a sorted sequence is first smaller, then equal, then bigger.\<close>

lemma sorted_smaller: "cmp_sorted xs \<Longrightarrow> i \<le> j \<Longrightarrow> j < length xs \<Longrightarrow> 0 < cmp p (xs ! j) \<Longrightarrow> 0 < cmp p (xs ! i)"
proof (rule ccontr)
  assume xs: "cmp_sorted xs" "i \<le> j" "j < length xs" "0 < cmp p (xs ! j)" and "\<not> 0 < cmp p (xs ! i)"
  then have "cmp p (xs ! i) \<le> 0" by simp
  moreover have "cmp (xs ! i) (xs ! j) \<le> 0" by (rule sorted_nth [OF xs(1-3)])
  ultimately show False using cmp_trans [of p "xs ! i" "xs ! j"] xs(4) by simp
qed

lemma sorted_bigger: "cmp_sorted xs \<Longrightarrow> i \<le> j \<Longrightarrow> j < length xs \<Longrightarrow> cmp p (xs ! i) < 0 \<Longrightarrow> cmp p (xs ! j) < 0"
proof (rule ccontr)
  assume xs: "cmp_sorted xs" "i \<le> j" "j < length xs" "cmp p (xs ! i) < 0" and "\<not> cmp p (xs ! j) < 0"
  then have "cmp (xs ! j) p \<le> 0" using cmp_flip [of p "xs ! j"] cmp_flip [of "xs ! j" p] by linarith
  moreover have "cmp (xs ! i) (xs ! j) \<le> 0" by (rule sorted_nth [OF xs(1-3)])
  ultimately have "cmp (xs ! i) p \<le> 0" by (rule cmp_trans [rotated])
  then show False using xs(4) cmp_flip [of p "xs ! i"] by simp
qed

end

end
