(* ===== verification/CbbAsn1.thy ===== *)
theory CbbAsn1
  imports CbbSpec CbsAsn1 Compare
begin

text \<open>
  The ASN.1 half of \<open>crypto/bytestring/cbb.c\<close> and the object identifier printer of
  \<open>cbs.c\<close>: base-128 numbers, tagged children, integers, octet strings, booleans, object
  identifiers from text, and the sorting of a \<open>SET OF\<close>. The lemmas show that the writers
  emit the encodings \<open>Asn1Spec\<close> defines, hence that the readers of \<open>CbsAsn1\<close> accept them.
\<close>

section \<open>Base-128 numbers\<close>

function base128_len_len :: "u64 \<Rightarrow> nat" where
  "base128_len_len copy = (if copy > 0 then Suc (base128_len_len (drop_bit 7 copy)) else 0)"
  by pat_completeness auto
termination
proof (relation "measure unat")
  fix copy :: u64 assume "copy > 0"
  then have "0 < unat copy" by (simp add: unat_gt_0 word_neq_0_conv)
  then show "(drop_bit 7 copy, copy) \<in> measure unat"
    by (simp add: unat_drop_bit)
qed simp

declare base128_len_len.simps [simp del]

fun add_base128_loop :: "mallocf \<Rightarrow> nat \<Rightarrow> u64 \<Rightarrow> nat \<Rightarrow> (cbb_st, unit) cop" where
  "add_base128_loop m d v 0 = op_ret ()"
| "add_base128_loop m d v (Suc i) =
     (let byte = ucast (drop_bit (7 * i) v AND 0x7f) :: byte;
          byte' = (if i \<noteq> 0 then byte OR 0x80 else byte)
      in op_then (CBB_add_u8 m d byte') (add_base128_loop m d v i))"

definition add_base128_integer :: "mallocf \<Rightarrow> nat \<Rightarrow> u64 \<Rightarrow> (cbb_st, unit) cop" where
  "add_base128_integer m d v =
     (let len_len = base128_len_len v
      in add_base128_loop m d v (if len_len = 0 then 1 else len_len))"

section \<open>Tagged children\<close>

definition CBB_add_asn1 :: "mallocf \<Rightarrow> nat \<Rightarrow> u32 \<Rightarrow> (cbb_st, unit) cop" where
  "CBB_add_asn1 m d tag =
     op_then (CBB_flush m d)
     (let tag_bits = ucast (drop_bit CBS_ASN1_TAG_SHIFT tag AND 0xe0) :: byte;
          tag_number = tag AND CBS_ASN1_TAG_NUMBER_MASK
      in op_then
           (if tag_number \<ge> 0x1f then
              op_then (CBB_add_u8 m d (tag_bits OR 0x1f)) (add_base128_integer m d (ucast tag_number))
            else CBB_add_u8 m d (tag_bits OR ucast tag_number))
           (\<lambda>cbb. case cbb_base cbb of
               None \<Rightarrow> (None, cbb)
             | Some base \<Rightarrow>
                 op_then (CBB_add_u8 m d 0) (cbb_set_child d (cbb_blen base) 1 True) cbb))"

section \<open>Integers, octet strings, booleans\<close>

text \<open>The loop over the eight bytes of the value; \<open>n\<close> of them are left.\<close>

fun add_uint64_loop :: "mallocf \<Rightarrow> nat \<Rightarrow> u64 \<Rightarrow> bool \<Rightarrow> nat \<Rightarrow> (cbb_st, unit) cop" where
  "add_uint64_loop m d v started 0 = (if \<not> started then CBB_add_u8 m d 0 else op_ret ())"
| "add_uint64_loop m d v started (Suc n) =
     (let byte = ucast (drop_bit (8 * n) v AND 0xff) :: byte in
      if \<not> started then
        (if byte = 0 then add_uint64_loop m d v False n
         else op_then (if byte AND 0x80 \<noteq> 0 then CBB_add_u8 m d 0 else op_ret ())
                (op_then (CBB_add_u8 m d byte) (add_uint64_loop m d v True n)))
      else op_then (CBB_add_u8 m d byte) (add_uint64_loop m d v True n))"

definition CBB_add_asn1_uint64 :: "mallocf \<Rightarrow> nat \<Rightarrow> u64 \<Rightarrow> (cbb_st, unit) cop" where
  "CBB_add_asn1_uint64 m d v =
     op_then (CBB_add_asn1 m d CBS_ASN1_INTEGER)
     (op_then (add_uint64_loop m (d + 1) v False 8) (CBB_flush m d))"

text \<open>\<open>u.bytes[i]\<close> of the union of an \<open>int64_t\<close> and its bytes, on a little-endian machine.\<close>

definition le_byte :: "u64 \<Rightarrow> nat \<Rightarrow> byte" where
  "le_byte v i = ucast (drop_bit (8 * i) v)"

fun int64_start :: "u64 \<Rightarrow> nat \<Rightarrow> nat" where
  "int64_start v 0 = 0"
| "int64_start v (Suc s) =
     (if le_byte v (Suc s) = 0xff \<and> le_byte v s AND 0x80 \<noteq> 0 then int64_start v s else Suc s)"

fun add_le_bytes :: "mallocf \<Rightarrow> nat \<Rightarrow> u64 \<Rightarrow> nat \<Rightarrow> (cbb_st, unit) cop" where
  "add_le_bytes m d v 0 = op_ret ()"
| "add_le_bytes m d v (Suc i) = op_then (CBB_add_u8 m d (le_byte v i)) (add_le_bytes m d v i)"

text \<open>The argument is the bit pattern of the \<open>int64_t\<close>.\<close>

definition CBB_add_asn1_int64 :: "mallocf \<Rightarrow> nat \<Rightarrow> u64 \<Rightarrow> (cbb_st, unit) cop" where
  "CBB_add_asn1_int64 m d v =
     (if sint v \<ge> 0 then CBB_add_asn1_uint64 m d v
      else op_then (CBB_add_asn1 m d CBS_ASN1_INTEGER)
        (op_then (add_le_bytes m (d + 1) v (int64_start v 7 + 1)) (CBB_flush m d)))"

definition CBB_add_asn1_octet_string :: "mallocf \<Rightarrow> nat \<Rightarrow> byte list \<Rightarrow> (cbb_st, unit) cop" where
  "CBB_add_asn1_octet_string m d data =
     op_then (CBB_add_asn1 m d CBS_ASN1_OCTETSTRING)
     (op_then (CBB_add_bytes m (d + 1) data) (CBB_flush m d))"

definition CBB_add_asn1_bool :: "mallocf \<Rightarrow> nat \<Rightarrow> bool \<Rightarrow> (cbb_st, unit) cop" where
  "CBB_add_asn1_bool m d b =
     op_then (CBB_add_asn1 m d CBS_ASN1_BOOLEAN)
     (op_then (CBB_add_u8 m (d + 1) (if b then 0xff else 0)) (CBB_flush m d))"

section \<open>Object identifiers\<close>

fun parse_dotted_loop :: "u64 \<Rightarrow> bool \<Rightarrow> (cbs, u64) cop" where
  "parse_dotted_loop out seen_digit [] = (if seen_digit then Some out else None, [])"
| "parse_dotted_loop out seen_digit (u # cbs) =
     (if u = 0x2e \<and> CBS_len cbs > 0 then (if seen_digit then Some out else None, cbs)
      else if u < 0x30 \<or> u > 0x39 \<or> (seen_digit \<and> out = 0) \<or>
          out > (- 1) div 10 \<or> out * 10 > (- 1) - ucast (u - 0x30) then (None, cbs)
      else parse_dotted_loop (out * 10 + ucast (u - 0x30)) True cbs)"

definition parse_dotted_decimal :: "(cbs, u64) cop" where
  "parse_dotted_decimal = parse_dotted_loop 0 False"

lemma parse_dotted_loop_length: "length (snd (parse_dotted_loop out seen s)) \<le> length s"
  by (induction out seen s rule: parse_dotted_loop.induct) auto

lemma parse_dotted_decimal_less:
  assumes "(r, s') = parse_dotted_decimal s" and "s \<noteq> []"
  shows "length s' < length s"
proof -
  have "length (snd (parse_dotted_decimal s)) < length s"
    using assms(2) parse_dotted_loop_length
    by (cases s) (auto simp: parse_dotted_decimal_def less_Suc_eq_le)
  then show ?thesis using assms(1) by (metis snd_conv)
qed

text \<open>The components after the second one.\<close>

function add_oid_rest :: "mallocf \<Rightarrow> nat \<Rightarrow> cbs \<Rightarrow> (cbb_st, unit) cop" where
  "add_oid_rest m d cbs =
     (if CBS_len cbs > 0 then
        (case parse_dotted_decimal cbs of
           (None, _) \<Rightarrow> op_fail
         | (Some a, cbs') \<Rightarrow> op_then (add_base128_integer m d a) (add_oid_rest m d cbs'))
      else op_ret ())"
  by pat_completeness auto
termination
  by (relation "measure (\<lambda>(m, d, s). length s)") (auto simp: CBS_len_def parse_dotted_decimal_less)

declare add_oid_rest.simps [simp del]

definition CBB_add_asn1_oid_from_text :: "mallocf \<Rightarrow> nat \<Rightarrow> byte list \<Rightarrow> nat \<Rightarrow> (cbb_st, unit) cop" where
  "CBB_add_asn1_oid_from_text m d txt len =
     op_then (CBB_flush m d)
     (case parse_dotted_decimal (CBS_init txt len) of
        (None, _) \<Rightarrow> op_fail
      | (Some a, cbs1) \<Rightarrow>
          (case parse_dotted_decimal cbs1 of
             (None, _) \<Rightarrow> op_fail
           | (Some b, cbs2) \<Rightarrow>
               if a > 2 \<or> (a < 2 \<and> b > 39) \<or> b > (- 1) - 80 then op_fail
               else op_then (add_base128_integer m d (40 * a + b)) (add_oid_rest m d cbs2)))"

text \<open>\<open>BIO_snprintf\<close> with the format \<open>PRIu64\<close>: the decimal digits.\<close>

fun decimal :: "nat \<Rightarrow> byte list" where
  "decimal n = (if n < 10 then [word_of_nat (48 + n)] else decimal (n div 10) @ [word_of_nat (48 + n mod 10)])"

declare decimal.simps [simp del]

definition add_decimal :: "mallocf \<Rightarrow> u64 \<Rightarrow> (cbb_st, unit) cop" where
  "add_decimal m v = CBB_add_bytes m 0 (decimal (unat v))"

lemma parse_base128_loop_length: "length (snd (parse_base128_loop v s)) \<le> length s"
  by (induction v s rule: parse_base128_loop.induct) (auto simp: Let_def)

lemma parse_base128_less:
  assumes "(r, s') = parse_base128_integer s" and "s \<noteq> []"
  shows "length s' < length s"
proof -
  have "length (snd (parse_base128_integer s)) < length s"
    using assms(2) parse_base128_loop_length
    by (cases s) (auto simp: parse_base128_integer_def Let_def less_Suc_eq_le)
  then show ?thesis using assms(1) by (metis snd_conv)
qed

function oid_text_rest :: "mallocf \<Rightarrow> cbs \<Rightarrow> (cbb_st, unit) cop" where
  "oid_text_rest m copy =
     (if CBS_len copy \<noteq> 0 then
        (case parse_base128_integer copy of
           (None, _) \<Rightarrow> op_fail
         | (Some v, copy') \<Rightarrow>
             op_then (CBB_add_u8 m 0 0x2e) (op_then (add_decimal m v) (oid_text_rest m copy')))
      else op_ret ())"
  by pat_completeness auto
termination
  by (relation "measure (\<lambda>(m, s). length s)") (auto simp: CBS_len_def parse_base128_less)

declare oid_text_rest.simps [simp del]

definition CBS_asn1_oid_to_text :: "mallocf \<Rightarrow> cbs \<Rightarrow> byte list option" where
  "CBS_asn1_oid_to_text m cbs =
     (case CBB_init m 32 of
        (None, _) \<Rightarrow> None
      | (Some _, cbb) \<Rightarrow>
          (case parse_base128_integer cbs of
             (None, _) \<Rightarrow> None
           | (Some v, copy) \<Rightarrow>
               fst (op_then
                 (if v \<ge> 80 then op_then (CBB_add_bytes m 0 [0x32, 0x2e]) (add_decimal m (v - 80))
                  else op_then (add_decimal m (v div 40))
                         (op_then (CBB_add_u8 m 0 0x2e) (add_decimal m (v mod 40))))
                 (op_then (oid_text_rest m copy)
                   (op_then (CBB_add_u8 m 0 0) (CBB_finish m))) cbb)))"

section \<open>The sorting of a \<open>SET OF\<close>\<close>

definition compare_set_of_element :: "cbs \<Rightarrow> cbs \<Rightarrow> int" where
  "compare_set_of_element a b =
     (let a_len = CBS_len a; b_len = CBS_len b;
          min_len = (if a_len < b_len then a_len else b_len);
          ret = OPENSSL_memcmp (CBS_data a) (CBS_data b) min_len
      in if ret \<noteq> 0 then ret
         else if a_len = b_len then 0
         else if a_len < b_len then -1 else 1)"

text \<open>The two parsing loops: the elements of a window, if it is a sequence of elements.\<close>

lemma CBS_get_any_asn1_element_less:
  assumes "(Some (e, tag, hl), s') = CBS_get_any_asn1_element s"
  shows "length s' < length s"
proof -
  obtain c where "s = der_element tag c @ s'"
    using assms [symmetric] by (auto simp: CBS_get_any_asn1_element_iff)
  with length_der_header_ge [of tag "length c"] show ?thesis
    by (auto simp: der_element_def)
qed

function asn1_children :: "cbs \<Rightarrow> cbs list option" where
  "asn1_children cbs =
     (if CBS_len cbs \<noteq> 0 then
        (case CBS_get_any_asn1_element cbs of
           (None, _) \<Rightarrow> None
         | (Some (e, tag, hl), cbs') \<Rightarrow> map_option (Cons e) (asn1_children cbs'))
      else Some [])"
  by pat_completeness auto
termination
  by (relation "measure length") (auto simp: CBS_get_any_asn1_element_less)

declare asn1_children.simps [simp del]

fun cbb_add_all :: "mallocf \<Rightarrow> nat \<Rightarrow> cbs list \<Rightarrow> (cbb_st, unit) cop" where
  "cbb_add_all m d [] = op_ret ()"
| "cbb_add_all m d (e # es) = op_then (CBB_add_bytes m d e) (cbb_add_all m d es)"

definition CBB_flush_asn1_set_of :: "mallocf \<Rightarrow> nat \<Rightarrow> (cbb_st, unit) cop" where
  "CBB_flush_asn1_set_of m d =
     op_then (CBB_flush m d) (\<lambda>cbb.
       let cbs = CBB_data_len d cbb in
       case asn1_children cbs of
         None \<Rightarrow> (None, cbb)
       | Some es \<Rightarrow>
           let num_children = length es in
           if num_children < 2 then (Some (), cbb)
           else if num_children > (size_mod - 1) div 16 then (None, cbb)
           else
             (case (OPENSSL_memdup m cbs (length cbs), OPENSSL_malloc m (num_children * 16)) of
                (Some buf, Some _) \<Rightarrow>
                  (case asn1_children buf of
                     None \<Rightarrow> (None, cbb)
                   | Some children \<Rightarrow>
                       let n = cbb_nodes cbb ! d;
                           rewound = cbb\<lparr>cbb_base := map_option
                             (\<lambda>b. b\<lparr>cbb_blen := cbb_offset n + cbb_pending_len_len n\<rparr>) (cbb_base cbb)\<rparr>
                       in cbb_add_all m d (qsort compare_set_of_element children) rewound)
              | _ \<Rightarrow> (None, cbb)))"

section \<open>Sequences of bytes\<close>

lemma op_then_assoc: "op_then (op_then a b) c = op_then a (op_then b c)"
  by (rule ext) (simp add: op_then_def op_bind_def split: prod.splits option.splits)

lemma op_then_ret [simp]: "op_then (op_ret x) k = k"
  by (rule ext) (simp add: op_simps)

fun cbb_put :: "mallocf \<Rightarrow> nat \<Rightarrow> byte list \<Rightarrow> (cbb_st, unit) cop" where
  "cbb_put m d [] = op_ret ()"
| "cbb_put m d (b # bs) = op_then (CBB_add_u8 m d b) (cbb_put m d bs)"

lemma cbb_put_append: "cbb_put m d (as @ bs) = op_then (cbb_put m d as) (cbb_put m d bs)"
  by (induction as) (simp_all add: op_then_assoc)

lemma cbb_put_single: "cbb_put m d [b] = CBB_add_u8 m d b"
  by (rule ext) (simp add: op_simps split: prod.splits option.splits)

lemma flush_result_seq:
  assumes res: "flush_result m cbb r (f cbb)"
    and step: "\<And>cbb1 fs1. r = Some fs1 \<Longrightarrow> cbb_rel cbb1 fs1 \<Longrightarrow> flush_result m cbb1 (g fs1) (body cbb1)"
    and mono: "\<And>fs1 fs2. r = Some fs1 \<Longrightarrow> g fs1 = Some fs2 \<Longrightarrow> length (render fs1) \<le> length (render fs2)"
  shows "flush_result m cbb (Option.bind r g) (op_then f body cbb)"
proof -
  obtain q cbb1 where f: "f cbb = (q, cbb1)" by (cases "f cbb")
  show ?thesis
  proof (cases q)
    case None
    with res f obtain base base1 where b: "cbb_base cbb = Some base" "cbb_base cbb1 = Some base1"
      "fails_for m base (map_option render r) base1"
      by (auto simp: flush_result_def)
    have "fails_for m base (map_option render (Option.bind r g)) base1"
      by (rule fails_for_mono [OF b(3)]) (use mono in \<open>auto simp: bind_eq_Some_conv\<close>)
    with f None b show ?thesis by (auto simp: op_simps flush_result_def)
  next
    case (Some u)
    with res f obtain base base1 fs1 where b: "cbb_base cbb = Some base" "cbb_base cbb1 = Some base1"
      "same_mode base base1" "r = Some fs1" "cbb_rel cbb1 fs1"
      by (auto simp: flush_result_def)
    from step [OF b(4,5)] b f Some show ?thesis
      by (fastforce simp: op_simps flush_result_def fails_for_def no_room_same_mode intro: same_mode_trans
          split: option.splits)
  qed
qed

lemma flush_result_ret: "cbb_rel cbb fs \<Longrightarrow> flush_result m cbb (Some fs) (op_ret () cbb)"
  by (auto simp: flush_result_def op_simps cbb_rel_def)

lemma add_frames_leaf: "add_frames (length xs) (Some bs) (xs @ [(k, c)]) = Some (xs @ [(k, c @ bs)])"
  by (simp add: add_frames_def flush_frames_split)

lemma cbb_put_refines:
  assumes m: "malloc_law m"
  shows "cbb_rel cbb (xs @ [(k, c)]) \<Longrightarrow>
    flush_result m cbb (Some (xs @ [(k, c @ bs)])) (cbb_put m (length xs) bs cbb)"
proof (induction bs arbitrary: cbb c)
  case Nil
  then show ?case by (simp add: flush_result_ret)
next
  case (Cons b bs)
  have u8: "flush_result m cbb (Some (xs @ [(k, c @ [b])])) (CBB_add_u8 m (length xs) b cbb)"
    using CBB_add_u8_refines [OF m Cons.prems, of "length xs" b] by (simp add: add_frames_leaf)
  have "flush_result m cbb (Option.bind (Some (xs @ [(k, c @ [b])])) (\<lambda>_. Some (xs @ [(k, c @ b # bs)])))
    (op_then (CBB_add_u8 m (length xs) b) (cbb_put m (length xs) bs) cbb)"
    by (rule flush_result_seq) (use u8 Cons.IH [of _ "c @ [b]"] in \<open>auto simp: render_append\<close>)
  then show ?case by simp
qed

lemma cbb_put_frames:
  assumes "malloc_law m" and "cbb_rel cbb fs" and "d < length fs"
  shows "flush_result m cbb (add_frames d (Some bs) fs) (op_then (CBB_flush m d) (cbb_put m d bs) cbb)"
  unfolding add_frames_bind
  by (rule op_then_flush [OF assms, where g = "\<lambda>xs k c. map_option (\<lambda>bs. xs @ [(k, c @ bs)]) (Some bs)"])
    (use cbb_put_refines [OF assms(1)] in \<open>auto simp: render_append\<close>)

section \<open>The base-128 writer\<close>

fun cont_digits :: "nat \<Rightarrow> nat \<Rightarrow> byte list" where
  "cont_digits q 0 = []"
| "cont_digits q (Suc i) = word_of_nat (128 + q div 128 ^ i mod 128) # cont_digits q i"

lemma cont_digits_snoc:
  "cont_digits q (Suc i) = cont_digits (q div 128) i @ [word_of_nat (128 + q mod 128)]"
proof (induction i)
  case 0
  then show ?case by simp
next
  case (Suc i)
  have "cont_digits q (Suc (Suc i)) = word_of_nat (128 + q div 128 ^ Suc i mod 128) # cont_digits q (Suc i)"
    by (rule cont_digits.simps)
  also have "q div 128 ^ Suc i = q div 128 div 128 ^ i"
    by (simp add: div_mult2_eq)
  finally show ?case
    unfolding Suc by simp
qed

fun len128 :: "nat \<Rightarrow> nat" where
  "len128 q = (if q = 0 then 0 else Suc (len128 (q div 128)))"

declare len128.simps [simp del]

lemma len128_0 [simp]: "len128 0 = 0"
  by (simp add: len128.simps)

lemma len128_pos: "0 < q \<Longrightarrow> len128 q = Suc (len128 (q div 128))"
  by (simp add: len128.simps [of q])

lemma cont_digits_len128: "cont_digits q (len128 q) = base128_cont q"
proof (induction q rule: len128.induct)
  case (1 q)
  show ?case
  proof (cases "q = 0")
    case False
    with 1 show ?thesis
      by (simp add: len128_pos base128_cont_pos cont_digits_snoc del: cont_digits.simps(2))
  qed simp
qed

lemma base128_len_len_eq: "base128_len_len v = len128 (unat v)"
proof (induction v rule: base128_len_len.induct)
  case (1 v)
  show ?case
  proof (cases "v = 0")
    case True
    then show ?thesis by (simp add: base128_len_len.simps)
  next
    case False
    then have p: "0 < unat v" "v > 0" by (simp_all add: unat_gt_0 word_neq_0_conv)
    have "unat (drop_bit 7 v) = unat v div 128" by (simp only: unat_drop_bit) simp
    with 1 p show ?thesis
      by (subst base128_len_len.simps) (simp add: len128_pos)
  qed
qed

lemma base128_digit:
  "(ucast (drop_bit (7 * i) v AND 0x7f) :: byte) = word_of_nat (unat v div 128 ^ i mod 128)" for v :: u64
proof (rule word_unat_eq_iff [THEN iffD2])
  have "drop_bit (7 * i) v AND 0x7f = take_bit 7 (drop_bit (7 * i) v)"
    by (simp add: take_bit_eq_mask mask_eq_exp_minus_1)
  then have u: "unat (drop_bit (7 * i) v AND 0x7f) = unat v div 128 ^ i mod 128"
    by (simp only: unat_take_bit unat_drop_bit) (simp add: power_mult)
  then show "unat (ucast (drop_bit (7 * i) v AND 0x7f) :: byte) =
      unat (word_of_nat (unat v div 128 ^ i mod 128) :: byte)"
    unfolding unat_ucast unat_of_nat by simp
qed

lemma byte_or_0x80: "n < 128 \<Longrightarrow> (word_of_nat n :: byte) OR 0x80 = word_of_nat (128 + n)"
proof -
  assume n: "n < 128"
  have "(word_of_nat n :: byte) AND 0x80 = 0"
    using n byte_and_0x80 [of "word_of_nat n"] by (simp add: unat_of_nat)
  then have "(word_of_nat n :: byte) OR 0x80 = word_of_nat n + 0x80"
    by (rule disjunctive_add_eq_or [symmetric])
  then show ?thesis by (simp add: add.commute)
qed

lemma add_base128_loop_cont:
  "add_base128_loop m d v (Suc n) =
     cbb_put m d (cont_digits (unat v div 128) n @ [word_of_nat (unat v mod 128)])"
proof (induction n)
  case 0
  then show ?case by (simp only: add_base128_loop.simps base128_digit Let_def) simp
next
  case (Suc n)
  have b: "(word_of_nat (unat v div 128 ^ Suc n mod 128) :: byte) OR 0x80 =
      word_of_nat (128 + unat v div 128 div 128 ^ n mod 128)"
    by (subst byte_or_0x80) (simp_all add: div_mult2_eq)
  show ?case
    by (subst add_base128_loop.simps(2), simp only: base128_digit Let_def Suc b) simp
qed

lemma add_base128_integer_eq: "add_base128_integer m d v = cbb_put m d (base128 (unat v))"
proof (cases "unat v = 0")
  case True
  then have "base128_len_len v = 0" by (simp add: base128_len_len_eq)
  with True add_base128_loop_cont [of m d v 0] show ?thesis
    by (simp add: add_base128_integer_def base128_def del: add_base128_loop.simps)
next
  case False
  then have l: "base128_len_len v = Suc (len128 (unat v div 128))"
    by (simp add: base128_len_len_eq len128_pos)
  then show ?thesis
    using add_base128_loop_cont [of m d v "len128 (unat v div 128)"]
    by (simp add: add_base128_integer_def base128_def cont_digits_len128 del: add_base128_loop.simps)
qed

section \<open>The tag writer\<close>

lemma tag_bits_unat:
  "(ucast (drop_bit 24 tag AND 0xe0) :: byte) = push_bit 5 (ucast (drop_bit 29 tag))" for tag :: u32
proof (rule byte_eqI)
  fix n :: nat assume n: "n < 8"
  then consider "n = 0" | "n = 1" | "n = 2" | "n = 3" | "n = 4" | "n = 5" | "n = 6" | "n = 7"
    by linarith
  then show "bit (ucast (drop_bit 24 tag AND 0xe0) :: byte) n = bit (push_bit 5 (ucast (drop_bit 29 tag)) :: byte) n"
    by cases (simp_all add: bit_simps)
qed

lemma tag_byte_unat:
  fixes tag :: u32
  assumes "unat x < 32"
  shows "(ucast (drop_bit 24 tag AND 0xe0) OR x :: byte) = word_of_nat (unat tag div 2 ^ 29 * 32 + unat x)"
proof (rule word_unat_eq_iff [THEN iffD2])
  have "unat tag < 2 ^ 32" using unsigned_less [of tag, where ?'a = nat] by simp
  then have c: "unat tag div 2 ^ 29 < 8" by (simp add: less_mult_imp_div_less)
  have u: "unat (ucast (drop_bit 29 tag) :: byte) = unat tag div 2 ^ 29"
    using c by (simp only: unat_ucast unat_drop_bit) simp
  have lt: "unat tag div 2 ^ 29 * 32 + unat x < 256" using c assms by linarith
  have "unat (ucast (drop_bit 24 tag AND 0xe0) OR x) = unat tag div 2 ^ 29 * 32 + unat x"
    unfolding tag_bits_unat
    by (subst unat_push_bit_or) (use assms lt u in simp_all)
  then show "unat (ucast (drop_bit 24 tag AND 0xe0) OR x) =
      unat (word_of_nat (unat tag div 2 ^ 29 * 32 + unat x) :: byte)"
    using unat_byte_of_nat [OF lt] by simp
qed

lemma tag_number_unat: "unat (tag AND CBS_ASN1_TAG_NUMBER_MASK) = unat tag mod 2 ^ 29"
proof -
  have "tag AND CBS_ASN1_TAG_NUMBER_MASK = take_bit 29 tag"
    by (simp add: CBS_ASN1_TAG_NUMBER_MASK_def take_bit_eq_mask mask_eq_exp_minus_1)
  then show ?thesis by (simp only: unat_take_bit)
qed

lemma tag_writer_eq:
  "(if tag AND CBS_ASN1_TAG_NUMBER_MASK \<ge> 0x1f
    then op_then (CBB_add_u8 m d (ucast (drop_bit CBS_ASN1_TAG_SHIFT tag AND 0xe0) OR 0x1f))
           (add_base128_integer m d (ucast (tag AND CBS_ASN1_TAG_NUMBER_MASK)))
    else CBB_add_u8 m d (ucast (drop_bit CBS_ASN1_TAG_SHIFT tag AND 0xe0) OR ucast (tag AND CBS_ASN1_TAG_NUMBER_MASK))) =
   cbb_put m d (der_tag tag)"
proof -
  let ?n = "tag AND CBS_ASN1_TAG_NUMBER_MASK"
  have ge: "?n \<ge> 0x1f \<longleftrightarrow> \<not> unat tag mod 2 ^ 29 < 31"
    unfolding word_le_nat_alt tag_number_unat by (simp add: not_less)
  have u64: "unat (ucast ?n :: u64) = unat tag mod 2 ^ 29"
    using unat_ucast_up [of ?n, where ?'b = 64] tag_number_unat by simp
  show ?thesis
  proof (cases "unat tag mod 2 ^ 29 < 31")
    case True
    then have u: "unat (ucast ?n :: byte) = unat tag mod 2 ^ 29"
      by (simp only: unat_ucast tag_number_unat) simp
    have "(ucast (drop_bit 24 tag AND 0xe0) OR ucast ?n :: byte) =
        word_of_nat (unat tag div 2 ^ 29 * 32 + unat tag mod 2 ^ 29)"
      using tag_byte_unat [of "ucast ?n" tag] True unfolding u by linarith
    also have "[\<dots>] = der_tag tag"
      unfolding der_tag_def Let_def using True by simp
    finally show ?thesis
      using True unfolding ge by (simp only: if_False not_True_eq_False simp_thms cbb_put_single [symmetric])
  next
    case False
    have "(ucast (drop_bit 24 tag AND 0xe0) OR 0x1f :: byte) = word_of_nat (unat tag div 2 ^ 29 * 32 + 31)"
      using tag_byte_unat [of "0x1f" tag] by simp
    moreover have "der_tag tag = word_of_nat (unat tag div 2 ^ 29 * 32 + 31) # base128 (unat tag mod 2 ^ 29)"
      unfolding der_tag_def Let_def using False by simp
    ultimately show ?thesis
      using False unfolding ge add_base128_integer_eq u64 by (simp only: cbb_put.simps simp_thms if_True)
  qed
qed

lemma set_child_rel:
  assumes rel: "cbb_rel cbb (xs @ [(k0, c @ replicate (plen k) 0)])" and d: "length xs = d"
    and k: "0 < plen k" "plen k \<le> 8"
  shows "flush_result m cbb (Some (xs @ [(k0, c), (k, [])]))
    (cbb_set_child d (length (render (xs @ [(k0, c)]))) (plen k) (k = Asn1) cbb)"
proof -
  have kt: "k \<noteq> Top" using k by auto
  let ?p = "length (render (xs @ [(k0, c)]))"
  have wf: "frames_wf (xs @ [(k0, c), (k, [])])"
    using rel frames_wf_push [OF frames_wf_snoc k, of xs k0 _ c "[]"] by (auto simp: cbb_rel_def)
  have "take (d + 1) (cbb_nodes cbb) @ [frame_node ?p k] = nodes_of 0 (xs @ [(k0, c), (k, [])])"
    using rel d by (auto simp: cbb_rel_def nodes_of_append render_append add.assoc)
  with rel wf kt show ?thesis
    by (auto simp: flush_result_def cbb_rel_def cbb_set_child_def frame_node_def render_append)
qed

text \<open>The part of \<open>CBB_add_asn1\<close> after the flush.\<close>

lemma add_asn1_body:
  assumes m: "malloc_law m" and rel: "cbb_rel cbb (xs @ [(k, c)])" and d: "length xs = d"
  shows "flush_result m cbb (Some (xs @ [(k, c @ der_tag tag), (Asn1, [])]))
    (op_then (cbb_put m d (der_tag tag))
       (\<lambda>cbb. case cbb_base cbb of
           None \<Rightarrow> (None, cbb)
         | Some base \<Rightarrow> op_then (CBB_add_u8 m d 0) (cbb_set_child d (cbb_blen base) 1 True) cbb) cbb)"
proof -
  let ?t = "c @ der_tag tag"
  let ?goal = "Some (xs @ [(k, ?t), (Asn1, [])])"
  have "flush_result m cbb (Option.bind (Some (xs @ [(k, ?t)])) (\<lambda>_. ?goal))
    (op_then (cbb_put m d (der_tag tag))
       (\<lambda>cbb. case cbb_base cbb of
           None \<Rightarrow> (None, cbb)
         | Some base \<Rightarrow> op_then (CBB_add_u8 m d 0) (cbb_set_child d (cbb_blen base) 1 True) cbb) cbb)"
  proof (rule flush_result_seq)
    show "flush_result m cbb (Some (xs @ [(k, ?t)])) (cbb_put m d (der_tag tag) cbb)"
      using cbb_put_refines [OF m rel] d by simp
  next
    fix cbb1 fs1 assume "Some (xs @ [(k, ?t)]) = Some fs1" and "cbb_rel cbb1 fs1"
    then have rel1: "cbb_rel cbb1 (xs @ [(k, ?t)])" by simp
    then obtain base where b: "cbb_base cbb1 = Some base" "cbb_blen base = length (render (xs @ [(k, ?t)]))"
      by (auto simp: cbb_rel_def dest!: length_valid_bytes)
    have "flush_result m cbb1 (Option.bind (Some (xs @ [(k, ?t @ [0])])) (\<lambda>_. ?goal))
       (op_then (CBB_add_u8 m d 0) (cbb_set_child d (cbb_blen base) 1 True) cbb1)"
    proof (rule flush_result_seq)
      show "flush_result m cbb1 (Some (xs @ [(k, ?t @ [0])])) (CBB_add_u8 m d 0 cbb1)"
        using cbb_put_refines [OF m rel1, of "[0]"] d by (simp only: cbb_put_single)
    next
      fix cbb2 fs2 assume "Some (xs @ [(k, ?t @ [0])]) = Some fs2" and "cbb_rel cbb2 fs2"
      then show "flush_result m cbb2 ?goal (cbb_set_child d (cbb_blen base) 1 True cbb2)"
        using set_child_rel [of cbb2 xs k ?t Asn1 d] d b(2) by simp
    qed (auto simp: render_append)
    with b(1) show "flush_result m cbb1 ?goal (case cbb_base cbb1 of
           None \<Rightarrow> (None, cbb1)
         | Some base \<Rightarrow> op_then (CBB_add_u8 m d 0) (cbb_set_child d (cbb_blen base) 1 True) cbb1)"
      by simp
  qed (auto simp: render_append)
  then show ?thesis by simp
qed

lemma CBB_add_asn1_eq:
  "CBB_add_asn1 m d tag =
     op_then (CBB_flush m d)
     (op_then (cbb_put m d (der_tag tag))
       (\<lambda>cbb. case cbb_base cbb of
           None \<Rightarrow> (None, cbb)
         | Some base \<Rightarrow> op_then (CBB_add_u8 m d 0) (cbb_set_child d (cbb_blen base) 1 True) cbb))"
  unfolding CBB_add_asn1_def Let_def tag_writer_eq ..

definition open_asn1 :: "nat \<Rightarrow> u32 \<Rightarrow> frame list \<Rightarrow> frame list option" where
  "open_asn1 d tag fs =
     map_option (\<lambda>fs'. take d fs' @ [(fst (fs' ! d), snd (fs' ! d) @ der_tag tag), (Asn1, [])]) (flush_frames d fs)"

lemma open_asn1_bind:
  "open_asn1 d tag fs = Option.bind (flush_frames d fs)
     (\<lambda>fs'. Some (take d fs' @ [(fst (fs' ! d), snd (fs' ! d) @ der_tag tag), (Asn1, [])]))"
  by (cases "flush_frames d fs") (simp_all add: open_asn1_def)

lemma CBB_add_asn1_refines:
  assumes m: "malloc_law m" and "cbb_rel cbb fs" and "d < length fs"
  shows "flush_result m cbb (open_asn1 d tag fs) (CBB_add_asn1 m d tag cbb)"
  unfolding open_asn1_bind CBB_add_asn1_eq
  by (rule op_then_flush [OF assms, where g = "\<lambda>xs k c. Some (xs @ [(k, c @ der_tag tag), (Asn1, [])])"])
    (use add_asn1_body [OF m] in \<open>auto simp: render_append\<close>)

text \<open>A whole element: the tag, the contents, and the flush that writes the length.\<close>

lemma add_element_refines:
  assumes m: "malloc_law m" and rel: "cbb_rel cbb fs" and d: "d < length fs"
    and body: "\<And>cbb1 ys. cbb_rel cbb1 (ys @ [(Asn1, [])]) \<Longrightarrow> length ys = d + 1 \<Longrightarrow>
      flush_result m cbb1 (Some (ys @ [(Asn1, bs)])) (body cbb1)"
  shows "flush_result m cbb (add_frames d (if length bs \<le> 0xfffffffe then Some (der_element tag bs) else None) fs)
    (op_then (CBB_add_asn1 m d tag) (op_then body (CBB_flush m d)) cbb)"
proof -
  let ?r = "if length bs \<le> 0xfffffffe then Some (der_element tag bs) else None"
  have fl: "flush_frames d (xs @ [(k, c @ der_tag tag), (Asn1, bs)]) =
      map_option (\<lambda>e. xs @ [(k, c @ e)]) ?r" if "length xs = d" for xs k c
    using flush_frames_split [of xs k "c @ der_tag tag" "[(Asn1, bs)]"] that
    by (simp add: der_element_def der_header_def)
  define g where "g fs1 = map_option (\<lambda>e. take d fs1 @
      [(fst (fs1 ! d), take (length (snd (fs1 ! d)) - length (der_tag tag)) (snd (fs1 ! d)) @ e)]) ?r"
    for fs1 :: "frame list"
  have g: "g (xs @ [(k, c @ der_tag tag), (Asn1, [])]) = map_option (\<lambda>e. xs @ [(k, c @ e)]) ?r"
    if "length xs = d" for xs k c
    using that by (simp add: g_def nth_append)
  have "flush_result m cbb (Option.bind (open_asn1 d tag fs) g)
    (op_then (CBB_add_asn1 m d tag) (op_then body (CBB_flush m d)) cbb)"
  proof (rule flush_result_seq)
    show "flush_result m cbb (open_asn1 d tag fs) (CBB_add_asn1 m d tag cbb)"
      using CBB_add_asn1_refines [OF m rel d] .
  next
    fix cbb1 fs1 assume "open_asn1 d tag fs = Some fs1" and rel1: "cbb_rel cbb1 fs1"
    then obtain xs k c where fs1: "fs1 = xs @ [(k, c @ der_tag tag), (Asn1, [])]" and l: "length xs = d"
      by (auto simp: open_asn1_def elim!: flush_frames_shape)
    let ?fs2 = "xs @ [(k, c @ der_tag tag), (Asn1, bs)]"
    have "flush_result m cbb1 (Option.bind (Some ?fs2) (flush_frames d)) (op_then body (CBB_flush m d) cbb1)"
    proof (rule flush_result_seq)
      show "flush_result m cbb1 (Some ?fs2) (body cbb1)"
        using body [of cbb1 "xs @ [(k, c @ der_tag tag)]"] rel1 fs1 l by simp
      show "flush_result m cbb2 (flush_frames d fs2) (CBB_flush m d cbb2)"
        if "Some ?fs2 = Some fs2" "cbb_rel cbb2 fs2" for cbb2 fs2
        using CBB_flush_refines [OF m that(2), of d] that l by auto
    qed (auto simp: fl [OF l] render_append der_element_def der_header_def
        Suc_le_eq split: if_splits)
    with fl [OF l] g [OF l] fs1
    show "flush_result m cbb1 (g fs1) (op_then body (CBB_flush m d) cbb1)" by simp
  next
    fix fs1 fs2 assume "open_asn1 d tag fs = Some fs1" and "g fs1 = Some fs2"
    then show "length (render fs1) \<le> length (render fs2)"
      by (auto simp: open_asn1_def g render_append der_element_def der_header_def Suc_le_eq
          elim!: flush_frames_shape split: if_splits)
  qed
  moreover have "Option.bind (open_asn1 d tag fs) g = add_frames d ?r fs"
    by (cases "flush_frames d fs")
      (auto simp: open_asn1_def add_frames_def g nth_append elim!: flush_frames_shape)
  ultimately show ?thesis by simp
qed

section \<open>The typed writers\<close>

lemma CBB_add_asn1_octet_string_refines:
  assumes m: "malloc_law m" and "cbb_rel cbb fs" and "d < length fs" and "length data < 2 ^ 63"
  shows "flush_result m cbb
     (add_frames d (if length data \<le> 0xfffffffe then Some (der_element CBS_ASN1_OCTETSTRING data) else None) fs)
     (CBB_add_asn1_octet_string m d data cbb)"
  unfolding CBB_add_asn1_octet_string_def
proof (rule add_element_refines [OF assms(1-3)])
  fix cbb1 ys assume "cbb_rel cbb1 (ys @ [(Asn1, [])])" and "length ys = d + 1"
  then show "flush_result m cbb1 (Some (ys @ [(Asn1, data)])) (CBB_add_bytes m (d + 1) data cbb1)"
    using CBB_add_bytes_refines [OF m _ _ assms(4), of cbb1 "ys @ [(Asn1, [])]" "length ys"]
      add_frames_leaf [of ys data Asn1 "[]"] by simp
qed

lemma put_element_refines:
  assumes m: "malloc_law m" and "cbb_rel cbb fs" and "d < length fs" and "length bs \<le> 0xfffffffe"
  shows "flush_result m cbb (add_frames d (Some (der_element tag bs)) fs)
    (op_then (CBB_add_asn1 m d tag) (op_then (cbb_put m (d + 1) bs) (CBB_flush m d)) cbb)"
proof -
  have "flush_result m cbb (add_frames d (if length bs \<le> 0xfffffffe then Some (der_element tag bs) else None) fs)
    (op_then (CBB_add_asn1 m d tag) (op_then (cbb_put m (d + 1) bs) (CBB_flush m d)) cbb)"
    by (rule add_element_refines [OF assms(1-3)])
      (use cbb_put_refines [OF m, of _ _ Asn1 "[]"] in \<open>metis append_Nil\<close>)
  with assms(4) show ?thesis by simp
qed

lemma CBB_add_asn1_bool_refines:
  assumes "malloc_law m" and "cbb_rel cbb fs" and "d < length fs"
  shows "flush_result m cbb (add_frames d (Some (der_element CBS_ASN1_BOOLEAN [if b then 0xff else 0])) fs)
     (CBB_add_asn1_bool m d b cbb)"
  using put_element_refines [OF assms, of "[if b then 0xff else 0]"]
  by (simp only: CBB_add_asn1_bool_def cbb_put_single) simp

text \<open>The bytes of the unsigned integer loop.\<close>

fun uint64_bytes :: "bool \<Rightarrow> nat \<Rightarrow> nat \<Rightarrow> byte list" where
  "uint64_bytes started 0 v = (if \<not> started then [0] else [])"
| "uint64_bytes started (Suc n) v =
     (let b = word_of_nat (v div 256 ^ n) :: byte in
      if \<not> started then
        (if b = 0 then uint64_bytes False n v
         else (if 128 \<le> unat b then [0] else []) @ b # uint64_bytes True n v)
      else b # uint64_bytes True n v)"

lemma byte_of_u64: "(ucast (drop_bit (8 * n) v AND 0xff) :: byte) = word_of_nat (unat v div 256 ^ n)"
  for v :: u64
proof (rule word_unat_eq_iff [THEN iffD2])
  have "drop_bit (8 * n) v AND 0xff = take_bit 8 (drop_bit (8 * n) v)"
    by (simp add: take_bit_eq_mask mask_eq_exp_minus_1)
  then show "unat (ucast (drop_bit (8 * n) v AND 0xff) :: byte) = unat (word_of_nat (unat v div 256 ^ n) :: byte)"
    by (simp only: unat_ucast unat_take_bit unat_drop_bit unat_of_nat) (simp add: power_mult)
qed

lemma add_uint64_loop_eq: "add_uint64_loop m d v started n = cbb_put m d (uint64_bytes started n (unat v))"
proof (induction n arbitrary: started)
  case 0
  then show ?case by (cases started) (simp_all only: add_uint64_loop.simps uint64_bytes.simps
      cbb_put_single cbb_put.simps(1) simp_thms if_True if_False)
next
  case (Suc n)
  define b :: byte where "b = word_of_nat (unat v div 256 ^ n)"
  have h: "b AND 0x80 \<noteq> 0 \<longleftrightarrow> 128 \<le> unat b"
    using byte_and_0x80 [of b] by (simp add: not_less)
  have pad: "op_then (if 128 \<le> unat b then CBB_add_u8 m d 0 else op_ret ()) k =
      op_then (cbb_put m d (if 128 \<le> unat b then [0] else [])) k" for k :: "(cbb_st, unit) cop"
    by (simp only: cbb_put_single cbb_put.simps(1) split: if_split) simp
  show ?case
    unfolding add_uint64_loop.simps uint64_bytes.simps Let_def byte_of_u64 Suc
      b_def [symmetric] h pad cbb_put_append cbb_put.simps(2)
    by (simp only: cbb_put_append cbb_put.simps(2) split: if_split) blast
qed

lemma be_bytes_Cons: "be_bytes (Suc n) v = word_of_nat (v div 256 ^ n) # be_bytes n v"
proof (induction n arbitrary: v)
  case (Suc n)
  have "be_bytes (Suc (Suc n)) v = be_bytes (Suc n) (v div 256) @ [word_of_nat v]"
    by (rule be_bytes.simps)
  also have "be_bytes (Suc n) (v div 256) = word_of_nat (v div 256 div 256 ^ n) # be_bytes n (v div 256)"
    by (rule Suc)
  also have "v div 256 div 256 ^ n = v div 256 ^ Suc n"
    by (simp add: div_mult2_eq)
  finally show ?case by simp
qed simp

lemma uint64_bytes_True: "uint64_bytes True n v = be_bytes n v"
  by (induction n) (simp_all add: Let_def be_bytes_Cons del: be_bytes.simps(2))

lemma be_val_small: "v < 256 ^ n \<Longrightarrow> be_val (be_bytes n v) = v"
  by (simp add: be_val_be_bytes)

lemma uint64_bytes_minimal:
  assumes "v < 256 ^ n"
  shows "uint64_bytes False n v \<noteq> [] \<and> minimal_int (uint64_bytes False n v) \<and>
    unat (hd (uint64_bytes False n v)) < 128 \<and> be_val (uint64_bytes False n v) = v"
  using assms
proof (induction n)
  case 0
  then show ?case by (simp add: minimal_int_def be_val_Cons)
next
  case (Suc n)
  define q where "q = v div 256 ^ n"
  have q: "q < 256" using Suc.prems by (simp add: q_def less_mult_imp_div_less mult.commute)
  then have u: "unat (word_of_nat q :: byte) = q" by (rule unat_byte_of_nat)
  show ?case
  proof (cases "q = 0")
    case True
    then have "v < 256 ^ n" by (simp add: q_def div_eq_0_iff)
    with Suc.IH True show ?thesis by (simp add: q_def [symmetric] Let_def)
  next
    case False
    then have nz: "(word_of_nat q :: byte) \<noteq> 0" using u by auto
    let ?bs = "word_of_nat q # be_bytes n v :: byte list"
    have eq: "uint64_bytes False (Suc n) v = (if 128 \<le> q then [0] else []) @ ?bs"
      using nz u by (simp add: q_def [symmetric] Let_def uint64_bytes_True)
    have val: "be_val ?bs = v"
      using u div_mult_mod_eq [of v "256 ^ n"] by (simp add: be_val_Cons be_val_be_bytes flip: q_def)
    show ?thesis
      unfolding eq using val u nz False q by (auto simp: minimal_int_def be_val_Cons)
  qed
qed

lemma der_int_unsignedI:
  assumes "bs \<noteq> []" and "minimal_int bs" and "unat (hd bs) < 128" and "be_val bs = v"
  shows "bs = der_int (int v)"
proof -
  have "signed_val bs = int v"
    using assms(3,4) by (simp add: signed_val_def)
  with der_int_signed_val [OF assms(1,2)] show ?thesis by simp
qed

lemma add_uint64_der: "add_uint64_loop m d v False 8 = cbb_put m d (der_int (int (unat v)))"
proof -
  have "unat v < 256 ^ 8" using unsigned_less [of v, where ?'a = nat] by simp
  from uint64_bytes_minimal [OF this] have "uint64_bytes False 8 (unat v) = der_int (int (unat v))"
    by (intro der_int_unsignedI) auto
  then show ?thesis by (simp only: add_uint64_loop_eq)
qed

lemma length_der_int_u64: "length (der_int (int (unat v))) \<le> 9" for v :: u64
proof -
  have "int (unat v) < 2 ^ 64" using unsigned_less [of v, where ?'a = int] by simp
  then have "int (unat v) < 2 ^ (8 * 8 + 7)" by simp
  moreover have "- (2 ^ (8 * 8 + 7)) \<le> int (unat v)"
    by (rule order_trans [of _ 0]) (simp_all del: of_nat_unat)
  ultimately show ?thesis using length_der_int_le [of 8 "int (unat v)"] by linarith
qed

lemma CBB_add_asn1_uint64_refines:
  assumes "malloc_law m" and "cbb_rel cbb fs" and "d < length fs"
  shows "flush_result m cbb (add_frames d (Some (der_element CBS_ASN1_INTEGER (der_int (int (unat v))))) fs)
     (CBB_add_asn1_uint64 m d v cbb)"
  unfolding CBB_add_asn1_uint64_def add_uint64_der
  using length_der_int_u64 [of v] by (intro put_element_refines [OF assms]) linarith

text \<open>Negative integers: the sign-extension bytes above \<open>int64_start\<close> are skipped.\<close>

lemma le_byte_nat: "le_byte v i = word_of_nat (unat v div 256 ^ i)"
proof (rule word_unat_eq_iff [THEN iffD2])
  show "unat (le_byte v i) = unat (word_of_nat (unat v div 256 ^ i) :: byte)"
    by (simp only: le_byte_def unat_ucast unat_drop_bit unat_of_nat) (simp add: power_mult)
qed

lemma unat_le_byte: "unat (le_byte v i) = unat v div 256 ^ i mod 256"
  by (simp only: le_byte_nat unat_word_of_nat_byte)

lemma add_le_bytes_eq: "add_le_bytes m d v n = cbb_put m d (be_bytes n (unat v))"
  by (induction n) (simp_all add: be_bytes_Cons le_byte_nat del: be_bytes.simps(2))

lemma int64_start_props:
  assumes "unat v div 256 ^ (s + 1) + 1 = 256 ^ (7 - s)" and "128 \<le> unat (le_byte v s)" and "s \<le> 7"
  shows "int64_start v s \<le> 7 \<and> unat v div 256 ^ (int64_start v s + 1) + 1 = 256 ^ (7 - int64_start v s) \<and>
    128 \<le> unat (le_byte v (int64_start v s)) \<and>
    (\<forall>p. int64_start v s = Suc p \<longrightarrow> \<not> (le_byte v (Suc p) = 0xff \<and> 128 \<le> unat (le_byte v p)))"
  using assms
proof (induction s)
  case 0
  then show ?case by simp
next
  case (Suc s)
  have hi: "le_byte v s AND 0x80 \<noteq> 0 \<longleftrightarrow> 128 \<le> unat (le_byte v s)"
    using byte_and_0x80 [of "le_byte v s"] by (simp add: not_less)
  show ?case
  proof (cases "le_byte v (Suc s) = 0xff \<and> 128 \<le> unat (le_byte v s)")
    case True
    define q where "q = unat v div 256 ^ (s + 1)"
    have "unat (le_byte v (Suc s)) = 255" using True by simp
    then have r: "q mod 256 = 255" by (simp add: unat_le_byte q_def)
    have dq: "unat v div 256 ^ (Suc s + 1) = q div 256"
      by (simp only: q_def add_Suc power_Suc2 div_mult2_eq)
    have "q = q div 256 * 256 + 255" using r div_mult_mod_eq [of q 256] by simp
    then have "q + 1 = (q div 256 + 1) * 256" by simp
    also have "q div 256 + 1 = 256 ^ (7 - Suc s)" using Suc.prems(1) dq by simp
    also have "256 ^ (7 - Suc s) * 256 = (256 :: nat) ^ (7 - s)"
    proof -
      have "7 - s = Suc (7 - Suc s)" using Suc.prems(3) by simp
      then show ?thesis by (simp only: power_Suc2)
    qed
    finally have "unat v div 256 ^ (s + 1) + 1 = 256 ^ (7 - s)" by (simp only: q_def)
    from Suc.IH [OF this] True Suc.prems(3) show ?thesis by (simp add: hi)
  next
    case False
    then have "int64_start v (Suc s) = Suc s"
      by (simp only: int64_start.simps hi if_False)
    with Suc.prems False show ?thesis by simp
  qed
qed

lemma hd_be_bytes: "hd (be_bytes (Suc n) v) = word_of_nat (v div 256 ^ n)"
  by (simp add: be_bytes_Cons del: be_bytes.simps)

lemma uint_sint_u64: "int (unat v) = sint v mod 2 ^ 64" for v :: u64
proof -
  have "uint (word_of_int (sint v) :: u64) = sint v mod 2 ^ LENGTH(64)"
    by (rule uint_word_of_int)
  then show ?thesis by simp
qed

lemma int64_bytes_der:
  assumes neg: "sint v < 0"
  shows "be_bytes (int64_start v 7 + 1) (unat v) = der_int (sint v)"
proof -
  define s where "s = int64_start v 7"
  define u where "u = unat v"
  have uv: "int u = sint v + 2 ^ 64"
  proof -
    have "sint v mod 2 ^ 64 = (sint v + 2 ^ 64) mod 2 ^ 64" by simp
    also have "\<dots> = sint v + 2 ^ 64"
      using neg sint_u64_bounds [of v] by (intro mod_pos_pos_trivial) simp_all
    finally show ?thesis using uint_sint_u64 [of v] by (simp add: u_def)
  qed
  then have sv: "sint v = int u - 2 ^ 64 \<and> 2 ^ 63 \<le> u \<and> u < 2 ^ 64"
  proof -
    have "int (2 ^ 63) \<le> int u" and "int u < int (2 ^ 64)"
      using uv neg sint_u64_bounds [of v] by simp_all
    then show ?thesis using uv by (simp only: of_nat_le_iff of_nat_less_iff) simp
  qed
  have "u div 256 ^ (7 + 1) + 1 = 256 ^ (7 - 7)"
    using sv by simp
  moreover have "128 \<le> unat (le_byte v 7)"
  proof -
    have "128 \<le> u div 256 ^ 7" and "u div 256 ^ 7 < 256"
      using sv by (simp_all add: less_eq_div_iff_mult_less_eq less_mult_imp_div_less)
    then show ?thesis by (simp add: unat_le_byte flip: u_def)
  qed
  ultimately have p: "s \<le> 7" "u div 256 ^ (s + 1) + 1 = 256 ^ (7 - s)" "128 \<le> unat (le_byte v s)"
    "\<And>p. s = Suc p \<Longrightarrow> \<not> (le_byte v (Suc p) = 0xff \<and> 128 \<le> unat (le_byte v p))"
    using int64_start_props [of v 7] by (auto simp: s_def u_def)
  let ?bs = "be_bytes (s + 1) u"
  have len: "length ?bs = s + 1" by (rule length_be_bytes)
  have hd: "hd ?bs = le_byte v s"
    by (simp only: Suc_eq_plus1 [symmetric] hd_be_bytes le_byte_nat u_def)
  have "minimal_int ?bs"
  proof (cases s)
    case 0
    then show ?thesis by (simp add: minimal_int_def)
  next
    case (Suc p)
    have "?bs = le_byte v (Suc p) # le_byte v p # be_bytes p u"
      by (simp add: Suc be_bytes_Cons le_byte_nat u_def del: be_bytes.simps)
    moreover have "le_byte v (Suc p) \<noteq> 0"
      using p(3) Suc by auto
    ultimately show ?thesis using p(4) [OF Suc] by (simp add: minimal_int_def)
  qed
  moreover have "signed_val ?bs = sint v"
  proof -
    have "u = u div 256 ^ (s + 1) * 256 ^ (s + 1) + u mod 256 ^ (s + 1)"
      by (rule div_mult_mod_eq [symmetric])
    moreover have "(u div 256 ^ (s + 1) + 1) * 256 ^ (s + 1) = 2 ^ 64"
    proof -
      have "(256 :: nat) ^ (7 - s) * 256 ^ (s + 1) = 256 ^ 8"
        unfolding power_add [symmetric] using p(1) by simp
      then show ?thesis unfolding p(2) by simp
    qed
    ultimately have "u + 256 ^ (s + 1) = 2 ^ 64 + u mod 256 ^ (s + 1)"
      by (simp add: algebra_simps)
    then have "int (u + 256 ^ (s + 1)) = int (2 ^ 64 + u mod 256 ^ (s + 1))" by (rule arg_cong)
    then have e: "int (u mod 256 ^ (s + 1)) - 256 ^ (s + 1) = int u - 2 ^ 64" by simp
    have "signed_val ?bs = int (be_val ?bs) - 256 ^ length ?bs"
      unfolding signed_val_def hd using p(3) by simp
    also have "\<dots> = int (u mod 256 ^ (s + 1)) - 256 ^ (s + 1)"
      unfolding be_val_be_bytes len ..
    finally show ?thesis using e sv by simp
  qed
  moreover have "?bs \<noteq> []" using len by auto
  ultimately show ?thesis
    using der_int_signed_val [of ?bs] unfolding s_def u_def by metis
qed

lemma CBB_add_asn1_int64_refines:
  assumes "malloc_law m" and "cbb_rel cbb fs" and "d < length fs"
  shows "flush_result m cbb (add_frames d (Some (der_element CBS_ASN1_INTEGER (der_int (sint v)))) fs)
     (CBB_add_asn1_int64 m d v cbb)"
proof (cases "sint v \<ge> 0")
  case True
  then have "int (unat v) = sint v"
    using uint_sint_u64 [of v] sint_u64_bounds [of v] by simp
  with True CBB_add_asn1_uint64_refines [OF assms, of v] show ?thesis
    by (simp only: CBB_add_asn1_int64_def if_True)
next
  case False
  then have neg: "sint v < 0" by simp
  have "length (der_int (sint v)) \<le> 0xfffffffe"
    using length_der_int_le [of 7 "sint v"] sint_u64_bounds [of v] by simp
  from put_element_refines [OF assms this, of CBS_ASN1_INTEGER] False show ?thesis
    by (simp only: CBB_add_asn1_int64_def if_False add_le_bytes_eq int64_bytes_der [OF neg])
qed

section \<open>Properties\<close>

lemma length_small_element:
  "length bs \<le> 9 \<Longrightarrow> length (der_element CBS_ASN1_INTEGER bs) \<le> 11 \<and> length (der_element CBS_ASN1_BOOLEAN bs) \<le> 11"
  by (simp add: der_element_def der_header_def der_length_forms der_tag_def CBS_ASN1_INTEGER_def CBS_ASN1_BOOLEAN_def)

lemma init_add_finish:
  assumes m: "malloc_law m" and n: "n + 8 < 2 ^ 63" and i: "CBB_init m n = (Some (), cbb)"
    and g: "grants m (2 * length bs + 8)"
    and res: "\<And>fs. cbb_rel cbb fs \<Longrightarrow> 0 < length fs \<Longrightarrow> flush_result m cbb (add_frames 0 (Some bs) fs) (f cbb)"
  shows "\<exists>u cbb'. f cbb = (Some u, cbb') \<and> CBB_finish m cbb' = (Some bs, CBB_cleanup cbb')"
  using add_then_finish [of m cbb bs "[]" f] res [OF CBB_init_refines [OF m n i]] CBB_init_resizable [OF i] g
  by simp

text \<open>C9: What the INTEGER and BOOLEAN writers put into a fresh builder, the readers return, in
  front of any other bytes.\<close>

theorem CBB_add_asn1_values_roundtrip:
  assumes "malloc_law m" and "grants m 64" and "n + 8 < 2 ^ 63" and "CBB_init m n = (Some (), cbb)"
  shows "(\<exists>cbb' out. CBB_add_asn1_uint64 m 0 v cbb = (Some (), cbb') \<and>
        CBB_finish m cbb' = (Some out, CBB_cleanup cbb') \<and> CBS_get_asn1_uint64 (out @ s) = (Some v, s)) \<and>
    (\<exists>cbb' out. CBB_add_asn1_int64 m 0 v cbb = (Some (), cbb') \<and>
        CBB_finish m cbb' = (Some out, CBB_cleanup cbb') \<and> CBS_get_asn1_int64 (out @ s) = (Some v, s)) \<and>
    (\<exists>cbb' out. CBB_add_asn1_bool m 0 b cbb = (Some (), cbb') \<and>
        CBB_finish m cbb' = (Some out, CBB_cleanup cbb') \<and> CBS_get_asn1_bool (out @ s) = (Some b, s))"
proof (intro conjI)
  have fin: "\<exists>cbb'. f cbb = (Some (), cbb') \<and> CBB_finish m cbb' = (Some out, CBB_cleanup cbb')"
    if "length out \<le> 11"
      and "\<And>fs. cbb_rel cbb fs \<Longrightarrow> 0 < length fs \<Longrightarrow> flush_result m cbb (add_frames 0 (Some out) fs) (f cbb)"
    for f :: "(cbb_st, unit) cop" and out
  proof -
    have "grants m (2 * length out + 8)" using assms(2) that(1) by (simp add: grants_def)
    from init_add_finish [where f = f, OF assms(1,3,4) this that(2)] show ?thesis by simp
  qed
  have "- (2 ^ 71) \<le> uint v" by (rule order_trans [of _ 0]) simp_all
  then have u: "length (der_int (int (unat v))) \<le> 9"
    using length_der_int_le [of 8 "int (unat v)"] uint_lt2p [of v] by simp
  have i: "length (der_int (sint v)) \<le> 9"
    using length_der_int_le [of 7 "sint v"] sint_u64_bounds [of v] by simp
  show "\<exists>cbb' out. CBB_add_asn1_uint64 m 0 v cbb = (Some (), cbb') \<and>
      CBB_finish m cbb' = (Some out, CBB_cleanup cbb') \<and> CBS_get_asn1_uint64 (out @ s) = (Some v, s)"
    using fin [of "der_element CBS_ASN1_INTEGER (der_int (int (unat v)))" "CBB_add_asn1_uint64 m 0 v"] length_small_element [OF u]
      CBB_add_asn1_uint64_refines [OF assms(1), of cbb _ 0] CBS_get_asn1_uint64_iff by blast
  show "\<exists>cbb' out. CBB_add_asn1_int64 m 0 v cbb = (Some (), cbb') \<and>
      CBB_finish m cbb' = (Some out, CBB_cleanup cbb') \<and> CBS_get_asn1_int64 (out @ s) = (Some v, s)"
    using fin [of "der_element CBS_ASN1_INTEGER (der_int (sint v))" "CBB_add_asn1_int64 m 0 v"] length_small_element [OF i]
      CBB_add_asn1_int64_refines [OF assms(1), of cbb _ 0] CBS_get_asn1_int64_iff by blast
  have b: "length [if b then 0xff else 0 :: byte] \<le> 9" by simp
  show "\<exists>cbb' out. CBB_add_asn1_bool m 0 b cbb = (Some (), cbb') \<and>
      CBB_finish m cbb' = (Some out, CBB_cleanup cbb') \<and> CBS_get_asn1_bool (out @ s) = (Some b, s)"
    using fin [of "der_element CBS_ASN1_BOOLEAN [if b then 0xff else 0]" "CBB_add_asn1_bool m 0 b"] length_small_element [OF b]
      CBB_add_asn1_bool_refines [OF assms(1), of cbb _ 0] CBS_get_asn1_bool_iff by blast
qed

theorem CBB_add_asn1_values_roundtrip_witness:
  "\<exists>cbb' out. CBB_add_asn1_int64 generous 0 (- 129) (snd (CBB_init generous 16)) = (Some (), cbb') \<and>
      CBB_finish generous cbb' = (Some out, CBB_cleanup cbb') \<and> CBS_get_asn1_int64 (out @ [9]) = (Some (- 129), [9])"
proof -
  have "CBB_init generous 16 = (Some (), snd (CBB_init generous 16))"
    by (simp add: CBB_init_def cbb_init_def OPENSSL_malloc_def generous_def size_add_def)
  from CBB_add_asn1_values_roundtrip [OF generous_laws(1) _ _ this, of "- 129" "[9]"] show ?thesis by simp
qed

end
