(* ===== verification/Oid.thy ===== *)
theory Oid
  imports CbbAsn1
begin

text \<open>
  Object identifiers: the dotted text and the DER contents of a list of components, and the
  proofs that \<open>CBB_add_asn1_oid_from_text\<close> and \<open>CBS_asn1_oid_to_text\<close> convert between them.
\<close>

section \<open>Text and contents of an identifier\<close>

fun dotted :: "nat list \<Rightarrow> byte list" where
  "dotted [] = []"
| "dotted [c] = decimal c"
| "dotted (c # cs) = decimal c @ 0x2e # dotted cs"

definition oid_ok :: "nat list \<Rightarrow> bool" where
  "oid_ok cs \<longleftrightarrow>
     (case cs of
        a # b # rest \<Rightarrow> a \<le> 2 \<and> (a < 2 \<longrightarrow> b \<le> 39) \<and> b + 80 < 2 ^ 64 \<and> (\<forall>c \<in> set rest. c < 2 ^ 64)
      | _ \<Rightarrow> False)"

definition oid_contents :: "nat list \<Rightarrow> byte list" where
  "oid_contents cs =
     (case cs of a # b # rest \<Rightarrow> base128 (40 * a + b) @ concat (map base128 rest) | _ \<Rightarrow> [])"

section \<open>Decimal numbers\<close>

lemma decimal_small: "n < 10 \<Longrightarrow> decimal n = [word_of_nat (48 + n)]"
  by (simp add: decimal.simps)

lemma decimal_step: "0 < n \<Longrightarrow> d < 10 \<Longrightarrow> decimal (n * 10 + d) = decimal n @ [word_of_nat (48 + d)]"
  by (subst decimal.simps) auto

lemma decimal_nonempty [simp]: "decimal n \<noteq> []"
  by (subst decimal.simps) auto

lemma length_decimal: "n < 10 ^ Suc k \<Longrightarrow> length (decimal n) \<le> Suc k"
proof (induction k arbitrary: n)
  case 0
  then show ?case by (simp add: decimal_small)
next
  case (Suc k)
  show ?case
  proof (cases "n < 10")
    case False
    have "n div 10 < 10 ^ Suc k" using Suc.prems by (simp add: less_mult_imp_div_less mult.commute)
    from Suc.IH [OF this] False show ?thesis by (subst decimal.simps) simp
  qed (simp add: decimal_small)
qed

lemma length_decimal_u64: "n < 2 ^ 64 \<Longrightarrow> length (decimal n) \<le> 20"
  using length_decimal [of n 19] by simp

section \<open>\<open>parse_dotted_decimal\<close>\<close>

definition ends_component :: "byte list \<Rightarrow> byte list \<Rightarrow> bool" where
  "ends_component t s' \<longleftrightarrow> t = [] \<and> s' = [] \<or> t = 0x2e # s' \<and> s' \<noteq> []"

definition is_digit :: "byte \<Rightarrow> bool" where
  "is_digit u \<longleftrightarrow> 48 \<le> unat u \<and> unat u \<le> 57"

lemma digit_not_dot: "is_digit u \<Longrightarrow> u \<noteq> 0x2e"
  by (auto simp: is_digit_def)

lemma not_digit_iff: "(u < 0x30 \<or> u > 0x39) \<longleftrightarrow> \<not> is_digit u"
  by (auto simp: is_digit_def word_less_nat_alt)

lemma digit_value: "is_digit u \<Longrightarrow> unat (ucast (u - 0x30) :: u64) = unat u - 48"
proof -
  assume u: "is_digit u"
  then have "unat (u - 0x30) = unat u - 48"
    by (subst unat_sub) (auto simp: is_digit_def word_le_nat_alt)
  then show ?thesis
    using unat_ucast_up [of "u - 0x30", where ?'b = 64] by simp
qed

lemma digit_word: "is_digit u \<Longrightarrow> (ucast (u - 0x30) :: u64) = word_of_nat (unat u - 48)"
  by (simp only: digit_value [symmetric] of_nat_unat) simp

lemma digit_char: "is_digit u \<Longrightarrow> word_of_nat (48 + (unat u - 48)) = u"
  by (auto simp: is_digit_def)

lemma unat_minus_1_u64: "unat (- 1 :: u64) = 2 ^ 64 - 1"
  using unsigned_minus_1_eq_mask [where ?'a = nat and ?'b = 64]
  by (simp add: mask_eq_exp_minus_1)

text \<open>The overflow test of the loop is exact.\<close>

lemma dotted_overflow_iff:
  fixes out d :: u64
  assumes d: "unat d < 10"
  shows "out > (- 1) div 10 \<or> out * 10 > (- 1) - d \<longleftrightarrow> 2 ^ 64 \<le> unat out * 10 + unat d"
proof -
  note m1 = unat_minus_1_u64
  have q: "unat ((- 1 :: u64) div 10) = (2 ^ 64 - 1) div 10"
    by (subst unat_div) (simp only: m1, simp)
  have s: "unat ((- 1 :: u64) - d) = 2 ^ 64 - 1 - unat d"
    using d by (subst unat_sub) (simp_all add: m1 word_le_nat_alt)
  show ?thesis
  proof (cases "unat out \<le> (2 ^ 64 - 1) div 10")
    case True
    then have "unat out * 10 < 2 ^ 64" by simp
    then have t: "unat (out * 10) = unat out * 10"
      by (subst unat_mult_lem [THEN iffD1]) simp_all
    have "out > (- 1) div 10 \<longleftrightarrow> False"
      using True unfolding word_less_nat_alt q by simp
    moreover have "out * 10 > (- 1) - d \<longleftrightarrow> 2 ^ 64 - 1 - unat d < unat out * 10"
      unfolding word_less_nat_alt s t ..
    ultimately show ?thesis using d by auto
  next
    case False
    then have "out > (- 1) div 10" unfolding word_less_nat_alt q by simp
    with False show ?thesis by auto
  qed
qed

lemma unat_digit_step:
  fixes out d :: u64
  assumes "unat out * 10 + unat d < 2 ^ 64"
  shows "unat (out * 10 + d) = unat out * 10 + unat d"
proof -
  have "out * 10 + d = word_of_nat (unat out * 10 + unat d)" by simp
  with assms show ?thesis by (simp only: unat_of_nat) simp
qed

text \<open>One digit of the loop.\<close>

lemma parse_dotted_step:
  assumes u: "is_digit u"
  shows "parse_dotted_loop out seen (u # s) =
    (if (seen \<and> out = 0) \<or> 2 ^ 64 \<le> unat out * 10 + (unat u - 48) then (None, s)
     else parse_dotted_loop (out * 10 + ucast (u - 0x30)) True s)"
proof -
  let ?d = "ucast (u - 0x30) :: u64"
  have d: "unat ?d = unat u - 48" using digit_value [OF u] .
  have "unat ?d < 10" using u d by (auto simp: is_digit_def)
  from dotted_overflow_iff [OF this, of out]
  have ov: "(out > (- 1) div 10 \<or> out * 10 > (- 1) - ?d) \<longleftrightarrow> 2 ^ 64 \<le> unat out * 10 + (unat u - 48)"
    by (simp only: d)
  have nd: "\<not> (u < 0x30 \<or> u > 0x39)" using u not_digit_iff by blast
  have "parse_dotted_loop out seen (u # s) =
    (if (u < 0x30 \<or> u > 0x39) \<or> (seen \<and> out = 0) \<or> (out > (- 1) div 10 \<or> out * 10 > (- 1) - ?d)
     then (None, s) else parse_dotted_loop (out * 10 + ?d) True s)"
    using digit_not_dot [OF u] by (simp only: parse_dotted_loop.simps disj_assoc) simp
  then show ?thesis using nd unfolding ov by simp
qed

lemma parse_dotted_end:
  "ends_component t s' \<Longrightarrow> parse_dotted_loop out seen t = (if seen then Some out else None, s')"
  by (auto simp: ends_component_def CBS_len_def)

lemma parse_dotted_sound:
  assumes "parse_dotted_loop out seen s = (Some v, s')"
    and "if seen then p = decimal (unat out) else p = [] \<and> out = 0"
  shows "\<exists>t. p @ s = decimal (unat v) @ t \<and> ends_component t s'"
  using assms
proof (induction s arbitrary: out seen p)
  case Nil
  then show ?case by (auto simp: ends_component_def split: if_splits)
next
  case (Cons u s)
  show ?case
  proof (cases "u = 0x2e \<and> CBS_len s > 0")
    case True
    with Cons.prems show ?thesis by (auto simp: ends_component_def CBS_len_def split: if_splits)
  next
    case False
    have u: "is_digit u"
      using Cons.prems(1) False not_digit_iff [of u] by (auto split: if_splits)
    from Cons.prems(1) have ok: "\<not> (seen \<and> out = 0)" "unat out * 10 + (unat u - 48) < 2 ^ 64"
      and rec: "parse_dotted_loop (out * 10 + ucast (u - 0x30)) True s = (Some v, s')"
      by (auto simp: parse_dotted_step [OF u] simp del: parse_dotted_loop.simps split: if_splits)
    have val: "unat (out * 10 + ucast (u - 0x30)) = unat out * 10 + (unat u - 48)"
      using unat_digit_step [of out "ucast (u - 0x30)"] ok(2) unfolding digit_value [OF u] by simp
    have "p @ [u] = decimal (unat (out * 10 + ucast (u - 0x30)))"
    proof (cases seen)
      case True
      with ok(1) have "0 < unat out" by (simp add: unat_gt_0)
      moreover have "unat u - 48 < 10" using u by (auto simp: is_digit_def)
      ultimately show ?thesis
        unfolding val using decimal_step digit_char [OF u] Cons.prems(2) True by simp
    next
      case False
      with Cons.prems(2) have "p = []" "unat out = 0" by simp_all
      moreover have "unat u - 48 < 10" using u by (auto simp: is_digit_def)
      ultimately show ?thesis
        unfolding val using decimal_small [of "unat u - 48"] digit_char [OF u] by simp
    qed
    then have "(if True then p @ [u] = decimal (unat (out * 10 + ucast (u - 0x30))) else p @ [u] = [] \<and> out = 0)"
      by simp
    then obtain t where "(p @ [u]) @ s = decimal (unat v) @ t" "ends_component t s'"
      using Cons.IH [OF rec, of "p @ [u]"] by auto
    then show ?thesis by auto
  qed
qed

lemma parse_dotted_decimal_digits:
  assumes "n < 2 ^ 64"
  shows "parse_dotted_loop 0 False (decimal n @ s) = parse_dotted_loop (word_of_nat n) True s"
  using assms
proof (induction n arbitrary: s rule: decimal.induct)
  case (1 n)
  define u :: byte where "u = word_of_nat (48 + n mod 10)"
  have "48 + n mod 10 < 256" by (rule less_trans [of _ 60]) simp_all
  then have uu: "unat u = 48 + n mod 10" unfolding u_def by (rule unat_byte_of_nat)
  then have u: "is_digit u" by (simp add: is_digit_def)
  show ?case
  proof (cases "n < 10")
    case True
    then have "word_of_nat n = (0 * 10 + ucast (u - 0x30) :: u64)"
      using digit_word [OF u] uu by simp
    moreover have "decimal n = [u]" using True by (simp add: decimal_small u_def)
    ultimately show ?thesis
      using parse_dotted_step [OF u, of 0 False s] uu True by (simp del: parse_dotted_loop.simps)
  next
    case False
    define q where "q = n div 10"
    have q: "q < 2 ^ 64" "0 < q" "q * 10 + n mod 10 = n"
      using "1.prems" False by (simp_all add: q_def less_mult_imp_div_less)
    have dn: "decimal n @ s = decimal q @ u # s"
      using False by (subst decimal.simps) (simp add: u_def q_def)
    have uq: "unat (word_of_nat q :: u64) = q" using q(1) by (simp only: be_val_of_small)
    have nz: "(word_of_nat q :: u64) \<noteq> 0" using uq q(2) by auto
    have v: "word_of_nat q * 10 + ucast (u - 0x30) = (word_of_nat n :: u64)"
    proof -
      have "ucast (u - 0x30) = (word_of_nat (n mod 10) :: u64)"
        using digit_word [OF u] uu by simp
      then have "word_of_nat q * 10 + ucast (u - 0x30) = (word_of_nat (q * 10 + n mod 10) :: u64)"
        by (simp only: of_nat_add of_nat_mult) simp
      then show ?thesis by (simp only: q(3))
    qed
    have "parse_dotted_loop 0 False (decimal n @ s) = parse_dotted_loop (word_of_nat q) True (u # s)"
      unfolding dn using "1.IH" [OF False] q(1) by (simp only: q_def)
    also have "\<dots> = parse_dotted_loop (word_of_nat n) True s"
      using parse_dotted_step [OF u, of "word_of_nat q" True s] nz uq uu q(3) "1.prems"
      by (simp only: v) simp
    finally show ?thesis .
  qed
qed

lemma parse_dotted_decimal_iff:
  "parse_dotted_decimal s = (Some v, s') \<longleftrightarrow> (\<exists>t. s = decimal (unat v) @ t \<and> ends_component t s')"
proof
  assume "parse_dotted_decimal s = (Some v, s')"
  then show "\<exists>t. s = decimal (unat v) @ t \<and> ends_component t s'"
    using parse_dotted_sound [of 0 False s v s' "[]"] by (simp add: parse_dotted_decimal_def)
next
  assume "\<exists>t. s = decimal (unat v) @ t \<and> ends_component t s'"
  then obtain t where t: "s = decimal (unat v) @ t" "ends_component t s'" by blast
  have "unat v < 2 ^ 64" using unsigned_less [of v, where ?'a = nat] by simp
  from parse_dotted_decimal_digits [OF this, of t] t parse_dotted_end [OF t(2), of v True]
  show "parse_dotted_decimal s = (Some v, s')" by (simp add: parse_dotted_decimal_def)
qed

lemma dotted_Cons: "dotted (c # cs) = decimal c @ (if cs = [] then [] else 0x2e # dotted cs)"
  by (cases cs) simp_all

lemma dotted_eq_Nil_iff [simp]: "dotted cs = [] \<longleftrightarrow> cs = []"
  by (cases cs) (simp_all add: dotted_Cons)

lemma parse_dotted:
  assumes "c < 2 ^ 64"
  shows "parse_dotted_decimal (dotted (c # cs)) = (Some (word_of_nat c), dotted cs)"
proof -
  have "unat (word_of_nat c :: u64) = c" using assms by (rule be_val_of_small)
  then show ?thesis
    by (subst parse_dotted_decimal_iff) (auto simp: dotted_Cons ends_component_def)
qed

lemma parse_dottedD:
  assumes "parse_dotted_decimal s = (Some v, dotted cs)"
  shows "s = dotted (unat v # cs)"
  using assms by (auto simp: parse_dotted_decimal_iff ends_component_def dotted_Cons)

section \<open>From text\<close>

lemma add_oid_rest_dotted:
  "\<forall>c \<in> set cs. c < 2 ^ 64 \<Longrightarrow> add_oid_rest m d (dotted cs) = cbb_put m d (concat (map base128 cs))"
proof (induction cs)
  case Nil
  then show ?case by (simp add: add_oid_rest.simps CBS_len_def)
next
  case (Cons c cs)
  have c: "c < 2 ^ 64" using Cons.prems by simp
  have "0 < CBS_len (dotted (c # cs))" by (simp add: CBS_len_def dotted_Cons)
  moreover have "unat (word_of_nat c :: u64) = c" using c by (rule be_val_of_small)
  ultimately show ?case
    using Cons parse_dotted [OF c, of cs]
    by (subst add_oid_rest.simps) (simp add: add_base128_integer_eq cbb_put_append)
qed

lemma add_oid_rest_sound:
  "fst (add_oid_rest m d s cbb) = Some u \<Longrightarrow> \<exists>cs. s = dotted cs \<and> (\<forall>c \<in> set cs. c < 2 ^ 64)"
proof (induction m d s arbitrary: cbb rule: add_oid_rest.induct)
  case (1 m d s)
  show ?case
  proof (cases "s = []")
    case True
    then show ?thesis by (intro exI [of _ "[]"]) simp
  next
    case False
    obtain r s' where p: "parse_dotted_decimal s = (r, s')" by (cases "parse_dotted_decimal s")
    have len: "CBS_len s > 0" using False by (simp add: CBS_len_def)
    obtain v where v: "r = Some v"
      using "1.prems" p len by (cases r) (auto simp: add_oid_rest.simps [of m d s] op_simps)
    obtain cbb' where rest: "fst (add_oid_rest m d s' cbb') = Some u"
      using "1.prems" p len v
      by (auto simp: add_oid_rest.simps [of m d s] op_simps split: prod.splits option.splits)
    obtain cs where cs: "s' = dotted cs" "\<forall>c \<in> set cs. c < 2 ^ 64"
      using "1.IH" [OF len p [symmetric] v rest] by blast
    have "unat v < 2 ^ 64" using unsigned_less [of v, where ?'a = nat] by simp
    with parse_dottedD [of s v cs] p v cs show ?thesis
      by (intro exI [of _ "unat v # cs"]) auto
  qed
qed

text \<open>The first two components share a base-128 number.\<close>

lemma oid_first_unat:
  fixes a b :: u64
  assumes "unat a \<le> 2" and "unat b + 80 < 2 ^ 64"
  shows "unat (40 * a + b) = 40 * unat a + unat b"
proof -
  have "40 * a + b = word_of_nat (40 * unat a + unat b)" by simp
  moreover have "40 * unat a + unat b < 2 ^ 64" using assms by linarith
  ultimately show ?thesis by (simp only: unat_of_nat) simp
qed

lemma oid_first_guard:
  fixes a b :: u64
  shows "(a > 2 \<or> (a < 2 \<and> b > 39) \<or> b > (- 1) - 80) \<longleftrightarrow>
    \<not> (unat a \<le> 2 \<and> (unat a < 2 \<longrightarrow> unat b \<le> 39) \<and> unat b + 80 < 2 ^ 64)"
proof -
  have "unat ((- 1 :: u64) - 80) = 2 ^ 64 - 81"
    by (subst unat_sub) (simp_all add: word_le_nat_alt unat_minus_1_u64)
  then show ?thesis by (auto simp: word_less_nat_alt)
qed

lemma oid_from_text_eq:
  assumes "oid_ok cs"
  shows "CBB_add_asn1_oid_from_text m d (dotted cs) (length (dotted cs)) =
    op_then (CBB_flush m d) (cbb_put m d (oid_contents cs))"
proof -
  obtain a b rest where cs: "cs = a # b # rest" and ok: "a \<le> 2" "a < 2 \<longrightarrow> b \<le> 39" "b + 80 < 2 ^ 64"
    "\<forall>c \<in> set rest. c < 2 ^ 64"
    using assms by (auto simp: oid_ok_def split: list.splits)
  have lt: "a < 2 ^ 64" "b < 2 ^ 64" using ok by simp_all
  have u: "unat (word_of_nat a :: u64) = a" "unat (word_of_nat b :: u64) = b"
    using be_val_of_small [OF lt(1)] be_val_of_small [OF lt(2)] .
  have g: "\<not> ((word_of_nat a :: u64) > 2 \<or> ((word_of_nat a :: u64) < 2 \<and> (word_of_nat b :: u64) > 39) \<or>
      (word_of_nat b :: u64) > (- 1) - 80)"
    unfolding oid_first_guard u using ok by simp
  have f: "unat (40 * word_of_nat a + word_of_nat b :: u64) = 40 * a + b"
    using oid_first_unat [of "word_of_nat a" "word_of_nat b"] ok unfolding u by simp
  have "CBB_add_asn1_oid_from_text m d (dotted cs) (length (dotted cs)) =
    op_then (CBB_flush m d) (op_then (add_base128_integer m d (40 * word_of_nat a + word_of_nat b))
      (add_oid_rest m d (dotted rest)))"
    unfolding CBB_add_asn1_oid_from_text_def CBS_init_def take_all [OF order_refl] cs
      parse_dotted [OF lt(1)] prod.case option.case parse_dotted [OF lt(2)]
    using g by (simp only: if_False)
  also have "\<dots> = op_then (CBB_flush m d) (cbb_put m d (oid_contents cs))"
    unfolding add_base128_integer_eq f add_oid_rest_dotted [OF ok(4)]
    by (simp add: oid_contents_def cs cbb_put_append)
  finally show ?thesis .
qed

lemma CBB_add_asn1_oid_from_text_refines:
  assumes "malloc_law m" and "cbb_rel cbb fs" and "d < length fs" and "oid_ok cs"
  shows "flush_result m cbb (add_frames d (Some (oid_contents cs)) fs)
    (CBB_add_asn1_oid_from_text m d (dotted cs) (length (dotted cs)) cbb)"
  unfolding oid_from_text_eq [OF assms(4)] using assms(1-3) by (rule cbb_put_frames)

lemma CBB_add_asn1_oid_from_text_sound:
  assumes "fst (CBB_add_asn1_oid_from_text m d s (length s) cbb) = Some u"
  shows "\<exists>cs. oid_ok cs \<and> s = dotted cs"
proof -
  obtain r1 s1 where p1: "parse_dotted_decimal s = (r1, s1)" by (cases "parse_dotted_decimal s")
  obtain r2 s2 where p2: "parse_dotted_decimal s1 = (r2, s2)" by (cases "parse_dotted_decimal s1")
  note df = CBB_add_asn1_oid_from_text_def CBS_init_def take_all [OF order_refl] p1 prod.case
  obtain a where a: "r1 = Some a"
    using assms unfolding df by (cases r1) (auto simp: op_simps split: prod.splits option.splits)
  obtain b where b: "r2 = Some b"
    using assms unfolding df a option.case p2
    by (cases r2) (auto simp: op_simps split: prod.splits option.splits)
  have g: "\<not> (a > 2 \<or> (a < 2 \<and> b > 39) \<or> b > (- 1) - 80)"
    using assms unfolding df a option.case p2 b prod.case
    by (auto simp: op_simps split: prod.splits option.splits if_splits)
  obtain cbb' u' where "fst (add_oid_rest m d s2 cbb') = Some u'"
    using assms g unfolding df a option.case p2 b prod.case if_not_P [OF g]
    by (auto simp: op_simps split: prod.splits option.splits)
  then obtain cs where cs: "s2 = dotted cs" "\<forall>c \<in> set cs. c < 2 ^ 64"
    using add_oid_rest_sound by blast
  have "s1 = dotted (unat b # cs)" using p2 b cs(1) by (intro parse_dottedD) simp
  then have "s = dotted (unat a # unat b # cs)" using p1 a by (intro parse_dottedD) simp
  moreover have "oid_ok (unat a # unat b # cs)"
    using g cs(2) unfolding oid_first_guard by (auto simp: oid_ok_def)
  ultimately show ?thesis by blast
qed

section \<open>To text\<close>

text \<open>Steps on a builder without open children.\<close>

lemma add_decimal_refines:
  assumes "malloc_law m" and "cbb_rel cbb [(Top, c)]"
  shows "flush_result m cbb (Some [(Top, c @ decimal (unat v))]) (add_decimal m v cbb)"
proof -
  have "unat v < 2 ^ 64" using unsigned_less [of v, where ?'a = nat] by simp
  then have "length (decimal (unat v)) < 2 ^ 63" using length_decimal_u64 [of "unat v"] by simp
  from CBB_add_bytes_refines [OF assms _ this, of 0] show ?thesis
    using add_frames_leaf [of "[]" "decimal (unat v)" Top c] by (simp add: add_decimal_def)
qed

lemma add_char_refines:
  assumes "malloc_law m" and "cbb_rel cbb [(Top, c)]"
  shows "flush_result m cbb (Some [(Top, c @ [b])]) (CBB_add_u8 m 0 b cbb)"
  using CBB_add_u8_refines [OF assms, of 0 b] add_frames_leaf [of "[]" "[b]" Top c] by simp

lemma seq_top:
  assumes "flush_result m cbb (Some [(Top, c)]) (f cbb)"
    and "\<And>cbb1. cbb_rel cbb1 [(Top, c)] \<Longrightarrow> flush_result m cbb1 (Some [(Top, c @ e)]) (body cbb1)"
  shows "flush_result m cbb (Some [(Top, c @ e)]) (op_then f body cbb)"
proof -
  have "flush_result m cbb (Option.bind (Some [(Top, c)]) (\<lambda>_. Some [(Top, c @ e)])) (op_then f body cbb)"
    by (rule flush_result_seq) (use assms in auto)
  then show ?thesis by simp
qed

definition dotted_rest :: "nat list \<Rightarrow> byte list" where
  "dotted_rest cs = concat (map (\<lambda>c. 0x2e # decimal c) cs)"

lemma dotted_Cons_rest: "dotted (c # cs) = decimal c @ dotted_rest cs"
  by (induction cs arbitrary: c) (simp_all add: dotted_rest_def)

lemma base128_nonempty [simp]: "base128 v \<noteq> []"
  by (simp add: base128_def)

lemma parse_base128:
  assumes "c < 2 ^ 64"
  shows "parse_base128_integer (base128 c @ s) = (Some (word_of_nat c), s)"
  using be_val_of_small [OF assms] by (simp add: parse_base128_integer_iff)

lemma oid_text_rest_refines:
  assumes m: "malloc_law m"
  shows "\<forall>c \<in> set cs. c < 2 ^ 64 \<Longrightarrow> cbb_rel cbb [(Top, b)] \<Longrightarrow>
    flush_result m cbb (Some [(Top, b @ dotted_rest cs)]) (oid_text_rest m (concat (map base128 cs)) cbb)"
proof (induction cs arbitrary: b cbb)
  case Nil
  then show ?case
    using flush_result_ret [of cbb "[(Top, b)]" m]
    by (simp add: dotted_rest_def oid_text_rest.simps CBS_len_def)
next
  case (Cons c cs)
  let ?s = "concat (map base128 cs)"
  have c: "c < 2 ^ 64" using Cons.prems by simp
  have "CBS_len (base128 c @ ?s) \<noteq> 0" by (simp add: CBS_len_def)
  then have eq: "oid_text_rest m (concat (map base128 (c # cs))) =
      op_then (CBB_add_u8 m 0 0x2e) (op_then (add_decimal m (word_of_nat c)) (oid_text_rest m ?s))"
    by (subst oid_text_rest.simps) (simp add: parse_base128 [OF c])
  have "flush_result m cbb (Some [(Top, (b @ [0x2e]) @ (decimal c @ dotted_rest cs))])
      (op_then (CBB_add_u8 m 0 0x2e) (op_then (add_decimal m (word_of_nat c)) (oid_text_rest m ?s)) cbb)"
  proof (rule seq_top)
    show "flush_result m cbb (Some [(Top, b @ [0x2e])]) (CBB_add_u8 m 0 0x2e cbb)"
      by (rule add_char_refines [OF m Cons.prems(2)])
  next
    fix cbb1 assume r1: "cbb_rel cbb1 [(Top, b @ [0x2e])]"
    have d: "flush_result m cbb1 (Some [(Top, (b @ [0x2e]) @ decimal c)]) (add_decimal m (word_of_nat c) cbb1)"
      using add_decimal_refines [OF m r1, of "word_of_nat c"] unfolding be_val_of_small [OF c] .
    have "flush_result m cbb1 (Some [(Top, ((b @ [0x2e]) @ decimal c) @ dotted_rest cs)])
        (op_then (add_decimal m (word_of_nat c)) (oid_text_rest m ?s) cbb1)"
    proof (rule seq_top)
      show "flush_result m cbb1 (Some [(Top, (b @ [0x2e]) @ decimal c)]) (add_decimal m (word_of_nat c) cbb1)"
        by (rule d)
      show "flush_result m cbb2 (Some [(Top, ((b @ [0x2e]) @ decimal c) @ dotted_rest cs)]) (oid_text_rest m ?s cbb2)"
        if "cbb_rel cbb2 [(Top, (b @ [0x2e]) @ decimal c)]" for cbb2
        using Cons.prems(1) by (intro Cons.IH that) simp
    qed
    then show "flush_result m cbb1 (Some [(Top, (b @ [0x2e]) @ (decimal c @ dotted_rest cs))])
        (op_then (add_decimal m (word_of_nat c)) (oid_text_rest m ?s) cbb1)"
      by simp
  qed
  then show ?case unfolding eq by (simp add: dotted_rest_def)
qed

lemma oid_text_rest_sound:
  "fst (oid_text_rest m s cbb) = Some u \<Longrightarrow> \<exists>cs. s = concat (map base128 cs) \<and> (\<forall>c \<in> set cs. c < 2 ^ 64)"
proof (induction m s arbitrary: cbb rule: oid_text_rest.induct)
  case (1 m s)
  show ?case
  proof (cases "s = []")
    case True
    then show ?thesis by (intro exI [of _ "[]"]) simp
  next
    case False
    obtain r s' where p: "parse_base128_integer s = (r, s')" by (cases "parse_base128_integer s")
    have len: "CBS_len s \<noteq> 0" using False by (simp add: CBS_len_def)
    obtain v where v: "r = Some v"
      using "1.prems" p len by (cases r) (auto simp: oid_text_rest.simps [of m s] op_simps)
    obtain cbb' where rest: "fst (oid_text_rest m s' cbb') = Some u"
      using "1.prems" p len v
      by (auto simp: oid_text_rest.simps [of m s] op_simps split: prod.splits option.splits)
    obtain cs where cs: "s' = concat (map base128 cs)" "\<forall>c \<in> set cs. c < 2 ^ 64"
      using "1.IH" [OF len p [symmetric] v rest] by blast
    have "unat v < 2 ^ 64" using unsigned_less [of v, where ?'a = nat] by simp
    moreover have "s = base128 (unat v) @ s'" using p v by (simp add: parse_base128_integer_iff)
    ultimately show ?thesis
      using cs by (intro exI [of _ "unat v # cs"]) auto
  qed
qed

text \<open>The text of the first number: two components.\<close>

definition first_text :: "mallocf \<Rightarrow> u64 \<Rightarrow> (cbb_st, unit) cop" where
  "first_text m v =
     (if v \<ge> 80 then op_then (CBB_add_bytes m 0 [0x32, 0x2e]) (add_decimal m (v - 80))
      else op_then (add_decimal m (v div 40)) (op_then (CBB_add_u8 m 0 0x2e) (add_decimal m (v mod 40))))"

definition first_components :: "nat \<Rightarrow> nat \<times> nat" where
  "first_components n = (if 80 \<le> n then (2, n - 80) else (n div 40, n mod 40))"

lemma first_text_refines:
  assumes m: "malloc_law m" and rel: "cbb_rel cbb [(Top, [])]" and f: "first_components (unat v) = (a, b)"
  shows "flush_result m cbb (Some [(Top, decimal a @ 0x2e # decimal b)]) (first_text m v cbb)"
proof (cases "v \<ge> 80")
  case True
  then have n: "80 \<le> unat v" by (simp add: word_le_nat_alt)
  with f have ab: "a = 2" "b = unat v - 80" by (auto simp: first_components_def)
  have sub: "unat (v - 80) = b" using True unfolding ab by (subst unat_sub) simp_all
  have "flush_result m cbb (Some [(Top, [0x32, 0x2e])]) (CBB_add_bytes m 0 [0x32, 0x2e] cbb)"
    using CBB_add_bytes_refines [OF m rel, of 0 "[0x32, 0x2e]"] add_frames_leaf [of "[]" "[0x32, 0x2e]" Top "[]"]
    by simp
  then have "flush_result m cbb (Some [(Top, [0x32, 0x2e] @ decimal (unat (v - 80)))])
      (op_then (CBB_add_bytes m 0 [0x32, 0x2e]) (add_decimal m (v - 80)) cbb)"
    by (rule seq_top) (rule add_decimal_refines [OF m])
  with True have "flush_result m cbb (Some [(Top, [0x32, 0x2e] @ decimal (unat (v - 80)))]) (first_text m v cbb)"
    by (simp add: first_text_def)
  then show ?thesis using decimal_small [of 2] unfolding sub ab by simp
next
  case False
  then have n: "\<not> 80 \<le> unat v" by (simp add: word_le_nat_alt)
  with f have ab: "a = unat v div 40" "b = unat v mod 40" by (auto simp: first_components_def)
  have u: "unat (v div 40) = a" "unat (v mod 40) = b"
    by (simp_all add: ab unat_div unat_mod)
  have d: "flush_result m cbb (Some [(Top, decimal a)]) (add_decimal m (v div 40) cbb)"
    using add_decimal_refines [OF m rel, of "v div 40"] unfolding u by simp
  have "flush_result m cbb (Some [(Top, decimal a @ ([0x2e] @ decimal b))])
     (op_then (add_decimal m (v div 40)) (op_then (CBB_add_u8 m 0 0x2e) (add_decimal m (v mod 40))) cbb)"
  proof (rule seq_top [of m cbb "decimal a" "add_decimal m (v div 40)", OF d])
    fix cbb1 assume "cbb_rel cbb1 [(Top, decimal a)]"
    then have "flush_result m cbb1 (Some [(Top, decimal a @ [0x2e])]) (CBB_add_u8 m 0 0x2e cbb1)"
      by (rule add_char_refines [OF m])
    then have "flush_result m cbb1 (Some [(Top, (decimal a @ [0x2e]) @ decimal (unat (v mod 40)))])
       (op_then (CBB_add_u8 m 0 0x2e) (add_decimal m (v mod 40)) cbb1)"
      by (rule seq_top) (rule add_decimal_refines [OF m])
    then show "flush_result m cbb1 (Some [(Top, decimal a @ ([0x2e] @ decimal b))])
       (op_then (CBB_add_u8 m 0 0x2e) (add_decimal m (v mod 40)) cbb1)"
      unfolding u by simp
  qed
  with False show ?thesis by (simp add: first_text_def)
qed

lemma first_components_ok:
  assumes "first_components n = (a, b)" and "n < 2 ^ 64"
  shows "a \<le> 2" and "a < 2 \<longrightarrow> b \<le> 39" and "b + 80 < 2 ^ 64" and "40 * a + b = n"
proof -
  have "n div 40 < 2" if "\<not> 80 \<le> n" using that by (simp add: div_less_iff_less_mult)
  moreover have "n mod 40 < 40" by simp
  ultimately show "a \<le> 2" and "a < 2 \<longrightarrow> b \<le> 39" and "b + 80 < 2 ^ 64" and "40 * a + b = n"
    using assms by (auto simp: first_components_def split: if_splits)
qed

lemma first_components_eq:
  "a \<le> 2 \<Longrightarrow> (a < 2 \<longrightarrow> b \<le> 39) \<Longrightarrow> first_components (40 * a + b) = (a, b)"
  by (auto simp: first_components_def le_Suc_eq numeral_2_eq_2)

lemma oid_to_text_alt:
  "CBS_asn1_oid_to_text m s =
     (case CBB_init m 32 of
        (None, _) \<Rightarrow> None
      | (Some _, cbb) \<Rightarrow>
          (case parse_base128_integer s of
             (None, _) \<Rightarrow> None
           | (Some v, copy) \<Rightarrow>
               fst (op_then (op_then (first_text m v) (op_then (oid_text_rest m copy) (CBB_add_u8 m 0 0)))
                 (CBB_finish m) cbb)))"
  unfolding CBS_asn1_oid_to_text_def first_text_def op_then_assoc ..

lemma oid_text_all_refines:
  assumes m: "malloc_law m" and rel: "cbb_rel cbb [(Top, [])]" and ab: "first_components (unat v) = (a, b)"
    and cs: "\<forall>c \<in> set cs. c < 2 ^ 64"
  shows "flush_result m cbb (Some [(Top, dotted (a # b # cs) @ [0])])
    (op_then (first_text m v) (op_then (oid_text_rest m (concat (map base128 cs))) (CBB_add_u8 m 0 0)) cbb)"
proof -
  let ?f = "decimal a @ 0x2e # decimal b"
  have "flush_result m cbb (Some [(Top, ?f @ (dotted_rest cs @ [0]))])
    (op_then (first_text m v) (op_then (oid_text_rest m (concat (map base128 cs))) (CBB_add_u8 m 0 0)) cbb)"
  proof (rule seq_top)
    show "flush_result m cbb (Some [(Top, ?f)]) (first_text m v cbb)"
      by (rule first_text_refines [OF m rel ab])
  next
    fix cbb1 assume "cbb_rel cbb1 [(Top, ?f)]"
    from oid_text_rest_refines [OF m cs this]
    have "flush_result m cbb1 (Some [(Top, (?f @ dotted_rest cs) @ [0])])
      (op_then (oid_text_rest m (concat (map base128 cs))) (CBB_add_u8 m 0 0) cbb1)"
      by (rule seq_top) (rule add_char_refines [OF m])
    then show "flush_result m cbb1 (Some [(Top, ?f @ (dotted_rest cs @ [0]))])
      (op_then (oid_text_rest m (concat (map base128 cs))) (CBB_add_u8 m 0 0) cbb1)"
      by simp
  qed
  moreover have "dotted (a # b # cs) = ?f @ dotted_rest cs"
    unfolding dotted_Cons_rest [of a] by (simp add: dotted_rest_def)
  ultimately show ?thesis by simp
qed

lemma CBS_asn1_oid_to_text_sound:
  assumes m: "malloc_law m" and r: "CBS_asn1_oid_to_text m s = Some txt"
  shows "\<exists>cs. oid_ok cs \<and> s = oid_contents cs \<and> txt = dotted cs @ [0]"
proof -
  obtain cbb where i: "CBB_init m 32 = (Some (), cbb)"
    using r by (auto simp: oid_to_text_alt split: prod.splits option.splits)
  obtain v copy where p: "parse_base128_integer s = (Some v, copy)"
    using r i by (auto simp: oid_to_text_alt split: prod.splits option.splits)
  let ?body = "op_then (first_text m v) (op_then (oid_text_rest m copy) (CBB_add_u8 m 0 0))"
  obtain cbb1 where b: "?body cbb = (Some (), cbb1)" and fin: "fst (CBB_finish m cbb1) = Some txt"
    using r i p by (auto simp: oid_to_text_alt op_then_apply [of ?body] split: prod.splits option.splits)
  have rel: "cbb_rel cbb [(Top, [])]" by (rule CBB_init_refines [OF m _ i]) simp
  obtain cbb2 cbb3 where "oid_text_rest m copy cbb2 = (Some (), cbb3)"
    using b by (auto simp: op_simps split: prod.splits option.splits)
  then have "fst (oid_text_rest m copy cbb2) = Some ()" by simp
  then obtain cs where cs: "copy = concat (map base128 cs)" "\<forall>c \<in> set cs. c < 2 ^ 64"
    using oid_text_rest_sound by blast
  obtain x y where xy: "first_components (unat v) = (x, y)" by (cases "first_components (unat v)")
  have "unat v < 2 ^ 64" using unsigned_less [of v, where ?'a = nat] by simp
  note ok = first_components_ok [OF xy this]
  have "flush_result m cbb (Some [(Top, dotted (x # y # cs) @ [0])]) (Some (), cbb1)"
    using oid_text_all_refines [OF m rel xy cs(2)] b cs(1) by simp
  then have "cbb_rel cbb1 [(Top, dotted (x # y # cs) @ [0])]" by (rule flush_result_SomeD)
  from CBB_finish_leaf [OF this, of m] fin have "txt = dotted (x # y # cs) @ [0]" by simp
  moreover have "s = oid_contents (x # y # cs)"
    using p cs(1) ok(4) by (simp add: oid_contents_def parse_base128_integer_iff)
  moreover have "oid_ok (x # y # cs)" using ok cs(2) by (simp add: oid_ok_def)
  ultimately show ?thesis by blast
qed

lemma CBS_asn1_oid_to_text_complete:
  assumes m: "malloc_law m" and ok: "oid_ok cs" and g: "grants m (2 * length (dotted cs) + 40)"
  shows "CBS_asn1_oid_to_text m (oid_contents cs) = Some (dotted cs @ [0])"
proof -
  obtain a b rest where cs: "cs = a # b # rest" and o: "a \<le> 2" "a < 2 \<longrightarrow> b \<le> 39" "b + 80 < 2 ^ 64"
    "\<forall>c \<in> set rest. c < 2 ^ 64"
    using ok by (auto simp: oid_ok_def split: list.splits)
  have n: "40 * a + b < 2 ^ 64" using o(1,3) by linarith
  define v :: u64 where "v = word_of_nat (40 * a + b)"
  have uv: "unat v = 40 * a + b" unfolding v_def by (rule be_val_of_small [OF n])
  have fc: "first_components (unat v) = (a, b)" unfolding uv by (rule first_components_eq [OF o(1,2)])
  have g40: "grants m 40" using g by (simp add: grants_def)
  obtain cbb where i: "CBB_init m 32 = (Some (), cbb)" and rel: "cbb_rel cbb [(Top, [])]" and rs: "resizable cbb"
    using CBB_init_granted [OF m, of 32] g40 by auto
  have p: "parse_base128_integer (oid_contents cs) = (Some v, concat (map base128 rest))"
    using parse_base128 [OF n] by (simp add: oid_contents_def cs v_def)
  let ?body = "op_then (first_text m v) (op_then (oid_text_rest m (concat (map base128 rest))) (CBB_add_u8 m 0 0))"
  obtain r cbb1 where b: "?body cbb = (r, cbb1)" by (cases "?body cbb")
  have "flush_result m cbb (Some [(Top, dotted cs @ [0])]) (r, cbb1)"
    using oid_text_all_refines [OF m rel fc o(4)] b cs by simp
  moreover have "grants m (2 * length (render [(Top, dotted cs @ [0])]) + 8)"
    using g by (simp add: grants_def)
  ultimately obtain u where "r = Some u" "cbb_rel cbb1 [(Top, dotted cs @ [0])]"
    using flush_result_granted [OF _ rs] by blast
  with CBB_finish_leaf [of cbb1 "dotted cs @ [0]" m] i p b show ?thesis
    by (simp add: oid_to_text_alt op_then_apply [of ?body])
qed

section \<open>Properties\<close>

lemma length_base128_le: "n < 128 ^ Suc k \<Longrightarrow> length (base128 n) \<le> Suc k"
proof (induction k arbitrary: n)
  case 0
  then show ?case by (simp add: base128_def)
next
  case (Suc k)
  show ?case
  proof (cases "n div 128 = 0")
    case True
    then show ?thesis by (simp add: base128_def)
  next
    case False
    have "n div 128 < 128 ^ Suc k" using Suc.prems by (simp add: less_mult_imp_div_less)
    then have "length (base128 (n div 128)) \<le> Suc k" by (rule Suc.IH)
    moreover have "length (base128_cont (n div 128)) = length (base128 (n div 128))"
      using False by (simp add: base128_def base128_cont_pos)
    ultimately show ?thesis by (simp add: base128_def)
  qed
qed

lemma length_base128_u64: "n < 2 ^ 64 \<Longrightarrow> length (base128 n) \<le> 10"
  using length_base128_le [of n 9] by simp

lemma length_concat_base128: "\<forall>c \<in> set cs. c < 2 ^ 64 \<Longrightarrow> length (concat (map base128 cs)) \<le> 10 * length cs"
proof (induction cs)
  case (Cons c cs)
  then show ?case using length_base128_u64 [of c] by simp
qed simp

lemma length_dotted_ge: "length cs \<le> length (dotted cs)"
proof (induction cs rule: dotted.induct)
  case (2 c)
  show ?case using decimal_nonempty [of c] by (simp add: Suc_le_eq)
qed simp_all

lemma length_oid_contents:
  assumes "oid_ok cs"
  shows "length (oid_contents cs) \<le> 10 * length (dotted cs)"
proof -
  obtain a b rest where cs: "cs = a # b # rest" and ok: "a \<le> 2" "b + 80 < 2 ^ 64" "\<forall>c \<in> set rest. c < 2 ^ 64"
    using assms by (auto simp: oid_ok_def split: list.splits)
  have "40 * a + b < 2 ^ 64" using ok(1,2) by linarith
  from length_base128_u64 [OF this] length_concat_base128 [OF ok(3)]
  have "length (oid_contents cs) \<le> 10 * length cs" by (simp add: oid_contents_def cs)
  with length_dotted_ge [of cs] show ?thesis by linarith
qed

text \<open>C16: The reader of dotted text accepts exactly the texts of the valid object identifiers
  (first arc at most 2, second at most 39 below the arcs 0 and 1, every arc within 64 bits,
  no redundant zero, no empty arc), and writes their DER contents.\<close>

theorem CBB_add_asn1_oid_from_text_exact:
  assumes "malloc_law m" and "n + 8 < 2 ^ 63" and "CBB_init m n = (Some (), cbb)"
    and "grants m (20 * length str + 8)"
  shows "case CBB_add_asn1_oid_from_text m 0 str (length str) cbb of
      (Some _, cbb') \<Rightarrow> \<exists>cs. oid_ok cs \<and> str = dotted cs \<and>
        CBB_finish m cbb' = (Some (oid_contents cs), CBB_cleanup cbb')
    | (None, _) \<Rightarrow> \<nexists>cs. oid_ok cs \<and> str = dotted cs"
proof (cases "\<exists>cs. oid_ok cs \<and> str = dotted cs")
  case True
  then obtain cs where cs: "oid_ok cs" "str = dotted cs" by blast
  have g: "grants m (2 * length (oid_contents cs) + 8)"
    using assms(4) length_oid_contents [OF cs(1)] cs(2) by (simp add: grants_def)
  have "\<exists>u cbb'. CBB_add_asn1_oid_from_text m 0 str (length str) cbb = (Some u, cbb') \<and>
      CBB_finish m cbb' = (Some (oid_contents cs), CBB_cleanup cbb')"
    unfolding cs(2)
    by (rule init_add_finish [where f = "CBB_add_asn1_oid_from_text m 0 (dotted cs) (length (dotted cs))",
          OF assms(1-3) g])
      (rule CBB_add_asn1_oid_from_text_refines [OF assms(1) _ _ cs(1)])
  then obtain u cbb' where r: "CBB_add_asn1_oid_from_text m 0 str (length str) cbb = (Some u, cbb')"
    and f: "CBB_finish m cbb' = (Some (oid_contents cs), CBB_cleanup cbb')" by blast
  show ?thesis unfolding r prod.case option.case by (intro exI [of _ cs] conjI cs f)
next
  case False
  then have "fst (CBB_add_asn1_oid_from_text m 0 str (length str) cbb) = None"
    using CBB_add_asn1_oid_from_text_sound [of m 0 str cbb] by (metis not_None_eq)
  then obtain cbb' where r: "CBB_add_asn1_oid_from_text m 0 str (length str) cbb = (None, cbb')"
    by (cases "CBB_add_asn1_oid_from_text m 0 str (length str) cbb") simp
  from False show ?thesis unfolding r prod.case option.case .
qed

text \<open>The text 1.2.840.\<close>

definition oid_text_1_2_840 :: "byte list" where
  "oid_text_1_2_840 = [0x31, 0x2e, 0x32, 0x2e, 0x38, 0x34, 0x30]"

lemma oid_text_1_2_840: "oid_ok [1, 2, 840]" "dotted [1, 2, 840] = oid_text_1_2_840"
    "oid_contents [1, 2, 840] = [0x2a, 0x86, 0x48]"
  by (simp_all add: oid_ok_def oid_text_1_2_840_def decimal.simps oid_contents_def base128_def
      base128_cont.simps)

theorem CBB_add_asn1_oid_from_text_exact_witness:
  "case CBB_add_asn1_oid_from_text generous 0 oid_text_1_2_840 (length oid_text_1_2_840)
        (snd (CBB_init generous 4)) of
      (Some _, cbb') \<Rightarrow> \<exists>cs. oid_ok cs \<and> oid_text_1_2_840 = dotted cs \<and>
        CBB_finish generous cbb' = (Some (oid_contents cs), CBB_cleanup cbb')
    | (None, _) \<Rightarrow> \<nexists>cs. oid_ok cs \<and> oid_text_1_2_840 = dotted cs"
  by (rule CBB_add_asn1_oid_from_text_exact [of _ 4])
    (simp_all add: CBB_init_def cbb_init_def OPENSSL_malloc_def generous_def size_add_def oid_text_1_2_840_def)

lemma length_dotted_le:
  "\<forall>c \<in> set cs. c < 2 ^ 64 \<Longrightarrow> length (dotted cs) \<le> 21 * length cs"
proof (induction cs rule: dotted.induct)
  case (2 c)
  then show ?case using length_decimal [of c 19] by simp
next
  case (3 c d cs)
  then show ?case using length_decimal [of c 19] by simp
qed simp

lemma length_dotted_contents:
  assumes "oid_ok cs"
  shows "length (dotted cs) \<le> 21 * (length (oid_contents cs) + 1)"
proof -
  obtain a b rest where cs: "cs = a # b # rest" and ok: "a \<le> 2" "b + 80 < 2 ^ 64" "\<forall>c \<in> set rest. c < 2 ^ 64"
    using assms by (auto simp: oid_ok_def split: list.splits)
  have "length rest \<le> length (concat (map base128 rest))"
    by (induction rest) (simp_all add: base128_def)
  then have "length cs \<le> length (oid_contents cs) + 1"
    by (simp add: oid_contents_def cs base128_def)
  moreover have "\<forall>c \<in> set cs. c < 2 ^ 64" using cs ok by auto
  ultimately have "length (dotted cs) \<le> 21 * length cs" and "length cs \<le> length (oid_contents cs) + 1"
    using length_dotted_le [of cs] by blast+
  from order_trans [OF this(1) mult_le_mono2 [OF this(2)]] show ?thesis .
qed

text \<open>C17: The writer of dotted text is the inverse: it succeeds exactly on the DER contents of a
  valid object identifier, and then returns its dotted text with a closing NUL.\<close>

theorem CBS_asn1_oid_to_text_exact:
  assumes "malloc_law m" and "grants m (42 * length s + 82)"
  shows "CBS_asn1_oid_to_text m s = Some txt \<longleftrightarrow>
    (\<exists>cs. oid_ok cs \<and> s = oid_contents cs \<and> txt = dotted cs @ [0])"
proof
  assume "CBS_asn1_oid_to_text m s = Some txt"
  then show "\<exists>cs. oid_ok cs \<and> s = oid_contents cs \<and> txt = dotted cs @ [0]"
    by (rule CBS_asn1_oid_to_text_sound [OF assms(1)])
next
  assume "\<exists>cs. oid_ok cs \<and> s = oid_contents cs \<and> txt = dotted cs @ [0]"
  then obtain cs where cs: "oid_ok cs" "s = oid_contents cs" "txt = dotted cs @ [0]" by blast
  have "grants m (2 * length (dotted cs) + 40)"
    using assms(2) length_dotted_contents [OF cs(1)] cs(2) by (simp add: grants_def)
  with CBS_asn1_oid_to_text_complete [OF assms(1) cs(1)] cs show "CBS_asn1_oid_to_text m s = Some txt" by simp
qed

theorem CBS_asn1_oid_to_text_exact_witness:
  "CBS_asn1_oid_to_text generous [0x2a, 0x86, 0x48] = Some (oid_text_1_2_840 @ [0])"
proof -
  have "\<exists>cs. oid_ok cs \<and> [0x2a, 0x86, 0x48] = oid_contents cs \<and> oid_text_1_2_840 @ [0] = dotted cs @ [0]"
    using oid_text_1_2_840 by metis
  with CBS_asn1_oid_to_text_exact [of generous "[0x2a, 0x86, 0x48]" "oid_text_1_2_840 @ [0]"] show ?thesis
    by simp
qed

end
