(* ===== verification/SetOf.thy ===== *)
theory SetOf
  imports CbbAsn1 Compare
begin

text \<open>
  The sorting of the elements of a \<open>SET OF\<close> by \<open>CBB_flush_asn1_set_of\<close>: the comparison
  function is the lexicographic order of the encodings, and a successful call leaves the same
  elements in ascending order.
\<close>

section \<open>The order of the encodings\<close>

fun bytes_le :: "byte list \<Rightarrow> byte list \<Rightarrow> bool" where
  "bytes_le [] bs = True"
| "bytes_le (a # as) [] = False"
| "bytes_le (a # as) (b # bs) = (a < b \<or> (a = b \<and> bytes_le as bs))"

lemma bytes_le_refl [simp]: "bytes_le as as"
  by (induction as) simp_all

lemma bytes_le_trans: "bytes_le as bs \<Longrightarrow> bytes_le bs cs \<Longrightarrow> bytes_le as cs"
proof (induction as bs arbitrary: cs rule: bytes_le.induct)
  case (3 a as b bs)
  then show ?case by (cases cs) auto
qed simp_all

lemma bytes_le_total: "bytes_le as bs \<or> bytes_le bs as"
  by (induction as bs rule: bytes_le.induct) auto

lemma bytes_le_antisym: "bytes_le as bs \<Longrightarrow> bytes_le bs as \<Longrightarrow> as = bs"
  by (induction as bs rule: bytes_le.induct) (auto elim: bytes_le.elims)

lemma compare_set_of_Cons:
  "compare_set_of_element (a # as) (b # bs) =
     (if a = b then compare_set_of_element as bs else if a < b then -1 else 1)"
  by (simp add: compare_set_of_element_def CBS_len_def CBS_data_def Let_def)

lemma compare_set_of_le_iff: "compare_set_of_element as bs \<le> 0 \<longleftrightarrow> bytes_le as bs"
proof (induction as bs rule: bytes_le.induct)
  case (3 a as b bs)
  then show ?case by (auto simp: compare_set_of_Cons)
qed (simp_all add: compare_set_of_element_def CBS_len_def CBS_data_def Let_def)

text \<open>The comparison function keeps the contract of \<open>qsort\<close>.\<close>

lemma compare_set_of_flip: "compare_set_of_element as bs < 0 \<longleftrightarrow> 0 < compare_set_of_element bs as"
proof (induction as bs rule: bytes_le.induct)
  case (1 bs)
  then show ?case by (cases bs) (simp_all add: compare_set_of_element_def CBS_len_def CBS_data_def Let_def)
next
  case (3 a as b bs)
  then show ?case by (auto simp: compare_set_of_Cons)
qed (simp_all add: compare_set_of_element_def CBS_len_def CBS_data_def Let_def)

interpretation der_order: three_way compare_set_of_element
  by unfold_locales (auto simp: compare_set_of_flip compare_set_of_le_iff intro: bytes_le_trans)

section \<open>The elements of a window\<close>

lemma asn1_children_concat: "asn1_children s = Some es \<Longrightarrow> concat es = s"
proof (induction s arbitrary: es rule: asn1_children.induct)
  case (1 s)
  then show ?case
  proof (cases "s = []")
    case True
    with 1 show ?thesis by (simp add: asn1_children.simps CBS_len_def)
  next
    case False
    then have l: "CBS_len s \<noteq> 0" by (simp add: CBS_len_def)
    obtain r s' where g: "CBS_get_any_asn1_element s = (r, s')" by (cases "CBS_get_any_asn1_element s")
    with "1.prems" l obtain e tag hl where r: "r = Some (e, tag, hl)"
      by (cases r) (auto simp: asn1_children.simps [of s])
    with "1.prems" l g obtain fs where f: "asn1_children s' = Some fs" "es = e # fs"
      by (auto simp: asn1_children.simps [of s])
    have "s = e @ s'" using g r by (simp add: CBS_get_any_asn1_element_iff)
    moreover have "concat fs = s'"
      using "1.IH" [OF l g [symmetric] r refl refl f(1)] .
    ultimately show ?thesis using f(2) by simp
  qed
qed

lemma cbb_add_all_refines:
  assumes m: "malloc_law m"
  shows "\<forall>e \<in> set es. length e < 2 ^ 63 \<Longrightarrow> cbb_rel cbb (xs @ [(k, c)]) \<Longrightarrow>
    flush_result m cbb (Some (xs @ [(k, c @ concat es)])) (cbb_add_all m (length xs) es cbb)"
proof (induction es arbitrary: c cbb)
  case Nil
  then show ?case by (simp add: flush_result_ret)
next
  case (Cons e es)
  have "flush_result m cbb (Option.bind (Some (xs @ [(k, c @ e)])) (\<lambda>_. Some (xs @ [(k, c @ concat (e # es))])))
    (op_then (CBB_add_bytes m (length xs) e) (cbb_add_all m (length xs) es) cbb)"
  proof (rule flush_result_seq)
    show "flush_result m cbb (Some (xs @ [(k, c @ e)])) (CBB_add_bytes m (length xs) e cbb)"
      using CBB_add_bytes_refines [OF m Cons.prems(2), of "length xs" e] Cons.prems(1) add_frames_leaf
      by simp
    show "flush_result m cbb1 (Some (xs @ [(k, c @ concat (e # es))])) (cbb_add_all m (length xs) es cbb1)"
      if "Some (xs @ [(k, c @ e)]) = Some fs1" "cbb_rel cbb1 fs1" for cbb1 fs1
      using Cons.IH [of cbb1 "c @ e"] Cons.prems(1) that by simp
  qed (auto simp: render_append)
  then show ?case by simp
qed

section \<open>The flush\<close>

lemma data_len_top:
  assumes "cbb_rel cbb (xs @ [(k, c)])"
  shows "CBB_data_len (length xs) cbb = c"
  using assms
  by (auto simp: cbb_rel_def CBB_data_len_def valid_bytes_def [symmetric] nodes_of_append nth_append
      frame_node_def render_append Let_def)

text \<open>Rewinding to the start of the contents empties the frame.\<close>

lemma rewind_rel:
  assumes rel: "cbb_rel cbb (xs @ [(k, c)])"
  defines "n \<equiv> cbb_nodes cbb ! length xs"
  shows "cbb_rel (cbb\<lparr>cbb_base := map_option
    (\<lambda>b. b\<lparr>cbb_blen := cbb_offset n + cbb_pending_len_len n\<rparr>) (cbb_base cbb)\<rparr>) (xs @ [(k, [])])"
proof -
  obtain base where b: "cbb_base cbb = Some base" "buf_ok base" "\<not> cbb_error base"
    "valid_bytes base = render (xs @ [(k, c)])" "cbb_nodes cbb = nodes_of 0 (xs @ [(k, c)])"
    "frames_wf (xs @ [(k, c)])"
    using rel by (auto simp: cbb_rel_def)
  obtain r where r: "cbb_buf base = render (xs @ [(k, c)]) @ r" "cbb_blen base = length (render (xs @ [(k, c)]))"
    using buf_splitE [OF b(2,4)] .
  have n: "cbb_offset n + cbb_pending_len_len n = length (render (xs @ [(k, [])]))"
    by (simp add: n_def b(5) nodes_of_append nth_append frame_node_def render_append)
  show ?thesis
    using b r frames_wf_snoc [OF b(6), of "[]"] unfolding n
    by (auto simp: cbb_rel_def buf_ok_def valid_bytes_def nodes_of_append render_append)
qed

lemma set_of_leaf:
  assumes m: "malloc_law m" and rel: "cbb_rel cbb (xs @ [(k, c)])"
    and r: "CBB_flush_asn1_set_of m (length xs) cbb = (Some (), cbb')"
  shows "\<exists>es. asn1_children c = Some es \<and>
    cbb_rel cbb' (xs @ [(k, concat (qsort compare_set_of_element es))])"
proof -
  obtain base where b: "cbb_base cbb = Some base" "\<not> cbb_error base" "buf_ok base"
    "valid_bytes base = render (xs @ [(k, c)])" "length (cbb_nodes cbb) = length xs + 1"
    using rel by (auto simp: cbb_rel_def)
  have fl: "CBB_flush m (length xs) cbb = (Some (), cbb)"
    using CBB_flush_leaf [OF b(1,2,5)] .
  have lc: "length c < 2 ^ 63"
    using length_valid_bytes [OF b(3)] b(3,4) by (auto simp: buf_ok_def render_append)
  note df = CBB_flush_asn1_set_of_def op_then_apply fl prod.case option.case Let_def data_len_top [OF rel]
  obtain es where es: "asn1_children c = Some es"
    using r unfolding df by (cases "asn1_children c") auto
  show ?thesis
  proof (cases "length es < 2")
    case True
    then have "cbb' = cbb" using r unfolding df es by simp
    with rel es asn1_children_concat [OF es] qsort_short [OF True] show ?thesis by auto
  next
    case False
    then have ne: "c \<noteq> []" using es by (auto simp: asn1_children.simps CBS_len_def)
    obtain buf where buf: "OPENSSL_memdup m c (length c) = Some buf"
      using r False unfolding df es by (auto split: option.splits if_splits)
    have "buf = c" using OPENSSL_memdup_SomeD [OF m _ _ buf] lc by simp
    with r False buf es have add: "cbb_add_all m (length xs) (qsort compare_set_of_element es)
        (cbb\<lparr>cbb_base := map_option (\<lambda>b. b\<lparr>cbb_blen := cbb_offset (cbb_nodes cbb ! length xs) +
           cbb_pending_len_len (cbb_nodes cbb ! length xs)\<rparr>) (cbb_base cbb)\<rparr>) = (Some (), cbb')"
      unfolding df by (auto split: option.splits if_splits)
    have "\<forall>e \<in> set (qsort compare_set_of_element es). length e < 2 ^ 63"
    proof
      fix e assume "e \<in> set (qsort compare_set_of_element es)"
      then have "e \<in> set es" by (metis mset_eq_setD mset_qsort)
      then have "length e \<le> length (concat es)"
        by (induction es) auto
      with lc asn1_children_concat [OF es] show "length e < 2 ^ 63" by simp
    qed
    from cbb_add_all_refines [OF m this rewind_rel [OF rel]] add
    have "cbb_rel cbb' (xs @ [(k, concat (qsort compare_set_of_element es))])"
      by (auto simp: flush_result_def)
    with es show ?thesis by blast
  qed
qed

section \<open>A sequence of elements\<close>

definition elements :: "(u32 \<times> byte list) list \<Rightarrow> byte list list" where
  "elements es = map (\<lambda>(tag, c). der_element tag c) es"

lemma der_element_ne [simp]: "der_element tag c \<noteq> []"
  using length_der_header_ge [of tag "length c"] by (auto simp: der_element_def)

lemma length_der_element_ge: "2 \<le> length (der_element tag c)"
  using length_der_header_ge [of tag "length c"] by (simp add: der_element_def)

lemma asn1_children_elements:
  "\<forall>(tag, c) \<in> set es. length c < 2 ^ 32 \<Longrightarrow> asn1_children (concat (elements es)) = Some (elements es)"
proof (induction es)
  case Nil
  then show ?case by (simp add: elements_def asn1_children.simps CBS_len_def)
next
  case (Cons e es)
  obtain tag c where e: "e = (tag, c)" by (cases e)
  have "CBS_get_any_asn1_element (der_element tag c @ concat (elements es)) =
      (Some (der_element tag c, tag, length (der_header tag (length c))), concat (elements es))"
    using Cons.prems e by (auto simp: CBS_get_any_asn1_element_iff)
  with Cons e show ?case
    by (simp add: elements_def asn1_children.simps [of "der_element tag c @ _"] CBS_len_def)
qed

lemma length_elements: "2 * length es \<le> length (concat (elements es))"
proof (induction es)
  case (Cons e es)
  then show ?case using length_der_element_ge [of "fst e" "snd e"] by (simp add: elements_def split_beta)
qed (simp add: elements_def)

lemma length_concat_qsort: "length (concat (qsort cmp xs)) = length (concat xs)"
  unfolding length_concat by (metis mset_map mset_qsort sum_mset_sum_list)

lemma OPENSSL_malloc_granted: "grants m (n + 8) \<Longrightarrow> n + 8 < 2 ^ 63 \<Longrightarrow> \<exists>b. OPENSSL_malloc m n = Some b"
  by (auto simp: OPENSSL_malloc_def grants_def size_add_exact)

lemma set_of_complete:
  assumes m: "malloc_law m" and rel: "cbb_rel cbb (xs @ [(k, concat (elements es))])"
    and es: "\<forall>(tag, c) \<in> set es. length c < 2 ^ 32"
    and g: "grants m (8 * length (render (xs @ [(k, concat (elements es))])) + 8)"
  shows "\<exists>cbb'. CBB_flush_asn1_set_of m (length xs) cbb = (Some (), cbb') \<and>
    cbb_rel cbb' (xs @ [(k, concat (qsort compare_set_of_element (elements es)))])"
proof -
  let ?c = "concat (elements es)" and ?q = "qsort compare_set_of_element (elements es)"
  obtain base where b: "cbb_base cbb = Some base" "\<not> cbb_error base" "length (cbb_nodes cbb) = length xs + 1"
    using rel by (auto simp: cbb_rel_def)
  note df = CBB_flush_asn1_set_of_def op_then_apply CBB_flush_leaf [OF b] prod.case option.case Let_def
    data_len_top [OF rel] asn1_children_elements [OF es]
  have L: "length ?c \<le> length (render (xs @ [(k, ?c)]))" by (simp add: render_append)
  obtain z where "m (8 * length (render (xs @ [(k, ?c)])) + 8) = Some z" using g by (auto simp: grants_def)
  then have lt: "8 * length (render (xs @ [(k, ?c)])) + 8 < 2 ^ 63" using malloc_lawD [OF m] by blast
  have le: "length (elements es) * 16 \<le> 8 * length ?c" using length_elements [of es] by (simp add: elements_def)
  show ?thesis
  proof (cases "length (elements es) < 2")
    case True
    then have "CBB_flush_asn1_set_of m (length xs) cbb = (Some (), cbb)" unfolding df by simp
    with rel qsort_short [OF True] show ?thesis by auto
  next
    case False
    then have ne: "length ?c \<noteq> 0" using le by linarith
    have lc: "8 * length ?c + 8 < 2 ^ 63" and gc: "grants m (8 * length ?c + 8)"
      using L lt g by (auto simp: grants_def)
    have gs: "grants m (length ?c + 8)" "grants m (length (elements es) * 16 + 8)"
      using gc le by (auto simp: grants_def)
    obtain mb where "OPENSSL_malloc m (length ?c) = Some mb"
      using OPENSSL_malloc_granted [OF gs(1)] lc by auto
    with ne have "OPENSSL_memdup m ?c (length ?c) \<noteq> None" by (simp add: OPENSSL_memdup_def)
    then obtain buf where buf: "OPENSSL_memdup m ?c (length ?c) = Some buf" by blast
    have bufc: "buf = ?c" using OPENSSL_memdup_SomeD [OF m _ _ buf] lc by simp
    obtain y where y: "OPENSSL_malloc m (length (elements es) * 16) = Some y"
      using OPENSSL_malloc_granted [OF gs(2)] lc le by auto
    have n60: "\<not> (size_mod - 1) div 16 < length (elements es)" using le lc by simp
    have small: "\<forall>e \<in> set ?q. length e < 2 ^ 63"
    proof
      fix e assume "e \<in> set ?q"
      then have "e \<in> set (elements es)" by (metis mset_eq_setD mset_qsort)
      then have "length e \<le> length ?c" by (induction "elements es") (auto simp: length_concat member_le_sum_list)
      with lc show "length e < 2 ^ 63" by simp
    qed
    define rewound where "rewound = cbb\<lparr>cbb_base := map_option (\<lambda>b. b\<lparr>cbb_blen :=
      cbb_offset (cbb_nodes cbb ! length xs) + cbb_pending_len_len (cbb_nodes cbb ! length xs)\<rparr>) (cbb_base cbb)\<rparr>"
    have e: "CBB_flush_asn1_set_of m (length xs) cbb = cbb_add_all m (length xs) ?q rewound"
      using False n60 unfolding df buf y bufc rewound_def by simp
    have rr: "cbb_rel rewound (xs @ [(k, [])])" unfolding rewound_def by (rule rewind_rel [OF rel])
    obtain r cbb' where a: "cbb_add_all m (length xs) ?q rewound = (r, cbb')" by (cases "cbb_add_all m (length xs) ?q rewound")
    have res: "flush_result m rewound (Some (xs @ [(k, concat ?q)])) (r, cbb')"
      using cbb_add_all_refines [OF m small rr] a by simp
    have nr: "\<not> no_room m base' (length (render (xs @ [(k, concat ?q)])))" if "cbb_base rewound = Some base'" for base'
    proof -
      have "length (render (xs @ [(k, ?c)])) \<le> cbb_cap base"
        using rel b(1) length_valid_bytes [of base] by (auto simp: cbb_rel_def buf_ok_def)
      moreover have "cbb_cap base' = cbb_cap base" using that b(1) by (auto simp: rewound_def)
      ultimately show ?thesis
        using g by (auto simp: no_room_def grants_def render_append length_concat_qsort)
    qed
    then obtain u where "r = Some u" "cbb_rel cbb' (xs @ [(k, concat ?q)])"
      using res by (cases r) (auto simp: flush_result_def fails_for_def)
    with e a show ?thesis by auto
  qed
qed

section \<open>Properties\<close>

text \<open>C13: \<open>CBB_flush_asn1_set_of\<close> sorts: on an open SET OF with the elements \<open>es\<close> it succeeds and
  leaves the same elements, with the same multiplicities, in the canonical order of X.690,
  sorted bytewise with a proper prefix first.\<close>

theorem CBB_flush_asn1_set_of_sorts:
  assumes "malloc_law m" and "cbb_rel cbb (xs @ [(k, concat (elements es))])"
    and "\<forall>(tag, c) \<in> set es. length c < 2 ^ 32"
    and "grants m (8 * length (render (xs @ [(k, concat (elements es))])) + 8)"
  shows "\<exists>cbb' es'. CBB_flush_asn1_set_of m (length xs) cbb = (Some (), cbb') \<and>
    mset es' = mset (elements es) \<and> sorted_wrt bytes_le es' \<and> cbb_rel cbb' (xs @ [(k, concat es')])"
  using set_of_complete [OF assms] mset_qsort der_order.sorted_qsort [unfolded compare_set_of_le_iff] by metis

definition set_of_builder :: cbb_st where
  "set_of_builder = \<lparr>cbb_base = Some \<lparr>cbb_buf = [2, 1, 5, 2, 1, 3], cbb_blen = 6, cbb_cap = 6,
       cbb_can_resize = False, cbb_error = False\<rparr>, cbb_nodes = [zero_node]\<rparr>"

theorem CBB_flush_asn1_set_of_sorts_witness:
  "\<exists>cbb' es'. CBB_flush_asn1_set_of generous 0 set_of_builder = (Some (), cbb') \<and>
    mset es' = {#der_element 2 [5], der_element 2 [3]#} \<and> sorted_wrt bytes_le es' \<and>
    cbb_rel cbb' [(Top, concat es')]"
proof -
  have c: "concat (elements [(2, [5]), (2, [3])]) = [2, 1, 5, 2, 1, 3]"
    by (simp add: elements_def der_element_def der_header_def der_tag_def der_length_forms)
  have "cbb_rel set_of_builder ([] @ [(Top, concat (elements [(2, [5]), (2, [3])]))])"
    unfolding c by (simp add: set_of_builder_def cbb_rel_def buf_ok_def valid_bytes_def frames_wf_def
        zero_node_def frame_node_def)
  from CBB_flush_asn1_set_of_sorts [OF generous_laws(1) this] show ?thesis
    unfolding c by (simp add: elements_def)
qed

end
