(* ===== verification/Ber.thy ===== *)
theory Ber
  imports CbbAsn1
begin

text \<open>
  \<open>crypto/bytestring/ber.c\<close>: the search for BER constructs, the conversion to DER, and the
  reader of implicitly tagged strings. Both recursive functions are total here; the window
  they read gets shorter at every call, the property the comment on \<open>kMaxDepth\<close> relies on.
\<close>

section \<open>Definitions\<close>

definition kMaxDepth :: nat where
  "kMaxDepth = 2048"

text \<open>The string types of X.690: BIT, OCTET, UTF8, NUMERIC, PRINTABLE, T61, VIDEOTEX, IA5,
  GRAPHIC, VISIBLE, GENERAL, UNIVERSAL and BMP.\<close>

definition is_string_type :: "u32 \<Rightarrow> bool" where
  "is_string_type tag \<longleftrightarrow>
     tag AND NOT CBS_ASN1_CONSTRUCTED \<in>
       {0x3, 0x4, 0xc, 0x12, 0x13, 0x14, 0x15, 0x16, 0x19, 0x1a, 0x1b, 0x1c, 0x1e}"

definition is_indefinite :: "cbs \<Rightarrow> nat \<Rightarrow> bool" where
  "is_indefinite contents header_len \<longleftrightarrow>
     CBS_len contents = header_len \<and> header_len > 0 \<and> CBS_data contents ! (header_len - 1) = 0x80"

lemma ber_element_prefix:
  assumes "CBS_get_any_ber_asn1_element s = (Some (e, tag, hl), s')"
  shows "s = e @ s' \<and> 2 \<le> hl \<and> hl \<le> length e"
proof -
  have r: "cbs_get_any_asn1_element True s = (Some (e, tag, hl), s')"
    using assms by (simp add: CBS_get_any_ber_asn1_element_def)
  from cbs_get_any_asn1_element_sound [OF r]
  have "s = e @ s'" and "(\<exists>c. e = der_element tag c \<and> hl = length (der_header tag (length c))) \<or>
      (e = der_tag tag @ [0x80] \<and> hl = length e)"
    by auto
  moreover have "2 \<le> length (der_tag tag @ [0x80])"
    using length_der_tag_pos [of tag] by (simp add: Suc_le_eq)
  ultimately show ?thesis using length_der_header_ge [of tag] by (auto simp: der_element_def)
qed

lemma ber_element_less:
  assumes "(Some (e, tag, hl), s') = CBS_get_any_ber_asn1_element s"
  shows "length s' < length s"
  using ber_element_prefix [OF assms [symmetric]] by auto

lemma ber_contents_less:
  assumes "(Some (e, tag, hl), s') = CBS_get_any_ber_asn1_element s" and "(Some u, c) = CBS_skip hl e"
  shows "length c < length s"
  using ber_element_prefix [OF assms(1) [symmetric]] assms(2) CBS_skip_eq [of hl e] by auto

text \<open>The loop of \<open>cbs_find_ber\<close>: \<open>found\<close> is \<open>*ber_found\<close>, which the recursive call resets.\<close>

function cbs_find_ber_loop :: "cbs \<Rightarrow> bool \<Rightarrow> nat \<Rightarrow> bool option" where
  "cbs_find_ber_loop inp found depth =
     (if CBS_len inp > 0 then
        (case CBS_get_any_ber_asn1_element inp of
           (None, _) \<Rightarrow> None
         | (Some (contents, tag, header_len), inp') \<Rightarrow>
             (if is_indefinite contents header_len then Some True
              else if tag AND CBS_ASN1_CONSTRUCTED \<noteq> 0 then
                (if is_string_type tag then Some True
                 else
                   (case CBS_skip header_len contents of
                      (None, _) \<Rightarrow> None
                    | (Some u, contents') \<Rightarrow>
                        (if depth + 1 > kMaxDepth then None
                         else
                           (case cbs_find_ber_loop contents' False (depth + 1) of
                              None \<Rightarrow> None
                            | Some found' \<Rightarrow> cbs_find_ber_loop inp' found' depth))))
              else cbs_find_ber_loop inp' found depth))
      else Some found)"
  by pat_completeness auto
termination
  by (relation "measure (\<lambda>(inp, found, depth). length inp)")
    (auto intro: ber_element_less ber_contents_less)

declare cbs_find_ber_loop.simps [simp del]

definition cbs_find_ber :: "cbs \<Rightarrow> nat \<Rightarrow> bool option" where
  "cbs_find_ber orig_in depth =
     (if depth > kMaxDepth then None else cbs_find_ber_loop orig_in False depth)"

definition is_eoc :: "nat \<Rightarrow> cbs \<Rightarrow> bool" where
  "is_eoc header_len contents \<longleftrightarrow>
     header_len = 2 \<and> CBS_len contents = 2 \<and> OPENSSL_memcmp (CBS_data contents) [0, 0] 2 = 0"

lemma ber_element_le: "CBS_get_any_ber_asn1_element s = (r, s') \<Longrightarrow> length s' \<le> length s"
proof (cases r)
  case None
  assume "CBS_get_any_ber_asn1_element s = (r, s')"
  with None show ?thesis
    by (auto simp: CBS_get_any_ber_asn1_element_def cbs_get_any_asn1_element_def CBS_get_bytes_eq cbs_get_def
        op_simps Let_def split: prod.splits option.splits if_splits)
next
  case (Some a)
  assume "CBS_get_any_ber_asn1_element s = (r, s')"
  with Some ber_element_prefix [of s "fst a" "fst (snd a)" "snd (snd a)" s'] show ?thesis by auto
qed

text \<open>One turn of the loop of \<open>cbs_convert_ber\<close>, up to its recursive call: the function returns,
  an element of indefinite length has been opened, the contents of a constructed element are
  to be converted, or a primitive element has been copied. The window is read through a
  pointer; the output is the frame at depth \<open>d\<close> of the builder.\<close>

datatype ber_turn =
    Return bool cbs cbb_st
  | Indefinite u32 nat cbs cbb_st
  | Nested u32 nat cbs cbs cbb_st
  | Copied cbs cbb_st

definition convert_turn :: "mallocf \<Rightarrow> u32 \<Rightarrow> bool \<Rightarrow> nat \<Rightarrow> cbs \<Rightarrow> cbb_st \<Rightarrow> ber_turn" where
  "convert_turn m string_tag looking_for_eoc d inp out =
     (if \<not> CBS_len inp > 0 then Return (\<not> looking_for_eoc) inp out
      else
        (case CBS_get_any_ber_asn1_element inp of
           (None, inp1) \<Rightarrow> Return False inp1 out
         | (Some (contents, tag, header_len), inp1) \<Rightarrow>
             if is_eoc header_len contents then Return looking_for_eoc inp1 out
             else if string_tag \<noteq> 0 \<and> tag AND NOT CBS_ASN1_CONSTRUCTED \<noteq> string_tag then Return False inp1 out
             else
               (let constructed_string = string_tag = 0 \<and> tag AND CBS_ASN1_CONSTRUCTED \<noteq> 0 \<and> is_string_type tag;
                    out_tag = (if constructed_string then tag AND NOT CBS_ASN1_CONSTRUCTED else tag);
                    child_string_tag = (if constructed_string then out_tag else string_tag);
                    d' = (if string_tag \<noteq> 0 then d else d + 1)
                in case (if string_tag \<noteq> 0 then (Some (), out) else CBB_add_asn1 m d out_tag out) of
                     (None, out1) \<Rightarrow> Return False inp1 out1
                   | (Some _, out1) \<Rightarrow>
                       if is_indefinite contents header_len then Indefinite child_string_tag d' inp1 out1
                       else
                         (case CBS_skip header_len contents of
                            (None, _) \<Rightarrow> Return False inp1 out1
                          | (Some _, contents') \<Rightarrow>
                              if tag AND CBS_ASN1_CONSTRUCTED \<noteq> 0 then Nested child_string_tag d' contents' inp1 out1
                              else
                                (case CBB_add_bytes m d' contents' out1 of
                                   (None, out2) \<Rightarrow> Return False inp1 out2
                                 | (Some _, out2) \<Rightarrow> Copied inp1 out2)))))"

lemma convert_turn_less:
  "convert_turn m st eoc d inp out = Return r inp1 out1 \<Longrightarrow> length inp1 \<le> length inp"
  "convert_turn m st eoc d inp out = Indefinite t d' inp1 out1 \<Longrightarrow> length inp1 < length inp"
  "convert_turn m st eoc d inp out = Nested t d' c inp1 out1 \<Longrightarrow> length inp1 < length inp \<and> length c < length inp"
  "convert_turn m st eoc d inp out = Copied inp1 out1 \<Longrightarrow> length inp1 < length inp"
proof -
  have lt: "length s' < length s" if "CBS_get_any_ber_asn1_element s = (Some (e, tag, hl), s')" for s e tag hl s'
    using ber_element_less [OF that [symmetric]] .
  have ct: "length c < length s" if "CBS_get_any_ber_asn1_element s = (Some (e, tag, hl), s')"
      "CBS_skip hl e = (Some u, c)" for s e tag hl s' u c
    using ber_contents_less [OF that [symmetric]] .
  show "convert_turn m st eoc d inp out = Return r inp1 out1 \<Longrightarrow> length inp1 \<le> length inp"
    by (auto simp: convert_turn_def Let_def dest: ber_element_le split: if_splits prod.splits option.splits)
  show "convert_turn m st eoc d inp out = Indefinite t d' inp1 out1 \<Longrightarrow> length inp1 < length inp"
    by (auto simp: convert_turn_def Let_def dest: lt split: if_splits prod.splits option.splits)
  show "convert_turn m st eoc d inp out = Nested t d' c inp1 out1 \<Longrightarrow> length inp1 < length inp \<and> length c < length inp"
    by (auto simp: convert_turn_def Let_def dest: lt ct split: if_splits prod.splits option.splits)
  show "convert_turn m st eoc d inp out = Copied inp1 out1 \<Longrightarrow> length inp1 < length inp"
    by (auto simp: convert_turn_def Let_def dest: lt split: if_splits prod.splits option.splits)
qed

function cbs_convert_ber ::
  "mallocf \<Rightarrow> u32 \<Rightarrow> bool \<Rightarrow> nat \<Rightarrow> nat \<Rightarrow> cbs \<Rightarrow> cbb_st \<Rightarrow> bool \<times> cbs \<times> cbb_st" where
  "cbs_convert_ber m string_tag looking_for_eoc depth d inp out =
     (if depth > kMaxDepth then (False, inp, out)
      else
        (case convert_turn m string_tag looking_for_eoc d inp out of
           Return r inp1 out1 \<Rightarrow> (r, inp1, out1)
         | Indefinite child_string_tag d' inp1 out1 \<Rightarrow>
             (let (ok, inp2, out2) = cbs_convert_ber m child_string_tag True (depth + 1) d' inp1 out1 in
              if \<not> ok then (False, inp2, out2)
              else
                (case CBB_flush m d out2 of
                   (None, out3) \<Rightarrow> (False, inp2, out3)
                 | (Some _, out3) \<Rightarrow> cbs_convert_ber m string_tag looking_for_eoc depth d inp2 out3))
         | Nested child_string_tag d' contents inp1 out1 \<Rightarrow>
             (let (ok, _, out2) = cbs_convert_ber m child_string_tag False (depth + 1) d' contents out1 in
              if \<not> ok then (False, inp1, out2)
              else
                (case CBB_flush m d out2 of
                   (None, out3) \<Rightarrow> (False, inp1, out3)
                 | (Some _, out3) \<Rightarrow> cbs_convert_ber m string_tag looking_for_eoc depth d inp1 out3))
         | Copied inp1 out2 \<Rightarrow>
             (case CBB_flush m d out2 of
                (None, out3) \<Rightarrow> (False, inp1, out3)
              | (Some _, out3) \<Rightarrow> cbs_convert_ber m string_tag looking_for_eoc depth d inp1 out3)))"
  by pat_completeness auto

text \<open>The recursion is nested: the loop goes on where the call for an element of indefinite
  length has stopped, so termination needs that every call leaves a suffix no longer than its
  argument.\<close>

lemma convert_shrinks:
  "cbs_convert_ber_dom (m, st, eoc, depth, d, inp, out) \<Longrightarrow>
     length (fst (snd (cbs_convert_ber m st eoc depth d inp out))) \<le> length inp"
proof (induction m st eoc depth d inp out rule: cbs_convert_ber.pinduct)
  case (1 m st eoc depth d inp out)
  show ?case
  proof (cases "depth > kMaxDepth")
    case True
    then show ?thesis by (simp add: cbs_convert_ber.psimps [OF "1.hyps"])
  next
    case False
    show ?thesis
    proof (cases "convert_turn m st eoc d inp out")
      case (Return r inp1 out1)
      with False convert_turn_less(1) [OF Return] show ?thesis
        by (simp add: cbs_convert_ber.psimps [OF "1.hyps"])
    next
      case (Indefinite t d' inp1 out1)
      obtain ok inp2 out2 where r: "cbs_convert_ber m t True (depth + 1) d' inp1 out1 = (ok, inp2, out2)"
        by (cases "cbs_convert_ber m t True (depth + 1) d' inp1 out1") auto
      have "length inp2 \<le> length inp1" using "1.IH"(1) [OF False Indefinite] r by simp
      moreover have "length inp1 < length inp" by (rule convert_turn_less(2) [OF Indefinite])
      moreover have "length (fst (snd (cbs_convert_ber m st eoc depth d inp2 out3))) \<le> length inp2"
        if "ok" "CBB_flush m d out2 = (Some u, out3)" for u out3
        using "1.IH"(2) [OF False Indefinite r [symmetric] refl refl _ that(2) [symmetric] refl] that(1) by simp
      ultimately show ?thesis
        using False Indefinite r
        by (auto simp: cbs_convert_ber.psimps [OF "1.hyps"] split: prod.splits option.splits)
    next
      case (Nested t d' c inp1 out1)
      obtain ok inp2 out2 where r: "cbs_convert_ber m t False (depth + 1) d' c out1 = (ok, inp2, out2)"
        by (cases "cbs_convert_ber m t False (depth + 1) d' c out1") auto
      have "length inp1 < length inp" using convert_turn_less(3) [OF Nested] ..
      moreover have "length (fst (snd (cbs_convert_ber m st eoc depth d inp1 out3))) \<le> length inp1"
        if "ok" "CBB_flush m d out2 = (Some u, out3)" for u out3
        using "1.IH"(4) [OF False Nested r [symmetric] refl refl _ that(2) [symmetric] refl] that(1) by simp
      ultimately show ?thesis
        using False Nested r
        by (auto simp: cbs_convert_ber.psimps [OF "1.hyps"] split: prod.splits option.splits)
    next
      case (Copied inp1 out1)
      have "length inp1 < length inp" by (rule convert_turn_less(4) [OF Copied])
      moreover have "length (fst (snd (cbs_convert_ber m st eoc depth d inp1 out3))) \<le> length inp1"
        if "CBB_flush m d out1 = (Some u, out3)" for u out3
        using "1.IH"(5) [OF False Copied that [symmetric] refl] by simp
      ultimately show ?thesis
        using False Copied
        by (auto simp: cbs_convert_ber.psimps [OF "1.hyps"] split: prod.splits option.splits)
    qed
  qed
qed

lemma convert_shrinks_eq:
  "cbs_convert_ber_dom (m, st, eoc, depth, d, inp, out) \<Longrightarrow>
     (ok, inp1, out1) = cbs_convert_ber m st eoc depth d inp out \<Longrightarrow> length inp1 \<le> length inp"
  using convert_shrinks [of m st eoc depth d inp out] by (metis fst_conv snd_conv)

termination cbs_convert_ber
proof (relation "measure (\<lambda>(m, st, eoc, depth, d, inp, out). length inp)")
qed (auto dest!: convert_turn_less dest: convert_shrinks_eq)

declare cbs_convert_ber.simps [simp del]

text \<open>\<open>CBS_asn1_ber_to_der\<close>: on success \<open>*out\<close> and \<open>*out_storage\<close> (\<open>None\<close> is \<open>NULL\<close>).\<close>

definition CBS_asn1_ber_to_der :: "mallocf \<Rightarrow> (cbs, cbs \<times> byte list option) cop" where
  "CBS_asn1_ber_to_der m inp =
     (case cbs_find_ber inp 0 of
        None \<Rightarrow> (None, inp)
      | Some False \<Rightarrow>
          (case CBS_get_any_asn1_element inp of
             (None, inp') \<Rightarrow> (None, inp')
           | (Some (out, _, _), inp') \<Rightarrow> (Some (out, None), inp'))
      | Some True \<Rightarrow>
          (case CBB_init m (CBS_len inp) of
             (None, _) \<Rightarrow> (None, inp)
           | (Some _, cbb) \<Rightarrow>
               (case cbs_convert_ber m 0 False 0 0 inp cbb of
                  (False, inp', _) \<Rightarrow> (None, inp')
                | (True, inp', cbb') \<Rightarrow>
                    (case CBB_finish m cbb' of
                       (None, _) \<Rightarrow> (None, inp')
                     | (Some dat, _) \<Rightarrow> (Some (CBS_init dat (length dat), Some dat), inp')))))"

text \<open>The loop over the chunks of a constructed string.\<close>

lemma CBS_get_asn1_less: "(Some c, s') = CBS_get_asn1 tag s \<Longrightarrow> length s' < length s"
  using CBS_get_asn1_iff [of tag s c s'] length_der_header_ge [of tag "length c"]
  by (auto simp: der_element_def)

function implicit_string_loop :: "mallocf \<Rightarrow> u32 \<Rightarrow> cbs \<Rightarrow> (cbb_st, unit) cop" where
  "implicit_string_loop m inner_tag child result =
     (if CBS_len child > 0 then
        (case CBS_get_asn1 inner_tag child of
           (None, _) \<Rightarrow> (None, result)
         | (Some chunk, child') \<Rightarrow>
             (case CBB_add_bytes m 0 (CBS_data chunk) result of
                (None, result') \<Rightarrow> (None, result')
              | (Some _, result') \<Rightarrow> implicit_string_loop m inner_tag child' result'))
      else (Some (), result))"
  by pat_completeness auto
termination
  by (relation "measure (\<lambda>(m, inner_tag, child, result). length child)") (auto intro: CBS_get_asn1_less)

declare implicit_string_loop.simps [simp del]

definition CBS_get_asn1_implicit_string ::
  "mallocf \<Rightarrow> u32 \<Rightarrow> u32 \<Rightarrow> (cbs, cbs \<times> byte list option) cop" where
  "CBS_get_asn1_implicit_string m outer_tag inner_tag inp =
     (if CBS_peek_asn1_tag inp outer_tag then
        (case CBS_get_asn1 outer_tag inp of
           (None, inp') \<Rightarrow> (None, inp')
         | (Some out, inp') \<Rightarrow> (Some (out, None), inp'))
      else
        (case CBB_init m (CBS_len inp) of
           (None, _) \<Rightarrow> (None, inp)
         | (Some _, result) \<Rightarrow>
             (case CBS_get_asn1 (outer_tag OR CBS_ASN1_CONSTRUCTED) inp of
                (None, inp') \<Rightarrow> (None, inp')
              | (Some child, inp') \<Rightarrow>
                  (case implicit_string_loop m inner_tag child result of
                     (None, _) \<Rightarrow> (None, inp')
                   | (Some _, result') \<Rightarrow>
                       (case CBB_finish m result' of
                          (None, _) \<Rightarrow> (None, inp')
                        | (Some dat, _) \<Rightarrow> (Some (CBS_init dat (length dat), Some dat), inp'))))))"

section \<open>Implicitly tagged strings\<close>

text \<open>The chunks of a constructed string in DER.\<close>

definition chunks_der :: "u32 \<Rightarrow> byte list list \<Rightarrow> byte list" where
  "chunks_der tag cs = concat (map (der_element tag) cs)"

lemma CBS_get_asn1_chunks:
  "length c < 2 ^ 32 \<Longrightarrow> CBS_get_asn1 tag (chunks_der tag (c # cs)) = (Some c, chunks_der tag cs)"
  by (simp add: CBS_get_asn1_iff chunks_der_def)

lemma implicit_string_loop_sound:
  "malloc_law m \<Longrightarrow> cbb_rel cbb [(Top, bs)] \<Longrightarrow> implicit_string_loop m tag child cbb = (Some u, cbb') \<Longrightarrow>
     \<exists>cs. child = chunks_der tag cs \<and> (\<forall>c \<in> set cs. length c < 2 ^ 32) \<and> cbb_rel cbb' [(Top, bs @ concat cs)]"
proof (induction m tag child cbb arbitrary: bs rule: implicit_string_loop.induct)
  case (1 m tag child cbb)
  show ?case
  proof (cases "CBS_len child > 0")
    case False
    with "1.prems" show ?thesis
      by (auto simp: implicit_string_loop.simps [of m tag child] CBS_len_def chunks_der_def intro!: exI [of _ "[]"])
  next
    case True
    from "1.prems"(3) True obtain chunk child' u1 cbb1 where
      g: "CBS_get_asn1 tag child = (Some chunk, child')"
      and a: "CBB_add_bytes m 0 (CBS_data chunk) cbb = (Some u1, cbb1)"
      and l: "implicit_string_loop m tag child' cbb1 = (Some u, cbb')"
      by (auto simp: implicit_string_loop.simps [of m tag child] split: prod.splits option.splits)
    have c: "child = der_element tag chunk @ child'" and lc: "length chunk < 2 ^ 32"
      using g by (simp_all add: CBS_get_asn1_iff)
    have "flush_result m cbb (Some [(Top, bs @ chunk)]) (Some u1, cbb1)"
      using CBB_add_bytes_top [OF "1.prems"(1,2), of chunk] a lc by (simp add: CBS_data_def)
    then have rel1: "cbb_rel cbb1 [(Top, bs @ chunk)]" by (rule flush_result_SomeD)
    obtain cs where "child' = chunks_der tag cs" "\<forall>c \<in> set cs. length c < 2 ^ 32"
      "cbb_rel cbb' [(Top, (bs @ chunk) @ concat cs)]"
      using "1.IH" [OF True g [symmetric] refl a [symmetric] refl "1.prems"(1) rel1 l] by auto
    with c lc show ?thesis by (auto simp: chunks_der_def intro!: exI [of _ "chunk # cs"])
  qed
qed

lemma implicit_string_loop_complete:
  "malloc_law m \<Longrightarrow> cbb_rel cbb [(Top, bs)] \<Longrightarrow> resizable cbb \<Longrightarrow> \<forall>c \<in> set cs. length c < 2 ^ 32 \<Longrightarrow>
   grants m (2 * (length bs + length (concat cs)) + 8) \<Longrightarrow>
     \<exists>cbb'. implicit_string_loop m tag (chunks_der tag cs) cbb = (Some (), cbb') \<and>
       cbb_rel cbb' [(Top, bs @ concat cs)]"
proof (induction cs arbitrary: bs cbb)
  case Nil
  then show ?case by (simp add: chunks_der_def implicit_string_loop.simps CBS_len_def)
next
  case (Cons c cs)
  have g: "CBS_get_asn1 tag (chunks_der tag (c # cs)) = (Some c, chunks_der tag cs)"
    using Cons.prems(4) by (intro CBS_get_asn1_chunks) simp
  have ne: "CBS_len (chunks_der tag (c # cs)) > 0"
    using length_der_header_ge [of tag "length c"]
    by (cases "der_header tag (length c)") (simp_all add: CBS_len_def chunks_der_def der_element_def)
  obtain r cbb1 where a: "CBB_add_bytes m 0 c cbb = (r, cbb1)" by (cases "CBB_add_bytes m 0 c cbb")
  have "flush_result m cbb (Some [(Top, bs @ c)]) (r, cbb1)"
    using CBB_add_bytes_top [OF Cons.prems(1,2), of c] Cons.prems(4) a by simp
  moreover have "grants m (2 * length (render [(Top, bs @ c)]) + 8)"
    using Cons.prems(5) by (simp add: grants_def)
  ultimately obtain u where "r = Some u" "cbb_rel cbb1 [(Top, bs @ c)]" "resizable cbb1"
    using flush_result_granted Cons.prems(3) by blast
  with Cons.IH [of cbb1 "bs @ c"] Cons.prems g ne a show ?case
    by (simp add: implicit_string_loop.simps [of m tag "chunks_der tag (c # cs)"] CBS_data_def add.assoc)
qed

lemma peek_tag_der_element:
  "tag \<noteq> tag' \<Longrightarrow> \<not> CBS_peek_asn1_tag (der_element tag c @ t) tag'"
proof
  assume "tag \<noteq> tag'" and "CBS_peek_asn1_tag (der_element tag c @ t) tag'"
  then obtain t' where "der_element tag c @ t = der_tag tag' @ t'" by (auto simp: CBS_peek_asn1_tag_iff)
  then have "parse_asn1_tag (der_element tag c @ t) = (Some tag', t')" by (simp add: parse_asn1_tag_iff)
  moreover have "parse_asn1_tag (der_element tag c @ t) = (Some tag, der_length (length c) @ c @ t)"
    by (simp add: parse_asn1_tag_iff der_element_def der_header_def)
  ultimately show False using \<open>tag \<noteq> tag'\<close> by simp
qed

lemma CBS_get_asn1_implicit_string_sound:
  assumes m: "malloc_law m" and n: "length s + 8 < 2 ^ 63"
    and r: "CBS_get_asn1_implicit_string m outer inner s = (Some (out, st), s')"
  shows "(st = None \<and> s = der_element outer out @ s') \<or>
    (\<exists>cs. st = Some (concat cs) \<and> out = concat cs \<and>
       s = der_element (outer OR CBS_ASN1_CONSTRUCTED) (chunks_der inner cs) @ s')"
proof (cases "CBS_peek_asn1_tag s outer")
  case True
  with r show ?thesis
    by (auto simp: CBS_get_asn1_implicit_string_def CBS_get_asn1_iff split: prod.splits option.splits)
next
  case False
  from r False obtain cbb child u cbb1 dat cbb2 where
    i: "CBB_init m (CBS_len s) = (Some (), cbb)"
    and c: "CBS_get_asn1 (outer OR CBS_ASN1_CONSTRUCTED) s = (Some child, s')"
    and l: "implicit_string_loop m inner child cbb = (Some u, cbb1)"
    and f: "CBB_finish m cbb1 = (Some dat, cbb2)"
    and out: "out = CBS_init dat (length dat)" "st = Some dat"
    by (auto simp: CBS_get_asn1_implicit_string_def split: prod.splits option.splits)
  have "cbb_rel cbb [(Top, [])]" using CBB_init_refines [OF m _ i] n by (simp add: CBS_len_def)
  from implicit_string_loop_sound [OF m this l]
  obtain cs where cs: "child = chunks_der inner cs" "cbb_rel cbb1 [(Top, concat cs)]" by auto
  from CBB_finish_leaf [OF cs(2), of m] f have "dat = concat cs" by simp
  with cs(1) c out show ?thesis by (auto simp: CBS_get_asn1_iff CBS_init_def)
qed

lemma CBS_get_asn1_implicit_string_complete:
  assumes m: "malloc_law m" and tags: "outer AND CBS_ASN1_CONSTRUCTED = 0"
    and cs: "\<forall>c \<in> set cs. length c < 2 ^ 32" and n: "length (chunks_der inner cs) < 2 ^ 32"
    and s: "s = der_element (outer OR CBS_ASN1_CONSTRUCTED) (chunks_der inner cs) @ t"
    and g: "grants m (2 * length s + 40)" and ls: "length s + 8 < 2 ^ 63"
  shows "CBS_get_asn1_implicit_string m outer inner s = (Some (concat cs, Some (concat cs)), t)"
proof -
  have ne: "outer OR CBS_ASN1_CONSTRUCTED \<noteq> outer"
  proof
    assume "outer OR CBS_ASN1_CONSTRUCTED = outer"
    then have "outer AND CBS_ASN1_CONSTRUCTED = (outer OR CBS_ASN1_CONSTRUCTED) AND CBS_ASN1_CONSTRUCTED" by simp
    also have "\<dots> = CBS_ASN1_CONSTRUCTED" by (simp add: bit.conj_disj_distrib2)
    finally show False using tags by (simp add: CBS_ASN1_CONSTRUCTED_eq)
  qed
  have peek: "\<not> CBS_peek_asn1_tag s outer" unfolding s by (rule peek_tag_der_element [OF ne])
  have "grants m (max 40 (CBS_len s + 8))" using g by (simp add: grants_def CBS_len_def)
  then obtain cbb where i: "CBB_init m (CBS_len s) = (Some (), cbb)" "cbb_rel cbb [(Top, [])]" "resizable cbb"
    using CBB_init_granted [OF m, of "CBS_len s"] ls by (auto simp: CBS_len_def)
  have get: "CBS_get_asn1 (outer OR CBS_ASN1_CONSTRUCTED) s = (Some (chunks_der inner cs), t)"
    using s n by (simp add: CBS_get_asn1_iff)
  have "length (concat cs) \<le> length (chunks_der inner cs)"
    by (induction cs) (auto simp: chunks_der_def der_element_def)
  also have "\<dots> \<le> length s" by (simp add: s der_element_def)
  finally have "grants m (2 * (length [] + length (concat cs)) + 8)" using g by (simp add: grants_def)
  from implicit_string_loop_complete [OF m i(2,3) cs this]
  obtain cbb' where l: "implicit_string_loop m inner (chunks_der inner cs) cbb = (Some (), cbb')"
    and rel: "cbb_rel cbb' [(Top, concat cs)]" by auto
  show ?thesis
    using peek i(1) get l CBB_finish_leaf [OF rel, of m]
    by (simp add: CBS_get_asn1_implicit_string_def CBS_init_def)
qed

section \<open>Properties\<close>

lemma length_chunk_le: "c \<in> set cs \<Longrightarrow> length c \<le> length (chunks_der tag cs)"
  by (induction cs) (auto simp: chunks_der_def der_element_def)

text \<open>C12: \<open>CBS_get_asn1_implicit_string\<close> is exact: it accepts either a primitive element with the
  outer tag, whose contents it returns in place, or a constructed element with the outer tag
  whose children are primitive DER elements with the inner tag, and then returns the
  concatenation of their contents in a buffer of its own.\<close>

theorem CBS_get_asn1_implicit_string_exact:
  assumes "malloc_law m" and "outer AND CBS_ASN1_CONSTRUCTED = 0" and "length s < 2 ^ 32"
    and "grants m (2 * length s + 40)"
  shows "CBS_get_asn1_implicit_string m outer inner s = (Some (out, st), s') \<longleftrightarrow>
    (st = None \<and> s = der_element outer out @ s') \<or>
    (st = Some out \<and> (\<exists>cs. out = concat cs \<and>
       s = der_element (outer OR CBS_ASN1_CONSTRUCTED) (chunks_der inner cs) @ s'))"
    (is "?l \<longleftrightarrow> ?r")
proof
  have "length s + 8 < 2 ^ 63" using assms(3) by simp
  then show "?l \<Longrightarrow> ?r" using CBS_get_asn1_implicit_string_sound [OF assms(1)] by blast
next
  assume ?r
  then show ?l
  proof (elim disjE conjE exE)
    assume st: "st = None" and s: "s = der_element outer out @ s'"
    have "length out < 2 ^ 32" using assms(3) s by (simp add: der_element_def)
    moreover have "CBS_peek_asn1_tag s outer"
      by (auto simp: CBS_peek_asn1_tag_iff s der_element_def der_header_def)
    moreover have "CBS_get_asn1 outer s = (Some out, s')"
      using s calculation(1) by (simp add: CBS_get_asn1_iff)
    ultimately show ?l using st by (simp add: CBS_get_asn1_implicit_string_def)
  next
    fix cs assume st: "st = Some out" and out: "out = concat cs"
      and s: "s = der_element (outer OR CBS_ASN1_CONSTRUCTED) (chunks_der inner cs) @ s'"
    have n: "length (chunks_der inner cs) < 2 ^ 32" using assms(3) s by (simp add: der_element_def)
    have "\<forall>c \<in> set cs. length c < 2 ^ 32" using length_chunk_le [of _ cs inner] n by (meson le_less_trans)
    from CBS_get_asn1_implicit_string_complete [OF assms(1,2) this n s assms(4)] assms(3) st out show ?l by simp
  qed
qed

theorem CBS_get_asn1_implicit_string_exact_witness:
  "CBS_get_asn1_implicit_string generous 0x80000001 4 [0xa1, 6, 4, 1, 7, 4, 1, 8, 9] =
    (Some ([7, 8], Some [7, 8]), [9])"
proof -
  have "[0xa1, 6, 4, 1, 7, 4, 1, 8, 9] =
      der_element (0x80000001 OR CBS_ASN1_CONSTRUCTED) (chunks_der 4 [[7], [8]]) @ [9]"
    by (simp add: chunks_der_def der_element_def der_header_def der_tag_def der_length_forms CBS_ASN1_CONSTRUCTED_eq)
  then show ?thesis
    by (subst CBS_get_asn1_implicit_string_exact) (auto simp: CBS_ASN1_CONSTRUCTED_eq intro!: exI [of _ "[[7], [8]]"])
qed

end
