(* ===== verification/BerDer.thy ===== *)
theory BerDer
  imports Ber
begin

text \<open>
  What \<open>crypto/bytestring/ber.c\<close> computes: the DER encoding of the value whose BER encoding it
  reads. A BER value is a tree, with primitive elements at the leaves and constructed elements, of
  definite or indefinite length, at the inner nodes.
\<close>

section \<open>BER values and their two encodings\<close>

datatype ber =
    Prim u32 "byte list"
  | Constr bool u32 "ber list"

fun ber_enc :: "ber \<Rightarrow> byte list" where
  "ber_enc (Prim tag c) = der_element tag c"
| "ber_enc (Constr indefinite tag ts) =
     (if indefinite then der_tag tag @ 0x80 # concat (map ber_enc ts) @ [0, 0]
      else der_element tag (concat (map ber_enc ts)))"

text \<open>The characters of a constructed string, and the DER encoding, in which strings are primitive.\<close>

fun ber_body :: "ber \<Rightarrow> byte list" where
  "ber_body (Prim tag c) = c"
| "ber_body (Constr indefinite tag ts) = concat (map ber_body ts)"

fun to_der :: "ber \<Rightarrow> byte list" where
  "to_der (Prim tag c) = der_element tag c"
| "to_der (Constr indefinite tag ts) =
     (if is_string_type tag then der_element (tag AND NOT CBS_ASN1_CONSTRUCTED) (concat (map ber_body ts))
      else der_element tag (concat (map to_der ts)))"

text \<open>The tag that the parts of a string have to have, 0 outside strings.\<close>

definition part_tag :: "u32 \<Rightarrow> u32 \<Rightarrow> u32" where
  "part_tag string_tag tag =
     (if string_tag = 0 \<and> is_string_type tag then tag AND NOT CBS_ASN1_CONSTRUCTED else string_tag)"

fun ber_ok :: "u32 \<Rightarrow> ber \<Rightarrow> bool" where
  "ber_ok st (Prim tag c) \<longleftrightarrow>
     tag AND CBS_ASN1_CONSTRUCTED = 0 \<and> (tag \<noteq> 0 \<or> c \<noteq> []) \<and> (st = 0 \<or> tag = st) \<and> length c < 2 ^ 32"
| "ber_ok st (Constr indefinite tag ts) \<longleftrightarrow>
     tag AND CBS_ASN1_CONSTRUCTED \<noteq> 0 \<and> (st = 0 \<or> tag AND NOT CBS_ASN1_CONSTRUCTED = st) \<and>
     (\<forall>t \<in> set ts. ber_ok (part_tag st tag) t) \<and>
     (\<not> indefinite \<longrightarrow> length (concat (map ber_enc ts)) < 2 ^ 32)"

fun ber_height :: "ber \<Rightarrow> nat" where
  "ber_height (Prim tag c) = 0"
| "ber_height (Constr indefinite tag ts) = Suc (foldr max (map ber_height ts) 0)"

definition part_out :: "u32 \<Rightarrow> ber list \<Rightarrow> byte list" where
  "part_out st ts = concat (map (if st = 0 then to_der else ber_body) ts)"

lemma height_child: "t \<in> set ts \<Longrightarrow> ber_height t \<le> foldr max (map ber_height ts) 0"
  by (induction ts) (auto simp: max_def)

section \<open>Reading one element\<close>

lemma get_definite:
  "length c < 2 ^ 32 \<Longrightarrow> CBS_get_any_ber_asn1_element (der_element tag c @ t) =
     (Some (der_element tag c, tag, length (der_header tag (length c))), t)"
  by (simp add: CBS_get_any_ber_asn1_element_def cbs_get_any_asn1_element_complete)

lemma get_indefinite:
  assumes "tag AND CBS_ASN1_CONSTRUCTED \<noteq> 0"
  shows "CBS_get_any_ber_asn1_element (der_tag tag @ 0x80 # t) =
    (Some (der_tag tag @ [0x80], tag, length (der_tag tag) + 1), t)"
proof -
  have "parse_asn1_tag (der_tag tag @ 0x80 # t) = (Some tag, 0x80 # t)" by (simp add: parse_asn1_tag_iff)
  moreover have "cbs_get (Suc (length (der_tag tag))) (der_tag tag @ 0x80 # t) = (Some (der_tag tag @ [0x80]), t)"
    using cbs_get_append [of "der_tag tag @ [0x80]" _ t] by simp
  ultimately show ?thesis using assms
    by (simp add: CBS_get_any_ber_asn1_element_def cbs_get_any_asn1_element_def CBS_len_def op_simps CBS_get_bytes_eq)
qed

lemma der_length_0: "der_length 0 = [0]"
  by (simp add: der_length_def)

lemma definite_not_indefinite:
  "\<not> is_indefinite (der_element tag c) (length (der_header tag (length c)))"
proof (cases c)
  case Nil
  then show ?thesis
    by (simp add: is_indefinite_def CBS_data_def der_element_def der_header_def der_length_0 nth_append)
next
  case Cons
  then show ?thesis by (simp add: is_indefinite_def CBS_len_def der_element_def)
qed

lemma indefinite_is: "is_indefinite (der_tag tag @ [0x80]) (length (der_tag tag) + 1)"
  by (simp add: is_indefinite_def CBS_len_def CBS_data_def nth_append)

lemma der_element_eoc: "der_element 0 [] = [0, 0]"
  by (simp add: der_element_def der_header_def der_tag_def der_length_0)

lemma memcmp_2: "OPENSSL_memcmp [x, y] [0, 0] 2 = 0 \<longleftrightarrow> x = 0 \<and> y = 0" for x y :: byte
  by (simp add: numeral_2_eq_2)

lemma der_tag_0: "der_tag 0 = [0]"
  by (simp add: der_tag_def)

lemma der_tag_inj:
  assumes "der_tag tag = der_tag tag'"
  shows "tag = tag'"
proof -
  have "parse_asn1_tag (der_tag tag @ []) = (Some tag, [])" by (simp add: parse_asn1_tag_iff)
  moreover have "parse_asn1_tag (der_tag tag' @ []) = (Some tag', [])" by (simp add: parse_asn1_tag_iff)
  ultimately show ?thesis using assms by simp
qed

lemma eoc_definite:
  "is_eoc (length (der_header tag (length c))) (der_element tag c) \<longleftrightarrow> tag = 0 \<and> c = []"
proof
  assume e: "is_eoc (length (der_header tag (length c))) (der_element tag c)"
  then have "length (der_header tag (length c)) = 2" "length (der_header tag (length c)) + length c = 2"
    unfolding is_eoc_def CBS_len_def der_element_def length_append by blast+
  then have c: "c = []" by simp
  with e have l: "length (der_tag tag @ [0]) = 2"
    by (simp add: is_eoc_def CBS_len_def der_element_def der_header_def der_length_0)
  then obtain x where x: "der_tag tag = [x]" by (auto simp: length_Suc_conv)
  then have "x = 0" using e c
    by (simp add: is_eoc_def CBS_data_def der_element_def der_header_def der_length_0 memcmp_2)
  then have "der_tag tag = der_tag 0" using x by (simp add: der_tag_0)
  with c der_tag_inj show "tag = 0 \<and> c = []" by blast
next
  assume "tag = 0 \<and> c = []"
  then show "is_eoc (length (der_header tag (length c))) (der_element tag c)"
    by (simp add: is_eoc_def CBS_len_def CBS_data_def der_element_def der_header_def der_length_0 der_tag_0 memcmp_2)
qed

lemma eoc_indefinite: "\<not> is_eoc (length (der_tag tag) + 1) (der_tag tag @ [0x80])"
proof
  assume e: "is_eoc (length (der_tag tag) + 1) (der_tag tag @ [0x80])"
  then obtain x where x: "der_tag tag = [x]" by (auto simp: is_eoc_def length_Suc_conv)
  with e show False by (simp add: is_eoc_def CBS_data_def memcmp_2)
qed

section \<open>One turn of the conversion\<close>

text \<open>An element in a string is handled without a header of its own.\<close>

lemma turn_string:
  assumes st: "st \<noteq> 0" and tag: "tag AND NOT CBS_ASN1_CONSTRUCTED = st" and ne: "inp \<noteq> []"
    and get: "CBS_get_any_ber_asn1_element inp = (Some (e, tag, hl), inp1)" and eoc: "\<not> is_eoc hl e"
    and skip: "\<not> is_indefinite e hl \<longrightarrow> (\<exists>u. CBS_skip hl e = (Some u, c))"
  shows "convert_turn m st eoc d inp out =
    (if is_indefinite e hl then Indefinite st d inp1 out
     else if tag AND CBS_ASN1_CONSTRUCTED \<noteq> 0 then Nested st d c inp1 out
     else (case CBB_add_bytes m d c out of (None, out2) \<Rightarrow> Return False inp1 out2 | (Some _, out2) \<Rightarrow> Copied inp1 out2))"
  using assms by (auto simp: convert_turn_def CBS_len_def)

lemma turn_element:
  assumes ne: "inp \<noteq> []"
    and get: "CBS_get_any_ber_asn1_element inp = (Some (e, tag, hl), inp1)" and eoc: "\<not> is_eoc hl e"
    and skip: "\<not> is_indefinite e hl \<longrightarrow> (\<exists>u. CBS_skip hl e = (Some u, c))"
    and add: "CBB_add_asn1 m d (if tag AND CBS_ASN1_CONSTRUCTED \<noteq> 0 \<and> is_string_type tag
        then tag AND NOT CBS_ASN1_CONSTRUCTED else tag) out = (Some u, out1)"
  shows "convert_turn m 0 eoc d inp out =
    (if is_indefinite e hl then
       Indefinite (if tag AND CBS_ASN1_CONSTRUCTED \<noteq> 0 then part_tag 0 tag else 0) (d + 1) inp1 out1
     else if tag AND CBS_ASN1_CONSTRUCTED \<noteq> 0 then Nested (part_tag 0 tag) (d + 1) c inp1 out1
     else (case CBB_add_bytes m (d + 1) c out1 of
             (None, out2) \<Rightarrow> Return False inp1 out2 | (Some _, out2) \<Rightarrow> Copied inp1 out2))"
  using assms by (auto simp: convert_turn_def CBS_len_def part_tag_def)

section \<open>The conversion of a list of elements\<close>

text \<open>A builder operation that the allocator serves.\<close>

lemma granted_op:
  assumes "flush_result m cbb (Some fs) res" and "resizable cbb" and "grants m (2 * L + 8)"
    and "length (render fs) \<le> L"
  obtains u cbb' where "res = (Some u, cbb')" "cbb_rel cbb' fs" "resizable cbb'"
proof -
  have "grants m (2 * length (render fs) + 8)" using assms(3,4) by (simp add: grants_def)
  moreover have "flush_result m cbb (Some fs) (fst res, snd res)" using assms(1) by simp
  ultimately obtain u where "fst res = Some u" "cbb_rel (snd res) fs" "resizable (snd res)"
    using flush_result_granted assms(2) by blast
  then show thesis by (intro that [of u "snd res"]) (simp_all add: prod_eq_iff)
qed

lemma flush_leaf_frames: "flush_frames (length xs) (xs @ [(k, c)]) = Some (xs @ [(k, c)])"
  by (simp add: flush_frames_def)

lemma flush_one_child:
  "length b \<le> 0xfffffffe \<Longrightarrow>
     flush_frames (length xs) (xs @ [(k, c), (Asn1, b)]) = Some (xs @ [(k, c @ der_length (length b) @ b)])"
  by (simp add: flush_frames_def)

lemma length_der_length_ge: "1 \<le> length (der_length n)"
  by (simp add: length_der_length)

lemma flush_leaf:
  assumes "cbb_rel cbb (xs @ [(k, c)])"
  shows "CBB_flush m (length xs) cbb = (Some (), cbb)"
proof -
  have "length (nodes_of 0 (xs @ [(k, c)])) = length xs + 1" by simp
  with assms show ?thesis by (auto simp: cbb_rel_def intro!: CBB_flush_leaf)
qed

text \<open>Opening an element at the end of a frame.\<close>

lemma open_element:
  assumes m: "malloc_law m" and rel: "cbb_rel cbb (xs @ [(k, c)])" and rs: "resizable cbb"
    and g: "grants m (2 * L + 8)" and L: "length (render (xs @ [(k, c @ der_tag tag)])) + 1 \<le> L"
  obtains u cbb' where "CBB_add_asn1 m (length xs) tag cbb = (Some u, cbb')"
    "cbb_rel cbb' ((xs @ [(k, c @ der_tag tag)]) @ [(Asn1, [])])" "resizable cbb'"
proof -
  have o: "open_asn1 (length xs) tag (xs @ [(k, c)]) = Some ((xs @ [(k, c @ der_tag tag)]) @ [(Asn1, [])])"
    by (simp add: open_asn1_def flush_leaf_frames)
  have "flush_result m cbb (Some ((xs @ [(k, c @ der_tag tag)]) @ [(Asn1, [])])) (CBB_add_asn1 m (length xs) tag cbb)"
    using CBB_add_asn1_refines [OF m rel, of "length xs" tag] unfolding o by simp
  from granted_op [OF this rs g] L that show thesis by (auto simp: render_append)
qed

text \<open>Closing it.\<close>

lemma close_element:
  assumes m: "malloc_law m" and rel: "cbb_rel cbb ((xs @ [(k, c @ der_tag tag)]) @ [(Asn1, b)])" and rs: "resizable cbb"
    and g: "grants m (2 * L + 8)" and L: "length (render (xs @ [(k, c @ der_element tag b)])) \<le> L"
    and b: "length b \<le> 0xfffffffe"
  obtains u cbb' where "CBB_flush m (length xs) cbb = (Some u, cbb')"
    "cbb_rel cbb' (xs @ [(k, c @ der_element tag b)])" "resizable cbb'"
proof -
  have "flush_frames (length xs) (xs @ [(k, c @ der_tag tag), (Asn1, b)]) = Some (xs @ [(k, c @ der_element tag b)])"
    using flush_one_child [OF b, of xs k "c @ der_tag tag"] by (simp add: der_element_def der_header_def)
  moreover have "flush_result m cbb (flush_frames (length xs) (xs @ [(k, c @ der_tag tag), (Asn1, b)]))
      (CBB_flush m (length xs) cbb)"
    using CBB_flush_refines [OF m rel, of "length xs"] by simp
  ultimately have "flush_result m cbb (Some (xs @ [(k, c @ der_element tag b)])) (CBB_flush m (length xs) cbb)" by simp
  from granted_op [OF this rs g L] that show thesis by blast
qed

lemma add_contents:
  assumes m: "malloc_law m" and rel: "cbb_rel cbb (xs @ [(k, c)])" and rs: "resizable cbb"
    and g: "grants m (2 * L + 8)" and L: "length (render (xs @ [(k, c @ b)])) \<le> L" and b: "length b < 2 ^ 63"
  obtains u cbb' where "CBB_add_bytes m (length xs) b cbb = (Some u, cbb')"
    "cbb_rel cbb' (xs @ [(k, c @ b)])" "resizable cbb'"
proof -
  have "flush_result m cbb (Some (xs @ [(k, c @ b)])) (CBB_add_bytes m (length xs) b cbb)"
    using CBB_add_bytes_refines [OF m rel, of "length xs" b] b by (simp add: add_frames_leaf)
  from granted_op [OF this rs g L] that show thesis by blast
qed

definition elem_out :: "u32 \<Rightarrow> ber \<Rightarrow> byte list" where
  "elem_out st t = (if st = 0 then to_der t else ber_body t)"

lemma part_out_simps [simp]: "part_out st [] = []" "part_out st (t # ts) = elem_out st t @ part_out st ts"
  by (simp_all add: part_out_def elem_out_def)

text \<open>What the conversion of a list of elements has to achieve, up to the end of its window or up to
  the end-of-contents marker.\<close>

definition converts :: "mallocf \<Rightarrow> nat \<Rightarrow> u32 \<Rightarrow> nat \<Rightarrow> ber list \<Rightarrow> bool" where
  "converts m L st depth ts \<longleftrightarrow>
     (\<forall>cbb xs k c eoc tail. cbb_rel cbb (xs @ [(k, c)]) \<longrightarrow> resizable cbb \<longrightarrow>
        length (render (xs @ [(k, c @ part_out st ts)])) \<le> L \<longrightarrow>
        (\<exists>cbb'. cbs_convert_ber m st eoc depth (length xs)
             (concat (map ber_enc ts) @ (if eoc then 0 # 0 # tail else [])) cbb = (True, if eoc then tail else [], cbb') \<and>
           cbb_rel cbb' (xs @ [(k, c @ part_out st ts)]) \<and> resizable cbb'))"

lemma convertsD:
  assumes "converts m L st depth ts" and "cbb_rel cbb (xs @ [(k, c)])" and "resizable cbb"
    and "length (render (xs @ [(k, c @ part_out st ts)])) \<le> L"
  shows "\<exists>cbb'. cbs_convert_ber m st False depth (length xs) (concat (map ber_enc ts)) cbb = (True, [], cbb') \<and>
      cbb_rel cbb' (xs @ [(k, c @ part_out st ts)]) \<and> resizable cbb'"
    and "\<exists>cbb'. cbs_convert_ber m st True depth (length xs) (concat (map ber_enc ts) @ 0 # 0 # tail) cbb = (True, tail, cbb') \<and>
      cbb_rel cbb' (xs @ [(k, c @ part_out st ts)]) \<and> resizable cbb'"
proof -
  note c = assms(1) [unfolded converts_def, rule_format, OF assms(2-4)]
  show "\<exists>cbb'. cbs_convert_ber m st False depth (length xs) (concat (map ber_enc ts)) cbb = (True, [], cbb') \<and>
      cbb_rel cbb' (xs @ [(k, c @ part_out st ts)]) \<and> resizable cbb'"
    using c [of False] by simp
  show "\<exists>cbb'. cbs_convert_ber m st True depth (length xs) (concat (map ber_enc ts) @ 0 # 0 # tail) cbb = (True, tail, cbb') \<and>
      cbb_rel cbb' (xs @ [(k, c @ part_out st ts)]) \<and> resizable cbb'"
    using c [of True tail] by simp
qed

lemma string_tag_nonzero: "is_string_type tag \<Longrightarrow> tag AND NOT CBS_ASN1_CONSTRUCTED \<noteq> 0"
  by (auto simp: is_string_type_def)

lemma skip_definite: "\<exists>u. CBS_skip (length (der_header tag (length c))) (der_element tag c) = (Some u, c)"
  by (simp add: der_element_def CBS_skip_append)

text \<open>One element, given the conversion of its children.\<close>

lemma convert_primitive:
  assumes m: "malloc_law m" and g: "grants m (2 * L + 8)" and depth: "depth \<le> kMaxDepth"
    and ok: "ber_ok st (Prim tag b)" and rel: "cbb_rel cbb (xs @ [(k, c)])" and rs: "resizable cbb"
    and L: "length (render (xs @ [(k, c @ elem_out st (Prim tag b))])) \<le> L" "L \<le> 0xfffffffe"
  shows "\<exists>cbb1. cbs_convert_ber m st eoc depth (length xs) (ber_enc (Prim tag b) @ rest) cbb =
      cbs_convert_ber m st eoc depth (length xs) rest cbb1 \<and>
    cbb_rel cbb1 (xs @ [(k, c @ elem_out st (Prim tag b))]) \<and> resizable cbb1"
proof -
  have len: "length b < 2 ^ 32" and con: "tag AND CBS_ASN1_CONSTRUCTED = 0" and ne: "tag \<noteq> 0 \<or> b \<noteq> []"
    using ok by simp_all
  let ?e = "der_element tag b" and ?hl = "length (der_header tag (length b))"
  have get: "CBS_get_any_ber_asn1_element (?e @ rest) = (Some (?e, tag, ?hl), rest)" by (rule get_definite [OF len])
  have eoc: "\<not> is_eoc ?hl ?e" using ne by (auto simp: eoc_definite)
  have nd: "\<not> is_indefinite ?e ?hl" by (rule definite_not_indefinite)
  have ne': "?e @ rest \<noteq> []" using length_der_header_ge [of tag "length b"] by (auto simp: der_element_def)
  have blen: "length b \<le> L" using L(1) by (auto simp: render_append elem_out_def der_element_def split: if_splits)
  show ?thesis
  proof (cases "st = 0")
    case False
    have tag: "tag AND NOT CBS_ASN1_CONSTRUCTED = st"
    proof -
      have "tag = tag AND (CBS_ASN1_CONSTRUCTED OR NOT CBS_ASN1_CONSTRUCTED)" by simp
      also have "\<dots> = (tag AND CBS_ASN1_CONSTRUCTED) OR (tag AND NOT CBS_ASN1_CONSTRUCTED)"
        by (simp only: bit.conj_disj_distrib)
      finally show ?thesis using con ok False by simp
    qed
    have out: "elem_out st (Prim tag b) = b" using False by (simp add: elem_out_def)
    have "length b < 2 ^ 63" using len by simp
    then obtain u cbb1 where a: "CBB_add_bytes m (length xs) b cbb = (Some u, cbb1)"
      "cbb_rel cbb1 (xs @ [(k, c @ b)])" "resizable cbb1"
      using add_contents [OF m rel rs g L(1) [unfolded out]] by blast
    have "convert_turn m st eoc (length xs) (?e @ rest) cbb = Copied rest cbb1"
      using turn_string [OF False tag ne' get eoc, of b m] nd skip_definite [of tag b] con a(1) by simp
    then show ?thesis using depth flush_leaf [OF a(2), of m] a(2,3)
      by (intro exI [of _ cbb1]) (simp add: cbs_convert_ber.simps [of m st eoc depth "length xs" "?e @ rest"] out)
  next
    case True
    have out: "elem_out st (Prim tag b) = der_element tag b" using True by (simp add: elem_out_def)
    have L1: "length (render (xs @ [(k, c @ der_tag tag)])) + 1 \<le> L"
      using L(1) length_der_length_ge [of "length b"] by (simp add: render_append out der_element_def der_header_def)
    obtain u cbb1 where o: "CBB_add_asn1 m (length xs) tag cbb = (Some u, cbb1)"
      "cbb_rel cbb1 ((xs @ [(k, c @ der_tag tag)]) @ [(Asn1, [])])" "resizable cbb1"
      by (rule open_element [OF m rel rs g L1])
    have L2: "length (render ((xs @ [(k, c @ der_tag tag)]) @ [(Asn1, [] @ b)])) \<le> L"
      using L(1) length_der_length_ge [of "length b"] by (simp add: render_append out der_element_def der_header_def)
    have "length b < 2 ^ 63" using len by simp
    then obtain u2 cbb2 where a: "CBB_add_bytes m (length xs + 1) b cbb1 = (Some u2, cbb2)"
      "cbb_rel cbb2 ((xs @ [(k, c @ der_tag tag)]) @ [(Asn1, b)])" "resizable cbb2"
      using add_contents [OF m o(2,3) g L2] by auto
    have "length b \<le> 0xfffffffe" using blen L(2) by simp
    from close_element [OF m a(2,3) g L(1) [unfolded out] this]
    obtain u3 cbb3 where f: "CBB_flush m (length xs) cbb2 = (Some u3, cbb3)"
      "cbb_rel cbb3 (xs @ [(k, c @ der_element tag b)])" "resizable cbb3" by blast
    have "convert_turn m 0 eoc (length xs) (?e @ rest) cbb = Copied rest cbb2"
      using turn_element [OF ne' get eoc, of b m "length xs" cbb u cbb1] nd skip_definite [of tag b] con a(1) o(1) by simp
    then show ?thesis using depth f True out
      by (intro exI [of _ cbb3]) (simp add: cbs_convert_ber.simps [of m 0 eoc depth "length xs" "?e @ rest"])
  qed
qed

text \<open>One turn of the loop and the flush behind it.\<close>

lemma convert_after:
  "depth \<le> kMaxDepth \<Longrightarrow> convert_turn m st eoc d inp out = Indefinite t d' inp1 out1 \<Longrightarrow>
     cbs_convert_ber m t True (depth + 1) d' inp1 out1 = (True, inp2, out2) \<Longrightarrow> CBB_flush m d out2 = (Some u, out3) \<Longrightarrow>
     cbs_convert_ber m st eoc depth d inp out = cbs_convert_ber m st eoc depth d inp2 out3"
  "depth \<le> kMaxDepth \<Longrightarrow> convert_turn m st eoc d inp out = Nested t d' ct inp1 out1 \<Longrightarrow>
     cbs_convert_ber m t False (depth + 1) d' ct out1 = (True, r, out2) \<Longrightarrow> CBB_flush m d out2 = (Some u, out3) \<Longrightarrow>
     cbs_convert_ber m st eoc depth d inp out = cbs_convert_ber m st eoc depth d inp1 out3"
  by (simp_all add: cbs_convert_ber.simps [of m st eoc depth d inp])

lemma concat_enc_less:
  "length (concat (map ber_enc ts)) < length (ber_enc (Constr i tag ts))"
  using length_der_header_ge [of tag "length (concat (map ber_enc ts))"] by (auto simp: der_element_def)

lemma convert_constructed:
  assumes m: "malloc_law m" and g: "grants m (2 * L + 8)" and depth: "depth \<le> kMaxDepth"
    and ok: "ber_ok st (Constr i tag ts)" and rel: "cbb_rel cbb (xs @ [(k, c)])" and rs: "resizable cbb"
    and L: "length (render (xs @ [(k, c @ elem_out st (Constr i tag ts))])) \<le> L" "L \<le> 0xfffffffe"
    and ih: "converts m L (part_tag st tag) (depth + 1) ts"
  shows "\<exists>cbb1. cbs_convert_ber m st eoc depth (length xs) (ber_enc (Constr i tag ts) @ rest) cbb =
      cbs_convert_ber m st eoc depth (length xs) rest cbb1 \<and>
    cbb_rel cbb1 (xs @ [(k, c @ elem_out st (Constr i tag ts))]) \<and> resizable cbb1"
proof -
  let ?B = "concat (map ber_enc ts)" and ?st = "part_tag st tag"
  have con: "tag AND CBS_ASN1_CONSTRUCTED \<noteq> 0" and len: "\<not> i \<Longrightarrow> length ?B < 2 ^ 32" using ok by simp_all
  have tag0: "tag \<noteq> 0" using con by auto
  let ?e = "if i then der_tag tag @ [0x80] else der_element tag ?B"
  let ?hl = "if i then length (der_tag tag) + 1 else length (der_header tag (length ?B))"
  let ?inp1 = "if i then ?B @ 0 # 0 # rest else rest"
  let ?inp = "ber_enc (Constr i tag ts) @ rest"
  have get: "CBS_get_any_ber_asn1_element ?inp = (Some (?e, tag, ?hl), ?inp1)"
    using get_indefinite [OF con, of "?B @ 0 # 0 # rest"] get_definite [OF len, of tag rest] by simp
  have eoc: "\<not> is_eoc ?hl ?e" using eoc_indefinite [of tag] tag0 eoc_definite [of tag ?B] by simp
  have ind: "is_indefinite ?e ?hl \<longleftrightarrow> i" using indefinite_is [of tag] definite_not_indefinite [of tag ?B] by simp
  have skip: "\<not> is_indefinite ?e ?hl \<longrightarrow> (\<exists>u. CBS_skip ?hl ?e = (Some u, ?B))"
    unfolding ind using skip_definite [of tag ?B] by simp
  have ne: "?inp \<noteq> []" using concat_enc_less [of ts i tag] by (cases "ber_enc (Constr i tag ts)") auto
  show ?thesis
  proof (cases "st = 0")
    case False
    have tag: "tag AND NOT CBS_ASN1_CONSTRUCTED = st" and st: "?st = st" using ok False by (simp_all add: part_tag_def)
    have out: "elem_out st (Constr i tag ts) = part_out st ts" using False by (simp add: elem_out_def part_out_def)
    have turn: "convert_turn m st eoc (length xs) ?inp cbb =
        (if i then Indefinite st (length xs) ?inp1 cbb else Nested st (length xs) ?B ?inp1 cbb)"
      using turn_string [OF False tag ne get eoc skip, of m eoc "length xs" cbb] con unfolding ind by simp
    obtain cbb1 where r: "cbb_rel cbb1 (xs @ [(k, c @ part_out st ts)])" "resizable cbb1"
      and "if i then cbs_convert_ber m st True (depth + 1) (length xs) (?B @ 0 # 0 # rest) cbb = (True, rest, cbb1)
           else cbs_convert_ber m st False (depth + 1) (length xs) ?B cbb = (True, [], cbb1)"
      using convertsD [OF ih [unfolded st] rel rs L(1) [unfolded out]] by (cases i) auto
    then have "cbs_convert_ber m st eoc depth (length xs) ?inp cbb = cbs_convert_ber m st eoc depth (length xs) rest cbb1"
      using convert_after(1) [OF depth _ _ flush_leaf [OF r(1)]] convert_after(2) [OF depth _ _ flush_leaf [OF r(1)]] turn
      by (cases i) auto
    with r out show ?thesis by auto
  next
    case True
    let ?out_tag = "if is_string_type tag then tag AND NOT CBS_ASN1_CONSTRUCTED else tag" and ?b = "part_out ?st ts"
    have out: "elem_out st (Constr i tag ts) = der_element ?out_tag ?b"
      using True string_tag_nonzero [of tag] by (simp add: elem_out_def part_out_def part_tag_def)
    have L1: "length (render (xs @ [(k, c @ der_tag ?out_tag)])) + 1 \<le> L"
      using L(1) length_der_length_ge [of "length ?b"]
      unfolding out by (simp add: render_append der_element_def der_header_def)
    obtain u cbb1 where o: "CBB_add_asn1 m (length xs) ?out_tag cbb = (Some u, cbb1)"
      "cbb_rel cbb1 ((xs @ [(k, c @ der_tag ?out_tag)]) @ [(Asn1, [])])" "resizable cbb1"
      by (rule open_element [OF m rel rs g L1])
    have L2: "length (render ((xs @ [(k, c @ der_tag ?out_tag)]) @ [(Asn1, [] @ ?b)])) \<le> L"
      using L(1) length_der_length_ge [of "length ?b"]
      unfolding out by (simp add: render_append der_element_def der_header_def)
    have blen: "length ?b \<le> 0xfffffffe" using L2 L(2) by (simp add: render_append)
    have add: "CBB_add_asn1 m (length xs) (if tag AND CBS_ASN1_CONSTRUCTED \<noteq> 0 \<and> is_string_type tag
        then tag AND NOT CBS_ASN1_CONSTRUCTED else tag) cbb = (Some u, cbb1)"
      using o(1) con by simp
    have st0: "part_tag 0 tag = ?st" using True by simp
    have turn: "convert_turn m 0 eoc (length xs) ?inp cbb =
        (if i then Indefinite ?st (length xs + 1) ?inp1 cbb1 else Nested ?st (length xs + 1) ?B ?inp1 cbb1)"
      using turn_element [OF ne get eoc skip add] con unfolding ind st0 by simp
    obtain cbb2 where r: "cbb_rel cbb2 ((xs @ [(k, c @ der_tag ?out_tag)]) @ [(Asn1, ?b)])" "resizable cbb2"
      and cv: "if i then cbs_convert_ber m ?st True (depth + 1) (length xs + 1) (?B @ 0 # 0 # rest) cbb1 = (True, rest, cbb2)
           else cbs_convert_ber m ?st False (depth + 1) (length xs + 1) ?B cbb1 = (True, [], cbb2)"
      using convertsD [OF ih o(2,3) L2] by (cases i) auto
    obtain u3 cbb3 where f: "CBB_flush m (length xs) cbb2 = (Some u3, cbb3)"
      "cbb_rel cbb3 (xs @ [(k, c @ der_element ?out_tag ?b)])" "resizable cbb3"
      using close_element [OF m r g L(1) [unfolded out] blen] by blast
    have "cbs_convert_ber m 0 eoc depth (length xs) ?inp cbb = cbs_convert_ber m 0 eoc depth (length xs) rest cbb3"
      using convert_after(1) [OF depth _ _ f(1)] convert_after(2) [OF depth _ _ f(1)] turn cv by (cases i) auto
    with f(2,3) True show ?thesis unfolding out by auto
  qed
qed

lemma ber_enc_nonempty: "0 < length (ber_enc t)"
proof (cases t)
  case (Prim tag c)
  then show ?thesis using length_der_header_ge [of tag "length c"] by (auto simp: der_element_def)
next
  case (Constr i tag ts)
  then show ?thesis using concat_enc_less [of ts i tag] by (metis gr_implies_not0 neq0_conv)
qed

lemma convert_end:
  assumes "depth \<le> kMaxDepth"
  shows "cbs_convert_ber m st False depth d [] cbb = (True, [], cbb)"
    and "cbs_convert_ber m st True depth d (0 # 0 # tail) cbb = (True, tail, cbb)"
proof -
  show "cbs_convert_ber m st False depth d [] cbb = (True, [], cbb)"
    using assms by (simp add: cbs_convert_ber.simps [of m st False] convert_turn_def CBS_len_def)
  have "CBS_get_any_ber_asn1_element (0 # 0 # tail) = (Some (der_element 0 [], 0, length (der_header 0 0)), tail)"
    using get_definite [of "[]" 0 tail] by (simp add: der_element_eoc)
  moreover have "is_eoc (length (der_header 0 0)) (der_element 0 [])" using eoc_definite [of 0 "[]"] by simp
  ultimately have "convert_turn m st True d (0 # 0 # tail) cbb = Return True tail cbb"
    by (simp add: convert_turn_def CBS_len_def)
  with assms show "cbs_convert_ber m st True depth d (0 # 0 # tail) cbb = (True, tail, cbb)"
    by (simp add: cbs_convert_ber.simps [of m st True])
qed

lemma converts_all:
  assumes m: "malloc_law m" and g: "grants m (2 * L + 8)" and L: "L \<le> 0xfffffffe"
  shows "\<forall>t \<in> set ts. ber_ok st t \<Longrightarrow> \<forall>t \<in> set ts. depth + ber_height t \<le> kMaxDepth \<Longrightarrow> depth \<le> kMaxDepth \<Longrightarrow>
    converts m L st depth ts"
proof (induction "length (concat (map ber_enc ts))" arbitrary: ts st depth rule: less_induct)
  case less
  show ?case
  proof (cases ts)
    case Nil
    then show ?thesis using convert_end [OF less.prems(3)] by (simp add: converts_def)
  next
    case (Cons t ts')
    have rest: "converts m L st depth ts'"
      using less.prems ber_enc_nonempty [of t] by (intro less.hyps) (simp_all add: Cons)
    have okt: "ber_ok st t" using less.prems(1) by (simp add: Cons)
    have step: "\<exists>cbb1. cbs_convert_ber m st eoc depth (length xs) (ber_enc t @ r) cbb =
        cbs_convert_ber m st eoc depth (length xs) r cbb1 \<and> cbb_rel cbb1 (xs @ [(k, c @ elem_out st t)]) \<and> resizable cbb1"
      if rel: "cbb_rel cbb (xs @ [(k, c)])" and rs: "resizable cbb"
        and len: "length (render (xs @ [(k, c @ elem_out st t)])) \<le> L" for cbb xs k c eoc r
    proof (cases t)
      case (Prim tag b)
      show ?thesis
        using convert_primitive [OF m g less.prems(3) okt [unfolded Prim] rel rs len [unfolded Prim] L] by (simp add: Prim)
    next
      case (Constr i tag us)
      have "converts m L (part_tag st tag) (depth + 1) us"
      proof (rule less.hyps)
        show "length (concat (map ber_enc us)) < length (concat (map ber_enc ts))"
          using concat_enc_less [of us i tag] by (simp add: Cons Constr)
        show "\<forall>u \<in> set us. ber_ok (part_tag st tag) u" using okt by (simp add: Constr)
        have h: "depth + Suc (foldr max (map ber_height us) 0) \<le> kMaxDepth"
          using less.prems(2) by (simp add: Cons Constr)
        show "\<forall>u \<in> set us. depth + 1 + ber_height u \<le> kMaxDepth"
        proof
          fix u assume "u \<in> set us"
          from height_child [OF this] h show "depth + 1 + ber_height u \<le> kMaxDepth" by simp
        qed
        show "depth + 1 \<le> kMaxDepth" using h by simp
      qed
      from convert_constructed [OF m g less.prems(3) okt [unfolded Constr] rel rs len [unfolded Constr] L this]
      show ?thesis by (simp add: Constr)
    qed
    show ?thesis unfolding converts_def
    proof (intro allI impI)
      fix cbb xs k c eoc and tail :: "byte list"
      assume rel: "cbb_rel cbb (xs @ [(k, c)])" and rs: "resizable cbb"
        and len: "length (render (xs @ [(k, c @ part_out st ts)])) \<le> L"
      let ?stop = "if eoc then 0 # 0 # tail else []"
      have "length (render (xs @ [(k, c @ elem_out st t)])) \<le> L" using len by (simp add: Cons render_append)
      from step [OF rel rs this, of eoc "concat (map ber_enc ts') @ ?stop"] obtain cbb1 where
        1: "cbs_convert_ber m st eoc depth (length xs) (ber_enc t @ concat (map ber_enc ts') @ ?stop) cbb =
            cbs_convert_ber m st eoc depth (length xs) (concat (map ber_enc ts') @ ?stop) cbb1"
        and r1: "cbb_rel cbb1 (xs @ [(k, c @ elem_out st t)])" "resizable cbb1" by blast
      have len1: "length (render (xs @ [(k, (c @ elem_out st t) @ part_out st ts')])) \<le> L" using len by (simp add: Cons)
      from rest [unfolded converts_def, rule_format, OF r1 len1, of eoc tail] 1
      show "\<exists>cbb'. cbs_convert_ber m st eoc depth (length xs) (concat (map ber_enc ts) @ ?stop) cbb =
          (True, if eoc then tail else [], cbb') \<and> cbb_rel cbb' (xs @ [(k, c @ part_out st ts)]) \<and> resizable cbb'"
        by (simp add: Cons)
    qed
  qed
qed

section \<open>Properties\<close>


lemma find_definite:
  assumes "length b < 2 ^ 32"
  shows "cbs_find_ber_loop (der_element tag b @ r) found depth =
    (if tag AND CBS_ASN1_CONSTRUCTED \<noteq> 0 then
       (if is_string_type tag then Some True
        else if depth + 1 > kMaxDepth then None
        else (case cbs_find_ber_loop b False (depth + 1) of
                None \<Rightarrow> None
              | Some found' \<Rightarrow> cbs_find_ber_loop r found' depth))
     else cbs_find_ber_loop r found depth)"
proof -
  have "CBS_len (der_element tag b @ r) > 0"
    using length_der_header_ge [of tag "length b"] by (auto simp: CBS_len_def der_element_def)
  then show ?thesis
    using get_definite [OF assms, of tag r] definite_not_indefinite [of tag b] skip_definite [of tag b]
    by (auto simp: cbs_find_ber_loop.simps [of "der_element tag b @ r"] split: option.splits)
qed

lemma find_empty: "cbs_find_ber_loop [] found depth = Some found"
  by (simp add: cbs_find_ber_loop.simps CBS_len_def)

lemma find_indefinite:
  assumes "tag AND CBS_ASN1_CONSTRUCTED \<noteq> 0"
  shows "cbs_find_ber (der_tag tag @ 0x80 # r) 0 = Some True"
  using get_indefinite [OF assms, of r] indefinite_is [of tag]
  by (simp add: cbs_find_ber_def cbs_find_ber_loop.simps [of "der_tag tag @ 0x80 # r"] CBS_len_def)

text \<open>What the walk does not ask to convert is handed out as it is.\<close>

lemma passed_through:
  assumes "e = der_element tag c" and "length c < 2 ^ 32" and "cbs_find_ber e 0 = Some False"
  shows "CBS_asn1_ber_to_der m e = (Some (e, None), [])"
proof -
  have "CBS_get_any_asn1_element e = (Some (e, tag, length (der_header tag (length c))), [])"
    unfolding CBS_get_any_asn1_element_iff using assms(1,2) by (intro conjI exI [of _ c]) simp_all
  with assms(3) show ?thesis by (simp add: CBS_asn1_ber_to_der_def)
qed

text \<open>Values without anything to convert: definite lengths and strings in one piece only.\<close>

fun is_der :: "ber \<Rightarrow> bool" where
  "is_der (Prim tag c) \<longleftrightarrow> True"
| "is_der (Constr indefinite tag ts) \<longleftrightarrow>
     \<not> indefinite \<and> \<not> is_string_type tag \<and> (\<forall>t \<in> set ts. is_der t)"

lemma is_der_to_der: "is_der t \<Longrightarrow> to_der t = ber_enc t"
  by (induction t rule: to_der.induct) (auto intro!: arg_cong [of _ _ concat] arg_cong2 [of _ _ _ _ der_element])

lemma find_der:
  "\<forall>t \<in> set ts. is_der t \<and> ber_ok 0 t \<and> depth + ber_height t \<le> kMaxDepth \<Longrightarrow>
    cbs_find_ber_loop (concat (map ber_enc ts)) False depth = Some False"
proof (induction "length (concat (map ber_enc ts))" arbitrary: ts depth rule: less_induct)
  case less
  show ?case
  proof (cases ts)
    case Nil
    then show ?thesis by (simp add: find_empty)
  next
    case (Cons t ts')
    have rest: "cbs_find_ber_loop (concat (map ber_enc ts')) False depth = Some False"
      using less.prems ber_enc_nonempty [of t] by (intro less.hyps) (simp_all add: Cons)
    show ?thesis
    proof (cases t)
      case (Prim tag c)
      then have "tag AND CBS_ASN1_CONSTRUCTED = 0" "length c < 2 ^ 32" using less.prems by (simp_all add: Cons)
      with find_definite [of c tag _ False depth] rest show ?thesis by (simp add: Cons Prim)
    next
      case (Constr i tag us)
      let ?b = "concat (map ber_enc us)"
      have i: "\<not> i" "\<not> is_string_type tag" and con: "tag AND CBS_ASN1_CONSTRUCTED \<noteq> 0" and l: "length ?b < 2 ^ 32"
        and h: "depth + Suc (foldr max (map ber_height us) 0) \<le> kMaxDepth"
        using less.prems by (simp_all add: Cons Constr)
      have p: "part_tag 0 tag = 0" using i by (simp add: part_tag_def)
      have "cbs_find_ber_loop ?b False (depth + 1) = Some False"
      proof (rule less.hyps)
        show "length ?b < length (concat (map ber_enc ts))"
          using concat_enc_less [of us i tag] by (simp add: Cons Constr)
        show "\<forall>u \<in> set us. is_der u \<and> ber_ok 0 u \<and> depth + 1 + ber_height u \<le> kMaxDepth"
        proof
          fix u assume u: "u \<in> set us"
          have "is_der u" "ber_ok 0 u" using less.prems u p by (simp_all add: Cons Constr)
          then show "is_der u \<and> ber_ok 0 u \<and> depth + 1 + ber_height u \<le> kMaxDepth"
            using height_child [OF u] h by simp
        qed
      qed
      with find_definite [OF l, of tag _ False depth] rest i con h show ?thesis by (simp add: Cons Constr)
    qed
  qed
qed


text \<open>C11: an input that is the DER encoding of a value already is handed out as it is, with no buffer
  allocated, and consumed.\<close>

theorem CBS_asn1_ber_to_der_keeps_der:
  assumes "is_der t" and "ber_ok 0 t" and "ber_height t \<le> kMaxDepth" and "length (ber_enc t) < 2 ^ 32"
  shows "CBS_asn1_ber_to_der m (ber_enc t) = (Some (to_der t, None), [])"
proof -
  have "cbs_find_ber (ber_enc t) 0 = Some False"
    using find_der [of "[t]" 0] assms(1-3) by (simp add: cbs_find_ber_def kMaxDepth_def)
  moreover have "\<exists>tag c. ber_enc t = der_element tag c \<and> length c < 2 ^ 32"
  proof (cases t)
    case (Prim tag c)
    then show ?thesis using assms(2) by (intro exI [of _ tag] exI [of _ c]) simp
  next
    case (Constr i tag ts)
    then show ?thesis using assms(1,2) by (intro exI [of _ tag] exI [of _ "concat (map ber_enc ts)"]) simp
  qed
  ultimately show ?thesis using is_der_to_der [OF assms(1)] passed_through by metis
qed

theorem CBS_asn1_ber_to_der_keeps_der_witness:
  "CBS_asn1_ber_to_der generous [0x30, 3, 2, 1, 7] = (Some ([0x30, 3, 2, 1, 7], None), [])"
proof -
  let ?t = "Constr False 0x20000010 [Prim 2 [7]]"
  have not_str: "\<not> is_string_type 0x20000010" by (simp add: is_string_type_def CBS_ASN1_CONSTRUCTED_eq)
  have enc: "ber_enc ?t = [0x30, 3, 2, 1, 7]"
    by (simp add: der_element_def der_header_def der_tag_def der_length_forms)
  have "is_der ?t" "ber_ok 0 ?t" "ber_height ?t \<le> kMaxDepth"
    by (simp_all add: not_str part_tag_def CBS_ASN1_CONSTRUCTED_eq kMaxDepth_def der_element_def der_header_def
        der_tag_def der_length_forms)
  from CBS_asn1_ber_to_der_keeps_der [OF this, of generous] is_der_to_der [OF \<open>is_der ?t\<close>] show ?thesis
    unfolding enc by simp
qed


end
