(* ===== verification/Unicode.thy ===== *)
theory Unicode
  imports CbbAsn1
begin

text \<open>
  \<open>crypto/bytestring/unicode.c\<close>: reading and writing one code point in UTF-8, Latin-1, UCS-2
  and UTF-32. The lemmas show that the UTF-8 reader accepts exactly the shortest encodings of
  the valid code points, and that the writer emits them.
\<close>

section \<open>Readers and writers\<close>

definition is_valid_code_point :: "u32 \<Rightarrow> bool" where
  "is_valid_code_point v \<longleftrightarrow>
     \<not> (v > 0x10ffff \<or> v AND 0xfffe = 0xfffe \<or> (v \<ge> 0xfdd0 \<and> v \<le> 0xfdef) \<or>
        (v \<ge> 0xd800 \<and> v \<le> 0xdfff))"

definition BOTTOM_BITS :: "nat \<Rightarrow> byte" where
  "BOTTOM_BITS n = ucast (push_bit n 1 - 1 :: u32)"

definition TOP_BITS :: "nat \<Rightarrow> byte" where
  "TOP_BITS n = NOT (BOTTOM_BITS (8 - n))"

text \<open>The loop over the \<open>len\<close> continuation bytes.\<close>

fun utf8_loop :: "nat \<Rightarrow> u32 \<Rightarrow> (cbs, u32) cop" where
  "utf8_loop 0 v = op_ret v"
| "utf8_loop (Suc len) v =
     op_bind CBS_get_u8 (\<lambda>c.
       if c AND TOP_BITS 2 \<noteq> TOP_BITS 1 then op_fail
       else utf8_loop len (push_bit 6 v OR ucast (c AND BOTTOM_BITS 6)))"

definition cbs_get_utf8 :: "(cbs, u32) cop" where
  "cbs_get_utf8 =
     op_bind CBS_get_u8 (\<lambda>c.
       if c \<le> 0x7f then op_ret (ucast c)
       else
         (let cont = (\<lambda>v len lower_bound.
                op_bind (utf8_loop len v) (\<lambda>v.
                  if \<not> is_valid_code_point v \<or> v < lower_bound then op_fail else op_ret v))
          in if c AND TOP_BITS 3 = TOP_BITS 2 then cont (ucast (c AND BOTTOM_BITS 5)) 1 0x80
             else if c AND TOP_BITS 4 = TOP_BITS 3 then cont (ucast (c AND BOTTOM_BITS 4)) 2 0x800
             else if c AND TOP_BITS 5 = TOP_BITS 4 then cont (ucast (c AND BOTTOM_BITS 3)) 3 0x10000
             else op_fail))"

definition cbs_get_latin1 :: "(cbs, u32) cop" where
  "cbs_get_latin1 = op_bind CBS_get_u8 (\<lambda>c. op_ret (ucast c))"

definition cbs_get_ucs2_be :: "(cbs, u32) cop" where
  "cbs_get_ucs2_be =
     op_bind CBS_get_u16 (\<lambda>c. if \<not> is_valid_code_point (ucast c) then op_fail else op_ret (ucast c))"

definition cbs_get_utf32_be :: "(cbs, u32) cop" where
  "cbs_get_utf32_be =
     op_bind CBS_get_u32 (\<lambda>v. if is_valid_code_point v then op_ret v else op_fail)"

definition cbb_get_utf8_len :: "u32 \<Rightarrow> nat" where
  "cbb_get_utf8_len u = (if u \<le> 0x7f then 1 else if u \<le> 0x7ff then 2 else if u \<le> 0xffff then 3 else 4)"

definition cbb_add_utf8 :: "mallocf \<Rightarrow> nat \<Rightarrow> u32 \<Rightarrow> (cbb_st, unit) cop" where
  "cbb_add_utf8 m d u =
     (if \<not> is_valid_code_point u then op_fail
      else if u \<le> 0x7f then CBB_add_u8 m d (ucast u)
      else if u \<le> 0x7ff then
        op_then (CBB_add_u8 m d (ucast (ucast (TOP_BITS 2) OR drop_bit 6 u)))
          (CBB_add_u8 m d (ucast (ucast (TOP_BITS 1) OR (u AND ucast (BOTTOM_BITS 6)))))
      else if u \<le> 0xffff then
        op_then (CBB_add_u8 m d (ucast (ucast (TOP_BITS 3) OR drop_bit 12 u)))
          (op_then (CBB_add_u8 m d (ucast (ucast (TOP_BITS 1) OR (drop_bit 6 u AND ucast (BOTTOM_BITS 6)))))
            (CBB_add_u8 m d (ucast (ucast (TOP_BITS 1) OR (u AND ucast (BOTTOM_BITS 6))))))
      else if u \<le> 0x10ffff then
        op_then (CBB_add_u8 m d (ucast (ucast (TOP_BITS 4) OR drop_bit 18 u)))
          (op_then (CBB_add_u8 m d (ucast (ucast (TOP_BITS 1) OR (drop_bit 12 u AND ucast (BOTTOM_BITS 6)))))
            (op_then (CBB_add_u8 m d (ucast (ucast (TOP_BITS 1) OR (drop_bit 6 u AND ucast (BOTTOM_BITS 6)))))
              (CBB_add_u8 m d (ucast (ucast (TOP_BITS 1) OR (u AND ucast (BOTTOM_BITS 6)))))))
      else op_fail)"

definition cbb_add_latin1 :: "mallocf \<Rightarrow> nat \<Rightarrow> u32 \<Rightarrow> (cbb_st, unit) cop" where
  "cbb_add_latin1 m d u = (if u \<le> 0xff then CBB_add_u8 m d (ucast u) else op_fail)"

definition cbb_add_ucs2_be :: "mallocf \<Rightarrow> nat \<Rightarrow> u32 \<Rightarrow> (cbb_st, unit) cop" where
  "cbb_add_ucs2_be m d u =
     (if u \<le> 0xffff \<and> is_valid_code_point u then CBB_add_u16 m d (ucast u) else op_fail)"

definition cbb_add_utf32_be :: "mallocf \<Rightarrow> nat \<Rightarrow> u32 \<Rightarrow> (cbb_st, unit) cop" where
  "cbb_add_utf32_be m d u = (if is_valid_code_point u then CBB_add_u32 m d u else op_fail)"

section \<open>The encoding of a code point\<close>

definition utf8_bytes :: "nat \<Rightarrow> byte list" where
  "utf8_bytes v =
     (if v < 0x80 then [word_of_nat v]
      else if v < 0x800 then [word_of_nat (0xc0 + v div 64), word_of_nat (0x80 + v mod 64)]
      else if v < 0x10000 then
        [word_of_nat (0xe0 + v div 4096), word_of_nat (0x80 + v div 64 mod 64), word_of_nat (0x80 + v mod 64)]
      else
        [word_of_nat (0xf0 + v div 262144), word_of_nat (0x80 + v div 4096 mod 64),
         word_of_nat (0x80 + v div 64 mod 64), word_of_nat (0x80 + v mod 64)])"

section \<open>Bits of a byte\<close>

lemma bits_values:
  "BOTTOM_BITS 3 = 0x07" "BOTTOM_BITS 4 = 0x0f" "BOTTOM_BITS 5 = 0x1f" "BOTTOM_BITS 6 = 0x3f"
  "TOP_BITS 1 = 0x80" "TOP_BITS (Suc 0) = 0x80" "TOP_BITS 2 = 0xc0" "TOP_BITS 3 = 0xe0" "TOP_BITS 4 = 0xf0" "TOP_BITS 5 = 0xf8"
  by (simp_all add: BOTTOM_BITS_def TOP_BITS_def)

lemma and_low_mask: "unat (w AND mask k) = unat w mod 2 ^ k" for w :: "'a::len word"
  using unat_take_bit [of k w] by (simp only: take_bit_eq_mask)

lemma and_high_mask: "unat (w AND NOT (mask k)) = unat w div 2 ^ k * 2 ^ k" for w :: "'a::len word"
proof -
  have "(w AND NOT (mask k)) + (w AND mask k) = w"
  proof -
    have "(w AND NOT (mask k)) AND (w AND mask k) = 0"
      by (rule bit_word_eqI) (auto simp: bit_simps)
    then have "(w AND NOT (mask k)) + (w AND mask k) = (w AND NOT (mask k)) OR (w AND mask k)"
      by (rule disjunctive_add_eq_or)
    also have "\<dots> = w" by (rule bit_word_eqI) (auto simp: bit_simps)
    finally show ?thesis .
  qed
  then have "w AND NOT (mask k) = w - take_bit k w"
    by (simp add: take_bit_eq_mask eq_diff_eq)
  moreover have "take_bit k w \<le> w"
    unfolding word_le_nat_alt unat_take_bit by simp
  ultimately have "unat (w AND NOT (mask k)) = unat w - unat w mod 2 ^ k"
    by (simp only: unat_sub unat_take_bit)
  then show ?thesis by (simp add: minus_mod_eq_div_mult)
qed

lemma low_bits:
  fixes c :: byte
  shows "unat (c AND 0x07) = unat c mod 8" and "unat (c AND 0x0f) = unat c mod 16"
    and "unat (c AND 0x1f) = unat c mod 32" and "unat (c AND 0x3f) = unat c mod 64"
  using and_low_mask [of c 3] and_low_mask [of c 4] and_low_mask [of c 5] and_low_mask [of c 6]
  by (simp_all add: mask_eq_exp_minus_1)

lemma high_bits:
  fixes c :: byte
  shows "c AND 0xc0 = 0x80 \<longleftrightarrow> unat c div 64 = 2" and "c AND 0xe0 = 0xc0 \<longleftrightarrow> unat c div 32 = 6"
    and "c AND 0xf0 = 0xe0 \<longleftrightarrow> unat c div 16 = 14" and "c AND 0xf8 = 0xf0 \<longleftrightarrow> unat c div 8 = 30"
proof -
  have m: "(0xc0 :: byte) = NOT (mask 6)" "(0xe0 :: byte) = NOT (mask 5)"
    "(0xf0 :: byte) = NOT (mask 4)" "(0xf8 :: byte) = NOT (mask 3)"
    by (simp_all add: mask_eq_exp_minus_1)
  have u: "unat (c AND 0xc0) = unat c div 64 * 64" "unat (c AND 0xe0) = unat c div 32 * 32"
    "unat (c AND 0xf0) = unat c div 16 * 16" "unat (c AND 0xf8) = unat c div 8 * 8"
    using and_high_mask [of c 6] and_high_mask [of c 5] and_high_mask [of c 4] and_high_mask [of c 3]
    unfolding m by simp_all
  show "c AND 0xc0 = 0x80 \<longleftrightarrow> unat c div 64 = 2" unfolding word_unat_eq_iff u(1) by simp
  show "c AND 0xe0 = 0xc0 \<longleftrightarrow> unat c div 32 = 6" unfolding word_unat_eq_iff u(2) by simp
  show "c AND 0xf0 = 0xe0 \<longleftrightarrow> unat c div 16 = 14" unfolding word_unat_eq_iff u(3) by simp
  show "c AND 0xf8 = 0xf0 \<longleftrightarrow> unat c div 8 = 30" unfolding word_unat_eq_iff u(4) by simp
qed

section \<open>The UTF-8 reader\<close>

definition is_cont :: "byte \<Rightarrow> bool" where
  "is_cont c \<longleftrightarrow> unat c div 64 = 2"

lemma utf8_loop_Suc:
  "utf8_loop (Suc n) v s =
     (case s of
        [] \<Rightarrow> (None, [])
      | c # s' \<Rightarrow> if is_cont c then utf8_loop n (push_bit 6 v OR ucast (c AND 0x3f)) s' else (None, s'))"
  by (simp add: op_simps bits_values high_bits is_cont_def split: list.splits)

lemma utf8_loop_0: "utf8_loop 0 v s = (Some v, s)"
  by (simp add: op_simps)

declare utf8_loop.simps [simp del]

lemma utf8_step_unat:
  fixes c :: byte
  assumes "unat v < 2 ^ 26"
  shows "unat (push_bit 6 v OR ucast (c AND 0x3f) :: u32) = unat v * 64 + unat c mod 64"
proof -
  have u: "unat (ucast (c AND 0x3f) :: u32) = unat c mod 64"
    using unat_ucast_up [of "c AND 0x3f", where ?'b = 32] low_bits(4) [of c] by simp
  have "unat c mod 64 < 64" by simp
  then have "unat v * 64 + unat c mod 64 < 4294967296" using assms by simp
  then show ?thesis
    using unat_push_bit_or [of "ucast (c AND 0x3f) :: u32" 6 v] by (simp add: u)
qed

lemma utf8_loop_1:
  assumes "unat v < 2 ^ 26"
  shows "utf8_loop 1 v s = (Some w, s') \<longleftrightarrow>
    (\<exists>a. s = a # s' \<and> is_cont a \<and> unat w = unat v * 64 + unat a mod 64)"
proof -
  have "(push_bit 6 v OR ucast (a AND 0x3f) = w) \<longleftrightarrow> unat w = unat v * 64 + unat a mod 64" for a :: byte
    by (simp add: word_unat_eq_iff utf8_step_unat [OF assms]) auto
  then show ?thesis by (cases s) (auto simp: utf8_loop_Suc utf8_loop_0)
qed

lemma utf8_loop_2:
  assumes "unat v < 2 ^ 20"
  shows "utf8_loop 2 v s = (Some w, s') \<longleftrightarrow>
    (\<exists>a b. s = a # b # s' \<and> is_cont a \<and> is_cont b \<and>
       unat w = unat v * 4096 + unat a mod 64 * 64 + unat b mod 64)"
proof (cases s)
  case Nil
  then show ?thesis by (simp add: numeral_2_eq_2 utf8_loop_Suc)
next
  case (Cons a s1)
  let ?v = "push_bit 6 v OR ucast (a AND 0x3f) :: u32"
  have u: "unat ?v = unat v * 64 + unat a mod 64" using assms by (intro utf8_step_unat) simp
  have "unat a mod 64 < 64" by simp
  then have "unat ?v < 2 ^ 26" using u assms by simp
  from utf8_loop_1 [OF this, of s1 w s'] u Cons show ?thesis
    by (simp add: numeral_2_eq_2 utf8_loop_Suc) (auto simp: algebra_simps)
qed

lemma utf8_loop_3:
  assumes "unat v < 2 ^ 14"
  shows "utf8_loop 3 v s = (Some w, s') \<longleftrightarrow>
    (\<exists>a b c. s = a # b # c # s' \<and> is_cont a \<and> is_cont b \<and> is_cont c \<and>
       unat w = unat v * 262144 + unat a mod 64 * 4096 + unat b mod 64 * 64 + unat c mod 64)"
proof (cases s)
  case Nil
  then show ?thesis by (simp add: numeral_3_eq_3 utf8_loop_Suc)
next
  case (Cons a s1)
  let ?v = "push_bit 6 v OR ucast (a AND 0x3f) :: u32"
  have u: "unat ?v = unat v * 64 + unat a mod 64" using assms by (intro utf8_step_unat) simp
  have "unat a mod 64 < 64" by simp
  then have "unat ?v < 2 ^ 20" using u assms by simp
  from utf8_loop_2 [OF this, of s1 w s'] u Cons show ?thesis
    by (simp add: numeral_3_eq_3 numeral_2_eq_2 utf8_loop_Suc) (auto simp: algebra_simps)
qed

lemma cont_byte:
  assumes "is_cont c"
  shows "c = word_of_nat (0x80 + unat c mod 64)"
proof -
  have "unat c = 128 + unat c mod 64"
    using assms div_mult_mod_eq [of "unat c" 64] by (simp add: is_cont_def)
  then show ?thesis by (metis byte_of_nat_eqI)
qed

lemma is_cont_word: "n < 64 \<Longrightarrow> is_cont (word_of_nat (0x80 + n)) \<and> unat (word_of_nat (0x80 + n) :: byte) mod 64 = n"
proof -
  assume n: "n < 64"
  then have "unat (word_of_nat (0x80 + n) :: byte) = 128 + n" by (intro unat_byte_of_nat) simp
  moreover have "(128 + n) mod 64 = n" using n mod_mult_self3 [of 2 64 n] by simp
  moreover have "(128 + n) div 64 = 2" using n by (intro div_nat_eqI) simp_all
  ultimately show ?thesis by (simp only: is_cont_def)
qed

lemma valid_code_point_bound: "is_valid_code_point v \<Longrightarrow> unat v \<le> 0x10ffff"
  by (auto simp: is_valid_code_point_def word_less_nat_alt not_less)

text \<open>What the reader does on the four kinds of first bytes.\<close>

lemma cbs_get_utf8_cases:
  "cbs_get_utf8 (c # s) =
     (if unat c < 128 then (Some (ucast c), s)
      else
        (let cont = (\<lambda>v len lower_bound.
               op_bind (utf8_loop len v) (\<lambda>v.
                 if \<not> is_valid_code_point v \<or> v < lower_bound then op_fail else op_ret v) s)
         in if unat c div 32 = 6 then cont (ucast (c AND 0x1f)) 1 0x80
            else if unat c div 16 = 14 then cont (ucast (c AND 0x0f)) 2 0x800
            else if unat c div 8 = 30 then cont (ucast (c AND 0x07)) 3 0x10000
            else (None, s)))"
proof -
  have "c \<le> 0x7f \<longleftrightarrow> unat c < 128" by (auto simp: word_le_nat_alt)
  then show ?thesis
    by (simp add: cbs_get_utf8_def op_bind_apply [of CBS_get_u8] op_ret_def op_fail_def bits_values
        high_bits Let_def)
qed

lemma checked_loop_iff:
  "op_bind (utf8_loop len v) (\<lambda>v. if \<not> is_valid_code_point v \<or> v < lb then op_fail else op_ret v) s = (Some w, s') \<longleftrightarrow>
     utf8_loop len v s = (Some w, s') \<and> is_valid_code_point w \<and> lb \<le> w"
  unfolding op_bind_Some_iff by (auto simp: op_ret_apply op_fail_apply not_less split: if_splits)

lemma lead_unat:
  fixes c :: byte
  shows "unat (ucast (c AND 0x1f) :: u32) = unat c mod 32"
    and "unat (ucast (c AND 0x0f) :: u32) = unat c mod 16"
    and "unat (ucast (c AND 0x07) :: u32) = unat c mod 8"
  using unat_ucast_up [of "c AND 0x1f", where ?'b = 32] unat_ucast_up [of "c AND 0x0f", where ?'b = 32]
    unat_ucast_up [of "c AND 0x07", where ?'b = 32]
  by (simp_all only: low_bits) simp_all

lemma div_mod_split: "n = x * k + z \<Longrightarrow> z < k \<Longrightarrow> n div k = x \<and> n mod k = z" for n :: nat
  by simp

lemma utf8_sound:
  assumes "cbs_get_utf8 s = (Some v, s')"
  shows "s = utf8_bytes (unat v) @ s' \<and> (unat v < 128 \<or> is_valid_code_point v)"
proof -
  obtain c t where s: "s = c # t"
    using assms by (cases s) (auto simp: cbs_get_utf8_def op_simps)
  note r = assms [unfolded s cbs_get_utf8_cases Let_def]
  consider (one) "unat c < 128" | (two) "\<not> unat c < 128" "unat c div 32 = 6"
    | (three) "\<not> unat c < 128" "unat c div 32 \<noteq> 6" "unat c div 16 = 14"
    | (four) "\<not> unat c < 128" "unat c div 32 \<noteq> 6" "unat c div 16 \<noteq> 14" "unat c div 8 = 30"
    | (bad) "\<not> unat c < 128" "unat c div 32 \<noteq> 6" "unat c div 16 \<noteq> 14" "unat c div 8 \<noteq> 30"
    by blast
  then show ?thesis
  proof cases
    case one
    have "unat (ucast c :: u32) = unat c" by (rule unat_ucast_up) simp
    with one r s show ?thesis by (auto simp: utf8_bytes_def)
  next
    case two
    with r have r2: "utf8_loop 1 (ucast (c AND 0x1f)) t = (Some v, s') \<and> is_valid_code_point v \<and> 0x80 \<le> v"
      by (simp only: if_False if_True simp_thms checked_loop_iff)
    have "unat c mod 32 < 2 ^ 26" by (rule less_trans [of _ 32]) simp_all
    then obtain a where a: "t = a # s'" "is_cont a" "unat v = unat c mod 32 * 64 + unat a mod 64"
      and v: "is_valid_code_point v" "0x80 \<le> v"
      using r2 utf8_loop_1 [of "ucast (c AND 0x1f)" t v s'] unfolding lead_unat by blast
    have c: "unat c = 192 + unat c mod 32" using two div_mult_mod_eq [of "unat c" 32] by simp
    have q: "unat v div 64 = unat c mod 32" "unat v mod 64 = unat a mod 64" using a(3) by simp_all
    have b: "0x80 \<le> unat v" "unat v < 0x800"
      using v(2) a(3) mod_less_divisor [of 32 "unat c"] mod_less_divisor [of 64 "unat a"]
      by (simp_all add: word_le_nat_alt)
    have "c = word_of_nat (0xc0 + unat c mod 32)" using c by (metis byte_of_nat_eqI)
    with a cont_byte [OF a(2)] b q v s show ?thesis by (simp add: utf8_bytes_def)
  next
    case three
    with r have r2: "utf8_loop 2 (ucast (c AND 0x0f)) t = (Some v, s') \<and> is_valid_code_point v \<and> 0x800 \<le> v"
      by (simp only: if_False if_True simp_thms checked_loop_iff)
    have "unat c mod 16 < 2 ^ 20" by (rule less_trans [of _ 16]) simp_all
    then obtain a b where a: "t = a # b # s'" "is_cont a" "is_cont b"
        "unat v = unat c mod 16 * 4096 + unat a mod 64 * 64 + unat b mod 64"
      and v: "is_valid_code_point v" "0x800 \<le> v"
      using r2 utf8_loop_2 [of "ucast (c AND 0x0f)" t v s'] unfolding lead_unat by blast
    have c: "unat c = 224 + unat c mod 16" using three div_mult_mod_eq [of "unat c" 16] by simp
    have l: "unat c mod 16 < 16" "unat a mod 64 < 64" "unat b mod 64 < 64" by simp_all
    have v1: "unat v = (unat c mod 16 * 64 + unat a mod 64) * 64 + unat b mod 64"
      using a(4) by simp
    have d: "unat v div 64 = unat c mod 16 * 64 + unat a mod 64" "unat v mod 64 = unat b mod 64"
      using div_mod_split [OF v1 l(3)] by simp_all
    have q: "unat v div 4096 = unat c mod 16"
    proof -
      have "unat v div 4096 = unat v div 64 div 64" by (simp add: div_mult2_eq [symmetric])
      then show ?thesis using d(1) by simp
    qed
    have q2: "unat v div 64 mod 64 = unat a mod 64" unfolding d(1) by simp
    have bd: "0x800 \<le> unat v" "unat v < 0x10000"
      using v(2) a(4) l by (simp_all add: word_le_nat_alt)
    have cw: "word_of_nat (0xe0 + unat c mod 16) = c" using c by (metis byte_of_nat_eqI)
    have "utf8_bytes (unat v) = [word_of_nat (0xe0 + unat c mod 16), word_of_nat (0x80 + unat a mod 64),
        word_of_nat (0x80 + unat b mod 64)]"
      using bd unfolding utf8_bytes_def q q2 d(2) by simp
    also have "\<dots> = [c, a, b]"
      by (simp only: cw cont_byte [OF a(2), symmetric] cont_byte [OF a(3), symmetric])
    finally show ?thesis using a(1) v s by simp
  next
    case four
    with r have r2: "utf8_loop 3 (ucast (c AND 0x07)) t = (Some v, s') \<and> is_valid_code_point v \<and> 0x10000 \<le> v"
      by (simp only: if_False if_True simp_thms checked_loop_iff)
    have "unat c mod 8 < 2 ^ 14" by (rule less_trans [of _ 8]) simp_all
    then obtain a b e where a: "t = a # b # e # s'" "is_cont a" "is_cont b" "is_cont e"
        "unat v = unat c mod 8 * 262144 + unat a mod 64 * 4096 + unat b mod 64 * 64 + unat e mod 64"
      and v: "is_valid_code_point v" "0x10000 \<le> v"
      using r2 utf8_loop_3 [of "ucast (c AND 0x07)" t v s'] unfolding lead_unat by blast
    have c: "unat c = 240 + unat c mod 8" using four div_mult_mod_eq [of "unat c" 8] by simp
    have l: "unat c mod 8 < 8" "unat a mod 64 < 64" "unat b mod 64 < 64" "unat e mod 64 < 64" by simp_all
    have v1: "unat v = ((unat c mod 8 * 64 + unat a mod 64) * 64 + unat b mod 64) * 64 + unat e mod 64"
      using a(5) by simp
    have d: "unat v div 64 = (unat c mod 8 * 64 + unat a mod 64) * 64 + unat b mod 64" "unat v mod 64 = unat e mod 64"
      using div_mod_split [OF v1 l(4)] by simp_all
    have d2: "unat v div 4096 = unat c mod 8 * 64 + unat a mod 64"
    proof -
      have "unat v div 4096 = unat v div 64 div 64" by (simp add: div_mult2_eq [symmetric])
      then show ?thesis using div_mod_split [OF d(1) l(3)] by simp
    qed
    have d3: "unat v div 262144 = unat c mod 8"
    proof -
      have "unat v div 262144 = unat v div 4096 div 64" by (simp add: div_mult2_eq [symmetric])
      then show ?thesis using div_mod_split [OF d2 l(2)] by simp
    qed
    have q: "unat v div 64 mod 64 = unat b mod 64" "unat v div 4096 mod 64 = unat a mod 64"
      using div_mod_split [OF d(1) l(3)] div_mod_split [OF d2 l(2)] by simp_all
    have bd: "0x10000 \<le> unat v" using v(2) by (simp add: word_le_nat_alt)
    have cw: "word_of_nat (0xf0 + unat c mod 8) = c" using c by (metis byte_of_nat_eqI)
    have "utf8_bytes (unat v) = [word_of_nat (0xf0 + unat c mod 8), word_of_nat (0x80 + unat a mod 64),
        word_of_nat (0x80 + unat b mod 64), word_of_nat (0x80 + unat e mod 64)]"
      using bd unfolding utf8_bytes_def q d(2) d3 by simp
    also have "\<dots> = [c, a, b, e]"
      by (simp only: cw cont_byte [OF a(2), symmetric] cont_byte [OF a(3), symmetric] cont_byte [OF a(4), symmetric])
    finally show ?thesis using a(1) v s by simp
  next
    case bad
    with r show ?thesis by simp
  qed
qed

lemma lead_word:
  fixes n :: nat
  shows "n < 32 \<Longrightarrow> unat (word_of_nat (0xc0 + n) :: byte) = 0xc0 + n"
    and "n < 16 \<Longrightarrow> unat (word_of_nat (0xe0 + n) :: byte) = 0xe0 + n"
    and "n < 8 \<Longrightarrow> unat (word_of_nat (0xf0 + n) :: byte) = 0xf0 + n"
  using unat_byte_of_nat [of "0xc0 + n"] unat_byte_of_nat [of "0xe0 + n"] unat_byte_of_nat [of "0xf0 + n"]
  by linarith+

text \<open>The reader on a first byte of each kind.\<close>

lemma cbs_get_utf8_lead:
  assumes v: "is_valid_code_point v"
  shows "q < 32 \<Longrightarrow> utf8_loop 1 (ucast ((word_of_nat (0xc0 + q) :: byte) AND 0x1f)) t = (Some v, s') \<Longrightarrow>
      0x80 \<le> unat v \<Longrightarrow> cbs_get_utf8 (word_of_nat (0xc0 + q) # t) = (Some v, s')"
    and "q < 16 \<Longrightarrow> utf8_loop 2 (ucast ((word_of_nat (0xe0 + q) :: byte) AND 0x0f)) t = (Some v, s') \<Longrightarrow>
      0x800 \<le> unat v \<Longrightarrow> cbs_get_utf8 (word_of_nat (0xe0 + q) # t) = (Some v, s')"
    and "q < 8 \<Longrightarrow> utf8_loop 3 (ucast ((word_of_nat (0xf0 + q) :: byte) AND 0x07)) t = (Some v, s') \<Longrightarrow>
      0x10000 \<le> unat v \<Longrightarrow> cbs_get_utf8 (word_of_nat (0xf0 + q) # t) = (Some v, s')"
proof -
  show "cbs_get_utf8 (word_of_nat (0xc0 + q) # t) = (Some v, s')"
    if q: "q < 32" and l: "utf8_loop 1 (ucast ((word_of_nat (0xc0 + q) :: byte) AND 0x1f)) t = (Some v, s')"
      and b: "0x80 \<le> unat v"
  proof -
    have d: "(192 + q) div 32 = 6" using div_mod_split [of "192 + q" 6 32 q] q by simp
    have c: "\<not> 192 + q < 128" by simp
    have "(0x80 :: u32) \<le> v" using b by (simp add: word_le_nat_alt)
    then show ?thesis
      unfolding cbs_get_utf8_cases lead_word(1) [OF q] Let_def d
      using l v c by (simp only: if_False if_True checked_loop_iff simp_thms)
  qed
  show "cbs_get_utf8 (word_of_nat (0xe0 + q) # t) = (Some v, s')"
    if q: "q < 16" and l: "utf8_loop 2 (ucast ((word_of_nat (0xe0 + q) :: byte) AND 0x0f)) t = (Some v, s')"
      and b: "0x800 \<le> unat v"
  proof -
    have d: "(224 + q) div 32 = 7" "(224 + q) div 16 = 14"
      using div_mod_split [of "224 + q" 7 32 q] div_mod_split [of "224 + q" 14 16 q] q by simp_all
    have c: "\<not> 224 + q < 128" "(7 :: nat) \<noteq> 6" by simp_all
    have "(0x800 :: u32) \<le> v" using b by (simp add: word_le_nat_alt)
    then show ?thesis
      unfolding cbs_get_utf8_cases lead_word(2) [OF q] Let_def d
      using l v c by (simp only: if_False if_True checked_loop_iff simp_thms)
  qed
  show "cbs_get_utf8 (word_of_nat (0xf0 + q) # t) = (Some v, s')"
    if q: "q < 8" and l: "utf8_loop 3 (ucast ((word_of_nat (0xf0 + q) :: byte) AND 0x07)) t = (Some v, s')"
      and b: "0x10000 \<le> unat v"
  proof -
    have d: "(240 + q) div 32 = 7" "(240 + q) div 16 = 15" "(240 + q) div 8 = 30"
      using div_mod_split [of "240 + q" 7 32 "16 + q"] div_mod_split [of "240 + q" 15 16 q]
        div_mod_split [of "240 + q" 30 8 q] q by simp_all
    have c: "\<not> 240 + q < 128" "(7 :: nat) \<noteq> 6" "(15 :: nat) \<noteq> 14" by simp_all
    have "(0x10000 :: u32) \<le> v" using b by (simp add: word_le_nat_alt)
    then show ?thesis
      unfolding cbs_get_utf8_cases lead_word(3) [OF q] Let_def d
      using l v c by (simp only: if_False if_True checked_loop_iff simp_thms)
  qed
qed

lemma lead_mod:
  fixes n :: nat
  shows "n < 32 \<Longrightarrow> unat (ucast ((word_of_nat (0xc0 + n) :: byte) AND 0x1f) :: u32) = n"
    and "n < 16 \<Longrightarrow> unat (ucast ((word_of_nat (0xe0 + n) :: byte) AND 0x0f) :: u32) = n"
    and "n < 8 \<Longrightarrow> unat (ucast ((word_of_nat (0xf0 + n) :: byte) AND 0x07) :: u32) = n"
  using div_mod_split [of "192 + n" 6 32 n] div_mod_split [of "224 + n" 14 16 n] div_mod_split [of "240 + n" 30 8 n]
  by (simp_all only: lead_unat lead_word) simp_all

lemma utf8_complete:
  assumes v: "is_valid_code_point v \<or> unat v < 128"
  shows "cbs_get_utf8 (utf8_bytes (unat v) @ s') = (Some v, s')"
proof -
  define q1 q2 q3 where "q1 = unat v div 64" and "q2 = unat v div 4096" and "q3 = unat v div 262144"
  have qq: "q1 div 64 = q2" "q2 div 64 = q3" by (simp_all add: q1_def q2_def q3_def div_mult2_eq [symmetric])
  have s1: "unat v = q1 * 64 + unat v mod 64" "q1 = q2 * 64 + q1 mod 64" "q2 = q3 * 64 + q2 mod 64"
    using div_mult_mod_eq [of "unat v" 64] div_mult_mod_eq [of q1 64] div_mult_mod_eq [of q2 64]
    by (simp_all add: qq) (simp add: q1_def)
  note cw = is_cont_word [of "unat v mod 64"] is_cont_word [of "q1 mod 64"] is_cont_word [of "q2 mod 64"]
  consider (one) "unat v < 0x80" | (two) "\<not> unat v < 0x80" "unat v < 0x800"
    | (three) "\<not> unat v < 0x80" "\<not> unat v < 0x800" "unat v < 0x10000"
    | (four) "\<not> unat v < 0x80" "\<not> unat v < 0x800" "\<not> unat v < 0x10000"
    by blast
  then show ?thesis
  proof cases
    case one
    then have u: "unat (word_of_nat (unat v) :: byte) = unat v" by (intro unat_byte_of_nat) simp
    have "(ucast (word_of_nat (unat v) :: byte) :: u32) = v"
      using unat_ucast_up [of "word_of_nat (unat v) :: byte", where ?'b = 32] u
      by (intro word_unat_eq_iff [THEN iffD2]) simp
    with one u show ?thesis by (simp add: utf8_bytes_def cbs_get_utf8_cases del: of_nat_unat)
  next
    case two
    then have q: "q1 < 32" by (simp add: q1_def less_mult_imp_div_less)
    have l: "utf8_loop 1 (ucast ((word_of_nat (0xc0 + q1) :: byte) AND 0x1f))
        (word_of_nat (0x80 + unat v mod 64) # s') = (Some v, s')"
      by (subst utf8_loop_1) (use q cw s1(1) in \<open>simp_all only: lead_mod list.inject\<close>, simp_all)
    have "utf8_bytes (unat v) @ s' = word_of_nat (0xc0 + q1) # word_of_nat (0x80 + unat v mod 64) # s'"
      using two by (simp add: utf8_bytes_def q1_def)
    then show ?thesis
      using cbs_get_utf8_lead(1) [OF _ q l] two v by simp
  next
    case three
    then have q: "q2 < 16" by (simp add: q2_def less_mult_imp_div_less)
    have vv: "unat v = q2 * 4096 + q1 mod 64 * 64 + unat v mod 64" using s1(1,2) by linarith
    have l: "utf8_loop 2 (ucast ((word_of_nat (0xe0 + q2) :: byte) AND 0x0f))
        (word_of_nat (0x80 + q1 mod 64) # word_of_nat (0x80 + unat v mod 64) # s') = (Some v, s')"
      by (subst utf8_loop_2) (use q cw vv in \<open>simp_all only: lead_mod list.inject\<close>, simp_all)
    have "utf8_bytes (unat v) @ s' =
        word_of_nat (0xe0 + q2) # word_of_nat (0x80 + q1 mod 64) # word_of_nat (0x80 + unat v mod 64) # s'"
      using three by (simp add: utf8_bytes_def q1_def q2_def)
    then show ?thesis
      using cbs_get_utf8_lead(2) [OF _ q l] three v by simp
  next
    case four
    have "unat v \<le> 0x10ffff" using v four valid_code_point_bound by auto
    then have q: "q3 < 8" by (simp add: q3_def less_mult_imp_div_less)
    have vv: "unat v = q3 * 262144 + q2 mod 64 * 4096 + q1 mod 64 * 64 + unat v mod 64" using s1 by linarith
    have l: "utf8_loop 3 (ucast ((word_of_nat (0xf0 + q3) :: byte) AND 0x07))
        (word_of_nat (0x80 + q2 mod 64) # word_of_nat (0x80 + q1 mod 64) # word_of_nat (0x80 + unat v mod 64) # s') =
        (Some v, s')"
      by (subst utf8_loop_3) (use q cw vv in \<open>simp_all only: lead_mod list.inject\<close>, simp_all)
    have "utf8_bytes (unat v) @ s' = word_of_nat (0xf0 + q3) # word_of_nat (0x80 + q2 mod 64) #
        word_of_nat (0x80 + q1 mod 64) # word_of_nat (0x80 + unat v mod 64) # s'"
      using four by (simp add: utf8_bytes_def q1_def q2_def q3_def)
    then show ?thesis
      using cbs_get_utf8_lead(3) [OF _ q l] four v by simp
  qed
qed

lemma ascii_valid: "unat v < 128 \<Longrightarrow> is_valid_code_point v"
proof -
  assume v: "unat v < 128"
  have "unat (v AND 0xfffe) < 128"
    using v word_and_le1 [of v "0xfffe"] word_and_le2 [of v "0xfffe"] by (simp add: word_le_nat_alt)
  then have "v AND 0xfffe \<noteq> 0xfffe" by auto
  with v show ?thesis by (auto simp: is_valid_code_point_def word_less_nat_alt word_le_nat_alt)
qed

lemma cbs_get_utf8_iff:
  "cbs_get_utf8 s = (Some v, s') \<longleftrightarrow> is_valid_code_point v \<and> s = utf8_bytes (unat v) @ s'"
  using utf8_sound [of s v s'] utf8_complete [of v s'] ascii_valid [of v] by blast

section \<open>The UTF-8 writer\<close>

lemma or_top:
  fixes x :: u32
  assumes "unat x < 2 ^ k" and "unat h * 2 ^ k + unat x < 256"
  shows "(ucast (push_bit k h OR x) :: byte) = word_of_nat (unat h * 2 ^ k + unat x)"
proof -
  have u: "unat (push_bit k h OR x) = unat h * 2 ^ k + unat x"
    using assms by (intro unat_push_bit_or) simp_all
  show ?thesis
    by (rule word_unat_eq_iff [THEN iffD2]) (simp only: unat_ucast u unat_of_nat)
qed

lemma top_words:
  "(ucast (TOP_BITS 1) :: u32) = push_bit 6 2" "(ucast (TOP_BITS 2) :: u32) = push_bit 5 6"
  "(ucast (TOP_BITS 3) :: u32) = push_bit 4 14" "(ucast (TOP_BITS 4) :: u32) = push_bit 3 30"
  "(ucast (BOTTOM_BITS 6) :: u32) = mask 6"
  by (simp_all add: TOP_BITS_def BOTTOM_BITS_def mask_eq_exp_minus_1)

lemma cont_writer:
  "(ucast (ucast (TOP_BITS 1) OR (x AND ucast (BOTTOM_BITS 6))) :: byte) = word_of_nat (0x80 + unat x mod 64)"
  for x :: u32
proof -
  have u: "unat (x AND mask 6) = unat x mod 64" by (simp only: and_low_mask) simp
  have "unat x mod 64 < 64" by simp
  then show ?thesis
    unfolding top_words using or_top [of "x AND mask 6" 6 2] u by simp
qed

lemma lead_writer:
  fixes x :: u32
  shows "unat x < 32 \<Longrightarrow> (ucast (ucast (TOP_BITS 2) OR x) :: byte) = word_of_nat (0xc0 + unat x)"
    and "unat x < 16 \<Longrightarrow> (ucast (ucast (TOP_BITS 3) OR x) :: byte) = word_of_nat (0xe0 + unat x)"
    and "unat x < 8 \<Longrightarrow> (ucast (ucast (TOP_BITS 4) OR x) :: byte) = word_of_nat (0xf0 + unat x)"
  unfolding top_words using or_top [of x 5 6] or_top [of x 4 14] or_top [of x 3 30] by simp_all

lemma cbb_add_utf8_eq:
  "cbb_add_utf8 m d u = (if is_valid_code_point u then cbb_put m d (utf8_bytes (unat u)) else op_fail)"
proof (cases "is_valid_code_point u")
  case True
  have le: "u \<le> 0x7f \<longleftrightarrow> unat u < 0x80" "u \<le> 0x7ff \<longleftrightarrow> unat u < 0x800" "u \<le> 0xffff \<longleftrightarrow> unat u < 0x10000"
    "u \<le> 0x10ffff"
    using valid_code_point_bound [OF True] by (auto simp: word_le_nat_alt)
  have dr: "unat (drop_bit 6 u) = unat u div 64" "unat (drop_bit 12 u) = unat u div 4096"
    "unat (drop_bit 18 u) = unat u div 262144"
    by (simp_all only: unat_drop_bit) simp_all
  have one: "(ucast u :: byte) = word_of_nat (unat u)"
    by (rule word_unat_eq_iff [THEN iffD2]) (simp only: unat_ucast unat_of_nat)
  consider (one) "unat u < 0x80" | (two) "\<not> unat u < 0x80" "unat u < 0x800"
    | (three) "\<not> unat u < 0x80" "\<not> unat u < 0x800" "unat u < 0x10000"
    | (four) "\<not> unat u < 0x80" "\<not> unat u < 0x800" "\<not> unat u < 0x10000"
    by blast
  then show ?thesis
  proof cases
    case one
    with True show ?thesis
      unfolding cbb_add_utf8_def le utf8_bytes_def \<open>(ucast u :: byte) = word_of_nat (unat u)\<close>
      by (simp only: if_True if_False not_True_eq_False cbb_put_single)
  next
    case two
    then have l: "unat (drop_bit 6 u) < 32" unfolding dr by (simp add: less_mult_imp_div_less)
    show ?thesis
      unfolding cbb_add_utf8_def le utf8_bytes_def lead_writer(1) [OF l] cont_writer dr
      using True two by (simp only: if_True if_False not_True_eq_False cbb_put_single cbb_put.simps(2) [of m d _ "_ # _"])
  next
    case three
    then have l: "unat (drop_bit 12 u) < 16" unfolding dr by (simp add: less_mult_imp_div_less)
    show ?thesis
      unfolding cbb_add_utf8_def le utf8_bytes_def lead_writer(2) [OF l] cont_writer dr
      using True three by (simp only: if_True if_False not_True_eq_False cbb_put_single cbb_put.simps(2) [of m d _ "_ # _"])
  next
    case four
    have "unat (drop_bit 18 u) < 8"
      unfolding dr using valid_code_point_bound [OF True] by (simp add: less_mult_imp_div_less)
    note l = this
    show ?thesis
      unfolding cbb_add_utf8_def lead_writer(3) [OF l] cont_writer dr utf8_bytes_def le(1-3)
      using True four le(4)
      by (simp only: if_True if_False not_True_eq_False cbb_put_single cbb_put.simps(2) [of m d _ "_ # _"])
  qed
qed (simp add: cbb_add_utf8_def)

lemma cbb_get_utf8_len_eq: "is_valid_code_point u \<Longrightarrow> cbb_get_utf8_len u = length (utf8_bytes (unat u))"
  by (auto simp: cbb_get_utf8_len_def utf8_bytes_def word_le_nat_alt)

section \<open>Properties\<close>

text \<open>C23: The UTF-8 reader is exact: it returns a code point if and only if the window starts with
  the shortest encoding of a valid code point, so overlong forms, surrogates, noncharacters and
  values above \<open>0x10ffff\<close> are rejected.\<close>

theorem cbs_get_utf8_exact:
  "cbs_get_utf8 s = (Some v, s') \<longleftrightarrow> is_valid_code_point v \<and> s = utf8_bytes (unat v) @ s'"
  by (rule cbs_get_utf8_iff)

lemma utf8_bytes_length_le: "length (utf8_bytes v) \<le> 4"
  by (simp add: utf8_bytes_def)

text \<open>C24: The UTF-8 writer emits the number of bytes \<open>cbb_get_utf8_len\<close> announces, and the reader
  gets the code point back.\<close>

theorem utf8_roundtrip:
  assumes "malloc_law m" and "grants m 16" and "n + 8 < 2 ^ 63" and "CBB_init m n = (Some (), cbb)"
    and "is_valid_code_point u"
  shows "\<exists>cbb' out. cbb_add_utf8 m 0 u cbb = (Some (), cbb') \<and>
    CBB_finish m cbb' = (Some out, CBB_cleanup cbb') \<and> length out = cbb_get_utf8_len u \<and>
    cbs_get_utf8 (out @ s) = (Some u, s)"
proof -
  let ?b = "utf8_bytes (unat u)"
  have rel: "cbb_rel cbb [(Top, [])]" by (rule CBB_init_refines [OF assms(1,3,4)])
  have "flush_result m cbb (add_frames 0 (Some ?b) [(Top, [])]) (cbb_put m 0 ?b cbb)"
    using cbb_put_refines [OF assms(1), of cbb "[]" Top "[]" ?b] add_frames_leaf [of "[]" ?b Top "[]"] rel by simp
  moreover have "grants m (2 * length ([] @ ?b) + 8)"
    using assms(2) utf8_bytes_length_le [of "unat u"] by (simp add: grants_def)
  ultimately have "\<exists>w cbb'. cbb_put m 0 ?b cbb = (Some w, cbb') \<and>
      CBB_finish m cbb' = (Some ([] @ ?b), CBB_cleanup cbb')"
    using CBB_init_resizable [OF assms(4)] by (intro add_then_finish [where f = "cbb_put m 0 ?b"])
  then show ?thesis
    using assms(5) cbb_get_utf8_len_eq [OF assms(5)] cbs_get_utf8_iff by (auto simp: cbb_add_utf8_eq)
qed

theorem utf8_roundtrip_witness:
  "\<exists>cbb' out. cbb_add_utf8 generous 0 0x20ac (snd (CBB_init generous 4)) = (Some (), cbb') \<and>
    CBB_finish generous cbb' = (Some out, CBB_cleanup cbb') \<and> length out = cbb_get_utf8_len 0x20ac \<and>
    cbs_get_utf8 (out @ [1]) = (Some 0x20ac, [1])"
  by (rule utf8_roundtrip [of _ 4])
    (simp_all add: CBB_init_def cbb_init_def OPENSSL_malloc_def generous_def size_add_def is_valid_code_point_def)

end
