(* ===== verification/ConstTime.thy ===== *)
theory ConstTime
  imports Prelude
begin

text \<open>
  The constant-time word functions of \<open>crypto/internal.h\<close>. A \<open>crypto_word_t\<close> is 64 bits. Each
  function computes a mask of all ones or all zeros without branching; the lemmas, collected
  in \<open>ct_simps\<close>, give the comparison it stands for, so that callers reason with \<open>if\<close>.
\<close>

definition constant_time_msb_w :: "u64 \<Rightarrow> u64" where
  "constant_time_msb_w a = 0 - drop_bit 63 a"

definition constant_time_lt_w :: "u64 \<Rightarrow> u64 \<Rightarrow> u64" where
  "constant_time_lt_w a b = constant_time_msb_w (a XOR ((a XOR b) OR ((a - b) XOR a)))"

definition constant_time_lt_8 :: "u64 \<Rightarrow> u64 \<Rightarrow> byte" where
  "constant_time_lt_8 a b = ucast (constant_time_lt_w a b)"

definition constant_time_ge_w :: "u64 \<Rightarrow> u64 \<Rightarrow> u64" where
  "constant_time_ge_w a b = NOT (constant_time_lt_w a b)"

definition constant_time_ge_8 :: "u64 \<Rightarrow> u64 \<Rightarrow> byte" where
  "constant_time_ge_8 a b = ucast (constant_time_ge_w a b)"

definition constant_time_is_zero_w :: "u64 \<Rightarrow> u64" where
  "constant_time_is_zero_w a = constant_time_msb_w (NOT a AND (a - 1))"

definition constant_time_is_zero_8 :: "u64 \<Rightarrow> byte" where
  "constant_time_is_zero_8 a = ucast (constant_time_is_zero_w a)"

definition constant_time_eq_w :: "u64 \<Rightarrow> u64 \<Rightarrow> u64" where
  "constant_time_eq_w a b = constant_time_is_zero_w (a XOR b)"

definition constant_time_eq_8 :: "u64 \<Rightarrow> u64 \<Rightarrow> byte" where
  "constant_time_eq_8 a b = ucast (constant_time_eq_w a b)"

text \<open>An \<open>int\<close> argument is sign-extended to the word.\<close>

definition constant_time_eq_int :: "32 word \<Rightarrow> 32 word \<Rightarrow> u64" where
  "constant_time_eq_int a b = constant_time_eq_w (scast a) (scast b)"

definition constant_time_eq_int_8 :: "32 word \<Rightarrow> 32 word \<Rightarrow> byte" where
  "constant_time_eq_int_8 a b = constant_time_eq_8 (scast a) (scast b)"

definition constant_time_select_w :: "u64 \<Rightarrow> u64 \<Rightarrow> u64 \<Rightarrow> u64" where
  "constant_time_select_w msk a b = (msk AND a) OR (NOT msk AND b)"

definition constant_time_select_8 :: "byte \<Rightarrow> byte \<Rightarrow> byte \<Rightarrow> byte" where
  "constant_time_select_8 msk a b = ucast (constant_time_select_w (ucast msk) (ucast a) (ucast b))"

definition constant_time_select_int :: "u64 \<Rightarrow> 32 word \<Rightarrow> 32 word \<Rightarrow> 32 word" where
  "constant_time_select_int msk a b = ucast (constant_time_select_w msk (scast a) (scast b))"

section \<open>The masks\<close>

definition mask_w :: "bool \<Rightarrow> u64" where
  "mask_w b = (if b then - 1 else 0)"

definition mask_8 :: "bool \<Rightarrow> byte" where
  "mask_8 b = (if b then - 1 else 0)"

named_theorems ct_simps

lemma bit_63_iff: "bit w 63 \<longleftrightarrow> 2 ^ 63 \<le> unat w" for w :: u64
proof -
  have lt: "unat w < 2 ^ 64" using unsigned_less [of w, where ?'a = nat] by simp
  have "bit w 63 \<longleftrightarrow> odd (unat w div 2 ^ 63)" by (rule bit_word_iff_odd)
  also have "unat w div 2 ^ 63 < 2" using lt by (simp add: less_mult_imp_div_less)
  then have "odd (unat w div 2 ^ 63) \<longleftrightarrow> unat w div 2 ^ 63 \<noteq> 0" by (auto simp: less_2_cases_iff)
  also have "\<dots> \<longleftrightarrow> 2 ^ 63 \<le> unat w" by (simp add: div_eq_0_iff not_less)
  finally show ?thesis .
qed

lemma constant_time_msb_w_eq: "constant_time_msb_w a = mask_w (bit a 63)"
proof -
  have lt: "unat a < 2 ^ 64" using unsigned_less [of a, where ?'a = nat] by simp
  have d: "unat (drop_bit 63 a) = unat a div 2 ^ 63" by (rule unat_drop_bit)
  show ?thesis
  proof (cases "2 ^ 63 \<le> unat a")
    case True
    have "unat a div 2 ^ 63 = 1" using True lt by (intro div_nat_eqI) simp_all
    then have "unat (drop_bit 63 a) = 1" by (simp only: d)
    then have "drop_bit 63 a = 1" by (metis unat_1 word_unat_eq_iff)
    with True show ?thesis by (simp add: constant_time_msb_w_def mask_w_def bit_63_iff)
  next
    case False
    then have "drop_bit 63 a = 0" by (simp add: drop_bit_zero_iff_unat)
    with False show ?thesis by (simp add: constant_time_msb_w_def mask_w_def bit_63_iff)
  qed
qed

lemma constant_time_lt_w_eq [ct_simps]: "constant_time_lt_w a b = mask_w (a < b)"
proof -
  have la: "unat a < 2 ^ 64" and lb: "unat b < 2 ^ 64"
    using unsigned_less [of a, where ?'a = nat] unsigned_less [of b, where ?'a = nat] by simp_all
  have "bit (a XOR ((a XOR b) OR ((a - b) XOR a))) 63 \<longleftrightarrow>
    (if bit a 63 = bit b 63 then bit (a - b) 63 else bit b 63)"
    by (auto simp: bit_simps)
  also have "\<dots> \<longleftrightarrow> a < b"
  proof (cases "a < b")
    case True
    then have s: "unat (a - b) = 2 ^ 64 + unat a - unat b"
      using unat_sub_if_size [of a b] by (simp add: word_less_nat_alt word_size word_le_nat_alt)
    from True la lb show ?thesis
      unfolding bit_63_iff s word_less_nat_alt by auto
  next
    case False
    then have s: "unat (a - b) = unat a - unat b"
      by (simp add: unat_sub not_less)
    from False la lb show ?thesis
      unfolding bit_63_iff s word_less_nat_alt by auto
  qed
  finally show ?thesis by (simp add: constant_time_lt_w_def constant_time_msb_w_eq)
qed

lemma mask_simps [ct_simps]:
  "NOT (mask_w p) = mask_w (\<not> p)"
  "ucast (mask_w p) = mask_8 p"
proof -
  show "NOT (mask_w p) = mask_w (\<not> p)" by (simp add: mask_w_def)
  show "ucast (mask_w p) = mask_8 p"
    by (rule byte_eqI) (simp add: mask_w_def mask_8_def bit_simps)
qed

lemma constant_time_is_zero_w_eq [ct_simps]: "constant_time_is_zero_w a = mask_w (a = 0)"
proof -
  have "bit (NOT a AND (a - 1)) 63 \<longleftrightarrow> a = 0"
  proof (cases "a = 0")
    case False
    then have "unat (a - 1) = unat a - 1"
      by (metis unat_minus_one)
    then have "bit (a - 1) 63 \<Longrightarrow> bit a 63" by (simp add: bit_63_iff)
    then show ?thesis using False by (auto simp: bit_simps)
  qed (simp add: bit_simps)
  then show ?thesis by (simp add: constant_time_is_zero_w_def constant_time_msb_w_eq)
qed

lemma constant_time_eq_w_eq [ct_simps]: "constant_time_eq_w a b = mask_w (a = b)"
  by (simp only: constant_time_eq_w_def constant_time_is_zero_w_eq xor_eq_zero_iff)

lemma constant_time_masks [ct_simps]:
  "constant_time_lt_8 a b = mask_8 (a < b)"
  "constant_time_ge_w a b = mask_w (a \<ge> b)"
  "constant_time_ge_8 a b = mask_8 (a \<ge> b)"
  "constant_time_is_zero_8 a = mask_8 (a = 0)"
  "constant_time_eq_8 a b = mask_8 (a = b)"
  by (simp_all add: constant_time_lt_8_def constant_time_ge_w_def constant_time_ge_8_def
      constant_time_is_zero_8_def constant_time_eq_8_def ct_simps not_less)

lemma scast_int_eq_iff: "(scast a :: u64) = scast b \<longleftrightarrow> a = b" for a b :: "32 word"
proof
  assume e: "(scast a :: u64) = scast b"
  show "a = b"
  proof (rule bit_word_eqI)
    fix n assume n: "n < LENGTH(32)"
    have "bit (scast a :: u64) n = bit a n" and "bit (scast b :: u64) n = bit b n"
      using n by (cases "n = 31"; simp add: bit_simps)+
    with e show "bit a n = bit b n" by simp
  qed
qed simp

lemma constant_time_eq_int_masks [ct_simps]:
  "constant_time_eq_int i j = mask_w (i = j)"
  "constant_time_eq_int_8 i j = mask_8 (i = j)"
  by (simp_all add: constant_time_eq_int_def constant_time_eq_int_8_def ct_simps scast_int_eq_iff)

lemma constant_time_select_w_eq [ct_simps]: "constant_time_select_w (mask_w p) a b = (if p then a else b)"
  by (simp add: constant_time_select_w_def mask_w_def)

lemma constant_time_select_8_eq [ct_simps]: "constant_time_select_8 (mask_8 p) a b = (if p then a else b)"
proof (cases p)
  case True
  show ?thesis
    unfolding constant_time_select_8_def constant_time_select_w_def
    by (rule byte_eqI) (simp add: True mask_8_def bit_simps)
next
  case False
  show ?thesis
    unfolding constant_time_select_8_def constant_time_select_w_def
    by (rule byte_eqI) (simp add: False mask_8_def bit_simps)
qed

lemma constant_time_select_int_eq [ct_simps]:
  "constant_time_select_int (mask_w p) i j = (if p then i else j)"
proof -
  have "ucast (scast k :: u64) = k" for k :: "32 word"
    by (rule bit_word_eqI, case_tac "n = 31") (simp_all add: bit_simps)
  then show ?thesis by (simp add: constant_time_select_int_def ct_simps)
qed

section \<open>Properties\<close>

text \<open>C25: The branch-free operations compute what they name: the comparisons are all ones or all
  zeros according to the comparison, for all 64-bit words, and the selection picks the first
  value on all ones and the second on all zeros.\<close>

theorem constant_time_correct:
  "constant_time_lt_w a b = (if a < b then - 1 else 0) \<and>
   constant_time_ge_w a b = (if a \<ge> b then - 1 else 0) \<and>
   constant_time_eq_w a b = (if a = b then - 1 else 0) \<and>
   constant_time_is_zero_w a = (if a = 0 then - 1 else 0) \<and>
   constant_time_eq_int i j = (if i = j then - 1 else 0) \<and>
   constant_time_select_w (constant_time_lt_w a b) x y = (if a < b then x else y) \<and>
   constant_time_select_8 (constant_time_eq_8 a b) x8 y8 = (if a = b then x8 else y8)"
  by (simp add: ct_simps) (simp add: mask_w_def)

end
