(* ===== verification/Base64.thy ===== *)
theory Base64
  imports ConstTime
begin

text \<open>
  \<open>crypto/base64/base64.c\<close>: the block encoder and decoder and the streaming interface with its
  48-byte lines. A C string the functions write is the list of the bytes written; the closing
  NUL is part of it. The loops are structural on the input.
\<close>

section \<open>Characters\<close>

definition constant_time_lt_args_8 :: "byte \<Rightarrow> byte \<Rightarrow> byte" where
  "constant_time_lt_args_8 a b = ucast (constant_time_msb_w (ucast a - ucast b))"

definition constant_time_in_range_8 :: "byte \<Rightarrow> byte \<Rightarrow> byte \<Rightarrow> byte" where
  "constant_time_in_range_8 a lo hi = constant_time_lt_args_8 (a - lo) (hi - lo + 1)"

definition conv_bin2ascii :: "byte \<Rightarrow> byte" where
  "conv_bin2ascii a0 =
     (let a = a0 AND 0x3f;
          ret0 = constant_time_select_8 (constant_time_eq_8 (ucast a) 62) 0x2b 0x2f;
          ret1 = constant_time_select_8 (constant_time_lt_args_8 a 62) (a - 52 + 0x30) ret0;
          ret2 = constant_time_select_8 (constant_time_lt_args_8 a 52) (a - 26 + 0x61) ret1
      in constant_time_select_8 (constant_time_lt_args_8 a 26) (a + 0x41) ret2)"

definition base64_ascii_to_bin :: "byte \<Rightarrow> byte" where
  "base64_ascii_to_bin a =
     (let is_upper = constant_time_in_range_8 a 0x41 0x5a;
          is_lower = constant_time_in_range_8 a 0x61 0x7a;
          is_digit = constant_time_in_range_8 a 0x30 0x39;
          is_plus = constant_time_eq_8 (ucast a) 0x2b;
          is_slash = constant_time_eq_8 (ucast a) 0x2f;
          is_equals = constant_time_eq_8 (ucast a) 0x3d;
          ret0 = 0xff;
          ret1 = constant_time_select_8 is_upper (a - 0x41) ret0;
          ret2 = constant_time_select_8 is_lower (a - 0x61 + 26) ret1;
          ret3 = constant_time_select_8 is_digit (a - 0x30 + 52) ret2;
          ret4 = constant_time_select_8 is_plus 62 ret3;
          ret5 = constant_time_select_8 is_slash 63 ret4
      in constant_time_select_8 is_equals 0 ret5)"

section \<open>Encoding\<close>

definition EVP_EncodedLength :: "nat \<Rightarrow> nat option" where
  "EVP_EncodedLength len0 =
     (if size_add len0 2 < len0 then None
      else
        (let len1 = size_add len0 2 div 3 in
         if size_mul len1 4 div 4 \<noteq> len1 then None
         else
           (let len2 = size_mul len1 4 in
            if size_add len2 1 < len2 then None else Some (size_add len2 1))))"

text \<open>The characters of \<open>EVP_EncodeBlock\<close> without the closing NUL; the function returns
  their number.\<close>

fun encode_block_loop :: "byte list \<Rightarrow> byte list" where
  "encode_block_loop [] = []"
| "encode_block_loop [s0] =
     (let l = push_bit 16 (ucast s0) :: u32
      in [conv_bin2ascii (ucast (drop_bit 18 l)), conv_bin2ascii (ucast (drop_bit 12 l)), 0x3d, 0x3d])"
| "encode_block_loop [s0, s1] =
     (let l = push_bit 16 (ucast s0) OR push_bit 8 (ucast s1) :: u32
      in [conv_bin2ascii (ucast (drop_bit 18 l)), conv_bin2ascii (ucast (drop_bit 12 l)),
          conv_bin2ascii (ucast (drop_bit 6 l)), 0x3d])"
| "encode_block_loop (s0 # s1 # s2 # src) =
     (let l = push_bit 16 (ucast s0) OR push_bit 8 (ucast s1) OR ucast s2 :: u32
      in conv_bin2ascii (ucast (drop_bit 18 l)) # conv_bin2ascii (ucast (drop_bit 12 l)) #
         conv_bin2ascii (ucast (drop_bit 6 l)) # conv_bin2ascii (ucast l) # encode_block_loop src)"

definition EVP_EncodeBlock :: "byte list \<Rightarrow> byte list \<times> nat" where
  "EVP_EncodeBlock src = (encode_block_loop src @ [0], length (encode_block_loop src))"

record evp_encode_ctx =
  ctx_data_used :: nat
  ctx_data :: "byte list"
  ctx_eof_seen :: bool
  ctx_error_encountered :: bool

definition EVP_EncodeInit :: evp_encode_ctx where
  "EVP_EncodeInit = \<lparr>ctx_data_used = 0, ctx_data = replicate 48 0, ctx_eof_seen = False,
     ctx_error_encountered = False\<rparr>"

definition INT_MAX :: nat where
  "INT_MAX = 2 ^ 31 - 1"

text \<open>\<open>OPENSSL_memcpy(&ctx->data[pos], in, n)\<close>.\<close>

definition ctx_copy :: "byte list \<Rightarrow> nat \<Rightarrow> byte list \<Rightarrow> byte list" where
  "ctx_copy dat pos bs = take pos dat @ bs @ drop (pos + length bs) dat"

text \<open>One line: the encoded block, a newline, and a NUL the next line overwrites.\<close>

definition encode_line :: "byte list \<Rightarrow> byte list" where
  "encode_line bs = take (snd (EVP_EncodeBlock bs)) (fst (EVP_EncodeBlock bs)) @ [0x0a]"

text \<open>The \<open>while\<close> loop of \<open>EVP_EncodeUpdate\<close>: the characters written, the total and the rest
  of the input, and whether it ended without an overflow of the total.\<close>

function encode_lines_loop :: "byte list \<Rightarrow> nat \<Rightarrow> byte list \<Rightarrow> bool \<times> byte list \<times> nat \<times> byte list" where
  "encode_lines_loop out tot inp =
     (if length inp \<ge> 48 then
        (let out' = out @ encode_line (take 48 inp);
             encoded = snd (EVP_EncodeBlock (take 48 inp));
             tot' = size_add tot (encoded + 1)
         in if tot' < tot then (False, out', tot, drop 48 inp)
            else encode_lines_loop out' tot' (drop 48 inp))
      else (True, out, tot, inp))"
  by pat_completeness auto
termination by (relation "measure (\<lambda>(out, tot, inp). length inp)") auto

declare encode_lines_loop.simps [simp del]

text \<open>The result: the context, \<open>*out_len\<close>, and the characters written before the last NUL.\<close>

definition EVP_EncodeUpdate :: "evp_encode_ctx \<Rightarrow> byte list \<Rightarrow> evp_encode_ctx \<times> nat \<times> byte list" where
  "EVP_EncodeUpdate ctx inp =
     (if length inp = 0 then (ctx, 0, [])
      else if 48 - ctx_data_used ctx > length inp then
        (ctx\<lparr>ctx_data := ctx_copy (ctx_data ctx) (ctx_data_used ctx) inp,
             ctx_data_used := ctx_data_used ctx + length inp\<rparr>, 0, [])
      else
        (let (ctx1, inp1, out1, total1) =
           (if ctx_data_used ctx \<noteq> 0 then
              (let todo = 48 - ctx_data_used ctx;
                   dat = ctx_copy (ctx_data ctx) (ctx_data_used ctx) (take todo inp)
               in (ctx\<lparr>ctx_data := dat, ctx_data_used := 0\<rparr>, drop todo inp, encode_line dat,
                   snd (EVP_EncodeBlock dat) + 1))
            else (ctx, inp, [], 0))
         in case encode_lines_loop out1 total1 inp1 of
              (False, out, _, _) \<Rightarrow> (ctx1, 0, out)
            | (True, out, total', rest) \<Rightarrow>
                (ctx1\<lparr>ctx_data := ctx_copy (ctx_data ctx1) 0 rest, ctx_data_used := length rest\<rparr>,
                 (if total' > INT_MAX then 0 else total'), out)))"

definition EVP_EncodeFinal :: "evp_encode_ctx \<Rightarrow> evp_encode_ctx \<times> nat \<times> byte list" where
  "EVP_EncodeFinal ctx =
     (if ctx_data_used ctx = 0 then (ctx, 0, [])
      else
        (let line = encode_line (take (ctx_data_used ctx) (ctx_data ctx))
         in (ctx\<lparr>ctx_data_used := 0\<rparr>, length line, line)))"

section \<open>Decoding\<close>

definition EVP_DecodedLength :: "nat \<Rightarrow> nat option" where
  "EVP_DecodedLength len = (if len mod 4 \<noteq> 0 then None else Some (len div 4 * 3))"

definition EVP_DecodeInit :: evp_encode_ctx where
  "EVP_DecodeInit = \<lparr>ctx_data_used = 0, ctx_data = replicate 48 0, ctx_eof_seen = False,
     ctx_error_encountered = False\<rparr>"

text \<open>The bytes written to \<open>out\<close>, whose number is \<open>*out_num_bytes\<close>.\<close>

definition base64_decode_quad :: "byte \<Rightarrow> byte \<Rightarrow> byte \<Rightarrow> byte \<Rightarrow> byte list option" where
  "base64_decode_quad i0 i1 i2 i3 =
     (let a = base64_ascii_to_bin i0; b = base64_ascii_to_bin i1;
          c = base64_ascii_to_bin i2; d = base64_ascii_to_bin i3
      in if a = 0xff \<or> b = 0xff \<or> c = 0xff \<or> d = 0xff then None
         else
           (let v = push_bit 18 (ucast a) OR push_bit 12 (ucast b) OR push_bit 6 (ucast c) OR ucast d :: u32;
                padding_pattern = (if i0 = 0x3d then 8 else 0) + (if i1 = 0x3d then 4 else 0) +
                  (if i2 = 0x3d then 2 else 0) + (if i3 = 0x3d then 1 else 0) :: nat
            in if padding_pattern = 0 then
                 Some [ucast (drop_bit 16 v), ucast (drop_bit 8 v), ucast v]
               else if padding_pattern = 1 then
                 Some [ucast (drop_bit 16 v), ucast (drop_bit 8 v)]
               else if padding_pattern = 3 then Some [ucast (drop_bit 16 v)]
               else None))"

definition is_base64_space :: "byte \<Rightarrow> bool" where
  "is_base64_space c \<longleftrightarrow> c = 0x20 \<or> c = 0x09 \<or> c = 0x0d \<or> c = 0x0a"

text \<open>The loop of \<open>EVP_DecodeUpdate\<close>: the context, the bytes written, and whether it ran to
  the end of the input.\<close>

fun decode_update_loop :: "evp_encode_ctx \<Rightarrow> byte list \<Rightarrow> byte list \<Rightarrow> evp_encode_ctx \<times> byte list \<times> bool" where
  "decode_update_loop ctx out [] = (ctx, out, True)"
| "decode_update_loop ctx out (c # inp) =
     (if is_base64_space c then decode_update_loop ctx out inp
      else if ctx_eof_seen ctx then (ctx\<lparr>ctx_error_encountered := True\<rparr>, out, False)
      else
        (let ctx1 = ctx\<lparr>ctx_data := (ctx_data ctx)[ctx_data_used ctx := c],
                        ctx_data_used := ctx_data_used ctx + 1\<rparr>
         in if ctx_data_used ctx1 = 4 then
              (let dat = ctx_data ctx1 in
               case base64_decode_quad (dat ! 0) (dat ! 1) (dat ! 2) (dat ! 3) of
                 None \<Rightarrow> (ctx1\<lparr>ctx_error_encountered := True\<rparr>, out, False)
               | Some bs \<Rightarrow>
                   decode_update_loop
                     (ctx1\<lparr>ctx_data_used := 0, ctx_eof_seen := ctx_eof_seen ctx1 \<or> length bs < 3\<rparr>)
                     (out @ bs) inp)
            else decode_update_loop ctx1 out inp))"

text \<open>The result: the context, the return value, \<open>*out_len\<close> and the bytes written.\<close>

definition EVP_DecodeUpdate :: "evp_encode_ctx \<Rightarrow> byte list \<Rightarrow> evp_encode_ctx \<times> int \<times> nat \<times> byte list" where
  "EVP_DecodeUpdate ctx inp =
     (if ctx_error_encountered ctx then (ctx, -1, 0, [])
      else
        (case decode_update_loop ctx [] inp of
           (ctx', out, False) \<Rightarrow> (ctx', -1, 0, out)
         | (ctx', out, True) \<Rightarrow>
             (if length out > INT_MAX then (ctx'\<lparr>ctx_error_encountered := True\<rparr>, -1, 0, out)
              else if ctx_eof_seen ctx' then (ctx', 0, length out, out)
              else (ctx', 1, length out, out))))"

definition EVP_DecodeFinal :: "evp_encode_ctx \<Rightarrow> int" where
  "EVP_DecodeFinal ctx = (if ctx_error_encountered ctx \<or> ctx_data_used ctx \<noteq> 0 then -1 else 1)"

text \<open>The loop of \<open>EVP_DecodeBase64\<close>; only the last quad may be short.\<close>

fun decode_quads :: "byte list \<Rightarrow> byte list option" where
  "decode_quads (i0 # i1 # i2 # i3 # inp) =
     (case base64_decode_quad i0 i1 i2 i3 of
        None \<Rightarrow> None
      | Some bs \<Rightarrow>
          (if length bs \<noteq> 3 \<and> inp \<noteq> [] then None
           else map_option (\<lambda>r. bs @ r) (decode_quads inp)))"
| "decode_quads _ = Some []"

definition EVP_DecodeBase64 :: "nat \<Rightarrow> byte list \<Rightarrow> byte list option" where
  "EVP_DecodeBase64 max_out inp =
     (if length inp mod 4 \<noteq> 0 then None
      else
        (case EVP_DecodedLength (length inp) of
           None \<Rightarrow> None
         | Some max_len \<Rightarrow> if max_out < max_len then None else decode_quads inp))"

text \<open>The trimming loops of \<open>EVP_DecodeBlock\<close>.\<close>

fun trim_front :: "byte list \<Rightarrow> byte list" where
  "trim_front [] = []"
| "trim_front (c # src) = (if c \<noteq> 0x20 \<and> c \<noteq> 0x09 then c # src else trim_front src)"

definition trim_back :: "byte list \<Rightarrow> byte list" where
  "trim_back src = rev (dropWhile is_base64_space (rev src))"

text \<open>The bytes of \<open>dst\<close>, or \<open>None\<close> for -1; their number is the return value.\<close>

definition EVP_DecodeBlock :: "byte list \<Rightarrow> byte list option" where
  "EVP_DecodeBlock src0 =
     (let src = trim_back (trim_front src0) in
      case EVP_DecodedLength (length src) of
        None \<Rightarrow> None
      | Some dst_len \<Rightarrow>
          (if dst_len > INT_MAX then None
           else
             (case EVP_DecodeBase64 dst_len src of
                None \<Rightarrow> None
              | Some dst \<Rightarrow> Some (dst @ replicate ((3 - length dst mod 3) mod 3) 0))))"

section \<open>The alphabet\<close>

lemma constant_time_lt_args_8_eq [ct_simps]: "constant_time_lt_args_8 a b = mask_8 (a < b)"
proof -
  have u: "unat (ucast a :: u64) = unat a" "unat (ucast b :: u64) = unat b"
    by (rule unat_ucast_up; simp)+
  have l: "unat a < 256" "unat b < 256" by simp_all
  have "bit (ucast a - ucast b :: u64) 63 \<longleftrightarrow> a < b"
  proof (cases "unat a < unat b")
    case True
    then have "unat (ucast a - ucast b :: u64) = 2 ^ 64 + unat a - unat b"
      using unat_sub_if_size [of "ucast a :: u64" "ucast b"] by (simp add: u word_size word_le_nat_alt)
    moreover have "9223372036854775808 \<le> 18446744073709551616 + unat a - unat b" using l by linarith
    ultimately show ?thesis using True unfolding bit_63_iff word_less_nat_alt by simp
  next
    case False
    then have "unat (ucast a - ucast b :: u64) = unat a - unat b"
      using unat_sub [of "ucast b" "ucast a :: u64"] by (simp add: u word_le_nat_alt)
    moreover have "unat a - unat b < 9223372036854775808" using l by linarith
    ultimately show ?thesis using False unfolding bit_63_iff word_less_nat_alt by simp
  qed
  then show ?thesis by (simp add: constant_time_lt_args_8_def constant_time_msb_w_eq ct_simps)
qed

lemma constant_time_in_range_8_eq [ct_simps]:
  assumes "lo \<le> hi" and "unat hi - unat lo < 255"
  shows "constant_time_in_range_8 a lo hi = mask_8 (lo \<le> a \<and> a \<le> hi)"
proof -
  have l: "unat a < 256" "unat lo < 256" "unat hi < 256" by simp_all
  have w: "unat (hi - lo + 1) = unat hi - unat lo + 1"
    using assms by (subst unat_add_lem [THEN iffD1]) (simp_all add: unat_sub)
  have "a - lo < hi - lo + 1 \<longleftrightarrow> lo \<le> a \<and> a \<le> hi"
  proof (cases "lo \<le> a")
    case True
    then have "unat (a - lo) = unat a - unat lo" by (rule unat_sub)
    with True assms show ?thesis unfolding word_less_nat_alt word_le_nat_alt w by auto
  next
    case False
    then have "unat (a - lo) = 256 + unat a - unat lo"
      using unat_sub_if_size [of a lo] by (simp add: word_size word_le_nat_alt)
    moreover have "unat hi - unat lo + 1 \<le> 256 + unat a - unat lo" using l by linarith
    ultimately show ?thesis using False unfolding word_less_nat_alt word_le_nat_alt w by simp
  qed
  then show ?thesis by (simp add: constant_time_in_range_8_def ct_simps)
qed

text \<open>The 64 characters of RFC 4648, by their value.\<close>

definition b64_char :: "nat \<Rightarrow> byte" where
  "b64_char n =
     (if n < 26 then word_of_nat (0x41 + n)
      else if n < 52 then word_of_nat (0x61 + (n - 26))
      else if n < 62 then word_of_nat (0x30 + (n - 52))
      else if n = 62 then 0x2b else 0x2f)"

lemma ucast_byte_eq_iff: "(ucast a :: u64) = ucast b \<longleftrightarrow> a = (b :: byte)" for a :: byte
proof -
  have "unat (ucast a :: u64) = unat a" and "unat (ucast b :: u64) = unat b"
    by (rule unat_ucast_up; simp)+
  then show ?thesis by (metis word_unat_eq_iff)
qed

lemma constant_time_eq_8_byte:
  fixes a :: byte
  shows "constant_time_eq_8 (ucast a) 62 = mask_8 (a = 62)"
    and "constant_time_eq_8 (ucast a) 0x3d = mask_8 (a = 0x3d)"
    and "constant_time_eq_8 (ucast a) 0x2f = mask_8 (a = 0x2f)"
    and "constant_time_eq_8 (ucast a) 0x2b = mask_8 (a = 0x2b)"
  using ucast_byte_eq_iff [where a = a and b = 62] ucast_byte_eq_iff [where a = a and b = 61]
    ucast_byte_eq_iff [where a = a and b = 47] ucast_byte_eq_iff [where a = a and b = 43]
  by (simp_all add: constant_time_masks)

lemma conv_bin2ascii_eq: "conv_bin2ascii a = b64_char (unat a mod 64)"
proof -
  define b where "b = a AND 0x3f"
  have "b = take_bit 6 a"
    by (simp add: b_def take_bit_eq_mask mask_eq_exp_minus_1)
  then have u: "unat b = unat a mod 64" by (simp only: unat_take_bit) simp
  then have lt: "unat b < 64" by simp
  have sub: "unat (b - k) = unat b - unat k" if "unat k \<le> unat b" for k
    using that by (intro unat_sub) (simp add: word_le_nat_alt)
  show ?thesis
    unfolding conv_bin2ascii_def Let_def b_def [symmetric] constant_time_eq_8_byte
    unfolding ct_simps u [symmetric] b64_char_def
    using lt by (auto simp: word_less_nat_alt of_nat_diff word_unat_eq_iff [of b 62])
qed

lemma base64_ascii_to_bin_eq:
  "base64_ascii_to_bin a =
     (if a = 0x3d then 0 else if a = 0x2f then 63 else if a = 0x2b then 62
      else if 0x30 \<le> a \<and> a \<le> 0x39 then a - 0x30 + 52
      else if 0x61 \<le> a \<and> a \<le> 0x7a then a - 0x61 + 26
      else if 0x41 \<le> a \<and> a \<le> 0x5a then a - 0x41 else 0xff)"
proof -
  have r: "constant_time_in_range_8 a 0x41 0x5a = mask_8 (0x41 \<le> a \<and> a \<le> 0x5a)"
    "constant_time_in_range_8 a 0x61 0x7a = mask_8 (0x61 \<le> a \<and> a \<le> 0x7a)"
    "constant_time_in_range_8 a 0x30 0x39 = mask_8 (0x30 \<le> a \<and> a \<le> 0x39)"
    by (intro constant_time_in_range_8_eq; simp)+
  show ?thesis
    unfolding base64_ascii_to_bin_def Let_def constant_time_eq_8_byte r constant_time_select_8_eq by simp
qed

lemma b64_char_table:
  "\<forall>n \<in> set [0..<64]. base64_ascii_to_bin (b64_char n) = word_of_nat n \<and> b64_char n \<noteq> 0x3d \<and>
     \<not> is_base64_space (b64_char n)"
  unfolding base64_ascii_to_bin_eq is_base64_space_def by code_simp

lemma b64_char_props:
  assumes "n < 64"
  shows "base64_ascii_to_bin (b64_char n) = word_of_nat n" and "b64_char n \<noteq> 0x3d"
    and "\<not> is_base64_space (b64_char n)"
  using b64_char_table assms by auto

section \<open>Quads\<close>

text \<open>The four characters of a 24-bit group.\<close>

definition quad_chars :: "nat \<Rightarrow> byte list" where
  "quad_chars l = [b64_char (l div 2 ^ 18 mod 64), b64_char (l div 2 ^ 12 mod 64),
     b64_char (l div 2 ^ 6 mod 64), b64_char (l mod 64)]"

lemma group_word:
  fixes s0 s1 s2 :: byte
  shows "unat (push_bit 16 (ucast s0) OR push_bit 8 (ucast s1) OR ucast s2 :: u32) =
    unat s0 * 2 ^ 16 + unat s1 * 2 ^ 8 + unat s2"
proof -
  have u: "unat (ucast s :: u32) = unat s" for s :: byte by (rule unat_ucast_up) simp
  have l: "unat s0 < 256" "unat s1 < 256" "unat s2 < 256" by simp_all
  have "push_bit 16 (ucast s0) OR push_bit 8 (ucast s1) OR ucast s2 =
      (push_bit 8 (push_bit 8 (ucast s0) OR ucast s1) OR ucast s2 :: u32)"
    by (simp add: or.assoc)
  also have "unat \<dots> = (unat s0 * 256 + unat s1) * 256 + unat s2"
  proof -
    have i: "unat (push_bit 8 (ucast s0) OR ucast s1 :: u32) = unat s0 * 256 + unat s1"
      using unat_push_bit_or [of "ucast s1 :: u32" 8 "ucast s0"] l u by simp
    show ?thesis
      using unat_push_bit_or [of "ucast s2 :: u32" 8 "push_bit 8 (ucast s0) OR ucast s1"] i l u by simp
  qed
  finally show ?thesis by simp
qed

lemma conv_word:
  "conv_bin2ascii (ucast (drop_bit k l)) = b64_char (unat l div 2 ^ k mod 64)" for l :: u32
proof -
  have "unat (ucast (drop_bit k l) :: byte) mod 64 = unat l div 2 ^ k mod 64"
    by (simp only: unat_ucast unat_drop_bit) (simp add: mod_mod_cancel)
  then show ?thesis by (simp only: conv_bin2ascii_eq)
qed

lemma conv_word_0: "conv_bin2ascii (ucast l) = b64_char (unat l mod 64)" for l :: u32
  using conv_word [of 0 l] by simp

lemma encode_block_loop_3:
  "encode_block_loop (s0 # s1 # s2 # src) =
     quad_chars (unat s0 * 2 ^ 16 + unat s1 * 2 ^ 8 + unat s2) @ encode_block_loop src"
  unfolding encode_block_loop.simps Let_def conv_word
  by (simp only: conv_word_0 group_word quad_chars_def append_Cons append_Nil)

lemma encode_block_loop_2:
  "encode_block_loop [s0, s1] = take 3 (quad_chars (unat s0 * 2 ^ 16 + unat s1 * 2 ^ 8)) @ [0x3d]"
  using group_word [of s0 s1 0]
  by (simp only: encode_block_loop.simps Let_def conv_word quad_chars_def) simp

lemma encode_block_loop_1:
  "encode_block_loop [s0] = take 2 (quad_chars (unat s0 * 2 ^ 16)) @ [0x3d, 0x3d]"
  using group_word [of s0 0 0]
  by (simp only: encode_block_loop.simps Let_def conv_word quad_chars_def) simp

text \<open>The decoder on the values of four characters.\<close>

lemma quad_word:
  assumes "a < 64" "b < 64" "c < 64" "d < 64"
  shows "unat (push_bit 18 (ucast (word_of_nat a :: byte)) OR push_bit 12 (ucast (word_of_nat b :: byte)) OR
    push_bit 6 (ucast (word_of_nat c :: byte)) OR ucast (word_of_nat d :: byte) :: u32) =
    a * 2 ^ 18 + b * 2 ^ 12 + c * 2 ^ 6 + d"
proof -
  have u: "unat (ucast (word_of_nat n :: byte) :: u32) = n" if "n < 64" for n
    using that unat_ucast_up [of "word_of_nat n :: byte", where ?'b = 32] unat_byte_of_nat [of n] by simp
  define wa wb wc wd :: u32 where "wa = ucast (word_of_nat a :: byte)" and "wb = ucast (word_of_nat b :: byte)"
    and "wc = ucast (word_of_nat c :: byte)" and "wd = ucast (word_of_nat d :: byte)"
  have w: "unat wa = a" "unat wb = b" "unat wc = c" "unat wd = d"
    using u assms by (simp_all only: wa_def wb_def wc_def wd_def)
  have "push_bit 18 wa OR push_bit 12 wb OR push_bit 6 wc OR wd =
      push_bit 6 (push_bit 6 (push_bit 6 wa OR wb) OR wc) OR wd"
    by (simp add: or.assoc)
  also have "unat \<dots> = ((a * 64 + b) * 64 + c) * 64 + d"
  proof -
    have 1: "unat (push_bit 6 wa OR wb) = a * 64 + b"
      using unat_push_bit_or [of wb 6 wa] w assms by simp
    have 2: "unat (push_bit 6 (push_bit 6 wa OR wb) OR wc) = (a * 64 + b) * 64 + c"
      using unat_push_bit_or [of wc 6 "push_bit 6 wa OR wb"] 1 w assms by simp
    show ?thesis
      using unat_push_bit_or [of wd 6 "push_bit 6 (push_bit 6 wa OR wb) OR wc"] 2 w assms by simp
  qed
  finally show ?thesis by (simp only: wa_def wb_def wc_def wd_def) simp
qed

lemma word_of_nat_ff: "n < 64 \<Longrightarrow> (word_of_nat n :: byte) \<noteq> 0xff"
  using unat_byte_of_nat [of n] by auto

lemma ucast_drop_u32: "(ucast (drop_bit k v) :: byte) = word_of_nat (unat v div 2 ^ k)" for v :: u32
  by (rule word_unat_eq_iff [THEN iffD2]) (simp only: unat_ucast unat_drop_bit unat_of_nat)

lemma base64_decode_quad_chars:
  assumes "a < 64" "b < 64" "c < 64" "d < 64"
  defines "v \<equiv> a * 2 ^ 18 + b * 2 ^ 12 + c * 2 ^ 6 + d"
  shows "base64_decode_quad (b64_char a) (b64_char b) (b64_char c) (b64_char d) =
      Some [word_of_nat (v div 2 ^ 16), word_of_nat (v div 2 ^ 8), word_of_nat v]"
    and "d = 0 \<Longrightarrow> base64_decode_quad (b64_char a) (b64_char b) (b64_char c) 0x3d =
      Some [word_of_nat (v div 2 ^ 16), word_of_nat (v div 2 ^ 8)]"
    and "c = 0 \<Longrightarrow> d = 0 \<Longrightarrow> base64_decode_quad (b64_char a) (b64_char b) 0x3d 0x3d =
      Some [word_of_nat (v div 2 ^ 16)]"
proof -
  note ch = b64_char_props [OF assms(1)] b64_char_props [OF assms(2)] b64_char_props [OF assms(3)]
    b64_char_props [OF assms(4)]
  note ff = word_of_nat_ff [OF assms(1)] word_of_nat_ff [OF assms(2)] word_of_nat_ff [OF assms(3)]
    word_of_nat_ff [OF assms(4)]
  have eq: "base64_ascii_to_bin 0x3d = 0" by (simp add: base64_ascii_to_bin_eq)
  define W :: u32 where "W = push_bit 18 (ucast (word_of_nat a :: byte)) OR push_bit 12 (ucast (word_of_nat b :: byte)) OR
    push_bit 6 (ucast (word_of_nat c :: byte)) OR ucast (word_of_nat d :: byte)"
  have uW: "unat W = v" unfolding W_def v_def by (rule quad_word [OF assms(1-4)])
  have bytes: "(ucast (drop_bit 16 W) :: byte) = word_of_nat (v div 2 ^ 16)"
    "(ucast (drop_bit 8 W) :: byte) = word_of_nat (v div 2 ^ 8)" "(ucast W :: byte) = word_of_nat v"
    using ucast_drop_u32 [of 16 W] ucast_drop_u32 [of 8 W] ucast_drop_u32 [of 0 W]
    by (simp_all only: uW) simp
  have z: "(0 :: byte) = word_of_nat 0" by simp
  show "base64_decode_quad (b64_char a) (b64_char b) (b64_char c) (b64_char d) =
      Some [word_of_nat (v div 2 ^ 16), word_of_nat (v div 2 ^ 8), word_of_nat v]"
    unfolding base64_decode_quad_def Let_def ch(1,4,7,10) W_def [symmetric] bytes
    using ch ff by simp
  show "base64_decode_quad (b64_char a) (b64_char b) (b64_char c) 0x3d =
      Some [word_of_nat (v div 2 ^ 16), word_of_nat (v div 2 ^ 8)]" if d: "d = 0"
    unfolding base64_decode_quad_def Let_def ch(1,4,7) eq z W_def [unfolded d, symmetric] bytes
    using ch ff d by simp
  show "base64_decode_quad (b64_char a) (b64_char b) 0x3d 0x3d =
      Some [word_of_nat (v div 2 ^ 16)]" if cd: "c = 0" "d = 0"
    unfolding base64_decode_quad_def Let_def ch(1,4) eq z W_def [unfolded cd, symmetric] bytes
    using ch ff cd by simp
qed

section \<open>Round trips\<close>

lemma quad_digits:
  fixes l :: nat
  assumes "l < 2 ^ 24"
  shows "(l div 2 ^ 18 mod 64) * 2 ^ 18 + (l div 2 ^ 12 mod 64) * 2 ^ 12 + (l div 2 ^ 6 mod 64) * 2 ^ 6 + l mod 64 = l"
proof -
  have a: "l div 2 ^ 18 mod 64 = l div 2 ^ 18"
    using assms by (intro mod_less) (simp add: less_mult_imp_div_less)
  define A B C where "A = l div 2 ^ 18" and "B = l div 2 ^ 12" and "C = l div 2 ^ 6"
  have "B div 64 = A" "C div 64 = B" "l div 64 = C"
    by (simp_all add: A_def B_def C_def div_mult2_eq [symmetric])
  then have "l = C * 64 + l mod 64" "C = B * 64 + C mod 64" "B = A * 64 + B mod 64"
    using div_mult_mod_eq [of l 64] div_mult_mod_eq [of C 64] div_mult_mod_eq [of B 64] by simp_all
  then have "A * 262144 + B mod 64 * 4096 + C mod 64 * 64 + l mod 64 = l" by linarith
  then show ?thesis using a unfolding A_def B_def C_def by simp
qed

lemma quad_three:
  fixes s0 s1 s2 :: byte
  defines "l \<equiv> unat s0 * 2 ^ 16 + unat s1 * 2 ^ 8 + unat s2"
  shows "l < 2 ^ 24" and "word_of_nat (l div 2 ^ 16) = s0" and "(word_of_nat (l div 2 ^ 8) :: byte) = s1"
    and "(word_of_nat l :: byte) = s2"
proof -
  have b: "unat s0 < 256" "unat s1 < 256" "unat s2 < 256" by simp_all
  have "unat s0 * 65536 + unat s1 * 256 + unat s2 < 16777216" using b by linarith
  then show "l < 2 ^ 24" by (simp add: l_def)
  have lo: "unat s1 * 256 + unat s2 < 65536" using b by linarith
  have "l div 2 ^ 16 = unat s0"
    using lo by (intro div_nat_eqI) (simp_all add: l_def)
  then show "word_of_nat (l div 2 ^ 16) = s0" by simp
  have "l div 2 ^ 8 = unat s0 * 256 + unat s1"
    using b by (intro div_nat_eqI) (simp_all add: l_def)
  then show "(word_of_nat (l div 2 ^ 8) :: byte) = s1" by (simp add: byte_256)
  have z: "(65536 :: byte) = 0" by (rule word_unat_eq_iff [THEN iffD2]) simp
  show "(word_of_nat l :: byte) = s2" by (simp add: l_def byte_256 z)
qed

lemma decode_quad_3:
  assumes "quad_chars (unat s0 * 2 ^ 16 + unat s1 * 2 ^ 8 + unat s2) = [a, b, c, d]"
  shows "base64_decode_quad a b c d = Some [s0, s1, s2]"
proof -
  define l where "l = unat s0 * 2 ^ 16 + unat s1 * 2 ^ 8 + unat s2"
  note r = base64_decode_quad_chars(1) [of "l div 2 ^ 18 mod 64" "l div 2 ^ 12 mod 64" "l div 2 ^ 6 mod 64" "l mod 64",
    unfolded quad_digits [OF quad_three(1) [of s0 s1 s2], folded l_def]]
  have "base64_decode_quad (b64_char (l div 2 ^ 18 mod 64)) (b64_char (l div 2 ^ 12 mod 64))
      (b64_char (l div 2 ^ 6 mod 64)) (b64_char (l mod 64)) =
      Some [word_of_nat (l div 2 ^ 16), word_of_nat (l div 2 ^ 8), word_of_nat l]"
    by (rule r) simp_all
  moreover have "a = b64_char (l div 2 ^ 18 mod 64)" "b = b64_char (l div 2 ^ 12 mod 64)"
    "c = b64_char (l div 2 ^ 6 mod 64)" "d = b64_char (l mod 64)"
    using assms by (simp_all only: quad_chars_def l_def list.inject)
  ultimately show ?thesis using quad_three(2-4) [of s0 s1 s2, folded l_def] by simp
qed

lemma decode_quad_2:
  assumes "quad_chars (unat s0 * 2 ^ 16 + unat s1 * 2 ^ 8) = [a, b, c, d]"
  shows "base64_decode_quad a b c 0x3d = Some [s0, s1]"
proof -
  define l where "l = unat s0 * 2 ^ 16 + unat s1 * 2 ^ 8 + unat (0 :: byte)"
  have "l = (unat s0 * 2 ^ 10 + unat s1 * 2 ^ 2) * 64" by (simp add: l_def)
  then have m: "l mod 64 = 0" by simp
  note r = base64_decode_quad_chars(2) [of "l div 2 ^ 18 mod 64" "l div 2 ^ 12 mod 64" "l div 2 ^ 6 mod 64" "l mod 64",
    unfolded quad_digits [OF quad_three(1) [of s0 s1 0], folded l_def]]
  have "base64_decode_quad (b64_char (l div 2 ^ 18 mod 64)) (b64_char (l div 2 ^ 12 mod 64))
      (b64_char (l div 2 ^ 6 mod 64)) 0x3d = Some [word_of_nat (l div 2 ^ 16), word_of_nat (l div 2 ^ 8)]"
    by (rule r) (simp_all add: m)
  moreover have "a = b64_char (l div 2 ^ 18 mod 64)" "b = b64_char (l div 2 ^ 12 mod 64)" "c = b64_char (l div 2 ^ 6 mod 64)"
    using assms by (simp_all add: quad_chars_def l_def)
  ultimately show ?thesis using quad_three(2,3) [of s0 s1 0, folded l_def] by simp
qed

lemma decode_quad_1:
  assumes "quad_chars (unat s0 * 2 ^ 16) = [a, b, c, d]"
  shows "base64_decode_quad a b 0x3d 0x3d = Some [s0]"
proof -
  define l where "l = unat s0 * 2 ^ 16 + unat (0 :: byte) * 2 ^ 8 + unat (0 :: byte)"
  have "l = unat s0 * 2 ^ 10 * 64" by (simp add: l_def)
  then have m: "l mod 64 = 0" by simp
  have "l div 2 ^ 6 = unat s0 * 2 ^ 4 * 64" by (simp add: l_def)
  then have m2: "l div 2 ^ 6 mod 64 = 0" by simp
  note r = base64_decode_quad_chars(3) [of "l div 2 ^ 18 mod 64" "l div 2 ^ 12 mod 64" "l div 2 ^ 6 mod 64" "l mod 64",
    unfolded quad_digits [OF quad_three(1) [of s0 0 0], folded l_def]]
  have "base64_decode_quad (b64_char (l div 2 ^ 18 mod 64)) (b64_char (l div 2 ^ 12 mod 64)) 0x3d 0x3d =
      Some [word_of_nat (l div 2 ^ 16)]"
    using m m2 by (intro r) simp_all
  moreover have "a = b64_char (l div 2 ^ 18 mod 64)" "b = b64_char (l div 2 ^ 12 mod 64)"
    using assms by (simp_all add: quad_chars_def l_def)
  ultimately show ?thesis using quad_three(2) [of s0 0 0, folded l_def] by simp
qed

lemma quad_charsE: obtains a b c d where "quad_chars l = [a, b, c, d]"
  by (simp add: quad_chars_def)

lemma decode_quads_encode: "decode_quads (encode_block_loop bs) = Some bs"
proof (induction bs rule: encode_block_loop.induct)
  case (2 s0)
  obtain a b c d where q: "quad_chars (unat s0 * 2 ^ 16) = [a, b, c, d]" by (rule quad_charsE)
  with decode_quad_1 [OF q] show ?case
    by (simp only: encode_block_loop_1) (simp add: numeral_2_eq_2)
next
  case (3 s0 s1)
  obtain a b c d where q: "quad_chars (unat s0 * 2 ^ 16 + unat s1 * 2 ^ 8) = [a, b, c, d]" by (rule quad_charsE)
  with decode_quad_2 [OF q] show ?case
    by (simp only: encode_block_loop_2) (simp add: numeral_3_eq_3)
next
  case (4 s0 s1 s2 src)
  obtain a b c d where q: "quad_chars (unat s0 * 2 ^ 16 + unat s1 * 2 ^ 8 + unat s2) = [a, b, c, d]"
    by (rule quad_charsE)
  with decode_quad_3 [OF q] "4.IH" show ?case
    by (simp only: encode_block_loop_3 q) simp
qed simp

lemma length_encode_block_loop: "length (encode_block_loop bs) = 4 * ((length bs + 2) div 3)"
proof (induction bs rule: encode_block_loop.induct)
  case (4 s0 s1 s2 src)
  have "(length (s0 # s1 # s2 # src) + 2) div 3 = (length src + 2 + 3) div 3" by (simp add: add.commute)
  also have "\<dots> = (length src + 2) div 3 + 1" by (rule div_add_self2) simp
  finally show ?case using 4 by (simp add: Let_def)
qed (simp_all add: Let_def)

lemma EVP_DecodeBase64_encode:
  assumes "3 * ((length bs + 2) div 3) \<le> max_out"
  shows "EVP_DecodeBase64 max_out (encode_block_loop bs) = Some bs"
  using assms by (simp add: EVP_DecodeBase64_def EVP_DecodedLength_def length_encode_block_loop decode_quads_encode
      mult.commute)

section \<open>The streaming encoder\<close>

lemma encode_line_eq: "encode_line bs = encode_block_loop bs @ [0x0a]"
  by (simp add: encode_line_def EVP_EncodeBlock_def)

text \<open>The complete lines of the input so far, and what is left for the next one.\<close>

function full_lines :: "byte list \<Rightarrow> byte list" where
  "full_lines bs = (if length bs \<ge> 48 then encode_line (take 48 bs) @ full_lines (drop 48 bs) else [])"
  by pat_completeness auto
termination by (relation "measure length") auto

declare full_lines.simps [simp del]

function rest_line :: "byte list \<Rightarrow> byte list" where
  "rest_line bs = (if length bs \<ge> 48 then rest_line (drop 48 bs) else bs)"
  by pat_completeness auto
termination by (relation "measure length") auto

declare rest_line.simps [simp del]

text \<open>The whole output: lines of at most 64 characters, each closed by a newline.\<close>

definition base64_lines :: "byte list \<Rightarrow> byte list" where
  "base64_lines bs = full_lines bs @ (if rest_line bs = [] then [] else encode_line (rest_line bs))"

lemma full_lines_short: "length bs < 48 \<Longrightarrow> full_lines bs = []"
  by (simp add: full_lines.simps)

lemma rest_line_short: "length bs < 48 \<Longrightarrow> rest_line bs = bs"
  by (simp add: rest_line.simps)

lemma full_lines_step: "length p = 48 \<Longrightarrow> full_lines (p @ bs) = encode_line p @ full_lines bs"
  by (subst full_lines.simps) simp

lemma rest_line_step: "length p = 48 \<Longrightarrow> rest_line (p @ bs) = rest_line bs"
  by (subst rest_line.simps) simp

lemma length_rest_line: "length (rest_line bs) < 48"
proof (induction bs rule: rest_line.induct)
  case (1 bs)
  then show ?case by (subst rest_line.simps) simp
qed

lemma lines_append:
  "full_lines (bs @ cs) = full_lines bs @ full_lines (rest_line bs @ cs) \<and>
     rest_line (bs @ cs) = rest_line (rest_line bs @ cs)"
proof (induction bs rule: full_lines.induct)
  case (1 bs)
  show ?case
  proof (cases "length bs \<ge> 48")
    case True
    have eq: "bs @ cs = take 48 bs @ (drop 48 bs @ cs)" by simp
    have "full_lines (bs @ cs) = encode_line (take 48 bs) @ full_lines (drop 48 bs @ cs)"
      using True by (subst eq) (rule full_lines_step, simp)
    moreover have "rest_line (bs @ cs) = rest_line (drop 48 bs @ cs)"
      using True by (subst eq) (rule rest_line_step, simp)
    moreover have "full_lines bs = encode_line (take 48 bs) @ full_lines (drop 48 bs)"
      and "rest_line bs = rest_line (drop 48 bs)"
      using True by (subst full_lines.simps, simp, subst rest_line.simps, simp)
    ultimately show ?thesis using "1.IH" [OF True] by simp
  next
    case False
    then show ?thesis by (simp add: full_lines_short rest_line_short)
  qed
qed

lemma length_line_48: "length p = 48 \<Longrightarrow> length (encode_block_loop p) = 64"
  by (simp add: length_encode_block_loop)

lemma encode_lines_loop_eq:
  "tot + length (full_lines inp) < size_mod \<Longrightarrow>
     encode_lines_loop out tot inp = (True, out @ full_lines inp, tot + length (full_lines inp), rest_line inp)"
proof (induction out tot inp rule: encode_lines_loop.induct)
  case (1 out tot inp)
  show ?case
  proof (cases "length inp \<ge> 48")
    case True
    let ?l = "encode_line (take 48 inp)"
    have fl: "full_lines inp = ?l @ full_lines (drop 48 inp)"
      using True by (subst full_lines.simps) simp
    have ll: "length ?l = 65" and le: "length (encode_block_loop (take 48 inp)) = 64"
      using True length_line_48 [of "take 48 inp"] by (simp_all add: encode_line_eq)
    have add: "size_add tot 65 = tot + 65"
      using "1.prems" fl ll by (intro size_add_exact) simp
    have "encode_lines_loop (out @ ?l) (tot + 65) (drop 48 inp) =
        (True, (out @ ?l) @ full_lines (drop 48 inp), tot + 65 + length (full_lines (drop 48 inp)), rest_line (drop 48 inp))"
      using "1.IH" [OF True refl refl refl] "1.prems" fl ll le add by (simp add: EVP_EncodeBlock_def)
    then show ?thesis
      using True fl ll le add
      by (subst encode_lines_loop.simps) (simp add: EVP_EncodeBlock_def Let_def rest_line.simps [of inp])
  next
    case False
    then show ?thesis
      by (subst encode_lines_loop.simps) (simp add: full_lines_short rest_line_short)
  qed
qed

text \<open>A context holds the bytes \<open>p\<close> of an unfinished line.\<close>

definition enc_rel :: "evp_encode_ctx \<Rightarrow> byte list \<Rightarrow> bool" where
  "enc_rel ctx p \<longleftrightarrow> length (ctx_data ctx) = 48 \<and> length p < 48 \<and> ctx_data_used ctx = length p \<and>
     take (length p) (ctx_data ctx) = p"

lemma enc_rel_init: "enc_rel EVP_EncodeInit []"
  by (simp add: enc_rel_def EVP_EncodeInit_def)

lemma ctx_copy_props:
  assumes "length dat = 48" and "take (length p) dat = p" and "length p + length bs \<le> 48"
  shows "length (ctx_copy dat (length p) bs) = 48"
    and "take (length p + length bs) (ctx_copy dat (length p) bs) = p @ bs"
  using assms by (simp_all add: ctx_copy_def)

lemma EVP_EncodeUpdate_lines:
  assumes rel: "enc_rel ctx p" and fits: "length (full_lines (p @ inp)) \<le> INT_MAX"
  shows "case EVP_EncodeUpdate ctx inp of (ctx', out_len, out) \<Rightarrow>
    enc_rel ctx' (rest_line (p @ inp)) \<and> out = full_lines (p @ inp) \<and> out_len = length out"
proof -
  have r: "length (ctx_data ctx) = 48" "length p < 48" "ctx_data_used ctx = length p"
    "take (length p) (ctx_data ctx) = p"
    using rel by (auto simp: enc_rel_def)
  consider (empty) "inp = []" | (small) "inp \<noteq> []" "length p + length inp < 48"
    | (big) "inp \<noteq> []" "48 \<le> length p + length inp" by linarith
  then show ?thesis
  proof cases
    case empty
    with r rel show ?thesis by (simp add: EVP_EncodeUpdate_def full_lines_short rest_line_short)
  next
    case small
    with r ctx_copy_props [OF r(1,4), of inp] show ?thesis
      by (auto simp: EVP_EncodeUpdate_def full_lines_short rest_line_short enc_rel_def)
  next
    case big
    define todo where "todo = 48 - length p"
    have p48: "length (p @ take todo inp) = 48" if "p \<noteq> []" using big r that by (simp add: todo_def)
    have small_total: "length (full_lines (p @ inp)) < size_mod" using fits by (simp add: INT_MAX_def)
    have fin: "enc_rel (c\<lparr>ctx_data := ctx_copy (ctx_data c) 0 rest, ctx_data_used := length rest\<rparr>) rest"
      if "length (ctx_data c) = 48" "length rest < 48" for c rest
      using that by (simp add: enc_rel_def ctx_copy_def)
    show ?thesis
    proof (cases "p = []")
      case True
      have "encode_lines_loop [] 0 inp = (True, full_lines inp, length (full_lines inp), rest_line inp)"
        using encode_lines_loop_eq [of 0 inp "[]"] small_total True by simp
      with True big r fits fin [of ctx "rest_line inp"] length_rest_line show ?thesis
        by (simp add: EVP_EncodeUpdate_def Let_def)
    next
      case False
      let ?p = "p @ take todo inp"
      have full: "full_lines (p @ inp) = encode_line ?p @ full_lines (drop todo inp)"
        and rest: "rest_line (p @ inp) = rest_line (drop todo inp)"
        using full_lines_step [OF p48 [OF False], of "drop todo inp"]
          rest_line_step [OF p48 [OF False], of "drop todo inp"] by simp_all
      have dat: "ctx_copy (ctx_data ctx) (length p) (take todo inp) = ?p"
        using ctx_copy_props [OF r(1,4), of "take todo inp"] p48 [OF False] by simp
      have ll: "length (encode_block_loop ?p) + 1 = length (encode_line ?p)"
        by (simp add: encode_line_eq)
      have loop: "encode_lines_loop (encode_line ?p) (length (encode_line ?p)) (drop todo inp) =
          (True, full_lines (p @ inp), length (full_lines (p @ inp)), rest_line (p @ inp))"
        using encode_lines_loop_eq [of "length (encode_line ?p)" "drop todo inp" "encode_line ?p"] small_total
        by (simp add: full rest)
      let ?c = "ctx\<lparr>ctx_data := ?p, ctx_data_used := 0\<rparr>"
      have "enc_rel (?c\<lparr>ctx_data := ctx_copy (ctx_data ?c) 0 (rest_line (p @ inp)),
          ctx_data_used := length (rest_line (p @ inp))\<rparr>) (rest_line (p @ inp))"
        by (rule fin) (use p48 [OF False] length_rest_line in simp_all)
      moreover have "\<not> length inp < todo" using big by (simp add: todo_def)
      ultimately show ?thesis
        using False big r fits ll loop dat
        by (simp add: EVP_EncodeUpdate_def Let_def EVP_EncodeBlock_def todo_def [symmetric])
    qed
  qed
qed

text \<open>A run of the streaming interface: any number of updates, then the final call.\<close>

fun encode_stream :: "evp_encode_ctx \<Rightarrow> byte list list \<Rightarrow> byte list" where
  "encode_stream ctx [] = (case EVP_EncodeFinal ctx of (_, _, out) \<Rightarrow> out)"
| "encode_stream ctx (inp # inps) =
     (case EVP_EncodeUpdate ctx inp of (ctx', out_len, out) \<Rightarrow> take out_len out @ encode_stream ctx' inps)"

lemma EVP_EncodeFinal_line:
  assumes "enc_rel ctx p"
  shows "encode_stream ctx [] = (if p = [] then [] else encode_line p)"
  using assms by (auto simp: EVP_EncodeFinal_def enc_rel_def Let_def)

lemma encode_stream_lines:
  assumes "enc_rel ctx p" and "length (full_lines (p @ concat inps)) \<le> INT_MAX"
  shows "encode_stream ctx inps = base64_lines (p @ concat inps)"
  using assms
proof (induction inps arbitrary: ctx p)
  case Nil
  then have "length p < 48" by (simp add: enc_rel_def)
  with Nil EVP_EncodeFinal_line [OF Nil.prems(1)] show ?case
    by (simp add: base64_lines_def full_lines_short rest_line_short)
next
  case (Cons inp inps)
  have la: "full_lines (p @ concat (inp # inps)) = full_lines (p @ inp) @ full_lines (rest_line (p @ inp) @ concat inps)"
    "rest_line (p @ concat (inp # inps)) = rest_line (rest_line (p @ inp) @ concat inps)"
    using lines_append [of "p @ inp" "concat inps"] by simp_all
  obtain ctx' out_len out where u: "EVP_EncodeUpdate ctx inp = (ctx', out_len, out)"
    by (cases "EVP_EncodeUpdate ctx inp") auto
  have "length (full_lines (p @ inp)) \<le> INT_MAX" using Cons.prems(2) la by simp
  from EVP_EncodeUpdate_lines [OF Cons.prems(1) this] u
  have o: "enc_rel ctx' (rest_line (p @ inp))" "out = full_lines (p @ inp)" "out_len = length out" by auto
  have "encode_stream ctx' inps = base64_lines (rest_line (p @ inp) @ concat inps)"
    using Cons.prems(2) la by (intro Cons.IH [OF o(1)]) simp
  with u o la show ?case by (simp add: base64_lines_def)
qed

section \<open>The streaming decoder\<close>

lemma decode_loop_append:
  "decode_update_loop ctx out (xs @ ys) =
     (case decode_update_loop ctx out xs of
        (c, o1, True) \<Rightarrow> decode_update_loop c o1 ys
      | (c, o1, False) \<Rightarrow> (c, o1, False))"
  by (induction ctx out xs rule: decode_update_loop.induct) (auto simp: Let_def split: option.splits)

lemma decode_loop_out:
  "decode_update_loop ctx out inp =
     (case decode_update_loop ctx [] inp of (c, o1, b) \<Rightarrow> (c, out @ o1, b))"
proof (induction inp arbitrary: ctx out)
  case (Cons x inp)
  have step: "decode_update_loop c (o1 @ bs) inp = (case decode_update_loop c bs inp of (c, o2, b) \<Rightarrow> (c, o1 @ o2, b))"
    for c o1 bs
    using Cons.IH [of c "o1 @ bs"] Cons.IH [of c bs] by (auto split: prod.splits)
  have base: "decode_update_loop c out inp = (case decode_update_loop c [] inp of (c, o2, b) \<Rightarrow> (c, out @ o2, b))" for c
    by (rule Cons.IH)
  show ?case
    by (simp add: Let_def step base split: option.splits)
qed simp

lemma decode_loop_filter:
  "decode_update_loop ctx out inp = decode_update_loop ctx out (filter (\<lambda>c. \<not> is_base64_space c) inp)"
  by (induction ctx out inp rule: decode_update_loop.induct) (auto simp: Let_def split: option.splits)

lemma decode_loop_error:
  "decode_update_loop ctx out inp = (c, o1, True) \<Longrightarrow> ctx_error_encountered c = ctx_error_encountered ctx"
  by (induction ctx out inp rule: decode_update_loop.induct)
    (auto simp: Let_def split: option.splits if_splits)

text \<open>Four characters on an empty context are one quad.\<close>

lemma decode_loop_quad:
  assumes d: "length (ctx_data ctx) = 48" "ctx_data_used ctx = 0" "\<not> ctx_eof_seen ctx"
    and sp: "\<not> is_base64_space i0" "\<not> is_base64_space i1" "\<not> is_base64_space i2" "\<not> is_base64_space i3"
    and q: "base64_decode_quad i0 i1 i2 i3 = Some bs"
  obtains ctx' where "length (ctx_data ctx') = 48" and "ctx_data_used ctx' = 0"
    and "ctx_eof_seen ctx' \<longleftrightarrow> length bs < 3"
    and "decode_update_loop ctx out (i0 # i1 # i2 # i3 # inp) = decode_update_loop ctx' (out @ bs) inp"
proof
  let ?dat = "(ctx_data ctx)[0 := i0, 1 := i1, 2 := i2, 3 := i3]"
  let ?c = "ctx\<lparr>ctx_data := ?dat, ctx_data_used := 0, ctx_eof_seen := length bs < 3\<rparr>"
  show "length (ctx_data ?c) = 48" "ctx_data_used ?c = 0" "ctx_eof_seen ?c \<longleftrightarrow> length bs < 3"
    using d by simp_all
  have n: "?dat ! 0 = i0" "?dat ! 1 = i1" "?dat ! 2 = i2" "?dat ! 3 = i3"
    using d(1) by (simp_all add: nth_list_update)
  show "decode_update_loop ctx out (i0 # i1 # i2 # i3 # inp) = decode_update_loop ?c (out @ bs) inp"
    using d sp q n by (simp add: numeral_2_eq_2 numeral_3_eq_3)
qed

lemma decode_loop_quads:
  assumes "length (ctx_data ctx) = 48" and "ctx_data_used ctx = 0" and "\<not> ctx_eof_seen ctx"
    and "\<forall>c \<in> set inp. \<not> is_base64_space c" and "length inp mod 4 = 0" and "decode_quads inp = Some bs"
  shows "\<exists>c. decode_update_loop ctx out inp = (c, out @ bs, True) \<and> ctx_data_used c = 0"
  using assms
proof (induction inp arbitrary: ctx out bs rule: decode_quads.induct)
  case (1 i0 i1 i2 i3 inp)
  obtain q where q: "base64_decode_quad i0 i1 i2 i3 = Some q"
    using "1.prems"(6) by (cases "base64_decode_quad i0 i1 i2 i3") auto
  obtain ctx' where c: "length (ctx_data ctx') = 48" "ctx_data_used ctx' = 0"
    "ctx_eof_seen ctx' \<longleftrightarrow> length q < 3"
    "decode_update_loop ctx out (i0 # i1 # i2 # i3 # inp) = decode_update_loop ctx' (out @ q) inp"
    using decode_loop_quad [OF "1.prems"(1-3) _ _ _ _ q, of out inp] "1.prems"(4) by auto
  show ?case
  proof (cases "inp = []")
    case True
    with c q "1.prems"(6) show ?thesis by simp
  next
    case False
    with "1.prems"(6) q obtain r where r: "length q = 3" "decode_quads inp = Some r" "bs = q @ r"
      by (auto split: if_splits)
    have "length inp mod 4 = 0"
    proof -
      have "length (i0 # i1 # i2 # i3 # inp) = length inp + 4" by simp
      then show ?thesis using "1.prems"(5) by (metis mod_add_self2)
    qed
    with "1.IH" [OF q _ c(1,2) _ _ _ r(2), of "out @ q"] c(3,4) r "1.prems"(4) False show ?thesis by simp
  qed
qed (auto simp: mod_if split: if_splits)

text \<open>A run of the decoder: the bytes of all calls, if none of them fails.\<close>

fun decode_stream :: "evp_encode_ctx \<Rightarrow> byte list list \<Rightarrow> byte list option" where
  "decode_stream ctx [] = (if EVP_DecodeFinal ctx = 1 then Some [] else None)"
| "decode_stream ctx (inp # inps) =
     (case EVP_DecodeUpdate ctx inp of (ctx', r, out_len, out) \<Rightarrow>
        (if r < 0 then None else map_option (\<lambda>rest. take out_len out @ rest) (decode_stream ctx' inps)))"

lemma decode_stream_loop:
  assumes "decode_update_loop ctx [] (concat inps) = (c, bs, True)" and "ctx_data_used c = 0"
    and "\<not> ctx_error_encountered ctx" and "length bs \<le> INT_MAX"
  shows "decode_stream ctx inps = Some bs"
  using assms
proof (induction inps arbitrary: ctx bs)
  case Nil
  then show ?case by (simp add: EVP_DecodeFinal_def)
next
  case (Cons inp inps)
  obtain c1 o1 b1 where l: "decode_update_loop ctx [] inp = (c1, o1, b1)"
    by (cases "decode_update_loop ctx [] inp") auto
  have b1: "b1" and l2: "decode_update_loop c1 o1 (concat inps) = (c, bs, True)"
    using Cons.prems(1) l by (auto simp: decode_loop_append split: bool.splits)
  obtain o2 where o2: "decode_update_loop c1 [] (concat inps) = (c, o2, True)" "bs = o1 @ o2"
    using l2 decode_loop_out [of c1 o1 "concat inps"] by (auto split: prod.splits)
  have err: "\<not> ctx_error_encountered c1"
    using decode_loop_error [of ctx "[]" inp c1 o1] l b1 Cons.prems(3) by simp
  have "decode_stream c1 inps = Some o2"
    using Cons.IH [OF o2(1) Cons.prems(2) err] Cons.prems(4) o2(2) by simp
  with l b1 Cons.prems(3,4) o2(2) show ?case by (simp add: EVP_DecodeUpdate_def)
qed

lemma encode_block_no_space: "\<forall>c \<in> set (encode_block_loop bs). \<not> is_base64_space c"
proof -
  have q: "\<not> is_base64_space c" if "c \<in> set (quad_chars l)" for c l
    using that b64_char_props(3) by (auto simp: quad_chars_def)
  have e: "\<not> is_base64_space 0x3d" by (simp add: is_base64_space_def)
  show ?thesis
  proof (induction bs rule: encode_block_loop.induct)
    case (2 s0)
    then show ?case unfolding encode_block_loop_1 using q e by (auto dest: in_set_takeD)
  next
    case (3 s0 s1)
    then show ?case unfolding encode_block_loop_2 using q e by (auto dest: in_set_takeD)
  next
    case (4 s0 s1 s2 src)
    then show ?case unfolding encode_block_loop_3 using q by auto
  qed simp
qed

text \<open>However the characters are split into calls and spaced, the decoder returns the bytes.\<close>

lemma decode_stream_encode:
  assumes "filter (\<lambda>c. \<not> is_base64_space c) (concat inps) = encode_block_loop bs" and "length bs \<le> INT_MAX"
  shows "decode_stream EVP_DecodeInit inps = Some bs"
proof -
  have "\<exists>c. decode_update_loop EVP_DecodeInit [] (encode_block_loop bs) = (c, [] @ bs, True) \<and> ctx_data_used c = 0"
    by (rule decode_loop_quads)
      (simp_all add: EVP_DecodeInit_def encode_block_no_space decode_quads_encode length_encode_block_loop)
  then obtain c where "decode_update_loop EVP_DecodeInit [] (concat inps) = (c, bs, True)" "ctx_data_used c = 0"
    using decode_loop_filter [of EVP_DecodeInit "[]" "concat inps"] assms(1) by auto
  then show ?thesis
    using assms(2) by (intro decode_stream_loop) (simp_all add: EVP_DecodeInit_def)
qed

lemma encode_block_append:
  "length xs mod 3 = 0 \<Longrightarrow> encode_block_loop (xs @ ys) = encode_block_loop xs @ encode_block_loop ys"
  by (induction xs rule: encode_block_loop.induct) (auto simp: Let_def mod_if split: if_splits)

lemma filter_encode_line:
  "filter (\<lambda>c. \<not> is_base64_space c) (encode_line bs) = encode_block_loop bs"
  using encode_block_no_space [of bs]
  by (simp add: encode_line_eq is_base64_space_def filter_id_conv)

lemma filter_base64_lines:
  "filter (\<lambda>c. \<not> is_base64_space c) (base64_lines bs) = encode_block_loop bs"
proof (induction bs rule: full_lines.induct)
  case (1 bs)
  show ?case
  proof (cases "length bs \<ge> 48")
    case True
    have "base64_lines bs = encode_line (take 48 bs) @ base64_lines (drop 48 bs)"
      using True by (simp add: base64_lines_def full_lines.simps [of bs] rest_line.simps [of bs])
    moreover have "encode_block_loop (take 48 bs @ drop 48 bs) =
        encode_block_loop (take 48 bs) @ encode_block_loop (drop 48 bs)"
      using True by (intro encode_block_append) simp
    ultimately show ?thesis
      using "1.IH" [OF True] by (simp add: filter_encode_line)
  next
    case False
    then show ?thesis
      by (simp add: base64_lines_def full_lines_short rest_line_short filter_encode_line)
  qed
qed

section \<open>Properties\<close>

text \<open>Decoding an encoded block gives back the bytes, whenever the output buffer has the size
  \<open>EVP_DecodedLength\<close> asks for.\<close>

theorem base64_block_roundtrip:
  assumes "3 * ((length bs + 2) div 3) \<le> max_out"
  shows "EVP_DecodeBase64 max_out (take (snd (EVP_EncodeBlock bs)) (fst (EVP_EncodeBlock bs))) = Some bs"
  using EVP_DecodeBase64_encode [OF assms] by (simp add: EVP_EncodeBlock_def)

theorem base64_block_roundtrip_witness:
  "EVP_DecodeBase64 6 (take (snd (EVP_EncodeBlock [1, 2, 3, 4])) (fst (EVP_EncodeBlock [1, 2, 3, 4]))) =
    Some [1, 2, 3, 4]"
  by (rule base64_block_roundtrip) simp

text \<open>C19: The streaming encoder does not depend on how the input is cut: any sequence of updates
  and the final call write the one-shot encoding, a line of 64 characters for every 48 bytes.\<close>

theorem base64_stream_chunking:
  assumes "length (full_lines (concat inps)) \<le> INT_MAX"
  shows "encode_stream EVP_EncodeInit inps = base64_lines (concat inps)"
  using encode_stream_lines [OF enc_rel_init, of inps] assms by simp

theorem base64_stream_chunking_witness:
  "encode_stream EVP_EncodeInit [replicate 40 7, [], replicate 20 9] = base64_lines (replicate 40 7 @ replicate 20 9)"
  using base64_stream_chunking [of "[replicate 40 7, [], replicate 20 9]"]
  by (simp add: full_lines.simps INT_MAX_def encode_line_eq length_encode_block_loop)

text \<open>C18: The streaming decoder inverts the encoder for any cutting of the text into calls and
  any whitespace put between the characters.\<close>

theorem base64_stream_decode:
  assumes "filter (\<lambda>c. \<not> is_base64_space c) (concat inps) =
      take (snd (EVP_EncodeBlock bs)) (fst (EVP_EncodeBlock bs))"
    and "length bs \<le> INT_MAX"
  shows "decode_stream EVP_DecodeInit inps = Some bs"
  using decode_stream_encode [OF _ assms(2), of inps] assms(1) by (simp add: EVP_EncodeBlock_def)

text \<open>The witness cuts the encoded lines of 60 bytes in two, inside a quad.\<close>

theorem base64_stream_decode_witness:
  "decode_stream EVP_DecodeInit
     [take 5 (base64_lines (replicate 60 3)), [0x20], drop 5 (base64_lines (replicate 60 3))] =
   Some (replicate 60 3)"
proof (rule base64_stream_decode)
  have "filter (\<lambda>c. \<not> is_base64_space c) (take 5 xs @ [0x20] @ drop 5 xs) =
      filter (\<lambda>c. \<not> is_base64_space c) xs" for xs :: "byte list"
  proof -
    have "filter (\<lambda>c. \<not> is_base64_space c) [0x20] = []" by (simp add: is_base64_space_def)
    then have "filter (\<lambda>c. \<not> is_base64_space c) (take 5 xs @ [0x20] @ drop 5 xs) =
        filter (\<lambda>c. \<not> is_base64_space c) (take 5 xs @ drop 5 xs)" by (simp only: filter_append append_Nil)
    then show ?thesis by (simp only: append_take_drop_id)
  qed
  then show "filter (\<lambda>c. \<not> is_base64_space c) (concat [take 5 (base64_lines (replicate 60 3)), [0x20],
        drop 5 (base64_lines (replicate 60 3))]) =
      take (snd (EVP_EncodeBlock (replicate 60 3))) (fst (EVP_EncodeBlock (replicate 60 3)))"
    by (simp add: filter_base64_lines EVP_EncodeBlock_def)
qed (simp add: INT_MAX_def)

text \<open>A decoder that has met an error stays in error: every later call returns -1, writes
  nothing, and \<open>EVP_DecodeFinal\<close> reports the error.\<close>

theorem base64_decode_error_sticky:
  assumes "ctx_error_encountered ctx"
  shows "EVP_DecodeUpdate ctx inp = (ctx, -1, 0, []) \<and> EVP_DecodeFinal ctx = -1"
  using assms by (simp add: EVP_DecodeUpdate_def EVP_DecodeFinal_def)

theorem base64_decode_error_sticky_witness:
  "EVP_DecodeUpdate (EVP_DecodeInit\<lparr>ctx_error_encountered := True\<rparr>) [0x41] =
     (EVP_DecodeInit\<lparr>ctx_error_encountered := True\<rparr>, -1, 0, [])"
  using base64_decode_error_sticky [of "EVP_DecodeInit\<lparr>ctx_error_encountered := True\<rparr>" "[0x41]"] by simp

end
