(* ===== verification/BufMem.thy ===== *)
theory BufMem
  imports Mem
begin

text \<open>
  \<open>crypto/buf/buf.c\<close>: the resizable byte buffer. \<open>bm_data\<close> is the allocated block, of which the
  first \<open>bm_length\<close> bytes are in use; a call that returns 0 leaves the buffer alone.
\<close>

section \<open>Operations\<close>

record buf_mem =
  bm_length :: nat
  bm_data :: "byte list"
  bm_max :: nat

text \<open>\<open>sizeof(BUF_MEM)\<close> is 24.\<close>

definition BUF_MEM_new :: "mallocf \<Rightarrow> buf_mem option" where
  "BUF_MEM_new m =
     (case OPENSSL_malloc m 24 of
        None \<Rightarrow> None
      | Some _ \<Rightarrow> Some \<lparr>bm_length = 0, bm_data = [], bm_max = 0\<rparr>)"

definition BUF_MEM_reserve :: "mallocf \<Rightarrow> nat \<Rightarrow> (buf_mem, unit) cop" where
  "BUF_MEM_reserve m cap buf =
     (if bm_max buf \<ge> cap then (Some (), buf)
      else
        (let n0 = size_add cap 3 in
         if n0 < cap then (None, buf)
         else
           (let n = n0 div 3; alloc_size = size_mul n 4
            in if alloc_size div 4 \<noteq> n then (None, buf)
               else
                 (case OPENSSL_realloc m (bm_data buf) alloc_size of
                    None \<Rightarrow> (None, buf)
                  | Some new_buf \<Rightarrow> (Some (), buf\<lparr>bm_data := new_buf, bm_max := alloc_size\<rparr>)))))"

text \<open>The result is the return value: the new length, or 0 for an error.\<close>

definition BUF_MEM_grow :: "mallocf \<Rightarrow> nat \<Rightarrow> buf_mem \<Rightarrow> nat \<times> buf_mem" where
  "BUF_MEM_grow m len buf =
     (case BUF_MEM_reserve m len buf of
        (None, buf1) \<Rightarrow> (0, buf1)
      | (Some _, buf1) \<Rightarrow>
          (let dat = (if bm_length buf1 < len
                      then take (bm_length buf1) (bm_data buf1) @ replicate (len - bm_length buf1) 0 @
                           drop len (bm_data buf1)
                      else bm_data buf1)
           in (len, buf1\<lparr>bm_data := dat, bm_length := len\<rparr>)))"

definition BUF_MEM_grow_clean :: "mallocf \<Rightarrow> nat \<Rightarrow> buf_mem \<Rightarrow> nat \<times> buf_mem" where
  "BUF_MEM_grow_clean m len buf = BUF_MEM_grow m len buf"

definition BUF_MEM_append :: "mallocf \<Rightarrow> byte list \<Rightarrow> (buf_mem, unit) cop" where
  "BUF_MEM_append m inp buf =
     (let len = length inp in
      if len = 0 then (Some (), buf)
      else
        (let new_len = size_add (bm_length buf) len in
         if new_len < len then (None, buf)
         else
           (case BUF_MEM_reserve m new_len buf of
              (None, buf1) \<Rightarrow> (None, buf1)
            | (Some _, buf1) \<Rightarrow>
                (Some (), buf1\<lparr>bm_data := take (bm_length buf1) (bm_data buf1) @ inp @
                                 drop (bm_length buf1 + len) (bm_data buf1),
                               bm_length := new_len\<rparr>))))"

section \<open>The buffer as a sequence of bytes\<close>

definition bm_bytes :: "buf_mem \<Rightarrow> byte list" where
  "bm_bytes buf = take (bm_length buf) (bm_data buf)"

definition bm_ok :: "buf_mem \<Rightarrow> bool" where
  "bm_ok buf \<longleftrightarrow> length (bm_data buf) = bm_max buf \<and> bm_length buf \<le> bm_max buf \<and> bm_max buf < 2 ^ 63"

lemma reserve_alloc_size:
  assumes "cap < 2 ^ 63"
  shows "size_add cap 3 = cap + 3" and "size_mul ((cap + 3) div 3) 4 = (cap + 3) div 3 * 4"
    and "(cap + 3) div 3 * 4 < size_mod - 8" and "cap \<le> (cap + 3) div 3 * 4"
proof -
  show "size_add cap 3 = cap + 3" using assms by (intro size_add_exact) simp
  have "(cap + 3) div 3 * 3 \<le> cap + 3" by simp
  then have "(cap + 3) div 3 * 12 \<le> 4 * (cap + 3)" by simp
  then show le: "(cap + 3) div 3 * 4 < size_mod - 8" using assms by simp
  then show "size_mul ((cap + 3) div 3) 4 = (cap + 3) div 3 * 4" by (intro size_mul_exact) simp
  show "cap \<le> (cap + 3) div 3 * 4" by linarith
qed

lemma reserve_spec:
  assumes m: "malloc_law m" and ok: "bm_ok buf" and cap: "cap < 2 ^ 63"
  shows "case BUF_MEM_reserve m cap buf of
      (None, buf') \<Rightarrow> buf' = buf
    | (Some _, buf') \<Rightarrow> bm_ok buf' \<and> cap \<le> bm_max buf' \<and> bm_length buf' = bm_length buf \<and>
        bm_bytes buf' = bm_bytes buf"
proof (cases "bm_max buf \<ge> cap")
  case True
  with ok show ?thesis by (simp add: BUF_MEM_reserve_def)
next
  case False
  note a = reserve_alloc_size [OF cap]
  show ?thesis
  proof (cases "OPENSSL_realloc m (bm_data buf) ((cap + 3) div 3 * 4)")
    case None
    with False a show ?thesis by (simp add: BUF_MEM_reserve_def Let_def)
  next
    case (Some nb)
    note r = OPENSSL_realloc_SomeD [OF m a(3) Some]
    have "bm_length buf \<le> bm_max buf" "length (bm_data buf) = bm_max buf" using ok by (simp_all add: bm_ok_def)
    then have "take (bm_length buf) nb = take (bm_length buf) (bm_data buf)"
      using arg_cong [OF r(2), of "take (bm_length buf)"] a(4) False by (simp add: min_def)
    with False a r(1,3) Some ok show ?thesis
      by (simp add: BUF_MEM_reserve_def bm_ok_def bm_bytes_def)
  qed
qed

lemma reserve_cases:
  assumes "malloc_law m" and "bm_ok buf" and "cap < 2 ^ 63"
  obtains (Fails) "BUF_MEM_reserve m cap buf = (None, buf)" and "0 < cap"
    | (Ok) buf' where "BUF_MEM_reserve m cap buf = (Some (), buf')" and "bm_ok buf'"
        and "cap \<le> bm_max buf'" and "bm_length buf' = bm_length buf" and "bm_bytes buf' = bm_bytes buf"
proof (cases "BUF_MEM_reserve m cap buf")
  case (Pair r b)
  show thesis
  proof (cases r)
    case None
    have "0 < cap" using Pair None by (auto simp: BUF_MEM_reserve_def split: if_splits)
    with None Pair reserve_spec [OF assms] Fails show thesis by simp
  next
    case (Some u)
    with Pair reserve_spec [OF assms] Ok show thesis by simp
  qed
qed

text \<open>Growing keeps what is there and zero-fills the rest; shrinking forgets the tail.\<close>

lemma BUF_MEM_grow_bytes:
  assumes "malloc_law m" and "bm_ok buf" and "len < 2 ^ 63"
  shows "BUF_MEM_grow m len buf = (0, buf) \<and> 0 < len \<or>
    fst (BUF_MEM_grow m len buf) = len \<and> bm_ok (snd (BUF_MEM_grow m len buf)) \<and>
    bm_bytes (snd (BUF_MEM_grow m len buf)) =
      take len (bm_bytes buf) @ replicate (len - bm_length buf) 0"
  using assms
proof (cases rule: reserve_cases)
  case Fails
  then show ?thesis by (simp add: BUF_MEM_grow_def)
next
  case (Ok buf')
  have tk: "take len (take (bm_length buf) (bm_data buf')) = take len (bm_bytes buf)"
    using Ok(4,5) by (simp add: bm_bytes_def)
  have tk2: "take len (bm_bytes buf) = take len (bm_data buf')" if "len \<le> bm_length buf"
    using that tk by (simp add: min_def)
  show ?thesis
  proof (cases "bm_length buf < len")
    case True
    then have "take len (bm_bytes buf) = take (bm_length buf) (bm_data buf')"
      using Ok(4,5) assms(2) by (simp add: bm_bytes_def bm_ok_def)
    moreover have "bm_length buf \<le> length (bm_data buf)" using assms(2) by (simp add: bm_ok_def)
    ultimately show ?thesis
      using True Ok by (simp add: BUF_MEM_grow_def Let_def bm_ok_def bm_bytes_def min_def)
  next
    case False
    with tk2 Ok show ?thesis by (simp add: BUF_MEM_grow_def Let_def bm_ok_def bm_bytes_def)
  qed
qed

lemma BUF_MEM_append_bytes:
  assumes "malloc_law m" and "bm_ok buf" and "bm_length buf + length inp < 2 ^ 63"
  shows "BUF_MEM_append m inp buf = (None, buf) \<or>
    fst (BUF_MEM_append m inp buf) = Some () \<and> bm_ok (snd (BUF_MEM_append m inp buf)) \<and>
    bm_bytes (snd (BUF_MEM_append m inp buf)) = bm_bytes buf @ inp"
proof (cases "inp = []")
  case True
  with assms(2) show ?thesis by (simp add: BUF_MEM_append_def)
next
  case False
  have add: "size_add (bm_length buf) (length inp) = bm_length buf + length inp"
    using assms(3) by (intro size_add_exact) simp
  from assms show ?thesis
  proof (cases rule: reserve_cases)
    case Fails
    with False add show ?thesis by (simp add: BUF_MEM_append_def Let_def)
  next
    case (Ok buf')
    moreover have "bm_length buf \<le> length (bm_data buf)" using assms(2) by (simp add: bm_ok_def)
    ultimately show ?thesis using False add
      by (simp add: BUF_MEM_append_def Let_def bm_ok_def bm_bytes_def min_def)
  qed
qed

text \<open>The operations a client can run, and the bytes it expects to hold after them.\<close>

datatype buf_op = Grow nat | Append "byte list"

fun buf_step :: "mallocf \<Rightarrow> buf_op \<Rightarrow> buf_mem \<Rightarrow> bool \<times> buf_mem" where
  "buf_step m (Grow len) buf = (let (r, buf1) = BUF_MEM_grow m len buf in (r = len, buf1))"
| "buf_step m (Append inp) buf = (let (r, buf1) = BUF_MEM_append m inp buf in (r = Some (), buf1))"

fun op_request :: "buf_op \<Rightarrow> byte list \<Rightarrow> nat" where
  "op_request (Grow len) xs = len"
| "op_request (Append inp) xs = length xs + length inp"

fun op_result :: "buf_op \<Rightarrow> byte list \<Rightarrow> byte list" where
  "op_result (Grow len) xs = take len xs @ replicate (len - length xs) 0"
| "op_result (Append inp) xs = xs @ inp"

lemma length_bm_bytes: "bm_ok buf \<Longrightarrow> length (bm_bytes buf) = bm_length buf"
  by (simp add: bm_ok_def bm_bytes_def)

text \<open>C34: every operation on a \<open>BUF_MEM\<close> whose request is below half the address space either
  has the effect of the abstract operation on the bytes it holds (growing zero-fills and keeps,
  appending appends), with the buffer well formed again, or reports failure and leaves the buffer
  exactly as it was. The 4/3 growth never wraps in that range.\<close>

theorem BUF_MEM_refines_bytes:
  assumes "malloc_law m" and "bm_ok buf" and "op_request c (bm_bytes buf) < 2 ^ 63"
  shows "\<not> fst (buf_step m c buf) \<and> snd (buf_step m c buf) = buf \<or>
    fst (buf_step m c buf) \<and> bm_ok (snd (buf_step m c buf)) \<and>
    bm_bytes (snd (buf_step m c buf)) = op_result c (bm_bytes buf)"
proof (cases c)
  case (Grow len)
  then show ?thesis
    using assms BUF_MEM_grow_bytes [OF assms(1,2), of len] by (auto simp: length_bm_bytes split_beta)
next
  case (Append inp)
  then show ?thesis
    using assms BUF_MEM_append_bytes [OF assms(1,2), of inp] by (auto simp: length_bm_bytes split_beta)
qed

lemma BUF_MEM_refines_bytes_witness:
  "buf_step small_malloc (Append [1, 2]) \<lparr>bm_length = 0, bm_data = [], bm_max = 0\<rparr> =
     (True, \<lparr>bm_length = 2, bm_data = [1, 2, 0, 0], bm_max = 4\<rparr>) \<and>
   bm_bytes (snd (buf_step small_malloc (Append [1, 2]) \<lparr>bm_length = 0, bm_data = [], bm_max = 0\<rparr>)) = [1, 2]"
proof -
  have r: "replicate 4 x = [x, x, x, x]" for x :: byte by (simp add: numeral_eq_Suc)
  have e: "buf_step small_malloc (Append [1, 2]) \<lparr>bm_length = 0, bm_data = [], bm_max = 0\<rparr> =
     (True, \<lparr>bm_length = 2, bm_data = [1, 2, 0, 0], bm_max = 4\<rparr>)"
    by (simp add: BUF_MEM_append_def BUF_MEM_reserve_def small_malloc_def OPENSSL_realloc_def
        OPENSSL_malloc_def size_add_def size_mul_def r)
  from BUF_MEM_refines_bytes
    [of small_malloc "\<lparr>bm_length = 0, bm_data = [], bm_max = 0\<rparr>" "Append [1, 2]", OF small_malloc_law]
  show ?thesis unfolding e by (simp add: bm_ok_def bm_bytes_def)
qed

end
