(* ===== verification/Stack.thy ===== *)
theory Stack
  imports Compare Mem
begin

text \<open>
  \<open>crypto/stack/stack.c\<close>: the growable array of pointers behind every \<open>STACK_OF(...)\<close>. A
  pointer is \<open>None\<close> (\<open>NULL\<close>) or the object it points to; a comparison function is named by a
  value of its own and called through \<open>call_cmp\<close>, the parameter \<open>call_cmp_func\<close> of the code.
  The array \<open>sk_data\<close> has \<open>sk_num_alloc\<close> cells, of which the first \<open>sk_num\<close> are in use. The
  theorems show that the operations refine those of a list, that the array bounds hold in every
  reachable state, and that the binary search finds what the linear search finds.
\<close>

section \<open>State and operations\<close>

record ('a, 'f) stack =
  sk_nr :: nat
  sk_data :: "'a option list"
  sk_sorted_flag :: bool
  sk_num_alloc :: nat
  sk_comp :: "'f option"

definition kMinSize :: nat where
  "kMinSize = 4"

text \<open>\<open>sizeof(void *)\<close> is 8 and \<open>sizeof(_STACK)\<close> 40.\<close>

definition sk_new :: "mallocf \<Rightarrow> 'f option \<Rightarrow> ('a, 'f) stack option" where
  "sk_new m cf =
     (case OPENSSL_malloc m 40 of
        None \<Rightarrow> None
      | Some _ \<Rightarrow>
          (case OPENSSL_malloc m (size_mul 8 kMinSize) of
             None \<Rightarrow> None
           | Some _ \<Rightarrow>
               Some \<lparr>sk_nr = 0, sk_data = replicate kMinSize None, sk_sorted_flag = False,
                 sk_num_alloc = kMinSize, sk_comp = cf\<rparr>))"

definition sk_new_null :: "mallocf \<Rightarrow> ('a, 'f) stack option" where
  "sk_new_null m = sk_new m None"

definition sk_num :: "('a, 'f) stack option \<Rightarrow> nat" where
  "sk_num sk = (case sk of None \<Rightarrow> 0 | Some s \<Rightarrow> sk_nr s)"

definition sk_zero :: "('a, 'f) stack option \<Rightarrow> ('a, 'f) stack option" where
  "sk_zero sk =
     (case sk of
        None \<Rightarrow> None
      | Some s \<Rightarrow>
          (if sk_nr s = 0 then Some s
           else Some (s\<lparr>sk_data := replicate (sk_nr s) None @ drop (sk_nr s) (sk_data s),
                        sk_nr := 0, sk_sorted_flag := False\<rparr>)))"

definition sk_value :: "('a, 'f) stack option \<Rightarrow> nat \<Rightarrow> 'a option" where
  "sk_value sk i =
     (case sk of None \<Rightarrow> None | Some s \<Rightarrow> if i \<ge> sk_nr s then None else sk_data s ! i)"

definition sk_set :: "('a, 'f) stack option \<Rightarrow> nat \<Rightarrow> 'a option \<Rightarrow> ('a, 'f) stack option \<times> 'a option" where
  "sk_set sk i v =
     (case sk of
        None \<Rightarrow> (None, None)
      | Some s \<Rightarrow>
          (if i \<ge> sk_nr s then (Some s, None)
           else (Some (s\<lparr>sk_data := (sk_data s)[i := v]\<rparr>), v)))"

text \<open>\<open>free_func\<close> acts on the rest of the heap; \<open>sk_free\<close> only gives memory back.\<close>

definition sk_pop_free_ex :: "('a, 'f) stack option \<Rightarrow> ('a \<Rightarrow> 's \<Rightarrow> 's) \<Rightarrow> 's \<Rightarrow> 's" where
  "sk_pop_free_ex sk free_func h =
     (case sk of
        None \<Rightarrow> h
      | Some s \<Rightarrow>
          foldl (\<lambda>h i. case sk_data s ! i of None \<Rightarrow> h | Some p \<Rightarrow> free_func p h) h [0..<sk_nr s])"

definition sk_pop_free :: "('a, 'f) stack option \<Rightarrow> ('a \<Rightarrow> 's \<Rightarrow> 's) \<Rightarrow> 's \<Rightarrow> 's" where
  "sk_pop_free sk free_func h = sk_pop_free_ex sk (\<lambda>p. free_func p) h"

text \<open>\<open>OPENSSL_realloc\<close> of an array of pointers; nothing reads a fresh cell before writing it,
  so the model fills them with \<open>NULL\<close>.\<close>

definition realloc_ptrs :: "mallocf \<Rightarrow> 'a option list \<Rightarrow> nat \<Rightarrow> nat \<Rightarrow> 'a option list option" where
  "realloc_ptrs m dat new_alloc alloc_size =
     (case OPENSSL_malloc m alloc_size of
        None \<Rightarrow> None
      | Some _ \<Rightarrow> Some (take new_alloc dat @ replicate (new_alloc - length dat) None))"

text \<open>The growth at the start of \<open>sk_insert\<close>: \<open>None\<close> is the return of 0.\<close>

definition sk_grow :: "mallocf \<Rightarrow> ('a, 'f) stack \<Rightarrow> ('a, 'f) stack option" where
  "sk_grow m s =
     (if sk_num_alloc s \<le> size_add (sk_nr s) 1 then
        (let doubled = size_mul (sk_num_alloc s) 2;
             bad = (\<lambda>new_alloc. new_alloc < sk_num_alloc s \<or> size_mul new_alloc 8 div 8 \<noteq> new_alloc);
             new_alloc = (if bad doubled then size_add (sk_num_alloc s) 1 else doubled)
         in if bad new_alloc then None
            else (case realloc_ptrs m (sk_data s) new_alloc (size_mul new_alloc 8) of
                    None \<Rightarrow> None
                  | Some dat \<Rightarrow> Some (s\<lparr>sk_data := dat, sk_num_alloc := new_alloc\<rparr>)))
      else Some s)"

definition sk_insert :: "mallocf \<Rightarrow> ('a, 'f) stack option \<Rightarrow> 'a option \<Rightarrow> nat \<Rightarrow> ('a, 'f) stack option \<times> nat" where
  "sk_insert m sk p pos =
     (case sk of
        None \<Rightarrow> (None, 0)
      | Some s0 \<Rightarrow>
          (case sk_grow m s0 of
             None \<Rightarrow> (Some s0, 0)
           | Some s \<Rightarrow>
               (let dat = (if pos \<ge> sk_nr s then (sk_data s)[sk_nr s := p]
                           else (take (pos + 1) (sk_data s) @ take (sk_nr s - pos) (drop pos (sk_data s)) @
                                 drop (sk_nr s + 1) (sk_data s))[pos := p])
                in (Some (s\<lparr>sk_data := dat, sk_nr := sk_nr s + 1, sk_sorted_flag := False\<rparr>), sk_nr s + 1))))"

definition sk_delete :: "('a, 'f) stack option \<Rightarrow> nat \<Rightarrow> ('a, 'f) stack option \<times> 'a option" where
  "sk_delete sk pos =
     (case sk of
        None \<Rightarrow> (None, None)
      | Some s \<Rightarrow>
          (if pos \<ge> sk_nr s then (Some s, None)
           else
             (let dat = (if pos \<noteq> sk_nr s - 1
                         then take pos (sk_data s) @ take (sk_nr s - pos - 1) (drop (pos + 1) (sk_data s)) @
                              drop (sk_nr s - 1) (sk_data s)
                         else sk_data s)
              in (Some (s\<lparr>sk_data := dat, sk_nr := sk_nr s - 1\<rparr>), sk_data s ! pos))))"

text \<open>The loops \<open>for (i = 0; i < sk->num; i++)\<close> that look for a first index.\<close>

definition first_index :: "(nat \<Rightarrow> bool) \<Rightarrow> nat \<Rightarrow> nat option" where
  "first_index P n = find P [0..<n]"

definition sk_delete_ptr :: "('a, 'f) stack option \<Rightarrow> 'a option \<Rightarrow> ('a, 'f) stack option \<times> 'a option" where
  "sk_delete_ptr sk p =
     (case sk of
        None \<Rightarrow> (None, None)
      | Some s \<Rightarrow>
          (case first_index (\<lambda>i. sk_data s ! i = p) (sk_nr s) of
             None \<Rightarrow> (Some s, None)
           | Some i \<Rightarrow> sk_delete (Some s) i))"

definition sk_is_sorted :: "('a, 'f) stack option \<Rightarrow> bool" where
  "sk_is_sorted sk = (case sk of None \<Rightarrow> True | Some s \<Rightarrow> sk_sorted_flag s)"

text \<open>The binary search; \<open>r i\<close> is the result of the comparison with element \<open>i\<close>.\<close>

function sk_bsearch :: "(nat \<Rightarrow> int) \<Rightarrow> nat \<Rightarrow> nat \<Rightarrow> nat option" where
  "sk_bsearch r lo hi =
     (if lo < hi then
        (let mid = lo + (hi - lo - 1) div 2
         in if r mid > 0 then sk_bsearch r (mid + 1) hi
            else if r mid < 0 then sk_bsearch r lo mid
            else if hi - lo = 1 then Some mid
            else sk_bsearch r lo (mid + 1))
      else None)"
  by pat_completeness auto
termination by (relation "measure (\<lambda>(r, lo, hi). hi - lo)") auto

declare sk_bsearch.simps [simp del]

definition sk_find ::
  "('f \<Rightarrow> 'a option \<Rightarrow> 'a option \<Rightarrow> int) \<Rightarrow> ('a, 'f) stack option \<Rightarrow> 'a option \<Rightarrow> nat option" where
  "sk_find call_cmp sk p =
     (case sk of
        None \<Rightarrow> None
      | Some s \<Rightarrow>
          (case sk_comp s of
             None \<Rightarrow> first_index (\<lambda>i. sk_data s ! i = p) (sk_nr s)
           | Some cf \<Rightarrow>
               (if p = None then None
                else if \<not> sk_is_sorted sk then
                  first_index (\<lambda>i. call_cmp cf p (sk_data s ! i) = 0) (sk_nr s)
                else sk_bsearch (\<lambda>i. call_cmp cf p (sk_data s ! i)) 0 (sk_nr s))))"

definition sk_shift :: "('a, 'f) stack option \<Rightarrow> ('a, 'f) stack option \<times> 'a option" where
  "sk_shift sk =
     (case sk of None \<Rightarrow> (None, None) | Some s \<Rightarrow> if sk_nr s = 0 then (sk, None) else sk_delete sk 0)"

definition sk_push :: "mallocf \<Rightarrow> ('a, 'f) stack option \<Rightarrow> 'a option \<Rightarrow> ('a, 'f) stack option \<times> nat" where
  "sk_push m sk p = sk_insert m sk p (sk_num sk)"

definition sk_pop :: "('a, 'f) stack option \<Rightarrow> ('a, 'f) stack option \<times> 'a option" where
  "sk_pop sk =
     (case sk of None \<Rightarrow> (None, None) | Some s \<Rightarrow> if sk_nr s = 0 then (sk, None) else sk_delete sk (sk_nr s - 1))"

definition sk_dup :: "mallocf \<Rightarrow> ('a, 'f) stack option \<Rightarrow> ('a, 'f) stack option" where
  "sk_dup m sk =
     (case sk of
        None \<Rightarrow> None
      | Some s \<Rightarrow>
          (case sk_new m (sk_comp s) of
             None \<Rightarrow> None
           | Some ret \<Rightarrow>
               (case realloc_ptrs m (sk_data ret) (sk_num_alloc s) (size_mul 8 (sk_num_alloc s)) of
                  None \<Rightarrow> None
                | Some dat \<Rightarrow>
                    Some \<lparr>sk_nr = sk_nr s, sk_data = take (sk_nr s) (sk_data s) @ drop (sk_nr s) dat,
                      sk_sorted_flag = sk_sorted_flag s, sk_num_alloc = sk_num_alloc s, sk_comp = sk_comp s\<rparr>)))"

definition sk_sort :: "('f \<Rightarrow> 'a option \<Rightarrow> 'a option \<Rightarrow> int) \<Rightarrow> ('a, 'f) stack option \<Rightarrow> ('a, 'f) stack option" where
  "sk_sort call_cmp sk =
     (case sk of
        None \<Rightarrow> None
      | Some s \<Rightarrow>
          (case sk_comp s of
             None \<Rightarrow> Some s
           | Some cf \<Rightarrow>
               (if sk_sorted_flag s then Some s
                else Some (s\<lparr>sk_data := (if sk_nr s \<ge> 2
                        then qsort (call_cmp cf) (take (sk_nr s) (sk_data s)) @ drop (sk_nr s) (sk_data s)
                        else sk_data s),
                      sk_sorted_flag := True\<rparr>))))"

definition sk_set_cmp_func :: "('a, 'f) stack \<Rightarrow> 'f option \<Rightarrow> ('a, 'f) stack \<times> 'f option" where
  "sk_set_cmp_func s cf =
     ((if sk_comp s \<noteq> cf then s\<lparr>sk_sorted_flag := False\<rparr> else s)\<lparr>sk_comp := cf\<rparr>, sk_comp s)"

text \<open>The loop of \<open>sk_deep_copy\<close> at index \<open>i\<close>: \<open>copy\<close> returns the copy or \<open>NULL\<close> and changes
  the heap; when it fails, the copies made so far are freed in order.\<close>

function deep_copy_loop ::
  "('a \<Rightarrow> 's \<Rightarrow> 'a option \<times> 's) \<Rightarrow> ('a \<Rightarrow> 's \<Rightarrow> 's) \<Rightarrow> nat \<Rightarrow> ('a, 'f) stack \<Rightarrow> 's \<Rightarrow>
     ('a, 'f) stack option \<times> 's" where
  "deep_copy_loop copy_func free_func i ret h =
     (if i < sk_nr ret then
        (case sk_data ret ! i of
           None \<Rightarrow> deep_copy_loop copy_func free_func (i + 1) ret h
         | Some p \<Rightarrow>
             (case copy_func p h of
                (None, h') \<Rightarrow>
                  (None, foldl (\<lambda>h j. case sk_data ret ! j of None \<Rightarrow> h | Some q \<Rightarrow> free_func q h) h' [0..<i])
              | (Some q, h') \<Rightarrow>
                  deep_copy_loop copy_func free_func (i + 1) (ret\<lparr>sk_data := (sk_data ret)[i := Some q]\<rparr>) h'))
      else (Some ret, h))"
  by pat_completeness auto
termination by (relation "measure (\<lambda>(copy_func, free_func, i, ret, h). sk_nr ret - i)") auto

declare deep_copy_loop.simps [simp del]

definition sk_deep_copy ::
  "mallocf \<Rightarrow> ('a \<Rightarrow> 's \<Rightarrow> 'a option \<times> 's) \<Rightarrow> ('a \<Rightarrow> 's \<Rightarrow> 's) \<Rightarrow> ('a, 'f) stack option \<Rightarrow> 's \<Rightarrow>
     ('a, 'f) stack option \<times> 's" where
  "sk_deep_copy m copy_func free_func sk h =
     (case sk_dup m sk of
        None \<Rightarrow> (None, h)
      | Some ret \<Rightarrow> deep_copy_loop copy_func free_func 0 ret h)"

section \<open>The stack as a list\<close>

definition sk_elems :: "('a, 'f) stack \<Rightarrow> 'a option list" where
  "sk_elems s = take (sk_nr s) (sk_data s)"

definition sk_wf :: "('a, 'f) stack \<Rightarrow> bool" where
  "sk_wf s \<longleftrightarrow> length (sk_data s) = sk_num_alloc s \<and> sk_nr s < sk_num_alloc s \<and> sk_num_alloc s < 2 ^ 60"

lemma length_sk_elems [simp]: "sk_wf s \<Longrightarrow> length (sk_elems s) = sk_nr s"
  by (simp add: sk_elems_def sk_wf_def)

lemma sk_elems_nth: "i < sk_nr s \<Longrightarrow> sk_data s ! i = sk_elems s ! i"
  by (simp add: sk_elems_def)

lemma sk_new_wf: "sk_new m cf = Some s \<Longrightarrow> sk_wf s \<and> sk_elems s = [] \<and> sk_comp s = cf \<and> \<not> sk_sorted_flag s"
  by (auto simp: sk_new_def sk_wf_def sk_elems_def kMinSize_def split: option.splits)

lemma realloc_ptrs_SomeD:
  assumes "malloc_law m" and "n + 1 < 2 ^ 61" and "realloc_ptrs m dat n (size_mul n 8) = Some dat'"
  shows "length dat' = n" and "take (length dat) dat' = take n dat" and "n < 2 ^ 60"
proof -
  have e: "size_mul n 8 = n * 8" using assms(2) by (intro size_mul_exact) simp
  obtain b where b: "OPENSSL_malloc m (n * 8) = Some b"
    and d: "dat' = take n dat @ replicate (n - length dat) None"
    using assms(3) by (auto simp: realloc_ptrs_def e split: option.splits)
  show "length dat' = n" and "take (length dat) dat' = take n dat"
    by (auto simp: d min_def)
  have "n * 8 + 8 < 2 ^ 63" using assms(2) by (intro OPENSSL_malloc_bound [OF assms(1) _ b]) simp
  then show "n < 2 ^ 60" by simp
qed

text \<open>Within the bounds of a well-formed stack the doubling does not overflow, so growing fails
  only if \<open>malloc\<close> does.\<close>

lemma sk_grow_eq:
  assumes wf: "sk_wf s" and full: "sk_num_alloc s \<le> sk_nr s + 1"
  shows "sk_grow m s =
    (case realloc_ptrs m (sk_data s) (2 * sk_num_alloc s) (size_mul (2 * sk_num_alloc s) 8) of
       None \<Rightarrow> None
     | Some dat \<Rightarrow> Some (s\<lparr>sk_data := dat, sk_num_alloc := 2 * sk_num_alloc s\<rparr>))"
proof -
  have n: "sk_num_alloc s < 2 ^ 60" "sk_nr s < sk_num_alloc s" using wf by (simp_all add: sk_wf_def)
  then have a: "size_add (sk_nr s) 1 = sk_nr s + 1" by (intro size_add_exact) simp
  have d: "size_mul (sk_num_alloc s) 2 = 2 * sk_num_alloc s"
    using n(1) size_mul_exact [of "sk_num_alloc s" 2] by (simp add: mult.commute)
  have e: "size_mul (2 * sk_num_alloc s) 8 div 8 = 2 * sk_num_alloc s"
    using n(1) size_mul_exact [of "2 * sk_num_alloc s" 8] by simp
  show ?thesis using full by (simp add: sk_grow_def a [simplified] d e Let_def)
qed

lemma sk_grow_room: "sk_wf s \<Longrightarrow> sk_nr s + 1 < sk_num_alloc s \<Longrightarrow> sk_grow m s = Some s"
  by (simp add: sk_grow_def sk_wf_def size_add_exact)

lemma sk_grow_SomeD:
  assumes m: "malloc_law m" and wf: "sk_wf s" and g: "sk_grow m s = Some s'"
  shows "sk_wf s'" and "sk_nr s' + 1 < sk_num_alloc s'" and "sk_elems s' = sk_elems s" and "sk_nr s' = sk_nr s"
    and "sk_comp s' = sk_comp s"
proof -
  have n: "length (sk_data s) = sk_num_alloc s" "sk_nr s < sk_num_alloc s" "sk_num_alloc s < 2 ^ 60"
    using wf by (simp_all add: sk_wf_def)
  have "sk_wf s' \<and> sk_nr s' + 1 < sk_num_alloc s' \<and> sk_elems s' = sk_elems s \<and> sk_nr s' = sk_nr s \<and> sk_comp s' = sk_comp s"
  proof (cases "sk_num_alloc s \<le> sk_nr s + 1")
    case True
    obtain dat where d: "realloc_ptrs m (sk_data s) (2 * sk_num_alloc s) (size_mul (2 * sk_num_alloc s) 8) = Some dat"
      and s': "s' = s\<lparr>sk_data := dat, sk_num_alloc := 2 * sk_num_alloc s\<rparr>"
      using g by (auto simp: sk_grow_eq [OF wf True] split: option.splits)
    have "2 * sk_num_alloc s + 1 < 2 ^ 61" using n(3) by simp
    note r = realloc_ptrs_SomeD [OF m this d]
    have t: "take (sk_num_alloc s) dat = sk_data s" using r(2) n(1) by simp
    have "take (sk_nr s) dat = take (sk_nr s) (take (sk_num_alloc s) dat)" using n(2) by simp
    then have "take (sk_nr s) dat = take (sk_nr s) (sk_data s)" by (simp only: t)
    with r n True show ?thesis by (auto simp: s' sk_wf_def sk_elems_def)
  next
    case False
    then have "s' = s" using g sk_grow_room [OF wf, of m] by simp
    with wf False show ?thesis by simp
  qed
  then show "sk_wf s'" "sk_nr s' + 1 < sk_num_alloc s'" "sk_elems s' = sk_elems s" "sk_nr s' = sk_nr s"
    "sk_comp s' = sk_comp s" by simp_all
qed

lemma insert_data:
  assumes "pos < n" and "n < length dat"
  shows "take (n + 1) ((take (pos + 1) dat @ take (n - pos) (drop pos dat) @ drop (n + 1) dat)[pos := p]) =
    take pos (take n dat) @ p # drop pos (take n dat)"
proof -
  have "length (take (pos + 1) dat) = pos + 1" using assms by simp
  then have "take (pos + 1) dat = take pos dat @ [dat ! pos]"
    using assms by (simp add: take_Suc_conv_app_nth)
  moreover have "Suc n - pos = Suc (n - pos)" using assms by simp
  ultimately show ?thesis using assms by (simp add: list_update_append drop_take min_def)
qed

lemma delete_data:
  assumes "pos < n" and "n \<le> length dat"
  shows "take (n - 1) (take pos dat @ take (n - pos - 1) (drop (pos + 1) dat) @ rest) =
    take pos (take n dat) @ drop (pos + 1) (take n dat)"
proof -
  have exact: "take (length xs) (xs @ rest) = xs" for xs :: "'a list" by simp
  have "length (take pos dat @ take (n - pos - 1) (drop (pos + 1) dat)) = n - 1" using assms by simp
  with exact [of "take pos dat @ take (n - pos - 1) (drop (pos + 1) dat)"]
  have "take (n - 1) ((take pos dat @ take (n - pos - 1) (drop (pos + 1) dat)) @ rest) =
      take pos dat @ take (n - pos - 1) (drop (pos + 1) dat)" by (simp only:)
  with assms show ?thesis by (simp add: drop_take min_def)
qed

lemma sk_insert_SomeD:
  assumes m: "malloc_law m" and wf: "sk_wf s" and g: "sk_grow m s = Some s1"
  shows "\<exists>s'. sk_insert m (Some s) p pos = (Some s', sk_nr s + 1) \<and> sk_wf s' \<and> \<not> sk_sorted_flag s' \<and>
    sk_comp s' = sk_comp s \<and> sk_elems s' = take pos (sk_elems s) @ p # drop pos (sk_elems s)"
proof -
  note s1 = sk_grow_SomeD [OF m wf g]
  have n: "length (sk_data s1) = sk_num_alloc s1" "sk_nr s1 + 1 < sk_num_alloc s1" "sk_num_alloc s1 < 2 ^ 60"
    using s1(1,2) by (simp_all add: sk_wf_def)
  show ?thesis
  proof (cases "pos \<ge> sk_nr s1")
    case True
    have "take (Suc (sk_nr s1)) ((sk_data s1)[sk_nr s1 := p]) = sk_elems s @ [p]"
      using n s1(3) by (simp add: take_Suc_conv_app_nth sk_elems_def [of s1, symmetric])
    moreover have "length (sk_elems s) = sk_nr s" using wf by simp
    ultimately show ?thesis using True n s1(4,5) g
      by (auto simp: sk_insert_def sk_wf_def sk_elems_def [of "s1\<lparr>sk_data := _, sk_nr := _, sk_sorted_flag := _\<rparr>"])
  next
    case False
    let ?s' = "s1\<lparr>sk_data := (take (pos + 1) (sk_data s1) @ take (sk_nr s1 - pos) (drop pos (sk_data s1)) @
      drop (sk_nr s1 + 1) (sk_data s1))[pos := p], sk_nr := sk_nr s1 + 1, sk_sorted_flag := False\<rparr>"
    have "sk_elems ?s' = take pos (sk_elems s1) @ p # drop pos (sk_elems s1)"
      using insert_data [of pos "sk_nr s1" "sk_data s1" p] False n by (simp add: sk_elems_def)
    moreover have "sk_wf ?s'" using n False by (simp add: sk_wf_def)
    moreover have "sk_insert m (Some s) p pos = (Some ?s', sk_nr s + 1)"
      using g False s1(4) by (simp add: sk_insert_def)
    ultimately show ?thesis using s1(3,5) by simp
  qed
qed

lemma sk_delete_eq:
  assumes wf: "sk_wf s" and pos: "pos < sk_nr s"
  shows "\<exists>s'. sk_delete (Some s) pos = (Some s', sk_elems s ! pos) \<and> sk_wf s' \<and>
    sk_sorted_flag s' = sk_sorted_flag s \<and> sk_comp s' = sk_comp s \<and>
    sk_elems s' = take pos (sk_elems s) @ drop (pos + 1) (sk_elems s)"
proof -
  have n: "length (sk_data s) = sk_num_alloc s" "sk_nr s < sk_num_alloc s" "sk_num_alloc s < 2 ^ 60"
    using wf by (simp_all add: sk_wf_def)
  show ?thesis
  proof (cases "pos = sk_nr s - 1")
    case True
    then show ?thesis using n pos by (auto simp: sk_delete_def sk_wf_def sk_elems_def min_def)
  next
    case False
    let ?dat = "take pos (sk_data s) @ take (sk_nr s - pos - 1) (drop (pos + 1) (sk_data s)) @
        drop (sk_nr s - 1) (sk_data s)"
    let ?s' = "s\<lparr>sk_data := ?dat, sk_nr := sk_nr s - 1\<rparr>"
    have "sk_elems ?s' = take pos (sk_elems s) @ drop (pos + 1) (sk_elems s)"
      using delete_data [OF pos, of "sk_data s"] n by (simp add: sk_elems_def)
    moreover have "sk_wf ?s'" using n pos by (simp add: sk_wf_def)
    moreover have "sk_delete (Some s) pos = (Some ?s', sk_elems s ! pos)"
      using pos False by (simp add: sk_delete_def sk_elems_def)
    ultimately show ?thesis by simp
  qed
qed

section \<open>Searching\<close>

lemma first_index_Some_iff:
  "first_index P n = Some i \<longleftrightarrow> i < n \<and> P i \<and> (\<forall>j < i. \<not> P j)"
  unfolding first_index_def find_Some_iff by auto

lemma first_index_None_iff: "first_index P n = None \<longleftrightarrow> (\<forall>i < n. \<not> P i)"
  by (auto simp: first_index_def find_None_iff)

lemma first_index_cong: "(\<And>i. i < n \<Longrightarrow> P i = Q i) \<Longrightarrow> first_index P n = first_index Q n"
  unfolding first_index_def by (rule find_cong) auto

lemma remove1_first:
  "i < length xs \<Longrightarrow> xs ! i = p \<Longrightarrow> (\<forall>j < i. xs ! j \<noteq> p) \<Longrightarrow> remove1 p xs = take i xs @ drop (i + 1) xs"
proof (induction xs arbitrary: i)
  case (Cons x xs)
  show ?case
  proof (cases i)
    case (Suc k)
    with Cons.prems have "x \<noteq> p" and "\<forall>j < k. xs ! j \<noteq> p" by (auto dest: spec [of _ "Suc _"])
    with Suc Cons show ?thesis by simp
  qed (use Cons.prems in simp)
qed simp

lemma sk_delete_ptr_elems:
  assumes "sk_wf s"
  obtains s' q where "sk_delete_ptr (Some s) p = (Some s', q)" and "sk_wf s'" and "sk_elems s' = remove1 p (sk_elems s)"
proof (cases "first_index (\<lambda>i. sk_data s ! i = p) (sk_nr s)")
  case None
  then have "p \<notin> set (sk_elems s)"
    using length_sk_elems [OF assms] by (auto simp: first_index_None_iff in_set_conv_nth sk_elems_nth)
  with None assms show thesis by (intro that [of s]) (auto simp: sk_delete_ptr_def remove1_idem)
next
  case (Some i)
  then have i: "i < sk_nr s" "sk_elems s ! i = p" "\<forall>j < i. sk_elems s ! j \<noteq> p"
    by (auto simp: first_index_Some_iff sk_elems_nth)
  from sk_delete_eq [OF assms i(1)] obtain s' where
    "sk_delete (Some s) i = (Some s', sk_elems s ! i)" "sk_wf s'"
    "sk_elems s' = take i (sk_elems s) @ drop (i + 1) (sk_elems s)" by blast
  with Some i length_sk_elems [OF assms] show thesis
    by (intro that [of s']) (auto simp: sk_delete_ptr_def remove1_first)
qed

text \<open>The invariant of the binary search: the first match, if there is one, is in the range.\<close>

lemma sk_bsearch_first:
  "(\<And>i j. i \<le> j \<Longrightarrow> j < n \<Longrightarrow> 0 < r j \<Longrightarrow> 0 < r i) \<Longrightarrow>
   (\<And>i j. i \<le> j \<Longrightarrow> j < n \<Longrightarrow> r i < 0 \<Longrightarrow> r j < 0) \<Longrightarrow> hi \<le> n \<Longrightarrow>
   (\<And>z. first_index (\<lambda>i. r i = 0) n = Some z \<Longrightarrow> lo \<le> z \<and> z < hi) \<Longrightarrow>
   sk_bsearch r lo hi = first_index (\<lambda>i. r i = 0) n"
proof (induction r lo hi rule: sk_bsearch.induct)
  case (1 r lo hi)
  let ?fst = "first_index (\<lambda>i. r i = 0) n"
  note smaller = "1.prems"(1) and bigger = "1.prems"(2) and hi = "1.prems"(3) and range = "1.prems"(4)
  show ?case
  proof (cases "lo < hi")
    case False
    with range have "?fst = None" by (cases ?fst) force+
    with False show ?thesis by (simp add: sk_bsearch.simps)
  next
    case True
    define mid where "mid = lo + (hi - lo - 1) div 2"
    have mid: "lo \<le> mid" "mid < hi" "hi - lo \<noteq> 1 \<Longrightarrow> mid + 1 < hi" using True by (auto simp: mid_def)
    have zero: "r z = 0 \<and> z < n \<and> (\<forall>j < z. r j \<noteq> 0)" if "?fst = Some z" for z
      using that by (simp add: first_index_Some_iff)
    have step: "sk_bsearch r lo hi =
      (if r mid > 0 then sk_bsearch r (mid + 1) hi else if r mid < 0 then sk_bsearch r lo mid
       else if hi - lo = 1 then Some mid else sk_bsearch r lo (mid + 1))"
      using True by (simp add: sk_bsearch.simps [of r lo] mid_def Let_def)
    consider "r mid > 0" | "r mid < 0" | "r mid = 0" "hi - lo = 1" | "r mid = 0" "hi - lo \<noteq> 1" by linarith
    then show ?thesis
    proof cases
      case 1
      have "mid + 1 \<le> z \<and> z < hi" if "?fst = Some z" for z
        using zero [OF that] smaller [of z mid] range [OF that] 1 mid hi by (cases "z \<le> mid") auto
      with 1 step "1.IH"(1) [OF True mid_def 1 smaller bigger hi] show ?thesis by simp
    next
      case 2
      have "lo \<le> z \<and> z < mid" if "?fst = Some z" for z
        using zero [OF that] bigger [of mid z] range [OF that] 2 by (cases "mid \<le> z") auto
      moreover have "mid \<le> n" using mid hi by simp
      ultimately show ?thesis
        using 2 step "1.IH"(2) [OF True mid_def _ 2 smaller bigger] by simp
    next
      case 3
      then have "?fst \<noteq> None" using mid hi by (auto simp: first_index_None_iff intro!: exI [of _ mid])
      then obtain z where z: "?fst = Some z" by blast
      with range [OF z] 3 mid have "z = mid" by linarith
      with z step 3 show ?thesis by simp
    next
      case 4
      have "lo \<le> z \<and> z < mid + 1" if "?fst = Some z" for z
        using zero [OF that] range [OF that] 4(1) by (cases "z \<le> mid") auto
      moreover have "mid + 1 \<le> n" using mid(2) hi by simp
      ultimately show ?thesis
        using 4 step "1.IH"(3) [OF True mid_def _ _ 4(2) smaller bigger] by simp
    qed
  qed
qed

text \<open>A stack whose flag is set is sorted by its comparison function.\<close>

definition sorted_ok :: "('f \<Rightarrow> 'a option \<Rightarrow> 'a option \<Rightarrow> int) \<Rightarrow> ('a, 'f) stack \<Rightarrow> bool" where
  "sorted_ok call_cmp s \<longleftrightarrow>
     (sk_sorted_flag s \<longrightarrow>
        (case sk_comp s of None \<Rightarrow> True | Some cf \<Rightarrow> sorted_wrt (\<lambda>a b. call_cmp cf a b \<le> 0) (sk_elems s)))"

lemma sk_find_first:
  assumes cmp: "three_way (call_cmp cf)" and wf: "sk_wf s" and so: "sorted_ok call_cmp s"
    and cf: "sk_comp s = Some cf"
  shows "sk_find call_cmp (Some s) (Some p) =
    first_index (\<lambda>i. call_cmp cf (Some p) (sk_elems s ! i) = 0) (sk_nr s)"
proof -
  have nth: "call_cmp cf (Some p) (sk_data s ! i) = call_cmp cf (Some p) (sk_elems s ! i)" if "i < sk_nr s" for i
    using that by (simp add: sk_elems_nth)
  show ?thesis
  proof (cases "sk_sorted_flag s")
    case False
    with nth cf show ?thesis by (auto simp: sk_find_def sk_is_sorted_def intro!: first_index_cong)
  next
    case True
    have xs: "sorted_wrt (\<lambda>a b. call_cmp cf a b \<le> 0) (sk_elems s)" "length (sk_elems s) = sk_nr s"
      using so True cf wf by (simp_all add: sorted_ok_def)
    let ?r = "\<lambda>i. call_cmp cf (Some p) (sk_data s ! i)"
    have "sk_bsearch ?r 0 (sk_nr s) = first_index (\<lambda>i. ?r i = 0) (sk_nr s)"
    proof (rule sk_bsearch_first)
      show "0 < ?r i" if "i \<le> j" "j < sk_nr s" "0 < ?r j" for i j
        using three_way.sorted_smaller [OF cmp xs(1), of i j] that xs(2) nth by simp
      show "?r j < 0" if "i \<le> j" "j < sk_nr s" "?r i < 0" for i j
        using three_way.sorted_bigger [OF cmp xs(1), of i j] that xs(2) nth by simp
    qed (auto simp: first_index_Some_iff)
    also have "\<dots> = first_index (\<lambda>i. call_cmp cf (Some p) (sk_elems s ! i) = 0) (sk_nr s)"
      using nth by (intro first_index_cong) simp
    finally show ?thesis using True cf by (simp add: sk_find_def sk_is_sorted_def)
  qed
qed

section \<open>The reachable stacks\<close>

text \<open>One operation on a stack; \<open>sets\<close> tells whether \<open>sk_set\<close> is among them.\<close>

inductive stack_step ::
  "mallocf \<Rightarrow> ('f \<Rightarrow> 'a option \<Rightarrow> 'a option \<Rightarrow> int) \<Rightarrow> bool \<Rightarrow> ('a, 'f) stack \<Rightarrow> ('a, 'f) stack \<Rightarrow> bool"
  for m call_cmp sets where
  step_insert: "sk_insert m (Some s) p pos = (Some s', n) \<Longrightarrow> stack_step m call_cmp sets s s'"
| step_delete: "sk_delete (Some s) pos = (Some s', p) \<Longrightarrow> stack_step m call_cmp sets s s'"
| step_zero: "sk_zero (Some s) = Some s' \<Longrightarrow> stack_step m call_cmp sets s s'"
| step_sort: "sk_sort call_cmp (Some s) = Some s' \<Longrightarrow> stack_step m call_cmp sets s s'"
| step_set_cmp: "sk_set_cmp_func s cf = (s', old) \<Longrightarrow> stack_step m call_cmp sets s s'"
| step_dup: "sk_dup m (Some s) = Some s' \<Longrightarrow> stack_step m call_cmp sets s s'"
| step_set: "sets \<Longrightarrow> sk_set (Some s) i p = (Some s', q) \<Longrightarrow> stack_step m call_cmp sets s s'"

inductive stack_reach ::
  "mallocf \<Rightarrow> ('f \<Rightarrow> 'a option \<Rightarrow> 'a option \<Rightarrow> int) \<Rightarrow> bool \<Rightarrow> ('a, 'f) stack \<Rightarrow> bool"
  for m call_cmp sets where
  reach_new: "sk_new m cf = Some s \<Longrightarrow> stack_reach m call_cmp sets s"
| reach_step: "stack_reach m call_cmp sets s \<Longrightarrow> stack_step m call_cmp sets s s' \<Longrightarrow> stack_reach m call_cmp sets s'"

lemma sk_insert_cases:
  assumes "malloc_law m" and "sk_wf s" and "sk_insert m (Some s) p pos = (Some s', n)"
  shows "(n = 0 \<and> s' = s \<and> sk_grow m s = None) \<or>
    (n = sk_nr s + 1 \<and> sk_wf s' \<and> \<not> sk_sorted_flag s' \<and> sk_comp s' = sk_comp s \<and>
       sk_elems s' = take pos (sk_elems s) @ p # drop pos (sk_elems s))"
proof (cases "sk_grow m s")
  case None
  with assms(3) show ?thesis by (simp add: sk_insert_def)
next
  case (Some s1)
  from sk_insert_SomeD [OF assms(1,2) this, of p pos] assms(3) show ?thesis by auto
qed

lemma sk_sort_wf:
  assumes "sk_wf s" and "sk_sort call_cmp (Some s) = Some s'"
  shows "sk_wf s' \<and> sk_comp s' = sk_comp s \<and> sk_nr s' = sk_nr s \<and>
    (sk_elems s' = sk_elems s \<and> s' = s \<or>
     (\<exists>cf. sk_comp s = Some cf \<and> sk_elems s' = qsort (call_cmp cf) (sk_elems s)))"
  using assms qsort_short [of "sk_elems s"]
  by (auto simp: sk_sort_def sk_wf_def sk_elems_def split: option.splits if_splits)

lemma sk_dup_SomeD:
  assumes m: "malloc_law m" and wf: "sk_wf s" and d: "sk_dup m (Some s) = Some s'"
  shows "sk_wf s' \<and> sk_elems s' = sk_elems s \<and> sk_comp s' = sk_comp s \<and> sk_sorted_flag s' = sk_sorted_flag s"
proof -
  obtain ret :: "('a, 'b) stack" and dat where dat: "realloc_ptrs m (sk_data ret) (sk_num_alloc s) (size_mul (sk_num_alloc s) 8) = Some dat"
    and s': "s' = \<lparr>sk_nr = sk_nr s, sk_data = take (sk_nr s) (sk_data s) @ drop (sk_nr s) dat,
      sk_sorted_flag = sk_sorted_flag s, sk_num_alloc = sk_num_alloc s, sk_comp = sk_comp s\<rparr>"
    using d by (auto simp: sk_dup_def size_mul_def mult.commute split: option.splits)
  have "sk_num_alloc s + 1 < 2 ^ 61" using wf by (simp add: sk_wf_def)
  from realloc_ptrs_SomeD(1) [OF m this dat] wf show ?thesis by (simp add: s' sk_wf_def sk_elems_def)
qed

lemma stack_step_wf:
  assumes "malloc_law m" and "sk_wf s" and "stack_step m call_cmp sets s s'"
  shows "sk_wf s'"
  using assms(3)
proof cases
  case (step_insert p pos n)
  with sk_insert_cases [OF assms(1,2) step_insert] assms(2) show ?thesis by auto
next
  case (step_delete pos p)
  then show ?thesis using sk_delete_eq [OF assms(2), of pos] assms(2)
    by (cases "pos < sk_nr s") (auto simp: sk_delete_def)
next
  case step_sort
  then show ?thesis using sk_sort_wf [OF assms(2)] by blast
next
  case step_dup
  then show ?thesis using sk_dup_SomeD [OF assms(1,2)] by blast
qed (use assms(2) in \<open>auto simp: sk_zero_def sk_set_cmp_func_def sk_set_def sk_wf_def split: if_splits\<close>)

lemma sorted_wrt_delete: "i < length xs \<Longrightarrow> sorted_wrt P xs \<Longrightarrow> sorted_wrt P (take i xs @ drop (i + 1) xs)"
  using id_take_nth_drop [of i xs] sorted_wrt_append [of P "take i xs" "xs ! i # drop (Suc i) xs"]
  by (auto simp: sorted_wrt_append)

lemma stack_step_sorted:
  assumes m: "malloc_law m" and wf: "sk_wf s" and so: "sorted_ok call_cmp s"
    and cmp: "\<And>cf. three_way (call_cmp cf)" and step: "stack_step m call_cmp False s s'"
  shows "sorted_ok call_cmp s'"
  using step
proof cases
  case (step_insert p pos n)
  with sk_insert_cases [OF m wf step_insert] so show ?thesis by (auto simp: sorted_ok_def)
next
  case (step_delete pos p)
  show ?thesis
  proof (cases "pos < sk_nr s")
    case True
    with sk_delete_eq [OF wf True] step_delete so sorted_wrt_delete [of pos "sk_elems s"] wf show ?thesis
      by (auto simp: sorted_ok_def split: option.splits)
  next
    case False
    with step_delete so show ?thesis by (simp add: sk_delete_def)
  qed
next
  case step_sort
  with sk_sort_wf [OF wf step_sort] so three_way.sorted_qsort [OF cmp] show ?thesis
    by (auto simp: sorted_ok_def)
next
  case step_dup
  from sk_dup_SomeD [OF m wf this]
  have e: "sk_elems s' = sk_elems s" "sk_comp s' = sk_comp s" "sk_sorted_flag s' = sk_sorted_flag s" by blast+
  from so show ?thesis unfolding sorted_ok_def e .
qed (use so in \<open>auto simp: sk_zero_def sk_set_cmp_func_def sorted_ok_def sk_elems_def split: if_splits option.splits\<close>)

inductive_cases stack_reachE: "stack_reach m call_cmp sets s"

lemma stack_reach_wf: "stack_reach m call_cmp sets s \<Longrightarrow> malloc_law m \<Longrightarrow> sk_wf s"
  by (induction rule: stack_reach.induct) (auto dest: sk_new_wf intro: stack_step_wf)

lemma stack_reach_sorted:
  "stack_reach m call_cmp sets s \<Longrightarrow> malloc_law m \<Longrightarrow> \<not> sets \<Longrightarrow> (\<And>cf. three_way (call_cmp cf)) \<Longrightarrow>
     sorted_ok call_cmp s"
proof (induction rule: stack_reach.induct)
  case (reach_new cf s)
  then show ?case by (auto simp: sorted_ok_def dest: sk_new_wf)
next
  case (reach_step s s')
  then have "stack_step m call_cmp False s s'" by simp
  with reach_step stack_reach_wf [of m call_cmp sets s] show ?case by (blast intro: stack_step_sorted)
qed

section \<open>Deep copies\<close>

text \<open>Copying and freeing as a client sees them: \<open>c\<close> gives the copy of an object, if there is
  memory for it, and the heap is the multiset of the live copies.\<close>

definition copying :: "('a \<Rightarrow> 'a option) \<Rightarrow> 'a \<Rightarrow> 'a multiset \<Rightarrow> 'a option \<times> 'a multiset" where
  "copying c p h = (case c p of None \<Rightarrow> (None, h) | Some q \<Rightarrow> (Some q, add_mset q h))"

definition releasing :: "'a \<Rightarrow> 'a multiset \<Rightarrow> 'a multiset" where
  "releasing q h = h - {#q#}"

definition live :: "'a option list \<Rightarrow> 'a multiset" where
  "live ps = mset (List.map_filter id ps)"

lemma live_simps [simp]:
  "live [] = {#}" "live (None # ps) = live ps" "live (Some p # ps) = add_mset p (live ps)"
  "live (ps @ qs) = live ps + live qs"
  by (simp_all add: live_def List.map_filter_def)

lemma free_all:
  "i \<le> length dat \<Longrightarrow>
     foldl (\<lambda>h j. case dat ! j of None \<Rightarrow> h | Some q \<Rightarrow> releasing q h) (h + live (take i dat)) [0..<i] = h"
proof (induction i arbitrary: h)
  case (Suc i)
  have t: "take (Suc i) dat = take i dat @ [dat ! i]" using Suc.prems by (simp add: take_Suc_conv_app_nth)
  show ?case
  proof (cases "dat ! i")
    case None
    with Suc t show ?thesis by simp
  next
    case (Some q)
    have "h + live (take (Suc i) dat) = (h + {#q#}) + live (take i dat)" using t Some by simp
    with Suc.IH [of "h + {#q#}"] Suc.prems Some show ?thesis by (simp add: releasing_def)
  qed
qed simp

lemma deep_copy_loop_spec:
  "i \<le> sk_nr s \<Longrightarrow> sk_nr s \<le> length (sk_data s) \<Longrightarrow>
   deep_copy_loop (copying c) releasing i s (h + live (take i (sk_data s))) = (r, h') \<Longrightarrow>
   (case r of
      None \<Rightarrow> h' = h
    | Some s' \<Rightarrow> h' = h + live (sk_elems s') \<and> sk_nr s' = sk_nr s \<and>
        sk_elems s' = take i (sk_elems s) @ map (\<lambda>p. Option.bind p c) (drop i (sk_elems s)))"
proof (induction "sk_nr s - i" arbitrary: i s)
  case 0
  then show ?case by (auto simp: deep_copy_loop.simps sk_elems_def)
next
  case (Suc n)
  then have i: "i < sk_nr s" "i < length (sk_data s)" by simp_all
  have dr: "drop i (sk_elems s) = sk_data s ! i # drop (Suc i) (sk_elems s)"
    using i Suc.prems(2) Cons_nth_drop_Suc [of i "sk_elems s"] by (simp add: sk_elems_def)
  have tk: "take (Suc i) (sk_data s) = take i (sk_data s) @ [sk_data s ! i]"
    using i by (simp add: take_Suc_conv_app_nth)
  have n: "n = sk_nr s - Suc i" using Suc.hyps(2) by simp
  show ?case
  proof (cases "sk_data s ! i")
    case None
    have "deep_copy_loop (copying c) releasing (Suc i) s (h + live (take (Suc i) (sk_data s))) = (r, h')"
      using Suc.prems(3) i None tk by (simp add: deep_copy_loop.simps [of _ _ i])
    from Suc.hyps(1) [OF n _ Suc.prems(2) this] i(1) show ?thesis
      using dr None i(1) Suc.prems(2) by (auto simp: take_Suc_conv_app_nth sk_elems_def split: option.splits)
  next
    case (Some p)
    show ?thesis
    proof (cases "c p")
      case None
      then have "r = None" and "h' = foldl (\<lambda>h j. case sk_data s ! j of None \<Rightarrow> h | Some q \<Rightarrow> releasing q h)
          (h + live (take i (sk_data s))) [0..<i]"
        using Suc.prems(3) i Some by (simp_all add: deep_copy_loop.simps [of _ _ i] copying_def)
      with free_all [of i "sk_data s" h] i show ?thesis by simp
    next
      case (Some q)
      let ?s = "s\<lparr>sk_data := (sk_data s)[i := Some q]\<rparr>"
      have t: "take (Suc i) ((sk_data s)[i := Some q]) = take i (sk_data s) @ [Some q]"
        using i by (simp add: take_Suc_conv_app_nth)
      have "deep_copy_loop (copying c) releasing (Suc i) ?s (h + live (take (Suc i) (sk_data ?s))) = (r, h')"
        using Suc.prems(3) i \<open>sk_data s ! i = Some p\<close> Some t
        by (simp add: deep_copy_loop.simps [of _ _ i] copying_def)
      from Suc.hyps(1) [of ?s "Suc i", OF _ _ _ this] n i Suc.prems(2)
      have "case r of None \<Rightarrow> h' = h
        | Some s' \<Rightarrow> h' = h + live (sk_elems s') \<and> sk_nr s' = sk_nr s \<and>
            sk_elems s' = take (Suc i) (sk_elems ?s) @ map (\<lambda>p. Option.bind p c) (drop (Suc i) (sk_elems ?s))"
        by (cases r) simp_all
      moreover have "take (Suc i) (sk_elems ?s) = take i (sk_elems s) @ [Some q]"
        and "drop (Suc i) (sk_elems ?s) = drop (Suc i) (sk_elems s)"
        using i t by (simp_all add: sk_elems_def min_def take_Suc_conv_app_nth drop_update_cancel drop_take)
      ultimately show ?thesis using dr \<open>sk_data s ! i = Some p\<close> Some by (simp split: option.splits)
    qed
  qed
qed

section \<open>Properties\<close>

text \<open>C29: In every state a client can reach by the operations of the stack, \<open>sk_set\<close> included, the
  array has the allocated size and one cell more than the elements in use, so that no operation
  reads or writes past its end.\<close>

theorem stack_reachable_wf:
  assumes "malloc_law m" and "stack_reach m call_cmp True s"
  shows "length (sk_data s) = sk_num_alloc s \<and> sk_nr s < sk_num_alloc s \<and> 8 * sk_num_alloc s < 2 ^ 63"
  using stack_reach_wf [OF assms(2,1)] by (simp add: sk_wf_def)

text \<open>The comparison of integers through pointers, \<open>NULL\<close> first.\<close>

fun int_cmp :: "unit \<Rightarrow> int option \<Rightarrow> int option \<Rightarrow> int" where
  "int_cmp _ None None = 0"
| "int_cmp _ None (Some b) = -1"
| "int_cmp _ (Some a) None = 1"
| "int_cmp _ (Some a) (Some b) = a - b"

lemma int_cmp_three_way: "three_way (int_cmp u)"
proof
  show "int_cmp u a b < 0 \<longleftrightarrow> 0 < int_cmp u b a" for a b by (cases a; cases b) auto
  show "int_cmp u a b \<le> 0 \<Longrightarrow> int_cmp u b c \<le> 0 \<Longrightarrow> int_cmp u a c \<le> 0" for a b c
    by (cases a; cases b; cases c) auto
qed

interpretation int_order: three_way "int_cmp ()"
  by (rule int_cmp_three_way)

text \<open>A stack with three integers, sorted.\<close>

definition push_all :: "(int, unit) stack option \<Rightarrow> int list \<Rightarrow> (int, unit) stack option" where
  "push_all s xs = foldl (\<lambda>s x. fst (sk_push small_malloc s (Some x))) s xs"

definition demo_stack :: "(int, unit) stack" where
  "demo_stack = \<lparr>sk_nr = 3, sk_data = [Some 1, Some 3, Some 5, None], sk_sorted_flag = True,
     sk_num_alloc = 4, sk_comp = Some ()\<rparr>"

lemma demo_new:
  "(sk_new small_malloc (Some ()) :: (int, unit) stack option) = Some \<lparr>sk_nr = 0, sk_data = [None, None, None, None],
     sk_sorted_flag = False, sk_num_alloc = 4, sk_comp = Some ()\<rparr>"
proof -
  have "replicate kMinSize None = [None, None, None, None :: int option]"
    by (simp add: kMinSize_def numeral_eq_Suc)
  then show ?thesis
    by (simp add: sk_new_def OPENSSL_malloc_def small_malloc_def size_add_def size_mul_def) (simp add: kMinSize_def)
qed

abbreviation ints :: "nat \<Rightarrow> int option list \<Rightarrow> bool \<Rightarrow> (int, unit) stack" where
  "ints n dat f \<equiv> \<lparr>sk_nr = n, sk_data = dat, sk_sorted_flag = f, sk_num_alloc = 4, sk_comp = Some ()\<rparr>"

lemma demo_insert:
  assumes "stack_reach small_malloc int_cmp False (ints n dat False)" and "n < 3"
  shows "stack_reach small_malloc int_cmp False (ints (n + 1) (dat[n := Some x]) False)"
proof (rule reach_step [OF assms(1)])
  have "size_add n 1 = n + 1" using assms(2) by (intro size_add_exact) simp
  then have "sk_grow small_malloc (ints n dat False) = Some (ints n dat False)"
    using assms(2) unfolding sk_grow_def by simp
  then have "sk_insert small_malloc (Some (ints n dat False)) (Some x) n =
      (Some (ints (n + 1) (dat[n := Some x]) False), n + 1)"
    by (simp add: sk_insert_def)
  then show "stack_step small_malloc int_cmp False (ints n dat False) (ints (n + 1) (dat[n := Some x]) False)"
    by (rule step_insert)
qed

lemma demo_reach: "stack_reach small_malloc int_cmp False demo_stack"
proof -
  have "stack_reach small_malloc int_cmp False (ints 0 [None, None, None, None] False)"
    by (rule reach_new [OF demo_new])
  from demo_insert [OF this, of 5] have "stack_reach small_malloc int_cmp False (ints 1 [Some 5, None, None, None] False)"
    by simp
  from demo_insert [OF this, of 1] have "stack_reach small_malloc int_cmp False (ints 2 [Some 5, Some 1, None, None] False)"
    by (simp add: numeral_2_eq_2)
  from demo_insert [OF this, of 3]
  have r: "stack_reach small_malloc int_cmp False (ints 3 [Some 5, Some 1, Some 3, None] False)"
    by (simp add: numeral_2_eq_2 numeral_3_eq_3)
  have "sk_sort int_cmp (Some (ints 3 [Some 5, Some 1, Some 3, None] False)) = Some demo_stack"
    by (simp add: sk_sort_def demo_stack_def qsort_def)
  then show ?thesis by (rule reach_step [OF r step_sort])
qed

lemma stack_reach_sets: "stack_reach m call_cmp False s \<Longrightarrow> stack_reach m call_cmp True s"
proof (induction rule: stack_reach.induct)
  case (reach_new cf s)
  then show ?case by (rule stack_reach.reach_new)
next
  case (reach_step s s')
  from reach_step.hyps(2) have "stack_step m call_cmp True s s'"
    by cases (auto intro: stack_step.intros)
  with reach_step.IH show ?case by (rule stack_reach.reach_step)
qed

theorem stack_reachable_wf_witness:
  "length (sk_data demo_stack) = sk_num_alloc demo_stack \<and> sk_nr demo_stack < sk_num_alloc demo_stack \<and>
   8 * sk_num_alloc demo_stack < 2 ^ 63"
  by (rule stack_reachable_wf [OF small_malloc_law stack_reach_sets [OF demo_reach]])



text \<open>C28: The insertion and the deletions refine those of a list: \<open>sk_insert\<close> either fails, returning 0
  and leaving the stack alone, or puts the pointer at its place (at the end when the index is
  too big); \<open>sk_delete\<close>, \<open>sk_shift\<close> and \<open>sk_pop\<close> take out the element they return.\<close>

theorem stack_refines_list:
  assumes "malloc_law m" and "sk_wf s"
  shows "(case sk_insert m (Some s) p pos of (Some s', n) \<Rightarrow>
       sk_wf s' \<and> ((n = 0 \<and> s' = s) \<or> (n = length (sk_elems s) + 1 \<and>
         sk_elems s' = take pos (sk_elems s) @ p # drop pos (sk_elems s))) | (None, _) \<Rightarrow> False) \<and>
    (case sk_delete (Some s) pos of (Some s', q) \<Rightarrow>
       (if pos < length (sk_elems s)
        then q = sk_elems s ! pos \<and> sk_elems s' = take pos (sk_elems s) @ drop (pos + 1) (sk_elems s)
        else q = None \<and> s' = s) | (None, _) \<Rightarrow> False) \<and>
    (case sk_pop (Some s) of (Some s', q) \<Rightarrow>
       (if sk_elems s = [] then q = None \<and> s' = s
        else q = last (sk_elems s) \<and> sk_elems s' = butlast (sk_elems s)) | (None, _) \<Rightarrow> False)"
proof (intro conjI)
  have len: "length (sk_elems s) = sk_nr s" using assms(2) by simp
  obtain s' n where i: "sk_insert m (Some s) p pos = (Some s', n)"
    by (cases "sk_grow m s") (auto simp: sk_insert_def Let_def)
  from sk_insert_cases [OF assms this] assms(2) len
  show "case sk_insert m (Some s) p pos of (Some s', n) \<Rightarrow>
       sk_wf s' \<and> ((n = 0 \<and> s' = s) \<or> (n = length (sk_elems s) + 1 \<and>
         sk_elems s' = take pos (sk_elems s) @ p # drop pos (sk_elems s))) | (None, _) \<Rightarrow> False"
    unfolding i by auto
  show "case sk_delete (Some s) pos of (Some s', q) \<Rightarrow>
       (if pos < length (sk_elems s)
        then q = sk_elems s ! pos \<and> sk_elems s' = take pos (sk_elems s) @ drop (pos + 1) (sk_elems s)
        else q = None \<and> s' = s) | (None, _) \<Rightarrow> False"
    using sk_delete_eq [OF assms(2), of pos] len by (cases "pos < sk_nr s") (auto simp: sk_delete_def)
  show "case sk_pop (Some s) of (Some s', q) \<Rightarrow>
       (if sk_elems s = [] then q = None \<and> s' = s
        else q = last (sk_elems s) \<and> sk_elems s' = butlast (sk_elems s)) | (None, _) \<Rightarrow> False"
  proof (cases "sk_nr s = 0")
    case True
    with len show ?thesis by (simp add: sk_pop_def)
  next
    case False
    then obtain s' where d: "sk_delete (Some s) (sk_nr s - 1) = (Some s', sk_elems s ! (sk_nr s - 1))"
      and e: "sk_elems s' = take (sk_nr s - 1) (sk_elems s) @ drop (sk_nr s - 1 + 1) (sk_elems s)"
      using sk_delete_eq [OF assms(2), of "sk_nr s - 1"] by auto
    have ne: "sk_elems s \<noteq> []" using False len by auto
    have "sk_elems s' = butlast (sk_elems s)" using e len False by (simp add: butlast_conv_take)
    with False d ne len show ?thesis by (simp add: sk_pop_def last_conv_nth)
  qed
qed

theorem stack_refines_list_witness:
  "(case sk_insert small_malloc (Some demo_stack) (Some 4) 2 of (Some s', n) \<Rightarrow>
     n = 0 \<or> sk_elems s' = [Some 1, Some 3, Some 4, Some 5] | (None, _) \<Rightarrow> False)"
  using stack_refines_list [OF small_malloc_law stack_reach_wf [OF demo_reach small_malloc_law], where p = "Some 4" and pos = 2]
  by (auto simp: sk_elems_def demo_stack_def numeral_eq_Suc split: prod.splits option.splits)

text \<open>\<open>sk_set\<close> does not clear the \<open>sorted\<close> flag: there is a reachable stack that is marked as
  sorted and holds the element sought, and where \<open>sk_find\<close>, which trusts the flag, misses it.\<close>

theorem sk_set_breaks_find:
  "\<exists>s. stack_reach small_malloc int_cmp True s \<and> sk_is_sorted (Some s) \<and>
    sk_value (Some s) 1 = Some 3 \<and> sk_find int_cmp (Some s) (Some 3) = None"
proof -
  let ?s = "demo_stack\<lparr>sk_data := [Some 9, Some 3, Some 5, None]\<rparr>"
  have "sk_set (Some demo_stack) 0 (Some 9) = (Some ?s, Some 9)"
    by (simp add: sk_set_def demo_stack_def)
  then have "stack_reach small_malloc int_cmp True ?s"
    by (intro reach_step [OF stack_reach_sets [OF demo_reach]] step_set) simp_all
  moreover have "sk_find int_cmp (Some ?s) (Some 3) = None"
    by (simp add: sk_find_def demo_stack_def sk_is_sorted_def sk_bsearch.simps Let_def numeral_eq_Suc)
  ultimately show ?thesis
    by (intro exI [of _ ?s]) (simp add: sk_is_sorted_def sk_value_def demo_stack_def)
qed

text \<open>C30: \<open>sk_deep_copy\<close> leaks nothing: when a copy fails, all the copies made before it have been
  freed and the heap is as before; otherwise the new stack holds the copies of the elements in
  order and \<open>NULL\<close> for \<open>NULL\<close>, and the heap has gained exactly those.\<close>

theorem sk_deep_copy_no_leak:
  assumes "malloc_law m" and "sk_wf s"
  shows "case sk_deep_copy m (copying c) releasing (Some s) h of
      (None, h') \<Rightarrow> h' = h
    | (Some s', h') \<Rightarrow> sk_elems s' = map (\<lambda>p. Option.bind p c) (sk_elems s) \<and> h' = h + live (sk_elems s')"
proof (cases "sk_dup m (Some s)")
  case None
  then show ?thesis by (simp add: sk_deep_copy_def)
next
  case (Some ret)
  note ret = sk_dup_SomeD [OF assms Some]
  obtain r h' where d: "deep_copy_loop (copying c) releasing 0 ret h = (r, h')"
    by (cases "deep_copy_loop (copying c) releasing 0 ret h")
  have "sk_nr ret \<le> length (sk_data ret)" using ret by (simp add: sk_wf_def)
  from deep_copy_loop_spec [OF _ this, of 0 c h r h'] d ret Some show ?thesis
    by (auto simp: sk_deep_copy_def split: option.splits)
qed

theorem sk_deep_copy_no_leak_witness:
  "case sk_deep_copy small_malloc (copying (\<lambda>x. if x < 5 then Some (x + 10) else None)) releasing
       (Some demo_stack) {#7#} of
      (None, h') \<Rightarrow> h' = {#7#}
    | (Some s', h') \<Rightarrow>
        sk_elems s' = map (\<lambda>p. Option.bind p (\<lambda>x. if x < 5 then Some (x + 10) else None)) (sk_elems demo_stack) \<and>
        h' = {#7#} + live (sk_elems s')"
  by (rule sk_deep_copy_no_leak [OF small_malloc_law stack_reach_wf [OF demo_reach small_malloc_law]])

end
