(* ===== verification/Lhash.thy ===== *)
theory Lhash
  imports Mem "HOL-Library.Multiset"
begin

text \<open>
  \<open>crypto/lhash/lhash.c\<close>: the chained hash table. A chain is the list of its items, and the
  pointer to a \<open>next\<close> field that \<open>get_next_ptr_and_hash\<close> returns is a bucket and a position in
  its chain: the position of the item found, or the end of the chain. The functions \<open>lh->hash\<close>
  and \<open>lh->comp\<close>, which the code calls through typed helpers, are parameters, and so is
  \<open>malloc\<close>. A callback of \<open>lh_doall_arg\<close> acts on a state of its own; one that changes the table
  it iterates over is not modelled.
\<close>

section \<open>State and operations\<close>

record 'a lhash_item =
  item_data :: 'a
  item_hash :: u32

record 'a lhash =
  lh_items :: nat
  lh_buckets :: "'a lhash_item list list"
  lh_num_buckets :: nat
  lh_callback_depth :: u32

definition kMinNumBuckets :: nat where
  "kMinNumBuckets = 16"

definition kMaxAverageChainLength :: nat where
  "kMaxAverageChainLength = 2"

definition kMinAverageChainLength :: nat where
  "kMinAverageChainLength = 1"

text \<open>\<open>sizeof(_LHASH)\<close> is 48 and \<open>sizeof(LHASH_ITEM)\<close> 24.\<close>

definition lh_new :: "mallocf \<Rightarrow> 'a lhash option" where
  "lh_new m =
     (case OPENSSL_malloc m 48 of
        None \<Rightarrow> None
      | Some _ \<Rightarrow>
          (case OPENSSL_malloc m (size_mul 8 kMinNumBuckets) of
             None \<Rightarrow> None
           | Some _ \<Rightarrow>
               Some \<lparr>lh_items = 0, lh_buckets = replicate kMinNumBuckets [],
                 lh_num_buckets = kMinNumBuckets, lh_callback_depth = 0\<rparr>))"

text \<open>The items \<open>lh_free\<close> gives back to \<open>OPENSSL_free\<close>, in order.\<close>

definition lh_free :: "'a lhash option \<Rightarrow> 'a lhash_item list" where
  "lh_free lh =
     (case lh of
        None \<Rightarrow> []
      | Some lh \<Rightarrow> concat (map (\<lambda>i. lh_buckets lh ! i) [0..<lh_num_buckets lh]))"

definition lh_num_items :: "'a lhash \<Rightarrow> nat" where
  "lh_num_items lh = lh_items lh"

text \<open>The loop along a chain.\<close>

fun chain_pos :: "('a \<Rightarrow> bool) \<Rightarrow> 'a lhash_item list \<Rightarrow> nat" where
  "chain_pos stop [] = 0"
| "chain_pos stop (cur # chain) = (if stop (item_data cur) then 0 else Suc (chain_pos stop chain))"

definition bucket_of :: "'a lhash \<Rightarrow> u32 \<Rightarrow> nat" where
  "bucket_of lh h = unat h mod lh_num_buckets lh"

definition get_next_ptr_and_hash ::
  "('a \<Rightarrow> u32) \<Rightarrow> ('a \<Rightarrow> 'a \<Rightarrow> int) \<Rightarrow> 'a lhash \<Rightarrow> 'a \<Rightarrow> u32 \<times> nat \<times> nat" where
  "get_next_ptr_and_hash hash cmp lh d =
     (let h = hash d; b = bucket_of lh h
      in (h, b, chain_pos (\<lambda>x. cmp x d = 0) (lh_buckets lh ! b)))"

definition get_next_ptr_by_key :: "'a lhash \<Rightarrow> u32 \<Rightarrow> ('a \<Rightarrow> int) \<Rightarrow> nat \<times> nat" where
  "get_next_ptr_by_key lh key_hash cmp_key =
     (let b = bucket_of lh key_hash in (b, chain_pos (\<lambda>x. cmp_key x = 0) (lh_buckets lh ! b)))"

text \<open>\<open>*next_ptr\<close>: the item at a position, \<open>NULL\<close> at the end of the chain.\<close>

definition item_at :: "'a lhash \<Rightarrow> nat \<Rightarrow> nat \<Rightarrow> 'a lhash_item option" where
  "item_at lh b p = (if p < length (lh_buckets lh ! b) then Some (lh_buckets lh ! b ! p) else None)"

definition lh_retrieve :: "('a \<Rightarrow> u32) \<Rightarrow> ('a \<Rightarrow> 'a \<Rightarrow> int) \<Rightarrow> 'a lhash \<Rightarrow> 'a \<Rightarrow> 'a option" where
  "lh_retrieve hash cmp lh d =
     (case get_next_ptr_and_hash hash cmp lh d of (_, b, p) \<Rightarrow> map_option item_data (item_at lh b p))"

definition lh_retrieve_key :: "'a lhash \<Rightarrow> u32 \<Rightarrow> ('a \<Rightarrow> int) \<Rightarrow> 'a option" where
  "lh_retrieve_key lh key_hash cmp_key =
     (case get_next_ptr_by_key lh key_hash cmp_key of (b, p) \<Rightarrow> map_option item_data (item_at lh b p))"

text \<open>The two nested loops of \<open>lh_rebucket\<close>: every item goes to the front of its new chain.\<close>

definition move_item :: "nat \<Rightarrow> 'a lhash_item list list \<Rightarrow> 'a lhash_item \<Rightarrow> 'a lhash_item list list" where
  "move_item new_num_buckets bs cur =
     (let b = unat (item_hash cur) mod new_num_buckets in bs[b := cur # bs ! b])"

definition lh_rebucket :: "mallocf \<Rightarrow> 'a lhash \<Rightarrow> nat \<Rightarrow> 'a lhash" where
  "lh_rebucket m lh new_num_buckets =
     (let alloc_size = size_mul 8 new_num_buckets in
      if alloc_size div 8 \<noteq> new_num_buckets then lh
      else
        (case OPENSSL_malloc m alloc_size of
           None \<Rightarrow> lh
         | Some _ \<Rightarrow>
             lh\<lparr>lh_num_buckets := new_num_buckets,
                lh_buckets := foldl (foldl (move_item new_num_buckets)) (replicate new_num_buckets [])
                  (map (\<lambda>i. lh_buckets lh ! i) [0..<lh_num_buckets lh])\<rparr>))"

definition lh_maybe_resize :: "mallocf \<Rightarrow> 'a lhash \<Rightarrow> 'a lhash" where
  "lh_maybe_resize m lh =
     (if lh_callback_depth lh > 0 then lh
      else
        (let avg_chain_length = lh_items lh div lh_num_buckets lh in
         if avg_chain_length > kMaxAverageChainLength then
           (let new_num_buckets = size_mul (lh_num_buckets lh) 2
            in if new_num_buckets > lh_num_buckets lh then lh_rebucket m lh new_num_buckets else lh)
         else if avg_chain_length < kMinAverageChainLength \<and> lh_num_buckets lh > kMinNumBuckets then
           (let half = lh_num_buckets lh div 2;
                new_num_buckets = (if half < kMinNumBuckets then kMinNumBuckets else half)
            in lh_rebucket m lh new_num_buckets)
         else lh))"

text \<open>The result: the table, \<open>*old_data\<close> and the return value.\<close>

definition lh_insert ::
  "mallocf \<Rightarrow> ('a \<Rightarrow> u32) \<Rightarrow> ('a \<Rightarrow> 'a \<Rightarrow> int) \<Rightarrow> 'a lhash \<Rightarrow> 'a \<Rightarrow> 'a lhash \<times> 'a option \<times> bool" where
  "lh_insert m hash cmp lh d =
     (case get_next_ptr_and_hash hash cmp lh d of
        (h, b, p) \<Rightarrow>
          (case item_at lh b p of
             Some item \<Rightarrow>
               (lh\<lparr>lh_buckets := (lh_buckets lh)[b := (lh_buckets lh ! b)[p := item\<lparr>item_data := d\<rparr>]]\<rparr>,
                Some (item_data item), True)
           | None \<Rightarrow>
               (case OPENSSL_malloc m 24 of
                  None \<Rightarrow> (lh, None, False)
                | Some _ \<Rightarrow>
                    (lh_maybe_resize m
                       (lh\<lparr>lh_buckets := (lh_buckets lh)[b := lh_buckets lh ! b @ [\<lparr>item_data = d, item_hash = h\<rparr>]],
                           lh_items := lh_items lh + 1\<rparr>),
                     None, True))))"

definition lh_delete ::
  "mallocf \<Rightarrow> ('a \<Rightarrow> u32) \<Rightarrow> ('a \<Rightarrow> 'a \<Rightarrow> int) \<Rightarrow> 'a lhash \<Rightarrow> 'a \<Rightarrow> 'a lhash \<times> 'a option" where
  "lh_delete m hash cmp lh d =
     (case get_next_ptr_and_hash hash cmp lh d of
        (_, b, p) \<Rightarrow>
          (case item_at lh b p of
             None \<Rightarrow> (lh, None)
           | Some item \<Rightarrow>
               (lh_maybe_resize m
                  (lh\<lparr>lh_buckets := (lh_buckets lh)[b := take p (lh_buckets lh ! b) @ drop (p + 1) (lh_buckets lh ! b)],
                      lh_items := lh_items lh - 1\<rparr>),
                Some (item_data item))))"

text \<open>\<open>callback_depth\<close> saturates at \<open>UINT_MAX\<close>.\<close>

definition lh_doall_arg :: "mallocf \<Rightarrow> 'a lhash option \<Rightarrow> ('a \<Rightarrow> 's \<Rightarrow> 's) \<Rightarrow> 's \<Rightarrow> 'a lhash option \<times> 's" where
  "lh_doall_arg m lh func arg =
     (case lh of
        None \<Rightarrow> (None, arg)
      | Some lh \<Rightarrow>
          (let lh1 = (if lh_callback_depth lh < - 1 then lh\<lparr>lh_callback_depth := lh_callback_depth lh + 1\<rparr> else lh);
               arg' = foldl (\<lambda>a cur. func (item_data cur) a) arg
                 (concat (map (\<lambda>i. lh_buckets lh ! i) [0..<lh_num_buckets lh]));
               lh2 = (if lh_callback_depth lh1 < - 1 then lh1\<lparr>lh_callback_depth := lh_callback_depth lh1 - 1\<rparr> else lh1)
           in (Some (lh_maybe_resize m lh2), arg')))"

definition lh_strhash :: "byte list option \<Rightarrow> u32" where
  "lh_strhash c = (case c of None \<Rightarrow> 0 | Some s \<Rightarrow> OPENSSL_hash32 s)"

section \<open>The table as a finite map\<close>

text \<open>All items, bucket by bucket.\<close>

definition lh_all :: "'a lhash \<Rightarrow> 'a lhash_item list" where
  "lh_all lh = concat (lh_buckets lh)"

definition lh_map :: "('a \<Rightarrow> 'k) \<Rightarrow> 'a lhash \<Rightarrow> 'k \<Rightarrow> 'a option" where
  "lh_map key lh k = map_of (map (\<lambda>i. (key (item_data i), item_data i)) (lh_all lh)) k"

definition lh_wf :: "('a \<Rightarrow> 'k) \<Rightarrow> ('a \<Rightarrow> u32) \<Rightarrow> 'a lhash \<Rightarrow> bool" where
  "lh_wf key hash lh \<longleftrightarrow>
     length (lh_buckets lh) = lh_num_buckets lh \<and> kMinNumBuckets \<le> lh_num_buckets lh \<and>
     lh_items lh = length (lh_all lh) \<and>
     (\<forall>b < lh_num_buckets lh. \<forall>i \<in> set (lh_buckets lh ! b).
        item_hash i = hash (item_data i) \<and> bucket_of lh (item_hash i) = b) \<and>
     distinct (map (key \<circ> item_data) (lh_all lh))"

section \<open>The interface of a table\<close>

text \<open>What a client of a table relies on: a map from keys to data. \<open>insert\<close> may fail for want of
  memory, and then changes nothing.\<close>

locale key_table =
  fixes key :: "'a \<Rightarrow> 'k" and invar :: "'t \<Rightarrow> bool" and abs :: "'t \<Rightarrow> 'k \<Rightarrow> 'a option"
    and retrieve :: "'t \<Rightarrow> 'a \<Rightarrow> 'a option"
    and insert :: "'t \<Rightarrow> 'a \<Rightarrow> 't \<times> 'a option \<times> bool"
    and delete :: "'t \<Rightarrow> 'a \<Rightarrow> 't \<times> 'a option"
  assumes retrieve_abs: "invar t \<Longrightarrow> retrieve t d = abs t (key d)"
    and insert_ok: "invar t \<Longrightarrow> insert t d = (t', old, True) \<Longrightarrow>
      invar t' \<and> old = abs t (key d) \<and> abs t' = (abs t)(key d \<mapsto> d)"
    and insert_fail: "invar t \<Longrightarrow> insert t d = (t', old, False) \<Longrightarrow> t' = t \<and> old = None \<and> abs t (key d) = None"
    and delete_abs: "invar t \<Longrightarrow> delete t d = (t', old) \<Longrightarrow>
      invar t' \<and> old = abs t (key d) \<and> abs t' = (abs t)(key d := None)"
begin

lemma retrieve_after_insert:
  assumes "invar t" and "insert t d = (t', old, True)"
  shows "retrieve t' e = (if key e = key d then Some d else retrieve t e)"
  using insert_ok [OF assms] assms(1) by (auto simp: retrieve_abs)

lemma retrieve_after_delete:
  assumes "invar t" and "delete t d = (t', old)"
  shows "retrieve t' e = (if key e = key d then None else retrieve t e)"
  using delete_abs [OF assms] assms(1) by (auto simp: retrieve_abs)

lemma insert_returns_old: "invar t \<Longrightarrow> insert t d = (t', old, ok) \<Longrightarrow> old = retrieve t d"
  using insert_ok insert_fail by (cases ok) (auto simp: retrieve_abs)

end

section \<open>Buckets and items\<close>

lemma mset_concat_update:
  assumes "b < length xs"
  shows "mset (concat (xs[b := y])) + mset (xs ! b) = mset (concat xs) + mset y"
proof -
  have "xs = take b xs @ xs ! b # drop (Suc b) xs" by (rule id_take_nth_drop [OF assms])
  then have "mset (concat xs) = mset (concat (take b xs)) + mset (xs ! b) + mset (concat (drop (Suc b) xs))"
    by (metis concat.simps(2) concat_append mset_append add.assoc)
  moreover have "mset (concat (xs[b := y])) = mset (concat (take b xs)) + mset y + mset (concat (drop (Suc b) xs))"
    using assms by (simp add: upd_conv_take_nth_drop)
  ultimately show ?thesis by simp
qed

lemma foldl_foldl_concat: "foldl (foldl f) z xss = foldl f z (concat xss)"
  by (induction xss arbitrary: z) simp_all

lemma map_nth_all: "length xs = n \<Longrightarrow> map (\<lambda>i. xs ! i) [0..<n] = xs"
  by (auto simp: map_nth)

lemma move_items:
  "length bs = n \<Longrightarrow> 0 < n \<Longrightarrow>
   (\<forall>b < n. \<forall>i \<in> set (bs ! b). unat (item_hash i) mod n = b) \<Longrightarrow>
   length (foldl (move_item n) bs xs) = n \<and>
   mset (concat (foldl (move_item n) bs xs)) = mset (concat bs) + mset xs \<and>
   (\<forall>b < n. \<forall>i \<in> set (foldl (move_item n) bs xs ! b). unat (item_hash i) mod n = b)"
proof (induction xs arbitrary: bs)
  case (Cons x xs)
  let ?b = "unat (item_hash x) mod n" and ?bs = "move_item n bs x"
  have b: "?b < length bs" using Cons.prems by simp
  have "mset (concat ?bs) + mset (bs ! ?b) = mset (concat bs) + mset (x # bs ! ?b)"
    using mset_concat_update [OF b] by (simp add: move_item_def Let_def)
  then have m: "mset (concat ?bs) = add_mset x (mset (concat bs))" by simp
  have "length ?bs = n" and "\<forall>b < n. \<forall>i \<in> set (?bs ! b). unat (item_hash i) mod n = b"
    using Cons.prems b by (auto simp: move_item_def Let_def nth_list_update)
  from Cons.IH [OF this(1) Cons.prems(2) this(2)] m show ?case by simp
qed simp

lemma chain_pos_le: "chain_pos stop c \<le> length c"
  by (induction c) simp_all

lemma chain_pos_found: "chain_pos stop c < length c \<Longrightarrow> stop (item_data (c ! chain_pos stop c))"
  by (induction c) auto

lemma chain_pos_missing: "\<not> chain_pos stop c < length c \<Longrightarrow> i \<in> set c \<Longrightarrow> \<not> stop (item_data i)"
  by (induction c) (auto split: if_splits)

lemma lh_all_iff:
  "length (lh_buckets lh) = lh_num_buckets lh \<Longrightarrow>
     i \<in> set (lh_all lh) \<longleftrightarrow> (\<exists>b < lh_num_buckets lh. i \<in> set (lh_buckets lh ! b))"
  by (simp add: lh_all_def) (metis in_set_conv_nth)

section \<open>The laws of the table\<close>

text \<open>The contract between the hash and the comparison function: the comparison is equality of
  keys, and equal keys have the same hash.\<close>

locale hash_keys =
  fixes key :: "'a \<Rightarrow> 'k" and hash :: "'a \<Rightarrow> u32" and cmp :: "'a \<Rightarrow> 'a \<Rightarrow> int" and m :: mallocf
  assumes cmp_key: "cmp a b = 0 \<longleftrightarrow> key a = key b"
    and hash_key: "key a = key b \<Longrightarrow> hash a = hash b"
begin

abbreviation wf :: "'a lhash \<Rightarrow> bool" where
  "wf \<equiv> lh_wf key hash"

lemma wfD:
  assumes "wf lh"
  shows "length (lh_buckets lh) = lh_num_buckets lh" and "16 \<le> lh_num_buckets lh"
    and "lh_items lh = length (lh_all lh)" and "distinct (map (key \<circ> item_data) (lh_all lh))"
  using assms by (auto simp: lh_wf_def kMinNumBuckets_def)

lemma wf_item:
  "wf lh \<Longrightarrow> b < lh_num_buckets lh \<Longrightarrow> i \<in> set (lh_buckets lh ! b) \<Longrightarrow>
     item_hash i = hash (item_data i) \<and> bucket_of lh (item_hash i) = b"
  unfolding lh_wf_def by blast

lemma bucket_less: "wf lh \<Longrightarrow> bucket_of lh h < lh_num_buckets lh"
  using wfD(2) [of lh] by (simp add: bucket_of_def)

lemma map_Some_iff:
  assumes "wf lh"
  shows "lh_map key lh k = Some d \<longleftrightarrow> (\<exists>i \<in> set (lh_all lh). key (item_data i) = k \<and> item_data i = d)"
proof -
  have "distinct (map fst (map (\<lambda>i. (key (item_data i), item_data i)) (lh_all lh)))"
    using wfD(4) [OF assms] by (simp add: comp_def)
  from map_of_eq_Some_iff [OF this, of k d] show ?thesis unfolding lh_map_def by auto
qed

lemma map_eqI:
  assumes "wf lh" and "wf lh'" and "item_data ` set (lh_all lh') = item_data ` set (lh_all lh)"
  shows "lh_map key lh' = lh_map key lh"
proof
  fix k
  have "lh_map key lh' k = Some d \<longleftrightarrow> lh_map key lh k = Some d" for d
    unfolding map_Some_iff [OF assms(1)] map_Some_iff [OF assms(2)] using assms(3) by (metis (no_types, lifting) imageE imageI)
  then show "lh_map key lh' k = lh_map key lh k" by (metis not_Some_eq)
qed

text \<open>What the search finds.\<close>

lemma search:
  assumes wf: "wf lh"
  obtains (found) b p item where "get_next_ptr_and_hash hash cmp lh d = (hash d, b, p)" "item_at lh b p = Some item"
    "b < lh_num_buckets lh" "p < length (lh_buckets lh ! b)" "item = lh_buckets lh ! b ! p" "key (item_data item) = key d"
    "bucket_of lh (hash d) = b" "lh_map key lh (key d) = Some (item_data item)"
  | (missing) b p where "get_next_ptr_and_hash hash cmp lh d = (hash d, b, p)" "item_at lh b p = None"
    "b < lh_num_buckets lh" "bucket_of lh (hash d) = b" "\<And>i. i \<in> set (lh_all lh) \<Longrightarrow> key (item_data i) \<noteq> key d"
    "lh_map key lh (key d) = None"
proof -
  define b where "b = bucket_of lh (hash d)"
  define p where "p = chain_pos (\<lambda>x. cmp x d = 0) (lh_buckets lh ! b)"
  have g: "get_next_ptr_and_hash hash cmp lh d = (hash d, b, p)"
    by (simp add: get_next_ptr_and_hash_def b_def p_def Let_def)
  have b: "b < lh_num_buckets lh" unfolding b_def by (rule bucket_less [OF wf])
  show thesis
  proof (cases "p < length (lh_buckets lh ! b)")
    case True
    let ?i = "lh_buckets lh ! b ! p"
    have k: "key (item_data ?i) = key d"
      using chain_pos_found [of "\<lambda>x. cmp x d = 0" "lh_buckets lh ! b"] True by (simp add: p_def cmp_key)
    have "?i \<in> set (lh_all lh)" using True b lh_all_iff [OF wfD(1) [OF wf]] by auto
    then have "lh_map key lh (key d) = Some (item_data ?i)" using k map_Some_iff [OF wf] by auto
    with g b k True show thesis by (intro found) (simp_all add: item_at_def b_def)
  next
    case False
    have no: "key (item_data i) \<noteq> key d" if i: "i \<in> set (lh_all lh)" for i
    proof
      assume k: "key (item_data i) = key d"
      obtain b' where b': "b' < lh_num_buckets lh" "i \<in> set (lh_buckets lh ! b')"
        using i lh_all_iff [OF wfD(1) [OF wf]] by auto
      from wf_item [OF wf b'] hash_key [OF k] have "b' = b" by (auto simp: b_def)
      with chain_pos_missing [of "\<lambda>x. cmp x d = 0" "lh_buckets lh ! b" i] False b'(2) k show False
        by (simp add: p_def cmp_key)
    qed
    then have "lh_map key lh (key d) = None" using map_Some_iff [OF wf] by (metis not_Some_eq)
    with g b False no show thesis by (intro missing) (simp_all add: item_at_def b_def)
  qed
qed

lemma retrieve_map: "wf lh \<Longrightarrow> lh_retrieve hash cmp lh d = lh_map key lh (key d)"
  by (cases rule: search [of lh d]) (simp_all add: lh_retrieve_def)

text \<open>A table with the same items in other buckets.\<close>

lemma same_items:
  assumes wf: "wf lh" and len: "length (lh_buckets lh') = lh_num_buckets lh'" and n: "16 \<le> lh_num_buckets lh'"
    and items: "lh_items lh' = lh_items lh" and ms: "mset (lh_all lh') = mset (lh_all lh)"
    and b: "\<And>b i. b < lh_num_buckets lh' \<Longrightarrow> i \<in> set (lh_buckets lh' ! b) \<Longrightarrow> bucket_of lh' (item_hash i) = b"
  shows "wf lh' \<and> lh_map key lh' = lh_map key lh"
proof -
  have st: "set (lh_all lh') = set (lh_all lh)" using ms by (rule mset_eq_setD)
  have h: "item_hash i = hash (item_data i)" if "i \<in> set (lh_all lh')" for i
    using that wf_item [OF wf] lh_all_iff [OF wfD(1) [OF wf]] unfolding st by blast
  have "length (lh_all lh') = length (lh_all lh)" using ms by (rule mset_eq_length)
  moreover have "mset (map (key \<circ> item_data) (lh_all lh')) = mset (map (key \<circ> item_data) (lh_all lh))"
    using ms by simp
  then have "distinct (map (key \<circ> item_data) (lh_all lh'))"
    using wfD(4) [OF wf] mset_eq_imp_distinct_iff by blast
  ultimately have "wf lh'"
    using len n items wfD(3) [OF wf] b h lh_all_iff [OF len]
    unfolding lh_wf_def kMinNumBuckets_def by auto
  with map_eqI [OF wf this] st show ?thesis by simp
qed

lemma rebucket:
  assumes wf: "wf lh" and n: "16 \<le> n"
  shows "wf (lh_rebucket m lh n) \<and> lh_map key (lh_rebucket m lh n) = lh_map key lh"
proof (cases "size_mul 8 n div 8 \<noteq> n \<or> OPENSSL_malloc m (size_mul 8 n) = None")
  case True
  then have "lh_rebucket m lh n = lh" by (auto simp: lh_rebucket_def Let_def)
  with wf show ?thesis by simp
next
  case False
  let ?bs = "foldl (move_item n) (replicate n []) (lh_all lh)"
  have e: "lh_rebucket m lh n = lh\<lparr>lh_num_buckets := n, lh_buckets := ?bs\<rparr>"
    using False map_nth_all [OF wfD(1) [OF wf]]
    by (auto simp: lh_rebucket_def Let_def foldl_foldl_concat lh_all_def)
  have "length ?bs = n \<and> mset (concat ?bs) = mset (concat (replicate n [])) + mset (lh_all lh) \<and>
      (\<forall>b < n. \<forall>i \<in> set (?bs ! b). unat (item_hash i) mod n = b)"
    using n by (intro move_items) simp_all
  then show ?thesis unfolding e
    by (intro same_items [OF wf]) (use n in \<open>auto simp: lh_all_def bucket_of_def\<close>)
qed

lemma maybe_resize:
  assumes wf: "wf lh"
  shows "wf (lh_maybe_resize m lh) \<and> lh_map key (lh_maybe_resize m lh) = lh_map key lh"
  using wf rebucket [OF wf] wfD(2) [OF wf]
  by (auto simp: lh_maybe_resize_def Let_def kMinNumBuckets_def)

text \<open>A table whose chain \<open>b\<close> has been replaced by \<open>y\<close>.\<close>

lemma update_bucket:
  assumes wf: "wf lh" and b: "b < lh_num_buckets lh"
    and ls: "lh_buckets lh ! b = c1 @ c2"
    and lh': "lh' = lh\<lparr>lh_buckets := (lh_buckets lh)[b := c1 @ c3], lh_items := n\<rparr>"
    and n: "n + length c2 = lh_items lh + length c3"
    and new: "\<And>i. i \<in> set c3 \<Longrightarrow> item_hash i = hash (item_data i) \<and> bucket_of lh (item_hash i) = b"
    and dist: "\<And>xs ys. distinct (map (key \<circ> item_data) (xs @ c2 @ ys)) \<Longrightarrow> lh_all lh = xs @ c2 @ ys \<Longrightarrow>
      distinct (map (key \<circ> item_data) (xs @ c3 @ ys))"
  shows "wf lh' \<and> (\<exists>xs ys. lh_all lh = xs @ c2 @ ys \<and> lh_all lh' = xs @ c3 @ ys)"
proof -
  let ?xs = "concat (take b (lh_buckets lh)) @ c1" and ?ys = "concat (drop (Suc b) (lh_buckets lh))"
  have lb: "b < length (lh_buckets lh)" using b wfD(1) [OF wf] by simp
  have "lh_buckets lh = take b (lh_buckets lh) @ (c1 @ c2) # drop (Suc b) (lh_buckets lh)"
    using id_take_nth_drop [OF lb] ls by simp
  then have all: "lh_all lh = ?xs @ c2 @ ?ys"
    unfolding lh_all_def by (metis append.assoc concat.simps(2) concat_append)
  have all': "lh_all lh' = ?xs @ c3 @ ?ys"
    using lb by (simp add: lh_all_def lh' upd_conv_take_nth_drop)
  have "distinct (map (key \<circ> item_data) (lh_all lh'))"
    using dist [of ?xs ?ys] wfD(4) [OF wf] all all' by simp
  moreover have "lh_items lh' = length (lh_all lh')"
    using n wfD(3) [OF wf] all all' by (simp add: lh')
  moreover have "item_hash i = hash (item_data i) \<and> bucket_of lh' (item_hash i) = j"
    if "j < lh_num_buckets lh'" "i \<in> set (lh_buckets lh' ! j)" for i j
    using that wf_item [OF wf, of j i] new [of i] wf_item [OF wf b, of i] ls lb
    by (auto simp: lh' bucket_of_def nth_list_update split: if_splits)
  moreover have "length (lh_buckets lh') = lh_num_buckets lh'" and "16 \<le> lh_num_buckets lh'"
    using wfD(1,2) [OF wf] by (simp_all add: lh')
  ultimately have "wf lh'" unfolding lh_wf_def kMinNumBuckets_def by blast
  with all all' show ?thesis by blast
qed

lemma replace_item:
  assumes wf: "wf lh" and b: "b < lh_num_buckets lh" and p: "p < length (lh_buckets lh ! b)"
    and item: "item = lh_buckets lh ! b ! p" and k: "key (item_data item) = key d"
  defines "lh' \<equiv> lh\<lparr>lh_buckets := (lh_buckets lh)[b := (lh_buckets lh ! b)[p := item\<lparr>item_data := d\<rparr>]]\<rparr>"
  shows "wf lh' \<and> lh_map key lh' = (lh_map key lh)(key d \<mapsto> d)"
proof -
  let ?new = "item\<lparr>item_data := d\<rparr>" and ?c = "lh_buckets lh ! b"
  have c: "?c = take p ?c @ item # drop (Suc p) ?c" unfolding item by (rule id_take_nth_drop [OF p])
  have "lh' = lh\<lparr>lh_buckets := (lh_buckets lh)[b := take p ?c @ ?new # drop (Suc p) ?c], lh_items := lh_items lh\<rparr>"
    using p by (simp add: lh'_def upd_conv_take_nth_drop)
  moreover have ih: "item_hash item = hash d" "bucket_of lh (item_hash item) = b"
    using wf_item [OF wf b, of item] p item hash_key [OF k] by auto
  ultimately have r: "wf lh' \<and> (\<exists>xs ys. lh_all lh = xs @ (item # drop (Suc p) ?c) @ ys \<and>
      lh_all lh' = xs @ (?new # drop (Suc p) ?c) @ ys)"
    by (intro update_bucket [OF wf b c]) (use k wf_item [OF wf b] in \<open>auto dest: in_set_dropD\<close>)
  then obtain xs ys where all: "lh_all lh = xs @ item # ys" "lh_all lh' = xs @ ?new # ys" by auto
  have "key (item_data i) \<noteq> key d" if "i \<in> set xs \<union> set ys" for i
    using wfD(4) [OF wf] that k by (force simp: all)
  then have "lh_map key lh' j = Some e \<longleftrightarrow> ((lh_map key lh)(key d \<mapsto> d)) j = Some e" for j e
    using map_Some_iff [OF wf, of j e] map_Some_iff [of lh' j e] r k by (auto simp: all)
  then show ?thesis using r by (metis (no_types, lifting) ext not_Some_eq)
qed

lemma append_item:
  assumes wf: "wf lh" and b: "b < lh_num_buckets lh" and h: "bucket_of lh (hash d) = b"
    and new: "\<And>i. i \<in> set (lh_all lh) \<Longrightarrow> key (item_data i) \<noteq> key d"
  defines "lh' \<equiv> lh\<lparr>lh_buckets := (lh_buckets lh)[b := lh_buckets lh ! b @ [\<lparr>item_data = d, item_hash = hash d\<rparr>]],
      lh_items := lh_items lh + 1\<rparr>"
  shows "wf lh' \<and> lh_map key lh' = (lh_map key lh)(key d \<mapsto> d)"
proof -
  let ?new = "\<lparr>item_data = d, item_hash = hash d\<rparr>"
  have "wf lh' \<and> (\<exists>xs ys. lh_all lh = xs @ [] @ ys \<and> lh_all lh' = xs @ [?new] @ ys)"
  proof (rule update_bucket [OF wf b, where ?c1.0 = "lh_buckets lh ! b"])
    fix xs ys assume dist: "distinct (map (key \<circ> item_data) (xs @ [] @ ys))" and all: "lh_all lh = xs @ [] @ ys"
    have "key d \<notin> (key \<circ> item_data) ` set (xs @ ys)"
    proof
      assume "key d \<in> (key \<circ> item_data) ` set (xs @ ys)"
      then obtain i where "i \<in> set (xs @ ys)" "key d = (key \<circ> item_data) i" by (rule imageE)
      then have "i \<in> set (lh_all lh)" "key (item_data i) = key d" by (simp_all add: all)
      with new show False by blast
    qed
    with dist show "distinct (map (key \<circ> item_data) (xs @ [?new] @ ys))" by auto
  qed (use h in \<open>auto simp: lh'_def\<close>)
  then obtain xs ys where r: "wf lh'" and all: "lh_all lh = xs @ ys" "lh_all lh' = xs @ ?new # ys" by auto
  have "lh_map key lh' j = Some e \<longleftrightarrow> ((lh_map key lh)(key d \<mapsto> d)) j = Some e" for j e
    using map_Some_iff [OF wf, of j e] map_Some_iff [OF r, of j e] new by (auto simp: all)
  then show ?thesis using r by (metis (no_types, lifting) ext not_Some_eq)
qed

lemma remove_item:
  assumes wf: "wf lh" and b: "b < lh_num_buckets lh" and p: "p < length (lh_buckets lh ! b)"
    and item: "item = lh_buckets lh ! b ! p" and k: "key (item_data item) = key d"
  defines "lh' \<equiv> lh\<lparr>lh_buckets := (lh_buckets lh)[b := take p (lh_buckets lh ! b) @ drop (p + 1) (lh_buckets lh ! b)],
      lh_items := lh_items lh - 1\<rparr>"
  shows "wf lh' \<and> lh_map key lh' = (lh_map key lh)(key d := None)"
proof -
  let ?c = "lh_buckets lh ! b"
  have c: "?c = take p ?c @ item # drop (Suc p) ?c" unfolding item by (rule id_take_nth_drop [OF p])
  have "item \<in> set (lh_all lh)" using p b item lh_all_iff [OF wfD(1) [OF wf]] by auto
  then have pos: "0 < lh_items lh" using wfD(3) [OF wf] by (cases "lh_all lh") auto
  have "wf lh' \<and> (\<exists>xs ys. lh_all lh = xs @ (item # drop (Suc p) ?c) @ ys \<and> lh_all lh' = xs @ drop (Suc p) ?c @ ys)"
    by (rule update_bucket [OF wf b c]) (use pos wf_item [OF wf b] in \<open>auto simp: lh'_def dest: in_set_dropD\<close>)
  then obtain xs ys where r: "wf lh'" and all: "lh_all lh = xs @ item # ys" "lh_all lh' = xs @ ys" by auto
  have "key (item_data i) \<noteq> key d" if "i \<in> set xs \<union> set ys" for i
    using wfD(4) [OF wf] that k by (force simp: all)
  then have "lh_map key lh' j = Some e \<longleftrightarrow> ((lh_map key lh)(key d := None)) j = Some e" for j e
    using map_Some_iff [OF wf, of j e] map_Some_iff [OF r, of j e] k by (auto simp: all)
  then show ?thesis using r by (metis (no_types, lifting) ext not_Some_eq)
qed

end

text \<open>The hash table is a table.\<close>

sublocale hash_keys \<subseteq> key_table key "lh_wf key hash" "lh_map key" "lh_retrieve hash cmp" "lh_insert m hash cmp"
  "lh_delete m hash cmp"
proof
  fix lh d assume wf: "wf lh"
  show "lh_retrieve hash cmp lh d = lh_map key lh (key d)" by (rule retrieve_map [OF wf])
next
  fix lh d lh' old assume wf: "wf lh" and r: "lh_insert m hash cmp lh d = (lh', old, True)"
  show "wf lh' \<and> old = lh_map key lh (key d) \<and> lh_map key lh' = (lh_map key lh)(key d \<mapsto> d)"
  proof (cases rule: search [OF wf, of d, case_names found missing])
    case (found b p item)
    with r replace_item [OF wf found(3,4,5,6)] show ?thesis by (auto simp: lh_insert_def)
  next
    case (missing b p)
    with r append_item [OF wf missing(3,4,5)] maybe_resize show ?thesis
      by (auto simp: lh_insert_def split: option.splits)
  qed
next
  fix lh d lh' old assume wf: "wf lh" and r: "lh_insert m hash cmp lh d = (lh', old, False)"
  show "lh' = lh \<and> old = None \<and> lh_map key lh (key d) = None"
    using r by (cases rule: search [OF wf, of d]) (auto simp: lh_insert_def split: option.splits)
next
  fix lh d lh' old assume wf: "wf lh" and r: "lh_delete m hash cmp lh d = (lh', old)"
  show "wf lh' \<and> old = lh_map key lh (key d) \<and> lh_map key lh' = (lh_map key lh)(key d := None)"
  proof (cases rule: search [OF wf, of d, case_names found missing])
    case (found b p item)
    with r remove_item [OF wf found(3,4,5,6)] maybe_resize show ?thesis by (auto simp: lh_delete_def)
  next
    case (missing b p)
    with r wf show ?thesis by (auto simp: lh_delete_def)
  qed
qed

context hash_keys
begin

lemma insert_table:
  assumes wf: "wf lh" and i: "lh_insert m hash cmp lh d = (lh', old, ok)"
  shows "wf lh' \<and> old = lh_map key lh (key d) \<and>
    lh_map key lh' = (if ok then (lh_map key lh)(key d \<mapsto> d) else lh_map key lh) \<and> (\<not> ok \<longrightarrow> lh' = lh)"
proof (cases ok)
  case True
  with insert_ok [OF wf] i show ?thesis by simp
next
  case False
  with insert_fail [OF wf, of d lh' old] i wf show ?thesis by auto
qed

lemmas delete_table = delete_abs

end

lemma lh_new_wf: "lh_new m = Some lh \<Longrightarrow> lh_wf key hash lh \<and> lh_map key lh = Map.empty"
  by (auto simp: lh_new_def lh_wf_def lh_map_def lh_all_def kMinNumBuckets_def fun_eq_iff split: option.splits)

section \<open>Properties\<close>

text \<open>C26: whatever the hash, the comparison and the history of rehashing, the table behaves as a
  finite map from keys to data: a retrieval looks the key up, an insertion updates it and hands
  back what was there, or fails for want of memory and changes nothing, and a deletion removes it.
  Each operation keeps the invariant: counted items, distinct keys, every item in the bucket of its
  cached hash.\<close>

theorem lhash_refines_map:
  assumes "\<And>a b. cmp a b = 0 \<longleftrightarrow> key a = key b" and "\<And>a b. key a = key b \<Longrightarrow> hash a = hash b"
    and "lh_wf key hash lh"
  shows "lh_retrieve hash cmp lh d = lh_map key lh (key d) \<and>
    (case lh_insert m hash cmp lh d of (lh', old, ok) \<Rightarrow>
       lh_wf key hash lh' \<and> old = lh_map key lh (key d) \<and>
       lh_map key lh' = (if ok then (lh_map key lh)(key d \<mapsto> d) else lh_map key lh) \<and>
       (\<not> ok \<longrightarrow> lh' = lh)) \<and>
    (case lh_delete m hash cmp lh d of (lh', old) \<Rightarrow>
       lh_wf key hash lh' \<and> old = lh_map key lh (key d) \<and> lh_map key lh' = (lh_map key lh)(key d := None))"
proof -
  have hk: "hash_keys key hash cmp" by (unfold_locales) (fact assms)+
  obtain lh1 old1 ok where i: "lh_insert m hash cmp lh d = (lh1, old1, ok)" by (metis prod_cases3)
  obtain lh2 old2 where dl: "lh_delete m hash cmp lh d = (lh2, old2)" by (metis surj_pair)
  note hash_keys.retrieve_map [OF hk assms(3), of d] hash_keys.insert_table [OF hk assms(3) i]
    hash_keys.delete_table [OF hk assms(3) dl]
  then show ?thesis by (simp add: i dl)
qed

theorem lhash_refines_map_witness:
  "lh_retrieve (\<lambda>x. 7) (\<lambda>a b. int a - int b)
     (fst (lh_insert small_malloc (\<lambda>x. 7) (\<lambda>a b. int a - int b)
       \<lparr>lh_items = 0, lh_buckets = replicate 16 [], lh_num_buckets = 16, lh_callback_depth = 0\<rparr> 5)) 5 = Some 5"
proof -
  let ?lh = "\<lparr>lh_items = 0, lh_buckets = replicate 16 [], lh_num_buckets = 16, lh_callback_depth = 0\<rparr>"
  have wf: "lh_wf id (\<lambda>x. 7) ?lh" by (simp add: lh_wf_def lh_all_def kMinNumBuckets_def)
  have ok: "snd (snd (lh_insert small_malloc (\<lambda>x. 7) (\<lambda>a b. int a - int b) ?lh 5))"
    by (simp add: lh_insert_def get_next_ptr_and_hash_def bucket_of_def item_at_def Let_def OPENSSL_malloc_def
        small_malloc_def size_add_def)
  have p: "lh_retrieve (\<lambda>x. 7) (\<lambda>a b. int a - int b) lh 5 = lh_map id lh 5 \<and>
      (case lh_insert small_malloc (\<lambda>x. 7) (\<lambda>a b. int a - int b) lh 5 of (lh', old, ok) \<Rightarrow>
         lh_wf id (\<lambda>x. 7) lh' \<and> lh_map id lh' = (if ok then (lh_map id lh)(5 \<mapsto> 5) else lh_map id lh))"
    if "lh_wf id (\<lambda>x. 7) lh" for lh
  proof -
    have k: "int a - int b = 0 \<longleftrightarrow> id a = id b" for a b by simp
    from lhash_refines_map [where hash = "\<lambda>x. 7", OF k _ that, of 5 small_malloc]
    show ?thesis by (simp add: split_beta)
  qed
  have wf': "lh_wf id (\<lambda>x. 7) (fst (lh_insert small_malloc (\<lambda>x. 7) (\<lambda>a b. int a - int b) ?lh 5))"
    and map: "lh_map id (fst (lh_insert small_malloc (\<lambda>x. 7) (\<lambda>a b. int a - int b) ?lh 5)) =
      (lh_map id ?lh)(5 \<mapsto> 5)"
    using p [OF wf] ok by (auto split: prod.splits)
  show ?thesis using p [OF wf'] map by simp
qed

end
