(* ===== verification/Conf.thy ===== *)
theory Conf
  imports Lhash Stack
begin

text \<open>
  \<open>crypto/conf/conf.c\<close>, the data: a configuration is a hash table of the values, keyed by section
  and name, in which a section is itself a value without a name whose \<open>value\<close> points to the stack
  of the section's values. A string is the list of its characters without the NUL, and a
  \<open>char *\<close> that may be \<open>NULL\<close> an option. The stacks are shared by the table and the loader, so
  they live in a store of their own, and a pointer to a stack is its position there. \<open>None\<close> as
  the result of an operation is a \<open>NULL\<close> that reaches \<open>strcmp\<close>.
\<close>

section \<open>Values, their hash and their order\<close>

datatype conf_data = NoValue | Chars "byte list" | StackAt nat

record conf_value =
  cv_section :: "byte list"
  cv_name :: "byte list option"
  cv_value :: conf_data

record conf =
  conf_table :: "conf_value lhash"
  conf_stacks :: "(conf_value, unit) stack list"

definition conf_value_hash :: "conf_value \<Rightarrow> u32" where
  "conf_value_hash v = push_bit 2 (lh_strhash (Some (cv_section v))) XOR lh_strhash (cv_name v)"

text \<open>libc's comparison, of which the code uses the sign.\<close>

fun strcmp :: "byte list \<Rightarrow> byte list \<Rightarrow> int" where
  "strcmp [] [] = 0"
| "strcmp [] (b # bs) = -1"
| "strcmp (a # as) [] = 1"
| "strcmp (a # as) (b # bs) = (if a = b then strcmp as bs else if a < b then -1 else 1)"

definition conf_value_cmp :: "conf_value \<Rightarrow> conf_value \<Rightarrow> int" where
  "conf_value_cmp a b =
     (let i = strcmp (cv_section a) (cv_section b) in
      if i \<noteq> 0 then i
      else
        (case (cv_name a, cv_name b) of
           (Some x, Some y) \<Rightarrow> strcmp x y
         | (None, None) \<Rightarrow> 0
         | (None, Some _) \<Rightarrow> -1
         | (Some _, None) \<Rightarrow> 1))"

definition conf_key :: "conf_value \<Rightarrow> byte list \<times> byte list option" where
  "conf_key v = (cv_section v, cv_name v)"

lemma strcmp_zero_iff [simp]: "strcmp a b = 0 \<longleftrightarrow> a = b"
  by (induction a b rule: strcmp.induct) auto

interpretation conf_tab: hash_keys conf_key conf_value_hash conf_value_cmp m for m
proof
  show "conf_value_cmp a b = 0 \<longleftrightarrow> conf_key a = conf_key b" for a b
    by (auto simp: conf_value_cmp_def conf_key_def Let_def split: option.splits)
  show "conf_key a = conf_key b \<Longrightarrow> conf_value_hash a = conf_value_hash b" for a b
    by (simp add: conf_value_hash_def conf_key_def)
qed

section \<open>Operations\<close>

text \<open>\<open>sizeof(CONF)\<close> is 8 and \<open>sizeof(CONF_VALUE)\<close> 24; \<open>method\<close> is \<open>NULL\<close> or not.\<close>

definition NCONF_new :: "mallocf \<Rightarrow> bool \<Rightarrow> conf option" where
  "NCONF_new m method_null =
     (if \<not> method_null then None
      else
        (case OPENSSL_malloc m 8 of
           None \<Rightarrow> None
         | Some _ \<Rightarrow>
             (case lh_new m of
                None \<Rightarrow> None
              | Some tab \<Rightarrow> Some \<lparr>conf_table = tab, conf_stacks = []\<rparr>)))"

definition CONF_VALUE_new :: "mallocf \<Rightarrow> conf_value option" where
  "CONF_VALUE_new m =
     (case OPENSSL_malloc m 24 of
        None \<Rightarrow> None
      | Some _ \<Rightarrow> Some \<lparr>cv_section = [], cv_name = None, cv_value = NoValue\<rparr>)"

definition OPENSSL_strdup :: "mallocf \<Rightarrow> byte list \<Rightarrow> byte list option" where
  "OPENSSL_strdup m s =
     (case OPENSSL_malloc m (size_add (length s) 1) of None \<Rightarrow> None | Some _ \<Rightarrow> Some s)"

text \<open>\<open>None\<close> as the second component is \<open>NULL\<close>; a section that is replaced is given back.\<close>

definition NCONF_new_section :: "mallocf \<Rightarrow> conf \<Rightarrow> byte list \<Rightarrow> conf \<times> conf_value option" where
  "NCONF_new_section m cf sec =
     (case (sk_new_null m, CONF_VALUE_new m) of
        (Some sk, Some v0) \<Rightarrow>
          (case OPENSSL_strdup m sec of
             None \<Rightarrow> (cf, None)
           | Some s \<Rightarrow>
               (let v = v0\<lparr>cv_section := s, cv_name := None, cv_value := StackAt (length (conf_stacks cf))\<rparr>
                in case lh_insert m conf_value_hash conf_value_cmp (conf_table cf) v of
                     (tab, old_value, ok) \<Rightarrow>
                       (if \<not> ok then (cf\<lparr>conf_table := tab\<rparr>, None)
                        else (\<lparr>conf_table = tab, conf_stacks = conf_stacks cf @ [sk]\<rparr>, Some v))))
      | _ \<Rightarrow> (cf, None))"

definition get_section :: "conf \<Rightarrow> byte list \<Rightarrow> conf_value option" where
  "get_section cf sec =
     lh_retrieve conf_value_hash conf_value_cmp (conf_table cf)
       \<lparr>cv_section = sec, cv_name = None, cv_value = NoValue\<rparr>"

text \<open>The retrieval with a template whose section is \<open>NULL\<close>: the hash of the section is 0, and the
  comparison with the first item of the chain reads through the null pointer.\<close>

definition retrieve_null_section :: "conf \<Rightarrow> byte list option \<Rightarrow> conf_value option option" where
  "retrieve_null_section cf nm =
     (let h = push_bit 2 (lh_strhash None) XOR lh_strhash nm
      in if lh_buckets (conf_table cf) ! bucket_of (conf_table cf) h = [] then Some None else None)"

definition NCONF_get_section :: "conf \<Rightarrow> byte list option \<Rightarrow> nat option option" where
  "NCONF_get_section cf sec =
     (case (case sec of None \<Rightarrow> retrieve_null_section cf None | Some s \<Rightarrow> Some (get_section cf s)) of
        None \<Rightarrow> None
      | Some None \<Rightarrow> Some None
      | Some (Some v) \<Rightarrow> (case cv_value v of StackAt k \<Rightarrow> Some (Some k) | NoValue \<Rightarrow> Some None | Chars _ \<Rightarrow> None))"

definition NCONF_get_string :: "conf \<Rightarrow> byte list option \<Rightarrow> byte list \<Rightarrow> byte list option option" where
  "NCONF_get_string cf sec nm =
     (case (case sec of
              None \<Rightarrow> retrieve_null_section cf (Some nm)
            | Some s \<Rightarrow>
                Some (lh_retrieve conf_value_hash conf_value_cmp (conf_table cf)
                        \<lparr>cv_section = s, cv_name = Some nm, cv_value = NoValue\<rparr>)) of
        None \<Rightarrow> None
      | Some None \<Rightarrow> Some None
      | Some (Some v) \<Rightarrow> (case cv_value v of Chars t \<Rightarrow> Some (Some t) | NoValue \<Rightarrow> Some None | StackAt _ \<Rightarrow> None))"

text \<open>\<open>add_string\<close> does not check the copy of the section's name; the model stops there. The two
  failures leave the value on the section's stack or nowhere.\<close>

definition add_string :: "mallocf \<Rightarrow> conf \<Rightarrow> conf_value \<Rightarrow> conf_value \<Rightarrow> (conf \<times> bool) option" where
  "add_string m cf sec value0 =
     (case cv_value sec of
        StackAt k \<Rightarrow>
          (case OPENSSL_strdup m (cv_section sec) of
             None \<Rightarrow> None
           | Some s \<Rightarrow>
               (let value = value0\<lparr>cv_section := s\<rparr>
                in case sk_push m (Some (conf_stacks cf ! k)) (Some value) of
                     (None, _) \<Rightarrow> None
                   | (Some sk, n) \<Rightarrow>
                       (if n = 0 then Some (cf\<lparr>conf_stacks := (conf_stacks cf)[k := sk]\<rparr>, False)
                        else
                          (case lh_insert m conf_value_hash conf_value_cmp (conf_table cf) value of
                             (tab, old_value, ok) \<Rightarrow>
                               (if \<not> ok then
                                  Some (\<lparr>conf_table = tab, conf_stacks = (conf_stacks cf)[k := sk]\<rparr>, False)
                                else
                                  (let sk' = (case old_value of
                                                None \<Rightarrow> Some sk
                                              | Some old \<Rightarrow> fst (sk_delete_ptr (Some sk) (Some old)))
                                   in case sk' of
                                        None \<Rightarrow> None
                                      | Some sk2 \<Rightarrow>
                                          Some (\<lparr>conf_table = tab, conf_stacks = (conf_stacks cf)[k := sk2]\<rparr>, True)))))))
      | _ \<Rightarrow> None)"

section \<open>The configuration as a map\<close>

text \<open>A well-formed configuration: the table's invariant, a live stack behind every section and
  a string that fits into memory behind every name.\<close>

definition value_ok :: "nat \<Rightarrow> conf_value \<Rightarrow> bool" where
  "value_ok n v \<longleftrightarrow>
     (case cv_name v of
        None \<Rightarrow> (\<exists>j < n. cv_value v = StackAt j)
      | Some _ \<Rightarrow> (\<exists>t. cv_value v = Chars t \<and> 0 \<notin> set t \<and> length t < 2 ^ 62))"

lemma value_ok_mono: "value_ok n v \<Longrightarrow> n \<le> n' \<Longrightarrow> value_ok n' v"
  unfolding value_ok_def by (auto split: option.splits)

definition conf_ok :: "conf \<Rightarrow> bool" where
  "conf_ok cf \<longleftrightarrow> lh_wf conf_key conf_value_hash (conf_table cf) \<and> (\<forall>s \<in> set (conf_stacks cf). sk_wf s) \<and>
     (\<forall>k v. lh_map conf_key (conf_table cf) k = Some v \<longrightarrow> value_ok (length (conf_stacks cf)) v)"

lemma conf_okD:
  assumes "conf_ok cf"
  shows "lh_wf conf_key conf_value_hash (conf_table cf)"
    and "k < length (conf_stacks cf) \<Longrightarrow> sk_wf (conf_stacks cf ! k)"
    and "lh_map conf_key (conf_table cf) (s, None) = Some v \<Longrightarrow>
      \<exists>j < length (conf_stacks cf). cv_value v = StackAt j"
    and "lh_map conf_key (conf_table cf) (s, Some n) = Some v \<Longrightarrow>
      \<exists>t. cv_value v = Chars t \<and> 0 \<notin> set t \<and> length t < 2 ^ 62"
proof -
  show wf: "lh_wf conf_key conf_value_hash (conf_table cf)" using assms by (simp add: conf_ok_def)
  show "k < length (conf_stacks cf) \<Longrightarrow> sk_wf (conf_stacks cf ! k)" using assms by (simp add: conf_ok_def)
  have key: "conf_key v = k" if "lh_map conf_key (conf_table cf) k = Some v" for k v
    using that by (auto simp: conf_tab.map_Some_iff [OF wf])
  show "lh_map conf_key (conf_table cf) (s, None) = Some v \<Longrightarrow>
      \<exists>j < length (conf_stacks cf). cv_value v = StackAt j"
    using assms key [of "(s, None)" v] by (fastforce simp: conf_ok_def conf_key_def value_ok_def split: option.splits)
  show "lh_map conf_key (conf_table cf) (s, Some n) = Some v \<Longrightarrow>
      \<exists>t. cv_value v = Chars t \<and> 0 \<notin> set t \<and> length t < 2 ^ 62"
    using assms key [of "(s, Some n)" v] by (fastforce simp: conf_ok_def conf_key_def value_ok_def split: option.splits)
qed

text \<open>What the configuration says of a name, and the values of a section in order.\<close>

definition conf_string :: "conf \<Rightarrow> byte list \<Rightarrow> byte list \<Rightarrow> byte list option" where
  "conf_string cf sec nm =
     (case lh_map conf_key (conf_table cf) (sec, Some nm) of
        Some v \<Rightarrow> (case cv_value v of Chars t \<Rightarrow> Some t | _ \<Rightarrow> None)
      | None \<Rightarrow> None)"

definition conf_section :: "conf \<Rightarrow> byte list \<Rightarrow> conf_value list option" where
  "conf_section cf sec =
     (case lh_map conf_key (conf_table cf) (sec, None) of
        Some v \<Rightarrow> (case cv_value v of StackAt k \<Rightarrow> Some (map the (sk_elems (conf_stacks cf ! k))) | _ \<Rightarrow> None)
      | None \<Rightarrow> None)"

lemma NCONF_get_string_eq:
  assumes "conf_ok cf"
  shows "NCONF_get_string cf (Some sec) nm = Some (conf_string cf sec nm)"
proof -
  have "lh_retrieve conf_value_hash conf_value_cmp (conf_table cf)
      \<lparr>cv_section = sec, cv_name = Some nm, cv_value = NoValue\<rparr> = lh_map conf_key (conf_table cf) (sec, Some nm)"
    using conf_tab.retrieve_map [OF conf_okD(1) [OF assms]] by (simp add: conf_key_def)
  then show ?thesis
    using conf_okD(4) [OF assms, of sec nm]
    by (auto simp: NCONF_get_string_def conf_string_def split: option.splits)
qed

lemma get_section_eq:
  assumes "conf_ok cf"
  shows "get_section cf sec = lh_map conf_key (conf_table cf) (sec, None)"
  using conf_tab.retrieve_map [OF conf_okD(1) [OF assms]] by (simp add: get_section_def conf_key_def)

lemma conf_map_key:
  "conf_ok cf \<Longrightarrow> lh_map conf_key (conf_table cf) k = Some v \<Longrightarrow> conf_key v = k"
  by (auto simp: conf_tab.map_Some_iff [OF conf_okD(1)])

lemma NCONF_new_ok:
  assumes "NCONF_new m True = Some cf"
  shows "conf_ok cf \<and> conf_string cf sec nm = None \<and> conf_section cf sec = None"
proof -
  have wf: "lh_wf conf_key conf_value_hash (conf_table cf)" and all: "lh_all (conf_table cf) = []"
    and st: "conf_stacks cf = []"
    using assms
    by (auto simp: NCONF_new_def lh_new_def lh_wf_def lh_all_def kMinNumBuckets_def split: option.splits if_splits)
  have "lh_map conf_key (conf_table cf) = (\<lambda>_. None)" by (simp add: lh_map_def all fun_eq_iff)
  with wf st show ?thesis by (simp add: conf_ok_def conf_string_def conf_section_def)
qed

lemma push_cases:
  assumes "malloc_law m" and "sk_wf s"
  obtains (full) "sk_push m (Some s) p = (Some s, 0)"
    | (pushed) s' where "sk_push m (Some s) p = (Some s', Suc (sk_nr s))" "sk_wf s'" "sk_elems s' = sk_elems s @ [p]"
proof -
  obtain s' n where e: "sk_push m (Some s) p = (Some s', n)"
    by (cases "sk_grow m s") (auto simp: sk_push_def sk_num_def sk_insert_def Let_def)
  then have "sk_insert m (Some s) p (sk_nr s) = (Some s', n)" by (simp add: sk_push_def sk_num_def)
  from sk_insert_cases [OF assms this] e assms(2) show thesis
    by (auto intro: full pushed)
qed

lemma lh_insert_cases:
  assumes wf: "lh_wf conf_key conf_value_hash lh"
  obtains (full) "lh_insert m conf_value_hash conf_value_cmp lh v = (lh, None, False)"
    | (inserted) lh' where
        "lh_insert m conf_value_hash conf_value_cmp lh v = (lh', lh_map conf_key lh (conf_key v), True)"
        "lh_wf conf_key conf_value_hash lh'" "lh_map conf_key lh' = (lh_map conf_key lh)(conf_key v \<mapsto> v)"
proof -
  obtain lh' old ok where e: "lh_insert m conf_value_hash conf_value_cmp lh v = (lh', old, ok)"
    by (cases "lh_insert m conf_value_hash conf_value_cmp lh v")
  show thesis
  proof (cases ok)
    case True
    with conf_tab.insert_ok [OF wf, of m v lh' old] e show thesis by (intro inserted) auto
  next
    case False
    with conf_tab.insert_fail [OF wf, of m v lh' old] e show thesis by (intro full) auto
  qed
qed

text \<open>A new section is empty and takes nothing away.\<close>

lemma NCONF_new_section_ok:
  assumes ok: "conf_ok cf" and n: "NCONF_new_section m cf sec = (cf', Some v)"
  shows "conf_ok cf'" and "conf_string cf' = conf_string cf" and "get_section cf' sec = Some v"
    and "conf_section cf' = (conf_section cf)(sec \<mapsto> [])"
proof -
  obtain sk tab old where sk: "sk_new_null m = Some sk"
    and v: "v = \<lparr>cv_section = sec, cv_name = None, cv_value = StackAt (length (conf_stacks cf))\<rparr>"
    and ins: "lh_insert m conf_value_hash conf_value_cmp (conf_table cf) v = (tab, old, True)"
    and cf': "cf' = \<lparr>conf_table = tab, conf_stacks = conf_stacks cf @ [sk]\<rparr>"
    using n
    by (auto simp: NCONF_new_section_def OPENSSL_strdup_def CONF_VALUE_new_def Let_def
        split: option.splits prod.splits if_splits)
  have k: "conf_key v = (sec, None)" by (simp add: v conf_key_def)
  have wf: "lh_wf conf_key conf_value_hash tab"
    and map: "lh_map conf_key tab = (lh_map conf_key (conf_table cf))((sec, None) \<mapsto> v)"
    using conf_tab.insert_ok [OF conf_okD(1) [OF ok] ins] k by auto
  have new: "sk_wf sk" "sk_elems sk = []" using sk_new_wf [of m None sk] sk by (auto simp: sk_new_null_def)
  have "value_ok (length (conf_stacks cf')) u"
    if "lh_map conf_key tab k = Some u" for k u
  proof (cases "k = (sec, None)")
    case True
    with that have "u = v" by (simp add: map)
    then show ?thesis by (simp add: v cf' value_ok_def)
  next
    case False
    with that have "lh_map conf_key (conf_table cf) k = Some u" by (simp add: map)
    with ok have "value_ok (length (conf_stacks cf)) u" unfolding conf_ok_def by blast
    then show ?thesis by (rule value_ok_mono) (simp add: cf')
  qed
  with wf new ok show ok': "conf_ok cf'" by (auto simp: conf_ok_def cf')
  show "conf_string cf' = conf_string cf" by (simp add: conf_string_def fun_eq_iff cf' map)
  show "get_section cf' sec = Some v" using get_section_eq [OF ok'] by (simp add: cf' map)
  show "conf_section cf' = (conf_section cf)(sec \<mapsto> [])"
  proof
    fix s
    show "conf_section cf' s = ((conf_section cf)(sec \<mapsto> [])) s"
      using conf_okD(3) [OF ok, of s]
      by (auto simp: conf_section_def cf' map v new nth_append split: option.splits conf_data.splits)
  qed
qed

text \<open>Adding a value to a section: the name now has it, every other name keeps its value, and the
  section's list loses the value replaced and gains the new one at its end.\<close>

lemma add_string_ok:
  assumes m: "malloc_law m" and ok: "conf_ok cf" and sec: "get_section cf s = Some sv"
    and v: "cv_name v = Some n" "cv_value v = Chars t" "0 \<notin> set t" "length t < 2 ^ 62"
    and add: "add_string m cf sv v = Some (cf', True)"
  shows "conf_ok cf'" and "conf_string cf' s' n' = (if s' = s \<and> n' = n then Some t else conf_string cf s' n')"
    and "get_section cf' s' = get_section cf s'"
proof -
  let ?v = "v\<lparr>cv_section := s\<rparr>" and ?old = "lh_map conf_key (conf_table cf) (s, Some n)"
  have mp: "lh_map conf_key (conf_table cf) (s, None) = Some sv" using sec get_section_eq [OF ok] by simp
  then have s: "cv_section sv = s" using conf_map_key [OF ok] by (auto simp: conf_key_def)
  obtain k where k: "k < length (conf_stacks cf)" "cv_value sv = StackAt k" using conf_okD(3) [OF ok mp] by auto
  have kv: "conf_key ?v = (s, Some n)" by (simp add: conf_key_def v)
  have wfk: "sk_wf (conf_stacks cf ! k)" by (rule conf_okD(2) [OF ok k(1)])
  obtain tab sk2 where cf': "cf' = \<lparr>conf_table = tab, conf_stacks = (conf_stacks cf)[k := sk2]\<rparr>"
    and wf: "lh_wf conf_key conf_value_hash tab" and sk2: "sk_wf sk2"
    and map: "lh_map conf_key tab = (lh_map conf_key (conf_table cf))((s, Some n) \<mapsto> ?v)"
  proof (cases rule: push_cases [OF m wfk, of "Some ?v", case_names full pushed])
    case full
    with add show thesis
      by (auto simp: add_string_def k s OPENSSL_strdup_def Let_def split: option.splits)
  next
    case (pushed sk1)
    show thesis
    proof (cases rule: lh_insert_cases [OF conf_okD(1) [OF ok], of m ?v, case_names full inserted])
      case full
      with add pushed show thesis
        by (auto simp: add_string_def k s OPENSSL_strdup_def Let_def split: option.splits)
    next
      case (inserted tab)
      show thesis
      proof (cases ?old)
        case None
        with add pushed inserted kv show thesis
          by (intro that [of tab sk1])
            (auto simp: add_string_def k s OPENSSL_strdup_def Let_def split: option.splits)
      next
        case (Some old)
        obtain sk2 q where "sk_delete_ptr (Some sk1) (Some old) = (Some sk2, q)" "sk_wf sk2"
          by (rule sk_delete_ptr_elems [OF pushed(2), of "Some old"]) blast
        with Some add pushed inserted kv show thesis
          by (intro that [of tab sk2])
            (auto simp: add_string_def k s OPENSSL_strdup_def Let_def split: option.splits)
      qed
    qed
  qed
  have "value_ok (length (conf_stacks cf')) u"
    if "lh_map conf_key tab key = Some u" for key u
  proof (cases "key = (s, Some n)")
    case True
    with that have "u = ?v" by (simp add: map)
    then show ?thesis using v(3,4) by (simp add: v(1,2) value_ok_def)
  next
    case False
    with that have "lh_map conf_key (conf_table cf) key = Some u" by (simp add: map)
    with ok have "value_ok (length (conf_stacks cf)) u" unfolding conf_ok_def by blast
    then show ?thesis by (rule value_ok_mono) (simp add: cf')
  qed
  moreover have "sk_wf x" if "x \<in> set ((conf_stacks cf)[k := sk2])" for x
    using that set_update_subset_insert [of "conf_stacks cf" k sk2] sk2 ok by (auto simp: conf_ok_def)
  ultimately show ok': "conf_ok cf'" using wf by (auto simp: conf_ok_def cf')
  show "conf_string cf' s' n' = (if s' = s \<and> n' = n then Some t else conf_string cf s' n')"
    by (simp add: conf_string_def cf' map v)
  show "get_section cf' s' = get_section cf s'"
    using get_section_eq [OF ok'] get_section_eq [OF ok] by (simp add: cf' map)
qed

section \<open>Properties\<close>



text \<open>The configuration with an empty section named default, as the operations build it.\<close>

definition default_name :: "byte list" where
  "default_name = [100, 101, 102, 97, 117, 108, 116]"

definition default_section :: conf_value where
  "default_section = \<lparr>cv_section = default_name, cv_name = None, cv_value = StackAt 0\<rparr>"

definition default_conf :: conf where
  "default_conf =
     \<lparr>conf_table = \<lparr>lh_items = 1,
        lh_buckets = (replicate 16 [])[8 := [\<lparr>item_data = default_section, item_hash = 1290628984\<rparr>]],
        lh_num_buckets = 16, lh_callback_depth = 0\<rparr>,
      conf_stacks = [\<lparr>sk_nr = 0, sk_data = [None, None, None, None], sk_sorted_flag = False, sk_num_alloc = 4, sk_comp = None\<rparr>]\<rparr>"

lemma hash_default: "conf_value_hash default_section = 1290628984"
  by (simp add: conf_value_hash_def default_section_def default_name_def lh_strhash_def OPENSSL_hash32_def)

lemma new_conf:
  "NCONF_new small_malloc True = Some \<lparr>conf_table = \<lparr>lh_items = 0, lh_buckets = replicate 16 [],
     lh_num_buckets = 16, lh_callback_depth = 0\<rparr>, conf_stacks = []\<rparr>"
  by (simp add: NCONF_new_def lh_new_def kMinNumBuckets_def OPENSSL_malloc_def small_malloc_def size_add_def size_mul_def)

lemma new_default_section:
  "NCONF_new_section small_malloc \<lparr>conf_table = \<lparr>lh_items = 0, lh_buckets = replicate 16 [],
     lh_num_buckets = 16, lh_callback_depth = 0\<rparr>, conf_stacks = []\<rparr> default_name = (default_conf, Some default_section)"
proof -
  have r: "replicate 4 None = [None, None, None, None]" by (simp add: numeral_eq_Suc)
  have sk: "(sk_new_null small_malloc :: (conf_value, unit) stack option) = Some \<lparr>sk_nr = 0,
      sk_data = [None, None, None, None], sk_sorted_flag = False, sk_num_alloc = 4, sk_comp = None\<rparr>"
    by (simp add: sk_new_null_def sk_new_def kMinSize_def OPENSSL_malloc_def small_malloc_def size_add_def
        size_mul_def r)
  have v: "CONF_VALUE_new small_malloc = Some \<lparr>cv_section = [], cv_name = None, cv_value = NoValue\<rparr>"
    by (simp add: CONF_VALUE_new_def OPENSSL_malloc_def small_malloc_def size_add_def)
  have d: "OPENSSL_strdup small_malloc default_name = Some default_name"
    by (simp add: OPENSSL_strdup_def OPENSSL_malloc_def small_malloc_def size_add_def default_name_def)
  have "\<lparr>cv_section = default_name, cv_name = None, cv_value = StackAt 0\<rparr> = default_section"
    by (simp add: default_section_def)
  then show ?thesis
    by (simp add: NCONF_new_section_def sk v d lh_insert_def get_next_ptr_and_hash_def hash_default bucket_of_def
        item_at_def lh_maybe_resize_def Let_def OPENSSL_malloc_def small_malloc_def size_add_def default_conf_def
        kMaxAverageChainLength_def kMinAverageChainLength_def kMinNumBuckets_def)
qed

lemma default_conf_ok:
  "conf_ok default_conf" and default_conf_section: "get_section default_conf default_name = Some default_section"
proof -
  note new = NCONF_new_section_ok [OF conjunct1 [OF NCONF_new_ok [OF new_conf]] new_default_section]
  show "conf_ok default_conf" and "get_section default_conf default_name = Some default_section"
    by (rule new(1), rule new(3))
qed

definition demo_value :: conf_value where
  "demo_value = \<lparr>cv_section = [], cv_name = Some [109], cv_value = Chars [49]\<rparr>"

lemma add_demo_value:
  "\<exists>cf'. add_string small_malloc default_conf default_section demo_value = Some (cf', True)"
proof -
  have h: "conf_value_hash (demo_value\<lparr>cv_section := default_name\<rparr>) = 2766225408"
    by (simp add: conf_value_hash_def demo_value_def default_name_def lh_strhash_def OPENSSL_hash32_def)
  have d: "OPENSSL_strdup small_malloc default_name = Some default_name"
    by (simp add: OPENSSL_strdup_def OPENSSL_malloc_def small_malloc_def size_add_def default_name_def)
  show ?thesis
    by (simp add: add_string_def d lh_insert_def get_next_ptr_and_hash_def h bucket_of_def default_section_def
        item_at_def lh_maybe_resize_def Let_def OPENSSL_malloc_def small_malloc_def size_add_def default_conf_def
        kMaxAverageChainLength_def kMinAverageChainLength_def kMinNumBuckets_def sk_push_def sk_num_def
        sk_insert_def sk_grow_def)
qed



end
