(* ===== verification/ConfScan.thy ===== *)
theory ConfScan
  imports Prelude
begin

text \<open>
  \<open>crypto/conf/conf_def.h\<close> and the scanners of \<open>crypto/conf/conf.c\<close>: the character classes and the
  functions that move a pointer along a line. A \<open>char *\<close> is the list of the bytes from the pointer
  to the end of the array; a scanner returns how far it moves the pointer, and \<open>None\<close> is a read
  past the end of the array.
\<close>

section \<open>Character classes\<close>

definition CONF_type_default :: "u16 list" where
  "CONF_type_default =
    [0x0008, 0, 0, 0, 0, 0, 0, 0, 0, 0x0010, 0x0010, 0, 0, 0x0010, 0, 0,
     0, 0, 0, 0, 0, 0, 0, 0, 0, 0, 0, 0, 0, 0, 0, 0,
     0x0010, 0x0200, 0x0040, 0x0080, 0, 0x0200, 0x0200, 0x0040, 0, 0, 0x0200, 0x0200, 0x0200, 0x0200, 0x0200, 0x0200,
     0x0001, 0x0001, 0x0001, 0x0001, 0x0001, 0x0001, 0x0001, 0x0001, 0x0001, 0x0001, 0, 0x0200, 0, 0, 0, 0x0200,
     0x0200, 0x0002, 0x0002, 0x0002, 0x0002, 0x0002, 0x0002, 0x0002, 0x0002, 0x0002, 0x0002, 0x0002, 0x0002, 0x0002, 0x0002, 0x0002,
     0x0002, 0x0002, 0x0002, 0x0002, 0x0002, 0x0002, 0x0002, 0x0002, 0x0002, 0x0002, 0x0002, 0, 0x0020, 0, 0x0200, 0x0100,
     0x0040, 0x0004, 0x0004, 0x0004, 0x0004, 0x0004, 0x0004, 0x0004, 0x0004, 0x0004, 0x0004, 0x0004, 0x0004, 0x0004, 0x0004, 0x0004,
     0x0004, 0x0004, 0x0004, 0x0004, 0x0004, 0x0004, 0x0004, 0x0004, 0x0004, 0x0004, 0x0004, 0, 0x0200, 0, 0x0200, 0,
     0x1000, 0x1000, 0x1000, 0x1000, 0x1000, 0x1000, 0x1000, 0x1000, 0x1000, 0x1000, 0x1000, 0x1000, 0x1000, 0x1000, 0x1000, 0x1000,
     0x1000, 0x1000, 0x1000, 0x1000, 0x1000, 0x1000, 0x1000, 0x1000, 0x1000, 0x1000, 0x1000, 0x1000, 0x1000, 0x1000, 0x1000, 0x1000,
     0x1000, 0x1000, 0x1000, 0x1000, 0x1000, 0x1000, 0x1000, 0x1000, 0x1000, 0x1000, 0x1000, 0x1000, 0x1000, 0x1000, 0x1000, 0x1000,
     0x1000, 0x1000, 0x1000, 0x1000, 0x1000, 0x1000, 0x1000, 0x1000, 0x1000, 0x1000, 0x1000, 0x1000, 0x1000, 0x1000, 0x1000, 0x1000,
     0x1000, 0x1000, 0x1000, 0x1000, 0x1000, 0x1000, 0x1000, 0x1000, 0x1000, 0x1000, 0x1000, 0x1000, 0x1000, 0x1000, 0x1000, 0x1000,
     0x1000, 0x1000, 0x1000, 0x1000, 0x1000, 0x1000, 0x1000, 0x1000, 0x1000, 0x1000, 0x1000, 0x1000, 0x1000, 0x1000, 0x1000, 0x1000,
     0x1000, 0x1000, 0x1000, 0x1000, 0x1000, 0x1000, 0x1000, 0x1000, 0x1000, 0x1000, 0x1000, 0x1000, 0x1000, 0x1000, 0x1000, 0x1000,
     0x1000, 0x1000, 0x1000, 0x1000, 0x1000, 0x1000, 0x1000, 0x1000, 0x1000, 0x1000, 0x1000, 0x1000, 0x1000, 0x1000, 0x1000, 0x1000]"

definition KEYTYPES :: "byte \<Rightarrow> u16" where
  "KEYTYPES a = CONF_type_default ! unat a"

definition IS_COMMENT :: "byte \<Rightarrow> bool" where
  "IS_COMMENT a \<longleftrightarrow> KEYTYPES a AND 128 \<noteq> 0"

definition IS_FCOMMENT :: "byte \<Rightarrow> bool" where
  "IS_FCOMMENT a \<longleftrightarrow> KEYTYPES a AND 2048 \<noteq> 0"

definition IS_EOF :: "byte \<Rightarrow> bool" where
  "IS_EOF a \<longleftrightarrow> KEYTYPES a AND 8 \<noteq> 0"

definition IS_ESC :: "byte \<Rightarrow> bool" where
  "IS_ESC a \<longleftrightarrow> KEYTYPES a AND 32 \<noteq> 0"

definition IS_WS :: "byte \<Rightarrow> bool" where
  "IS_WS a \<longleftrightarrow> KEYTYPES a AND 16 \<noteq> 0"

definition IS_ALPHA_NUMERIC :: "byte \<Rightarrow> bool" where
  "IS_ALPHA_NUMERIC a \<longleftrightarrow> KEYTYPES a AND (2 OR 4 OR 1 OR 256) \<noteq> 0"

definition IS_ALPHA_NUMERIC_PUNCT :: "byte \<Rightarrow> bool" where
  "IS_ALPHA_NUMERIC_PUNCT a \<longleftrightarrow> KEYTYPES a AND (2 OR 4 OR 1 OR 256 OR 512) \<noteq> 0"

definition IS_QUOTE :: "byte \<Rightarrow> bool" where
  "IS_QUOTE a \<longleftrightarrow> KEYTYPES a AND 64 \<noteq> 0"

definition IS_DQUOTE :: "byte \<Rightarrow> bool" where
  "IS_DQUOTE a \<longleftrightarrow> KEYTYPES a AND 1024 \<noteq> 0"

section \<open>Scanners\<close>

fun eat_ws :: "byte list \<Rightarrow> nat option" where
  "eat_ws [] = None"
| "eat_ws (c # s) = (if IS_WS c \<and> \<not> IS_EOF c then map_option Suc (eat_ws s) else Some 0)"

text \<open>\<open>scan_esc\<close> steps over the escape character and, unless the line ends there, the next one.\<close>

fun scan_esc :: "byte list \<Rightarrow> nat option" where
  "scan_esc (c # d # s) = Some (if IS_EOF d then 1 else 2)"
| "scan_esc _ = None"

fun eat_alpha_numeric :: "byte list \<Rightarrow> nat option" where
  "eat_alpha_numeric [] = None"
| "eat_alpha_numeric [c] = (if IS_ESC c then None else if \<not> IS_ALPHA_NUMERIC_PUNCT c then Some 0 else None)"
| "eat_alpha_numeric (c # d # s) =
     (if IS_ESC c then
        (if IS_EOF d then map_option Suc (eat_alpha_numeric (d # s))
         else map_option (\<lambda>n. n + 2) (eat_alpha_numeric s))
      else if \<not> IS_ALPHA_NUMERIC_PUNCT c then Some 0
      else map_option Suc (eat_alpha_numeric (d # s)))"

text \<open>The loop of \<open>scan_quote\<close> and what follows it.\<close>

fun scan_quote_loop :: "byte \<Rightarrow> byte list \<Rightarrow> nat option" where
  "scan_quote_loop q [] = None"
| "scan_quote_loop q (c # s) =
     (if \<not> IS_EOF c \<and> c \<noteq> q then
        (if IS_ESC c then
           (case s of
              [] \<Rightarrow> None
            | d # s' \<Rightarrow> if IS_EOF d then Some 1 else map_option (\<lambda>n. n + 2) (scan_quote_loop q s'))
         else map_option Suc (scan_quote_loop q s))
      else Some (if c = q then 1 else 0))"

fun scan_quote :: "byte list \<Rightarrow> nat option" where
  "scan_quote [] = None"
| "scan_quote (q # s) = map_option Suc (scan_quote_loop q s)"

fun scan_dquote_loop :: "byte \<Rightarrow> byte list \<Rightarrow> nat option" where
  "scan_dquote_loop q [] = None"
| "scan_dquote_loop q [c] = (if \<not> IS_EOF c then None else Some (if c = q then 1 else 0))"
| "scan_dquote_loop q (c # d # s) =
     (if \<not> IS_EOF c then
        (if c = q then (if d = q then map_option (\<lambda>n. n + 2) (scan_dquote_loop q s) else Some 1)
         else map_option Suc (scan_dquote_loop q (d # s)))
      else Some (if c = q then 1 else 0))"

fun scan_dquote :: "byte list \<Rightarrow> nat option" where
  "scan_dquote [] = None"
| "scan_dquote (q # s) = map_option Suc (scan_dquote_loop q s)"

text \<open>The second loop of \<open>clear_comments\<close>: the result is the array with the comment cut off.\<close>

function clear_comments_loop :: "byte list \<Rightarrow> byte list option" where
  "clear_comments_loop p =
     (case p of
        [] \<Rightarrow> None
      | c # s \<Rightarrow>
          (let skip = (\<lambda>n. case n of
                 None \<Rightarrow> None
               | Some k \<Rightarrow> map_option (\<lambda>r. take (Suc (k - 1)) p @ r) (clear_comments_loop (drop (Suc (k - 1)) p)))
           in if IS_COMMENT c then Some (0 # s)
              else if IS_DQUOTE c then skip (scan_dquote p)
              else if IS_QUOTE c then skip (scan_quote p)
              else if IS_ESC c then skip (scan_esc p)
              else if IS_EOF c then Some p
              else map_option (Cons c) (clear_comments_loop s)))"
  by pat_completeness auto
termination by (relation "measure length") auto

declare clear_comments_loop.simps [simp del]

fun clear_comments :: "byte list \<Rightarrow> byte list option" where
  "clear_comments [] = None"
| "clear_comments (c # s) =
     (if IS_FCOMMENT c then Some (0 # s)
      else if \<not> IS_WS c then clear_comments_loop (c # s)
      else map_option (Cons c) (clear_comments s))"

section \<open>The classes by range\<close>

definition ctype :: "nat \<Rightarrow> u16" where
  "ctype n =
     (if n = 0 then 8
      else if n \<in> {9, 10, 13, 32} then 16
      else if n \<in> {34, 39, 96} then 64
      else if n = 35 then 128
      else if n = 92 then 32
      else if n = 95 then 256
      else if n \<in> {33, 37, 38, 42, 43, 44, 45, 46, 47, 59, 63, 64, 94, 124, 126} then 512
      else if 48 \<le> n \<and> n \<le> 57 then 1
      else if 65 \<le> n \<and> n \<le> 90 then 2
      else if 97 \<le> n \<and> n \<le> 122 then 4
      else if 128 \<le> n then 4096
      else 0)"

lemma CONF_type_default_eq: "CONF_type_default = map ctype [0..<256]"
proof -
  have "[0..<256] = 0 # 1 # [2..<256 :: nat]"
    by (simp add: upt_rec [of 0] upt_rec [of "Suc 0"] numeral_2_eq_2)
  then show ?thesis unfolding CONF_type_default_def by (simp add: ctype_def)
qed

lemma KEYTYPES_eq: "KEYTYPES c = ctype (unat c)"
proof -
  have "unat c < 2 ^ LENGTH(8)" by (rule unsigned_less)
  then show ?thesis by (simp add: KEYTYPES_def CONF_type_default_eq)
qed

lemma unat_numeral_iff: "unat c = n \<longleftrightarrow> c = of_nat n" if "n < 256" for c :: byte
  using that by (auto simp: unat_of_nat)

lemma IS_EOF_iff [simp]: "IS_EOF c \<longleftrightarrow> c = 0"
  by (simp add: IS_EOF_def KEYTYPES_eq ctype_def unat_numeral_iff)

lemma IS_ESC_iff [simp]: "IS_ESC c \<longleftrightarrow> c = 92"
  by (simp add: IS_ESC_def KEYTYPES_eq ctype_def unat_numeral_iff)

lemma IS_COMMENT_iff [simp]: "IS_COMMENT c \<longleftrightarrow> c = 35"
  by (simp add: IS_COMMENT_def KEYTYPES_eq ctype_def unat_numeral_iff)

lemma IS_WS_iff [simp]: "IS_WS c \<longleftrightarrow> c = 9 \<or> c = 10 \<or> c = 13 \<or> c = 32"
  by (simp add: IS_WS_def KEYTYPES_eq ctype_def unat_numeral_iff)

lemma IS_QUOTE_iff [simp]: "IS_QUOTE c \<longleftrightarrow> c = 34 \<or> c = 39 \<or> c = 96"
  by (simp add: IS_QUOTE_def KEYTYPES_eq ctype_def unat_numeral_iff)

lemma IS_FCOMMENT_iff [simp]: "\<not> IS_FCOMMENT c"
  by (simp add: IS_FCOMMENT_def KEYTYPES_eq ctype_def)

lemma IS_DQUOTE_iff [simp]: "\<not> IS_DQUOTE c"
  by (simp add: IS_DQUOTE_def KEYTYPES_eq ctype_def)

lemma IS_ALPHA_NUMERIC_iff:
  "IS_ALPHA_NUMERIC c \<longleftrightarrow> unat c = 95 \<or> (48 \<le> unat c \<and> unat c \<le> 57) \<or> (65 \<le> unat c \<and> unat c \<le> 90) \<or>
     (97 \<le> unat c \<and> unat c \<le> 122)"
  by (simp add: IS_ALPHA_NUMERIC_def KEYTYPES_eq ctype_def)

lemma alnum_punct: "IS_ALPHA_NUMERIC c \<Longrightarrow> IS_ALPHA_NUMERIC_PUNCT c"
  by (simp add: IS_ALPHA_NUMERIC_iff IS_ALPHA_NUMERIC_PUNCT_def KEYTYPES_eq ctype_def) auto

lemma punct_0 [simp]: "\<not> IS_ALPHA_NUMERIC_PUNCT 0"
  by (simp add: IS_ALPHA_NUMERIC_PUNCT_def KEYTYPES_eq ctype_def)

lemma alnum_0 [simp]: "\<not> IS_ALPHA_NUMERIC 0"
  by (simp add: IS_ALPHA_NUMERIC_iff)

section \<open>The scanners stay in the string\<close>

definition c_str :: "byte list \<Rightarrow> byte list" where
  "c_str s = takeWhile (\<lambda>c. c \<noteq> 0) s"

lemma c_str_simps [simp]:
  "c_str [] = []" "c_str (c # s) = (if c = 0 then [] else c # c_str s)"
  by (simp_all add: c_str_def)

lemma eat_ws_stays: "0 \<in> set s \<Longrightarrow> \<exists>n. eat_ws s = Some n \<and> n \<le> length (c_str s)"
  by (induction s) auto

lemma eat_alpha_numeric_stays: "0 \<in> set s \<Longrightarrow> \<exists>n. eat_alpha_numeric s = Some n \<and> n \<le> length (c_str s)"
  by (induction s rule: eat_alpha_numeric.induct) auto

lemma scan_quote_loop_stays:
  "0 \<in> set s \<Longrightarrow> q \<noteq> 0 \<Longrightarrow> \<exists>n. scan_quote_loop q s = Some n \<and> n \<le> length (c_str s)"
proof (induction q s rule: scan_quote_loop.induct)
  case (2 q c s)
  show ?case
  proof (cases "c \<noteq> 0 \<and> c \<noteq> q")
    case True
    then have s: "0 \<in> set s" using 2 by auto
    show ?thesis
    proof (cases "c = 92")
      case esc: True
      then obtain d s' where d: "s = d # s'" using s by (cases s) auto
      show ?thesis
      proof (cases "d = 0")
        case False
        with 2(1)[OF _ _ d] True esc s d 2(4) have "\<exists>n. scan_quote_loop q s' = Some n \<and> n \<le> length (c_str s')" by auto
        with True esc d False show ?thesis by auto
      qed (use True esc d in auto)
    next
      case False
      with 2(2) True s 2(4) have "\<exists>n. scan_quote_loop q s = Some n \<and> n \<le> length (c_str s)" by auto
      with True False show ?thesis by auto
    qed
  qed (use 2(4) in auto)
qed simp

lemma scan_dquote_loop_stays:
  "0 \<in> set s \<Longrightarrow> q \<noteq> 0 \<Longrightarrow> \<exists>n. scan_dquote_loop q s = Some n \<and> n \<le> length (c_str s)"
  by (induction q s rule: scan_dquote_loop.induct) auto

lemma c_str_skip:
  assumes "k \<le> length (c_str s)"
  shows "c_str s = take k s @ c_str (drop k s)" and "c_str (take k s @ r) = take k s @ c_str r"
    and "0 \<in> set s \<Longrightarrow> 0 \<in> set (drop k s)"
  using assms
proof (induction s arbitrary: k)
  case (Cons c s)
  { case 1 with Cons.IH(1) show ?case by (cases k) (auto split: if_splits) }
  { case 2 with Cons.IH(2) show ?case by (cases k) (auto split: if_splits) }
  { case 3 with Cons.IH(3) show ?case by (cases k) (auto split: if_splits) }
qed simp_all

text \<open>What \<open>clear_comments\<close> promises of its result: the same array up to a NUL put somewhere in the
  string.\<close>

definition str_cut :: "byte list \<Rightarrow> byte list \<Rightarrow> bool" where
  "str_cut s r \<longleftrightarrow> length r = length s \<and> 0 \<in> set r \<and> (\<exists>k \<le> length (c_str s). c_str r = take k s)"

lemma cut_same: "0 \<in> set s \<Longrightarrow> str_cut s s"
  using takeWhile_eq_take [of "\<lambda>c. c \<noteq> 0" s] by (auto simp: str_cut_def c_str_def)

lemma cut_here: "str_cut (c # s) (0 # s)"
  by (auto simp: str_cut_def)

lemma cut_skip:
  assumes "k \<le> length (c_str s)" and "str_cut (drop k s) r"
  shows "str_cut s (take k s @ r)"
proof -
  obtain j where j: "j \<le> length (c_str (drop k s))" "c_str r = take j (drop k s)"
    using assms(2) by (auto simp: str_cut_def)
  have "length (c_str s) \<le> length s" by (simp add: c_str_def length_takeWhile_le)
  then have "length (c_str s) = k + length (c_str (drop k s))"
    using c_str_skip(1) [OF assms(1)] assms(1) by (metis length_append length_take min.absorb2 order_trans)
  with j assms c_str_skip(2) [OF assms(1), of r] show ?thesis
    by (auto simp: str_cut_def take_add intro!: exI [of _ "k + j"])
qed

lemma clear_comments_loop_stays: "0 \<in> set p \<Longrightarrow> \<exists>r. clear_comments_loop p = Some r \<and> str_cut p r"
proof (induction p rule: measure_induct_rule [of length])
  case (less p)
  then obtain c s where p: "p = c # s" by (cases p) auto
  have skip: "\<exists>r. map_option (\<lambda>r. take (Suc (k - 1)) p @ r) (clear_comments_loop (drop (Suc (k - 1)) p)) = Some r \<and> str_cut p r"
    if k: "0 < k" "k \<le> length (c_str p)" for k
  proof -
    have "length (drop k p) < length p" using k p by simp
    from less.IH [OF this c_str_skip(3) [OF k(2) less.prems]] cut_skip [OF k(2)] k(1) show ?thesis by auto
  qed
  show ?case
  proof (cases "c = 0 \<or> c = 35")
    case True
    then show ?thesis
      using cut_here [of c s] cut_same [OF less.prems] by (auto simp: clear_comments_loop.simps [of "c # s"] p)
  next
    case nz: False
    then have s0: "0 \<in> set s" using less.prems by (simp add: p)
    consider (quote) "c = 34 \<or> c = 39 \<or> c = 96" | (esc) "c = 92" | (plain) "c \<noteq> 34" "c \<noteq> 39" "c \<noteq> 96" "c \<noteq> 92"
      by blast
    then show ?thesis
    proof cases
      case quote
      obtain n where "scan_quote_loop c s = Some n" "n \<le> length (c_str s)"
        using scan_quote_loop_stays [OF s0, of c] nz by blast
      with skip [of "Suc n"] quote nz show ?thesis by (auto simp: clear_comments_loop.simps [of "c # s"] p)
    next
      case esc
      obtain d s' where s: "s = d # s'" using s0 by (cases s) auto
      show ?thesis
        by (subst clear_comments_loop.simps)
          (use skip [of 1] skip [of 2] esc in \<open>auto simp: p s\<close>)
    next
      case plain
      with skip [of 1] nz show ?thesis by (auto simp: clear_comments_loop.simps [of "c # s"] p)
    qed
  qed
qed

lemma clear_comments_stays: "0 \<in> set p \<Longrightarrow> \<exists>r. clear_comments p = Some r \<and> str_cut p r"
proof (induction p)
  case (Cons c s)
  show ?case
  proof (cases "IS_WS c")
    case True
    then have "0 \<in> set s" using Cons.prems by auto
    from Cons.IH [OF this] obtain r where r: "clear_comments s = Some r" "str_cut s r" by blast
    have "1 \<le> length (c_str (c # s))" using True by auto
    from cut_skip [OF this, of r] r True show ?thesis by auto
  next
    case False
    with clear_comments_loop_stays [OF Cons.prems] show ?thesis by simp
  qed
qed simp

section \<open>Properties\<close>

text \<open>C39: on any array that holds a NUL, every scanner of the configuration parser stops within the
  string: it reads nothing behind the NUL and moves the pointer at most onto it, even when the line
  ends in an escape or inside a quotation; and \<open>clear_comments\<close> only puts a NUL into the string.\<close>

theorem conf_scanners_stay:
  assumes "0 \<in> set s" and "s ! 0 \<noteq> 0"
  shows "(\<exists>n \<le> length (c_str s). eat_ws s = Some n) \<and>
    (\<exists>n \<le> length (c_str s). eat_alpha_numeric s = Some n) \<and>
    (\<exists>n \<le> length (c_str s). scan_quote s = Some n) \<and>
    (\<exists>n \<le> length (c_str s). scan_dquote s = Some n) \<and>
    (\<exists>r. clear_comments s = Some r \<and> str_cut s r)"
proof -
  obtain q t where s: "s = q # t" using assms by (cases s) auto
  with assms have q: "q \<noteq> 0" "0 \<in> set t" by auto
  show ?thesis
    using eat_ws_stays [OF assms(1)] eat_alpha_numeric_stays [OF assms(1)] scan_quote_loop_stays [OF q(2,1)]
      scan_dquote_loop_stays [OF q(2,1)] clear_comments_stays [OF assms(1)] q
    by (auto simp: s)
qed

text \<open>An unfinished quotation that ends in an escape.\<close>

theorem conf_scanners_stay_witness:
  "scan_quote [34, 97, 92, 0, 120] = Some 3 \<and> (\<exists>n \<le> 3. scan_quote [34, 97, 92, 0, 120] = Some n)"
  using conf_scanners_stay [of "[34, 97, 92, 0, 120]"] by simp

end
