(* ===== verification/ConfLoad.thy ===== *)
theory ConfLoad
  imports Conf ConfScan BufMem
begin

text \<open>
  \<open>crypto/conf/conf.c\<close>, the parser: \<open>str_copy\<close>, which expands quotations, escapes and variables into
  a \<open>BUF_MEM\<close>, the loop of \<open>def_load_bio\<close> over the lines of a file, and \<open>CONF_parse_list\<close>. The
  successive results of \<open>BIO_gets\<close> are a list of chunks. A function returns \<open>None\<close> when the code
  reads or writes outside an array or follows a null pointer, and \<open>Some None\<close> when it returns 0.
  The \<open>int\<close> counters are natural numbers: lines are shorter than 2 GiB.
\<close>

section \<open>Copying with expansion\<close>

text \<open>A write of some bytes from \<open>buf->data[to]\<close> on.\<close>

definition buf_put :: "buf_mem \<Rightarrow> nat \<Rightarrow> byte list \<Rightarrow> buf_mem option" where
  "buf_put buf to xs =
     (if to + length xs \<le> length (bm_data buf)
      then Some (buf\<lparr>bm_data := take to (bm_data buf) @ xs @ drop (to + length xs) (bm_data buf)\<rparr>)
      else None)"

text \<open>The loops over a quotation: the bytes copied and the rest of the line.\<close>

fun copy_quoted :: "byte \<Rightarrow> byte list \<Rightarrow> (byte list \<times> byte list) option" where
  "copy_quoted q [] = None"
| "copy_quoted q (c # s) =
     (if \<not> IS_EOF c \<and> c \<noteq> q then
        (if IS_ESC c then
           (case s of
              [] \<Rightarrow> None
            | d # s' \<Rightarrow>
                (if IS_EOF d then Some ([], if d = q then s' else s)
                 else map_option (apfst (Cons d)) (copy_quoted q s')))
         else map_option (apfst (Cons c)) (copy_quoted q s))
      else Some ([], if c = q then s else c # s))"

fun copy_dquoted :: "byte \<Rightarrow> byte list \<Rightarrow> (byte list \<times> byte list) option" where
  "copy_dquoted q [] = None"
| "copy_dquoted q [c] = (if \<not> IS_EOF c then None else Some ([], if c = q then [] else [c]))"
| "copy_dquoted q (c # d # s) =
     (if \<not> IS_EOF c then
        (if c = q then
           (if d = q then map_option (apfst (Cons d)) (copy_dquoted q s) else Some ([], d # s))
         else map_option (apfst (Cons c)) (copy_dquoted q (d # s)))
      else Some ([], if c = q then d # s else c # d # s))"

fun span_alnum :: "byte list \<Rightarrow> (byte list \<times> byte list) option" where
  "span_alnum [] = None"
| "span_alnum (c # s) =
     (if IS_ALPHA_NUMERIC c then map_option (apfst (Cons c)) (span_alnum s) else Some ([], c # s))"

text \<open>The reference after a dollar sign: its section, its name and the rest of the line, behind the
  closing bracket if there is an opening one.\<close>

definition close_reference ::
  "byte \<Rightarrow> byte list option \<Rightarrow> byte list \<Rightarrow> byte list \<Rightarrow> (byte list option \<times> byte list \<times> byte list) option" where
  "close_reference q cp np e =
     (if q \<noteq> 0 then (if hd e \<noteq> q then None else Some (cp, np, tl e)) else Some (cp, np, e))"

definition scan_name ::
  "byte \<Rightarrow> byte list option \<Rightarrow> byte list \<Rightarrow> (byte list option \<times> byte list \<times> byte list) option option" where
  "scan_name q section s =
     (case span_alnum s of
        None \<Rightarrow> None
      | Some (np, e) \<Rightarrow>
          (if hd e = 58 then
             (case tl e of
                [] \<Rightarrow> None
              | d # e' \<Rightarrow>
                  (if d = 58 then
                     (case span_alnum e' of
                        None \<Rightarrow> None
                      | Some (np2, e2) \<Rightarrow> Some (close_reference q (Some np) np2 e2))
                   else Some (close_reference q section np e)))
           else Some (close_reference q section np e)))"

definition scan_variable ::
  "byte list option \<Rightarrow> byte list \<Rightarrow> (byte list option \<times> byte list \<times> byte list) option option" where
  "scan_variable section s =
     (case s of
        [] \<Rightarrow> None
      | c # s1 \<Rightarrow>
          (if c = 123 then scan_name 125 section s1
           else if c = 40 then scan_name 41 section s1
           else scan_name 0 section s))"

definition MAX_CONF_VALUE_LENGTH :: nat where
  "MAX_CONF_VALUE_LENGTH = 65536"

definition unescape :: "byte \<Rightarrow> byte" where
  "unescape v =
     (if v = 114 then 13 else if v = 110 then 10 else if v = 98 then 8 else if v = 116 then 9 else v)"

text \<open>One turn of the loop of \<open>str_copy\<close> at \<open>from\<close>: leave it, fail, or copy some bytes, of the line or
  of a variable, and go on behind what they stand for.\<close>

datatype copy_step =
    Leave
  | Reject
  | Emit "byte list" "byte list"
  | Expand "byte list" "byte list"

definition str_copy_step :: "conf \<Rightarrow> byte list option \<Rightarrow> byte list \<Rightarrow> copy_step option" where
  "str_copy_step cf section from =
     (case from of
        [] \<Rightarrow> None
      | c # s \<Rightarrow>
          (if IS_QUOTE c then map_option (\<lambda>(xs, r). Emit xs r) (copy_quoted c s)
           else if IS_DQUOTE c then map_option (\<lambda>(xs, r). Emit xs r) (copy_dquoted c s)
           else if IS_ESC c then
             (case s of [] \<Rightarrow> None | v # s' \<Rightarrow> Some (if IS_EOF v then Leave else Emit [unescape v] s'))
           else if IS_EOF c then Some Leave
           else if c = 36 then
             (case scan_variable section s of
                None \<Rightarrow> None
              | Some None \<Rightarrow> Some Reject
              | Some (Some (cp, np, e)) \<Rightarrow>
                  (case NCONF_get_string cf cp np of
                     None \<Rightarrow> None
                   | Some None \<Rightarrow> Some Reject
                   | Some (Some p) \<Rightarrow> Some (Expand p e)))
           else Some (Emit [c] s)))"

text \<open>What a turn consumes, \<open>pre\<close>, is not empty, lies within the string and is at least as long as
  what it copies from the line.\<close>

lemma copy_quoted_pre:
  "copy_quoted q s = Some (xs, r) \<Longrightarrow> q \<noteq> 0 \<Longrightarrow> \<exists>pre. s = pre @ r \<and> 0 \<notin> set pre \<and> length xs \<le> length pre"
proof (induction q s arbitrary: xs r rule: copy_quoted.induct)
  case (2 q c s)
  show ?case
  proof (cases "c \<noteq> 0 \<and> c \<noteq> q")
    case True
    show ?thesis
    proof (cases "c = 92")
      case esc: True
      then obtain d s' where s: "s = d # s'" using 2(3) True by (cases s) auto
      show ?thesis
      proof (cases "d = 0")
        case zero: True
        with 2(3,4) True esc s show ?thesis by (intro exI [of _ "[92]"]) auto
      next
        case False
        then obtain ys where ys: "copy_quoted q s' = Some (ys, r)" "xs = d # ys"
          using 2(3) True esc s by auto
        have "\<exists>pre. s' = pre @ r \<and> 0 \<notin> set pre \<and> length ys \<le> length pre"
          using 2(1) [OF _ _ s] True esc False ys(1) 2(4) by simp
        then obtain pre where "s' = pre @ r" "0 \<notin> set pre" "length ys \<le> length pre" by blast
        with esc s ys(2) False show ?thesis by (intro exI [of _ "92 # d # pre"]) auto
      qed
    next
      case False
      then obtain ys where ys: "copy_quoted q s = Some (ys, r)" "xs = c # ys" using 2(3) True by auto
      have "\<exists>pre. s = pre @ r \<and> 0 \<notin> set pre \<and> length ys \<le> length pre"
        using 2(2) True False ys(1) 2(4) by simp
      then obtain pre where "s = pre @ r" "0 \<notin> set pre" "length ys \<le> length pre" by blast
      with True ys(2) show ?thesis by (intro exI [of _ "c # pre"]) auto
    qed
  next
    case False
    with 2(3,4) show ?thesis by (cases "c = q") (auto intro: exI [of _ "[c]"])
  qed
qed simp

lemma span_alnum_eq: "span_alnum s = Some (np, e) \<Longrightarrow> s = np @ e \<and> e \<noteq> [] \<and> (\<forall>c \<in> set np. IS_ALPHA_NUMERIC c)"
  by (induction s arbitrary: np e) (auto split: if_splits)

lemma alnum_no_0: "\<forall>c \<in> set np. IS_ALPHA_NUMERIC c \<Longrightarrow> 0 \<notin> set np"
  using alnum_0 by blast

lemma close_reference_pre:
  "close_reference q cp np e = Some (cp', np', r) \<Longrightarrow> e \<noteq> [] \<Longrightarrow> \<exists>pre. e = pre @ r \<and> 0 \<notin> set pre"
  by (cases e) (auto simp: close_reference_def split: if_splits intro: exI [of _ "[hd e]"])

lemma scan_name_pre:
  assumes "scan_name q section s = Some (Some (cp, np, r))"
  shows "\<exists>pre. s = pre @ r \<and> 0 \<notin> set pre"
proof -
  obtain np1 e1 where sp: "span_alnum s = Some (np1, e1)"
    using assms by (cases "span_alnum s") (auto simp: scan_name_def)
  note s1 = span_alnum_eq [OF sp]
  have n1: "0 \<notin> set np1" using s1 alnum_no_0 by blast
  have close: ?thesis if "close_reference q section np1 e1 = Some (cp, np, r)"
    using close_reference_pre [OF that] s1 n1 by (metis Un_iff append.assoc set_append)
  show ?thesis
  proof (cases "hd e1 = 58 \<and> (\<exists>e'. tl e1 = 58 # e')")
    case True
    then obtain e' where e1: "e1 = 58 # 58 # e'" using s1 by (cases e1) auto
    obtain np2 e2 where sp2: "span_alnum e' = Some (np2, e2)"
      using assms sp e1 by (cases "span_alnum e'") (auto simp: scan_name_def)
    note s2 = span_alnum_eq [OF sp2]
    have "close_reference q (Some np1) np2 e2 = Some (cp, np, r)"
      using assms sp e1 sp2 by (simp add: scan_name_def)
    from close_reference_pre [OF this] s2 obtain p where "e2 = p @ r" "0 \<notin> set p" by blast
    moreover have "0 \<notin> set np2" using s2 alnum_no_0 by blast
    ultimately show ?thesis using s1 s2 n1 by (intro exI [of _ "np1 @ 58 # 58 # np2 @ p"]) (simp add: e1)
  next
    case False
    with assms sp have "close_reference q section np1 e1 = Some (cp, np, r)"
      by (auto simp: scan_name_def split: if_splits list.splits)
    then show ?thesis by (rule close)
  qed
qed

lemma scan_variable_pre:
  assumes "scan_variable section s = Some (Some (cp, np, r))"
  shows "\<exists>pre. s = pre @ r \<and> 0 \<notin> set pre"
proof (cases s)
  case (Cons c s1)
  with assms scan_name_pre show ?thesis
    by (fastforce simp: scan_variable_def split: if_splits intro: exI [of _ "c # _"])
qed (use assms in \<open>simp add: scan_variable_def\<close>)

lemma str_copy_step_pre:
  assumes "str_copy_step cf section from = Some st"
  shows "st = Emit xs r \<Longrightarrow> \<exists>pre. from = pre @ r \<and> pre \<noteq> [] \<and> 0 \<notin> set pre \<and> length xs \<le> length pre"
    and "st = Expand p r \<Longrightarrow> \<exists>pre. from = pre @ r \<and> pre \<noteq> [] \<and> 0 \<notin> set pre"
proof -
  obtain c s where f: "from = c # s" using assms by (cases "from") (auto simp: str_copy_step_def)
  { assume st: "st = Emit xs r"
    show "\<exists>pre. from = pre @ r \<and> pre \<noteq> [] \<and> 0 \<notin> set pre \<and> length xs \<le> length pre"
    proof (cases "IS_QUOTE c")
      case True
      with assms st f have "copy_quoted c s = Some (xs, r)" by (auto simp: str_copy_step_def split: if_splits)
      with copy_quoted_pre [OF this] True show ?thesis
        by (force simp: f intro: exI [of _ "c # _"])
    next
      case False
      then show ?thesis using assms st f
        by (cases "c = 92")
          (auto simp: str_copy_step_def split: if_splits list.splits option.splits
            intro: exI [of _ "[c]"] exI [of _ "[92, _]"])
    qed }
  { assume st: "st = Expand p r"
    with assms f have "c = 36" "\<exists>cp np. scan_variable section s = Some (Some (cp, np, r))"
      by (auto simp: str_copy_step_def split: if_splits list.splits option.splits)
    with scan_variable_pre show "\<exists>pre. from = pre @ r \<and> pre \<noteq> [] \<and> 0 \<notin> set pre"
      by (force simp: f intro: exI [of _ "c # _"]) }
qed

function str_copy_loop ::
  "mallocf \<Rightarrow> conf \<Rightarrow> byte list option \<Rightarrow> byte list \<Rightarrow> nat \<Rightarrow> buf_mem \<Rightarrow> (buf_mem \<times> nat) option option" where
  "str_copy_loop m cf section from to buf =
     (case str_copy_step cf section from of
        None \<Rightarrow> None
      | Some Leave \<Rightarrow> Some (Some (buf, to))
      | Some Reject \<Rightarrow> Some None
      | Some (Emit xs from') \<Rightarrow>
          (case buf_put buf to xs of
             None \<Rightarrow> None
           | Some buf' \<Rightarrow> str_copy_loop m cf section from' (to + length xs) buf')
      | Some (Expand p e) \<Rightarrow>
          (let newsize = (length p + bm_length buf + size_mod - (length from - length e)) mod size_mod
           in if newsize > MAX_CONF_VALUE_LENGTH then Some None
              else
                (case BUF_MEM_grow_clean m newsize buf of
                   (r, buf1) \<Rightarrow>
                     (if r = 0 then Some None
                      else
                        (case buf_put buf1 to p of
                           None \<Rightarrow> None
                         | Some buf2 \<Rightarrow> str_copy_loop m cf section e (to + length p) buf2)))))"
  by pat_completeness auto

text \<open>Every turn consumes something.\<close>

lemma str_copy_step_less:
  assumes "str_copy_step cf section from = Some (Emit xs r) \<or> str_copy_step cf section from = Some (Expand xs r)"
  shows "length r < length from"
  using assms str_copy_step_pre [of cf "section" "from"] by fastforce

termination str_copy_loop
  by (relation "measure (\<lambda>(m, cf, section, from, to, buf). length from)") (auto intro: str_copy_step_less)

declare str_copy_loop.simps [simp del]

text \<open>The result is the array that \<open>*pto\<close> points to afterwards.\<close>

definition str_copy :: "mallocf \<Rightarrow> conf \<Rightarrow> byte list option \<Rightarrow> byte list \<Rightarrow> byte list option option" where
  "str_copy m cf section from =
     (case BUF_MEM_new m of
        None \<Rightarrow> Some None
      | Some buf \<Rightarrow>
          (if 0 \<notin> set from then None
           else
             (case BUF_MEM_grow m (length (c_str from) + 1) buf of
                (r, buf1) \<Rightarrow>
                  (if r = 0 then Some None
                   else
                     (case str_copy_loop m cf section from 0 buf1 of
                        None \<Rightarrow> None
                      | Some None \<Rightarrow> Some None
                      | Some (Some (buf2, to)) \<Rightarrow>
                          (case buf_put buf2 to [0] of None \<Rightarrow> None | Some buf3 \<Rightarrow> Some (Some (bm_data buf3))))))))"

text \<open>What the loop computes, without its buffer.\<close>

function expand :: "conf \<Rightarrow> byte list option \<Rightarrow> byte list \<Rightarrow> byte list option option" where
  "expand cf section from =
     (case str_copy_step cf section from of
        None \<Rightarrow> None
      | Some Leave \<Rightarrow> Some (Some [])
      | Some Reject \<Rightarrow> Some None
      | Some (Emit xs r) \<Rightarrow> map_option (map_option (append xs)) (expand cf section r)
      | Some (Expand p r) \<Rightarrow> map_option (map_option (append p)) (expand cf section r))"
  by pat_completeness auto
termination
  by (relation "measure (\<lambda>(cf, section, from). length from)") (auto intro: str_copy_step_less)

declare expand.simps [simp del]

section \<open>The expansion stays in its buffer\<close>

lemma copy_quoted_total:
  "0 \<in> set s \<Longrightarrow> q \<noteq> 0 \<Longrightarrow> \<exists>xs r. copy_quoted q s = Some (xs, r) \<and> 0 \<notin> set xs"
proof (induction q s rule: copy_quoted.induct)
  case (2 q c s)
  show ?case
  proof (cases "c \<noteq> 0 \<and> c \<noteq> q")
    case True
    then have s: "0 \<in> set s" using 2 by auto
    show ?thesis
    proof (cases "c = 92")
      case esc: True
      then obtain d s' where d: "s = d # s'" using s by (cases s) auto
      show ?thesis
      proof (cases "d = 0")
        case False
        with 2(1) [OF _ _ d] True esc s d 2(4) have "\<exists>xs r. copy_quoted q s' = Some (xs, r) \<and> 0 \<notin> set xs" by auto
        with True esc d False show ?thesis by auto
      qed (use True esc d in auto)
    next
      case False
      with 2(2) True s 2(4) have "\<exists>xs r. copy_quoted q s = Some (xs, r) \<and> 0 \<notin> set xs" by auto
      with True False show ?thesis by auto
    qed
  qed (use 2(4) in auto)
qed simp

lemma span_alnum_total: "0 \<in> set s \<Longrightarrow> \<exists>np e. span_alnum s = Some (np, e) \<and> 0 \<in> set e"
  by (induction s) auto

lemma scan_name_total:
  assumes "0 \<in> set s"
  shows "\<exists>r. scan_name q (Some sec) s = Some r \<and> (\<forall>cp np e. r = Some (cp, np, e) \<longrightarrow> cp \<noteq> None)"
proof -
  obtain np e where e: "span_alnum s = Some (np, e)" "0 \<in> set e" using span_alnum_total [OF assms] by blast
  have c: "close_reference q (Some x) y z = Some (cp, n, w) \<Longrightarrow> cp \<noteq> None" for x y z cp n w
    by (auto simp: close_reference_def split: if_splits)
  show ?thesis
  proof (cases "hd e = 58 \<and> (\<exists>e'. tl e = 58 # e')")
    case True
    then obtain e' where e': "e = 58 # 58 # e'" using e(2) by (cases e) auto
    then obtain np2 e2 where "span_alnum e' = Some (np2, e2)" using e(2) span_alnum_total by fastforce
    with e e' c show ?thesis by (auto simp: scan_name_def)
  next
    case False
    moreover have "tl e \<noteq> []" if "hd e = 58" using e(2) that by (cases e) auto
    ultimately show ?thesis using e c by (auto simp: scan_name_def split: list.splits)
  qed
qed

lemma scan_variable_total:
  assumes "0 \<in> set s"
  shows "\<exists>r. scan_variable (Some sec) s = Some r \<and> (\<forall>cp np e. r = Some (cp, np, e) \<longrightarrow> cp \<noteq> None)"
proof (cases s)
  case (Cons c s1)
  then obtain q t where "scan_variable (Some sec) s = scan_name q (Some sec) t" "0 \<in> set t"
    using assms by (cases "c = 123"; cases "c = 40") (auto simp: scan_variable_def)
  then show ?thesis using scan_name_total [of t q sec] by simp
qed (use assms in simp)

lemma conf_string_ok:
  assumes "conf_ok cf" and "conf_string cf s n = Some t"
  shows "0 \<notin> set t \<and> length t < 2 ^ 62"
proof -
  obtain v where v: "lh_map conf_key (conf_table cf) (s, Some n) = Some v" "cv_value v = Chars t"
    using assms(2) by (auto simp: conf_string_def split: option.splits conf_data.splits)
  from conf_okD(4) [OF assms(1) v(1)] v(2) show ?thesis by simp
qed

lemma str_copy_step_total:
  assumes ok: "conf_ok cf" and nul: "0 \<in> set from"
  obtains (leave) "str_copy_step cf (Some sec) from = Some Leave"
  | (reject) "str_copy_step cf (Some sec) from = Some Reject" and "36 \<in> set (c_str from)"
  | (emit) xs r pre where "str_copy_step cf (Some sec) from = Some (Emit xs r)" and "0 \<notin> set xs"
      and "from = pre @ r" "pre \<noteq> []" "0 \<notin> set pre" "length xs \<le> length pre" "0 \<in> set r"
  | (expand) p r pre where "str_copy_step cf (Some sec) from = Some (Expand p r)" and "0 \<notin> set p" "length p < 2 ^ 62"
      and "from = pre @ r" "pre \<noteq> []" "0 \<notin> set pre" "0 \<in> set r" "36 \<in> set (c_str from)"
proof -
  obtain c s where f: "from = c # s" using nul by (cases "from") auto
  let ?good = "\<lambda>st. (st = Reject \<longrightarrow> c = 36) \<and> (\<forall>xs r. st = Emit xs r \<longrightarrow> 0 \<notin> set xs) \<and>
      (\<forall>p r. st = Expand p r \<longrightarrow> 0 \<notin> set p \<and> length p < 2 ^ 62 \<and> c = 36)"
  have "\<exists>st. str_copy_step cf (Some sec) from = Some st \<and> ?good st"
  proof (cases "c = 0")
    case True
    then show ?thesis by (simp add: str_copy_step_def f)
  next
    case False
    then have s: "0 \<in> set s" using nul f by simp
    then obtain d s' where d: "s = d # s'" by (cases s) auto
    consider (quote) "IS_QUOTE c" | (esc) "c = 92" | (var) "c = 36" | (plain) "\<not> IS_QUOTE c" "c \<noteq> 92" "c \<noteq> 36"
      by blast
    then show ?thesis
    proof cases
      case quote
      obtain xs r where "copy_quoted c s = Some (xs, r)" "0 \<notin> set xs" using copy_quoted_total [OF s False] by blast
      then have "str_copy_step cf (Some sec) from = Some (Emit xs r)" using quote by (simp add: str_copy_step_def f)
      with \<open>0 \<notin> set xs\<close> show ?thesis by simp
    next
      case esc
      have "str_copy_step cf (Some sec) from = Some (if d = 0 then Leave else Emit [unescape d] s')"
        using esc by (simp add: str_copy_step_def f d)
      moreover have "d \<noteq> 0 \<Longrightarrow> unescape d \<noteq> 0" by (simp add: unescape_def)
      ultimately show ?thesis by simp
    next
      case var
      obtain r where r: "scan_variable (Some sec) s = Some r" "\<And>cp np e. r = Some (cp, np, e) \<Longrightarrow> cp \<noteq> None"
        using scan_variable_total [OF s, of sec] by blast
      show ?thesis
      proof (cases r)
        case None
        with r var show ?thesis by (simp add: str_copy_step_def f)
      next
        case (Some t)
        obtain cp np e where t: "t = (Some cp, np, e)" using r(2) Some by (cases t) auto
        show ?thesis
        proof (cases "conf_string cf cp np")
          case None
          with r(1) Some t var show ?thesis by (simp add: str_copy_step_def f NCONF_get_string_eq [OF ok])
        next
          case p: (Some p)
          from r(1) Some t p var have "str_copy_step cf (Some sec) from = Some (Expand p e)"
            by (simp add: str_copy_step_def f NCONF_get_string_eq [OF ok])
          with conf_string_ok [OF ok p] var show ?thesis by simp
        qed
      qed
    next
      case plain
      then have "str_copy_step cf (Some sec) from = Some (Emit [c] s)" using False by (simp add: str_copy_step_def f)
      with False show ?thesis by simp
    qed
  qed
  then obtain st where st: "str_copy_step cf (Some sec) from = Some st" and rej: "st = Reject \<longrightarrow> c = 36"
    and em: "\<And>xs r. st = Emit xs r \<Longrightarrow> 0 \<notin> set xs"
    and ex: "\<And>p r. st = Expand p r \<Longrightarrow> 0 \<notin> set p \<and> length p < 2 ^ 62 \<and> c = 36" by blast
  show thesis
  proof (cases st)
    case Leave
    with st leave show thesis by simp
  next
    case Reject
    with st rej reject show thesis by (simp add: f)
  next
    case (Emit xs r)
    from str_copy_step_pre(1) [OF st Emit] obtain pre
      where "from = pre @ r" "pre \<noteq> []" "0 \<notin> set pre" "length xs \<le> length pre" by blast
    with emit [of xs r pre] st Emit em nul show thesis by simp
  next
    case (Expand p r)
    from str_copy_step_pre(2) [OF st Expand] obtain pre where "from = pre @ r" "pre \<noteq> []" "0 \<notin> set pre" by blast
    moreover have "36 \<in> set (c_str from)" using ex [OF Expand] by (simp add: f)
    moreover have "0 \<in> set r" using nul calculation(1,3) by simp
    ultimately show thesis using expand [of p r pre] st Expand ex by blast
  qed
qed

lemma buf_put_eq:
  assumes "to + length xs \<le> length (bm_data buf)"
  shows "\<exists>buf'. buf_put buf to xs = Some buf' \<and> bm_ok buf' = bm_ok buf \<and> bm_length buf' = bm_length buf \<and>
    take (to + length xs) (bm_data buf') = take to (bm_data buf) @ xs \<and> length (bm_data buf') = length (bm_data buf)"
  using assms by (auto simp: buf_put_def bm_ok_def)

lemma c_str_append: "0 \<notin> set pre \<Longrightarrow> c_str (pre @ r) = pre @ c_str r"
  by (induction pre) auto

lemma grow_cases:
  assumes "malloc_law m" and "bm_ok buf" and "0 < len" and "len < 2 ^ 63"
  obtains (fails) "BUF_MEM_grow m len buf = (0, buf)"
    | (grows) buf' where "BUF_MEM_grow m len buf = (len, buf')" "bm_ok buf'" "bm_length buf' = len"
        "bm_bytes buf' = take len (bm_bytes buf) @ replicate (len - bm_length buf) 0"
proof -
  obtain r buf' where e: "BUF_MEM_grow m len buf = (r, buf')" by (cases "BUF_MEM_grow m len buf")
  have "bm_length buf' = len" if "r = len" using that e assms(3) by (auto simp: BUF_MEM_grow_def split: prod.splits option.splits)
  with BUF_MEM_grow_bytes [OF assms(1,2,4)] e fails grows show thesis by auto
qed

text \<open>The outcome of the loop when \<open>out\<close> has been written already.\<close>

definition copied ::
  "conf \<Rightarrow> byte list option \<Rightarrow> byte list \<Rightarrow> byte list \<Rightarrow> (buf_mem \<times> nat) option option \<Rightarrow> bool" where
  "copied cf section from out res =
     (case res of
        None \<Rightarrow> False
      | Some None \<Rightarrow> 36 \<in> set (c_str from)
      | Some (Some (buf, to)) \<Rightarrow>
          to < length (bm_data buf) \<and>
          (\<exists>xs. expand cf section from = Some (Some xs) \<and> 0 \<notin> set xs \<and>
             take to (bm_data buf) = out @ xs \<and> to = length out + length xs))"

lemma copied_turn:
  assumes "expand cf section from = map_option (map_option (append xs)) (expand cf section r)" and "0 \<notin> set xs"
    and "set (c_str r) \<subseteq> set (c_str from)" and "copied cf section r (out @ xs) res"
  shows "copied cf section from out res"
  using assms by (auto simp: copied_def split: option.splits)

text \<open>The invariant of the loop: what is left of the line, and its NUL, fit behind \<open>to\<close>.\<close>

lemma str_copy_loop_expand:
  assumes m: "malloc_law m" and ok: "conf_ok cf"
  shows "bm_ok buf \<Longrightarrow> 0 \<in> set from \<Longrightarrow> to + length (c_str from) < bm_length buf \<Longrightarrow> bm_length buf < 2 ^ 62 \<Longrightarrow>
    copied cf (Some sec) from (take to (bm_data buf)) (str_copy_loop m cf (Some sec) from to buf)"
proof (induction "length from" arbitrary: "from" to buf rule: less_induct)
  case less
  note buf = less.prems(1)
  have len: "bm_length buf \<le> length (bm_data buf)" using buf by (simp add: bm_ok_def)
  show ?case
  proof (cases rule: str_copy_step_total [OF ok less.prems(2), of sec, case_names leave reject emit expand])
    case leave
    with less.prems(3) len show ?thesis
      by (simp add: copied_def str_copy_loop.simps [of m cf _ "from"] expand.simps [of cf _ "from"])
  next
    case reject
    then show ?thesis by (simp add: copied_def str_copy_loop.simps [of m cf _ "from"])
  next
    case (emit xs r pre)
    have cs: "length (c_str from) = length pre + length (c_str r)" using emit by (simp add: c_str_append)
    have "to + length xs \<le> length (bm_data buf)" using less.prems(3) len cs emit(6) by linarith
    from buf_put_eq [OF this] obtain buf' where p: "buf_put buf to xs = Some buf'" "bm_ok buf'"
      "bm_length buf' = bm_length buf" "take (to + length xs) (bm_data buf') = take to (bm_data buf) @ xs"
      using buf by auto
    have "length r < length from" using emit by simp
    from less.hyps [OF this p(2) emit(7), of "to + length xs"] less.prems(3,4) cs emit(6)
    have "copied cf (Some sec) r (take to (bm_data buf) @ xs) (str_copy_loop m cf (Some sec) r (to + length xs) buf')"
      by (simp add: p(3,4))
    moreover have "expand cf (Some sec) from = map_option (map_option (append xs)) (expand cf (Some sec) r)"
      by (simp add: expand.simps [of cf _ "from"] emit(1))
    moreover have "set (c_str r) \<subseteq> set (c_str from)" using emit(3,5) by (simp add: c_str_append)
    ultimately show ?thesis
      using copied_turn [OF _ emit(2)] by (simp add: str_copy_loop.simps [of m cf _ "from"] emit(1) p(1))
  next
    case (expand p r pre)
    have cs: "length (c_str from) = length pre + length (c_str r)" using expand by (simp add: c_str_append)
    let ?n = "length p + bm_length buf - length pre"
    have big: "length pre < bm_length buf" using less.prems(3) cs by linarith
    have n: "(length p + bm_length buf + size_mod - (length from - length r)) mod size_mod = ?n"
    proof -
      have "length p + bm_length buf + size_mod - (length from - length r) = ?n + size_mod"
        using big by (simp add: expand(4))
      moreover have "?n < size_mod" using expand(3) less.prems(4) by simp
      ultimately show ?thesis by simp
    qed
    show ?thesis
    proof (cases "?n > MAX_CONF_VALUE_LENGTH")
      case True
      then show ?thesis using expand(1,8) n by (simp add: copied_def str_copy_loop.simps [of m cf _ "from"])
    next
      case False
      have n0: "0 < ?n" using big by simp
      have n63: "?n < 2 ^ 63" using False by (simp add: MAX_CONF_VALUE_LENGTH_def)
      show ?thesis
      proof (cases rule: grow_cases [OF m buf n0 n63, case_names fails grows])
        case fails
        then show ?thesis using expand(1,8) n False
          by (simp add: copied_def str_copy_loop.simps [of m cf _ "from"] BUF_MEM_grow_clean_def)
      next
        case (grows buf1)
        have l1: "?n \<le> length (bm_data buf1)" using grows(2,3) by (simp add: bm_ok_def)
        have toN: "to \<le> ?n" "to \<le> bm_length buf" using less.prems(3) cs by linarith+
        have keep: "take to (bm_data buf1) = take to (bm_data buf)"
        proof -
          have "take to (bm_bytes buf1) = take to (bm_bytes buf)"
            unfolding grows(4) using toN len by (simp add: bm_bytes_def min_def)
          then show ?thesis using toN by (simp add: bm_bytes_def grows(3) min_def)
        qed
        have "to + length p \<le> length (bm_data buf1)" using l1 less.prems(3) cs by linarith
        from buf_put_eq [OF this] obtain buf2 where p: "buf_put buf1 to p = Some buf2" "bm_ok buf2"
          "bm_length buf2 = ?n" "take (to + length p) (bm_data buf2) = take to (bm_data buf) @ p"
          using grows(2,3) keep by auto
        have "length r < length from" using expand by simp
        moreover have "to + length p + length (c_str r) < ?n" using less.prems(3) cs by linarith
        moreover have "?n < 2 ^ 62" using False by (simp add: MAX_CONF_VALUE_LENGTH_def)
        ultimately have "copied cf (Some sec) r (take to (bm_data buf) @ p)
            (str_copy_loop m cf (Some sec) r (to + length p) buf2)"
          using less.hyps [OF _ p(2) expand(7), of "to + length p"] by (simp add: p(3,4))
        moreover have "expand cf (Some sec) from = map_option (map_option (append p)) (expand cf (Some sec) r)"
          by (simp add: expand.simps [of cf _ "from"] expand(1))
        moreover have "set (c_str r) \<subseteq> set (c_str from)" using expand(4,6) by (simp add: c_str_append)
        moreover have "str_copy_loop m cf (Some sec) from to buf = str_copy_loop m cf (Some sec) r (to + length p) buf2"
          using n0 False n
          by (simp add: str_copy_loop.simps [of m cf _ "from"] expand(1) grows(1) p(1) BUF_MEM_grow_clean_def)
        ultimately show ?thesis using copied_turn [OF _ expand(2)] by simp
      qed
    qed
  qed
qed

lemma str_copy_correct:
  assumes m: "malloc_law m" and ok: "conf_ok cf" and nul: "0 \<in> set from" and short: "length (c_str from) < 2 ^ 31"
  shows "case str_copy m cf (Some sec) from of
      None \<Rightarrow> False
    | Some None \<Rightarrow> 36 \<in> set (c_str from) \<or> BUF_MEM_new m = None \<or>
        fst (BUF_MEM_grow m (length (c_str from) + 1) \<lparr>bm_length = 0, bm_data = [], bm_max = 0\<rparr>) = 0
    | Some (Some d) \<Rightarrow> 0 \<in> set d \<and> expand cf (Some sec) from = Some (Some (c_str d))"
proof (cases "BUF_MEM_new m")
  case None
  then show ?thesis by (simp add: str_copy_def)
next
  case (Some buf)
  let ?n = "length (c_str from) + 1"
  have buf: "buf = \<lparr>bm_length = 0, bm_data = [], bm_max = 0\<rparr>"
    using Some by (auto simp: BUF_MEM_new_def split: option.splits)
  then have b: "bm_ok buf" by (simp add: bm_ok_def)
  have n63: "?n < 2 ^ 63" using short by simp
  have n0: "0 < ?n" by simp
  show ?thesis
  proof (cases rule: grow_cases [OF m b n0 n63, case_names fails grows])
    case fails
    with Some buf nul show ?thesis by (simp add: str_copy_def)
  next
    case (grows buf1)
    have "copied cf (Some sec) from (take 0 (bm_data buf1)) (str_copy_loop m cf (Some sec) from 0 buf1)"
      using short grows(2,3) nul by (intro str_copy_loop_expand [OF m ok]) simp_all
    then have c: "copied cf (Some sec) from [] (str_copy_loop m cf (Some sec) from 0 buf1)" by simp
    show ?thesis
    proof (cases "str_copy_loop m cf (Some sec) from 0 buf1")
      case None
      with c show ?thesis by (simp add: copied_def)
    next
      case loop: (Some r)
      show ?thesis
      proof (cases r)
        case None
        with c loop nul Some grows(1) show ?thesis by (simp add: copied_def str_copy_def)
      next
        case finished: (Some r')
        obtain buf2 to where r': "r' = (buf2, to)" by (cases r')
        from c loop finished r' obtain xs where xs: "expand cf (Some sec) from = Some (Some xs)" "0 \<notin> set xs"
          "take to (bm_data buf2) = xs" "to = length xs" "to < length (bm_data buf2)"
          by (auto simp: copied_def)
        have "str_copy m cf (Some sec) from = Some (Some (xs @ 0 # drop (to + 1) (bm_data buf2)))"
          using nul Some grows(1) loop finished r' xs(3,5) by (simp add: str_copy_def buf_put_def)
        then show ?thesis using xs(1,2) by (simp add: c_str_append)
      qed
    qed
  qed
qed

section \<open>Reading a line\<close>

text \<open>The loop at the label \<open>again\<close>: the end of the section's name, \<open>Some None\<close> without a closing
  bracket.\<close>

function section_end :: "byte list \<Rightarrow> nat option option" where
  "section_end ss =
     (case eat_alpha_numeric ss of
        None \<Rightarrow> None
      | Some n \<Rightarrow>
          (case eat_ws (drop n ss) of
             None \<Rightarrow> None
           | Some w \<Rightarrow>
               (if hd (drop (n + w) ss) \<noteq> 93 then
                  (if hd (drop (n + w) ss) \<noteq> 0 \<and> n + w \<noteq> 0
                   then map_option (map_option (\<lambda>k. n + w + k)) (section_end (drop (n + w) ss))
                   else Some None)
                else Some (Some n))))"
  by pat_completeness auto
termination by (relation "measure length") (auto elim: eat_alpha_numeric.elims)

declare section_end.simps [simp del]

definition open_section :: "mallocf \<Rightarrow> conf \<Rightarrow> byte list \<Rightarrow> conf \<times> conf_value option" where
  "open_section m cf sec =
     (case get_section cf sec of
        Some sv \<Rightarrow> (cf, Some sv)
      | None \<Rightarrow> NCONF_new_section m cf sec)"

text \<open>A line is handled in the state of the current section, its name and its value; the result is
  the configuration and the new state, or \<open>None\<close> for \<open>goto err\<close>. \<open>s\<close>, \<open>start\<close>, \<open>end\<close> and \<open>p\<close> are
  positions in the array \<open>dat\<close>.\<close>

definition handle_section ::
  "mallocf \<Rightarrow> conf \<Rightarrow> byte list \<Rightarrow> nat \<Rightarrow> (conf \<times> (byte list \<times> conf_value) option) option" where
  "handle_section m cf dat s =
     (case eat_ws (drop (s + 1) dat) of
        None \<Rightarrow> None
      | Some w \<Rightarrow>
          (let start = s + 1 + w in
           case section_end (drop start dat) of
             None \<Rightarrow> None
           | Some None \<Rightarrow> Some (cf, None)
           | Some (Some n) \<Rightarrow>
               (case str_copy m cf None (drop start (dat[start + n := 0])) of
                  None \<Rightarrow> None
                | Some None \<Rightarrow> Some (cf, None)
                | Some (Some d) \<Rightarrow>
                    (case open_section m cf (c_str d) of
                       (cf1, None) \<Rightarrow> Some (cf1, None)
                     | (cf1, Some sv) \<Rightarrow> Some (cf1, Some (c_str d, sv))))))"

fun trim_ws :: "byte list \<Rightarrow> nat \<Rightarrow> nat \<Rightarrow> nat option" where
  "trim_ws dat start 0 = (if 0 \<noteq> start \<and> IS_WS (dat ! 0) then None else Some 0)"
| "trim_ws dat start (Suc p) =
     (if Suc p \<noteq> start \<and> IS_WS (dat ! Suc p) then trim_ws dat start p else Some (Suc p))"

text \<open>The part of the line from the end of the name on; \<open>psec\<close> is the position of an explicit
  section name.\<close>

definition handle_value ::
  "mallocf \<Rightarrow> conf \<Rightarrow> byte list \<Rightarrow> conf_value \<Rightarrow> byte list \<Rightarrow> nat option \<Rightarrow> nat \<Rightarrow> nat \<Rightarrow>
     (conf \<times> (byte list \<times> conf_value) option) option" where
  "handle_value m cf section sv dat psec pname nend =
     (case eat_ws (drop nend dat) of
        None \<Rightarrow> None
      | Some w \<Rightarrow>
          (let p = nend + w in
           if dat ! p \<noteq> 61 then Some (cf, None)
           else
             (let dat1 = dat[nend := 0] in
              case (eat_ws (drop (p + 1) dat1), strlen (drop (p + 1) dat1)) of
                (Some w2, Some l) \<Rightarrow>
                  (let start = p + 1 + w2 in
                   case trim_ws dat1 start (p + 1 + l - 1) of
                     None \<Rightarrow> None
                   | Some p2 \<Rightarrow>
                       (if p2 + 1 \<ge> length dat1 then None else
                        let dat2 = dat1[p2 + 1 := 0];
                            psection = (case psec of None \<Rightarrow> section | Some i \<Rightarrow> c_str (drop i dat2))
                        in case CONF_VALUE_new m of
                             None \<Rightarrow> Some (cf, None)
                           | Some v \<Rightarrow>
                               (case OPENSSL_strdup m (c_str (drop pname dat2)) of
                                  None \<Rightarrow> Some (cf, None)
                                | Some nm \<Rightarrow>
                                    (case str_copy m cf (Some psection) (drop start dat2) of
                                       None \<Rightarrow> None
                                     | Some None \<Rightarrow> Some (cf, None)
                                     | Some (Some d) \<Rightarrow>
                                         (case (if strcmp psection section \<noteq> 0 then open_section m cf psection
                                                else (cf, Some sv)) of
                                            (cf1, None) \<Rightarrow> Some (cf1, None)
                                          | (cf1, Some tv) \<Rightarrow>
                                              (case add_string m cf1 tv
                                                      (v\<lparr>cv_name := Some nm, cv_value := Chars (c_str d)\<rparr>) of
                                                 None \<Rightarrow> None
                                               | Some (cf2, False) \<Rightarrow> Some (cf2, None)
                                               | Some (cf2, True) \<Rightarrow> Some (cf2, Some (section, sv))))))))
              | _ \<Rightarrow> None)))"

definition handle_assignment ::
  "mallocf \<Rightarrow> conf \<Rightarrow> byte list \<Rightarrow> conf_value \<Rightarrow> byte list \<Rightarrow> nat \<Rightarrow>
     (conf \<times> (byte list \<times> conf_value) option) option" where
  "handle_assignment m cf section sv dat s =
     (case eat_alpha_numeric (drop s dat) of
        None \<Rightarrow> None
      | Some n \<Rightarrow>
          (let nend = s + n in
           if dat ! nend = 58 \<and> nend + 1 \<ge> length dat then None
           else if dat ! nend = 58 \<and> dat ! (nend + 1) = 58 then
             (let dat1 = dat[nend := 0]; pname = nend + 2
              in case eat_alpha_numeric (drop pname dat1) of
                   None \<Rightarrow> None
                 | Some n2 \<Rightarrow> handle_value m cf section sv dat1 (Some s) pname (pname + n2))
           else handle_value m cf section sv dat None s nend))"

definition handle_line ::
  "mallocf \<Rightarrow> conf \<Rightarrow> byte list \<Rightarrow> conf_value \<Rightarrow> byte list \<Rightarrow>
     (conf \<times> (byte list \<times> conf_value) option) option" where
  "handle_line m cf section sv dat0 =
     (case clear_comments dat0 of
        None \<Rightarrow> None
      | Some dat \<Rightarrow>
          (case eat_ws dat of
             None \<Rightarrow> None
           | Some s \<Rightarrow>
               (if IS_EOF (dat ! s) then Some (cf, Some (section, sv))
                else if dat ! s = 91 then handle_section m cf dat s
                else handle_assignment m cf section sv dat s)))"

section \<open>Reading a file\<close>

definition CONFBUFSIZE :: nat where
  "CONFBUFSIZE = 512"

text \<open>The variables of \<open>def_load_bio\<close> that live across the turns of its loop.\<close>

record loader =
  ld_conf :: conf
  ld_section :: "byte list"
  ld_sv :: conf_value
  ld_buff :: buf_mem
  ld_bufnum :: nat
  ld_again :: bool
  ld_eline :: nat

text \<open>The number of characters without the line terminators at the end.\<close>

fun strip_eol :: "byte list \<Rightarrow> nat \<Rightarrow> nat" where
  "strip_eol p 0 = 0"
| "strip_eol p (Suc i) = (if p ! i \<noteq> 13 \<and> p ! i \<noteq> 10 then Suc i else strip_eol p i)"

text \<open>The head of a turn: make room, read a chunk behind what is there and decide whether the line is
  complete. \<open>None\<close> leaves an array, \<open>Some None\<close> is the failure of \<open>BUF_MEM_grow\<close>; otherwise the new
  state, or \<open>None\<close> at the end of the file. \<open>BIO_gets\<close> stores at most \<open>CONFBUFSIZE - 2\<close>
  characters and a NUL.\<close>

definition read_chunk :: "mallocf \<Rightarrow> byte list \<Rightarrow> loader \<Rightarrow> loader option option option" where
  "read_chunk m chunk ld =
     (case BUF_MEM_grow m (ld_bufnum ld + CONFBUFSIZE) (ld_buff ld) of
        (r, buff1) \<Rightarrow>
          (if r = 0 then Some None
           else
             (case buf_put buff1 (ld_bufnum ld) (take (CONFBUFSIZE - 2) chunk @ [0]) of
                None \<Rightarrow> None
              | Some buff2 \<Rightarrow>
                  (case buf_put buff2 (ld_bufnum ld + CONFBUFSIZE - 1) [0] of
                     None \<Rightarrow> None
                   | Some buff3 \<Rightarrow>
                       (let p = drop (ld_bufnum ld) (bm_data buff3);
                            ii = length (c_str p); i = strip_eol p ii
                        in if ii = 0 \<and> \<not> ld_again ld then Some (Some None)
                           else
                             (let long = (ii \<noteq> 0 \<and> i = ii);
                                  dat = (if long then bm_data buff3 else (bm_data buff3)[ld_bufnum ld + i := 0]);
                                  eline = (if long then ld_eline ld else ld_eline ld + 1);
                                  n = ld_bufnum ld + i;
                                  esc = (n \<ge> 1 \<and> IS_ESC (dat ! (n - 1)) \<and> (n \<le> 1 \<or> \<not> IS_ESC (dat ! (n - 2))))
                              in Some (Some (Some (ld\<lparr>ld_buff := buff3\<lparr>bm_data := dat\<rparr>,
                                   ld_bufnum := (if esc then n - 1 else n),
                                   ld_again := (long \<or> esc), ld_eline := eline\<rparr>)))))))))"

text \<open>The loop over the chunks that \<open>BIO_gets\<close> returns, empty ones after the last; the result is the
  configuration, the return value and the line number reported. The NULs that handling a line puts
  into the buffer are not carried over: the next line is written over them, and nothing reads
  behind its NUL.\<close>

function load_loop :: "mallocf \<Rightarrow> byte list list \<Rightarrow> loader \<Rightarrow> (conf \<times> bool \<times> nat) option" where
  "load_loop m chunks ld =
     (case read_chunk m (case chunks of [] \<Rightarrow> [] | c # _ \<Rightarrow> c) ld of
        None \<Rightarrow> None
      | Some None \<Rightarrow> Some (ld_conf ld, False, ld_eline ld)
      | Some (Some None) \<Rightarrow> Some (ld_conf ld, True, ld_eline ld)
      | Some (Some (Some ld1)) \<Rightarrow>
          (if ld_again ld1 then load_loop m (tl chunks) ld1
           else
             (case handle_line m (ld_conf ld1) (ld_section ld1) (ld_sv ld1) (bm_data (ld_buff ld1)) of
                None \<Rightarrow> None
              | Some (cf, None) \<Rightarrow> Some (cf, False, ld_eline ld1)
              | Some (cf, Some (section, sv)) \<Rightarrow>
                  load_loop m (tl chunks)
                    (ld1\<lparr>ld_conf := cf, ld_section := section, ld_sv := sv, ld_bufnum := 0\<rparr>))))"
  by pat_completeness auto

text \<open>At the end of the file only a line that was continued goes on, and every turn of it drops a
  trailing escape.\<close>

lemma buf_put_eqD:
  assumes "buf_put buf to xs = Some buf'"
  shows "drop to (bm_data buf') = xs @ drop (to + length xs) (bm_data buf)"
  using assms by (auto simp: buf_put_def split: if_splits)

lemma read_chunk_end:
  assumes "read_chunk m [] ld = Some (Some (Some ld1))"
  shows "ld_again ld \<and> (ld_again ld1 \<longrightarrow> ld_bufnum ld1 < ld_bufnum ld)"
proof -
  obtain r buff1 where g: "BUF_MEM_grow m (ld_bufnum ld + CONFBUFSIZE) (ld_buff ld) = (r, buff1)"
    by (cases "BUF_MEM_grow m (ld_bufnum ld + CONFBUFSIZE) (ld_buff ld)")
  obtain buff2 where p2: "buf_put buff1 (ld_bufnum ld) [0] = Some buff2"
    using assms g by (auto simp: read_chunk_def split: if_splits option.splits)
  obtain buff3 where p3: "buf_put buff2 (ld_bufnum ld + CONFBUFSIZE - 1) [0] = Some buff3"
    using assms g p2 by (auto simp: read_chunk_def split: if_splits option.splits)
  have "bm_data buff3 ! ld_bufnum ld = 0"
    using p2 p3 by (auto simp: buf_put_def nth_append CONFBUFSIZE_def min_def split: if_splits)
  moreover have "ld_bufnum ld < length (bm_data buff3)"
    using p2 p3 by (auto simp: buf_put_def split: if_splits)
  ultimately have "c_str (drop (ld_bufnum ld) (bm_data buff3)) = []"
    by (simp add: Cons_nth_drop_Suc [symmetric])
  then show ?thesis
    using assms g p2 p3 by (auto simp: read_chunk_def Let_def split: if_splits)
qed

termination load_loop
proof (relation "measures [\<lambda>(m, chunks, ld). length chunks,
    \<lambda>(m, chunks, ld). if ld_again ld then Suc (ld_bufnum ld) else 0]")
qed (auto simp: neq_Nil_conv dest!: read_chunk_end split: list.splits)

declare load_loop.simps [simp del]

definition def_load_bio :: "mallocf \<Rightarrow> conf \<Rightarrow> byte list list \<Rightarrow> (conf \<times> bool \<times> nat) option" where
  "def_load_bio m cf chunks =
     (case BUF_MEM_new m of
        None \<Rightarrow> Some (cf, False, 0)
      | Some buff \<Rightarrow>
          (case OPENSSL_strdup m default_name of
             None \<Rightarrow> Some (cf, False, 0)
           | Some section \<Rightarrow>
               (case NCONF_new_section m cf section of
                  (cf1, None) \<Rightarrow> Some (cf1, False, 0)
                | (cf1, Some sv) \<Rightarrow>
                    load_loop m chunks
                      \<lparr>ld_conf = cf1, ld_section = section, ld_sv = sv, ld_buff = buff, ld_bufnum = 0,
                       ld_again = False, ld_eline = 0\<rparr>)))"

definition NCONF_load_bio :: "mallocf \<Rightarrow> conf \<Rightarrow> byte list list \<Rightarrow> (conf \<times> bool \<times> nat) option" where
  "NCONF_load_bio m cf bio = def_load_bio m cf bio"

section \<open>Lists of values\<close>

definition isspace :: "byte \<Rightarrow> bool" where
  "isspace c \<longleftrightarrow> c = 32 \<or> (9 \<le> c \<and> c \<le> 13)"

text \<open>\<open>CONF_parse_list\<close> on the characters of a string and a separator that is not NUL: the callback
  takes an element, \<open>None\<close> for an empty one, and acts on a state.\<close>

function CONF_parse_list ::
  "byte list \<Rightarrow> byte \<Rightarrow> bool \<Rightarrow> (byte list option \<Rightarrow> 's \<Rightarrow> int \<times> 's) \<Rightarrow> 's \<Rightarrow> int \<times> 's" where
  "CONF_parse_list list sep remove_whitespace list_cb arg =
     (let lstart = (if remove_whitespace then dropWhile isspace list else list);
          p = dropWhile (\<lambda>c. c \<noteq> sep) lstart;
          elem = takeWhile (\<lambda>c. c \<noteq> sep) lstart;
          (ret, arg') =
            (if lstart = [] \<or> elem = [] then list_cb None arg
             else list_cb (Some (if remove_whitespace then rev (dropWhile isspace (rev elem)) else elem)) arg)
      in if ret \<le> 0 then (ret, arg')
         else if p = [] then (1, arg')
         else CONF_parse_list (tl p) sep remove_whitespace list_cb arg')"
  by pat_completeness auto
lemma tl_dropWhile_less:
  "length xs \<le> length ys \<Longrightarrow> dropWhile P xs \<noteq> [] \<Longrightarrow> length (tl (dropWhile P xs)) < length ys"
  using length_dropWhile_le [of P xs] by (cases "dropWhile P xs") auto

termination CONF_parse_list
proof (relation "measure (\<lambda>(list, sep, r, cb, arg). length list)", goal_cases)
  case (2 list sep remove_whitespace list_cb arg lstart p elem x ret arg')
  have "length lstart \<le> length list" by (simp add: 2(1) length_dropWhile_le)
  with 2 tl_dropWhile_less [of lstart list] show ?case by simp
qed simp

declare CONF_parse_list.simps [simp del]

text \<open>The elements of a list.\<close>

function fields :: "byte \<Rightarrow> byte list \<Rightarrow> byte list list" where
  "fields sep s =
     (let rest = dropWhile (\<lambda>c. c \<noteq> sep) s
      in takeWhile (\<lambda>c. c \<noteq> sep) s # (if rest = [] then [] else fields sep (tl rest)))"
  by pat_completeness auto
termination
  by (relation "measure (\<lambda>(sep, s). length s)")
    (simp_all add: tl_dropWhile_less del: length_tl dropWhile_eq_Nil_conv)

declare fields.simps [simp del]

definition trim :: "byte list \<Rightarrow> byte list" where
  "trim s = rev (dropWhile isspace (rev (dropWhile isspace s)))"

text \<open>The callback that collects what it is given.\<close>

definition collect_elem :: "byte list option \<Rightarrow> byte list list \<Rightarrow> int \<times> byte list list" where
  "collect_elem e acc = (1, acc @ [case e of None \<Rightarrow> [] | Some s \<Rightarrow> s])"

lemma takeWhile_dropWhile_space:
  "\<not> isspace sep \<Longrightarrow> takeWhile (\<lambda>c. c \<noteq> sep) (dropWhile isspace s) = dropWhile isspace (takeWhile (\<lambda>c. c \<noteq> sep) s)"
  by (induction s) auto

lemma dropWhile_dropWhile_space:
  "\<not> isspace sep \<Longrightarrow> dropWhile (\<lambda>c. c \<noteq> sep) (dropWhile isspace s) = dropWhile (\<lambda>c. c \<noteq> sep) s"
  by (induction s) auto

lemma takeWhile_Nil_iff: "takeWhile P s = [] \<longleftrightarrow> s = [] \<or> \<not> P (hd s)"
  by (cases s) auto

lemma CONF_parse_list_fields:
  "rw \<longrightarrow> \<not> isspace sep \<Longrightarrow>
     CONF_parse_list s sep rw collect_elem acc = (1, acc @ map (if rw then trim else id) (fields sep s))"
proof (induction sep s arbitrary: acc rule: fields.induct)
  case (1 sep s)
  let ?l = "if rw then dropWhile isspace s else s"
  let ?e = "takeWhile (\<lambda>c. c \<noteq> sep) ?l" and ?p = "dropWhile (\<lambda>c. c \<noteq> sep) ?l"
  let ?f = "(if rw then trim else id) (takeWhile (\<lambda>c. c \<noteq> sep) s)"
  have p: "?p = dropWhile (\<lambda>c. c \<noteq> sep) s" using 1(2) by (simp add: dropWhile_dropWhile_space)
  have e: "(if rw then rev (dropWhile isspace (rev ?e)) else ?e) = ?f"
    using 1(2) by (simp add: takeWhile_dropWhile_space trim_def)
  have f: "?f = []" if "?l = [] \<or> ?e = []"
  proof -
    have "?e = []" using that by (elim disjE) (simp only: takeWhile.simps, assumption)
    show ?thesis unfolding e [symmetric] \<open>?e = []\<close> by simp
  qed
  have cb: "(if ?l = [] \<or> ?e = [] then collect_elem None acc
      else collect_elem (Some (if rw then rev (dropWhile isspace (rev ?e)) else ?e)) acc) = (1, acc @ [?f])"
    unfolding e using f by (simp add: collect_elem_def)
  show ?case
  proof (cases "?p = []")
    case True
    then show ?thesis
      unfolding CONF_parse_list.simps [of s] fields.simps [of sep s] Let_def cb p by simp
  next
    case False
    then have "CONF_parse_list s sep rw collect_elem acc = CONF_parse_list (tl ?p) sep rw collect_elem (acc @ [?f])"
      unfolding CONF_parse_list.simps [of s] Let_def cb prod.case if_not_P [OF False] by simp
    also have "\<dots> = (1, (acc @ [?f]) @ map (if rw then trim else id) (fields sep (tl ?p)))"
      using 1(1) [OF refl _ 1(2)] False unfolding p by simp
    finally show ?thesis unfolding fields.simps [of sep s] Let_def p if_not_P [OF False [unfolded p]] by simp
  qed
qed

end
