(* ===== verification/ConfFile.thy ===== *)
theory ConfFile
  imports ConfLoad
begin

text \<open>
  What loading a configuration file does: the lines \<open>name=value\<close> of a file are what look-ups in the
  default section return afterwards. The theorems compose the buffer, the stack, the hash table,
  the scanners and the parser.
\<close>

section \<open>Plain lines\<close>

text \<open>A name of letters, digits and underscores, and a value without quotes, escapes, comments,
  variables and outer white space.\<close>

definition name_ok :: "byte list \<Rightarrow> bool" where
  "name_ok n \<longleftrightarrow> n \<noteq> [] \<and> (\<forall>c \<in> set n. IS_ALPHA_NUMERIC c)"

definition plain :: "byte list \<Rightarrow> bool" where
  "plain v \<longleftrightarrow> (\<forall>c \<in> set v. c \<notin> {0, 34, 35, 36, 39, 92, 96}) \<and> (v \<noteq> [] \<longrightarrow> \<not> IS_WS (hd v) \<and> \<not> IS_WS (last v))"

definition assignment :: "byte list \<times> byte list \<Rightarrow> byte list" where
  "assignment = (\<lambda>(n, v). n @ 61 # v)"

lemma alnum_special:
  assumes "IS_ALPHA_NUMERIC c"
  shows "c \<notin> {0, 34, 35, 36, 39, 92, 96, 9, 10, 13, 32, 58, 61, 91}"
  using assms by (auto simp: IS_ALPHA_NUMERIC_iff)

lemma clear_comments_loop_plain:
  "\<forall>c \<in> set s. c \<notin> {0, 34, 35, 39, 92, 96} \<Longrightarrow> clear_comments_loop (s @ 0 # rest) = Some (s @ 0 # rest)"
proof (induction s)
  case Nil
  then show ?case by (simp add: clear_comments_loop.simps [of "0 # rest"])
next
  case (Cons c s)
  then show ?case by (simp add: clear_comments_loop.simps [of "c # s @ 0 # rest"])
qed

lemma clear_comments_plain:
  "\<forall>c \<in> set s. c \<notin> {0, 34, 35, 39, 92, 96} \<Longrightarrow> clear_comments (s @ 0 # rest) = Some (s @ 0 # rest)"
proof (induction s)
  case Nil
  then show ?case using clear_comments_loop_plain [of "[]" rest] by simp
next
  case (Cons c s)
  with clear_comments_loop_plain [of "c # s" rest] show ?case by (cases "IS_WS c") simp_all
qed

lemma eat_alpha_numeric_name:
  assumes "\<forall>c \<in> set n. IS_ALPHA_NUMERIC c" and "\<not> IS_ALPHA_NUMERIC_PUNCT c" and "c \<noteq> 92"
  shows "eat_alpha_numeric (n @ c # d # s) = Some (length n)"
  using assms(1)
proof (induction n)
  case Nil
  with assms(2,3) show ?case by simp
next
  case (Cons x n)
  then have "x \<noteq> 92" "IS_ALPHA_NUMERIC_PUNCT x" using alnum_special [of x] alnum_punct by auto
  with Cons show ?case by (cases n) auto
qed

lemma expand_plain:
  "\<forall>c \<in> set v. c \<notin> {0, 34, 36, 39, 92, 96} \<Longrightarrow> expand cf sec (v @ 0 # rest) = Some (Some v)"
proof (induction v)
  case Nil
  then show ?case by (simp add: expand.simps [of cf sec "0 # rest"] str_copy_step_def)
next
  case (Cons c v)
  then show ?case by (simp add: expand.simps [of cf sec "c # v @ 0 # rest"] str_copy_step_def)
qed

lemma trim_ws_plain:
  assumes "v \<noteq> [] \<longrightarrow> \<not> IS_WS (last v)"
  shows "trim_ws (n @ 0 # v @ 0 # rest) (length n + 1) (length n + length v) = Some (length n + length v)"
proof -
  have nth: "(n @ 0 # v @ 0 # rest) ! (length n + length v) = (if v = [] then 0 else last v)"
    by (cases v rule: rev_cases) (simp_all add: nth_append)
  show ?thesis using assms nth by (cases "length n + length v") (auto split: if_splits)
qed

section \<open>Success\<close>

text \<open>An allocator that serves every request below a bound.\<close>

definition mem_for :: "mallocf \<Rightarrow> nat \<Rightarrow> bool" where
  "mem_for m B \<longleftrightarrow> (\<forall>k < B. OPENSSL_malloc m k \<noteq> None)"

lemma mem_forD: "mem_for m B \<Longrightarrow> k < B \<Longrightarrow> \<exists>b. OPENSSL_malloc m k = Some b"
  by (auto simp: mem_for_def)

lemma strdup_succeeds: "mem_for m B \<Longrightarrow> length s + 1 < B \<Longrightarrow> B \<le> 2 ^ 32 \<Longrightarrow> OPENSSL_strdup m s = Some s"
  using mem_forD [of m B "length s + 1"] by (auto simp: OPENSSL_strdup_def size_add_exact)

lemma grow_succeeds:
  assumes "malloc_law m" and "bm_ok buf" and "0 < len" and "len < 2 ^ 31" and "mem_for m B" and "2 * len + 4 < B"
  obtains buf' where "BUF_MEM_grow m len buf = (len, buf')" "bm_ok buf'" "bm_length buf' = len"
    "bm_bytes buf' = take len (bm_bytes buf) @ replicate (len - bm_length buf) 0"
proof -
  have l63: "len < 2 ^ 63" using assms(4) by simp
  have "(len + 3) div 3 * 4 < B" using assms(6) by linarith
  from mem_forD [OF assms(5) this] obtain b where b: "OPENSSL_malloc m ((len + 3) div 3 * 4) = Some b" by blast
  from assms(1,2,3) l63 show thesis
  proof (cases rule: grow_cases)
    case fails
    then have False
      using b reserve_alloc_size [OF l63] assms(3)
      by (auto simp: BUF_MEM_grow_def BUF_MEM_reserve_def Let_def OPENSSL_realloc_def split: if_splits)
    then show thesis ..
  next
    case (grows buf')
    then show thesis by (rule that)
  qed
qed

lemma lh_insert_succeeds: "OPENSSL_malloc m 24 \<noteq> None \<Longrightarrow> snd (snd (lh_insert m hash cmp lh d))"
  by (auto simp: lh_insert_def split: option.splits prod.splits)

lemma push_succeeds:
  assumes m: "malloc_law m" and wf: "sk_wf s" and mem: "mem_for m B" and B: "16 * (sk_nr s + 1) < B" "B \<le> 2 ^ 32"
  obtains s' where "sk_push m (Some s) p = (Some s', Suc (sk_nr s))" "sk_wf s'" "sk_elems s' = sk_elems s @ [p]"
proof (cases rule: push_cases [OF m wf, of p, case_names full pushed])
  case full
  have "sk_grow m s \<noteq> None"
  proof (cases "sk_num_alloc s \<le> sk_nr s + 1")
    case True
    have "16 * sk_num_alloc s \<le> 16 * (sk_nr s + 1)" by (rule mult_le_mono2 [OF True])
    then have "16 * sk_num_alloc s < B" using B(1) by (rule le_less_trans)
    from mem_forD [OF mem this] have "OPENSSL_malloc m (16 * sk_num_alloc s) \<noteq> None" by auto
    moreover have "size_mul (2 * sk_num_alloc s) 8 = 16 * sk_num_alloc s"
      using True B by (subst size_mul_exact) auto
    ultimately show ?thesis using sk_grow_eq [OF wf True, of m] by (simp add: realloc_ptrs_def split: option.splits)
  next
    case False
    with sk_grow_room [OF wf, of m] show ?thesis by simp
  qed
  with full show thesis by (auto simp: sk_push_def sk_num_def sk_insert_def Let_def)
next
  case (pushed s')
  then show thesis by (rule that)
qed

lemma add_string_succeeds:
  assumes m: "malloc_law m" and ok: "conf_ok cf" and sec: "get_section cf s = Some sv"
    and mem: "mem_for m B" "B \<le> 2 ^ 32" "24 < B" "length s + 1 < B" "16 * (j + 1) < B"
    and nr: "\<forall>x \<in> set (conf_stacks cf). sk_nr x \<le> j"
  obtains cf' where "add_string m cf sv v = Some (cf', True)" "\<forall>x \<in> set (conf_stacks cf'). sk_nr x \<le> Suc j"
proof -
  let ?v = "v\<lparr>cv_section := s\<rparr>"
  have mp: "lh_map conf_key (conf_table cf) (s, None) = Some sv" using sec get_section_eq [OF ok] by simp
  then have s: "cv_section sv = s" using conf_map_key [OF ok] by (auto simp: conf_key_def)
  obtain k where k: "k < length (conf_stacks cf)" "cv_value sv = StackAt k" using conf_okD(3) [OF ok mp] by auto
  have wfk: "sk_wf (conf_stacks cf ! k)" by (rule conf_okD(2) [OF ok k(1)])
  have nrk: "sk_nr (conf_stacks cf ! k) \<le> j" using nr k(1) by simp
  then have "16 * (sk_nr (conf_stacks cf ! k) + 1) < B" using mem(5) by simp
  then obtain sk1 where push: "sk_push m (Some (conf_stacks cf ! k)) (Some ?v) = (Some sk1, Suc (sk_nr (conf_stacks cf ! k)))"
    and sk1: "sk_wf sk1" "sk_elems sk1 = sk_elems (conf_stacks cf ! k) @ [Some ?v]"
    using push_succeeds [OF m wfk mem(1) _ mem(2)] by metis
  have nr1: "sk_nr sk1 \<le> Suc j"
    using length_sk_elems [OF sk1(1)] length_sk_elems [OF wfk] nrk by (simp add: sk1(2))
  obtain tab old where ins: "lh_insert m conf_value_hash conf_value_cmp (conf_table cf) ?v = (tab, old, True)"
    using lh_insert_succeeds [of m conf_value_hash conf_value_cmp "conf_table cf" ?v] mem_forD [OF mem(1,3)]
    by (cases "lh_insert m conf_value_hash conf_value_cmp (conf_table cf) ?v") auto
  have "\<exists>sk2. sk_nr sk2 \<le> Suc j \<and>
      add_string m cf sv v = Some (\<lparr>conf_table = tab, conf_stacks = (conf_stacks cf)[k := sk2]\<rparr>, True)"
  proof (cases old)
    case None
    with nr1 push ins show ?thesis
      by (auto simp: add_string_def k s strdup_succeeds [OF mem(1,4,2)] Let_def)
  next
    case (Some w)
    obtain sk2 q where d: "sk_delete_ptr (Some sk1) (Some w) = (Some sk2, q)" "sk_wf sk2"
      "sk_elems sk2 = remove1 (Some w) (sk_elems sk1)"
      by (rule sk_delete_ptr_elems [OF sk1(1), of "Some w"]) blast
    have "sk_nr sk2 \<le> Suc j"
      using length_sk_elems [OF d(2)] length_sk_elems [OF sk1(1)] nr1
      by (auto simp: d(3) length_remove1 split: if_splits)
    with d Some push ins show ?thesis
      by (auto simp: add_string_def k s strdup_succeeds [OF mem(1,4,2)] Let_def)
  qed
  then obtain sk2 where sk2: "sk_nr sk2 \<le> Suc j"
    and add: "add_string m cf sv v = Some (\<lparr>conf_table = tab, conf_stacks = (conf_stacks cf)[k := sk2]\<rparr>, True)" by blast
  have "sk_nr x \<le> Suc j" if "x \<in> set ((conf_stacks cf)[k := sk2])" for x
    using that set_update_subset_insert [of "conf_stacks cf" k sk2] sk2 nr by (auto intro: le_SucI)
  with add show thesis by (intro that) auto
qed

section \<open>One line\<close>

lemma str_copy_plain:
  assumes m: "malloc_law m" and ok: "conf_ok cf" and mem: "mem_for m B" "2 ^ 11 < B"
    and v: "plain v" "length v < 1000"
  obtains d where "str_copy m cf (Some s) (v @ 0 # rest) = Some (Some d)" "c_str d = v"
proof -
  have v0: "0 \<notin> set v" "36 \<notin> set v" using v(1) by (auto simp: plain_def)
  have cs: "c_str (v @ 0 # rest) = v" by (simp add: c_str_append v0)
  have b: "bm_ok \<lparr>bm_length = 0, bm_data = [], bm_max = 0\<rparr>" by (simp add: bm_ok_def)
  have l: "0 < length v + 1" "length v + 1 < 2 ^ 31" "2 * (length v + 1) + 4 < B" using v(2) mem(2) by simp_all
  obtain b' where g: "BUF_MEM_grow m (length v + 1) \<lparr>bm_length = 0, bm_data = [], bm_max = 0\<rparr> = (length v + 1, b')"
    using grow_succeeds [OF m b l(1,2) mem(1) l(3)] by blast
  have new: "BUF_MEM_new m \<noteq> None" using mem_forD [OF mem(1), of 24] mem(2) by (auto simp: BUF_MEM_new_def)
  have "expand cf (Some s) (v @ 0 # rest) = Some (Some v)"
    using v(1) by (intro expand_plain) (auto simp: plain_def)
  moreover have "0 \<in> set (v @ 0 # rest)" "length (c_str (v @ 0 # rest)) < 2 ^ 31" using v(2) by (simp_all add: cs)
  ultimately show thesis
    using str_copy_correct [OF m ok, of "v @ 0 # rest" s] new g v0 that by (auto simp: cs split: option.splits)
qed

lemma handle_plain_line:
  assumes m: "malloc_law m" and ok: "conf_ok cf" and sec: "get_section cf s = Some sv"
    and mem: "mem_for m B" "B \<le> 2 ^ 32" "2 ^ 11 < B" "length s + 1 < B" "16 * (j + 1) < B"
    and nr: "\<forall>x \<in> set (conf_stacks cf). sk_nr x \<le> j"
    and n: "name_ok n" "length n < 1000" and v: "plain v" "length v < 1000"
  obtains cf' where "handle_line m cf s sv (assignment (n, v) @ 0 # rest) = Some (cf', Some (s, sv))"
    and "conf_ok cf'" and "\<forall>x \<in> set (conf_stacks cf'). sk_nr x \<le> Suc j"
    and "get_section cf' = get_section cf"
    and "\<And>s' n'. conf_string cf' s' n' = (if s' = s \<and> n' = n then Some v else conf_string cf s' n')"
proof -
  let ?d = "n @ 61 # v @ 0 # rest" and ?d1 = "n @ 0 # v @ 0 # rest"
  have an: "\<forall>c \<in> set n. IS_ALPHA_NUMERIC c" and ne: "n \<noteq> []" using n(1) by (auto simp: name_ok_def)
  have n0: "0 \<notin> set n" using an alnum_special by blast
  have v0: "0 \<notin> set v" "36 \<notin> set v" using v(1) by (auto simp: plain_def)
  have cl: "clear_comments (assignment (n, v) @ 0 # rest) = Some ?d"
  proof -
    have "\<forall>c \<in> set (assignment (n, v)). c \<notin> {0, 34, 35, 39, 92, 96}"
      using an v(1) alnum_special by (auto simp: assignment_def plain_def)
    from clear_comments_plain [OF this] show ?thesis by (simp add: assignment_def)
  qed
  obtain x n' where xn: "n = x # n'" using ne by (cases n) auto
  have x: "x \<notin> {0, 9, 10, 13, 32, 91}" using an alnum_special [of x] by (auto simp: xn)
  have ws: "eat_ws ?d = Some 0" using x by (simp add: xn)
  have "?d = n @ 61 # (v @ 0 # rest)" by simp
  have ea: "eat_alpha_numeric ?d = Some (length n)"
  proof (cases v)
    case Nil
    show ?thesis using eat_alpha_numeric_name [OF an, of 61 0 rest]
      by (simp add: Nil IS_ALPHA_NUMERIC_PUNCT_def KEYTYPES_eq ctype_def)
  next
    case (Cons c v')
    show ?thesis using eat_alpha_numeric_name [OF an, of 61 c "v' @ 0 # rest"]
      by (simp add: Cons IS_ALPHA_NUMERIC_PUNCT_def KEYTYPES_eq ctype_def)
  qed
  have wsv: "eat_ws (v @ 0 # rest) = Some 0" using v(1) by (cases v) (auto simp: plain_def)
  have sl: "strlen (v @ 0 # rest) = Some (length v)" using strlen_cstring [OF v0(1), of rest] by (simp add: cstring_def)
  have tw: "trim_ws ?d1 (length n + 1) (length n + length v) = Some (length n + length v)"
    using v(1) by (intro trim_ws_plain) (simp add: plain_def)
  have d2: "?d1[length n + length v + 1 := 0] = ?d1"
    by (simp add: list_update_append nth_append flip: list_update_id)
  have hd: "?d ! 0 = x" by (simp add: xn)
  have eq: "?d ! length n = 61" by (simp add: nth_append)
  obtain d where d: "str_copy m cf (Some s) (v @ 0 # rest) = Some (Some d)" "c_str d = v"
    by (rule str_copy_plain [OF m ok mem(1,3) v])
  have dn: "OPENSSL_strdup m n = Some n" using n(2) mem(3) by (intro strdup_succeeds [OF mem(1) _ mem(2)]) simp
  let ?v = "\<lparr>cv_section = [], cv_name = Some n, cv_value = Chars v\<rparr>"
  have new: "CONF_VALUE_new m = Some \<lparr>cv_section = [], cv_name = None, cv_value = NoValue\<rparr>"
    using mem_forD [OF mem(1), of 24] mem(3) by (auto simp: CONF_VALUE_new_def)
  have B24: "24 < B" using mem(3) by simp
  obtain cf' where add: "add_string m cf sv ?v = Some (cf', True)"
    and nr': "\<forall>x \<in> set (conf_stacks cf'). sk_nr x \<le> Suc j"
    by (rule add_string_succeeds [OF m ok sec mem(1,2) B24 mem(4,5) nr])
  have "length v < 2 ^ 62" using v(2) by simp
  note a = add_string_ok [OF m ok sec _ _ v0(1) this add, of n, simplified]
  have "handle_value m cf s sv ?d None 0 (length n) = Some (cf', Some (s, sv))"
    using wsv sl tw d2 eq d dn new add n0
    by (simp add: handle_value_def list_update_append c_str_append)
  then have "handle_assignment m cf s sv ?d 0 = Some (cf', Some (s, sv))"
    using ea eq by (simp add: handle_assignment_def)
  then have "handle_line m cf s sv (assignment (n, v) @ 0 # rest) = Some (cf', Some (s, sv))"
    using cl ws hd x by (simp add: handle_line_def)
  then show thesis using a nr' by (intro that [of cf']) (auto simp: fun_eq_iff)
qed

lemma new_section_succeeds:
  assumes mem: "mem_for m B" "B \<le> 2 ^ 32" "2 ^ 11 < B" "length s + 1 < B"
    and nr: "\<forall>x \<in> set (conf_stacks cf). sk_nr x = 0"
  obtains cf' sv where "NCONF_new_section m cf s = (cf', Some sv)" "\<forall>x \<in> set (conf_stacks cf'). sk_nr x = 0"
proof -
  have k: "24 < B" "40 < B" "32 < B" using mem(3) by simp_all
  obtain b c d where b: "OPENSSL_malloc m 24 = Some b" and c: "OPENSSL_malloc m 40 = Some c"
    and d: "OPENSSL_malloc m 32 = Some d"
    using mem_forD [OF mem(1) k(1)] mem_forD [OF mem(1) k(2)] mem_forD [OF mem(1) k(3)] by blast
  then obtain sk :: "(conf_value, unit) stack" where sk: "sk_new_null m = Some sk" "sk_nr sk = 0"
    by (simp add: sk_new_null_def sk_new_def kMinSize_def size_mul_def)
  let ?v = "\<lparr>cv_section = s, cv_name = None, cv_value = StackAt (length (conf_stacks cf))\<rparr>"
  obtain tab old where ins: "lh_insert m conf_value_hash conf_value_cmp (conf_table cf) ?v = (tab, old, True)"
    using lh_insert_succeeds [of m conf_value_hash conf_value_cmp "conf_table cf" ?v] b
    by (cases "lh_insert m conf_value_hash conf_value_cmp (conf_table cf) ?v") auto
  have "NCONF_new_section m cf s = (\<lparr>conf_table = tab, conf_stacks = conf_stacks cf @ [sk]\<rparr>, Some ?v)"
    using sk(1) b ins strdup_succeeds [OF mem(1,4,2)]
    by (simp add: NCONF_new_section_def CONF_VALUE_new_def)
  then show thesis by (rule that) (use nr sk(2) in auto)
qed

section \<open>A file\<close>

lemma strip_eol_stop: "i = 0 \<or> (p ! (i - 1) \<noteq> 13 \<and> p ! (i - 1) \<noteq> 10) \<Longrightarrow> strip_eol p i = i"
  by (cases i) auto

lemma buf_putD:
  assumes "buf_put buf to xs = Some buf'"
  shows "bm_data buf' = take to (bm_data buf) @ xs @ drop (to + length xs) (bm_data buf)"
    and "to + length xs \<le> length (bm_data buf)" and "bm_length buf' = bm_length buf" and "bm_max buf' = bm_max buf"
  using assms by (auto simp: buf_put_def split: if_splits)

text \<open>The chunk of a whole line, with its newline, into an empty buffer.\<close>

lemma read_line:
  assumes m: "malloc_law m" and buff: "bm_ok (ld_buff ld)" and mem: "mem_for m B" "2 ^ 11 < B"
    and st: "ld_bufnum ld = 0" "\<not> ld_again ld"
    and line: "0 \<notin> set line" "line \<noteq> []" "last line \<notin> {10, 13, 92}" "length line < 510"
  obtains buff' rest where
    "read_chunk m (line @ [10]) ld = Some (Some (Some (ld\<lparr>ld_buff := buff', ld_bufnum := length line,
       ld_again := False, ld_eline := ld_eline ld + 1\<rparr>)))"
    "bm_ok buff'" "bm_data buff' = line @ 0 # rest"
proof -
  have l: "0 < (512 :: nat)" "512 < (2 :: nat) ^ 31" "2 * 512 + 4 < B" using mem(2) by simp_all
  obtain b1 where g: "BUF_MEM_grow m 512 (ld_buff ld) = (512, b1)" "bm_ok b1" "bm_length b1 = 512"
    using grow_succeeds [OF m buff l(1,2) mem(1) l(3)] by blast
  have len: "512 \<le> length (bm_data b1)" using g(2,3) by (simp add: bm_ok_def)
  let ?c = "line @ [10, 0]"
  have "0 + length ?c \<le> length (bm_data b1)" using len line(4) by simp
  from buf_put_eq [OF this] obtain b2 where p2: "buf_put b1 0 ?c = Some b2" by blast
  note b2 = buf_putD [OF p2]
  have "511 + length [0 :: byte] \<le> length (bm_data b2)" using len line(4) by (simp add: b2(1))
  from buf_put_eq [OF this] obtain b3 where p3: "buf_put b2 511 [0] = Some b3" by blast
  note b3 = buf_putD [OF p3]
  have "bm_data b3 = ?c @ (drop (length ?c) (take 511 (bm_data b2)) @ 0 # drop 512 (bm_data b2))"
  proof -
    have "take (length ?c) (take 511 (bm_data b2)) = ?c" using line(4) by (simp add: b2(1))
    then have "take 511 (bm_data b2) = ?c @ drop (length ?c) (take 511 (bm_data b2))"
      by (metis append_take_drop_id)
    then show ?thesis unfolding b3(1) by simp
  qed
  then obtain rest where d3: "bm_data b3 = line @ 10 # 0 # rest" by (metis append.assoc append_Cons append_Nil)
  have cs: "c_str (bm_data b3) = line @ [10]" using line(1) by (simp add: d3 c_str_append)
  have lst: "line ! (length line - 1) = last line" using line(2) by (simp add: last_conv_nth)
  have se: "strip_eol (bm_data b3) (Suc (length line)) = length line"
  proof -
    have "strip_eol (bm_data b3) (length line) = length line"
      using line(2,3) lst by (intro strip_eol_stop) (auto simp: d3 nth_append)
    then show ?thesis by (simp add: d3 nth_append)
  qed
  let ?b = "b3\<lparr>bm_data := line @ 0 # 0 # rest\<rparr>"
  have upd: "(bm_data b3)[length line := 0] = line @ 0 # 0 # rest" by (simp add: d3 list_update_append)
  have "read_chunk m (line @ [10]) ld = Some (Some (Some (ld\<lparr>ld_buff := ?b, ld_bufnum := length line,
       ld_again := False, ld_eline := ld_eline ld + 1\<rparr>)))"
    using g(1) p2 p3 st line lst
    by (simp add: read_chunk_def CONFBUFSIZE_def cs se upd nth_append Let_def del: strip_eol.simps)
  moreover have "bm_ok ?b"
  proof -
    have "length (bm_data b3) = length (bm_data b1)"
      using len line(4) by (simp add: b3(1) b2(1))
    moreover have "length (line @ 0 # 0 # rest) = length (bm_data b3)" by (simp add: d3)
    ultimately show ?thesis using g(2) by (simp add: bm_ok_def b3(3,4) b2(3,4))
  qed
  ultimately show thesis by (intro that [of ?b "0 # rest"]) simp_all
qed

lemma read_end:
  assumes m: "malloc_law m" and buff: "bm_ok (ld_buff ld)" and mem: "mem_for m B" "2 ^ 11 < B"
    and st: "ld_bufnum ld = 0" "\<not> ld_again ld"
  shows "read_chunk m [] ld = Some (Some None)"
proof -
  have l: "0 < (512 :: nat)" "512 < (2 :: nat) ^ 31" "2 * 512 + 4 < B" using mem(2) by simp_all
  obtain b1 where g: "BUF_MEM_grow m 512 (ld_buff ld) = (512, b1)" "bm_ok b1" "bm_length b1 = 512"
    using grow_succeeds [OF m buff l(1,2) mem(1) l(3)] by blast
  have len: "512 \<le> length (bm_data b1)" using g(2,3) by (simp add: bm_ok_def)
  then have "0 + length [0 :: byte] \<le> length (bm_data b1)" by simp
  from buf_put_eq [OF this] obtain b2 where p2: "buf_put b1 0 [0] = Some b2" by blast
  note b2 = buf_putD [OF p2]
  have "511 + length [0 :: byte] \<le> length (bm_data b2)" using len by (simp add: b2(1))
  from buf_put_eq [OF this] obtain b3 where p3: "buf_put b2 511 [0] = Some b3" by blast
  note b3 = buf_putD [OF p3]
  obtain r where "bm_data b3 = 0 # r" by (simp add: b3(1) b2(1))
  then have "c_str (bm_data b3) = []" by simp
  then show ?thesis using g(1) p2 p3 st by (simp add: read_chunk_def CONFBUFSIZE_def)
qed

definition file_ok :: "(byte list \<times> byte list) list \<Rightarrow> bool" where
  "file_ok kvs \<longleftrightarrow> (\<forall>(n, v) \<in> set kvs. name_ok n \<and> plain v \<and> length n + length v < 509)"

definition file_of :: "(byte list \<times> byte list) list \<Rightarrow> byte list list" where
  "file_of kvs = map (\<lambda>kv. assignment kv @ [10]) kvs"

lemma load_plain:
  assumes m: "malloc_law m" and mem: "mem_for m B" "B \<le> 2 ^ 32" "2 ^ 11 < B" "length s + 1 < B"
  shows "file_ok kvs \<Longrightarrow> 16 * (j + length kvs) < B \<Longrightarrow> conf_ok (ld_conf ld) \<Longrightarrow>
    get_section (ld_conf ld) s = Some (ld_sv ld) \<Longrightarrow> ld_section ld = s \<Longrightarrow>
    \<forall>x \<in> set (conf_stacks (ld_conf ld)). sk_nr x \<le> j \<Longrightarrow> bm_ok (ld_buff ld) \<Longrightarrow>
    ld_bufnum ld = 0 \<Longrightarrow> \<not> ld_again ld \<Longrightarrow>
    \<exists>cf. load_loop m (file_of kvs) ld = Some (cf, True, ld_eline ld + length kvs) \<and> conf_ok cf \<and>
      (\<forall>s' n'. conf_string cf s' n' =
        (if s' = s \<and> n' \<in> fst ` set kvs then map_of (rev kvs) n' else conf_string (ld_conf ld) s' n'))"
proof (induction kvs arbitrary: ld j)
  case Nil
  then show ?case
    using read_end [OF m Nil.prems(7) mem(1,3) Nil.prems(8,9)]
    by (simp add: load_loop.simps [of m "[]"] file_of_def)
next
  case (Cons kv kvs)
  obtain n v where kv: "kv = (n, v)" by (cases kv)
  have n: "name_ok n" "plain v" "length n + length v < 509" using Cons.prems(1) by (auto simp: file_ok_def kv)
  let ?line = "assignment (n, v)"
  have "0 \<notin> set ?line" "?line \<noteq> []" "length ?line < 510"
    using n alnum_special by (auto simp: assignment_def name_ok_def plain_def)
  moreover have "last ?line \<notin> {10, 13, 92}"
    using n(2) by (cases v rule: rev_cases) (auto simp: assignment_def plain_def)
  ultimately obtain buff' rest where
    r: "read_chunk m (?line @ [10]) ld = Some (Some (Some (ld\<lparr>ld_buff := buff', ld_bufnum := length ?line,
       ld_again := False, ld_eline := ld_eline ld + 1\<rparr>)))" "bm_ok buff'" "bm_data buff' = ?line @ 0 # rest"
    using read_line [OF m Cons.prems(7) mem(1,3) Cons.prems(8,9), of ?line] by metis
  have j: "16 * (j + 1) < B" using Cons.prems(2) by simp
  have lens: "length n < 1000" "length v < 1000" using n(3) by simp_all
  obtain cf' where h: "handle_line m (ld_conf ld) s (ld_sv ld) (?line @ 0 # rest) = Some (cf', Some (s, ld_sv ld))"
    and ok: "conf_ok cf'" and nr: "\<forall>x \<in> set (conf_stacks cf'). sk_nr x \<le> Suc j"
    and sec: "get_section cf' = get_section (ld_conf ld)"
    and str: "\<And>s' n'. conf_string cf' s' n' = (if s' = s \<and> n' = n then Some v else conf_string (ld_conf ld) s' n')"
    by (rule handle_plain_line [OF m Cons.prems(3,4) mem j Cons.prems(6) n(1) lens(1) n(2) lens(2), of rest]) blast
  let ?ld = "ld\<lparr>ld_buff := buff', ld_again := False, ld_eline := ld_eline ld + 1, ld_conf := cf', ld_section := s,
      ld_sv := ld_sv ld, ld_bufnum := 0\<rparr>"
  have fo: "file_of (kv # kvs) = (?line @ [10]) # file_of kvs" by (simp add: file_of_def kv)
  have step: "load_loop m (file_of (kv # kvs)) ld = load_loop m (file_of kvs) ?ld"
    using r(1,3) h Cons.prems(5)
    unfolding fo by (simp add: load_loop.simps [of m "(?line @ [10]) # file_of kvs"])
  have "\<exists>cf. load_loop m (file_of kvs) ?ld = Some (cf, True, ld_eline ?ld + length kvs) \<and> conf_ok cf \<and>
      (\<forall>s' n'. conf_string cf s' n' =
        (if s' = s \<and> n' \<in> fst ` set kvs then map_of (rev kvs) n' else conf_string (ld_conf ?ld) s' n'))"
  proof (rule Cons.IH [of "Suc j"])
    show "file_ok kvs" using Cons.prems(1) by (simp add: file_ok_def)
    show "16 * (Suc j + length kvs) < B" using Cons.prems(2) by simp
  qed (use ok sec nr r(2) Cons.prems(4,5) in simp_all)
  then obtain cf where cf: "load_loop m (file_of kvs) ?ld = Some (cf, True, ld_eline ld + 1 + length kvs)" "conf_ok cf"
    "\<And>s' n'. conf_string cf s' n' =
        (if s' = s \<and> n' \<in> fst ` set kvs then map_of (rev kvs) n' else conf_string cf' s' n')" by auto
  have "conf_string cf s' n' = (if s' = s \<and> n' \<in> fst ` set (kv # kvs) then map_of (rev (kv # kvs)) n'
      else conf_string (ld_conf ld) s' n')" for s' n'
  proof (cases "n' \<in> fst ` set kvs")
    case True
    then have "map_of (rev kvs) n' \<noteq> None" by (simp add: map_of_eq_None_iff)
    with True cf(3) str show ?thesis by (auto simp: kv map_add_def split: option.splits)
  next
    case False
    then have "map_of (rev kvs) n' = None" by (simp add: map_of_eq_None_iff)
    with False cf(3) str show ?thesis by (auto simp: kv map_add_def)
  qed
  with step cf(1,2) show ?case by auto
qed

section \<open>Properties\<close>

text \<open>C37: loading a file of lines \<open>name=value\<close> into a fresh configuration succeeds, reads every line
  and makes each name's last value what a look-up in the default section returns; names that are
  not in the file have no value. Quotes, escapes, comments and variables do not occur in such a
  file, and the allocator serves every request below a bound that the file's length decides.\<close>

theorem NCONF_load_roundtrip:
  assumes "malloc_law m" and "NCONF_new m True = Some cf0" and "mem_for m (2 ^ 21)"
    and "file_ok kvs" and "length kvs < 2 ^ 16"
  shows "\<exists>cf. NCONF_load_bio m cf0 (file_of kvs) = Some (cf, True, length kvs) \<and>
    (\<forall>n. NCONF_get_string cf (Some default_name) n = Some (map_of (rev kvs) n))"
proof -
  note new = NCONF_new_ok [OF assms(2)]
  have B: "(2 :: nat) ^ 21 \<le> 2 ^ 32" "(2 :: nat) ^ 11 < 2 ^ 21" "length default_name + 1 < 2 ^ 21"
    by (simp_all add: default_name_def)
  have dn: "OPENSSL_strdup m default_name = Some default_name" by (rule strdup_succeeds [OF assms(3) B(3,1)])
  have buff: "BUF_MEM_new m = Some \<lparr>bm_length = 0, bm_data = [], bm_max = 0\<rparr>"
    using mem_forD [OF assms(3), of 24] by (auto simp: BUF_MEM_new_def)
  have "conf_stacks cf0 = []" using assms(2) by (auto simp: NCONF_new_def split: option.splits if_splits)
  then have nr0: "\<forall>x \<in> set (conf_stacks cf0). sk_nr x = 0" by simp
  obtain cf1 sv where sec: "NCONF_new_section m cf0 default_name = (cf1, Some sv)"
    and nr: "\<forall>x \<in> set (conf_stacks cf1). sk_nr x = 0"
    by (rule new_section_succeeds [OF assms(3) B(1,2,3) nr0])
  note s = NCONF_new_section_ok [OF conjunct1 [OF new] sec]
  let ?ld = "\<lparr>ld_conf = cf1, ld_section = default_name, ld_sv = sv,
      ld_buff = \<lparr>bm_length = 0, bm_data = [], bm_max = 0\<rparr>, ld_bufnum = 0, ld_again = False, ld_eline = 0\<rparr>"
  have "\<exists>cf. load_loop m (file_of kvs) ?ld = Some (cf, True, ld_eline ?ld + length kvs) \<and> conf_ok cf \<and>
      (\<forall>s' n'. conf_string cf s' n' =
        (if s' = default_name \<and> n' \<in> fst ` set kvs then map_of (rev kvs) n' else conf_string (ld_conf ?ld) s' n'))"
    using s nr assms(5) by (intro load_plain [OF assms(1,3) B assms(4), of 0]) (simp_all add: bm_ok_def)
  then obtain cf where cf: "load_loop m (file_of kvs) ?ld = Some (cf, True, length kvs)" "conf_ok cf"
    "\<And>n. conf_string cf default_name n = (if n \<in> fst ` set kvs then map_of (rev kvs) n else conf_string cf1 default_name n)"
    by auto
  have "NCONF_load_bio m cf0 (file_of kvs) = Some (cf, True, length kvs)"
    by (simp add: NCONF_load_bio_def def_load_bio_def buff dn sec cf(1))
  moreover have "NCONF_get_string cf (Some default_name) n = Some (map_of (rev kvs) n)" for n
  proof (cases "n \<in> fst ` set kvs")
    case True
    then show ?thesis by (simp add: NCONF_get_string_eq [OF cf(2)] cf(3))
  next
    case False
    then have "map_of (rev kvs) n = None" by (simp add: map_of_eq_None_iff)
    with False new s(2) show ?thesis by (simp add: NCONF_get_string_eq [OF cf(2)] cf(3))
  qed
  ultimately show ?thesis by blast
qed

definition ample_malloc :: mallocf where
  "ample_malloc n = (if n < 2 ^ 22 then Some (replicate n 0) else None)"

theorem NCONF_load_roundtrip_witness:
  "\<exists>cf0 cf. NCONF_new ample_malloc True = Some cf0 \<and>
     NCONF_load_bio ample_malloc cf0 [[97, 61, 49, 10], [98, 61, 10], [97, 61, 50, 32, 51, 10]] = Some (cf, True, 3) \<and>
     NCONF_get_string cf (Some default_name) [97] = Some (Some [50, 32, 51])"
proof -
  have law: "malloc_law ample_malloc" by (simp add: malloc_law_def ample_malloc_def)
  have mem: "mem_for ample_malloc (2 ^ 21)"
    by (simp add: mem_for_def OPENSSL_malloc_def ample_malloc_def size_add_exact)
  have "24 < (2 :: nat) ^ 21" "8 < (2 :: nat) ^ 21" "48 < (2 :: nat) ^ 21" "128 < (2 :: nat) ^ 21" by simp_all
  then obtain cf0 where new: "NCONF_new ample_malloc True = Some cf0"
    using mem_forD [OF mem, of 8] mem_forD [OF mem, of 48] mem_forD [OF mem, of 128]
    by (auto simp: NCONF_new_def lh_new_def kMinNumBuckets_def size_mul_def)
  let ?kvs = "[([97], [49]), ([98], []), ([97], [50, 32, 51])] :: (byte list \<times> byte list) list"
  have ok: "file_ok ?kvs" by (simp add: file_ok_def name_ok_def plain_def IS_ALPHA_NUMERIC_iff)
  have len: "length ?kvs < 2 ^ 16" by simp
  from NCONF_load_roundtrip [OF law new mem ok len] obtain cf where
    cf: "NCONF_load_bio ample_malloc cf0 (file_of ?kvs) = Some (cf, True, length ?kvs)"
    "\<And>n. NCONF_get_string cf (Some default_name) n = Some (map_of (rev ?kvs) n)" by blast
  with new show ?thesis by (intro exI [of _ cf0] exI [of _ cf]) (simp add: file_of_def assignment_def)
qed

text \<open>C38: copying a value with expansion is memory safe: whatever the string and the configuration,
  with a section to look names up in, no turn of \<open>str_copy\<close> reads behind the string's NUL, writes
  outside the buffer, however often variables make it grow, or meets a null pointer; and when it
  succeeds the result is the expansion that the turns spell out.\<close>

theorem str_copy_expands:
  assumes "malloc_law m" and "conf_ok cf" and "0 \<in> set from" and "length (c_str from) < 2 ^ 31"
  shows "case str_copy m cf (Some sec) from of
      None \<Rightarrow> False
    | Some None \<Rightarrow> True
    | Some (Some d) \<Rightarrow> expand cf (Some sec) from = Some (Some (c_str d))"
  using str_copy_correct [OF assms, of sec] by (auto split: option.splits)

text \<open>A variable without a value makes the copy fail, and a string without one is copied.\<close>

theorem str_copy_expands_witness:
  "case str_copy small_malloc default_conf (Some default_name) [97, 92, 110, 36, 120, 0] of
      None \<Rightarrow> False
    | Some None \<Rightarrow> True
    | Some (Some d) \<Rightarrow> expand default_conf (Some default_name) [97, 92, 110, 36, 120, 0] = Some (Some (c_str d))"
  by (rule str_copy_expands [OF small_malloc_law default_conf_ok]) simp_all



end
