(* ===== verification/PbStream.thy ===== *)
theory PbStream
  imports Prelude
begin

text \<open>
  The streams of the protocol buffer library nanopb (\<open>pb_encode.c\<close>, \<open>pb_decode.c\<close>, \<open>pb.h\<close>) as the
  app builds it: with error messages, with 64-bit integers and with \<open>PB_FIELD_32BIT\<close>. A stream is
  a callback with its state and a limit; the pair of callback and state is one value here, with a
  constructor for the buffer functions of the library, one for a function of the user, and one for
  the sizing stream, whose callback is \<open>NULL\<close>. A user's callback sees and changes its state only.
\<close>

section \<open>Output streams\<close>

datatype 's os_target =
    Sizing
  | Buf_write "byte list" nat
  | User_write "'s \<Rightarrow> byte list \<Rightarrow> bool \<times> 's" 's

record 's pb_ostream =
  os_target :: "'s os_target"
  os_max_size :: nat
  bytes_written :: nat
  os_errmsg :: "string option"

text \<open>\<open>PB_RETURN_ERROR\<close> keeps the first message.\<close>

definition os_error :: "string \<Rightarrow> ('s pb_ostream, 'a) cop" where
  "os_error msg stream =
     (None, stream\<lparr>os_errmsg := (case os_errmsg stream of None \<Rightarrow> Some msg | Some e \<Rightarrow> Some e)\<rparr>)"

text \<open>The memory behind \<open>dest\<close>, with \<open>bs\<close> stored at \<open>pos\<close>: it would grow if the store went past its end.\<close>

definition buf_write :: "byte list \<Rightarrow> nat \<Rightarrow> byte list \<Rightarrow> byte list" where
  "buf_write data pos bs = take pos data @ bs @ drop (pos + length bs) data"

definition pb_ostream_from_buffer :: "byte list \<Rightarrow> nat \<Rightarrow> 's pb_ostream" where
  "pb_ostream_from_buffer buf bufsize =
     \<lparr>os_target = Buf_write buf 0, os_max_size = bufsize, bytes_written = 0, os_errmsg = None\<rparr>"

definition PB_OSTREAM_SIZING :: "'s pb_ostream" where
  "PB_OSTREAM_SIZING = \<lparr>os_target = Sizing, os_max_size = 0, bytes_written = 0, os_errmsg = None\<rparr>"

definition is_sizing :: "'s pb_ostream \<Rightarrow> bool" where
  "is_sizing stream \<longleftrightarrow> (case os_target stream of Sizing \<Rightarrow> True | _ \<Rightarrow> False)"

fun os_callback :: "'s os_target \<Rightarrow> byte list \<Rightarrow> bool \<times> 's os_target" where
  "os_callback Sizing bs = (False, Sizing)"
| "os_callback (Buf_write data pos) bs = (True, Buf_write (buf_write data pos bs) (pos + length bs))"
| "os_callback (User_write f s) bs = (case f s bs of (ok, s') \<Rightarrow> (ok, User_write f s'))"

definition pb_write :: "byte list \<Rightarrow> nat \<Rightarrow> ('s pb_ostream, unit) cop" where
  "pb_write buf count stream =
     (if count > 0 \<and> \<not> is_sizing stream then
        if size_add (bytes_written stream) count < bytes_written stream \<or>
           size_add (bytes_written stream) count > os_max_size stream
        then os_error ''stream full'' stream
        else
          (case os_callback (os_target stream) (take count buf) of
             (False, t) \<Rightarrow> os_error ''io error'' (stream\<lparr>os_target := t\<rparr>)
           | (True, t) \<Rightarrow>
               (Some (), stream\<lparr>os_target := t, bytes_written := size_add (bytes_written stream) count\<rparr>))
      else (Some (), stream\<lparr>bytes_written := size_add (bytes_written stream) count\<rparr>))"

section \<open>Integers on output streams\<close>

text \<open>The loop of \<open>pb_encode_varint\<close> that fills \<open>buffer\<close>.\<close>

function varint_buffer :: "u64 \<Rightarrow> byte list" where
  "varint_buffer value =
     (if value \<noteq> 0 then (ucast (value AND 0x7F) OR 0x80) # varint_buffer (drop_bit 7 value) else [])"
  by pat_completeness auto
termination
proof (relation "measure unat")
  fix v :: u64
  assume "v \<noteq> 0"
  then have "unat v > 0" by (simp add: unat_gt_0)
  then show "(drop_bit 7 v, v) \<in> measure unat" by (simp add: unat_drop_bit)
qed simp

declare varint_buffer.simps [simp del]

definition pb_encode_varint :: "u64 \<Rightarrow> ('s pb_ostream, unit) cop" where
  "pb_encode_varint value =
     (if value \<le> 0x7F then pb_write [ucast value] 1
      else
        (let buffer = varint_buffer value; i = length buffer;
             buffer' = buffer[i - 1 := buffer ! (i - 1) AND 0x7F]
         in pb_write buffer' i))"

definition pb_encode_svarint :: "u64 \<Rightarrow> ('s pb_ostream, unit) cop" where
  "pb_encode_svarint value =
     (let zigzagged = (if sint value < 0 then NOT (push_bit 1 value) else push_bit 1 value)
      in pb_encode_varint zigzagged)"

definition pb_encode_fixed32 :: "u32 \<Rightarrow> ('s pb_ostream, unit) cop" where
  "pb_encode_fixed32 val =
     pb_write [ucast (val AND 0xFF), ucast (drop_bit 8 val AND 0xFF),
       ucast (drop_bit 16 val AND 0xFF), ucast (drop_bit 24 val AND 0xFF)] 4"

definition pb_encode_fixed64 :: "u64 \<Rightarrow> ('s pb_ostream, unit) cop" where
  "pb_encode_fixed64 val =
     pb_write [ucast (val AND 0xFF), ucast (drop_bit 8 val AND 0xFF),
       ucast (drop_bit 16 val AND 0xFF), ucast (drop_bit 24 val AND 0xFF),
       ucast (drop_bit 32 val AND 0xFF), ucast (drop_bit 40 val AND 0xFF),
       ucast (drop_bit 48 val AND 0xFF), ucast (drop_bit 56 val AND 0xFF)] 8"

text \<open>Wire types are the three low bits of a tag, so all eight values occur on input.\<close>

abbreviation PB_WT_VARINT :: u32 where "PB_WT_VARINT \<equiv> 0"
abbreviation PB_WT_64BIT :: u32 where "PB_WT_64BIT \<equiv> 1"
abbreviation PB_WT_STRING :: u32 where "PB_WT_STRING \<equiv> 2"
abbreviation PB_WT_32BIT :: u32 where "PB_WT_32BIT \<equiv> 5"

definition pb_encode_tag :: "u32 \<Rightarrow> u32 \<Rightarrow> ('s pb_ostream, unit) cop" where
  "pb_encode_tag wiretype field_number =
     pb_encode_varint (push_bit 3 (ucast field_number) OR ucast wiretype)"

definition pb_encode_string :: "byte list \<Rightarrow> nat \<Rightarrow> ('s pb_ostream, unit) cop" where
  "pb_encode_string buffer len =
     op_then (pb_encode_varint (word_of_nat len)) (pb_write buffer len)"

section \<open>Input streams\<close>

datatype 's is_source =
    Buf_read "byte list" nat
  | User_read "'s \<Rightarrow> nat \<Rightarrow> bool \<times> byte list \<times> 's" 's

record 's pb_istream =
  is_source :: "'s is_source"
  bytes_left :: nat
  is_errmsg :: "string option"

definition is_error :: "string \<Rightarrow> ('s pb_istream, 'a) cop" where
  "is_error msg stream =
     (None, stream\<lparr>is_errmsg := (case is_errmsg stream of None \<Rightarrow> Some msg | Some e \<Rightarrow> Some e)\<rparr>)"

definition pb_istream_from_buffer :: "byte list \<Rightarrow> nat \<Rightarrow> 's pb_istream" where
  "pb_istream_from_buffer buf bufsize =
     \<lparr>is_source = Buf_read buf 0, bytes_left = bufsize, is_errmsg = None\<rparr>"

text \<open>A call of the callback for \<open>count\<close> bytes gives what it has stored in the buffer.\<close>

fun is_callback :: "'s is_source \<Rightarrow> nat \<Rightarrow> bool \<times> byte list \<times> 's is_source" where
  "is_callback (Buf_read source pos) count = (True, take count (drop pos source), Buf_read source (pos + count))"
| "is_callback (User_read f s) count = (case f s count of (ok, bs, s') \<Rightarrow> (ok, bs, User_read f s'))"

definition is_buf_read :: "'s pb_istream \<Rightarrow> bool" where
  "is_buf_read stream \<longleftrightarrow> (case is_source stream of Buf_read _ _ \<Rightarrow> True | _ \<Rightarrow> False)"

text \<open>\<open>pb_read\<close> from the test of \<open>bytes_left\<close> on.\<close>

definition pb_read_limited :: "nat \<Rightarrow> ('s pb_istream, byte list) cop" where
  "pb_read_limited count stream =
     (if bytes_left stream < count then is_error ''end-of-stream'' stream
      else
        (case is_callback (is_source stream) count of
           (False, _, t) \<Rightarrow> is_error ''io error'' (stream\<lparr>is_source := t\<rparr>)
         | (True, bs, t) \<Rightarrow> (Some bs, stream\<lparr>is_source := t, bytes_left := bytes_left stream - count\<rparr>)))"

text \<open>\<open>pb_read\<close> into a buffer, and without one, when a user's callback is called for at most 16 bytes.\<close>

definition pb_read :: "nat \<Rightarrow> ('s pb_istream, byte list) cop" where
  "pb_read count = (if count = 0 then op_ret [] else pb_read_limited count)"

fun skip_loop :: "nat \<Rightarrow> ('s pb_istream, unit) cop" where
  "skip_loop count stream =
     (if count > 16 then op_then (pb_read 16) (skip_loop (count - 16)) stream
      else op_then (pb_read count) (op_ret ()) stream)"

declare skip_loop.simps [simp del]

definition pb_read_null :: "nat \<Rightarrow> ('s pb_istream, unit) cop" where
  "pb_read_null count stream =
     (if count = 0 then (Some (), stream)
      else if \<not> is_buf_read stream then skip_loop count stream
      else op_then (pb_read_limited count) (op_ret ()) stream)"

definition pb_readbyte :: "('s pb_istream, byte) cop" where
  "pb_readbyte stream =
     (if bytes_left stream = 0 then is_error ''end-of-stream'' stream
      else
        (case is_callback (is_source stream) 1 of
           (False, _, t) \<Rightarrow> is_error ''io error'' (stream\<lparr>is_source := t\<rparr>)
         | (True, bs, t) \<Rightarrow> (Some (hd bs), stream\<lparr>is_source := t, bytes_left := bytes_left stream - 1\<rparr>)))"

lemma pb_readbyte_less: "pb_readbyte stream = (Some b, stream') \<Longrightarrow> bytes_left stream' < bytes_left stream"
  by (auto simp: pb_readbyte_def is_error_def split: if_splits prod.splits bool.splits)

lemma pb_read_less:
  "pb_read n stream = (Some bs, stream') \<Longrightarrow> 0 < n \<Longrightarrow> bytes_left stream' < bytes_left stream"
  by (auto simp: pb_read_def pb_read_limited_def is_error_def split: if_splits prod.splits bool.splits)

section \<open>Integers on input streams\<close>

text \<open>The loop of \<open>pb_decode_varint32_eof\<close> over the bytes after the first one, with the test behind
  it. \<open>bitpos\<close> is a \<open>uint_fast8_t\<close>, which has 8 bits on the targets of the app.\<close>

function varint32_loop :: "u32 \<Rightarrow> nat \<Rightarrow> ('s pb_istream, u32) cop" where
  "varint32_loop result bitpos stream =
     (case pb_readbyte stream of
        (None, stream') \<Rightarrow> (None, stream')
      | (Some byte, stream') \<Rightarrow>
          (let sign_extension = (if bitpos < 63 then 0xFF else 0x01 :: byte);
               overflow = (bitpos \<ge> 32 \<and> byte AND 0x7F \<noteq> 0 \<and> (drop_bit 31 result = 0 \<or> byte \<noteq> sign_extension));
               result' = (if bitpos \<ge> 32 then result else result OR push_bit bitpos (ucast (byte AND 0x7F)));
               bitpos' = (bitpos + 7) mod 256
           in if overflow then is_error ''varint overflow'' stream'
              else if byte AND 0x80 \<noteq> 0 then varint32_loop result' bitpos' stream'
              else if bitpos' = 35 \<and> byte AND 0x70 \<noteq> 0 then is_error ''varint overflow'' stream'
              else (Some result', stream')))"
  by pat_completeness auto
termination
  by (relation "measure (\<lambda>(_, _, stream). bytes_left stream)") (auto dest: pb_readbyte_less [OF sym])

declare varint32_loop.simps [simp del]

text \<open>The result comes with the value of \<open>*eof\<close>, which is set when there is no first byte.\<close>

definition pb_decode_varint32_eof :: "'s pb_istream \<Rightarrow> u32 option \<times> bool \<times> 's pb_istream" where
  "pb_decode_varint32_eof stream =
     (case pb_readbyte stream of
        (None, stream') \<Rightarrow> (None, bytes_left stream' = 0, stream')
      | (Some byte, stream') \<Rightarrow>
          if byte AND 0x80 = 0 then (Some (ucast byte), False, stream')
          else
            (case varint32_loop (ucast (byte AND 0x7F)) 7 stream' of (r, stream'') \<Rightarrow> (r, False, stream'')))"

definition pb_decode_varint32 :: "('s pb_istream, u32) cop" where
  "pb_decode_varint32 stream = (case pb_decode_varint32_eof stream of (r, _, stream') \<Rightarrow> (r, stream'))"

function varint_loop :: "u64 \<Rightarrow> nat \<Rightarrow> ('s pb_istream, u64) cop" where
  "varint_loop result bitpos stream =
     (if bitpos \<ge> 64 then is_error ''varint overflow'' stream
      else
        (case pb_readbyte stream of
           (None, stream') \<Rightarrow> (None, stream')
         | (Some byte, stream') \<Rightarrow>
             (let result' = result OR push_bit bitpos (ucast (byte AND 0x7F)); bitpos' = (bitpos + 7) mod 256
              in if byte AND 0x80 \<noteq> 0 then varint_loop result' bitpos' stream' else (Some result', stream'))))"
  by pat_completeness auto
termination
  by (relation "measure (\<lambda>(_, _, stream). bytes_left stream)") (auto dest: pb_readbyte_less [OF sym])

declare varint_loop.simps [simp del]

definition pb_decode_varint :: "('s pb_istream, u64) cop" where
  "pb_decode_varint = varint_loop 0 0"

definition pb_decode_svarint :: "('s pb_istream, u64) cop" where
  "pb_decode_svarint = op_bind pb_decode_varint (\<lambda>value.
     op_ret (if value AND 1 \<noteq> 0 then NOT (drop_bit 1 value) else drop_bit 1 value))"

definition pb_decode_fixed32 :: "('s pb_istream, u32) cop" where
  "pb_decode_fixed32 = op_bind (pb_read 4) (\<lambda>bytes.
     op_ret (push_bit 0 (ucast (bytes ! 0)) OR push_bit 8 (ucast (bytes ! 1)) OR
       push_bit 16 (ucast (bytes ! 2)) OR push_bit 24 (ucast (bytes ! 3))))"

definition pb_decode_fixed64 :: "('s pb_istream, u64) cop" where
  "pb_decode_fixed64 = op_bind (pb_read 8) (\<lambda>bytes.
     op_ret (push_bit 0 (ucast (bytes ! 0)) OR push_bit 8 (ucast (bytes ! 1)) OR
       push_bit 16 (ucast (bytes ! 2)) OR push_bit 24 (ucast (bytes ! 3)) OR
       push_bit 32 (ucast (bytes ! 4)) OR push_bit 40 (ucast (bytes ! 5)) OR
       push_bit 48 (ucast (bytes ! 6)) OR push_bit 56 (ucast (bytes ! 7))))"

section \<open>Tags, skipping and substreams\<close>

text \<open>The result is \<open>(wire_type, tag)\<close>, beside \<open>*eof\<close>.\<close>

definition pb_decode_tag :: "'s pb_istream \<Rightarrow> (u32 \<times> u32) option \<times> bool \<times> 's pb_istream" where
  "pb_decode_tag stream =
     (case pb_decode_varint32_eof stream of
        (None, eof, stream') \<Rightarrow> (None, eof, stream')
      | (Some temp, _, stream') \<Rightarrow>
          if temp = 0 then (None, True, stream')
          else (Some (temp AND 7, drop_bit 3 temp), False, stream'))"

function pb_skip_varint :: "('s pb_istream, unit) cop" where
  "pb_skip_varint stream =
     (case pb_read 1 stream of
        (None, stream') \<Rightarrow> (None, stream')
      | (Some byte, stream') \<Rightarrow>
          if byte ! 0 AND 0x80 \<noteq> 0 then pb_skip_varint stream' else (Some (), stream'))"
  by pat_completeness auto
termination
  by (relation "measure bytes_left") (auto dest: pb_read_less [OF sym])

declare pb_skip_varint.simps [simp del]

definition pb_skip_string :: "('s pb_istream, unit) cop" where
  "pb_skip_string = op_bind pb_decode_varint32 (\<lambda>len. pb_read_null (unat len))"

definition pb_skip_field :: "u32 \<Rightarrow> ('s pb_istream, unit) cop" where
  "pb_skip_field wire_type =
     (if wire_type = PB_WT_VARINT then pb_skip_varint
      else if wire_type = PB_WT_64BIT then pb_read_null 8
      else if wire_type = PB_WT_STRING then pb_skip_string
      else if wire_type = PB_WT_32BIT then pb_read_null 4
      else is_error ''invalid wire_type'')"

text \<open>\<open>read_raw_value\<close>: the bytes stored in \<open>buf\<close>, which has room for \<open>max_size\<close> of them.\<close>

fun raw_varint :: "nat \<Rightarrow> ('s pb_istream, byte list) cop" where
  "raw_varint 0 stream = (None, stream)"
| "raw_varint (Suc n) stream =
     (case pb_read 1 stream of
        (None, stream') \<Rightarrow> (None, stream')
      | (Some byte, stream') \<Rightarrow>
          if byte ! 0 AND 0x80 \<noteq> 0 then
            (case raw_varint n stream' of
               (None, stream'') \<Rightarrow> (None, stream'')
             | (Some buf, stream'') \<Rightarrow> (Some (byte @ buf), stream''))
          else (Some byte, stream'))"

definition read_raw_value :: "u32 \<Rightarrow> nat \<Rightarrow> ('s pb_istream, byte list) cop" where
  "read_raw_value wire_type max_size =
     (if wire_type = PB_WT_VARINT then raw_varint max_size
      else if wire_type = PB_WT_64BIT then pb_read 8
      else if wire_type = PB_WT_32BIT then pb_read 4
      else is_error ''invalid wire_type'')"

definition pb_make_string_substream :: "('s pb_istream, 's pb_istream) cop" where
  "pb_make_string_substream = op_bind pb_decode_varint32 (\<lambda>len stream.
     if bytes_left stream < unat len then is_error ''parent stream too short'' stream
     else (Some (stream\<lparr>bytes_left := unat len\<rparr>), stream\<lparr>bytes_left := bytes_left stream - unat len\<rparr>))"

definition pb_close_string_substream :: "'s pb_istream \<Rightarrow> ('s pb_istream, unit) cop" where
  "pb_close_string_substream substream stream =
     (case (if bytes_left substream \<noteq> 0 then pb_read_null (bytes_left substream) substream
            else (Some (), substream)) of
        (None, _) \<Rightarrow> (None, stream)
      | (Some _, substream') \<Rightarrow>
          (Some (), stream\<lparr>is_source := is_source substream', is_errmsg := is_errmsg substream'\<rparr>))"

end
