(* ===== verification/PbWire.thy ===== *)
theory PbWire
  imports PbStream
begin

text \<open>
  The wire format of protocol buffers and what the stream functions of nanopb do with it. A
  \<open>writer\<close> of some bytes counts them on a sizing stream and appends them to a buffer with room
  for them; a \<open>parser\<close> of some bytes consumes them from any source that delivers them, the
  buffer of the library or a well-behaved callback, and returns their value.
\<close>

section \<open>Base-128 integers\<close>

function varint :: "nat \<Rightarrow> byte list" where
  "varint n = (if n < 128 then [word_of_nat n] else word_of_nat (n mod 128 + 128) # varint (n div 128))"
  by pat_completeness auto
termination by (relation "measure id") auto

declare varint.simps [simp del]

fun groups_val :: "byte list \<Rightarrow> nat" where
  "groups_val [] = 0"
| "groups_val (b # bs) = unat b mod 128 + 128 * groups_val bs"

text \<open>The last byte, and no other, has its top bit clear.\<close>

fun is_varint :: "byte list \<Rightarrow> bool" where
  "is_varint [] \<longleftrightarrow> False"
| "is_varint (b # bs) \<longleftrightarrow> (if unat b < 128 then bs = [] else is_varint bs)"

lemma varint_small: "n < 128 \<Longrightarrow> varint n = [word_of_nat n]"
  by (simp add: varint.simps [of n])

lemma varint_big: "128 \<le> n \<Longrightarrow> varint n = word_of_nat (n mod 128 + 128) # varint (n div 128)"
  by (simp add: varint.simps [of n])

lemma unat_varint_head: "unat (word_of_nat (n mod 128 + 128) :: byte) = n mod 128 + 128"
proof (rule unat_byte_of_nat)
  have "n mod 128 < 128" by simp
  then show "n mod 128 + 128 < 256" by linarith
qed

lemma is_varint_varint: "is_varint (varint n)"
proof (induction n rule: varint.induct)
  case (1 n)
  show ?case
  proof (cases "n < 128")
    case True
    then show ?thesis by (simp add: varint_small unat_byte_of_nat del: of_nat_unat)
  next
    case False
    with 1 show ?thesis by (simp add: varint_big unat_varint_head del: of_nat_add)
  qed
qed

lemma groups_val_varint: "groups_val (varint n) = n"
proof (induction n rule: varint.induct)
  case (1 n)
  show ?case
  proof (cases "n < 128")
    case True
    then show ?thesis by (simp add: varint_small unat_byte_of_nat)
  next
    case False
    with 1 show ?thesis by (simp add: varint_big unat_varint_head del: of_nat_add)
  qed
qed

lemma varint_nonempty [simp]: "varint n \<noteq> []"
  by (subst varint.simps) simp

lemma length_varint_le: "n < 128 ^ Suc k \<Longrightarrow> length (varint n) \<le> Suc k"
proof (induction k arbitrary: n)
  case 0
  then show ?case by (simp add: varint_small)
next
  case (Suc k)
  show ?case
  proof (cases "n < 128")
    case True
    then show ?thesis by (simp add: varint_small)
  next
    case False
    have "n div 128 < 128 ^ Suc k" using Suc.prems by (simp add: less_mult_imp_div_less)
    with Suc.IH False show ?thesis by (simp add: varint_big)
  qed
qed

lemma length_varint_u64: "length (varint (unat (v :: u64))) \<le> 10"
proof -
  have "unat v < 2 ^ 64" using unsigned_less [of v, where ?'a = nat] by simp
  also have "(2 :: nat) ^ 64 < 128 ^ Suc 9" by simp
  finally show ?thesis using length_varint_le [of "unat v" 9] by simp
qed

section \<open>What \<open>pb_encode_varint\<close> passes to \<open>pb_write\<close>\<close>

lemma and_0x7f_u64: "unat (v AND 0x7F) = unat v mod 128" for v :: u64
proof -
  have "v AND 0x7F = take_bit 7 v" by (simp add: take_bit_eq_mask mask_eq_exp_minus_1)
  then show ?thesis by (simp only: unat_take_bit) simp
qed

lemma unat_byte_or_0x80: "unat (b :: byte) < 128 \<Longrightarrow> unat (b OR 0x80) = unat b + 128"
  using unat_push_bit_or [of b 7 1] by (simp add: or.commute)

lemma unat_group: "unat (ucast (v AND 0x7F) OR 0x80 :: byte) = unat v mod 128 + 128" for v :: u64
proof -
  have m: "unat v mod 128 < 128" by simp
  have "unat (ucast (v AND 0x7F) :: byte) = unat v mod 128 mod 2 ^ 8"
    by (simp only: unat_ucast and_0x7f_u64) simp
  also have "\<dots> = unat v mod 128" using m by (intro mod_less) simp
  finally show ?thesis using unat_byte_or_0x80 [of "ucast (v AND 0x7F)"] m by (simp only:)
qed

definition clear_last :: "byte list \<Rightarrow> byte list" where
  "clear_last xs = xs[length xs - 1 := xs ! (length xs - 1) AND 0x7F]"

lemma clear_last_single: "clear_last [b] = [b AND 0x7F]"
  by (simp add: clear_last_def)

lemma clear_last_Cons: "xs \<noteq> [] \<Longrightarrow> clear_last (b # xs) = b # clear_last xs"
  by (cases xs) (simp_all add: clear_last_def)

lemma varint_buffer_nonempty: "v \<noteq> 0 \<Longrightarrow> varint_buffer v \<noteq> []"
  by (simp add: varint_buffer.simps [of v])

lemma varint_buffer_eq: "v \<noteq> 0 \<Longrightarrow> clear_last (varint_buffer v) = varint (unat v)"
proof (induction v rule: varint_buffer.induct)
  case (1 v)
  let ?b = "ucast (v AND 0x7F) OR 0x80 :: byte"
  have b: "unat ?b = unat v mod 128 + 128" by (rule unat_group)
  show ?case
  proof (cases "unat v < 128")
    case True
    then have d: "drop_bit 7 v = 0" by (simp add: drop_bit_zero_iff_unat)
    have "varint_buffer v = [?b]" using 1 d by (simp add: varint_buffer.simps [of v] varint_buffer.simps [of 0])
    moreover from True have "unat (?b AND 0x7F) = unat v" by (simp only: byte_and_0x7f b) simp
    then have "?b AND 0x7F = word_of_nat (unat v)" using byte_of_nat_eqI by metis
    ultimately show ?thesis using True by (simp only: clear_last_single varint_small)
  next
    case False
    then have d: "drop_bit 7 v \<noteq> 0" by (simp add: drop_bit_zero_iff_unat)
    have "varint_buffer v = ?b # varint_buffer (drop_bit 7 v)" using 1 by (simp add: varint_buffer.simps [of v])
    then have "clear_last (varint_buffer v) = ?b # varint (unat v div 128)"
      using 1 d by (simp add: clear_last_Cons varint_buffer_nonempty unat_drop_bit)
    moreover have "word_of_nat (unat v mod 128 + 128) = ?b" using b by (rule byte_of_nat_eqI)
    ultimately show ?thesis using False by (simp add: varint_big)
  qed
qed

lemma pb_encode_varint_eq: "pb_encode_varint v = pb_write (varint (unat v)) (length (varint (unat v)))"
proof (cases "v \<le> 0x7F")
  case True
  then have "unat v < 128" by (simp add: word_le_nat_alt)
  then show ?thesis using True by (simp add: pb_encode_varint_def varint_small)
next
  case False
  then have eq: "clear_last (varint_buffer v) = varint (unat v)" by (intro varint_buffer_eq) auto
  then have "length (varint_buffer v) = length (varint (unat v))" by (metis clear_last_def length_list_update)
  with eq False show ?thesis by (simp add: pb_encode_varint_def Let_def clear_last_def)
qed

section \<open>Writers\<close>

text \<open>A sizing stream, and a stream over a buffer that has the room its limit promises; no buffer has more
  than \<open>PTRDIFF_MAX\<close> bytes.\<close>

definition sizing_ok :: "'s pb_ostream \<Rightarrow> bool" where
  "sizing_ok stream \<longleftrightarrow> is_sizing stream \<and> bytes_written stream < size_mod"

definition ostream_ok :: "'s pb_ostream \<Rightarrow> bool" where
  "ostream_ok stream \<longleftrightarrow> bytes_written stream \<le> os_max_size stream \<and> os_max_size stream \<le> 2 ^ 63 \<and>
     os_errmsg stream = None \<and>
     (case os_target stream of
        Buf_write data pos \<Rightarrow> pos + (os_max_size stream - bytes_written stream) \<le> length data
      | _ \<Rightarrow> False)"

definition counted :: "byte list \<Rightarrow> 's pb_ostream \<Rightarrow> 's pb_ostream" where
  "counted bs stream = stream\<lparr>bytes_written := size_add (bytes_written stream) (length bs)\<rparr>"

definition stored :: "byte list \<Rightarrow> 's pb_ostream \<Rightarrow> 's pb_ostream" where
  "stored bs stream = stream\<lparr>
     os_target := (case os_target stream of
        Buf_write data pos \<Rightarrow> Buf_write (buf_write data pos bs) (pos + length bs) | t \<Rightarrow> t),
     bytes_written := bytes_written stream + length bs\<rparr>"

definition has_room :: "byte list \<Rightarrow> 's pb_ostream \<Rightarrow> bool" where
  "has_room bs stream \<longleftrightarrow> bytes_written stream + length bs \<le> os_max_size stream"

text \<open>What a writer of \<open>bs\<close> may leave behind when there is no room: a part of \<open>bs\<close>, and a message.\<close>

definition spoiled :: "byte list \<Rightarrow> 's pb_ostream \<Rightarrow> 's pb_ostream \<Rightarrow> bool" where
  "spoiled bs stream stream' \<longleftrightarrow>
     (\<exists>k msg. has_room (take k bs) stream \<and> stream' = stored (take k bs) stream\<lparr>os_errmsg := msg\<rparr>)"

definition puts :: "('s pb_ostream, unit) cop \<Rightarrow> byte list \<Rightarrow> bool" where
  "puts f bs \<longleftrightarrow>
     (\<forall>stream. sizing_ok stream \<longrightarrow> f stream = (Some (), counted bs stream)) \<and>
     (\<forall>stream. ostream_ok stream \<longrightarrow>
        (if has_room bs stream then f stream = (Some (), stored bs stream)
         else \<exists>stream'. f stream = (None, stream') \<and> spoiled bs stream stream'))"

lemma putsD:
  assumes "puts f bs"
  shows "sizing_ok stream \<Longrightarrow> f stream = (Some (), counted bs stream)"
    and "ostream_ok stream \<Longrightarrow> has_room bs stream \<Longrightarrow> f stream = (Some (), stored bs stream)"
    and "ostream_ok stream \<Longrightarrow> \<not> has_room bs stream \<Longrightarrow>
      \<exists>stream'. f stream = (None, stream') \<and> spoiled bs stream stream'"
  using assms unfolding puts_def by (simp_all split: if_splits)

lemma buf_write_append:
  "pos + length (a @ b) \<le> length data \<Longrightarrow>
    buf_write (buf_write data pos a) (pos + length a) b = buf_write data pos (a @ b)"
  by (simp add: buf_write_def ac_simps)

lemma length_buf_write [simp]:
  "pos + length bs \<le> length data \<Longrightarrow> length (buf_write data pos bs) = length data"
  by (simp add: buf_write_def)

lemma buf_write_Nil [simp]: "buf_write data pos [] = data"
  by (simp add: buf_write_def)

lemma counted_counted: "counted b (counted a stream) = counted (a @ b) stream"
  by (simp add: counted_def size_add_def mod_simps ac_simps)

lemma counted_Nil: "bytes_written stream < size_mod \<Longrightarrow> counted [] stream = stream"
  by (simp add: counted_def size_add_def)

lemma is_sizing_counted [simp]: "is_sizing (counted bs stream) = is_sizing stream"
  by (simp add: counted_def is_sizing_def)

lemma sizing_ok_counted: "sizing_ok stream \<Longrightarrow> sizing_ok (counted bs stream)"
  by (simp add: sizing_ok_def) (simp add: counted_def size_add_def)

lemma ostream_ok_stored: "ostream_ok stream \<Longrightarrow> has_room a stream \<Longrightarrow> ostream_ok (stored a stream)"
  by (auto simp: ostream_ok_def has_room_def stored_def split: os_target.splits)

lemma stored_stored:
  "ostream_ok stream \<Longrightarrow> has_room (a @ b) stream \<Longrightarrow> stored b (stored a stream) = stored (a @ b) stream"
  by (auto simp: ostream_ok_def has_room_def stored_def buf_write_append split: os_target.splits)

lemma stored_Nil [simp]: "ostream_ok stream \<Longrightarrow> stored [] stream = stream"
  by (auto simp: ostream_ok_def stored_def split: os_target.splits)

lemma has_room_append: "has_room (a @ b) stream \<longleftrightarrow> has_room b (stored a stream)"
  by (simp add: has_room_def stored_def ac_simps)

lemma ostream_ok_not_sizing: "ostream_ok stream \<Longrightarrow> \<not> is_sizing stream"
  by (auto simp: ostream_ok_def is_sizing_def split: os_target.splits)

text \<open>What is left behind by a writer that fails, or whose successor fails.\<close>

lemma spoiled_append: "spoiled a stream stream' \<Longrightarrow> spoiled (a @ b) stream stream'"
proof -
  assume "spoiled a stream stream'"
  then obtain k msg where "has_room (take k a) stream" "stream' = stored (take k a) stream\<lparr>os_errmsg := msg\<rparr>"
    unfolding spoiled_def by blast
  moreover have "take (min k (length a)) (a @ b) = take k a" by (simp add: min_def)
  ultimately show ?thesis unfolding spoiled_def by metis
qed

lemma spoiled_after:
  assumes "ostream_ok stream" and "spoiled b (stored a stream) stream'"
  shows "spoiled (a @ b) stream stream'"
proof -
  obtain k msg where k: "has_room (take k b) (stored a stream)"
    and s': "stream' = stored (take k b) (stored a stream)\<lparr>os_errmsg := msg\<rparr>"
    using assms(2) unfolding spoiled_def by blast
  from k have room: "has_room (a @ take k b) stream" by (simp add: has_room_append)
  have "take (length a + k) (a @ b) = a @ take k b" by simp
  with s' room stored_stored [OF assms(1) room] show ?thesis unfolding spoiled_def by metis
qed

lemma puts_then:
  assumes "puts f a" and "puts g b"
  shows "puts (op_then f g) (a @ b)"
  unfolding puts_def
proof (intro conjI allI impI)
  fix stream :: "'a pb_ostream"
  assume s: "sizing_ok stream"
  show "op_then f g stream = (Some (), counted (a @ b) stream)"
    using putsD(1) [OF assms(1) s] putsD(1) [OF assms(2) sizing_ok_counted [OF s, of a]]
    by (simp add: op_simps counted_counted)
next
  fix stream :: "'a pb_ostream"
  assume ok: "ostream_ok stream"
  show "if has_room (a @ b) stream then op_then f g stream = (Some (), stored (a @ b) stream)
    else \<exists>stream'. op_then f g stream = (None, stream') \<and> spoiled (a @ b) stream stream'"
  proof (cases "has_room a stream")
    case True
    note f = putsD(2) [OF assms(1) ok True] and ok' = ostream_ok_stored [OF ok True]
    show ?thesis
    proof (cases "has_room (a @ b) stream")
      case room: True
      then have "has_room b (stored a stream)" by (simp add: has_room_append)
      with f putsD(2) [OF assms(2) ok'] stored_stored [OF ok room] room show ?thesis by (simp add: op_simps)
    next
      case False
      then have "\<not> has_room b (stored a stream)" by (simp add: has_room_append)
      from putsD(3) [OF assms(2) ok' this] obtain stream' where g: "g (stored a stream) = (None, stream')"
        and "spoiled b (stored a stream) stream'" by blast
      then have "spoiled (a @ b) stream stream'" by (intro spoiled_after [OF ok])
      with f g False show ?thesis by (simp add: op_simps)
    qed
  next
    case False
    from putsD(3) [OF assms(1) ok False] obtain stream' where f: "f stream = (None, stream')"
      and "spoiled a stream stream'" by blast
    then have "spoiled (a @ b) stream stream'" by (intro spoiled_append)
    moreover have "\<not> has_room (a @ b) stream" using False by (simp add: has_room_def)
    ultimately show ?thesis using f by (simp add: op_simps)
  qed
qed

lemma puts_write:
  assumes "length bs < size_mod"
  shows "puts (pb_write bs (length bs)) bs"
  unfolding puts_def
proof (intro conjI allI impI)
  fix stream :: "'a pb_ostream"
  assume "sizing_ok stream"
  then show "pb_write bs (length bs) stream = (Some (), counted bs stream)"
    by (simp add: sizing_ok_def pb_write_def counted_def)
next
  fix stream :: "'a pb_ostream"
  assume ok: "ostream_ok stream"
  then obtain d p where t: "os_target stream = Buf_write d p"
    and le: "bytes_written stream \<le> os_max_size stream" "os_max_size stream < size_mod"
    by (auto simp: ostream_ok_def split: os_target.splits)
  note sz = ostream_ok_not_sizing [OF ok]
  have exact: "size_add (bytes_written stream) (length bs) = bytes_written stream + length bs"
    if "has_room bs stream"
    using that le unfolding has_room_def by (intro size_add_exact) linarith
  have full: "size_add (bytes_written stream) (length bs) < bytes_written stream \<or>
      size_add (bytes_written stream) (length bs) > os_max_size stream" if "\<not> has_room bs stream"
  proof (cases "bytes_written stream + length bs < size_mod")
    case True
    then show ?thesis using that by (simp add: size_add_exact has_room_def)
  next
    case False
    then show ?thesis using size_add_overflow_iff [of "bytes_written stream" "length bs"] le assms by linarith
  qed
  show "if has_room bs stream then pb_write bs (length bs) stream = (Some (), stored bs stream)
    else \<exists>stream'. pb_write bs (length bs) stream = (None, stream') \<and> spoiled bs stream stream'"
  proof (cases "has_room bs stream")
    case True
    show ?thesis
    proof (cases bs)
      case Nil
      then show ?thesis using exact [OF True] True t by (simp add: pb_write_def stored_def)
    next
      case Cons
      then have "0 < length bs" by simp
      moreover have "\<not> (size_add (bytes_written stream) (length bs) < bytes_written stream \<or>
          size_add (bytes_written stream) (length bs) > os_max_size stream)"
        using exact [OF True] True by (simp add: has_room_def)
      ultimately show ?thesis using exact [OF True] True t sz
        unfolding pb_write_def by (simp add: stored_def)
    qed
  next
    case False
    then have "0 < length bs" using le by (cases bs) (simp_all add: has_room_def)
    then have w: "pb_write bs (length bs) stream = os_error ''stream full'' stream"
      using full [OF False] sz unfolding pb_write_def by simp
    have "has_room (take 0 bs) stream" using le by (simp add: has_room_def)
    then have "spoiled bs stream (snd (os_error ''stream full'' stream :: unit option \<times> _))"
      unfolding spoiled_def using ok by (intro exI [of _ 0]) (auto simp: os_error_def)
    then show ?thesis using False w by (simp add: os_error_def)
  qed
qed

lemma puts_varint: "puts (pb_encode_varint v) (varint (unat v))"
  unfolding pb_encode_varint_eq
  by (rule puts_write) (use length_varint_u64 [of v] in simp)

lemma puts_string:
  assumes "length bs < size_mod"
  shows "puts (pb_encode_string bs (length bs)) (varint (length bs) @ bs)"
proof -
  have "unat (word_of_nat (length bs) :: u64) = length bs" using assms by (simp add: unat_of_nat)
  with puts_then [OF puts_varint [of "word_of_nat (length bs)"] puts_write [OF assms]] show ?thesis
    by (simp add: pb_encode_string_def)
qed

section \<open>Parsers\<close>

text \<open>A source delivers \<open>bs\<close> when its callback hands out any requested part of it.\<close>

inductive gives :: "'s is_source \<Rightarrow> byte list \<Rightarrow> bool" where
  "(\<And>n. 0 < n \<Longrightarrow> n \<le> length bs \<Longrightarrow> fst (is_callback s n) \<and>
      fst (snd (is_callback s n)) = take n bs \<and> gives (snd (snd (is_callback s n))) (drop n bs)) \<Longrightarrow>
    gives s bs"

lemma gives_buffer:
  "take (length bs) (drop pos data) = bs \<Longrightarrow> gives (Buf_read data pos :: 'a is_source) bs"
proof (induction "length bs" arbitrary: bs pos rule: less_induct)
  case less
  show ?case
  proof (rule gives.intros)
    fix n assume n: "0 < n" "n \<le> length bs"
    have "take (length bs - n) (drop (pos + n) data) = drop n bs"
      using arg_cong [OF less.prems, of "drop n"] by (simp add: drop_take add.commute)
    with n have "gives (Buf_read data (pos + n) :: 'a is_source) (drop n bs)" by (intro less.hyps) simp_all
    moreover have "take n (drop pos data) = take n bs"
      using arg_cong [OF less.prems, of "take n"] n by (simp add: min_def)
    ultimately show "fst (is_callback (Buf_read data pos :: 'a is_source) n) \<and>
        fst (snd (is_callback (Buf_read data pos :: 'a is_source) n)) = take n bs \<and>
        gives (snd (snd (is_callback (Buf_read data pos :: 'a is_source) n))) (drop n bs)"
      by simp
  qed
qed

text \<open>\<open>stream_at stream bs n e\<close>: the source has \<open>bs\<close> to deliver, and the stream the right to \<open>n\<close> bytes of it.\<close>

definition stream_at :: "'s pb_istream \<Rightarrow> byte list \<Rightarrow> nat \<Rightarrow> string option \<Rightarrow> bool" where
  "stream_at stream bs n e \<longleftrightarrow>
     gives (is_source stream) bs \<and> n \<le> length bs \<and> bytes_left stream = n \<and> is_errmsg stream = e"

definition parses :: "('s pb_istream, 'a) cop \<Rightarrow> byte list \<Rightarrow> 'a \<Rightarrow> bool" where
  "parses f bs v \<longleftrightarrow>
     (\<forall>stream rest n e. stream_at stream (bs @ rest) (length bs + n) e \<longrightarrow>
        (\<exists>stream'. f stream = (Some v, stream') \<and> stream_at stream' rest n e))"

lemma parsesE:
  assumes "parses f bs v" and "stream_at stream (bs @ rest) (length bs + n) e"
  obtains stream' where "f stream = (Some v, stream')" "stream_at stream' rest n e"
  using assms unfolding parses_def by blast

lemma parses_ret: "parses (op_ret v) [] v"
  by (simp add: parses_def op_simps)

lemma parses_bind:
  assumes "parses f a x" and "parses (g x) b y"
  shows "parses (op_bind f g) (a @ b) y"
  unfolding parses_def
proof (intro allI impI)
  fix stream :: "'a pb_istream" and rest n e
  assume "stream_at stream ((a @ b) @ rest) (length (a @ b) + n) e"
  then have s: "stream_at stream (a @ b @ rest) (length a + (length b + n)) e" by (simp add: add.assoc)
  obtain stream1 where 1: "f stream = (Some x, stream1)" "stream_at stream1 (b @ rest) (length b + n) e"
    by (rule parsesE [OF assms(1) s])
  obtain stream2 where "g x stream1 = (Some y, stream2)" "stream_at stream2 rest n e"
    by (rule parsesE [OF assms(2) 1(2)])
  with 1 show "\<exists>stream'. op_bind f g stream = (Some y, stream') \<and> stream_at stream' rest n e"
    by (simp add: op_simps)
qed

lemma parses_then: "parses f a x \<Longrightarrow> parses g b y \<Longrightarrow> parses (op_then f g) (a @ b) y"
  unfolding op_then_def by (rule parses_bind)

lemma parses_map: "parses f a x \<Longrightarrow> parses (op_bind f (\<lambda>x. op_ret (h x))) a (h x)"
  using parses_bind [of f a x "\<lambda>x. op_ret (h x)" "[]" "h x"] by (simp add: parses_ret)

lemma givesD:
  assumes "gives s bs" and "0 < n" and "n \<le> length bs"
  obtains s' where "is_callback s n = (True, take n bs, s')" "gives s' (drop n bs)"
proof -
  from assms have "fst (is_callback s n)" "fst (snd (is_callback s n)) = take n bs"
    "gives (snd (snd (is_callback s n))) (drop n bs)"
    by (cases s bs rule: gives.cases, blast)+
  then show thesis by (intro that [of "snd (snd (is_callback s n))"]) (simp_all add: prod_eq_iff)
qed

lemma parses_limited:
  assumes "bs \<noteq> []"
  shows "parses (pb_read_limited (length bs)) bs bs"
  unfolding parses_def
proof (intro allI impI)
  fix stream :: "'a pb_istream" and rest n e
  assume s: "stream_at stream (bs @ rest) (length bs + n) e"
  then have g: "gives (is_source stream) (bs @ rest)" by (simp add: stream_at_def)
  obtain s' where "is_callback (is_source stream) (length bs) = (True, bs, s')" "gives s' rest"
    using givesD [OF g, of "length bs"] assms by auto
  with s show "\<exists>stream'. pb_read_limited (length bs) stream = (Some bs, stream') \<and> stream_at stream' rest n e"
    by (simp add: pb_read_limited_def stream_at_def)
qed

lemma parses_read: "parses (pb_read (length bs)) bs bs"
proof (cases bs)
  case Nil
  then show ?thesis using parses_ret [of "[]"] by (simp add: pb_read_def)
next
  case Cons
  then have "pb_read (length bs) = (pb_read_limited (length bs) :: ('a pb_istream, _) cop)"
    by (intro ext) (simp add: pb_read_def)
  with Cons parses_limited [of bs] show ?thesis by auto
qed

lemma parses_byte: "parses pb_readbyte [b] b"
  unfolding parses_def
proof (intro allI impI)
  fix stream :: "'a pb_istream" and rest n e
  assume s: "stream_at stream ([b] @ rest) (length [b] + n) e"
  then have g: "gives (is_source stream) (b # rest)" by (simp add: stream_at_def)
  obtain s' where "is_callback (is_source stream) 1 = (True, [b], s')" "gives s' rest"
    using givesD [OF g, of 1] by auto
  with s show "\<exists>stream'. pb_readbyte stream = (Some b, stream') \<and> stream_at stream' rest n e"
    by (simp add: pb_readbyte_def stream_at_def)
qed

lemma parses_skip_loop: "parses (skip_loop (length bs) :: ('a pb_istream, unit) cop) bs ()"
proof (induction "length bs" arbitrary: bs rule: less_induct)
  case less
  show ?case
  proof (cases "length bs > 16")
    case True
    have "parses (pb_read 16 :: ('a pb_istream, byte list) cop) (take 16 bs) (take 16 bs)" using parses_read [of "take 16 bs"] True by simp
    moreover have "parses (skip_loop (length bs - 16) :: ('a pb_istream, unit) cop) (drop 16 bs) ()"
      using less.hyps [of "drop 16 bs"] True by simp
    ultimately have "parses (op_then (pb_read 16) (skip_loop (length bs - 16)) :: ('a pb_istream, unit) cop)
        (take 16 bs @ drop 16 bs) ()"
      by (rule parses_then)
    moreover have "(skip_loop (length bs) :: ('a pb_istream, unit) cop) =
        op_then (pb_read 16) (skip_loop (length bs - 16))"
      using True by (intro ext) (subst skip_loop.simps, simp)
    ultimately show ?thesis by simp
  next
    case False
    have "(skip_loop (length bs) :: ('a pb_istream, unit) cop) = op_then (pb_read (length bs)) (op_ret ())"
      using False by (intro ext) (subst skip_loop.simps, simp)
    with parses_then [OF parses_read [of bs] parses_ret [of "()"]] show ?thesis by simp
  qed
qed

lemma parses_read_null: "parses (pb_read_null (length bs)) bs ()"
  unfolding parses_def
proof (intro allI impI)
  fix stream :: "'a pb_istream" and rest n e
  assume s: "stream_at stream (bs @ rest) (length bs + n) e"
  show "\<exists>stream'. pb_read_null (length bs) stream = (Some (), stream') \<and> stream_at stream' rest n e"
  proof (cases "bs = []")
    case True
    then show ?thesis using s by (simp add: pb_read_null_def)
  next
    case False
    show ?thesis
    proof (cases "is_buf_read stream")
      case True
      have "parses (op_then (pb_read_limited (length bs)) (op_ret ())) bs ()"
        using parses_then [OF parses_limited [OF False] parses_ret [of "()"]] by simp
      from parsesE [OF this s] True False show ?thesis by (simp add: pb_read_null_def) blast
    next
      case user: False
      from parsesE [OF parses_skip_loop s] user False show ?thesis by (simp add: pb_read_null_def) blast
    qed
  qed
qed

section \<open>Reading integers\<close>

lemma ucast_group: "unat (ucast (b AND 0x7F) :: u64) = unat b mod 128" for b :: byte
  using unat_ucast_up [of "b AND 0x7F", where ?'b = 64] byte_and_0x7f [of b] by simp

lemma ucast_group32: "unat (ucast (b AND 0x7F) :: u32) = unat b mod 128" for b :: byte
  using unat_ucast_up [of "b AND 0x7F", where ?'b = 32] byte_and_0x7f [of b] by simp

lemma varint_loop_step:
  "bitpos < 64 \<Longrightarrow> varint_loop result bitpos = op_bind pb_readbyte (\<lambda>byte.
     if byte AND 0x80 \<noteq> 0 then varint_loop (result OR push_bit bitpos (ucast (byte AND 0x7F))) ((bitpos + 7) mod 256)
     else op_ret (result OR push_bit bitpos (ucast (byte AND 0x7F))))"
  by (intro ext) (auto simp: varint_loop.simps [of result bitpos] op_simps Let_def split: option.split prod.split)

lemma or_group:
  fixes result :: u64 and b :: byte
  assumes "unat result < 2 ^ k"
  shows "result OR push_bit k (ucast (b AND 0x7F)) = result + word_of_nat (unat b mod 128) * 2 ^ k"
proof -
  have "(ucast (b AND 0x7F) :: u64) = word_of_nat (unat b mod 128)"
    unfolding ucast_group [of b, symmetric] by simp
  then show ?thesis using push_bit_or_small [OF assms] by (simp add: or.commute add.commute)
qed

lemma or_group_less:
  fixes b :: byte
  assumes "unat result < 2 ^ k" and "k + 7 < 64"
  shows "unat (result OR push_bit k (ucast (b AND 0x7F)) :: u64) < 2 ^ (k + 7)"
proof -
  have m: "unat b mod 128 \<le> 127" by (simp add: less_Suc_eq_le [symmetric])
  have "unat b mod 128 * 2 ^ k + unat result < 127 * 2 ^ k + 2 ^ k"
    using mult_right_mono [OF m, of "2 ^ k"] assms(1) by linarith
  also have "\<dots> = 2 ^ (k + 7)" by (simp add: power_add)
  finally have l: "unat b mod 128 * 2 ^ k + unat result < 2 ^ (k + 7)" .
  also have "(2 :: nat) ^ (k + 7) < 2 ^ 64" using assms(2) by (intro power_strict_increasing) auto
  finally have "unat (push_bit k (ucast (b AND 0x7F)) OR result :: u64) = unat b mod 128 * 2 ^ k + unat result"
    using unat_push_bit_or [OF assms(1), of "ucast (b AND 0x7F)"] by (simp add: ucast_group)
  with l show ?thesis by (simp add: or.commute)
qed

lemma parses_varint_loop:
  "is_varint bs \<Longrightarrow> k + length bs \<le> 10 \<Longrightarrow> unat result < 2 ^ (7 * k) \<Longrightarrow>
    parses (varint_loop result (7 * k) :: ('a pb_istream, u64) cop) bs
      (result + word_of_nat (groups_val bs) * 2 ^ (7 * k))"
proof (induction bs arbitrary: k result)
  case Nil
  then show ?case by simp
next
  case (Cons b bs)
  let ?r = "result OR push_bit (7 * k) (ucast (b AND 0x7F))"
  have k: "7 * k < 64" and m: "(7 * k + 7) mod 256 = 7 * Suc k" using Cons.prems(2) by simp_all
  have r: "?r = result + word_of_nat (unat b mod 128) * 2 ^ (7 * k)" by (rule or_group [OF Cons.prems(3)])
  note step = varint_loop_step [OF k, of result]
  show ?case
  proof (cases "unat b < 128")
    case True
    then have "bs = []" and "b AND 0x80 = 0" using Cons.prems(1) by (simp_all add: byte_and_0x80)
    then have "parses (varint_loop result (7 * k) :: ('a pb_istream, u64) cop) ([b] @ []) ?r"
      unfolding step by (intro parses_bind [OF parses_byte]) (simp add: parses_ret)
    then show ?thesis using \<open>bs = []\<close> r by simp
  next
    case False
    then have v: "is_varint bs" and hi: "b AND 0x80 \<noteq> 0" using Cons.prems(1) by (simp_all add: byte_and_0x80)
    then have "bs \<noteq> []" by auto
    then have "7 * k + 7 < 64" using Cons.prems(2) by (cases bs) auto
    then have "unat ?r < 2 ^ (7 * Suc k)" using or_group_less [OF Cons.prems(3)] by (simp add: add.commute)
    then have "parses (varint_loop ?r (7 * Suc k) :: ('a pb_istream, u64) cop) bs (?r + word_of_nat (groups_val bs) * 2 ^ (7 * Suc k))"
      using Cons.prems(2) v by (intro Cons.IH) simp_all
    then have "parses (varint_loop result (7 * k) :: ('a pb_istream, u64) cop) ([b] @ bs) (?r + word_of_nat (groups_val bs) * 2 ^ (7 * Suc k))"
      unfolding step by (intro parses_bind [OF parses_byte]) (simp add: hi m)
    moreover have "?r + word_of_nat (groups_val bs) * 2 ^ (7 * Suc k) =
        result + word_of_nat (groups_val (b # bs)) * 2 ^ (7 * k)"
      unfolding r by (simp add: algebra_simps power_add)
    ultimately show ?thesis by simp
  qed
qed

lemma parses_varint_groups:
  assumes "is_varint bs" and "length bs \<le> 10"
  shows "parses pb_decode_varint bs (word_of_nat (groups_val bs))"
  using parses_varint_loop [of bs 0 0] assms by (simp add: pb_decode_varint_def)

lemma parses_varint: "parses pb_decode_varint (varint (unat v)) v"
  using parses_varint_groups [OF is_varint_varint length_varint_u64, of v] by (simp add: groups_val_varint)

text \<open>Zig-zag: the sign of a number in its lowest bit.\<close>

definition zigzag :: "u64 \<Rightarrow> u64" where
  "zigzag v = (if sint v < 0 then NOT (push_bit 1 v) else push_bit 1 v)"

lemma zigzag_inverse: "(if zigzag v AND 1 \<noteq> 0 then NOT (drop_bit 1 (zigzag v)) else drop_bit 1 (zigzag v)) = v"
proof -
  have s: "sint v < 0 \<longleftrightarrow> bit v 63" using bit_last_iff [of v] by simp
  have b: "w AND 1 \<noteq> 0 \<longleftrightarrow> bit w 0" for w :: u64 by (simp add: and_one_eq odd_iff_mod_2_eq_one bit_0 flip: odd_iff_mod_2_eq_one)
  have 63: "bit v (Suc n) \<longleftrightarrow> False" if "63 \<le> n" for n using that by (auto dest: bit_imp_le_length)
  show ?thesis
  proof (cases "sint v < 0")
    case True
    then have "zigzag v AND 1 \<noteq> 0"
      unfolding b zigzag_def bit_push_bit_iff bit_not_iff if_P [OF True] by simp
    moreover have "NOT (drop_bit 1 (NOT (push_bit 1 v))) = v"
    proof (rule bit_word_eqI)
      fix n assume "n < LENGTH(64)"
      then have "n = 63 \<or> n < 63" by auto
      with True s \<open>n < LENGTH(64)\<close> show "bit (NOT (drop_bit 1 (NOT (push_bit 1 v)))) n = bit v n"
        unfolding bit_not_iff bit_drop_bit_eq comp_def bit_push_bit_iff by auto
    qed
    ultimately show ?thesis using True by (simp add: zigzag_def)
  next
    case False
    then have "\<not> zigzag v AND 1 \<noteq> 0" unfolding b zigzag_def if_not_P [OF False] bit_push_bit_iff by simp
    moreover have "drop_bit 1 (push_bit 1 v) = v"
    proof (rule bit_word_eqI)
      fix n assume "n < LENGTH(64)"
      then have "n = 63 \<or> n < 63" by auto
      with False s \<open>n < LENGTH(64)\<close> show "bit (drop_bit 1 (push_bit 1 v)) n = bit v n"
        unfolding bit_drop_bit_eq comp_def bit_push_bit_iff by auto
    qed
    ultimately show ?thesis using False by (simp add: zigzag_def)
  qed
qed

lemma puts_svarint: "puts (pb_encode_svarint v) (varint (unat (zigzag v)))"
  using puts_varint [of "zigzag v"] by (simp add: pb_encode_svarint_def zigzag_def Let_def)

lemma parses_svarint: "parses pb_decode_svarint (varint (unat (zigzag v))) v"
  using parses_map [OF parses_varint [of "zigzag v"], of "\<lambda>value. if value AND 1 \<noteq> 0 then NOT (drop_bit 1 value) else drop_bit 1 value"]
  by (simp only: pb_decode_svarint_def zigzag_inverse)

section \<open>Fixed-width integers\<close>

definition byte_at :: "nat \<Rightarrow> 'a::len word \<Rightarrow> byte" where
  "byte_at k v = ucast (drop_bit k v AND 0xFF)"

definition fixed32 :: "u32 \<Rightarrow> byte list" where
  "fixed32 v = [byte_at 0 v, byte_at 8 v, byte_at 16 v, byte_at 24 v]"

definition fixed64 :: "u64 \<Rightarrow> byte list" where
  "fixed64 v = [byte_at 0 v, byte_at 8 v, byte_at 16 v, byte_at 24 v,
     byte_at 32 v, byte_at 40 v, byte_at 48 v, byte_at 56 v]"

lemma bit_byte_back:
  fixes v :: "'a::len word"
  assumes "k + 8 \<le> LENGTH('a)" and "n < LENGTH('a)"
  shows "bit (push_bit k (ucast (byte_at k v)) :: 'a word) n \<longleftrightarrow> k \<le> n \<and> n < k + 8 \<and> bit v n"
proof -
  have ff: "(0xFF :: 'a word) = mask 8" by (simp add: mask_eq_exp_minus_1)
  have "bit (byte_at k v) i \<longleftrightarrow> i < 8 \<and> bit v (k + i)" for i
    unfolding byte_at_def ff bit_ucast_iff bit_and_iff bit_drop_bit_eq comp_def bit_mask_iff
    using assms(1) by (auto dest: bit_imp_le_length)
  note b = this
  show ?thesis
  proof (cases "k \<le> n")
    case True
    then obtain i where i: "n = k + i" using le_Suc_ex by blast
    then show ?thesis
      using assms b [of i] unfolding bit_push_bit_iff bit_ucast_iff by auto
  next
    case False
    then show ?thesis by (simp add: bit_push_bit_iff)
  qed
qed

lemma from_fixed32:
  "push_bit 0 (ucast (byte_at 0 v)) OR push_bit 8 (ucast (byte_at 8 v)) OR push_bit 16 (ucast (byte_at 16 v)) OR
    push_bit 24 (ucast (byte_at 24 v)) = v" for v :: u32
proof (rule bit_word_eqI)
  fix n assume "n < LENGTH(32)"
  then have n: "n < 32" by simp
  have b: "bit (push_bit k (ucast (byte_at k v)) :: u32) n \<longleftrightarrow> k \<le> n \<and> n < k + 8 \<and> bit v n" if "k \<le> 24" for k
    using bit_byte_back [of k n v] n that by simp
  have b': "bit (push_bit 0 (ucast (byte_at 0 v)) :: u32) n \<longleftrightarrow> 0 \<le> n \<and> n < 8 \<and> bit v n"
    "bit (push_bit 8 (ucast (byte_at 8 v)) :: u32) n \<longleftrightarrow> 8 \<le> n \<and> n < 16 \<and> bit v n"
    "bit (push_bit 16 (ucast (byte_at 16 v)) :: u32) n \<longleftrightarrow> 16 \<le> n \<and> n < 24 \<and> bit v n"
    "bit (push_bit 24 (ucast (byte_at 24 v)) :: u32) n \<longleftrightarrow> 24 \<le> n \<and> n < 32 \<and> bit v n"
    by (subst b, simp, simp)+
  show "bit (push_bit 0 (ucast (byte_at 0 v)) OR push_bit 8 (ucast (byte_at 8 v)) OR push_bit 16 (ucast (byte_at 16 v)) OR
      push_bit 24 (ucast (byte_at 24 v)) :: u32) n = bit v n"
    unfolding bit_or_iff b' using n by (cases "bit v n") (simp_all, linarith)
qed

lemma puts_fixed32: "puts (pb_encode_fixed32 v :: ('a pb_ostream, unit) cop) (fixed32 v)"
proof -
  have "length (fixed32 v) = 4" by (simp add: fixed32_def)
  moreover have "(pb_encode_fixed32 v :: ('a pb_ostream, unit) cop) = pb_write (fixed32 v) 4"
    by (simp add: pb_encode_fixed32_def fixed32_def byte_at_def)
  ultimately show ?thesis using puts_write [of "fixed32 v"] by simp
qed

lemma parses_fixed32: "parses pb_decode_fixed32 (fixed32 v) v"
proof -
  have "length (fixed32 v) = 4" by (simp add: fixed32_def)
  with parses_read [of "fixed32 v"] have "parses (pb_read 4) (fixed32 v) (fixed32 v)" by simp
  from parses_map [OF this, of "\<lambda>bytes. push_bit 0 (ucast (bytes ! 0)) OR push_bit 8 (ucast (bytes ! 1)) OR push_bit 16 (ucast (bytes ! 2)) OR
       push_bit 24 (ucast (bytes ! 3)) :: u32"]
  show ?thesis using from_fixed32 [of v] by (simp add: pb_decode_fixed32_def fixed32_def)
qed

lemma from_fixed64:
  "push_bit 0 (ucast (byte_at 0 v)) OR push_bit 8 (ucast (byte_at 8 v)) OR push_bit 16 (ucast (byte_at 16 v)) OR
    push_bit 24 (ucast (byte_at 24 v)) OR push_bit 32 (ucast (byte_at 32 v)) OR push_bit 40 (ucast (byte_at 40 v)) OR
    push_bit 48 (ucast (byte_at 48 v)) OR push_bit 56 (ucast (byte_at 56 v)) = v" for v :: u64
proof (rule bit_word_eqI)
  fix n assume "n < LENGTH(64)"
  then have n: "n < 64" by simp
  have b: "bit (push_bit k (ucast (byte_at k v)) :: u64) n \<longleftrightarrow> k \<le> n \<and> n < k + 8 \<and> bit v n" if "k \<le> 56" for k
    using bit_byte_back [of k n v] n that by simp
  have b': "bit (push_bit 0 (ucast (byte_at 0 v)) :: u64) n \<longleftrightarrow> 0 \<le> n \<and> n < 8 \<and> bit v n"
    "bit (push_bit 8 (ucast (byte_at 8 v)) :: u64) n \<longleftrightarrow> 8 \<le> n \<and> n < 16 \<and> bit v n"
    "bit (push_bit 16 (ucast (byte_at 16 v)) :: u64) n \<longleftrightarrow> 16 \<le> n \<and> n < 24 \<and> bit v n"
    "bit (push_bit 24 (ucast (byte_at 24 v)) :: u64) n \<longleftrightarrow> 24 \<le> n \<and> n < 32 \<and> bit v n"
    "bit (push_bit 32 (ucast (byte_at 32 v)) :: u64) n \<longleftrightarrow> 32 \<le> n \<and> n < 40 \<and> bit v n"
    "bit (push_bit 40 (ucast (byte_at 40 v)) :: u64) n \<longleftrightarrow> 40 \<le> n \<and> n < 48 \<and> bit v n"
    "bit (push_bit 48 (ucast (byte_at 48 v)) :: u64) n \<longleftrightarrow> 48 \<le> n \<and> n < 56 \<and> bit v n"
    "bit (push_bit 56 (ucast (byte_at 56 v)) :: u64) n \<longleftrightarrow> 56 \<le> n \<and> n < 64 \<and> bit v n"
    by (subst b, simp, simp)+
  show "bit (push_bit 0 (ucast (byte_at 0 v)) OR push_bit 8 (ucast (byte_at 8 v)) OR push_bit 16 (ucast (byte_at 16 v)) OR
      push_bit 24 (ucast (byte_at 24 v)) OR push_bit 32 (ucast (byte_at 32 v)) OR push_bit 40 (ucast (byte_at 40 v)) OR
      push_bit 48 (ucast (byte_at 48 v)) OR push_bit 56 (ucast (byte_at 56 v)) :: u64) n = bit v n"
    unfolding bit_or_iff b' using n by (cases "bit v n") (simp_all, linarith)
qed

lemma puts_fixed64: "puts (pb_encode_fixed64 v :: ('a pb_ostream, unit) cop) (fixed64 v)"
proof -
  have "length (fixed64 v) = 8" by (simp add: fixed64_def)
  moreover have "(pb_encode_fixed64 v :: ('a pb_ostream, unit) cop) = pb_write (fixed64 v) 8"
    by (simp add: pb_encode_fixed64_def fixed64_def byte_at_def)
  ultimately show ?thesis using puts_write [of "fixed64 v"] by simp
qed

lemma parses_fixed64: "parses pb_decode_fixed64 (fixed64 v) v"
proof -
  have "length (fixed64 v) = 8" by (simp add: fixed64_def)
  with parses_read [of "fixed64 v"] have "parses (pb_read 8) (fixed64 v) (fixed64 v)" by simp
  from parses_map [OF this, of "\<lambda>bytes. push_bit 0 (ucast (bytes ! 0)) OR push_bit 8 (ucast (bytes ! 1)) OR push_bit 16 (ucast (bytes ! 2)) OR
       push_bit 24 (ucast (bytes ! 3)) OR push_bit 32 (ucast (bytes ! 4)) OR push_bit 40 (ucast (bytes ! 5)) OR
       push_bit 48 (ucast (bytes ! 6)) OR push_bit 56 (ucast (bytes ! 7)) :: u64"]
  show ?thesis using from_fixed64 [of v] by (simp add: pb_decode_fixed64_def fixed64_def)
qed

section \<open>32-bit integers\<close>

lemma varint32_loop_step:
  "varint32_loop result bitpos = op_bind pb_readbyte (\<lambda>byte.
     if bitpos \<ge> 32 \<and> byte AND 0x7F \<noteq> 0 \<and>
        (drop_bit 31 result = 0 \<or> byte \<noteq> (if bitpos < 63 then 0xFF else 0x01)) then is_error ''varint overflow''
     else if byte AND 0x80 \<noteq> 0 then
       varint32_loop (if bitpos \<ge> 32 then result else result OR push_bit bitpos (ucast (byte AND 0x7F)))
         ((bitpos + 7) mod 256)
     else if (bitpos + 7) mod 256 = 35 \<and> byte AND 0x70 \<noteq> 0 then is_error ''varint overflow''
     else op_ret (if bitpos \<ge> 32 then result else result OR push_bit bitpos (ucast (byte AND 0x7F))))"
  by (intro ext)
    (auto simp: varint32_loop.simps [of result bitpos] op_simps Let_def split: option.split prod.split)

lemma varint32_step_low:
  assumes "bitpos < 32"
  shows "varint32_loop result bitpos = op_bind pb_readbyte (\<lambda>byte.
     if byte AND 0x80 \<noteq> 0 then varint32_loop (result OR push_bit bitpos (ucast (byte AND 0x7F))) (bitpos + 7)
     else if bitpos = 28 \<and> byte AND 0x70 \<noteq> 0 then is_error ''varint overflow''
     else op_ret (result OR push_bit bitpos (ucast (byte AND 0x7F))))"
  unfolding varint32_loop_step [of result bitpos]
  by (rule arg_cong [of _ _ "op_bind pb_readbyte"], rule ext) (use assms in auto)

lemma or_group32:
  fixes result :: u32 and b :: byte
  assumes "unat result < 2 ^ k"
  shows "result OR push_bit k (ucast (b AND 0x7F)) = result + word_of_nat (unat b mod 128) * 2 ^ k"
proof -
  have "(ucast (b AND 0x7F) :: u32) = word_of_nat (unat b mod 128)"
    unfolding ucast_group32 [of b, symmetric] by simp
  then show ?thesis using push_bit_or_small [OF assms] by (simp add: or.commute add.commute)
qed

lemma or_group32_less:
  fixes b :: byte
  assumes "unat result < 2 ^ k" and "k + 7 < 32"
  shows "unat (result OR push_bit k (ucast (b AND 0x7F)) :: u32) < 2 ^ (k + 7)"
proof -
  have m: "unat b mod 128 \<le> 127" by (simp add: less_Suc_eq_le [symmetric])
  have "unat b mod 128 * 2 ^ k + unat result < 127 * 2 ^ k + 2 ^ k"
    using mult_right_mono [OF m, of "2 ^ k"] assms(1) by linarith
  also have "\<dots> = 2 ^ (k + 7)" by (simp add: power_add)
  finally have l: "unat b mod 128 * 2 ^ k + unat result < 2 ^ (k + 7)" .
  also have "(2 :: nat) ^ (k + 7) < 2 ^ 32" using assms(2) by (intro power_strict_increasing) auto
  finally have "unat (push_bit k (ucast (b AND 0x7F)) OR result :: u32) = unat b mod 128 * 2 ^ k + unat result"
    using unat_push_bit_or [OF assms(1), of "ucast (b AND 0x7F)"] by (simp add: ucast_group32)
  with l show ?thesis by (simp add: or.commute)
qed

lemma byte_and_0x70: "unat b < 16 \<Longrightarrow> b AND 0x70 = 0" for b :: byte
  using push_bit_and_small [of b 4 7] by (simp add: and.commute)

lemma parses_varint32_loop:
  "is_varint bs \<Longrightarrow> k + length bs \<le> 5 \<Longrightarrow> unat result < 2 ^ (7 * k) \<Longrightarrow> groups_val bs * 2 ^ (7 * k) < 2 ^ 32 \<Longrightarrow>
    parses (varint32_loop result (7 * k) :: ('a pb_istream, u32) cop) bs
      (result + word_of_nat (groups_val bs) * 2 ^ (7 * k))"
proof (induction bs arbitrary: k result)
  case Nil
  then show ?case by simp
next
  case (Cons b bs)
  let ?r = "result OR push_bit (7 * k) (ucast (b AND 0x7F))"
  have k: "7 * k < 32" using Cons.prems(2) by simp
  have r: "?r = result + word_of_nat (unat b mod 128) * 2 ^ (7 * k)" by (rule or_group32 [OF Cons.prems(3)])
  note step = varint32_step_low [OF k, of result]
  show ?case
  proof (cases "unat b < 128")
    case True
    then have "bs = []" and b: "b AND 0x80 = 0" using Cons.prems(1) by (simp_all add: byte_and_0x80)
    have "b AND 0x70 = 0" if "7 * k = 28"
    proof (rule byte_and_0x70)
      have "unat b * 2 ^ 28 < 16 * 2 ^ 28" using Cons.prems(4) True \<open>bs = []\<close> that by simp
      then show "unat b < 16" by simp
    qed
    then have "parses (varint32_loop result (7 * k) :: ('a pb_istream, u32) cop) ([b] @ []) ?r"
      unfolding step using b by (intro parses_bind [OF parses_byte]) (auto simp: parses_ret)
    then show ?thesis using \<open>bs = []\<close> r by simp
  next
    case False
    then have v: "is_varint bs" and hi: "b AND 0x80 \<noteq> 0" using Cons.prems(1) by (simp_all add: byte_and_0x80)
    then have "bs \<noteq> []" by auto
    then have "7 * k + 7 < 32" using Cons.prems(2) by (cases bs) auto
    then have less: "unat ?r < 2 ^ (7 * Suc k)" using or_group32_less [OF Cons.prems(3)] by (simp add: add.commute)
    have "groups_val bs * 2 ^ (7 * Suc k) \<le> groups_val (b # bs) * 2 ^ (7 * k)" by (simp add: power_add algebra_simps)
    then have "groups_val bs * 2 ^ (7 * Suc k) < 2 ^ 32" using Cons.prems(4) by linarith
    then have "parses (varint32_loop ?r (7 * Suc k) :: ('a pb_istream, u32) cop) bs
        (?r + word_of_nat (groups_val bs) * 2 ^ (7 * Suc k))"
      using Cons.prems(2) v less by (intro Cons.IH) simp_all
    then have "parses (varint32_loop result (7 * k) :: ('a pb_istream, u32) cop) ([b] @ bs)
        (?r + word_of_nat (groups_val bs) * 2 ^ (7 * Suc k))"
      unfolding step by (intro parses_bind [OF parses_byte]) (simp add: hi add.commute)
    moreover have "?r + word_of_nat (groups_val bs) * 2 ^ (7 * Suc k) =
        result + word_of_nat (groups_val (b # bs)) * 2 ^ (7 * k)"
      unfolding r by (simp add: algebra_simps power_add)
    ultimately show ?thesis by simp
  qed
qed

text \<open>\<open>pb_decode_varint32_eof\<close> leaves \<open>*eof\<close> alone when it returns a number.\<close>

definition parses_eof :: "('s pb_istream \<Rightarrow> 'a option \<times> bool \<times> 's pb_istream) \<Rightarrow> byte list \<Rightarrow> 'a \<Rightarrow> bool" where
  "parses_eof f bs v \<longleftrightarrow>
     (\<forall>stream rest n e. stream_at stream (bs @ rest) (length bs + n) e \<longrightarrow>
        (\<exists>stream'. f stream = (Some v, False, stream') \<and> stream_at stream' rest n e))"

lemma parses_eof_first:
  assumes "parses (varint32_loop (ucast (b AND 0x7F)) 7 :: ('a pb_istream, u32) cop) bs v" and "128 \<le> unat b"
  shows "parses_eof (pb_decode_varint32_eof :: 'a pb_istream \<Rightarrow> _) (b # bs) v"
  unfolding parses_eof_def
proof (intro allI impI)
  fix stream :: "'a pb_istream" and rest n e
  assume "stream_at stream ((b # bs) @ rest) (length (b # bs) + n) e"
  then have s: "stream_at stream ([b] @ bs @ rest) (length [b] + (length bs + n)) e" by simp
  obtain s1 where 1: "pb_readbyte stream = (Some b, s1)" "stream_at s1 (bs @ rest) (length bs + n) e"
    by (rule parsesE [OF parses_byte s])
  obtain s2 where "varint32_loop (ucast (b AND 0x7F)) 7 s1 = (Some v, s2)" "stream_at s2 rest n e"
    by (rule parsesE [OF assms(1) 1(2)])
  with 1 assms(2) byte_and_0x80 [of b] show "\<exists>stream'. pb_decode_varint32_eof stream = (Some v, False, stream') \<and> stream_at stream' rest n e"
    by (simp add: pb_decode_varint32_eof_def)
qed

lemma parses_varint32_eof:
  assumes "n < 2 ^ 32"
  shows "parses_eof (pb_decode_varint32_eof :: 'a pb_istream \<Rightarrow> _) (varint n) (word_of_nat n)"
proof (cases "n < 128")
  case True
  let ?b = "word_of_nat n :: byte"
  have u: "unat ?b = n" using True by (intro unat_byte_of_nat) simp
  then have b: "?b AND 0x80 = 0" using True by (simp add: byte_and_0x80)
  have c: "(ucast ?b :: u32) = word_of_nat n"
    using True u by (intro word_unat_eq_iff [THEN iffD2]) (simp add: unat_ucast_up unat_of_nat)
  show ?thesis unfolding parses_eof_def
  proof (intro allI impI)
    fix stream :: "'a pb_istream" and rest k e
    assume "stream_at stream (varint n @ rest) (length (varint n) + k) e"
    then have s: "stream_at stream ([?b] @ rest) (length [?b] + k) e" using True by (simp add: varint_small)
    obtain s1 where "pb_readbyte stream = (Some ?b, s1)" "stream_at s1 rest k e"
      by (rule parsesE [OF parses_byte s])
    with b c show "\<exists>stream'. pb_decode_varint32_eof stream = (Some (word_of_nat n), False, stream') \<and> stream_at stream' rest k e"
      by (simp add: pb_decode_varint32_eof_def)
  qed
next
  case False
  define b where "b = (word_of_nat (n mod 128 + 128) :: byte)"
  have u: "unat b = n mod 128 + 128" unfolding b_def by (rule unat_varint_head)
  have v: "varint n = b # varint (n div 128)" using False by (simp add: varint_big b_def)
  have "n < 128 ^ Suc 4" using assms by simp
  from length_varint_le [OF this] have len: "length (varint (n div 128)) \<le> 4" by (simp add: v)
  have g: "unat (ucast (b AND 0x7F) :: u32) = n mod 128" by (simp add: ucast_group32 u)
  have p: "parses (varint32_loop (ucast (b AND 0x7F)) (7 * 1) :: ('a pb_istream, u32) cop) (varint (n div 128))
      (ucast (b AND 0x7F) + word_of_nat (groups_val (varint (n div 128))) * 2 ^ (7 * 1))"
  proof (rule parses_varint32_loop [OF is_varint_varint])
    show "1 + length (varint (n div 128)) \<le> 5" using len by simp
    show "unat (ucast (b AND 0x7F) :: u32) < 2 ^ (7 * 1)" unfolding g by simp
    have "n div 128 * 128 \<le> n" by simp
    then show "groups_val (varint (n div 128)) * 2 ^ (7 * 1) < 2 ^ 32" using assms by (simp add: groups_val_varint)
  qed
  have "(ucast (b AND 0x7F) :: u32) = word_of_nat (n mod 128)" unfolding g [symmetric] by simp
  then have "ucast (b AND 0x7F) + word_of_nat (n div 128) * 2 ^ (7 * 1) =
      (word_of_nat (n mod 128 + n div 128 * 128) :: u32)"
    by (simp only: of_nat_add of_nat_mult) simp
  also have "\<dots> = word_of_nat n" by (simp only: mod_div_mult_eq add.commute)
  finally show ?thesis using parses_eof_first [OF p [simplified]] u v by (simp add: groups_val_varint)
qed

lemma parses_from_eof:
  "parses_eof (pb_decode_varint32_eof :: 'a pb_istream \<Rightarrow> _) bs v \<Longrightarrow>
    parses (pb_decode_varint32 :: ('a pb_istream, u32) cop) bs v"
  unfolding parses_def parses_eof_def pb_decode_varint32_def by fastforce

lemma parses_varint32: "n < 2 ^ 32 \<Longrightarrow> parses pb_decode_varint32 (varint n) (word_of_nat n)"
  by (rule parses_from_eof [OF parses_varint32_eof])

end
