(* ===== verification/PbInput.thy ===== *)
theory PbInput
  imports PbWire
begin

text \<open>
  Fields on the wire: keys, the skipping of fields, substreams, and what the two readers of base-128
  integers of nanopb do on input that no encoder writes.
\<close>

section \<open>The records of the wire format\<close>

datatype wire =
    Varint u32 u64
  | Fix64 u32 u64
  | Fix32 u32 u32
  | Bytes u32 "byte list"
  | Message u32 "wire list"
  | Raw "byte list"

definition wire_key :: "u32 \<Rightarrow> u32 \<Rightarrow> byte list" where
  "wire_key tag wire_type = varint (unat tag * 8 + unat wire_type)"

fun wire_bytes :: "wire \<Rightarrow> byte list" where
  "wire_bytes (Varint tag v) = wire_key tag PB_WT_VARINT @ varint (unat v)"
| "wire_bytes (Fix64 tag v) = wire_key tag PB_WT_64BIT @ fixed64 v"
| "wire_bytes (Fix32 tag v) = wire_key tag PB_WT_32BIT @ fixed32 v"
| "wire_bytes (Bytes tag bs) = wire_key tag PB_WT_STRING @ varint (length bs) @ bs"
| "wire_bytes (Message tag ws) =
     wire_key tag PB_WT_STRING @ varint (length (concat (map wire_bytes ws))) @ concat (map wire_bytes ws)"
| "wire_bytes (Raw bs) = bs"

lemma puts_tag:
  assumes "unat wire_type < 8"
  shows "puts (pb_encode_tag wire_type tag) (wire_key tag wire_type)"
proof -
  let ?v = "push_bit 3 (ucast tag) OR ucast wire_type :: u64"
  have t: "unat (ucast tag :: u64) = unat tag" and w: "unat (ucast wire_type :: u64) = unat wire_type"
    by (simp_all add: unat_ucast_up)
  have "unat tag < 2 ^ 32" using unsigned_less [of tag, where ?'a = nat] by simp
  then have "unat ?v = unat tag * 8 + unat wire_type"
    using unat_push_bit_or [of "ucast wire_type :: u64" 3 "ucast tag"] assms t w by simp
  with puts_varint [of ?v] show ?thesis by (simp add: pb_encode_tag_def wire_key_def)
qed

section \<open>Reading keys\<close>

lemma parses_tag:
  assumes "unat tag < 2 ^ 29" and "unat wire_type < 8" and "tag \<noteq> 0 \<or> wire_type \<noteq> 0"
  shows "parses_eof (pb_decode_tag :: 'a pb_istream \<Rightarrow> _) (wire_key tag wire_type) (wire_type, tag)"
  unfolding parses_eof_def
proof (intro allI impI)
  fix stream :: "'a pb_istream" and rest n e
  assume s: "stream_at stream (wire_key tag wire_type @ rest) (length (wire_key tag wire_type) + n) e"
  let ?k = "unat tag * 8 + unat wire_type"
  have k: "?k < 2 ^ 32" using assms(1,2) by simp
  define temp where "temp = (word_of_nat ?k :: u32)"
  have u: "unat temp = ?k" unfolding temp_def by (simp only: unat_of_nat) (use k in simp)
  obtain s1 where 1: "pb_decode_varint32_eof stream = (Some temp, False, s1)" "stream_at s1 rest n e"
    using parses_varint32_eof [OF k, where ?'a = 'a] s unfolding parses_eof_def wire_key_def temp_def by blast
  have "unat tag \<noteq> 0 \<or> unat wire_type \<noteq> 0" using assms(3) by (simp add: unat_eq_0)
  then have "unat temp \<noteq> 0" unfolding u by simp
  then have "temp \<noteq> 0" by auto
  moreover have "unat (temp AND 7) = unat wire_type"
  proof -
    have "temp AND 7 = take_bit 3 temp" by (simp add: take_bit_eq_mask mask_eq_exp_minus_1)
    then show ?thesis using assms(2) by (simp only: unat_take_bit u) simp
  qed
  then have "temp AND 7 = wire_type" by (simp add: word_unat_eq_iff)
  moreover have "unat (drop_bit 3 temp) = unat tag" using assms(2) by (simp only: unat_drop_bit u) simp
  then have "drop_bit 3 temp = tag" by (simp add: word_unat_eq_iff)
  ultimately show "\<exists>stream'. pb_decode_tag stream = (Some (wire_type, tag), False, stream') \<and> stream_at stream' rest n e"
    using 1 by (simp add: pb_decode_tag_def)
qed

section \<open>Skipping\<close>

lemma pb_skip_varint_step:
  "pb_skip_varint = op_bind (pb_read 1) (\<lambda>byte. if byte ! 0 AND 0x80 \<noteq> 0 then pb_skip_varint else op_ret ())"
  by (intro ext) (subst pb_skip_varint.simps, auto simp: op_simps split: option.split prod.split)

lemma parses_read_1: "parses (pb_read 1) [b] [b]"
  using parses_read [of "[b]"] by simp

lemma parses_skip_varint: "is_varint bs \<Longrightarrow> parses (pb_skip_varint :: ('a pb_istream, unit) cop) bs ()"
proof (induction bs)
  case Nil
  then show ?case by simp
next
  case (Cons b bs)
  show ?case
  proof (cases "unat b < 128")
    case True
    then have "bs = []" "b AND 0x80 = 0" using Cons.prems by (simp_all add: byte_and_0x80)
    then have "parses (pb_skip_varint :: ('a pb_istream, unit) cop) ([b] @ []) ()"
      by (subst pb_skip_varint_step) (rule parses_bind [OF parses_read_1], simp add: parses_ret)
    then show ?thesis using \<open>bs = []\<close> by simp
  next
    case False
    then have hi: "b AND 0x80 \<noteq> 0" and "parses (pb_skip_varint :: ('a pb_istream, unit) cop) bs ()"
      using Cons by (simp_all add: byte_and_0x80)
    then have "parses (pb_skip_varint :: ('a pb_istream, unit) cop) ([b] @ bs) ()"
      by (subst pb_skip_varint_step) (rule parses_bind [OF parses_read_1], simp)
    then show ?thesis by simp
  qed
qed

lemma unat_u32_of_nat: "n < 2 ^ 32 \<Longrightarrow> unat (word_of_nat n :: u32) = n"
  by (simp only: unat_of_nat) simp

lemma parses_skip_string:
  "length bs < 2 ^ 32 \<Longrightarrow> parses pb_skip_string (varint (length bs) @ bs) ()"
  unfolding pb_skip_string_def
  by (rule parses_bind [OF parses_varint32]) (simp_all only: unat_u32_of_nat parses_read_null)

text \<open>The payload a wire type announces.\<close>

definition payload_ok :: "u32 \<Rightarrow> byte list \<Rightarrow> bool" where
  "payload_ok wire_type bs \<longleftrightarrow>
     (wire_type = PB_WT_VARINT \<and> is_varint bs) \<or> (wire_type = PB_WT_64BIT \<and> length bs = 8) \<or>
     (wire_type = PB_WT_32BIT \<and> length bs = 4) \<or>
     (wire_type = PB_WT_STRING \<and> (\<exists>cs. bs = varint (length cs) @ cs \<and> length cs < 2 ^ 32))"

lemma parses_skip_field: "payload_ok wire_type bs \<Longrightarrow> parses (pb_skip_field wire_type) bs ()"
  unfolding payload_ok_def
  using parses_skip_varint [of bs] parses_read_null [of bs] parses_skip_string
  by (auto simp: pb_skip_field_def)

section \<open>Substreams\<close>

text \<open>A substream has the bytes the length announces; closing it skips what is left of them.\<close>

lemma make_substream:
  assumes "stream_at stream (varint (length bs) @ bs @ rest) (length (varint (length bs)) + length bs + n) e"
    and "length bs < 2 ^ 32"
  obtains substream stream' where
    "pb_make_string_substream stream = (Some substream, stream')"
    "stream_at substream (bs @ rest) (length bs) e" "stream_at stream' (bs @ rest) n e"
proof -
  have s: "stream_at stream (varint (length bs) @ bs @ rest) (length (varint (length bs)) + (length bs + n)) e"
    using assms(1) by (simp add: add.assoc)
  obtain s1 where 1: "pb_decode_varint32 stream = (Some (word_of_nat (length bs)), s1)"
    "stream_at s1 (bs @ rest) (length bs + n) e"
    by (rule parsesE [OF parses_varint32 [OF assms(2)] s])
  then show thesis
    using assms(2) unat_u32_of_nat [OF assms(2)]
    by (intro that [of "s1\<lparr>bytes_left := length bs\<rparr>" "s1\<lparr>bytes_left := n\<rparr>"])
      (simp_all add: pb_make_string_substream_def op_simps stream_at_def)
qed

lemma close_substream:
  assumes "stream_at substream (bs @ rest) (length bs) e" and "bytes_left stream = n" and "n \<le> length rest"
  obtains stream' where "pb_close_string_substream substream stream = (Some (), stream')" "stream_at stream' rest n e"
proof -
  have s: "stream_at substream (bs @ rest) (length bs + 0) e" using assms(1) by simp
  have b: "bytes_left substream = length bs" using assms(1) by (simp add: stream_at_def)
  obtain sub' where 1: "pb_read_null (length bs) substream = (Some (), sub')" "stream_at sub' rest 0 e"
    by (rule parsesE [OF parses_read_null s])
  show thesis
  proof (rule that)
    show "pb_close_string_substream substream stream =
        (Some (), stream\<lparr>is_source := is_source sub', is_errmsg := is_errmsg sub'\<rparr>)"
      using 1(1) b by (auto simp: pb_close_string_substream_def pb_read_null_def)
    show "stream_at (stream\<lparr>is_source := is_source sub', is_errmsg := is_errmsg sub'\<rparr>) rest n e"
      using 1(2) assms(2,3) by (simp add: stream_at_def)
  qed
qed

section \<open>Input that is not a number\<close>

definition continued :: "byte list \<Rightarrow> bool" where
  "continued bs \<longleftrightarrow> (\<forall>b \<in> set bs. 128 \<le> unat b)"

lemma varint_prefix_cases: "(\<exists>g rest. bs = g @ rest \<and> is_varint g) \<or> continued bs"
proof (induction bs)
  case Nil
  then show ?case by (simp add: continued_def)
next
  case (Cons b bs)
  show ?case
  proof (cases "unat b < 128")
    case True
    then have "is_varint [b]" by simp
    then show ?thesis by (intro disjI1 exI [of _ "[b]"] exI [of _ bs]) simp
  next
    case False
    from Cons.IH show ?thesis
    proof (elim disjE exE conjE)
      fix g rest assume "bs = g @ rest" "is_varint g"
      with False show ?thesis by (intro disjI1 exI [of _ "b # g"] exI [of _ rest]) simp
    next
      assume "continued bs"
      with False show ?thesis by (simp add: continued_def)
    qed
  qed
qed

lemma is_varint_butlast: "is_varint g \<Longrightarrow> k < length g \<Longrightarrow> continued (take k g)"
proof (induction g arbitrary: k)
  case Nil
  then show ?case by simp
next
  case (Cons b g)
  show ?case
  proof (cases k)
    case 0
    then show ?thesis by (simp add: continued_def)
  next
    case (Suc j)
    with Cons.prems have "128 \<le> unat b" "is_varint g" "j < length g" by (auto split: if_splits)
    with Cons.IH [of j] Suc show ?thesis by (simp add: continued_def)
  qed
qed

lemma varint_loop_continued:
  assumes "continued cs" and "k + length cs \<le> 10" and "stream_at stream (cs @ rest) (length cs + n) e"
  shows "\<exists>result' stream'. varint_loop result (7 * k) stream = varint_loop result' (7 * (k + length cs)) stream' \<and>
    stream_at stream' rest n e"
  using assms
proof (induction cs arbitrary: k result stream)
  case Nil
  then show ?case by (intro exI [of _ result] exI [of _ stream]) simp
next
  case (Cons c cs)
  have k: "7 * k < 64" and m: "(7 * k + 7) mod 256 = 7 * Suc k" using Cons.prems(2) by simp_all
  have hi: "c AND 0x80 \<noteq> 0" using Cons.prems(1) byte_and_0x80 [of c] by (simp add: continued_def)
  have s: "stream_at stream ([c] @ cs @ rest) (length [c] + (length cs + n)) e" using Cons.prems(3) by simp
  obtain s1 where 1: "pb_readbyte stream = (Some c, s1)" "stream_at s1 (cs @ rest) (length cs + n) e"
    by (rule parsesE [OF parses_byte s])
  let ?r = "result OR push_bit (7 * k) (ucast (c AND 0x7F))"
  have "varint_loop result (7 * k) stream = varint_loop ?r (7 * Suc k) s1"
    unfolding varint_loop_step [OF k, of result] using 1(1) hi m by (simp add: op_simps)
  moreover obtain r' s' where "varint_loop ?r (7 * Suc k) s1 = varint_loop r' (7 * (Suc k + length cs)) s'"
    "stream_at s' rest n e"
    using Cons.IH [of "Suc k" s1 ?r] Cons.prems 1(2) by (auto simp: continued_def)
  ultimately show ?case by (intro exI [of _ r'] exI [of _ s']) simp
qed

lemma varint_too_long:
  assumes "continued cs" and "length cs = 10" and "stream_at stream (cs @ rest) (length cs + n) e"
  shows "fst (pb_decode_varint stream) = None"
  using varint_loop_continued [OF assms(1) _ assms(3), of 0 0] assms(2)
  by (auto simp: pb_decode_varint_def varint_loop.simps [of _ 70] is_error_def)

lemma varint_cut_off:
  assumes "continued cs" and "length cs < 10" and "stream_at stream cs (length cs) e"
  shows "fst (pb_decode_varint stream) = None"
proof -
  have "stream_at stream (cs @ []) (length cs + 0) e" using assms(3) by simp
  from varint_loop_continued [OF assms(1) _ this, of 0 0] assms(2) obtain r s where
    1: "pb_decode_varint stream = varint_loop r (7 * length cs) s" "stream_at s [] 0 e"
    by (auto simp: pb_decode_varint_def)
  then have "pb_readbyte s = is_error ''end-of-stream'' s" by (simp add: stream_at_def pb_readbyte_def)
  with 1 assms(2) show ?thesis
    by (simp add: varint_loop_step op_simps is_error_def)
qed

lemma varint_continued_None:
  assumes "continued bs" and "stream_at stream (bs @ rest) (length (bs @ rest)) e" and "10 \<le> length bs \<or> rest = []"
  shows "fst (pb_decode_varint stream) = None"
proof (cases "10 \<le> length bs")
  case True
  have "continued (take 10 bs)" using assms(1) by (auto simp: continued_def dest: in_set_takeD)
  moreover have "take 10 bs @ drop 10 bs @ rest = bs @ rest" by (simp flip: append_assoc)
  then have "stream_at stream (take 10 bs @ drop 10 bs @ rest) (length (take 10 bs @ drop 10 bs @ rest)) e"
    using assms(2) by (simp only:)
  then have "stream_at stream (take 10 bs @ drop 10 bs @ rest) (length (take 10 bs) + length (drop 10 bs @ rest)) e"
    by (simp only: length_append)
  ultimately show ?thesis
    using True by (intro varint_too_long [of "take 10 bs" stream "drop 10 bs @ rest" "length (drop 10 bs @ rest)" e]) simp_all
next
  case False
  then show ?thesis using assms by (intro varint_cut_off [of bs]) simp_all
qed

lemma pb_decode_varint_iff:
  assumes "stream_at stream bs (length bs) e"
  shows "fst (pb_decode_varint stream) = Some v \<longleftrightarrow>
    (\<exists>g rest. bs = g @ rest \<and> is_varint g \<and> length g \<le> 10 \<and> v = word_of_nat (groups_val g))"
proof
  assume "\<exists>g rest. bs = g @ rest \<and> is_varint g \<and> length g \<le> 10 \<and> v = word_of_nat (groups_val g)"
  then obtain g rest where g: "bs = g @ rest" "is_varint g" "length g \<le> 10" "v = word_of_nat (groups_val g)" by blast
  have s: "stream_at stream (g @ rest) (length g + length rest) e" using assms g(1) by simp
  obtain s' where "pb_decode_varint stream = (Some (word_of_nat (groups_val g)), s')"
    by (rule parsesE [OF parses_varint_groups [OF g(2,3)] s])
  then show "fst (pb_decode_varint stream) = Some v" using g(4) by simp
next
  assume some: "fst (pb_decode_varint stream) = Some v"
  from varint_prefix_cases [of bs]
  show "\<exists>g rest. bs = g @ rest \<and> is_varint g \<and> length g \<le> 10 \<and> v = word_of_nat (groups_val g)"
  proof (elim disjE exE conjE)
    fix g rest assume g: "bs = g @ rest" "is_varint g"
    show ?thesis
    proof (cases "length g \<le> 10")
      case True
      have s: "stream_at stream (g @ rest) (length g + length rest) e" using assms g(1) by simp
      obtain s' where "pb_decode_varint stream = (Some (word_of_nat (groups_val g)), s')"
        by (rule parsesE [OF parses_varint_groups [OF g(2) True] s])
      with some g True show ?thesis by auto
    next
      case False
      then have "continued (take 10 g)" using is_varint_butlast [OF g(2), of 10] by simp
      moreover have "take 10 g @ drop 10 g @ rest = bs" using g(1) by (simp flip: append_assoc)
      then have "stream_at stream (take 10 g @ drop 10 g @ rest) (length (take 10 g @ drop 10 g @ rest)) e"
        using assms by (simp only:)
      ultimately have "fst (pb_decode_varint stream) = None"
        using False by (intro varint_continued_None [of "take 10 g" stream "drop 10 g @ rest" e]) simp_all
      with some show ?thesis by simp
    qed
  next
    assume "continued bs"
    with assms have "fst (pb_decode_varint stream) = None" by (intro varint_continued_None [of bs stream "[]" e]) simp_all
    with some show ?thesis by simp
  qed
qed

lemma stream_at_buffer: "length bs = n \<Longrightarrow> stream_at (pb_istream_from_buffer bs n) bs n None"
  by (simp add: stream_at_def pb_istream_from_buffer_def gives_buffer)

text \<open>The position of the 32-bit reader comes back to 3 after 36 more bytes.\<close>

lemma varint32_zeros:
  assumes "parses (varint32_loop 0 ((bitpos + 7 * n) mod 256) :: ('a pb_istream, u32) cop) bs v"
  shows "parses (varint32_loop 0 (bitpos mod 256) :: ('a pb_istream, u32) cop) (replicate n 0x80 @ bs) v"
  using assms
proof (induction n arbitrary: bitpos)
  case 0
  then show ?case by simp
next
  case (Suc n)
  have "parses (varint32_loop 0 ((bitpos + 7) mod 256) :: ('a pb_istream, u32) cop) (replicate n 0x80 @ bs) v"
    using Suc.prems by (intro Suc.IH) (simp add: algebra_simps)
  then have "parses (varint32_loop 0 ((bitpos mod 256 + 7) mod 256) :: ('a pb_istream, u32) cop) (replicate n 0x80 @ bs) v"
    by (simp add: mod_simps)
  then have "parses (varint32_loop 0 (bitpos mod 256) :: ('a pb_istream, u32) cop) ([0x80] @ replicate n 0x80 @ bs) v"
    by (subst varint32_loop_step) (rule parses_bind [OF parses_byte], cases "bitpos mod 256 < 32", simp_all)
  then show ?case by simp
qed

lemma parses_varint32_wrapped: "parses pb_decode_varint32 (0x80 # replicate 36 0x80 @ [1]) 8"
proof (rule parses_from_eof [OF parses_eof_first])
  have "parses (varint32_loop 0 3 :: ('a pb_istream, u32) cop) ([1] @ []) 8"
    by (subst varint32_step_low) (simp, rule parses_bind [OF parses_byte], simp add: parses_ret)
  then show "parses (varint32_loop (ucast ((0x80 :: byte) AND 0x7F)) 7 :: ('a pb_istream, u32) cop)
      (replicate 36 0x80 @ [1]) 8"
    using varint32_zeros [of 7 36 "[1]" 8, where ?'a = 'a] by simp
qed simp

section \<open>Properties\<close>

text \<open>C20: every integer that an encoding function of nanopb writes, in each of the four formats, is what
  the decoding function of the format reads back from the bytes, whatever follows them and whatever
  source delivers them.\<close>

theorem pb_integers_roundtrip:
  "(\<exists>bs. puts (pb_encode_varint v) bs \<and> parses pb_decode_varint bs v) \<and>
   (\<exists>bs. puts (pb_encode_svarint v) bs \<and> parses pb_decode_svarint bs v) \<and>
   (\<exists>bs. puts (pb_encode_fixed64 v) bs \<and> parses pb_decode_fixed64 bs v) \<and>
   (\<exists>bs. puts (pb_encode_fixed32 w) bs \<and> parses pb_decode_fixed32 bs w)"
  using puts_varint parses_varint puts_svarint parses_svarint puts_fixed64 parses_fixed64 puts_fixed32 parses_fixed32
  by blast

text \<open>C22: on a buffer of any bytes, \<open>pb_decode_varint\<close> returns a number exactly if the buffer starts with
  a base-128 integer of at most ten bytes, and the number is the value of that integer modulo
  \<open>2 ^ 64\<close>; longer and truncated integers are refused.\<close>

theorem pb_decode_varint_exact:
  "fst (pb_decode_varint (pb_istream_from_buffer bs (length bs))) = Some v \<longleftrightarrow>
    (\<exists>g rest. bs = g @ rest \<and> is_varint g \<and> length g \<le> 10 \<and> v = word_of_nat (groups_val g))"
  by (rule pb_decode_varint_iff [OF stream_at_buffer [OF refl]])

text \<open>C32: the 32-bit reader counts bit positions in eight bits, so a 38-byte integer, which the 64-bit
  reader refuses, wraps its position around and is accepted with a wrong value.\<close>

theorem pb_decode_varint32_wraps:
  "fst (pb_decode_varint32 (pb_istream_from_buffer (replicate 37 0x80 @ [1]) 38 :: 's pb_istream)) = Some 8 \<and>
   fst (pb_decode_varint (pb_istream_from_buffer (replicate 37 0x80 @ [1]) 38 :: 's pb_istream)) = None"
proof
  let ?bs = "replicate 37 0x80 @ [1] :: byte list" and ?s = "pb_istream_from_buffer (replicate 37 0x80 @ [1]) 38 :: 's pb_istream"
  have bs: "?bs = 0x80 # replicate 36 0x80 @ [1]" using replicate_Suc [of 36] by simp
  have at: "stream_at ?s ?bs 38 None" by (rule stream_at_buffer) simp
  then have at': "stream_at ?s ((0x80 # replicate 36 0x80 @ [1]) @ [])
      (length (0x80 # replicate 36 0x80 @ [1]) + 0) None" by (simp add: bs)
  obtain s where "pb_decode_varint32 ?s = (Some 8, s)"
    by (rule parsesE [OF parses_varint32_wrapped at'])
  then show "fst (pb_decode_varint32 ?s) = Some 8" by simp
  show "fst (pb_decode_varint ?s) = None"
    using at by (intro varint_continued_None [of "replicate 37 0x80" _ "[1]"]) (simp_all add: continued_def)
qed

end
