(* ===== verification/PbFields.thy ===== *)
theory PbFields
  imports PbInput
begin

text \<open>
  Message descriptors of nanopb (\<open>pb.h\<close>) and the iterator over the fields of a C struct
  (\<open>pb_common.c\<close>). A struct is a piece of memory, which is a function from 64-bit addresses to bytes,
  read little-endian; the address 0 is \<open>NULL\<close>. A descriptor array is the list of its entries before
  \<open>PB_LAST_FIELD\<close>, with the terminator behind every entry of the list.
\<close>

section \<open>Memory\<close>

type_synonym addr = u64
type_synonym mem = "addr \<Rightarrow> byte"

definition mem_bytes :: "mem \<Rightarrow> addr \<Rightarrow> nat \<Rightarrow> byte list" where
  "mem_bytes mem a n = map (\<lambda>i. mem (a + word_of_nat i)) [0..<n]"

fun le_val :: "byte list \<Rightarrow> nat" where
  "le_val [] = 0"
| "le_val (b # bs) = unat b + 256 * le_val bs"

definition mem_u16 :: "mem \<Rightarrow> addr \<Rightarrow> u16" where "mem_u16 mem a = word_of_nat (le_val (mem_bytes mem a 2))"
definition mem_u32 :: "mem \<Rightarrow> addr \<Rightarrow> u32" where "mem_u32 mem a = word_of_nat (le_val (mem_bytes mem a 4))"
definition mem_u64 :: "mem \<Rightarrow> addr \<Rightarrow> u64" where "mem_u64 mem a = word_of_nat (le_val (mem_bytes mem a 8))"

lemma length_mem_bytes [simp]: "length (mem_bytes mem a n) = n"
  by (simp add: mem_bytes_def)

section \<open>Field descriptors\<close>

record pb_field =
  pf_tag :: u32
  pb_type :: byte
  data_offset :: u32
  size_offset :: u32
  data_size :: u32
  array_size :: u32
  pf_ptr :: addr

definition PB_LAST_FIELD :: pb_field where
  "PB_LAST_FIELD = \<lparr>pf_tag = 0, pb_type = 0, data_offset = 0, size_offset = 0, data_size = 0, array_size = 0, pf_ptr = 0\<rparr>"

definition PB_ATYPE :: "byte \<Rightarrow> byte" where "PB_ATYPE x = x AND 0xC0"
definition PB_HTYPE :: "byte \<Rightarrow> byte" where "PB_HTYPE x = x AND 0x30"
definition PB_LTYPE :: "byte \<Rightarrow> byte" where "PB_LTYPE x = x AND 0x0F"

abbreviation PB_LTYPE_BOOL :: byte where "PB_LTYPE_BOOL \<equiv> 0x00"
abbreviation PB_LTYPE_VARINT :: byte where "PB_LTYPE_VARINT \<equiv> 0x01"
abbreviation PB_LTYPE_UVARINT :: byte where "PB_LTYPE_UVARINT \<equiv> 0x02"
abbreviation PB_LTYPE_SVARINT :: byte where "PB_LTYPE_SVARINT \<equiv> 0x03"
abbreviation PB_LTYPE_FIXED32 :: byte where "PB_LTYPE_FIXED32 \<equiv> 0x04"
abbreviation PB_LTYPE_FIXED64 :: byte where "PB_LTYPE_FIXED64 \<equiv> 0x05"
abbreviation PB_LTYPE_LAST_PACKABLE :: byte where "PB_LTYPE_LAST_PACKABLE \<equiv> 0x05"
abbreviation PB_LTYPE_BYTES :: byte where "PB_LTYPE_BYTES \<equiv> 0x06"
abbreviation PB_LTYPE_STRING :: byte where "PB_LTYPE_STRING \<equiv> 0x07"
abbreviation PB_LTYPE_SUBMESSAGE :: byte where "PB_LTYPE_SUBMESSAGE \<equiv> 0x08"
abbreviation PB_LTYPE_EXTENSION :: byte where "PB_LTYPE_EXTENSION \<equiv> 0x09"
abbreviation PB_LTYPE_FIXED_LENGTH_BYTES :: byte where "PB_LTYPE_FIXED_LENGTH_BYTES \<equiv> 0x0A"
abbreviation PB_LTYPES_COUNT :: byte where "PB_LTYPES_COUNT \<equiv> 0x0B"

abbreviation PB_HTYPE_REQUIRED :: byte where "PB_HTYPE_REQUIRED \<equiv> 0x00"
abbreviation PB_HTYPE_OPTIONAL :: byte where "PB_HTYPE_OPTIONAL \<equiv> 0x10"
abbreviation PB_HTYPE_REPEATED :: byte where "PB_HTYPE_REPEATED \<equiv> 0x20"
abbreviation PB_HTYPE_ONEOF :: byte where "PB_HTYPE_ONEOF \<equiv> 0x30"

abbreviation PB_ATYPE_STATIC :: byte where "PB_ATYPE_STATIC \<equiv> 0x00"
abbreviation PB_ATYPE_POINTER :: byte where "PB_ATYPE_POINTER \<equiv> 0x80"
abbreviation PB_ATYPE_CALLBACK :: byte where "PB_ATYPE_CALLBACK \<equiv> 0x40"

abbreviation PB_SIZE_MAX :: u32 where "PB_SIZE_MAX \<equiv> - 1"

text \<open>The entry of a descriptor array at a position, and the address of \<open>pSize\<close>.\<close>

definition field_at :: "pb_field list \<Rightarrow> nat \<Rightarrow> pb_field" where
  "field_at fds i = (if i < length fds then fds ! i else PB_LAST_FIELD)"

definition size_addr :: "addr \<Rightarrow> pb_field \<Rightarrow> addr" where
  "size_addr pData field = pData + scast (size_offset field)"

section \<open>The iterator\<close>

record pb_field_iter =
  it_start :: "pb_field list"
  it_pos :: nat
  required_field_index :: nat
  dest_struct :: addr
  it_pData :: addr
  it_pSize :: addr

definition it_field :: "pb_field_iter \<Rightarrow> pb_field" where
  "it_field iter = field_at (it_start iter) (it_pos iter)"

definition pb_field_iter_begin :: "pb_field list \<Rightarrow> addr \<Rightarrow> bool \<times> pb_field_iter" where
  "pb_field_iter_begin fds dest =
     (let pData = dest + ucast (data_offset (field_at fds 0))
      in (pf_tag (field_at fds 0) \<noteq> 0,
          \<lparr>it_start = fds, it_pos = 0, required_field_index = 0, dest_struct = dest,
           it_pData = pData, it_pSize = size_addr pData (field_at fds 0)\<rparr>))"

definition pb_field_iter_next :: "pb_field_iter \<Rightarrow> bool \<times> pb_field_iter" where
  "pb_field_iter_next iter =
     (let prev = it_field iter; field = field_at (it_start iter) (it_pos iter + 1)
      in if pf_tag prev = 0 then (False, iter)
         else if pf_tag field = 0 then (False, snd (pb_field_iter_begin (it_start iter) (dest_struct iter)))
         else if PB_HTYPE (pb_type prev) = PB_HTYPE_ONEOF \<and> PB_HTYPE (pb_type field) = PB_HTYPE_ONEOF \<and>
                 data_offset field = PB_SIZE_MAX
         then (True, iter\<lparr>it_pos := it_pos iter + 1\<rparr>)
         else
           (let prev_size =
                  (if PB_ATYPE (pb_type prev) = PB_ATYPE_STATIC \<and> PB_HTYPE (pb_type prev) = PB_HTYPE_REPEATED
                   then ucast (data_size prev) * ucast (array_size prev)
                   else if PB_ATYPE (pb_type prev) = PB_ATYPE_POINTER then 8
                   else ucast (data_size prev) :: u64);
                pData = it_pData iter + prev_size + ucast (data_offset field)
            in (True, iter\<lparr>it_pos := it_pos iter + 1,
                  required_field_index := required_field_index iter +
                    (if PB_HTYPE (pb_type prev) = PB_HTYPE_REQUIRED then 1 else 0),
                  it_pData := pData, it_pSize := size_addr pData field\<rparr>)))"

text \<open>The iterator never gets past the entries of the array: it goes on to an entry of the list or starts again.\<close>

lemma iter_next_True:
  assumes "pb_field_iter_next iter = (True, iter')"
  shows "it_start iter' = it_start iter" "it_pos iter' = it_pos iter + 1" "it_pos iter' < length (it_start iter)"
    "pf_tag (it_field iter') \<noteq> 0" "dest_struct iter' = dest_struct iter"
  using assms by (auto simp: pb_field_iter_next_def Let_def it_field_def field_at_def PB_LAST_FIELD_def split: if_splits)

lemma iter_next_less:
  assumes "(b, iter') = pb_field_iter_next iter" and "b"
  shows "length (it_start iter') - it_pos iter' < length (it_start iter) - it_pos iter"
proof -
  have "pb_field_iter_next iter = (True, iter')" using assms by simp
  from iter_next_True [OF this] show ?thesis by simp
qed

lemma iter_next_False:
  assumes "pb_field_iter_next iter = (False, iter')" and "pf_tag (it_field iter) \<noteq> 0"
  shows "iter' = snd (pb_field_iter_begin (it_start iter) (dest_struct iter))"
    and "pf_tag (field_at (it_start iter) (it_pos iter + 1)) = 0"
  using assms by (auto simp: pb_field_iter_next_def Let_def split: if_splits)

text \<open>The search, with as many turns as the array has entries, and one more.\<close>

fun find_loop :: "nat \<Rightarrow> nat \<Rightarrow> (pb_field \<Rightarrow> bool) \<Rightarrow> pb_field_iter \<Rightarrow> bool \<times> pb_field_iter" where
  "find_loop 0 start wanted iter = (False, iter)"
| "find_loop (Suc n) start wanted iter =
     (if wanted (it_field iter) then (True, iter)
      else
        (let iter' = snd (pb_field_iter_next iter)
         in if it_pos iter' \<noteq> start then find_loop n start wanted iter' else (False, iter')))"

definition pb_field_iter_find :: "pb_field_iter \<Rightarrow> u32 \<Rightarrow> bool \<times> pb_field_iter" where
  "pb_field_iter_find iter t =
     find_loop (length (it_start iter) + 1) (it_pos iter)
       (\<lambda>field. pf_tag field = t \<and> PB_LTYPE (pb_type field) \<noteq> PB_LTYPE_EXTENSION) iter"

end
