(* ===== verification/PbEncode.thy ===== *)
theory PbEncode
  imports PbFields
begin

text \<open>
  The message encoder of nanopb, \<open>pb_encode.c\<close>: it walks over the fields of a C struct by its
  descriptor and writes them to a stream. Descriptors may be cyclic, as the messages of Firestore
  are, so the recursion into submessages carries a bound on their nesting. \<open>None\<close> as the outcome
  of an encoder means that the bound is exceeded, or that C does not define what happens: an entry
  behind the end of \<open>PB_ENCODERS\<close>, a call of its \<open>NULL\<close> entry, a \<open>NULL\<close> descriptor array, a count read from a local \<open>bool\<close>.
\<close>

section \<open>Outcomes\<close>

type_synonym 's enc = "'s pb_ostream \<Rightarrow> (unit option \<times> 's pb_ostream) option"

definition enc_op :: "('s pb_ostream, unit) cop \<Rightarrow> 's enc" where
  "enc_op f stream = Some (f stream)"

text \<open>\<open>if (!f(stream)) return false; g(stream)\<close>\<close>

definition enc_then :: "'s enc \<Rightarrow> 's enc \<Rightarrow> 's enc" where
  "enc_then f g stream =
     (case f stream of
        None \<Rightarrow> None
      | Some (None, stream') \<Rightarrow> Some (None, stream')
      | Some (Some _, stream') \<Rightarrow> g stream')"

definition enc_done :: "'s enc" where
  "enc_done = enc_op (op_ret ())"

text \<open>What the encoder calls through pointers: descriptor tables, and the functions of the user.\<close>

record 's pb_env =
  env_fields :: "addr \<Rightarrow> pb_field list"
  env_encode :: "addr \<Rightarrow> pb_field \<Rightarrow> addr \<Rightarrow> ('s pb_ostream, unit) cop"
  env_extension :: "addr \<Rightarrow> addr \<Rightarrow> ('s pb_ostream, unit) cop"

section \<open>Field encoders\<close>

definition safe_read_bool :: "mem \<Rightarrow> addr \<Rightarrow> bool" where
  "safe_read_bool mem p \<longleftrightarrow> mem p \<noteq> 0"

definition pb_encode_tag_for_field :: "pb_field \<Rightarrow> ('s pb_ostream, unit) cop" where
  "pb_encode_tag_for_field field =
     (let ltype = PB_LTYPE (pb_type field)
      in if ltype = PB_LTYPE_BOOL \<or> ltype = PB_LTYPE_VARINT \<or> ltype = PB_LTYPE_UVARINT \<or> ltype = PB_LTYPE_SVARINT
         then pb_encode_tag PB_WT_VARINT (pf_tag field)
         else if ltype = PB_LTYPE_FIXED32 then pb_encode_tag PB_WT_32BIT (pf_tag field)
         else if ltype = PB_LTYPE_FIXED64 then pb_encode_tag PB_WT_64BIT (pf_tag field)
         else if ltype = PB_LTYPE_BYTES \<or> ltype = PB_LTYPE_STRING \<or> ltype = PB_LTYPE_SUBMESSAGE \<or>
                 ltype = PB_LTYPE_FIXED_LENGTH_BYTES
         then pb_encode_tag PB_WT_STRING (pf_tag field)
         else os_error ''invalid field type'')"

definition pb_enc_bool :: "mem \<Rightarrow> pb_field \<Rightarrow> addr \<Rightarrow> ('s pb_ostream, unit) cop" where
  "pb_enc_bool mem field src = pb_encode_varint (if safe_read_bool mem src then 1 else 0)"

text \<open>The integer of \<open>data_size\<close> bytes at \<open>src\<close>, with or without its sign.\<close>

definition signed_at :: "mem \<Rightarrow> pb_field \<Rightarrow> addr \<Rightarrow> u64 option" where
  "signed_at mem field src =
     (if data_size field = 1 then Some (scast (mem src))
      else if data_size field = 2 then Some (scast (mem_u16 mem src))
      else if data_size field = 4 then Some (scast (mem_u32 mem src))
      else if data_size field = 8 then Some (mem_u64 mem src)
      else None)"

definition unsigned_at :: "mem \<Rightarrow> pb_field \<Rightarrow> addr \<Rightarrow> u64 option" where
  "unsigned_at mem field src =
     (if data_size field = 1 then Some (ucast (mem src))
      else if data_size field = 2 then Some (ucast (mem_u16 mem src))
      else if data_size field = 4 then Some (ucast (mem_u32 mem src))
      else if data_size field = 8 then Some (mem_u64 mem src)
      else None)"

definition pb_enc_varint :: "mem \<Rightarrow> pb_field \<Rightarrow> addr \<Rightarrow> ('s pb_ostream, unit) cop" where
  "pb_enc_varint mem field src =
     (case signed_at mem field src of
        None \<Rightarrow> os_error ''invalid data_size''
      | Some v \<Rightarrow> pb_encode_varint v)"

definition pb_enc_uvarint :: "mem \<Rightarrow> pb_field \<Rightarrow> addr \<Rightarrow> ('s pb_ostream, unit) cop" where
  "pb_enc_uvarint mem field src =
     (case unsigned_at mem field src of
        None \<Rightarrow> os_error ''invalid data_size''
      | Some v \<Rightarrow> pb_encode_varint v)"

definition pb_enc_svarint :: "mem \<Rightarrow> pb_field \<Rightarrow> addr \<Rightarrow> ('s pb_ostream, unit) cop" where
  "pb_enc_svarint mem field src =
     (case signed_at mem field src of
        None \<Rightarrow> os_error ''invalid data_size''
      | Some v \<Rightarrow> pb_encode_svarint v)"

definition pb_enc_fixed32 :: "mem \<Rightarrow> pb_field \<Rightarrow> addr \<Rightarrow> ('s pb_ostream, unit) cop" where
  "pb_enc_fixed32 mem field src = pb_encode_fixed32 (mem_u32 mem src)"

definition pb_enc_fixed64 :: "mem \<Rightarrow> pb_field \<Rightarrow> addr \<Rightarrow> ('s pb_ostream, unit) cop" where
  "pb_enc_fixed64 mem field src = pb_encode_fixed64 (mem_u64 mem src)"

text \<open>A \<open>pb_bytes_array_t\<close> is a 32-bit size and the bytes, so its header has 4 bytes.\<close>

definition pb_enc_bytes :: "mem \<Rightarrow> pb_field \<Rightarrow> addr \<Rightarrow> ('s pb_ostream, unit) cop" where
  "pb_enc_bytes mem field src =
     (if src = 0 then pb_encode_string [] 0
      else
        (let len = unat (mem_u32 mem src); allocsize = size_add len 4
         in if allocsize < len \<or>
               (PB_ATYPE (pb_type field) = PB_ATYPE_STATIC \<and> allocsize > unat (data_size field))
            then os_error ''bytes size exceeded''
            else pb_encode_string (mem_bytes mem (src + 4) len) len))"

fun string_length :: "mem \<Rightarrow> addr \<Rightarrow> nat \<Rightarrow> nat" where
  "string_length mem p max_size =
     (if max_size > 0 \<and> mem p \<noteq> 0 then Suc (string_length mem (p + 1) (max_size - 1)) else 0)"

declare string_length.simps [simp del]

definition pb_enc_string :: "mem \<Rightarrow> pb_field \<Rightarrow> addr \<Rightarrow> ('s pb_ostream, unit) cop" where
  "pb_enc_string mem field src =
     (let max_size = (if PB_ATYPE (pb_type field) = PB_ATYPE_POINTER then size_mod - 1 else unat (data_size field));
          len = (if src = 0 then 0 else string_length mem src max_size)
      in pb_encode_string (mem_bytes mem src len) len)"

definition pb_enc_fixed_length_bytes :: "mem \<Rightarrow> pb_field \<Rightarrow> addr \<Rightarrow> ('s pb_ostream, unit) cop" where
  "pb_enc_fixed_length_bytes mem field src =
     pb_encode_string (mem_bytes mem src (unat (data_size field))) (unat (data_size field))"

section \<open>Submessages\<close>

text \<open>\<open>encode\<close> is \<open>pb_encode\<close> for the fields and the struct of the submessage.\<close>

definition pb_encode_submessage :: "'s enc \<Rightarrow> 's enc" where
  "pb_encode_submessage encode stream =
     (case encode PB_OSTREAM_SIZING of
        None \<Rightarrow> None
      | Some (None, substream) \<Rightarrow> Some (None, stream\<lparr>os_errmsg := os_errmsg substream\<rparr>)
      | Some (Some _, substream) \<Rightarrow>
          (let len = bytes_written substream
           in case pb_encode_varint (word_of_nat len) stream of
                (None, stream1) \<Rightarrow> Some (None, stream1)
              | (Some _, stream1) \<Rightarrow>
                  if is_sizing stream1 then Some (pb_write [] len stream1)
                  else if size_add (bytes_written stream1) len > os_max_size stream1
                  then Some (os_error ''stream full'' stream1)
                  else
                    (case encode \<lparr>os_target = os_target stream1, os_max_size = len, bytes_written = 0, os_errmsg = None\<rparr> of
                       None \<Rightarrow> None
                     | Some (status, substream2) \<Rightarrow>
                         (let stream2 = stream1\<lparr>
                                bytes_written := size_add (bytes_written stream1) (bytes_written substream2),
                                os_target := os_target substream2, os_errmsg := os_errmsg substream2\<rparr>
                          in if bytes_written substream2 \<noteq> len
                             then Some (os_error ''submsg size changed'' stream2)
                             else Some (status, stream2)))))"

definition pb_enc_submessage ::
  "('s pb_env \<Rightarrow> pb_field list \<Rightarrow> addr \<Rightarrow> 's enc) \<Rightarrow> 's pb_env \<Rightarrow> pb_field \<Rightarrow> addr \<Rightarrow> 's enc" where
  "pb_enc_submessage sub env field src =
     (if pf_ptr field = 0 then enc_op (os_error ''invalid field descriptor'')
      else pb_encode_submessage (sub env (env_fields env (pf_ptr field)) src))"

text \<open>\<open>PB_ENCODERS\<close>, whose entry for extensions is \<open>NULL\<close>.\<close>

definition PB_ENCODERS ::
  "('s pb_env \<Rightarrow> pb_field list \<Rightarrow> addr \<Rightarrow> 's enc) \<Rightarrow> 's pb_env \<Rightarrow> mem \<Rightarrow> byte \<Rightarrow> pb_field \<Rightarrow> addr \<Rightarrow> 's enc" where
  "PB_ENCODERS sub env mem ltype field src =
     (if ltype = PB_LTYPE_BOOL then enc_op (pb_enc_bool mem field src)
      else if ltype = PB_LTYPE_VARINT then enc_op (pb_enc_varint mem field src)
      else if ltype = PB_LTYPE_UVARINT then enc_op (pb_enc_uvarint mem field src)
      else if ltype = PB_LTYPE_SVARINT then enc_op (pb_enc_svarint mem field src)
      else if ltype = PB_LTYPE_FIXED32 then enc_op (pb_enc_fixed32 mem field src)
      else if ltype = PB_LTYPE_FIXED64 then enc_op (pb_enc_fixed64 mem field src)
      else if ltype = PB_LTYPE_BYTES then enc_op (pb_enc_bytes mem field src)
      else if ltype = PB_LTYPE_STRING then enc_op (pb_enc_string mem field src)
      else if ltype = PB_LTYPE_SUBMESSAGE then pb_enc_submessage sub env field src
      else if ltype = PB_LTYPE_FIXED_LENGTH_BYTES then enc_op (pb_enc_fixed_length_bytes mem field src)
      else (\<lambda>_. None))"

section \<open>Arrays\<close>

text \<open>\<open>count\<close> calls of \<open>func\<close>, at addresses \<open>data_size\<close> bytes apart.\<close>

fun enc_items :: "(addr \<Rightarrow> 's enc) \<Rightarrow> addr \<Rightarrow> u64 \<Rightarrow> nat \<Rightarrow> 's enc" where
  "enc_items func p step 0 = enc_done"
| "enc_items func p step (Suc n) = enc_then (func p) (enc_items func (p + step) step n)"

definition packed_size :: "(addr \<Rightarrow> 's enc) \<Rightarrow> pb_field \<Rightarrow> addr \<Rightarrow> nat \<Rightarrow> (nat option) option" where
  "packed_size func field pData count =
     (if PB_LTYPE (pb_type field) = PB_LTYPE_FIXED32 then Some (Some (size_mul 4 count))
      else if PB_LTYPE (pb_type field) = PB_LTYPE_FIXED64 then Some (Some (size_mul 8 count))
      else
        (case enc_items func pData (ucast (data_size field)) count PB_OSTREAM_SIZING of
           None \<Rightarrow> None
         | Some (None, _) \<Rightarrow> Some None
         | Some (Some _, sizestream) \<Rightarrow> Some (Some (bytes_written sizestream))))"

definition encode_array :: "(pb_field \<Rightarrow> addr \<Rightarrow> 's enc) \<Rightarrow> mem \<Rightarrow> pb_field \<Rightarrow> addr \<Rightarrow> nat \<Rightarrow> 's enc" where
  "encode_array func mem field pData count =
     (if count = 0 then enc_done
      else if PB_ATYPE (pb_type field) \<noteq> PB_ATYPE_POINTER \<and> count > unat (array_size field)
      then enc_op (os_error ''array max size exceeded'')
      else if PB_LTYPE (pb_type field) \<le> PB_LTYPE_LAST_PACKABLE then
        enc_then (enc_op (pb_encode_tag PB_WT_STRING (pf_tag field)))
          (case packed_size (func field) field pData count of
             None \<Rightarrow> (\<lambda>_. None)
           | Some None \<Rightarrow> (\<lambda>stream. Some (None, stream))
           | Some (Some len) \<Rightarrow>
               enc_then (enc_op (pb_encode_varint (word_of_nat len)))
                 (\<lambda>stream.
                    if is_sizing stream then Some (pb_write [] len stream)
                    else enc_items (func field) pData (ucast (data_size field)) count stream))
      else
        enc_items
          (\<lambda>p. enc_then (enc_op (pb_encode_tag_for_field field))
             (if PB_ATYPE (pb_type field) = PB_ATYPE_POINTER \<and>
                 (PB_LTYPE (pb_type field) = PB_LTYPE_STRING \<or> PB_LTYPE (pb_type field) = PB_LTYPE_BYTES)
              then func field (mem_u64 mem p) else func field p))
          pData (ucast (data_size field)) count)"

section \<open>Zero values\<close>

text \<open>One call of \<open>pb_check_proto3_default_value\<close>; \<open>check\<close> is the call for a field of a submessage. The
  loop over its fields starts with an iterator on the first one.\<close>

function all_default :: "(pb_field \<Rightarrow> addr \<Rightarrow> bool option) \<Rightarrow> pb_field_iter \<Rightarrow> bool option" where
  "all_default check iter =
     (case check (it_field iter) (it_pData iter) of
        None \<Rightarrow> None
      | Some False \<Rightarrow> Some False
      | Some True \<Rightarrow>
          (case pb_field_iter_next iter of
             (True, iter') \<Rightarrow> all_default check iter'
           | (False, _) \<Rightarrow> Some True))"
  by pat_completeness auto
termination
  by (relation "measure (\<lambda>(_, iter). length (it_start iter) - it_pos iter)")
    (auto dest: iter_next_less)

declare all_default.simps [simp del]

definition check_default ::
  "(pb_field \<Rightarrow> addr \<Rightarrow> bool option) \<Rightarrow> 's pb_env \<Rightarrow> mem \<Rightarrow> pb_field \<Rightarrow> addr \<Rightarrow> bool option" where
  "check_default check env mem field pData =
     (let atype = PB_ATYPE (pb_type field); htype = PB_HTYPE (pb_type field); ltype = PB_LTYPE (pb_type field);
          pSize = size_addr pData field
      in if htype = PB_HTYPE_REQUIRED then Some False
         else if htype = PB_HTYPE_REPEATED \<and> size_offset field \<noteq> 0 then Some (mem_u32 mem pSize = 0)
         else if htype = PB_HTYPE_REPEATED \<and> atype = PB_ATYPE_STATIC then Some False
         else if htype = PB_HTYPE_ONEOF then Some (mem_u32 mem pSize = 0)
         else if htype = PB_HTYPE_OPTIONAL \<and> size_offset field \<noteq> 0 then Some (\<not> safe_read_bool mem pSize)
         else if atype = PB_ATYPE_STATIC \<and> ltype = PB_LTYPE_BYTES then Some (mem_u32 mem pData = 0)
         else if atype = PB_ATYPE_STATIC \<and> ltype = PB_LTYPE_STRING then Some (mem pData = 0)
         else if atype = PB_ATYPE_STATIC \<and> ltype = PB_LTYPE_FIXED_LENGTH_BYTES then Some (data_size field = 0)
         else if atype = PB_ATYPE_STATIC \<and> ltype = PB_LTYPE_SUBMESSAGE then
           (if pf_ptr field = 0 then None
            else
              (case pb_field_iter_begin (env_fields env (pf_ptr field)) pData of
                 (False, _) \<Rightarrow> Some True
               | (True, iter) \<Rightarrow> all_default check iter))
         else if atype = PB_ATYPE_POINTER \<and> ltype > PB_LTYPE_LAST_PACKABLE then Some (mem_u64 mem pData = 0)
         else Some (\<forall>b \<in> set (mem_bytes mem pData (unat (data_size field))). b = 0))"

fun pb_check_proto3_default_value ::
  "nat \<Rightarrow> 's pb_env \<Rightarrow> mem \<Rightarrow> pb_field \<Rightarrow> addr \<Rightarrow> bool option" where
  "pb_check_proto3_default_value 0 env mem field pData = None"
| "pb_check_proto3_default_value (Suc n) env mem field pData =
     check_default (pb_check_proto3_default_value n env mem) env mem field pData"

section \<open>Fields\<close>

text \<open>\<open>pSize\<close> points into the struct, or to the local \<open>implicit_has\<close>.\<close>

datatype size_ptr = Local bool | At addr

definition encode_basic_field ::
  "('s pb_env \<Rightarrow> pb_field list \<Rightarrow> addr \<Rightarrow> 's enc) \<Rightarrow> (pb_field \<Rightarrow> addr \<Rightarrow> bool option) \<Rightarrow> 's pb_env \<Rightarrow> mem \<Rightarrow>
     pb_field \<Rightarrow> addr \<Rightarrow> 's enc" where
  "encode_basic_field sub check env mem field pData0 =
     (let htype = PB_HTYPE (pb_type field); ltype = PB_LTYPE (pb_type field);
          pointer = (PB_ATYPE (pb_type field) = PB_ATYPE_POINTER);
          func = PB_ENCODERS sub env mem ltype field;
          pData = (if pointer then mem_u64 mem pData0 else pData0)
      in if ltype \<ge> PB_LTYPES_COUNT then (\<lambda>_. None)
         else
           (case (if size_offset field \<noteq> 0 then Some (At (size_addr pData0 field))
                  else if htype = PB_HTYPE_OPTIONAL then
                    (case check field pData0 of
                       None \<Rightarrow> None
                     | Some zero \<Rightarrow> Some (Local (if pointer then pData \<noteq> 0 else \<not> zero)))
                  else Some (Local (if pointer then pData \<noteq> 0 else True))) of
              None \<Rightarrow> (\<lambda>_. None)
            | Some pSize \<Rightarrow>
                if htype = PB_HTYPE_REQUIRED then
                  (if pData = 0 then enc_op (os_error ''missing required field'')
                   else enc_then (enc_op (pb_encode_tag_for_field field)) (func pData))
                else if htype = PB_HTYPE_OPTIONAL then
                  (if (case pSize of Local b \<Rightarrow> b | At p \<Rightarrow> safe_read_bool mem p)
                   then enc_then (enc_op (pb_encode_tag_for_field field)) (func pData)
                   else enc_done)
                else if htype = PB_HTYPE_REPEATED then
                  encode_array (PB_ENCODERS sub env mem ltype) mem field pData
                    (case pSize of Local _ \<Rightarrow> unat (array_size field) | At p \<Rightarrow> unat (mem_u32 mem p))
                else
                  (case pSize of
                     Local _ \<Rightarrow> (\<lambda>_. None)
                   | At p \<Rightarrow>
                       if mem_u32 mem p = pf_tag field
                       then enc_then (enc_op (pb_encode_tag_for_field field)) (func pData)
                       else enc_done)))"

text \<open>A \<open>pb_callback_t\<close> is a function pointer and the argument.\<close>

definition encode_callback_field :: "'s pb_env \<Rightarrow> mem \<Rightarrow> pb_field \<Rightarrow> addr \<Rightarrow> ('s pb_ostream, unit) cop" where
  "encode_callback_field env mem field pData =
     (if mem_u64 mem pData \<noteq> 0 then
        (\<lambda>stream. case env_encode env (mem_u64 mem pData) field (pData + 8) stream of
           (None, stream') \<Rightarrow> os_error ''callback error'' stream'
         | r \<Rightarrow> r)
      else op_ret ())"

definition encode_field ::
  "('s pb_env \<Rightarrow> pb_field list \<Rightarrow> addr \<Rightarrow> 's enc) \<Rightarrow> (pb_field \<Rightarrow> addr \<Rightarrow> bool option) \<Rightarrow> 's pb_env \<Rightarrow> mem \<Rightarrow>
     pb_field \<Rightarrow> addr \<Rightarrow> 's enc" where
  "encode_field sub check env mem field pData =
     (let atype = PB_ATYPE (pb_type field)
      in if atype = PB_ATYPE_STATIC \<or> atype = PB_ATYPE_POINTER then encode_basic_field sub check env mem field pData
         else if atype = PB_ATYPE_CALLBACK then enc_op (encode_callback_field env mem field pData)
         else enc_op (os_error ''invalid field type''))"

section \<open>Extensions\<close>

text \<open>A \<open>pb_extension_t\<close> has the pointers \<open>type\<close>, \<open>dest\<close> and \<open>next\<close>, and a \<open>pb_extension_type_t\<close> the pointers
  \<open>decode\<close>, \<open>encode\<close> and \<open>arg\<close>. The walk over a list of extensions is bounded by its first argument.\<close>

definition ext_type :: "mem \<Rightarrow> addr \<Rightarrow> addr" where "ext_type mem ext = mem_u64 mem ext"
definition ext_dest :: "addr \<Rightarrow> addr" where "ext_dest ext = ext + 8"
definition ext_next :: "mem \<Rightarrow> addr \<Rightarrow> addr" where "ext_next mem ext = mem_u64 mem (ext + 16)"
definition ext_encode :: "mem \<Rightarrow> addr \<Rightarrow> addr" where "ext_encode mem ext = mem_u64 mem (ext_type mem ext + 8)"
definition ext_arg :: "mem \<Rightarrow> addr \<Rightarrow> addr" where "ext_arg mem ext = mem_u64 mem (ext_type mem ext + 16)"

definition default_extension_encoder :: "(pb_field \<Rightarrow> addr \<Rightarrow> 's enc) \<Rightarrow> 's pb_env \<Rightarrow> mem \<Rightarrow> addr \<Rightarrow> 's enc" where
  "default_extension_encoder encode env mem ext =
     (let field = field_at (env_fields env (ext_arg mem ext)) 0
      in if PB_ATYPE (pb_type field) = PB_ATYPE_POINTER then encode field (ext_dest ext)
         else encode field (mem_u64 mem (ext_dest ext)))"

fun encode_extensions :: "nat \<Rightarrow> (pb_field \<Rightarrow> addr \<Rightarrow> 's enc) \<Rightarrow> 's pb_env \<Rightarrow> mem \<Rightarrow> addr \<Rightarrow> 's enc" where
  "encode_extensions 0 encode env mem ext = (if ext = 0 then enc_done else (\<lambda>_. None))"
| "encode_extensions (Suc n) encode env mem ext =
     (if ext = 0 then enc_done
      else enc_then
        (if ext_encode mem ext \<noteq> 0 then enc_op (env_extension env (ext_encode mem ext) ext)
         else default_extension_encoder encode env mem ext)
        (encode_extensions n encode env mem (ext_next mem ext)))"

definition encode_extension_field :: "nat \<Rightarrow> (pb_field \<Rightarrow> addr \<Rightarrow> 's enc) \<Rightarrow> 's pb_env \<Rightarrow> mem \<Rightarrow> addr \<Rightarrow> 's enc" where
  "encode_extension_field n encode env mem pData = encode_extensions n encode env mem (mem_u64 mem pData)"

section \<open>Messages\<close>

function encode_fields :: "(pb_field \<Rightarrow> addr \<Rightarrow> 's enc) \<Rightarrow> pb_field_iter \<Rightarrow> 's enc" where
  "encode_fields encode iter =
     enc_then (encode (it_field iter) (it_pData iter))
       (case pb_field_iter_next iter of
          (True, iter') \<Rightarrow> encode_fields encode iter'
        | (False, _) \<Rightarrow> enc_done)"
  by pat_completeness auto
termination
  by (relation "measure (\<lambda>(_, iter). length (it_start iter) - it_pos iter)")
    (auto dest: iter_next_less)

declare encode_fields.simps [simp del]

fun pb_encode :: "nat \<Rightarrow> mem \<Rightarrow> 's pb_env \<Rightarrow> pb_field list \<Rightarrow> addr \<Rightarrow> 's enc" where
  "pb_encode 0 mem env fds src = (\<lambda>_. None)"
| "pb_encode (Suc n) mem env fds src =
     (let field_encoder = encode_field (pb_encode n mem) (pb_check_proto3_default_value n env mem) env mem
      in case pb_field_iter_begin fds src of
           (False, _) \<Rightarrow> enc_done
         | (True, iter) \<Rightarrow>
             encode_fields
               (\<lambda>field pData.
                  if PB_LTYPE (pb_type field) = PB_LTYPE_EXTENSION
                  then encode_extension_field n field_encoder env mem pData
                  else field_encoder field pData)
               iter)"

definition pb_encode_delimited :: "nat \<Rightarrow> mem \<Rightarrow> 's pb_env \<Rightarrow> pb_field list \<Rightarrow> addr \<Rightarrow> 's enc" where
  "pb_encode_delimited n mem env fds src = pb_encode_submessage (pb_encode n mem env fds src)"

definition pb_encode_nullterminated :: "nat \<Rightarrow> mem \<Rightarrow> 's pb_env \<Rightarrow> pb_field list \<Rightarrow> addr \<Rightarrow> 's enc" where
  "pb_encode_nullterminated n mem env fds src =
     enc_then (pb_encode n mem env fds src) (enc_op (pb_write [0] 1))"

definition pb_get_encoded_size :: "nat \<Rightarrow> mem \<Rightarrow> 's pb_env \<Rightarrow> pb_field list \<Rightarrow> addr \<Rightarrow> nat option option" where
  "pb_get_encoded_size n mem env fds src =
     (case pb_encode n mem env fds src PB_OSTREAM_SIZING of
        None \<Rightarrow> None
      | Some (None, _) \<Rightarrow> Some None
      | Some (Some _, stream) \<Rightarrow> Some (Some (bytes_written stream)))"

end
