(* ===== verification/PbEncodeSpec.thy ===== *)
theory PbEncodeSpec
  imports PbEncode
begin

text \<open>
  What the message encoder computes: \<open>msg_wire\<close> reads the records of the wire format out of a struct
  and everything it points to, without streams, sizes or substreams, and \<open>pb_encode\<close> writes the
  bytes of these records, on a sizing stream and into a buffer alike.
\<close>

section \<open>The records of a message\<close>

fun wire_payload :: "wire \<Rightarrow> byte list" where
  "wire_payload (Varint t v) = varint (unat v)"
| "wire_payload (Fix64 t v) = fixed64 v"
| "wire_payload (Fix32 t v) = fixed32 v"
| "wire_payload (Bytes t bs) = varint (length bs) @ bs"
| "wire_payload (Message t ws) = varint (length (concat (map wire_bytes ws))) @ concat (map wire_bytes ws)"
| "wire_payload (Raw bs) = bs"

text \<open>One value of a field, as \<open>PB_ENCODERS\<close> reads it at \<open>src\<close>.\<close>

definition value_wire ::
  "(pb_field list \<Rightarrow> addr \<Rightarrow> wire list option) \<Rightarrow> (addr \<Rightarrow> pb_field list) \<Rightarrow> mem \<Rightarrow> pb_field \<Rightarrow> addr \<Rightarrow> wire option" where
  "value_wire sub fields_at mem field src =
     (let ltype = PB_LTYPE (pb_type field); t = pf_tag field
      in if ltype = PB_LTYPE_BOOL then Some (Varint t (if safe_read_bool mem src then 1 else 0))
         else if ltype = PB_LTYPE_VARINT then map_option (Varint t) (signed_at mem field src)
         else if ltype = PB_LTYPE_UVARINT then map_option (Varint t) (unsigned_at mem field src)
         else if ltype = PB_LTYPE_SVARINT then map_option (\<lambda>v. Varint t (zigzag v)) (signed_at mem field src)
         else if ltype = PB_LTYPE_FIXED32 then Some (Fix32 t (mem_u32 mem src))
         else if ltype = PB_LTYPE_FIXED64 then Some (Fix64 t (mem_u64 mem src))
         else if ltype = PB_LTYPE_BYTES then
           (if src = 0 then Some (Bytes t [])
            else if PB_ATYPE (pb_type field) = PB_ATYPE_STATIC \<and> unat (mem_u32 mem src) + 4 > unat (data_size field)
            then None
            else Some (Bytes t (mem_bytes mem (src + 4) (unat (mem_u32 mem src)))))
         else if ltype = PB_LTYPE_STRING then
           Some (Bytes t (if src = 0 then []
             else mem_bytes mem src (string_length mem src
               (if PB_ATYPE (pb_type field) = PB_ATYPE_POINTER then size_mod - 1 else unat (data_size field)))))
         else if ltype = PB_LTYPE_SUBMESSAGE then
           (if pf_ptr field = 0 then None else map_option (Message t) (sub (fields_at (pf_ptr field)) src))
         else if ltype = PB_LTYPE_FIXED_LENGTH_BYTES then Some (Bytes t (mem_bytes mem src (unat (data_size field))))
         else None)"

fun all_some :: "'a option list \<Rightarrow> 'a list option" where
  "all_some [] = Some []"
| "all_some (x # xs) = (case x of None \<Rightarrow> None | Some y \<Rightarrow> map_option (Cons y) (all_some xs))"

fun item_addrs :: "addr \<Rightarrow> u64 \<Rightarrow> nat \<Rightarrow> addr list" where
  "item_addrs p step 0 = []"
| "item_addrs p step (Suc n) = p # item_addrs (p + step) step n"

text \<open>Arrays of scalars are packed into one record; others have a record for each item.\<close>

definition array_wire :: "(addr \<Rightarrow> wire option) \<Rightarrow> mem \<Rightarrow> pb_field \<Rightarrow> addr \<Rightarrow> nat \<Rightarrow> wire list option" where
  "array_wire val mem field pData count =
     (if count = 0 then Some []
      else if PB_ATYPE (pb_type field) \<noteq> PB_ATYPE_POINTER \<and> count > unat (array_size field) then None
      else if PB_LTYPE (pb_type field) \<le> PB_LTYPE_LAST_PACKABLE then
        map_option (\<lambda>vs. [Bytes (pf_tag field) (concat (map wire_payload vs))])
          (all_some (map val (item_addrs pData (ucast (data_size field)) count)))
      else
        all_some (map (\<lambda>p. val
            (if PB_ATYPE (pb_type field) = PB_ATYPE_POINTER \<and>
                (PB_LTYPE (pb_type field) = PB_LTYPE_STRING \<or> PB_LTYPE (pb_type field) = PB_LTYPE_BYTES)
             then mem_u64 mem p else p))
          (item_addrs pData (ucast (data_size field)) count)))"

definition basic_wire ::
  "(pb_field \<Rightarrow> addr \<Rightarrow> wire option) \<Rightarrow> (pb_field \<Rightarrow> addr \<Rightarrow> bool option) \<Rightarrow> mem \<Rightarrow> pb_field \<Rightarrow> addr \<Rightarrow> wire list option" where
  "basic_wire val check mem field pData0 =
     (let htype = PB_HTYPE (pb_type field);
          pointer = (PB_ATYPE (pb_type field) = PB_ATYPE_POINTER);
          pData = (if pointer then mem_u64 mem pData0 else pData0);
          pSize = size_addr pData0 field;
          single = map_option (\<lambda>w. [w]) (val field pData)
      in if htype = PB_HTYPE_REQUIRED then (if pData = 0 then None else single)
         else if htype = PB_HTYPE_OPTIONAL then
           (if size_offset field \<noteq> 0 then (if safe_read_bool mem pSize then single else Some [])
            else
              (case check field pData0 of
                 None \<Rightarrow> None
               | Some zero \<Rightarrow> if (if pointer then pData = 0 else zero) then Some [] else single))
         else if htype = PB_HTYPE_REPEATED then
           array_wire (val field) mem field pData
             (if size_offset field \<noteq> 0 then unat (mem_u32 mem pSize) else unat (array_size field))
         else if size_offset field = 0 then None
         else if mem_u32 mem pSize = pf_tag field then single else Some [])"

text \<open>What the functions of the user write, for the callbacks and extensions that have one.\<close>

record user_out =
  callback_out :: "addr \<Rightarrow> pb_field \<Rightarrow> addr \<Rightarrow> byte list option"
  extension_out :: "addr \<Rightarrow> addr \<Rightarrow> byte list option"

definition field_wire ::
  "user_out \<Rightarrow> (pb_field \<Rightarrow> addr \<Rightarrow> wire option) \<Rightarrow> (pb_field \<Rightarrow> addr \<Rightarrow> bool option) \<Rightarrow> mem \<Rightarrow>
     pb_field \<Rightarrow> addr \<Rightarrow> wire list option" where
  "field_wire out val check mem field pData =
     (let atype = PB_ATYPE (pb_type field)
      in if atype = PB_ATYPE_STATIC \<or> atype = PB_ATYPE_POINTER then
           (if PB_LTYPE (pb_type field) \<ge> PB_LTYPES_COUNT then None else basic_wire val check mem field pData)
         else if atype = PB_ATYPE_CALLBACK then
           (if mem_u64 mem pData = 0 then Some []
            else map_option (\<lambda>bs. [Raw bs]) (callback_out out (mem_u64 mem pData) field (pData + 8)))
         else None)"

fun extensions_wire ::
  "nat \<Rightarrow> user_out \<Rightarrow> (pb_field \<Rightarrow> addr \<Rightarrow> wire list option) \<Rightarrow> (addr \<Rightarrow> pb_field list) \<Rightarrow> mem \<Rightarrow> addr \<Rightarrow> wire list option" where
  "extensions_wire 0 out fw fields_at mem ext = (if ext = 0 then Some [] else None)"
| "extensions_wire (Suc n) out fw fields_at mem ext =
     (if ext = 0 then Some []
      else
        (let field = field_at (fields_at (ext_arg mem ext)) 0
         in case (if ext_encode mem ext \<noteq> 0
                  then map_option (\<lambda>bs. [Raw bs]) (extension_out out (ext_encode mem ext) ext)
                  else fw field (if PB_ATYPE (pb_type field) = PB_ATYPE_POINTER then ext_dest ext
                                 else mem_u64 mem (ext_dest ext))) of
              None \<Rightarrow> None
            | Some ws \<Rightarrow> map_option ((@) ws) (extensions_wire n out fw fields_at mem (ext_next mem ext))))"

function fields_wire :: "(pb_field \<Rightarrow> addr \<Rightarrow> wire list option) \<Rightarrow> pb_field_iter \<Rightarrow> wire list option" where
  "fields_wire fw iter =
     (case fw (it_field iter) (it_pData iter) of
        None \<Rightarrow> None
      | Some ws \<Rightarrow>
          (case pb_field_iter_next iter of
             (True, iter') \<Rightarrow> map_option ((@) ws) (fields_wire fw iter')
           | (False, _) \<Rightarrow> Some ws))"
  by pat_completeness auto
termination
  by (relation "measure (\<lambda>(_, iter). length (it_start iter) - it_pos iter)") (auto dest: iter_next_less)

declare fields_wire.simps [simp del]

fun msg_wire :: "nat \<Rightarrow> user_out \<Rightarrow> mem \<Rightarrow> 's pb_env \<Rightarrow> pb_field list \<Rightarrow> addr \<Rightarrow> wire list option" where
  "msg_wire 0 out mem env fds src = None"
| "msg_wire (Suc n) out mem env fds src =
     (let fw = field_wire out (value_wire (msg_wire n out mem env) (env_fields env) mem)
                 (pb_check_proto3_default_value n env mem) mem
      in case pb_field_iter_begin fds src of
           (False, _) \<Rightarrow> Some []
         | (True, iter) \<Rightarrow>
             fields_wire
               (\<lambda>field pData.
                  if PB_LTYPE (pb_type field) = PB_LTYPE_EXTENSION
                  then extensions_wire n out fw (env_fields env) mem (mem_u64 mem pData)
                  else fw field pData)
               iter)"

section \<open>Writers that may be undefined\<close>

definition writes :: "'s enc \<Rightarrow> byte list \<Rightarrow> bool" where
  "writes f bs \<longleftrightarrow>
     (\<forall>stream. sizing_ok stream \<longrightarrow> f stream = Some (Some (), counted bs stream)) \<and>
     (\<forall>stream. ostream_ok stream \<longrightarrow>
        (if has_room bs stream then f stream = Some (Some (), stored bs stream)
         else \<exists>stream'. f stream = Some (None, stream') \<and> spoiled bs stream stream'))"

lemma writesI:
  assumes "\<And>stream. sizing_ok stream \<Longrightarrow> f stream = Some (Some (), counted bs stream)"
    and "\<And>stream. ostream_ok stream \<Longrightarrow> has_room bs stream \<Longrightarrow> f stream = Some (Some (), stored bs stream)"
    and "\<And>stream. ostream_ok stream \<Longrightarrow> \<not> has_room bs stream \<Longrightarrow>
      \<exists>stream'. f stream = Some (None, stream') \<and> spoiled bs stream stream'"
  shows "writes f bs"
  using assms unfolding writes_def by simp

lemma writesD:
  assumes "writes f bs"
  shows "sizing_ok stream \<Longrightarrow> f stream = Some (Some (), counted bs stream)"
    and "ostream_ok stream \<Longrightarrow> has_room bs stream \<Longrightarrow> f stream = Some (Some (), stored bs stream)"
    and "ostream_ok stream \<Longrightarrow> \<not> has_room bs stream \<Longrightarrow>
      \<exists>stream'. f stream = Some (None, stream') \<and> spoiled bs stream stream'"
  using assms unfolding writes_def by (simp_all split: if_splits)

lemma writes_op: "puts f bs \<Longrightarrow> writes (enc_op f) bs"
  by (rule writesI) (auto simp: enc_op_def dest: putsD)

lemma writes_done: "writes enc_done []"
  by (rule writesI)
    (auto simp: enc_done_def enc_op_def op_simps sizing_ok_def counted_Nil has_room_def ostream_ok_def [of stream for stream]
      intro: stored_Nil)

lemma writes_then:
  assumes "writes f a" and "writes g b"
  shows "writes (enc_then f g) (a @ b)"
proof (rule writesI)
  fix stream :: "'a pb_ostream"
  assume s: "sizing_ok stream"
  show "enc_then f g stream = Some (Some (), counted (a @ b) stream)"
    using writesD(1) [OF assms(1) s] writesD(1) [OF assms(2) sizing_ok_counted [OF s, of a]]
    by (simp add: enc_then_def counted_counted)
next
  fix stream :: "'a pb_ostream"
  assume ok: "ostream_ok stream" and room: "has_room (a @ b) stream"
  then have a: "has_room a stream" and b: "has_room b (stored a stream)"
    by (simp_all add: has_room_append) (simp add: has_room_def stored_def)
  show "enc_then f g stream = Some (Some (), stored (a @ b) stream)"
    using writesD(2) [OF assms(1) ok a] writesD(2) [OF assms(2) ostream_ok_stored [OF ok a] b] stored_stored [OF ok room]
    by (simp add: enc_then_def)
next
  fix stream :: "'a pb_ostream"
  assume ok: "ostream_ok stream" and full: "\<not> has_room (a @ b) stream"
  show "\<exists>stream'. enc_then f g stream = Some (None, stream') \<and> spoiled (a @ b) stream stream'"
  proof (cases "has_room a stream")
    case True
    have "\<not> has_room b (stored a stream)" using full by (simp add: has_room_append)
    from writesD(3) [OF assms(2) ostream_ok_stored [OF ok True] this] writesD(2) [OF assms(1) ok True]
    show ?thesis using spoiled_after [OF ok] by (auto simp: enc_then_def)
  next
    case False
    from writesD(3) [OF assms(1) ok False] show ?thesis using spoiled_append by (auto simp: enc_then_def)
  qed
qed

section \<open>Submessages\<close>

lemma unat_u64_of_nat: "n < 2 ^ 64 \<Longrightarrow> unat (word_of_nat n :: u64) = n"
  by (simp only: unat_of_nat) simp

lemma puts_length: "n < 2 ^ 64 \<Longrightarrow> puts (pb_encode_varint (word_of_nat n)) (varint n)"
  using puts_varint [of "word_of_nat n"] by (simp only: unat_u64_of_nat)

lemma sizing_ok_SIZING: "sizing_ok PB_OSTREAM_SIZING"
  by (simp add: sizing_ok_def is_sizing_def PB_OSTREAM_SIZING_def)

lemma written_SIZING: "length bs < size_mod \<Longrightarrow> bytes_written (counted bs PB_OSTREAM_SIZING) = length bs"
  by (simp add: counted_def PB_OSTREAM_SIZING_def size_add_def)

text \<open>The second stream of \<open>pb_encode_submessage\<close>, whose limit is the length of the submessage.\<close>

definition substream_of :: "'s pb_ostream \<Rightarrow> nat \<Rightarrow> 's pb_ostream" where
  "substream_of stream len =
     \<lparr>os_target = os_target stream, os_max_size = len, bytes_written = 0, os_errmsg = None\<rparr>"

lemma substream_ok:
  assumes "ostream_ok stream" and "has_room bs stream"
  shows "ostream_ok (substream_of stream (length bs))" and "has_room bs (substream_of stream (length bs))"
  using assms by (auto simp: ostream_ok_def has_room_def substream_of_def split: os_target.splits)

lemma substream_back:
  assumes "ostream_ok stream" and "has_room bs stream"
  shows "stream\<lparr>bytes_written := size_add (bytes_written stream) (bytes_written (stored bs (substream_of stream (length bs)))),
      os_target := os_target (stored bs (substream_of stream (length bs))),
      os_errmsg := os_errmsg (stored bs (substream_of stream (length bs)))\<rparr> = stored bs stream"
proof -
  have "size_add (bytes_written stream) (length bs) = bytes_written stream + length bs"
    using assms by (intro size_add_exact) (simp add: ostream_ok_def has_room_def)
  then show ?thesis using assms(1) by (simp add: stored_def substream_of_def ostream_ok_def)
qed

lemma writes_submessage:
  assumes f: "writes f bs" and len: "length bs < 2 ^ 63"
  shows "writes (pb_encode_submessage f) (varint (length bs) @ bs)"
proof -
  have n: "length bs < 2 ^ 64" using len by simp
  note v = puts_length [OF n]
  have sz: "f PB_OSTREAM_SIZING = Some (Some (), counted bs PB_OSTREAM_SIZING)"
    by (rule writesD(1) [OF f sizing_ok_SIZING])
  have w: "bytes_written (counted bs (PB_OSTREAM_SIZING :: 'a pb_ostream)) = length bs"
    using n by (intro written_SIZING) simp
  show ?thesis
  proof (rule writesI)
    fix stream :: "'a pb_ostream"
    assume s: "sizing_ok stream"
    then have "is_sizing (counted (varint (length bs)) stream)" by (simp add: sizing_ok_def)
    then have "pb_write [] (length bs) (counted (varint (length bs)) stream) =
        (Some (), counted bs (counted (varint (length bs)) stream))"
      by (simp add: pb_write_def) (simp add: counted_def)
    with \<open>is_sizing (counted (varint (length bs)) stream)\<close>
    show "pb_encode_submessage f stream = Some (Some (), counted (varint (length bs) @ bs) stream)"
      using sz w putsD(1) [OF v s] by (simp add: pb_encode_submessage_def counted_counted)
  next
    fix stream :: "'a pb_ostream"
    assume ok: "ostream_ok stream" and room: "has_room (varint (length bs) @ bs) stream"
    let ?s1 = "stored (varint (length bs)) stream"
    have a: "has_room (varint (length bs)) stream" and b: "has_room bs ?s1"
      using room by (simp_all add: has_room_append) (simp add: has_room_def stored_def)
    note ok1 = ostream_ok_stored [OF ok a]
    have "f (substream_of ?s1 (length bs)) = Some (Some (), stored bs (substream_of ?s1 (length bs)))"
      by (rule writesD(2) [OF f substream_ok [OF ok1 b]])
    moreover have "bytes_written (stored bs (substream_of ?s1 (length bs))) = length bs"
      by (simp add: stored_def substream_of_def)
    moreover have "\<not> size_add (bytes_written ?s1) (length bs) > os_max_size ?s1"
      using b ok1 size_add_exact [of "bytes_written ?s1" "length bs"] by (simp add: has_room_def ostream_ok_def)
    ultimately show "pb_encode_submessage f stream = Some (Some (), stored (varint (length bs) @ bs) stream)"
      using sz w putsD(2) [OF v ok a] ostream_ok_not_sizing [OF ok1] substream_back [OF ok1 b] stored_stored [OF ok room]
      by (simp add: pb_encode_submessage_def Let_def flip: substream_of_def)
  next
    fix stream :: "'a pb_ostream"
    assume ok: "ostream_ok stream" and full: "\<not> has_room (varint (length bs) @ bs) stream"
    let ?s1 = "stored (varint (length bs)) stream"
    show "\<exists>stream'. pb_encode_submessage f stream = Some (None, stream') \<and> spoiled (varint (length bs) @ bs) stream stream'"
    proof (cases "has_room (varint (length bs)) stream")
      case True
      note ok1 = ostream_ok_stored [OF ok True]
      have nb: "\<not> has_room bs ?s1" using full by (simp add: has_room_append)
      have le: "bytes_written ?s1 \<le> 2 ^ 63" using ok1 by (simp add: ostream_ok_def)
      then have "size_add (bytes_written ?s1) (length bs) = bytes_written ?s1 + length bs"
        using len by (intro size_add_exact) simp
      then have gt: "size_add (bytes_written ?s1) (length bs) > os_max_size ?s1" using nb by (simp add: has_room_def)
      have "has_room (take 0 bs) ?s1" using ok1 by (simp add: ostream_ok_def has_room_def)
      then have "spoiled bs ?s1 (snd (os_error ''stream full'' ?s1 :: unit option \<times> _))"
        unfolding spoiled_def using ok1 by (intro exI [of _ 0]) (auto simp: os_error_def)
      from spoiled_after [OF ok this] show ?thesis
        using sz w putsD(2) [OF v ok True] ostream_ok_not_sizing [OF ok1] gt
        by (simp add: pb_encode_submessage_def Let_def os_error_def)
    next
      case False
      from putsD(3) [OF v ok False] show ?thesis
        using sz w spoiled_append by (auto simp: pb_encode_submessage_def Let_def)
    qed
  qed
qed

section \<open>Values\<close>

text \<open>What the encoder of submessages has to do for the fields that contain them.\<close>

definition sub_writes ::
  "(pb_field list \<Rightarrow> addr \<Rightarrow> wire list option) \<Rightarrow> ('s pb_env \<Rightarrow> pb_field list \<Rightarrow> addr \<Rightarrow> 's enc) \<Rightarrow> 's pb_env \<Rightarrow>
     bool" where
  "sub_writes subw sub env \<longleftrightarrow>
     (\<forall>fds a ws. subw fds a = Some ws \<longrightarrow> length (concat (map wire_bytes ws)) < 2 ^ 63 \<longrightarrow>
        writes (sub env fds a) (concat (map wire_bytes ws)))"

lemma writes_submessage_field:
  assumes "sub_writes subw sub env" and "subw (env_fields env (pf_ptr field)) src = Some ws"
    and "length (concat (map wire_bytes ws)) < 2 ^ 63" and "pf_ptr field \<noteq> 0"
  shows "writes (pb_enc_submessage sub env field src)
    (varint (length (concat (map wire_bytes ws))) @ concat (map wire_bytes ws))"
proof -
  have "writes (sub env (env_fields env (pf_ptr field)) src) (concat (map wire_bytes ws))"
    using assms(1-3) unfolding sub_writes_def by blast
  from writes_submessage [OF this assms(3)] assms(4) show ?thesis by (simp add: pb_enc_submessage_def)
qed

lemma puts_bytes: "length bs = n \<Longrightarrow> n < size_mod \<Longrightarrow> puts (pb_encode_string bs n) (varint n @ bs)"
  using puts_string [of bs] by simp

lemma unat_u32_less: "unat (w :: u32) < 2 ^ 32"
  using unsigned_less [of w, where ?'a = nat] by simp

lemma length_fixed: "length (fixed32 v) = 4" "length (fixed64 w) = 8"
  by (simp_all add: fixed32_def fixed64_def)

lemma string_length_le: "string_length mem p n \<le> n"
proof (induction n arbitrary: p)
  case 0
  then show ?case by (simp add: string_length.simps)
next
  case (Suc n)
  from Suc.IH [of "p + 1"] show ?case by (simp add: string_length.simps [of _ _ "Suc n"])
qed

lemma writes_bytes_field:
  assumes "src \<noteq> 0" and "\<not> (PB_ATYPE (pb_type field) = PB_ATYPE_STATIC \<and> unat (mem_u32 mem src) + 4 > unat (data_size field))"
  shows "puts (pb_enc_bytes mem field src)
    (varint (unat (mem_u32 mem src)) @ mem_bytes mem (src + 4) (unat (mem_u32 mem src)))"
proof -
  let ?n = "unat (mem_u32 mem src)"
  have n: "?n < 2 ^ 32" by (rule unat_u32_less)
  then have a: "size_add ?n 4 = ?n + 4" by (intro size_add_exact) simp
  have "puts (pb_encode_string (mem_bytes mem (src + 4) ?n) ?n) (varint ?n @ mem_bytes mem (src + 4) ?n)"
    using n by (intro puts_bytes) simp_all
  then show ?thesis using assms a by (auto simp: pb_enc_bytes_def Let_def)
qed

lemma writes_string_field:
  assumes "src \<noteq> 0" and "n = string_length mem src
    (if PB_ATYPE (pb_type field) = PB_ATYPE_POINTER then size_mod - 1 else unat (data_size field))"
  shows "puts (pb_enc_string mem field src) (varint n @ mem_bytes mem src n)"
proof -
  have "unat (data_size field) < 2 ^ 32" by (rule unat_u32_less)
  then have "n < size_mod"
    using string_length_le [of mem src "size_mod - 1"] string_length_le [of mem src "unat (data_size field)"]
    unfolding assms(2) by (simp split: if_splits)
  then have "puts (pb_encode_string (mem_bytes mem src n) n) (varint n @ mem_bytes mem src n)"
    by (intro puts_bytes) simp_all
  then show ?thesis using assms by (simp add: pb_enc_string_def Let_def)
qed

lemma writes_value:
  assumes sub: "sub_writes subw sub env"
    and w: "value_wire subw (env_fields env) mem field src = Some w" and len: "length (wire_payload w) < 2 ^ 63"
  shows "writes (PB_ENCODERS sub env mem (PB_LTYPE (pb_type field)) field src) (wire_payload w)"
proof -
  let ?t = "PB_LTYPE (pb_type field)"
  consider "?t = 0" | "?t = 1" | "?t = 2" | "?t = 3" | "?t = 4" | "?t = 5" | "?t = 6" | "?t = 7" | "?t = 8" | "?t = 0xA"
    using w by (auto simp: value_wire_def Let_def split: if_splits)
  then show ?thesis
  proof cases
    case 1
    then show ?thesis using w puts_varint [of 1] puts_varint [of 0]
      by (auto simp: value_wire_def PB_ENCODERS_def pb_enc_bool_def intro!: writes_op)
  next
    case 2
    then show ?thesis using w puts_varint
      by (auto simp: value_wire_def PB_ENCODERS_def pb_enc_varint_def intro!: writes_op)
  next
    case 3
    then show ?thesis using w puts_varint
      by (auto simp: value_wire_def PB_ENCODERS_def pb_enc_uvarint_def intro!: writes_op)
  next
    case 4
    then show ?thesis using w puts_svarint
      by (auto simp: value_wire_def PB_ENCODERS_def pb_enc_svarint_def intro!: writes_op)
  next
    case 5
    then show ?thesis using w puts_fixed32
      by (auto simp: value_wire_def PB_ENCODERS_def pb_enc_fixed32_def intro!: writes_op)
  next
    case 6
    then show ?thesis using w puts_fixed64
      by (auto simp: value_wire_def PB_ENCODERS_def pb_enc_fixed64_def intro!: writes_op)
  next
    case 7
    show ?thesis
    proof (cases "src = 0")
      case True
      have "puts (pb_enc_bytes mem field src) (varint 0 @ [])"
        using True puts_bytes [of "[]" 0] by (simp add: pb_enc_bytes_def)
      then show ?thesis using 7 w True by (auto simp: value_wire_def PB_ENCODERS_def intro!: writes_op)
    next
      case False
      then show ?thesis using 7 w writes_bytes_field [of src field mem]
        by (auto simp: value_wire_def PB_ENCODERS_def intro!: writes_op split: if_splits)
    qed
  next
    case 8
    show ?thesis
    proof (cases "src = 0")
      case True
      have "puts (pb_enc_string mem field src) (varint 0 @ [])"
        using True puts_bytes [of "[]" 0] by (simp add: pb_enc_string_def mem_bytes_def)
      then show ?thesis using 8 w True by (auto simp: value_wire_def PB_ENCODERS_def intro!: writes_op)
    next
      case False
      then show ?thesis using 8 w writes_string_field [OF False refl, of mem field]
        by (auto simp: value_wire_def PB_ENCODERS_def intro!: writes_op)
    qed
  next
    case 9
    then obtain ws where ws: "subw (env_fields env (pf_ptr field)) src = Some ws" "w = Message (pf_tag field) ws"
      and p: "pf_ptr field \<noteq> 0"
      using w by (auto simp: value_wire_def split: if_splits)
    have "length (concat (map wire_bytes ws)) < 2 ^ 63" using len ws(2) by simp
    with writes_submessage_field [of subw sub env field src ws] sub ws p 9 show ?thesis by (simp add: PB_ENCODERS_def)
  next
    case 10
    have "unat (data_size field) < 2 ^ 32" by (rule unat_u32_less)
    then have "puts (pb_enc_fixed_length_bytes mem field src)
        (varint (unat (data_size field)) @ mem_bytes mem src (unat (data_size field)))"
      unfolding pb_enc_fixed_length_bytes_def by (intro puts_bytes) simp_all
    then show ?thesis using 10 w by (auto simp: value_wire_def PB_ENCODERS_def intro!: writes_op)
  qed
qed

section \<open>Arrays\<close>

lemma value_key:
  assumes "value_wire subw fields_at mem field src = Some w"
  obtains wt where "unat wt < 8" "pb_encode_tag_for_field field = pb_encode_tag wt (pf_tag field)"
    "wire_bytes w = wire_key (pf_tag field) wt @ wire_payload w"
proof -
  let ?t = "PB_LTYPE (pb_type field)"
  consider "?t \<in> {0, 1, 2, 3}" | "?t = 4" | "?t = 5" | "?t \<in> {6, 7, 8, 0xA}"
    using assms by (auto simp: value_wire_def Let_def split: if_splits)
  then show thesis
  proof cases
    case 1
    then show thesis using assms by (intro that [of 0]) (auto simp: value_wire_def pb_encode_tag_for_field_def)
  next
    case 2
    then show thesis using assms by (intro that [of 5]) (auto simp: value_wire_def pb_encode_tag_for_field_def)
  next
    case 3
    then show thesis using assms by (intro that [of 1]) (auto simp: value_wire_def pb_encode_tag_for_field_def)
  next
    case 4
    then show thesis using assms
      by (intro that [of 2]) (auto simp: value_wire_def pb_encode_tag_for_field_def split: if_splits)
  qed
qed

lemma writes_single:
  fixes env :: "'s pb_env"
  assumes "sub_writes subw sub env" and w: "value_wire subw (env_fields env) mem field src = Some w"
    and "length (wire_bytes w) < 2 ^ 63"
  shows "writes (enc_then (enc_op (pb_encode_tag_for_field field))
    (PB_ENCODERS sub env mem (PB_LTYPE (pb_type field)) field src)) (wire_bytes w)"
proof -
  obtain wt where wt: "unat wt < 8"
    "(pb_encode_tag_for_field field :: ('s pb_ostream, unit) cop) = pb_encode_tag wt (pf_tag field)"
    "wire_bytes w = wire_key (pf_tag field) wt @ wire_payload w"
    by (rule value_key [OF w])
  have "length (wire_payload w) < 2 ^ 63" using assms(3) wt(3) by simp
  from writes_then [OF writes_op [OF puts_tag [OF wt(1), of "pf_tag field"]] writes_value [OF assms(1) w this]] show ?thesis
    unfolding wt(2,3) .
qed

lemma writes_items:
  assumes "all_some (map val (item_addrs p step n)) = Some vs"
    and "\<And>a v. val a = Some v \<Longrightarrow> v \<in> set vs \<Longrightarrow> writes (func a) (out v)"
  shows "writes (enc_items func p step n) (concat (map out vs))"
  using assms
proof (induction n arbitrary: p vs)
  case 0
  then show ?case by (simp add: writes_done)
next
  case (Suc n)
  from Suc.prems(1) obtain v vs' where v: "val p = Some v" "vs = v # vs'"
    "all_some (map val (item_addrs (p + step) step n)) = Some vs'"
    by (auto split: option.splits)
  have "writes (enc_items func (p + step) step n) (concat (map out vs'))"
    using Suc.prems(2) v(2) by (intro Suc.IH [OF v(3)]) auto
  moreover have "writes (func p) (out v)" using Suc.prems(2) v by simp
  ultimately show ?case using v(2) writes_then by fastforce
qed

lemma length_part_le: "v \<in> set vs \<Longrightarrow> length (f v) \<le> length (concat (map f vs))"
  by (induction vs) auto

lemma all_some_length: "all_some xs = Some ys \<Longrightarrow> length ys = length xs"
  by (induction xs arbitrary: ys) (auto split: option.splits)

lemma all_some_in: "all_some (map f xs) = Some ys \<Longrightarrow> y \<in> set ys \<Longrightarrow> \<exists>x \<in> set xs. f x = Some y"
  by (induction xs arbitrary: ys) (auto split: option.splits)

lemma length_item_addrs: "length (item_addrs p step n) = n"
  by (induction n arbitrary: p) simp_all

lemma length_concat_const: "(\<And>v. v \<in> set vs \<Longrightarrow> length (f v) = k) \<Longrightarrow> length (concat (map f vs)) = k * length vs"
  by (induction vs) auto

lemma writes_payloads:
  assumes "sub_writes subw sub env"
    and vs: "all_some (map (value_wire subw (env_fields env) mem field) (item_addrs p step n)) = Some vs"
    and len: "length (concat (map wire_payload vs)) < 2 ^ 63"
  shows "writes (enc_items (PB_ENCODERS sub env mem (PB_LTYPE (pb_type field)) field) p step n)
    (concat (map wire_payload vs))"
proof (rule writes_items [OF vs])
  fix a v assume v: "value_wire subw (env_fields env) mem field a = Some v" "v \<in> set vs"
  have "length (wire_payload v) < 2 ^ 63" using length_part_le [OF v(2), of wire_payload] len by linarith
  then show "writes (PB_ENCODERS sub env mem (PB_LTYPE (pb_type field)) field a) (wire_payload v)"
    by (rule writes_value [OF assms(1) v(1)])
qed

lemma packed_size_eq:
  assumes "sub_writes subw sub env"
    and vs: "all_some (map (value_wire subw (env_fields env) mem field) (item_addrs p (ucast (data_size field)) n)) = Some vs"
    and len: "length (concat (map wire_payload vs)) < 2 ^ 63"
  shows "packed_size (PB_ENCODERS sub env mem (PB_LTYPE (pb_type field)) field) field p n =
    Some (Some (length (concat (map wire_payload vs))))"
proof -
  let ?t = "PB_LTYPE (pb_type field)"
  have n: "length vs = n" using all_some_length [OF vs] by (simp add: length_item_addrs)
  have fixed: "packed_size (PB_ENCODERS sub env mem ?t field) field p n =
      Some (Some (length (concat (map wire_payload vs))))"
    if k: "\<And>v. v \<in> set vs \<Longrightarrow> length (wire_payload v) = k"
      and eq: "packed_size (PB_ENCODERS sub env mem ?t field) field p n = Some (Some (size_mul k n))" for k
  proof -
    have l: "length (concat (map wire_payload vs)) = k * n" using length_concat_const [of vs wire_payload k] k n by simp
    then have "k * n < size_mod" using len by simp
    then show ?thesis using eq l by (simp only: size_mul_exact)
  qed
  consider "?t = 4" | "?t = 5" | "?t \<noteq> 4" "?t \<noteq> 5" by blast
  then show ?thesis
  proof cases
    case 1
    show ?thesis
    proof (rule fixed)
      fix v assume "v \<in> set vs"
      from all_some_in [OF vs this] 1 show "length (wire_payload v) = 4"
        by (auto simp: value_wire_def length_fixed)
    qed (use 1 in \<open>simp add: packed_size_def\<close>)
  next
    case 2
    show ?thesis
    proof (rule fixed)
      fix v assume "v \<in> set vs"
      from all_some_in [OF vs this] 2 show "length (wire_payload v) = 8"
        by (auto simp: value_wire_def length_fixed)
    qed (use 2 in \<open>simp add: packed_size_def\<close>)
  next
    case 3
    note w = writesD(1) [OF writes_payloads [OF assms] sizing_ok_SIZING]
    have "length (concat (map wire_payload vs)) < size_mod" by (rule less_trans [OF len]) simp
    with 3 w written_SIZING [of "concat (map wire_payload vs)"] show ?thesis by (simp add: packed_size_def)
  qed
qed

lemma writes_packed_data:
  assumes "writes f bs"
  shows "writes (\<lambda>stream. if is_sizing stream then Some (pb_write [] (length bs) stream) else f stream) bs"
proof (rule writesI)
  fix stream :: "'a pb_ostream"
  assume "sizing_ok stream"
  then show "(if is_sizing stream then Some (pb_write [] (length bs) stream) else f stream) =
      Some (Some (), counted bs stream)"
    by (simp add: sizing_ok_def pb_write_def counted_def)
next
  fix stream :: "'a pb_ostream"
  assume ok: "ostream_ok stream" and "has_room bs stream"
  from writesD(2) [OF assms this] ostream_ok_not_sizing [OF ok]
  show "(if is_sizing stream then Some (pb_write [] (length bs) stream) else f stream) =
      Some (Some (), stored bs stream)"
    by simp
next
  fix stream :: "'a pb_ostream"
  assume ok: "ostream_ok stream" and "\<not> has_room bs stream"
  from writesD(3) [OF assms this] ostream_ok_not_sizing [OF ok]
  show "\<exists>stream'. (if is_sizing stream then Some (pb_write [] (length bs) stream) else f stream) =
      Some (None, stream') \<and> spoiled bs stream stream'"
    by simp
qed

lemma writes_array:
  assumes sub: "sub_writes subw sub env"
    and ws: "array_wire (value_wire subw (env_fields env) mem field) mem field p n = Some ws"
    and len: "length (concat (map wire_bytes ws)) < 2 ^ 63"
  shows "writes (encode_array (PB_ENCODERS sub env mem (PB_LTYPE (pb_type field))) mem field p n)
    (concat (map wire_bytes ws))"
proof -
  let ?t = "PB_LTYPE (pb_type field)" and ?val = "value_wire subw (env_fields env) mem field"
  let ?func = "PB_ENCODERS sub env mem ?t"
  consider "n = 0" | "n \<noteq> 0" "?t \<le> 5" | "n \<noteq> 0" "\<not> ?t \<le> 5" by blast
  then show ?thesis
  proof cases
    case 1
    then show ?thesis using ws by (simp add: array_wire_def encode_array_def writes_done)
  next
    case 2
    from ws 2 obtain vs where vs: "all_some (map ?val (item_addrs p (ucast (data_size field)) n)) = Some vs"
      and w: "ws = [Bytes (pf_tag field) (concat (map wire_payload vs))]"
      and g: "\<not> (PB_ATYPE (pb_type field) \<noteq> PB_ATYPE_POINTER \<and> n > unat (array_size field))"
      by (auto simp: array_wire_def split: if_splits)
    define bs where "bs = concat (map wire_payload vs)"
    have lb: "length bs < 2 ^ 63" using len w by (simp add: bs_def)
    then have l: "length (concat (map wire_payload vs)) < 2 ^ 63" by (simp only: bs_def)
    have "puts (pb_encode_varint (word_of_nat (length bs))) (varint (length bs))" using lb by (intro puts_length) simp
    note size = writes_op [OF this]
    note items = writes_packed_data [OF writes_payloads [OF sub vs l, folded bs_def]]
    have tag: "puts (pb_encode_tag PB_WT_STRING (pf_tag field)) (wire_key (pf_tag field) PB_WT_STRING)"
      by (rule puts_tag) simp
    show ?thesis
      using writes_then [OF writes_op [OF tag] writes_then [OF size items]]
        packed_size_eq [OF sub vs l, folded bs_def] 2 g w [folded bs_def]
      by (auto simp: encode_array_def)
  next
    case 3
    define deref where "deref = (\<lambda>a. if PB_ATYPE (pb_type field) = PB_ATYPE_POINTER \<and>
        (?t = PB_LTYPE_STRING \<or> ?t = PB_LTYPE_BYTES) then mem_u64 mem a else a)"
    from ws 3 have vs: "all_some (map (\<lambda>a. ?val (deref a)) (item_addrs p (ucast (data_size field)) n)) = Some ws"
      and g: "\<not> (PB_ATYPE (pb_type field) \<noteq> PB_ATYPE_POINTER \<and> n > unat (array_size field))"
      by (auto simp: array_wire_def deref_def split: if_splits)
    have "writes (enc_items (\<lambda>a. enc_then (enc_op (pb_encode_tag_for_field field)) (?func field (deref a))) p
        (ucast (data_size field)) n) (concat (map wire_bytes ws))"
    proof (rule writes_items [OF vs])
      fix a v assume v: "?val (deref a) = Some v" "v \<in> set ws"
      have "length (wire_bytes v) < 2 ^ 63" using length_part_le [OF v(2), of wire_bytes] len by linarith
      then show "writes (enc_then (enc_op (pb_encode_tag_for_field field)) (?func field (deref a))) (wire_bytes v)"
        by (rule writes_single [OF sub v(1)])
    qed
    moreover have "(if PB_ATYPE (pb_type field) = PB_ATYPE_POINTER \<and> (?t = PB_LTYPE_STRING \<or> ?t = PB_LTYPE_BYTES)
        then ?func field (mem_u64 mem a) else ?func field a) = ?func field (deref a)" for a
      unfolding deref_def by (rule if_distrib [symmetric])
    ultimately show ?thesis using 3 g by (auto simp: encode_array_def)
  qed
qed

section \<open>Fields\<close>

lemma writes_one:
  assumes "sub_writes subw sub env"
    and "map_option (\<lambda>w. [w]) (value_wire subw (env_fields env) mem field src) = Some ws"
    and "length (concat (map wire_bytes ws)) < 2 ^ 63"
  shows "writes (enc_then (enc_op (pb_encode_tag_for_field field))
    (PB_ENCODERS sub env mem (PB_LTYPE (pb_type field)) field src)) (concat (map wire_bytes ws))"
  using assms(2,3) writes_single [OF assms(1)] by auto

lemma writes_basic:
  assumes sub: "sub_writes subw sub env"
    and ws: "basic_wire (value_wire subw (env_fields env) mem) check mem field pData = Some ws"
    and lt: "\<not> PB_LTYPE (pb_type field) \<ge> PB_LTYPES_COUNT"
    and len: "length (concat (map wire_bytes ws)) < 2 ^ 63"
  shows "writes (encode_basic_field sub check env mem field pData) (concat (map wire_bytes ws))"
proof -
  let ?h = "PB_HTYPE (pb_type field)" and ?pointer = "PB_ATYPE (pb_type field) = PB_ATYPE_POINTER"
  let ?p = "if ?pointer then mem_u64 mem pData else pData"
  note one = writes_one [OF sub _ len, of mem field ?p]
  consider "?h = PB_HTYPE_REQUIRED" | "?h = PB_HTYPE_OPTIONAL" | "?h = PB_HTYPE_REPEATED"
    | "?h \<noteq> PB_HTYPE_REQUIRED" "?h \<noteq> PB_HTYPE_OPTIONAL" "?h \<noteq> PB_HTYPE_REPEATED" by blast
  then show ?thesis
  proof cases
    case 1
    then show ?thesis using ws lt one
      by (cases "size_offset field = 0") (auto simp: basic_wire_def encode_basic_field_def Let_def split: if_splits)
  next
    case 2
    show ?thesis
    proof (cases "size_offset field = 0")
      case True
      with 2 ws obtain zero where z: "check field pData = Some zero"
        and w: "(if (if ?pointer then ?p = 0 else zero) then Some []
            else map_option (\<lambda>w. [w]) (value_wire subw (env_fields env) mem field ?p)) = Some ws"
        by (auto simp: basic_wire_def Let_def split: option.splits)
      show ?thesis
      proof (cases "if ?pointer then ?p = 0 else zero")
        case skip: True
        have "ws = []" using w unfolding if_P [OF skip] by simp
        with 2 True z lt skip writes_done show ?thesis by (simp add: encode_basic_field_def Let_def split: if_splits)
      next
        case False
        have "map_option (\<lambda>w. [w]) (value_wire subw (env_fields env) mem field ?p) = Some ws"
          using w unfolding if_not_P [OF False] .
        from one [OF this] 2 True z lt False show ?thesis
          by (simp add: encode_basic_field_def Let_def split: if_splits)
      qed
    next
      case False
      then show ?thesis using 2 ws lt one writes_done
        by (auto simp: basic_wire_def encode_basic_field_def Let_def split: if_splits)
    qed
  next
    case 3
    show ?thesis
      using 3 ws lt writes_array [OF sub _ len, of mem field ?p]
      by (cases "size_offset field = 0") (simp_all add: basic_wire_def encode_basic_field_def Let_def)
  next
    case 4
    then show ?thesis using ws lt one writes_done
      by (auto simp: basic_wire_def encode_basic_field_def Let_def split: if_splits)
  qed
qed

text \<open>The functions of the user have to write what \<open>user_out\<close> says.\<close>

definition callbacks_ok :: "user_out \<Rightarrow> 's pb_env \<Rightarrow> bool" where
  "callbacks_ok out env \<longleftrightarrow>
     (\<forall>fn field arg bs. callback_out out fn field arg = Some bs \<longrightarrow> puts (env_encode env fn field arg) bs) \<and>
     (\<forall>fn ext bs. extension_out out fn ext = Some bs \<longrightarrow> puts (env_extension env fn ext) bs)"

lemma writes_callback:
  assumes "callbacks_ok out env" and "callback_out out (mem_u64 mem p) field (p + 8) = Some bs" and "mem_u64 mem p \<noteq> 0"
  shows "writes (enc_op (encode_callback_field env mem field p)) bs"
proof -
  have u: "puts (env_encode env (mem_u64 mem p) field (p + 8)) bs" using assms(1,2) unfolding callbacks_ok_def by blast
  show ?thesis
  proof (rule writesI)
    fix stream :: "'a pb_ostream"
    assume "ostream_ok stream" "\<not> has_room bs stream"
    from putsD(3) [OF u this] obtain k msg where
      k: "env_encode env (mem_u64 mem p) field (p + 8) stream = (None, stored (take k bs) stream\<lparr>os_errmsg := msg\<rparr>)"
        "has_room (take k bs) stream"
      unfolding spoiled_def by auto
    then show "\<exists>stream'. enc_op (encode_callback_field env mem field p) stream = Some (None, stream') \<and>
        spoiled bs stream stream'"
      using assms(3) unfolding spoiled_def
      by (auto simp: enc_op_def encode_callback_field_def os_error_def intro!: exI [of _ k])
  qed (use putsD(1,2) [OF u] assms(3) in \<open>simp_all add: enc_op_def encode_callback_field_def\<close>)
qed

lemma writes_field:
  assumes "sub_writes subw sub env" and "callbacks_ok out env"
    and "field_wire out (value_wire subw (env_fields env) mem) check mem field pData = Some ws"
    and "length (concat (map wire_bytes ws)) < 2 ^ 63"
  shows "writes (encode_field sub check env mem field pData) (concat (map wire_bytes ws))"
proof (cases "PB_ATYPE (pb_type field) = PB_ATYPE_STATIC \<or> PB_ATYPE (pb_type field) = PB_ATYPE_POINTER")
  case True
  then show ?thesis using assms(3) writes_basic [OF assms(1) _ _ assms(4), of mem check field pData]
    by (auto simp: field_wire_def encode_field_def Let_def split: if_splits)
next
  case False
  then have c: "PB_ATYPE (pb_type field) = PB_ATYPE_CALLBACK" using assms(3) by (auto simp: field_wire_def split: if_splits)
  show ?thesis
  proof (cases "mem_u64 mem pData = 0")
    case True
    then have "ws = []" and "encode_callback_field env mem field pData = op_ret ()"
      using assms(3) False c by (simp_all add: field_wire_def encode_callback_field_def)
    then show ?thesis using False c writes_done by (simp add: encode_field_def Let_def enc_done_def)
  next
    case nonnull: False
    then obtain bs where "callback_out out (mem_u64 mem pData) field (pData + 8) = Some bs" "ws = [Raw bs]"
      using assms(3) False c by (auto simp: field_wire_def)
    with writes_callback [OF assms(2) _ nonnull] False c show ?thesis by (simp add: encode_field_def Let_def)
  qed
qed

section \<open>Extensions and messages\<close>

lemma writes_extensions:
  assumes "callbacks_ok out env"
    and fw: "\<And>field a ws. fw field a = Some ws \<Longrightarrow> length (concat (map wire_bytes ws)) < 2 ^ 63 \<Longrightarrow>
      writes (enc field a) (concat (map wire_bytes ws))"
  shows "extensions_wire n out fw (env_fields env) mem ext = Some ws \<Longrightarrow>
    length (concat (map wire_bytes ws)) < 2 ^ 63 \<Longrightarrow>
    writes (encode_extensions n enc env mem ext) (concat (map wire_bytes ws))"
proof (induction n arbitrary: ext ws)
  case 0
  then show ?case by (auto simp: writes_done split: if_splits)
next
  case (Suc n)
  let ?field = "field_at (env_fields env (ext_arg mem ext)) 0"
  let ?a = "if PB_ATYPE (pb_type ?field) = PB_ATYPE_POINTER then ext_dest ext else mem_u64 mem (ext_dest ext)"
  show ?case
  proof (cases "ext = 0")
    case True
    then show ?thesis using Suc.prems by (simp add: writes_done)
  next
    case False
    with Suc.prems(1) obtain ws1 ws2 where
      1: "(if ext_encode mem ext \<noteq> 0 then map_option (\<lambda>bs. [Raw bs]) (extension_out out (ext_encode mem ext) ext)
           else fw ?field ?a) = Some ws1"
      and 2: "extensions_wire n out fw (env_fields env) mem (ext_next mem ext) = Some ws2" and ws: "ws = ws1 @ ws2"
      by (auto simp: Let_def split: option.splits)
    have rest: "writes (encode_extensions n enc env mem (ext_next mem ext)) (concat (map wire_bytes ws2))"
      using Suc.prems(2) ws by (intro Suc.IH [OF 2]) simp
    have first: "writes (if ext_encode mem ext \<noteq> 0 then enc_op (env_extension env (ext_encode mem ext) ext)
        else default_extension_encoder enc env mem ext) (concat (map wire_bytes ws1))"
    proof (cases "ext_encode mem ext = 0")
      case True
      then have "writes (enc ?field ?a) (concat (map wire_bytes ws1))"
        using 1 Suc.prems(2) ws by (intro fw) simp_all
      then show ?thesis using True by (simp add: default_extension_encoder_def Let_def split: if_splits)
    next
      case False
      then obtain bs where "extension_out out (ext_encode mem ext) ext = Some bs" "ws1 = [Raw bs]" using 1 by auto
      then show ?thesis using False assms(1) by (auto simp: callbacks_ok_def intro!: writes_op)
    qed
    from writes_then [OF first rest] False ws show ?thesis by simp
  qed
qed

lemma writes_fields:
  assumes fw: "\<And>field a ws. fw field a = Some ws \<Longrightarrow> length (concat (map wire_bytes ws)) < 2 ^ 63 \<Longrightarrow>
    writes (enc field a) (concat (map wire_bytes ws))"
  shows "fields_wire fw iter = Some ws \<Longrightarrow> length (concat (map wire_bytes ws)) < 2 ^ 63 \<Longrightarrow>
    writes (encode_fields enc iter) (concat (map wire_bytes ws))"
proof (induction "length (it_start iter) - it_pos iter" arbitrary: iter ws rule: less_induct)
  case less
  obtain ws1 where w1: "fw (it_field iter) (it_pData iter) = Some ws1"
    using less.prems(1) by (auto simp: fields_wire.simps [of fw iter] split: option.splits)
  show ?case
  proof (cases "pb_field_iter_next iter")
    case (Pair more iter')
    show ?thesis
    proof (cases more)
      case True
      then obtain ws2 where w2: "fields_wire fw iter' = Some ws2" "ws = ws1 @ ws2"
        using less.prems(1) w1 Pair by (auto simp: fields_wire.simps [of fw iter])
      have "writes (encode_fields enc iter') (concat (map wire_bytes ws2))"
        using iter_next_less [OF Pair [symmetric] True] less.prems(2) w2 by (intro less.hyps) simp_all
      with writes_then [OF fw [OF w1] this] Pair True w2 less.prems(2) show ?thesis
        by (simp add: encode_fields.simps [of enc iter])
    next
      case False
      then have "ws = ws1" using less.prems(1) w1 Pair by (simp add: fields_wire.simps [of fw iter])
      with writes_then [OF fw [OF w1] writes_done] Pair False less.prems(2) show ?thesis
        by (simp add: encode_fields.simps [of enc iter])
    qed
  qed
qed

lemma writes_message:
  assumes out: "callbacks_ok out env"
  shows "msg_wire n out mem env fds src = Some ws \<Longrightarrow> length (concat (map wire_bytes ws)) < 2 ^ 63 \<Longrightarrow>
    writes (pb_encode n mem env fds src) (concat (map wire_bytes ws))"
proof (induction n arbitrary: fds src ws)
  case 0
  then show ?case by simp
next
  case (Suc n)
  have sub: "sub_writes (msg_wire n out mem env) (pb_encode n mem) env" unfolding sub_writes_def using Suc.IH by blast
  note field = writes_field [OF sub out]
  show ?case
  proof (cases "pb_field_iter_begin fds src")
    case (Pair more iter)
    show ?thesis
    proof (cases more)
      case True
      show ?thesis
        using Suc.prems Pair True
        by (simp add: Let_def)
          (rule writes_fields, auto simp: encode_extension_field_def split: if_splits
            intro!: writes_extensions [OF out] field)
    next
      case False
      then show ?thesis using Suc.prems Pair by (simp add: writes_done)
    qed
  qed
qed

end
