(* ===== verification/PbCct.thy ===== *)
theory PbCct
  imports PbEncodeSpec
begin

text \<open>
  The messages of the transport layer for diagnostics, \<open>cct.nanopb.c\<close>, with the layout of their
  structs on the 64-bit targets of the app, and the properties of the encoder.
\<close>

section \<open>Struct layout\<close>

text \<open>A member is its size and its alignment; \<open>bool\<close> has one byte, enums and \<open>pb_size_t\<close> have four.\<close>

type_synonym member = "nat \<times> nat"

abbreviation m_bool :: member where "m_bool \<equiv> (1, 1)"
abbreviation m_int32 :: member where "m_int32 \<equiv> (4, 4)"
abbreviation m_int64 :: member where "m_int64 \<equiv> (8, 8)"
abbreviation m_pointer :: member where "m_pointer \<equiv> (8, 8)"

definition align_up :: "nat \<Rightarrow> nat \<Rightarrow> nat" where
  "align_up n a = (n + a - 1) div a * a"

fun member_offsets :: "nat \<Rightarrow> member list \<Rightarrow> nat list" where
  "member_offsets off [] = []"
| "member_offsets off ((sz, al) # ms) = align_up off al # member_offsets (align_up off al + sz) ms"

fun members_end :: "nat \<Rightarrow> member list \<Rightarrow> nat" where
  "members_end off [] = off"
| "members_end off ((sz, al) # ms) = members_end (align_up off al + sz) ms"

definition struct_member :: "member list \<Rightarrow> member" where
  "struct_member ms = (let al = foldr max (map snd ms) 1 in (align_up (members_end 0 ms) al, al))"

definition offsetof :: "member list \<Rightarrow> nat \<Rightarrow> nat" where
  "offsetof ms i = member_offsets 0 ms ! i"

section \<open>The macros of \<open>pb.h\<close>\<close>

text \<open>Members are given by their position. \<open>PB_DATAOFFSET_FIRST\<close> and \<open>PB_DATAOFFSET_OTHER\<close>:\<close>

definition PB_DATAOFFSET :: "member list \<Rightarrow> nat \<Rightarrow> nat option \<Rightarrow> u32" where
  "PB_DATAOFFSET ms m previous =
     (case previous of
        None \<Rightarrow> word_of_nat (offsetof ms m)
      | Some p \<Rightarrow> word_of_int (int (offsetof ms m) - int (offsetof ms p) - int (fst (ms ! p))))"

definition pb_delta :: "member list \<Rightarrow> nat \<Rightarrow> nat \<Rightarrow> u32" where
  "pb_delta ms m1 m2 = word_of_int (int (offsetof ms m1) - int (offsetof ms m2))"

definition PB_OPTIONAL_STATIC :: "u32 \<Rightarrow> byte \<Rightarrow> member list \<Rightarrow> nat \<Rightarrow> nat option \<Rightarrow> nat \<Rightarrow> addr \<Rightarrow> pb_field" where
  "PB_OPTIONAL_STATIC t ltype ms m previous has p =
     \<lparr>pf_tag = t, pb_type = PB_ATYPE_STATIC OR PB_HTYPE_OPTIONAL OR ltype, data_offset = PB_DATAOFFSET ms m previous,
      size_offset = pb_delta ms has m, data_size = word_of_nat (fst (ms ! m)), array_size = 0, pf_ptr = p\<rparr>"

definition PB_OPTIONAL_POINTER :: "u32 \<Rightarrow> byte \<Rightarrow> member list \<Rightarrow> nat \<Rightarrow> nat option \<Rightarrow> nat \<Rightarrow> addr \<Rightarrow> pb_field" where
  "PB_OPTIONAL_POINTER t ltype ms m previous target p =
     \<lparr>pf_tag = t, pb_type = PB_ATYPE_POINTER OR PB_HTYPE_OPTIONAL OR ltype, data_offset = PB_DATAOFFSET ms m previous,
      size_offset = 0, data_size = word_of_nat target, array_size = 0, pf_ptr = p\<rparr>"

definition PB_REPEATED_POINTER ::
  "u32 \<Rightarrow> byte \<Rightarrow> member list \<Rightarrow> nat \<Rightarrow> nat option \<Rightarrow> nat \<Rightarrow> nat \<Rightarrow> addr \<Rightarrow> pb_field" where
  "PB_REPEATED_POINTER t ltype ms m previous count target p =
     \<lparr>pf_tag = t, pb_type = PB_ATYPE_POINTER OR PB_HTYPE_REPEATED OR ltype, data_offset = PB_DATAOFFSET ms m previous,
      size_offset = pb_delta ms count m, data_size = word_of_nat target, array_size = 0, pf_ptr = p\<rparr>"

section \<open>The structs of \<open>cct.nanopb.h\<close>\<close>

definition gdt_cct_NetworkConnectionInfo :: "member list" where
  "gdt_cct_NetworkConnectionInfo = [m_bool, m_int32, m_bool, m_int32]"

definition gdt_cct_IosClientInfo :: "member list" where
  "gdt_cct_IosClientInfo =
     [m_pointer, m_pointer, m_pointer, m_pointer, m_pointer, m_pointer, m_pointer]"

definition gdt_cct_ClientInfo :: "member list" where
  "gdt_cct_ClientInfo = [m_bool, m_int32, m_bool, struct_member gdt_cct_IosClientInfo]"

definition gdt_cct_QosTierConfiguration :: "member list" where
  "gdt_cct_QosTierConfiguration = [m_bool, m_int32, m_bool, m_int32]"

definition gdt_cct_QosTiersOverride :: "member list" where
  "gdt_cct_QosTiersOverride = [m_int32, m_pointer, m_bool, m_int64]"

definition gdt_cct_LogEvent :: "member list" where
  "gdt_cct_LogEvent = [m_bool, m_int64, m_pointer, m_bool, m_int32, m_bool, m_int64, m_bool, m_int64,
     m_bool, struct_member gdt_cct_NetworkConnectionInfo]"

definition gdt_cct_LogRequest :: "member list" where
  "gdt_cct_LogRequest = [m_bool, struct_member gdt_cct_ClientInfo, m_bool, m_int32, m_int32, m_pointer,
     m_bool, m_int64, m_bool, m_int64, m_bool, m_int32]"

definition gdt_cct_BatchedLogRequest :: "member list" where
  "gdt_cct_BatchedLogRequest = [m_int32, m_pointer]"

definition gdt_cct_LogResponse :: "member list" where
  "gdt_cct_LogResponse = [m_bool, m_int64, m_bool, struct_member gdt_cct_QosTiersOverride]"

section \<open>The descriptors\<close>

text \<open>The addresses of the tables and of the default values are the linker's; these are some.\<close>

definition cct_addr :: "nat \<Rightarrow> addr" where
  "cct_addr i = 0x100000 + 0x100 * word_of_nat i"

definition gdt_cct_LogEvent_fields :: "pb_field list" where
  "gdt_cct_LogEvent_fields = (let st = gdt_cct_LogEvent in
     [PB_OPTIONAL_STATIC 1 PB_LTYPE_VARINT st 1 None 0 0,
      PB_OPTIONAL_POINTER 6 PB_LTYPE_BYTES st 2 (Some 1) 8 0,
      PB_OPTIONAL_STATIC 11 PB_LTYPE_VARINT st 4 (Some 2) 3 0,
      PB_OPTIONAL_STATIC 15 PB_LTYPE_SVARINT st 6 (Some 4) 5 0,
      PB_OPTIONAL_STATIC 17 PB_LTYPE_VARINT st 8 (Some 6) 7 0,
      PB_OPTIONAL_STATIC 23 PB_LTYPE_SUBMESSAGE st 10 (Some 8) 9 (cct_addr 1)])"

definition gdt_cct_NetworkConnectionInfo_fields :: "pb_field list" where
  "gdt_cct_NetworkConnectionInfo_fields = (let st = gdt_cct_NetworkConnectionInfo in
     [PB_OPTIONAL_STATIC 1 PB_LTYPE_VARINT st 1 None 0 (cct_addr 10),
      PB_OPTIONAL_STATIC 2 PB_LTYPE_UVARINT st 3 (Some 1) 2 (cct_addr 11)])"

definition gdt_cct_IosClientInfo_fields :: "pb_field list" where
  "gdt_cct_IosClientInfo_fields = (let st = gdt_cct_IosClientInfo in
     [PB_OPTIONAL_POINTER 3 PB_LTYPE_BYTES st 0 None 8 0,
      PB_OPTIONAL_POINTER 4 PB_LTYPE_BYTES st 1 (Some 0) 8 0,
      PB_OPTIONAL_POINTER 5 PB_LTYPE_BYTES st 2 (Some 1) 8 0,
      PB_OPTIONAL_POINTER 6 PB_LTYPE_BYTES st 3 (Some 2) 8 0,
      PB_OPTIONAL_POINTER 7 PB_LTYPE_BYTES st 4 (Some 3) 8 0,
      PB_OPTIONAL_POINTER 8 PB_LTYPE_BYTES st 5 (Some 4) 8 0,
      PB_OPTIONAL_POINTER 11 PB_LTYPE_BYTES st 6 (Some 5) 8 0])"

definition gdt_cct_ClientInfo_fields :: "pb_field list" where
  "gdt_cct_ClientInfo_fields = (let st = gdt_cct_ClientInfo in
     [PB_OPTIONAL_STATIC 1 PB_LTYPE_UVARINT st 1 None 0 0,
      PB_OPTIONAL_STATIC 4 PB_LTYPE_SUBMESSAGE st 3 (Some 1) 2 (cct_addr 2)])"

definition gdt_cct_BatchedLogRequest_fields :: "pb_field list" where
  "gdt_cct_BatchedLogRequest_fields = (let st = gdt_cct_BatchedLogRequest in
     [PB_REPEATED_POINTER 1 PB_LTYPE_SUBMESSAGE st 1 None 0 (fst (struct_member gdt_cct_LogRequest)) (cct_addr 5)])"

definition gdt_cct_LogRequest_fields :: "pb_field list" where
  "gdt_cct_LogRequest_fields = (let st = gdt_cct_LogRequest in
     [PB_OPTIONAL_STATIC 1 PB_LTYPE_SUBMESSAGE st 1 None 0 (cct_addr 3),
      PB_OPTIONAL_STATIC 2 PB_LTYPE_VARINT st 3 (Some 1) 2 0,
      PB_REPEATED_POINTER 3 PB_LTYPE_SUBMESSAGE st 5 (Some 3) 4 (fst (struct_member gdt_cct_LogEvent)) (cct_addr 0),
      PB_OPTIONAL_STATIC 4 PB_LTYPE_VARINT st 7 (Some 5) 6 0,
      PB_OPTIONAL_STATIC 8 PB_LTYPE_VARINT st 9 (Some 7) 8 0,
      PB_OPTIONAL_STATIC 9 PB_LTYPE_UVARINT st 11 (Some 9) 10 (cct_addr 12)])"

definition gdt_cct_QosTierConfiguration_fields :: "pb_field list" where
  "gdt_cct_QosTierConfiguration_fields = (let st = gdt_cct_QosTierConfiguration in
     [PB_OPTIONAL_STATIC 2 PB_LTYPE_UVARINT st 1 None 0 0,
      PB_OPTIONAL_STATIC 3 PB_LTYPE_VARINT st 3 (Some 1) 2 (cct_addr 13)])"

definition gdt_cct_QosTiersOverride_fields :: "pb_field list" where
  "gdt_cct_QosTiersOverride_fields = (let st = gdt_cct_QosTiersOverride in
     [PB_REPEATED_POINTER 1 PB_LTYPE_SUBMESSAGE st 1 None 0 (fst (struct_member gdt_cct_QosTierConfiguration)) (cct_addr 6),
      PB_OPTIONAL_STATIC 2 PB_LTYPE_VARINT st 3 (Some 1) 2 0])"

definition gdt_cct_LogResponse_fields :: "pb_field list" where
  "gdt_cct_LogResponse_fields = (let st = gdt_cct_LogResponse in
     [PB_OPTIONAL_STATIC 1 PB_LTYPE_VARINT st 1 None 0 0,
      PB_OPTIONAL_STATIC 3 PB_LTYPE_SUBMESSAGE st 3 (Some 1) 2 (cct_addr 7)])"

definition cct_fields :: "addr \<Rightarrow> pb_field list" where
  "cct_fields p =
     (if p = cct_addr 0 then gdt_cct_LogEvent_fields
      else if p = cct_addr 1 then gdt_cct_NetworkConnectionInfo_fields
      else if p = cct_addr 2 then gdt_cct_IosClientInfo_fields
      else if p = cct_addr 3 then gdt_cct_ClientInfo_fields
      else if p = cct_addr 4 then gdt_cct_BatchedLogRequest_fields
      else if p = cct_addr 5 then gdt_cct_LogRequest_fields
      else if p = cct_addr 6 then gdt_cct_QosTierConfiguration_fields
      else if p = cct_addr 7 then gdt_cct_QosTiersOverride_fields
      else if p = cct_addr 8 then gdt_cct_LogResponse_fields
      else [])"

section \<open>The iterator visits the members\<close>

function visited :: "pb_field_iter \<Rightarrow> (u32 \<times> addr \<times> addr) list" where
  "visited iter = (pf_tag (it_field iter), it_pData iter, it_pSize iter) #
     (case pb_field_iter_next iter of (True, iter') \<Rightarrow> visited iter' | (False, _) \<Rightarrow> [])"
  by pat_completeness auto
termination
  by (relation "measure (\<lambda>iter. length (it_start iter) - it_pos iter)") (auto dest: iter_next_less)

declare visited.simps [simp del]

definition visits :: "pb_field list \<Rightarrow> addr \<Rightarrow> (u32 \<times> addr \<times> addr) list" where
  "visits fds src = (case pb_field_iter_begin fds src of (True, iter) \<Rightarrow> visited iter | (False, _) \<Rightarrow> [])"

definition member_addrs :: "member list \<Rightarrow> addr \<Rightarrow> (u32 \<times> nat \<times> nat) list \<Rightarrow> (u32 \<times> addr \<times> addr) list" where
  "member_addrs st src ms =
     map (\<lambda>(t, m, s). (t, src + word_of_nat (offsetof st m), src + word_of_nat (offsetof st s))) ms"

text \<open>The members of each struct, and its size and alignment.\<close>

named_theorems struct_sizes

lemma NetworkConnectionInfo_members: "gdt_cct_NetworkConnectionInfo = [(1, 1), (4, 4), (1, 1), (4, 4)]"
  by (simp add: gdt_cct_NetworkConnectionInfo_def struct_sizes)

lemma NetworkConnectionInfo_size [struct_sizes]: "struct_member gdt_cct_NetworkConnectionInfo = (16, 4)"
  by (simp add: NetworkConnectionInfo_members struct_member_def align_up_def)

lemma IosClientInfo_members: "gdt_cct_IosClientInfo = [(8, 8), (8, 8), (8, 8), (8, 8), (8, 8), (8, 8), (8, 8)]"
  by (simp add: gdt_cct_IosClientInfo_def struct_sizes)

lemma IosClientInfo_size [struct_sizes]: "struct_member gdt_cct_IosClientInfo = (56, 8)"
  by (simp add: IosClientInfo_members struct_member_def align_up_def)

lemma ClientInfo_members: "gdt_cct_ClientInfo = [(1, 1), (4, 4), (1, 1), (56, 8)]"
  by (simp add: gdt_cct_ClientInfo_def struct_sizes)

lemma ClientInfo_size [struct_sizes]: "struct_member gdt_cct_ClientInfo = (72, 8)"
  by (simp add: ClientInfo_members struct_member_def align_up_def)

lemma QosTierConfiguration_members: "gdt_cct_QosTierConfiguration = [(1, 1), (4, 4), (1, 1), (4, 4)]"
  by (simp add: gdt_cct_QosTierConfiguration_def struct_sizes)

lemma QosTierConfiguration_size [struct_sizes]: "struct_member gdt_cct_QosTierConfiguration = (16, 4)"
  by (simp add: QosTierConfiguration_members struct_member_def align_up_def)

lemma QosTiersOverride_members: "gdt_cct_QosTiersOverride = [(4, 4), (8, 8), (1, 1), (8, 8)]"
  by (simp add: gdt_cct_QosTiersOverride_def struct_sizes)

lemma QosTiersOverride_size [struct_sizes]: "struct_member gdt_cct_QosTiersOverride = (32, 8)"
  by (simp add: QosTiersOverride_members struct_member_def align_up_def)

lemma LogEvent_members: "gdt_cct_LogEvent = [(1, 1), (8, 8), (8, 8), (1, 1), (4, 4), (1, 1), (8, 8), (1, 1), (8, 8), (1, 1), (16, 4)]"
  by (simp add: gdt_cct_LogEvent_def struct_sizes)

lemma LogEvent_size [struct_sizes]: "struct_member gdt_cct_LogEvent = (88, 8)"
  by (simp add: LogEvent_members struct_member_def align_up_def)

lemma LogRequest_members: "gdt_cct_LogRequest = [(1, 1), (72, 8), (1, 1), (4, 4), (4, 4), (8, 8), (1, 1), (8, 8), (1, 1), (8, 8), (1, 1), (4, 4)]"
  by (simp add: gdt_cct_LogRequest_def struct_sizes)

lemma LogRequest_size [struct_sizes]: "struct_member gdt_cct_LogRequest = (144, 8)"
  by (simp add: LogRequest_members struct_member_def align_up_def)

lemma BatchedLogRequest_members: "gdt_cct_BatchedLogRequest = [(4, 4), (8, 8)]"
  by (simp add: gdt_cct_BatchedLogRequest_def struct_sizes)

lemma BatchedLogRequest_size [struct_sizes]: "struct_member gdt_cct_BatchedLogRequest = (16, 8)"
  by (simp add: BatchedLogRequest_members struct_member_def align_up_def)

lemma LogResponse_members: "gdt_cct_LogResponse = [(1, 1), (8, 8), (1, 1), (32, 8)]"
  by (simp add: gdt_cct_LogResponse_def struct_sizes)

lemma LogResponse_size [struct_sizes]: "struct_member gdt_cct_LogResponse = (56, 8)"
  by (simp add: LogResponse_members struct_member_def align_up_def)

lemmas layout_defs = offsetof_def align_up_def

lemmas macro_defs = PB_OPTIONAL_STATIC_def PB_OPTIONAL_POINTER_def PB_REPEATED_POINTER_def PB_DATAOFFSET_def pb_delta_def

lemmas type_defs = PB_ATYPE_def PB_HTYPE_def PB_LTYPE_def

lemmas iter_defs = pb_field_iter_begin_def pb_field_iter_next_def it_field_def field_at_def size_addr_def PB_LAST_FIELD_def

text \<open>An entry of a table: tag, type, the three offsets and sizes, and the pointer.\<close>

definition pb_entry :: "u32 \<Rightarrow> byte \<Rightarrow> u32 \<Rightarrow> u32 \<Rightarrow> u32 \<Rightarrow> addr \<Rightarrow> pb_field" where
  "pb_entry t ty d s z p =
     \<lparr>pf_tag = t, pb_type = ty, data_offset = d, size_offset = s, data_size = z, array_size = 0, pf_ptr = p\<rparr>"

lemmas visit_defs = visits_def iter_defs visited.simps type_defs member_addrs_def layout_defs pb_entry_def

text \<open>The tables with the offsets that the compiler computes, and the members each of them visits.\<close>

lemma LogEvent_fields:
  "gdt_cct_LogEvent_fields =
     [pb_entry 1 0x11 8 (- 8) 8 0,
      pb_entry 6 0x96 0 0 8 0,
      pb_entry 11 0x11 4 (- 4) 4 0,
      pb_entry 15 0x13 8 (- 8) 8 0,
      pb_entry 17 0x11 8 (- 8) 8 0,
      pb_entry 23 0x18 4 (- 4) 16 (cct_addr 1)]"
  by (simp add: gdt_cct_LogEvent_fields_def Let_def LogEvent_members struct_sizes macro_defs layout_defs pb_entry_def)

lemma visits_LogEvent:
  "visits gdt_cct_LogEvent_fields src = member_addrs gdt_cct_LogEvent src
     [(1, 1, 0), (6, 2, 2), (11, 4, 3), (15, 6, 5), (17, 8, 7), (23, 10, 9)]"
  by (simp add: LogEvent_fields LogEvent_members visit_defs Let_def)

lemma NetworkConnectionInfo_fields:
  "gdt_cct_NetworkConnectionInfo_fields =
     [pb_entry 1 0x11 4 (- 4) 4 (cct_addr 10),
      pb_entry 2 0x12 4 (- 4) 4 (cct_addr 11)]"
  by (simp add: gdt_cct_NetworkConnectionInfo_fields_def Let_def NetworkConnectionInfo_members struct_sizes macro_defs layout_defs pb_entry_def)

lemma visits_NetworkConnectionInfo:
  "visits gdt_cct_NetworkConnectionInfo_fields src = member_addrs gdt_cct_NetworkConnectionInfo src
     [(1, 1, 0), (2, 3, 2)]"
  by (simp add: NetworkConnectionInfo_fields NetworkConnectionInfo_members visit_defs Let_def)

lemma IosClientInfo_fields:
  "gdt_cct_IosClientInfo_fields =
     [pb_entry 3 0x96 0 0 8 0,
      pb_entry 4 0x96 0 0 8 0,
      pb_entry 5 0x96 0 0 8 0,
      pb_entry 6 0x96 0 0 8 0,
      pb_entry 7 0x96 0 0 8 0,
      pb_entry 8 0x96 0 0 8 0,
      pb_entry 11 0x96 0 0 8 0]"
  by (simp add: gdt_cct_IosClientInfo_fields_def Let_def IosClientInfo_members struct_sizes macro_defs layout_defs pb_entry_def)

lemma visits_IosClientInfo:
  "visits gdt_cct_IosClientInfo_fields src = member_addrs gdt_cct_IosClientInfo src
     [(3, 0, 0), (4, 1, 1), (5, 2, 2), (6, 3, 3), (7, 4, 4), (8, 5, 5), (11, 6, 6)]"
  by (simp add: IosClientInfo_fields IosClientInfo_members visit_defs Let_def)

lemma ClientInfo_fields:
  "gdt_cct_ClientInfo_fields =
     [pb_entry 1 0x12 4 (- 4) 4 0,
      pb_entry 4 0x18 8 (- 8) 56 (cct_addr 2)]"
  by (simp add: gdt_cct_ClientInfo_fields_def Let_def ClientInfo_members struct_sizes macro_defs layout_defs pb_entry_def)

lemma visits_ClientInfo:
  "visits gdt_cct_ClientInfo_fields src = member_addrs gdt_cct_ClientInfo src
     [(1, 1, 0), (4, 3, 2)]"
  by (simp add: ClientInfo_fields ClientInfo_members visit_defs Let_def)

lemma BatchedLogRequest_fields:
  "gdt_cct_BatchedLogRequest_fields =
     [pb_entry 1 0xA8 8 (- 8) 144 (cct_addr 5)]"
  by (simp add: gdt_cct_BatchedLogRequest_fields_def Let_def BatchedLogRequest_members struct_sizes macro_defs layout_defs pb_entry_def)

lemma visits_BatchedLogRequest:
  "visits gdt_cct_BatchedLogRequest_fields src = member_addrs gdt_cct_BatchedLogRequest src
     [(1, 1, 0)]"
  by (simp add: BatchedLogRequest_fields BatchedLogRequest_members visit_defs Let_def)

lemma LogRequest_fields:
  "gdt_cct_LogRequest_fields =
     [pb_entry 1 0x18 8 (- 8) 72 (cct_addr 3),
      pb_entry 2 0x11 4 (- 4) 4 0,
      pb_entry 3 0xA8 8 (- 8) 88 (cct_addr 0),
      pb_entry 4 0x11 8 (- 8) 8 0,
      pb_entry 8 0x11 8 (- 8) 8 0,
      pb_entry 9 0x12 4 (- 4) 4 (cct_addr 12)]"
  by (simp add: gdt_cct_LogRequest_fields_def Let_def LogRequest_members struct_sizes macro_defs layout_defs pb_entry_def)

lemma visits_LogRequest:
  "visits gdt_cct_LogRequest_fields src = member_addrs gdt_cct_LogRequest src
     [(1, 1, 0), (2, 3, 2), (3, 5, 4), (4, 7, 6), (8, 9, 8), (9, 11, 10)]"
  by (simp add: LogRequest_fields LogRequest_members visit_defs Let_def)

lemma QosTierConfiguration_fields:
  "gdt_cct_QosTierConfiguration_fields =
     [pb_entry 2 0x12 4 (- 4) 4 0,
      pb_entry 3 0x11 4 (- 4) 4 (cct_addr 13)]"
  by (simp add: gdt_cct_QosTierConfiguration_fields_def Let_def QosTierConfiguration_members struct_sizes macro_defs layout_defs pb_entry_def)

lemma visits_QosTierConfiguration:
  "visits gdt_cct_QosTierConfiguration_fields src = member_addrs gdt_cct_QosTierConfiguration src
     [(2, 1, 0), (3, 3, 2)]"
  by (simp add: QosTierConfiguration_fields QosTierConfiguration_members visit_defs Let_def)

lemma QosTiersOverride_fields:
  "gdt_cct_QosTiersOverride_fields =
     [pb_entry 1 0xA8 8 (- 8) 16 (cct_addr 6),
      pb_entry 2 0x11 8 (- 8) 8 0]"
  by (simp add: gdt_cct_QosTiersOverride_fields_def Let_def QosTiersOverride_members struct_sizes macro_defs layout_defs pb_entry_def)

lemma visits_QosTiersOverride:
  "visits gdt_cct_QosTiersOverride_fields src = member_addrs gdt_cct_QosTiersOverride src
     [(1, 1, 0), (2, 3, 2)]"
  by (simp add: QosTiersOverride_fields QosTiersOverride_members visit_defs Let_def)

lemma LogResponse_fields:
  "gdt_cct_LogResponse_fields =
     [pb_entry 1 0x11 8 (- 8) 8 0,
      pb_entry 3 0x18 8 (- 8) 32 (cct_addr 7)]"
  by (simp add: gdt_cct_LogResponse_fields_def Let_def LogResponse_members struct_sizes macro_defs layout_defs pb_entry_def)

lemma visits_LogResponse:
  "visits gdt_cct_LogResponse_fields src = member_addrs gdt_cct_LogResponse src
     [(1, 1, 0), (3, 3, 2)]"
  by (simp add: LogResponse_fields LogResponse_members visit_defs Let_def)

text \<open>C21: the iterator over each of the descriptor arrays visits the members of the struct in their order,
  with \<open>pData\<close> at the member and \<open>pSize\<close> at its \<open>has\<close> flag or its count, and at the member itself
  where it has neither.\<close>

theorem gdt_cct_fields_layout:
  "visits gdt_cct_LogEvent_fields src = member_addrs gdt_cct_LogEvent src
     [(1, 1, 0), (6, 2, 2), (11, 4, 3), (15, 6, 5), (17, 8, 7), (23, 10, 9)] \<and>
   visits gdt_cct_NetworkConnectionInfo_fields src = member_addrs gdt_cct_NetworkConnectionInfo src [(1, 1, 0), (2, 3, 2)] \<and>
   visits gdt_cct_IosClientInfo_fields src = member_addrs gdt_cct_IosClientInfo src
     [(3, 0, 0), (4, 1, 1), (5, 2, 2), (6, 3, 3), (7, 4, 4), (8, 5, 5), (11, 6, 6)] \<and>
   visits gdt_cct_ClientInfo_fields src = member_addrs gdt_cct_ClientInfo src [(1, 1, 0), (4, 3, 2)] \<and>
   visits gdt_cct_BatchedLogRequest_fields src = member_addrs gdt_cct_BatchedLogRequest src [(1, 1, 0)] \<and>
   visits gdt_cct_LogRequest_fields src = member_addrs gdt_cct_LogRequest src
     [(1, 1, 0), (2, 3, 2), (3, 5, 4), (4, 7, 6), (8, 9, 8), (9, 11, 10)] \<and>
   visits gdt_cct_QosTierConfiguration_fields src = member_addrs gdt_cct_QosTierConfiguration src [(2, 1, 0), (3, 3, 2)] \<and>
   visits gdt_cct_QosTiersOverride_fields src = member_addrs gdt_cct_QosTiersOverride src [(1, 1, 0), (2, 3, 2)] \<and>
   visits gdt_cct_LogResponse_fields src = member_addrs gdt_cct_LogResponse src [(1, 1, 0), (3, 3, 2)]"
  by (intro conjI visits_LogEvent visits_NetworkConnectionInfo visits_IosClientInfo visits_ClientInfo
    visits_BatchedLogRequest visits_LogRequest visits_QosTierConfiguration visits_QosTiersOverride visits_LogResponse)

section \<open>Encoding a message\<close>

text \<open>C3: the bytes of a message: when a struct and what it points to have the records \<open>ws\<close>,
  \<open>pb_get_encoded_size\<close> returns the length of their wire format, and \<open>pb_encode\<close> into a buffer writes
  exactly these bytes if they fit, and otherwise fails after a part of them; in both cases the rest of
  the buffer and what is behind it are not touched.\<close>

theorem pb_encode_writes_message:
  fixes env :: "'s pb_env"
  assumes "callbacks_ok out env" and "msg_wire n out mem env fds src = Some ws"
    and "bs = concat (map wire_bytes ws)" and "length bs < 2 ^ 63" and "length buf \<le> 2 ^ 63"
  shows "pb_get_encoded_size n mem env fds src = Some (Some (length bs)) \<and>
    (\<exists>stream k. pb_encode n mem env fds src (pb_ostream_from_buffer buf (length buf)) =
        Some (if length bs \<le> length buf then Some () else None, stream) \<and>
      os_target stream = Buf_write (take k bs @ drop k buf) k \<and> k \<le> length buf \<and>
      (length bs \<le> length buf \<longrightarrow> k = length bs))"
proof
  have w: "writes (pb_encode n mem env fds src) bs"
    using writes_message [OF assms(1,2)] assms(3,4) by simp
  have "length bs < size_mod" by (rule less_trans [OF assms(4)]) simp
  then show "pb_get_encoded_size n mem env fds src = Some (Some (length bs))"
    using writesD(1) [OF w sizing_ok_SIZING] written_SIZING [of bs] by (simp add: pb_get_encoded_size_def)
  let ?s = "pb_ostream_from_buffer buf (length buf) :: 's pb_ostream"
  have ok: "ostream_ok ?s" using assms(5) by (simp add: ostream_ok_def pb_ostream_from_buffer_def)
  have room: "has_room xs ?s \<longleftrightarrow> length xs \<le> length buf" for xs
    by (simp add: has_room_def pb_ostream_from_buffer_def)
  have target: "os_target (stored xs ?s) = Buf_write (xs @ drop (length xs) buf) (length xs)" for xs
    by (simp add: stored_def pb_ostream_from_buffer_def buf_write_def)
  show "\<exists>stream k. pb_encode n mem env fds src ?s = Some (if length bs \<le> length buf then Some () else None, stream) \<and>
      os_target stream = Buf_write (take k bs @ drop k buf) k \<and> k \<le> length buf \<and>
      (length bs \<le> length buf \<longrightarrow> k = length bs)"
  proof (cases "length bs \<le> length buf")
    case True
    then have "has_room bs ?s" using room [of bs] by blast
    from writesD(2) [OF w ok this] True show ?thesis
      by (intro exI [of _ "stored bs ?s"] exI [of _ "length bs"]) (simp add: target)
  next
    case False
    then obtain stream' where f: "pb_encode n mem env fds src ?s = Some (None, stream')" and "spoiled bs ?s stream'"
      using writesD(3) [OF w ok] room by blast
    then obtain k msg where k: "has_room (take k bs) ?s" "stream' = stored (take k bs) ?s\<lparr>os_errmsg := msg\<rparr>"
      unfolding spoiled_def by blast
    let ?j = "length (take k bs)"
    have "?j \<le> length buf" and "take ?j bs = take k bs" using k(1) room by (simp_all add: min_def)
    then have "os_target stream' = Buf_write (take ?j bs @ drop ?j buf) ?j"
      unfolding k(2) using target [of "take k bs"] by simp
    with f False \<open>?j \<le> length buf\<close> show ?thesis
      by (intro exI [of _ stream'] exI [of _ ?j]) simp
  qed
qed

text \<open>A \<open>LogRequest\<close> with one \<open>LogEvent\<close>, which has an extension of two bytes and information on the network.\<close>

definition demo_mem :: mem where
  "demo_mem a =
     (if a = 0x1000 then 1 else if a = 0x1008 then 5 else if a = 0x1010 then 0x80 else
      if a = 0x1020 then 1 else if 0x1028 \<le> a \<and> a < 0x1030 then 0xFF else
      if a = 0x1040 then 1 else if a = 0x1044 then 1 else if 0x1048 \<le> a \<and> a < 0x104C then 0xFF else
      if a = 0x80 then 2 else if a = 0x84 then 0xAA else if a = 0x85 then 0xBB else
      if a = 0x2050 then 1 else if a = 0x2054 then 7 else if a = 0x2058 then 1 else if a = 0x2061 then 0x10 else 0)"

definition cct_env :: "unit pb_env" where
  "cct_env = \<lparr>env_fields = cct_fields, env_encode = (\<lambda>_ _ _. op_ret ()), env_extension = (\<lambda>_ _. op_ret ())\<rparr>"

definition no_user :: user_out where
  "no_user = \<lparr>callback_out = (\<lambda>_ _ _. None), extension_out = (\<lambda>_ _. None)\<rparr>"

lemmas wire_eval = pb_entry_def iter_defs type_defs fields_wire.simps field_wire_def basic_wire_def value_wire_def
  safe_read_bool_def signed_at_def unsigned_at_def

text \<open>Its records and their bytes, by evaluation.\<close>

lemma mem_u32_eval: "mem_u32 mem a =
   word_of_nat (unat (mem a) + 256 * (unat (mem (a + 1)) + 256 * (unat (mem (a + 2)) + 256 * unat (mem (a + 3)))))"
  by (simp add: mem_u32_def mem_bytes_def upt_rec del: of_nat_add)

lemma mem_u64_eval: "mem_u64 mem a =
   word_of_nat (unat (mem a) + 256 * (unat (mem (a + 1)) + 256 * (unat (mem (a + 2)) + 256 * (unat (mem (a + 3)) +
     256 * (unat (mem (a + 4)) + 256 * (unat (mem (a + 5)) + 256 * (unat (mem (a + 6)) + 256 * unat (mem (a + 7)))))))))"
  by (simp add: mem_u64_def mem_bytes_def upt_rec del: of_nat_add)

lemma not_count_le_1: "\<not> PB_LTYPES_COUNT \<le> (1 :: byte)"
  by (simp add: word_le_nat_alt)

lemmas mem_eval = mem_u32_eval mem_u64_eval not_count_le_1 demo_mem_def

lemma cct_env_fields: "env_fields cct_env = cct_fields"
  by (simp add: cct_env_def)

lemma cct_fields_at:
  "cct_fields (cct_addr 0) = gdt_cct_LogEvent_fields" "cct_fields (cct_addr (Suc 0)) = gdt_cct_NetworkConnectionInfo_fields"
  "cct_addr 0 \<noteq> 0" "cct_addr (Suc 0) \<noteq> 0"
  by (simp_all add: cct_fields_def cct_addr_def)

lemma NCI_wire:
  "msg_wire (Suc 0) no_user demo_mem cct_env gdt_cct_NetworkConnectionInfo_fields 0x1044 = Some [Varint 1 (- 1)]"
  by (simp add: NetworkConnectionInfo_fields wire_eval mem_eval)

lemma demo_payload: "mem_bytes demo_mem 0x84 2 = [0xAA, 0xBB]"
  by (simp add: mem_bytes_def upt_rec demo_mem_def)

lemma LogEvent_wire:
  "msg_wire (Suc (Suc 0)) no_user demo_mem cct_env gdt_cct_LogEvent_fields 0x1000 =
     Some [Varint 1 5, Bytes 6 [0xAA, 0xBB], Varint 15 1, Message 23 [Varint 1 (- 1)]]"
  by (simp add: msg_wire.simps(2) [of "Suc 0"] Let_def LogEvent_fields wire_eval mem_eval check_default_def demo_payload NCI_wire
      cct_env_fields cct_fields_at zigzag_def del: msg_wire.simps)

lemma LogRequest_wire:
  "msg_wire (Suc (Suc (Suc 0))) no_user demo_mem cct_env gdt_cct_LogRequest_fields 0x2000 =
     Some [Varint 2 7, Message 3 [Varint 1 5, Bytes 6 [0xAA, 0xBB], Varint 15 1, Message 23 [Varint 1 (- 1)]]]"
  by (simp add: msg_wire.simps(2) [of "Suc (Suc 0)"] Let_def LogRequest_fields wire_eval mem_eval array_wire_def LogEvent_wire
      cct_env_fields cct_fields_at del: msg_wire.simps)

lemma varint_186: "varint 186 = [0xBA, 1]"
  by (simp add: varint.simps)

lemma varint_minus_one: "varint (unat (- 1 :: u64)) = 
     [0xFF, 0xFF, 0xFF, 0xFF, 0xFF, 0xFF, 0xFF, 0xFF, 0xFF, 1]"
proof -
  have "unat (- 1 :: u64) = 0xFFFFFFFFFFFFFFFF"
    by (simp add: unsigned_minus_1_eq_mask mask_eq_exp_minus_1)
  then show ?thesis by (simp only:) (simp add: varint.simps)
qed

definition demo_bytes :: "byte list" where
  "demo_bytes = [0x10, 7, 0x1A, 22, 8, 5, 0x32, 2, 0xAA, 0xBB, 0x78, 1, 0xBA, 1, 11, 8,
     0xFF, 0xFF, 0xFF, 0xFF, 0xFF, 0xFF, 0xFF, 0xFF, 0xFF, 1]"

lemma length_demo_bytes: "length demo_bytes = 26"
  by (simp add: demo_bytes_def)

lemma LogRequest_bytes:
  "concat (map wire_bytes [Varint 2 7, Message 3 [Varint 1 5, Bytes 6 [0xAA, 0xBB], Varint 15 1, Message 23 [Varint 1 (- 1)]]]) = demo_bytes"
  by (simp add: demo_bytes_def wire_key_def varint_minus_one varint_186 varint_small)

lemma pb_encode_writes_message_witness:
  "pb_get_encoded_size (Suc (Suc (Suc 0))) demo_mem cct_env gdt_cct_LogRequest_fields 0x2000 = Some (Some 26) \<and>
    (\<exists>stream. pb_encode (Suc (Suc (Suc 0))) demo_mem cct_env gdt_cct_LogRequest_fields 0x2000
          (pb_ostream_from_buffer (replicate 30 0) 30) = Some (Some (), stream) \<and>
      os_target stream = Buf_write (demo_bytes @ replicate 4 0) 26)"
proof -
  let ?buf = "replicate 30 0 :: byte list"
  have "callbacks_ok no_user cct_env" by (simp add: callbacks_ok_def no_user_def)
  from pb_encode_writes_message [OF this LogRequest_wire LogRequest_bytes [symmetric], of ?buf]
  obtain stream k where
    "pb_get_encoded_size (Suc (Suc (Suc 0))) demo_mem cct_env gdt_cct_LogRequest_fields 0x2000 = Some (Some 26)"
    "pb_encode (Suc (Suc (Suc 0))) demo_mem cct_env gdt_cct_LogRequest_fields 0x2000 (pb_ostream_from_buffer ?buf 30) =
       Some (Some (), stream)"
    "os_target stream = Buf_write (take k demo_bytes @ drop k ?buf) k" "k = 26"
    unfolding length_demo_bytes by auto
  moreover have "take 26 demo_bytes @ drop 26 ?buf = demo_bytes @ replicate 4 0"
    by (simp add: length_demo_bytes)
  ultimately show ?thesis by auto
qed

end
