(* ===== verification/PbTotal.thy ===== *)
theory PbTotal
  imports PbCct
begin

text \<open>
  The bound on the nesting of messages: a run of the encoder that ends within a bound has the same
  outcome within every larger bound, and it does end when the descriptor tables have no cycle of
  submessages and no entry that C leaves undefined.
\<close>

section \<open>Larger bounds\<close>

definition enc_le :: "'s enc \<Rightarrow> 's enc \<Rightarrow> bool" where
  "enc_le f g \<longleftrightarrow> (\<forall>s r. f s = Some r \<longrightarrow> g s = Some r)"

lemma enc_leD: "enc_le f g \<Longrightarrow> f s = Some r \<Longrightarrow> g s = Some r"
  unfolding enc_le_def by blast

lemma enc_le_refl [simp]: "enc_le f f"
  and enc_le_none [simp, intro]: "enc_le (\<lambda>_. None) f"
  by (simp_all add: enc_le_def)

lemma enc_le_if: "(b \<Longrightarrow> enc_le f f') \<Longrightarrow> (\<not> b \<Longrightarrow> enc_le g g') \<Longrightarrow> enc_le (if b then f else g) (if b then f' else g')"
  by simp

lemma enc_le_then: "enc_le f f' \<Longrightarrow> enc_le g g' \<Longrightarrow> enc_le (enc_then f g) (enc_then f' g')"
  by (auto simp: enc_le_def enc_then_def split: option.splits prod.splits)

lemma enc_le_items: "(\<And>p. enc_le (f p) (g p)) \<Longrightarrow> enc_le (enc_items f p step n) (enc_items g p step n)"
  by (induction n arbitrary: p) (auto intro: enc_le_then)

lemma enc_le_submessage: "enc_le f g \<Longrightarrow> enc_le (pb_encode_submessage f) (pb_encode_submessage g)"
  by (auto simp: enc_le_def pb_encode_submessage_def Let_def split: option.splits prod.splits if_splits)

definition sub_le ::
  "('s pb_env \<Rightarrow> pb_field list \<Rightarrow> addr \<Rightarrow> 's enc) \<Rightarrow> ('s pb_env \<Rightarrow> pb_field list \<Rightarrow> addr \<Rightarrow> 's enc) \<Rightarrow> bool" where
  "sub_le sub sub' \<longleftrightarrow> (\<forall>env fds src. enc_le (sub env fds src) (sub' env fds src))"

lemma enc_le_ENCODERS: "sub_le sub sub' \<Longrightarrow> enc_le (PB_ENCODERS sub env mem ltype field src) (PB_ENCODERS sub' env mem ltype field src)"
  by (simp add: PB_ENCODERS_def pb_enc_submessage_def enc_le_submessage sub_le_def)

lemma packed_size_le:
  assumes "\<And>p. enc_le (f p) (g p)" and "packed_size f field pData count = Some r"
  shows "packed_size g field pData count = Some r"
  using assms(2) enc_leD [OF enc_le_items [OF assms(1)]]
  by (auto simp: packed_size_def split: if_splits option.splits prod.splits)

lemma enc_le_array:
  assumes "\<And>field p. enc_le (f field p) (g field p)"
  shows "enc_le (encode_array f mem field pData count) (encode_array g mem field pData count)"
proof (cases "packed_size (f field) field pData count")
  case None
  then show ?thesis
    unfolding encode_array_def by (intro enc_le_if enc_le_refl enc_le_then enc_le_items) (auto simp: assms intro!: enc_le_then)
next
  case (Some len)
  moreover from packed_size_le [OF assms this] have "packed_size (g field) field pData count = Some len" .
  moreover have "enc_le (\<lambda>stream. if is_sizing stream then Some (pb_write [] l stream) else enc_items (f field) p step n stream)
      (\<lambda>stream. if is_sizing stream then Some (pb_write [] l stream) else enc_items (g field) p step n stream)" for l p step n
    using enc_leD [OF enc_le_items [OF assms]] by (auto simp: enc_le_def)
  ultimately show ?thesis
    unfolding encode_array_def
    by (intro enc_le_if enc_le_refl enc_le_then enc_le_items) (auto simp: assms intro!: enc_le_then split: option.split)
qed

definition check_le :: "(pb_field \<Rightarrow> addr \<Rightarrow> bool option) \<Rightarrow> (pb_field \<Rightarrow> addr \<Rightarrow> bool option) \<Rightarrow> bool" where
  "check_le check check' \<longleftrightarrow> (\<forall>field p b. check field p = Some b \<longrightarrow> check' field p = Some b)"

lemma all_default_le:
  assumes "check_le check check'"
  shows "all_default check iter = Some b \<Longrightarrow> all_default check' iter = Some b"
proof (induction "length (it_start iter) - it_pos iter" arbitrary: iter rule: less_induct)
  case less
  obtain zero where z: "check (it_field iter) (it_pData iter) = Some zero"
    using less.prems by (auto simp: all_default.simps [of check iter] split: option.splits)
  with assms have z': "check' (it_field iter) (it_pData iter) = Some zero" by (simp add: check_le_def)
  obtain more iter' where n: "pb_field_iter_next iter = (more, iter')" by fastforce
  show ?case
    using less.prems less.hyps [of iter'] iter_next_less [OF n [symmetric]]
    by (auto simp: all_default.simps [of check iter] all_default.simps [of check' iter] z z' n split: bool.splits)
qed

lemma check_default_le:
  "check_le check check' \<Longrightarrow> check_le (check_default check env mem) (check_default check' env mem)"
  by (auto simp: check_le_def check_default_def Let_def intro: all_default_le [unfolded check_le_def] split: if_splits prod.splits bool.splits)

lemma check_fuel: "n \<le> m \<Longrightarrow> check_le (pb_check_proto3_default_value n env mem) (pb_check_proto3_default_value m env mem)"
proof (induction n arbitrary: m)
  case 0
  then show ?case by (simp add: check_le_def)
next
  case (Suc n)
  then obtain m' where "m = Suc m'" "n \<le> m'" by (auto simp: Suc_le_D dest: Suc_le_D)
  with check_default_le [OF Suc.IH] show ?case by (simp add: check_le_def)
qed

lemma enc_le_basic_field:
  assumes sub: "sub_le sub sub'" and check: "check_le check check'"
  shows "enc_le (encode_basic_field sub check env mem field pData) (encode_basic_field sub' check' env mem field pData)"
proof -
  note enc = enc_le_ENCODERS [OF sub] and array = enc_le_array [OF enc_le_ENCODERS [OF sub]]
  note parts = enc_le_refl enc_le_then enc array
  show ?thesis
  proof (cases "check field pData")
    case None
    then show ?thesis unfolding encode_basic_field_def Let_def by (auto intro: enc_le_if parts split: size_ptr.split)
  next
    case (Some zero)
    with check have "check' field pData = Some zero" by (simp add: check_le_def)
    with Some show ?thesis unfolding encode_basic_field_def Let_def by (auto intro: enc_le_if parts split: size_ptr.split)
  qed
qed

lemma enc_le_field:
  "sub_le sub sub' \<Longrightarrow> check_le check check' \<Longrightarrow>
    enc_le (encode_field sub check env mem field pData) (encode_field sub' check' env mem field pData)"
  by (simp add: encode_field_def Let_def enc_le_basic_field)

lemma enc_le_extensions:
  assumes "\<And>field p. enc_le (e field p) (e' field p)"
  shows "n \<le> m \<Longrightarrow> enc_le (encode_extensions n e env mem ext) (encode_extensions m e' env mem ext)"
proof (induction n arbitrary: m ext)
  case 0
  then show ?case by (cases m) auto
next
  case (Suc n)
  then obtain m' where "m = Suc m'" "n \<le> m'" by (auto dest: Suc_le_D)
  with Suc.IH assms show ?case by (auto simp: default_extension_encoder_def Let_def intro!: enc_le_then)
qed

lemma enc_le_fields:
  assumes "\<And>field p. enc_le (e field p) (e' field p)"
  shows "enc_le (encode_fields e iter) (encode_fields e' iter)"
proof (induction "length (it_start iter) - it_pos iter" arbitrary: iter rule: less_induct)
  case less
  obtain more iter' where n: "pb_field_iter_next iter = (more, iter')" by fastforce
  show ?case
    unfolding encode_fields.simps [of e iter] encode_fields.simps [of e' iter] n
    using less.hyps [of iter'] iter_next_less [OF n [symmetric]] assms by (auto intro!: enc_le_then split: bool.split)
qed

lemma encode_fuel:
  fixes env :: "'s pb_env"
  shows "n \<le> m \<Longrightarrow> enc_le (pb_encode n mem env fds src) (pb_encode m mem env fds src)"
proof (induction n arbitrary: m env fds src)
  case 0
  then show ?case by auto
next
  case (Suc n)
  then obtain m' where m: "m = Suc m'" "n \<le> m'" by (auto dest: Suc_le_D)
  with Suc.IH have "sub_le (pb_encode n mem :: 's pb_env \<Rightarrow> _) (pb_encode m' mem)" by (simp add: sub_le_def)
  note field = enc_le_field [OF this check_fuel [OF m(2)]]
  show ?case
    unfolding m(1) pb_encode.simps Let_def encode_extension_field_def
    by (auto split: prod.split bool.split intro!: enc_le_fields) (auto intro!: enc_le_extensions field m(2))
qed

section \<open>Bounds that suffice\<close>

text \<open>No entry of a table is an extension or has a type behind the end of \<open>PB_ENCODERS\<close>, each \<open>oneof\<close> has
  its tag, and the tables of the submessages are nested at most \<open>n\<close> deep.\<close>

definition entry_defined :: "pb_field \<Rightarrow> bool" where
  "entry_defined field \<longleftrightarrow>
     PB_LTYPE (pb_type field) < PB_LTYPES_COUNT \<and> PB_LTYPE (pb_type field) \<noteq> PB_LTYPE_EXTENSION \<and>
     (PB_HTYPE (pb_type field) = PB_HTYPE_ONEOF \<longrightarrow> size_offset field \<noteq> 0)"

fun nesting :: "nat \<Rightarrow> (addr \<Rightarrow> pb_field list) \<Rightarrow> pb_field list \<Rightarrow> bool" where
  "nesting 0 tables fds = False"
| "nesting (Suc n) tables fds =
     (\<forall>field \<in> set fds. entry_defined field \<and>
        (PB_LTYPE (pb_type field) = PB_LTYPE_SUBMESSAGE \<longrightarrow> pf_ptr field \<noteq> 0 \<and> nesting n tables (tables (pf_ptr field))))"

lemma itype_cases:
  fixes t :: byte
  assumes "t < PB_LTYPES_COUNT" and "t \<noteq> PB_LTYPE_EXTENSION"
  shows "t \<in> {PB_LTYPE_BOOL, PB_LTYPE_VARINT, PB_LTYPE_UVARINT, PB_LTYPE_SVARINT, PB_LTYPE_FIXED32, PB_LTYPE_FIXED64,
    PB_LTYPE_BYTES, PB_LTYPE_STRING, PB_LTYPE_SUBMESSAGE, PB_LTYPE_FIXED_LENGTH_BYTES}"
proof -
  have "unat t \<in> {..<11}" using assms(1) by (simp add: word_less_nat_alt)
  then have "t \<in> {0, 1, 2, 3, 4, 5, 6, 7, 8, 9, 10}"
    by (auto simp: lessThan_nat_numeral lessThan_Suc word_unat_eq_iff)
  then show ?thesis using assms(2) by auto
qed

definition ends :: "'s enc \<Rightarrow> bool" where
  "ends f \<longleftrightarrow> (\<forall>s. f s \<noteq> None)"

lemma ends_None [simp]: "ends f \<Longrightarrow> f s = None \<longleftrightarrow> False"
  by (simp add: ends_def)

lemma ends_op [simp]: "ends (enc_op f)" by (simp add: ends_def enc_op_def)
lemma ends_done [simp]: "ends enc_done" by (simp add: enc_done_def)
lemma ends_if: "(b \<Longrightarrow> ends f) \<Longrightarrow> (\<not> b \<Longrightarrow> ends g) \<Longrightarrow> ends (if b then f else g)" by simp

lemma ends_then: "ends f \<Longrightarrow> ends g \<Longrightarrow> ends (enc_then f g)"
  unfolding ends_def [of "enc_then f g"] enc_then_def by (auto simp del: not_None_eq split: option.split prod.split)

lemma ends_items: "(\<And>p. ends (f p)) \<Longrightarrow> ends (enc_items f p step n)"
  by (induction n arbitrary: p) (auto intro: ends_then)

lemma ends_submessage: "ends f \<Longrightarrow> ends (pb_encode_submessage f)"
  unfolding ends_def [of "pb_encode_submessage f"] pb_encode_submessage_def
  by (auto simp: Let_def simp del: not_None_eq split: option.split prod.split)

lemma ends_array:
  fixes f :: "pb_field \<Rightarrow> addr \<Rightarrow> 's enc"
  assumes "\<And>p. ends (f field p)"
  shows "ends (encode_array f mem field pData count)"
proof -
  have items: "ends (enc_items (f field) p step n)" for p step n by (rule ends_items) (rule assms)
  then have "packed_size (f field) field pData count \<noteq> None"
    by (auto simp: packed_size_def simp del: not_None_eq split: option.split prod.split)
  moreover have "ends (\<lambda>stream. if is_sizing stream then Some (pb_write [] l stream) else enc_items (f field) p step n stream)"
    for l p step n using items unfolding ends_def by simp
  moreover have "ends (\<lambda>stream :: 's pb_ostream. Some (None, stream))" by (simp add: ends_def)
  ultimately show ?thesis
    unfolding encode_array_def by (auto intro!: ends_then ends_items assms split: option.split)
qed

definition at_entry :: "pb_field list \<Rightarrow> pb_field_iter \<Rightarrow> bool" where
  "at_entry fds iter \<longleftrightarrow> it_start iter = fds \<and> it_pos iter < length fds"

lemma at_entry_field: "at_entry fds iter \<Longrightarrow> it_field iter \<in> set fds"
  by (auto simp: at_entry_def it_field_def field_at_def)

lemma at_entry_begin: "pb_field_iter_begin fds src = (True, iter) \<Longrightarrow> at_entry fds iter"
  by (cases fds) (auto simp: at_entry_def pb_field_iter_begin_def field_at_def PB_LAST_FIELD_def Let_def)

lemma at_entry_next: "at_entry fds iter \<Longrightarrow> pb_field_iter_next iter = (True, iter') \<Longrightarrow> at_entry fds iter'"
  using iter_next_True [of iter iter'] by (simp add: at_entry_def)

lemma all_default_defined:
  assumes "\<And>field p. field \<in> set fds \<Longrightarrow> check field p \<noteq> None"
  shows "at_entry fds iter \<Longrightarrow> all_default check iter \<noteq> None"
proof (induction "length (it_start iter) - it_pos iter" arbitrary: iter rule: less_induct)
  case less
  obtain zero where z: "check (it_field iter) (it_pData iter) = Some zero"
    using assms [OF at_entry_field [OF less.prems]] by blast
  obtain more iter' where n: "pb_field_iter_next iter = (more, iter')" by fastforce
  show ?case
    using less.hyps [of iter'] iter_next_less [OF n [symmetric]] at_entry_next [OF less.prems, of iter'] n z
    by (auto simp: all_default.simps [of check iter] simp del: not_None_eq split: bool.split)
qed

lemma check_defined:
  "nesting n (env_fields env) fds \<Longrightarrow> field \<in> set fds \<Longrightarrow> pb_check_proto3_default_value n env mem field p \<noteq> None"
proof (induction n arbitrary: fds field p)
  case 0
  then show ?case by simp
next
  case (Suc n)
  have "all_default (pb_check_proto3_default_value n env mem) iter \<noteq> None"
    if "PB_LTYPE (pb_type field) = PB_LTYPE_SUBMESSAGE" "pb_field_iter_begin (env_fields env (pf_ptr field)) p = (True, iter)" for iter
    using all_default_defined [OF Suc.IH at_entry_begin [OF that(2)]] Suc.prems that(1) by auto
  moreover have "pf_ptr field \<noteq> 0" if "PB_LTYPE (pb_type field) = PB_LTYPE_SUBMESSAGE" using Suc.prems that by simp
  ultimately show ?case
    by (auto simp: check_default_def Let_def simp del: not_None_eq split: prod.split bool.split)
qed

definition sub_ends :: "('s pb_env \<Rightarrow> pb_field list \<Rightarrow> addr \<Rightarrow> 's enc) \<Rightarrow> 's pb_env \<Rightarrow> pb_field list \<Rightarrow> bool" where
  "sub_ends sub env fds \<longleftrightarrow>
     (\<forall>field \<in> set fds. PB_LTYPE (pb_type field) = PB_LTYPE_SUBMESSAGE \<longrightarrow>
        (\<forall>src. ends (sub env (env_fields env (pf_ptr field)) src)))"

lemma ends_ENCODERS:
  assumes "sub_ends sub env fds" and "field \<in> set fds" and "entry_defined field"
  shows "ends (PB_ENCODERS sub env mem (PB_LTYPE (pb_type field)) field src)"
  using itype_cases [of "PB_LTYPE (pb_type field)"] assms
  by (auto simp: PB_ENCODERS_def pb_enc_submessage_def sub_ends_def entry_defined_def intro: ends_submessage)

lemma htype_cases: "PB_HTYPE t \<in> {PB_HTYPE_REQUIRED, PB_HTYPE_OPTIONAL, PB_HTYPE_REPEATED, PB_HTYPE_ONEOF}"
proof -
  have "t AND 0x30 = (if bit t 4 then 0x10 else 0) OR (if bit t 5 then 0x20 else 0)"
  proof (rule bit_word_eqI)
    fix n assume "n < LENGTH(8)"
    then have "n \<in> {..<8}" by simp
    then show "bit (t AND 0x30) n = bit ((if bit t 4 then 0x10 else 0) OR (if bit t 5 then 0x20 else 0) :: byte) n"
      by (auto simp: lessThan_nat_numeral lessThan_Suc bit_and_iff bit_or_iff)
  qed
  then show ?thesis by (simp add: PB_HTYPE_def)
qed

lemma ends_field:
  assumes sub: "sub_ends sub env fds" and f: "field \<in> set fds" and d: "entry_defined field"
    and check: "check field p \<noteq> None"
  shows "ends (encode_field sub check env mem field p)"
proof -
  note enc = ends_ENCODERS [OF sub f d]
  have "\<not> PB_LTYPES_COUNT \<le> PB_LTYPE (pb_type field)" using d by (metis entry_defined_def leD)
  moreover obtain zero where "check field p = Some zero" using check by blast
  moreover have "size_offset field \<noteq> 0"
    if "PB_HTYPE (pb_type field) \<noteq> PB_HTYPE_REQUIRED" "PB_HTYPE (pb_type field) \<noteq> PB_HTYPE_OPTIONAL"
      "PB_HTYPE (pb_type field) \<noteq> PB_HTYPE_REPEATED"
    using that htype_cases [of "pb_type field"] d unfolding entry_defined_def by blast
  ultimately show ?thesis
    unfolding encode_field_def encode_basic_field_def Let_def
    by (auto intro!: ends_then enc ends_array split: size_ptr.split)
qed

lemma ends_fields:
  assumes "\<And>field p. field \<in> set fds \<Longrightarrow> ends (e field p)"
  shows "at_entry fds iter \<Longrightarrow> ends (encode_fields e iter)"
proof (induction "length (it_start iter) - it_pos iter" arbitrary: iter rule: less_induct)
  case less
  obtain more iter' where n: "pb_field_iter_next iter = (more, iter')" by fastforce
  show ?case
    unfolding encode_fields.simps [of e iter] n
    using less.hyps [of iter'] iter_next_less [OF n [symmetric]] at_entry_next [OF less.prems, of iter'] n
    by (auto intro!: ends_then assms at_entry_field [OF less.prems] split: bool.split)
qed

lemma nesting_ends: "nesting n (env_fields env) fds \<Longrightarrow> ends (pb_encode (Suc n) mem env fds src)"
proof (induction n arbitrary: fds src)
  case 0
  then show ?case by simp
next
  case (Suc n)
  have sub: "sub_ends (pb_encode (Suc n) mem) env fds"
    using Suc by (auto simp: sub_ends_def simp del: pb_encode.simps)
  have "ends (encode_field (pb_encode (Suc n) mem) (pb_check_proto3_default_value (Suc n) env mem) env mem field p)"
    "PB_LTYPE (pb_type field) \<noteq> PB_LTYPE_EXTENSION" if "field \<in> set fds" for field p
    using that Suc.prems by (auto simp: entry_defined_def intro!: ends_field [OF sub that] check_defined [OF Suc.prems that])
  then show ?case
    unfolding pb_encode.simps(2) [of "Suc n"] Let_def
    by (auto split: prod.split bool.split intro!: ends_fields [OF _ at_entry_begin])
qed


lemmas nesting_eval = entry_defined_def type_defs pb_entry_def word_less_nat_alt

lemma nesting_cct:
  "nesting 1 cct_fields gdt_cct_NetworkConnectionInfo_fields" "nesting 1 cct_fields gdt_cct_IosClientInfo_fields"
  by (simp_all add: NetworkConnectionInfo_fields IosClientInfo_fields nesting_eval)

lemma nesting_LogRequest:
  "nesting (Suc (Suc 0)) cct_fields gdt_cct_ClientInfo_fields" "nesting (Suc (Suc 0)) cct_fields gdt_cct_LogEvent_fields"
  "nesting (Suc (Suc (Suc 0))) cct_fields gdt_cct_LogRequest_fields"
proof -
  show c: "nesting (Suc (Suc 0)) cct_fields gdt_cct_ClientInfo_fields"
    and e: "nesting (Suc (Suc 0)) cct_fields gdt_cct_LogEvent_fields"
    using nesting_cct
    by (simp_all del: nesting.simps add: nesting.simps(2) [of "Suc 0"] ClientInfo_fields LogEvent_fields nesting_eval
        cct_fields_def cct_addr_def)
  show "nesting (Suc (Suc (Suc 0))) cct_fields gdt_cct_LogRequest_fields"
    using c e by (simp del: nesting.simps add: nesting.simps(2) [of "Suc (Suc 0)"] LogRequest_fields nesting_eval
        cct_fields_def cct_addr_def)
qed

lemma nesting_BatchedLogRequest: "nesting (Suc (Suc (Suc (Suc 0)))) cct_fields gdt_cct_BatchedLogRequest_fields"
  using nesting_LogRequest(3)
  by (simp del: nesting.simps add: nesting.simps(2) [of "Suc (Suc (Suc 0))"] BatchedLogRequest_fields nesting_eval
      cct_fields_def cct_addr_def)


end
