(* ===== verification/PbDecode.thy ===== *)
theory PbDecode
  imports PbFields
begin

text \<open>
  The message decoder of nanopb, \<open>pb_decode.c\<close>, with dynamic allocation as the app builds it: it reads
  the fields of a message from a stream and stores them in a C struct, and in blocks that it
  allocates for the pointers of the struct. The outcome \<open>None\<close> means that the bound on the nesting of
  messages is exceeded, or that C does not define what happens: a \<open>NULL\<close> descriptor array, an entry
  behind the end of \<open>PB_DECODERS\<close> or its \<open>NULL\<close> entry, \<open>realloc\<close> or \<open>free\<close> of a pointer that is no block.
\<close>

section \<open>Memory and blocks\<close>

text \<open>The live blocks are given by their start and their size in bytes.\<close>

record world =
  w_mem :: mem
  w_blocks :: "(addr \<times> nat) list"

definition mem_put :: "mem \<Rightarrow> addr \<Rightarrow> byte list \<Rightarrow> mem" where
  "mem_put mem a bs = (\<lambda>x. if unat (x - a) < length bs then bs ! unat (x - a) else mem x)"

definition w_put :: "addr \<Rightarrow> byte list \<Rightarrow> world \<Rightarrow> world" where
  "w_put a bs w = w\<lparr>w_mem := mem_put (w_mem w) a bs\<rparr>"

abbreviation w_u32 :: "world \<Rightarrow> addr \<Rightarrow> u32" where "w_u32 w a \<equiv> mem_u32 (w_mem w) a"
abbreviation w_u64 :: "world \<Rightarrow> addr \<Rightarrow> u64" where "w_u64 w a \<equiv> mem_u64 (w_mem w) a"

definition fixed16 :: "u16 \<Rightarrow> byte list" where
  "fixed16 v = [byte_at 0 v, byte_at 8 v]"

text \<open>\<open>realloc\<close> moves a block, with the bytes that fit, to a place that the allocator chooses, if it has one.\<close>

definition pb_realloc :: "((addr \<times> nat) list \<Rightarrow> nat \<Rightarrow> addr option) \<Rightarrow> addr \<Rightarrow> nat \<Rightarrow> world \<Rightarrow> (addr \<times> world) option" where
  "pb_realloc place p n w =
     (case (if p = 0 then Some 0 else map_of (w_blocks w) p) of
        None \<Rightarrow> None
      | Some old \<Rightarrow>
          (case place (w_blocks w) n of
             None \<Rightarrow> Some (0, w)
           | Some q \<Rightarrow>
               Some (q, \<lparr>w_mem = mem_put (w_mem w) q (mem_bytes (w_mem w) p (min old n)),
                  w_blocks = (q, n) # filter (\<lambda>(a, _). a \<noteq> p) (w_blocks w)\<rparr>)))"

definition pb_free :: "addr \<Rightarrow> world \<Rightarrow> world option" where
  "pb_free p w =
     (if p = 0 then Some w
      else
        (case map_of (w_blocks w) p of
           None \<Rightarrow> None
         | Some _ \<Rightarrow> Some (w\<lparr>w_blocks := filter (\<lambda>(a, _). a \<noteq> p) (w_blocks w)\<rparr>)))"

section \<open>Outcomes\<close>

type_synonym 's dstate = "'s pb_istream \<times> world"
type_synonym ('s, 'a) dop = "'s dstate \<Rightarrow> ('a option \<times> 's dstate) option"

definition d_ret :: "'a \<Rightarrow> ('s, 'a) dop" where "d_ret a st = Some (Some a, st)"
definition d_false :: "('s, 'a) dop" where "d_false st = Some (None, st)"
definition d_undef :: "('s, 'a) dop" where "d_undef st = None"

definition d_bind :: "('s, 'a) dop \<Rightarrow> ('a \<Rightarrow> ('s, 'b) dop) \<Rightarrow> ('s, 'b) dop" where
  "d_bind f g st =
     (case f st of
        None \<Rightarrow> None
      | Some (None, st') \<Rightarrow> Some (None, st')
      | Some (Some a, st') \<Rightarrow> g a st')"

definition d_then :: "('s, 'a) dop \<Rightarrow> ('s, 'b) dop \<Rightarrow> ('s, 'b) dop" where
  "d_then f g = d_bind f (\<lambda>_. g)"

text \<open>Operations on the stream, reads of the memory and operations on the memory.\<close>

definition d_stream :: "('s pb_istream, 'a) cop \<Rightarrow> ('s, 'a) dop" where
  "d_stream f = (\<lambda>(s, w). case f s of (r, s') \<Rightarrow> Some (r, s', w))"

definition d_world :: "(world \<Rightarrow> ('s, 'a) dop) \<Rightarrow> ('s, 'a) dop" where
  "d_world f st = f (snd st) st"

definition d_update :: "(world \<Rightarrow> world option) \<Rightarrow> ('s, unit) dop" where
  "d_update f = (\<lambda>(s, w). case f w of None \<Rightarrow> None | Some w' \<Rightarrow> Some (Some (), s, w'))"

abbreviation d_put :: "addr \<Rightarrow> byte list \<Rightarrow> ('s, unit) dop" where
  "d_put a bs \<equiv> d_update (\<lambda>w. Some (w_put a bs w))"

abbreviation d_error :: "string \<Rightarrow> ('s, 'a) dop" where
  "d_error msg \<equiv> d_stream (is_error msg)"

text \<open>\<open>pb_read\<close> into the memory at \<open>dest\<close>; what a callback leaves there when it fails is not modelled.\<close>

definition d_read :: "addr \<Rightarrow> nat \<Rightarrow> ('s, unit) dop" where
  "d_read dest n = d_bind (d_stream (pb_read n)) (d_put dest)"

text \<open>A call on a substream: the status and the substream are results, the stream itself does not change.\<close>

definition d_on :: "'s pb_istream \<Rightarrow> ('s, 'a) dop \<Rightarrow> ('s, 'a option \<times> 's pb_istream) dop" where
  "d_on substream f = (\<lambda>(s, w).
     case f (substream, w) of None \<Rightarrow> None | Some (r, substream', w') \<Rightarrow> Some (Some (r, substream'), s, w'))"

definition d_status :: "'a option \<Rightarrow> ('s, 'a) dop" where
  "d_status r = (case r of None \<Rightarrow> d_false | Some a \<Rightarrow> d_ret a)"

text \<open>What the decoder calls through pointers, the places of new blocks, and the address of the local
  variable \<open>fixed_count_size\<close> of the activation of \<open>pb_decode_noinit\<close> at a bound.\<close>

record 's dec_env =
  dec_fields :: "addr \<Rightarrow> pb_field list"
  dec_callback :: "addr \<Rightarrow> pb_field \<Rightarrow> addr \<Rightarrow> ('s, unit) dop"
  dec_extension :: "addr \<Rightarrow> addr \<Rightarrow> u32 \<Rightarrow> u32 \<Rightarrow> ('s, unit) dop"
  dec_place :: "(addr \<times> nat) list \<Rightarrow> nat \<Rightarrow> addr option"
  dec_local :: "nat \<Rightarrow> addr"

section \<open>Allocation\<close>

text \<open>\<open>check_limit\<close> is the square root of the number of \<open>size_t\<close> values.\<close>

definition allocate_field :: "'s dec_env \<Rightarrow> addr \<Rightarrow> nat \<Rightarrow> nat \<Rightarrow> ('s, unit) dop" where
  "allocate_field env pData sz count =
     (if sz = 0 \<or> count = 0 then d_error ''invalid size''
      else if (sz \<ge> 2 ^ 32 \<or> count \<ge> 2 ^ 32) \<and> (size_mod - 1) div count < sz
      then d_error ''size too large''
      else d_world (\<lambda>w. case pb_realloc (dec_place env) (w_u64 w pData) (size_mul count sz) w of
             None \<Rightarrow> d_undef
           | Some (p, w') \<Rightarrow>
               d_then (d_update (\<lambda>_. Some w'))
                 (if p = 0 then d_error ''realloc failed'' else d_put pData (fixed64 p))))"

section \<open>Field decoders\<close>

definition pb_dec_bool :: "pb_field \<Rightarrow> addr \<Rightarrow> ('s, unit) dop" where
  "pb_dec_bool field dest = d_bind (d_stream pb_decode_varint32) (\<lambda>v. d_put dest [if v \<noteq> 0 then 1 else 0])"

text \<open>The store of an integer with the size of the field: what is stored, and the stored value with 64 bits.\<close>

definition store_signed :: "u32 \<Rightarrow> u64 \<Rightarrow> (byte list \<times> u64) option" where
  "store_signed sz v =
     (if sz = 8 then Some (fixed64 v, v)
      else if sz = 4 then Some (fixed32 (ucast v), scast (ucast v :: u32))
      else if sz = 2 then Some (fixed16 (ucast v), scast (ucast v :: u16))
      else if sz = 1 then Some ([ucast v], scast (ucast v :: byte))
      else None)"

definition store_unsigned :: "u32 \<Rightarrow> u64 \<Rightarrow> (byte list \<times> u64) option" where
  "store_unsigned sz v =
     (if sz = 8 then Some (fixed64 v, v)
      else if sz = 4 then Some (fixed32 (ucast v), ucast (ucast v :: u32))
      else if sz = 2 then Some (fixed16 (ucast v), ucast (ucast v :: u16))
      else if sz = 1 then Some ([ucast v], ucast (ucast v :: byte))
      else None)"

definition dec_store :: "(byte list \<times> u64) option \<Rightarrow> addr \<Rightarrow> u64 \<Rightarrow> ('s, unit) dop" where
  "dec_store sv dest v =
     (case sv of
        None \<Rightarrow> d_error ''invalid data_size''
      | Some (bs, clamped) \<Rightarrow>
          d_then (d_put dest bs) (if clamped \<noteq> v then d_error ''integer too large'' else d_ret ()))"

definition pb_dec_varint :: "pb_field \<Rightarrow> addr \<Rightarrow> ('s, unit) dop" where
  "pb_dec_varint field dest = d_bind (d_stream pb_decode_varint) (\<lambda>v.
     let svalue = (if data_size field = 8 then v else scast (ucast v :: u32))
     in dec_store (store_signed (data_size field) svalue) dest svalue)"

definition pb_dec_uvarint :: "pb_field \<Rightarrow> addr \<Rightarrow> ('s, unit) dop" where
  "pb_dec_uvarint field dest = d_bind (d_stream pb_decode_varint) (\<lambda>v.
     dec_store (store_unsigned (data_size field) v) dest v)"

definition pb_dec_svarint :: "pb_field \<Rightarrow> addr \<Rightarrow> ('s, unit) dop" where
  "pb_dec_svarint field dest = d_bind (d_stream pb_decode_svarint) (\<lambda>v.
     dec_store (store_signed (data_size field) v) dest v)"

definition pb_dec_fixed32 :: "pb_field \<Rightarrow> addr \<Rightarrow> ('s, unit) dop" where
  "pb_dec_fixed32 field dest = d_bind (d_stream pb_decode_fixed32) (\<lambda>v. d_put dest (fixed32 v))"

definition pb_dec_fixed64 :: "pb_field \<Rightarrow> addr \<Rightarrow> ('s, unit) dop" where
  "pb_dec_fixed64 field dest = d_bind (d_stream pb_decode_fixed64) (\<lambda>v. d_put dest (fixed64 v))"

definition pb_dec_bytes :: "'s dec_env \<Rightarrow> pb_field \<Rightarrow> addr \<Rightarrow> ('s, unit) dop" where
  "pb_dec_bytes env field dest = d_bind (d_stream pb_decode_varint32) (\<lambda>len.
     let alloc_size = size_add (unat len) 4;
         store = (\<lambda>bdest. d_then (d_put bdest (fixed32 len)) (d_read (bdest + 4) (unat len)))
     in if len > PB_SIZE_MAX then d_error ''bytes overflow''
        else if unat len > alloc_size then d_error ''size too large''
        else if PB_ATYPE (pb_type field) = PB_ATYPE_POINTER then
          d_then (allocate_field env dest alloc_size 1) (d_world (\<lambda>w. store (w_u64 w dest)))
        else if alloc_size > unat (data_size field) then d_error ''bytes overflow''
        else store dest)"

text \<open>The NUL is stored whether or not the characters can be read. \<open>size + 1\<close> has 32 bits.\<close>

definition pb_dec_string :: "'s dec_env \<Rightarrow> pb_field \<Rightarrow> addr \<Rightarrow> ('s, unit) dop" where
  "pb_dec_string env field dest = d_bind (d_stream pb_decode_varint32) (\<lambda>len.
     let alloc_size = len + 1;
         store = (\<lambda>p st.
           case d_read p (unat len) st of
             None \<Rightarrow> None
           | Some (status, st') \<Rightarrow> d_then (d_put (p + ucast len) [0]) (d_status status) st')
     in if alloc_size < len then d_error ''size too large''
        else if PB_ATYPE (pb_type field) = PB_ATYPE_POINTER then
          d_then (allocate_field env dest (unat alloc_size) 1) (d_world (\<lambda>w. store (w_u64 w dest)))
        else if alloc_size > data_size field then d_error ''string overflow''
        else store dest)"

definition pb_dec_fixed_length_bytes :: "pb_field \<Rightarrow> addr \<Rightarrow> ('s, unit) dop" where
  "pb_dec_fixed_length_bytes field dest = d_bind (d_stream pb_decode_varint32) (\<lambda>len.
     if len > PB_SIZE_MAX then d_error ''bytes overflow''
     else if len = 0 then d_put dest (replicate (unat (data_size field)) 0)
     else if len \<noteq> data_size field then d_error ''incorrect fixed length bytes size''
     else d_read dest (unat (data_size field)))"

section \<open>Walks over the fields of a struct\<close>

text \<open>\<open>do f(iter) while (pb_field_iter_next(iter))\<close>\<close>

function each_field :: "(pb_field_iter \<Rightarrow> world \<Rightarrow> world option) \<Rightarrow> pb_field_iter \<Rightarrow> world \<Rightarrow> world option" where
  "each_field f iter w =
     (case f iter w of
        None \<Rightarrow> None
      | Some w' \<Rightarrow>
          (case pb_field_iter_next iter of
             (True, iter') \<Rightarrow> each_field f iter' w'
           | (False, _) \<Rightarrow> Some w'))"
  by pat_completeness auto
termination
  by (relation "measure (\<lambda>(_, iter, _). length (it_start iter) - it_pos iter)")
    (auto dest: iter_next_less)

declare each_field.simps [simp del]

text \<open>A \<open>pb_extension_t\<close> has the pointers \<open>type\<close>, \<open>dest\<close> and \<open>next\<close> and the flag \<open>found\<close>, and a
  \<open>pb_extension_type_t\<close> the pointers \<open>decode\<close>, \<open>encode\<close> and \<open>arg\<close>.\<close>

definition x_type :: "mem \<Rightarrow> addr \<Rightarrow> addr" where "x_type mem ext = mem_u64 mem ext"
definition x_dest :: "addr \<Rightarrow> addr" where "x_dest ext = ext + 8"
definition x_next :: "mem \<Rightarrow> addr \<Rightarrow> addr" where "x_next mem ext = mem_u64 mem (ext + 16)"
definition x_found :: "addr \<Rightarrow> addr" where "x_found ext = ext + 24"
definition x_decode :: "mem \<Rightarrow> addr \<Rightarrow> addr" where "x_decode mem ext = mem_u64 mem (x_type mem ext)"
definition x_fields :: "'s dec_env \<Rightarrow> mem \<Rightarrow> addr \<Rightarrow> pb_field list" where
  "x_fields env mem ext = dec_fields env (mem_u64 mem (x_type mem ext + 16))"

definition iter_from_extension :: "'s dec_env \<Rightarrow> mem \<Rightarrow> addr \<Rightarrow> pb_field_iter" where
  "iter_from_extension env mem ext =
     (let fds = x_fields env mem ext; dest = mem_u64 mem (x_dest ext)
      in (snd (pb_field_iter_begin fds dest))
         \<lparr>it_pData := (if PB_ATYPE (pb_type (field_at fds 0)) = PB_ATYPE_POINTER then x_dest ext else dest),
          it_pSize := x_found ext\<rparr>)"

section \<open>Default values\<close>

text \<open>The loops over a list of extensions are bounded by their first argument.\<close>

fun extensions_to_default ::
  "nat \<Rightarrow> (pb_field_iter \<Rightarrow> world \<Rightarrow> world option) \<Rightarrow> 's dec_env \<Rightarrow> addr \<Rightarrow> world \<Rightarrow> world option" where
  "extensions_to_default 0 f env ext w = (if ext = 0 then Some w else None)"
| "extensions_to_default (Suc n) f env ext w =
     (if ext = 0 then Some w
      else
        (let w1 = w_put (x_found ext) [0] w
         in case f (iter_from_extension env (w_mem w1) ext) w1 of
              None \<Rightarrow> None
            | Some w2 \<Rightarrow> extensions_to_default n f env (x_next (w_mem w2) ext) w2))"

text \<open>\<open>pb_field_set_to_default\<close>; \<open>msg\<close> is \<open>pb_message_set_to_defaults\<close> for a submessage.\<close>

fun pb_field_set_to_default ::
  "nat \<Rightarrow> (pb_field list \<Rightarrow> addr \<Rightarrow> world \<Rightarrow> world option) \<Rightarrow> 's dec_env \<Rightarrow> pb_field_iter \<Rightarrow> world \<Rightarrow> world option" where
  "pb_field_set_to_default 0 msg env iter w = None"
| "pb_field_set_to_default (Suc n) msg env iter w =
     (let field = it_field iter; t = pb_type field; pData = it_pData iter; pSize = it_pSize iter
      in if PB_LTYPE t = PB_LTYPE_EXTENSION then
           extensions_to_default n (pb_field_set_to_default n msg env) env (w_u64 w pData) w
         else if PB_ATYPE t = PB_ATYPE_STATIC then
           (let init = (\<lambda>w. if PB_LTYPE t = PB_LTYPE_SUBMESSAGE then
                    (if pf_ptr field = 0 then None else msg (dec_fields env (pf_ptr field)) pData w)
                  else if pf_ptr field \<noteq> 0
                  then Some (w_put pData (mem_bytes (w_mem w) (pf_ptr field) (unat (data_size field))) w)
                  else Some (w_put pData (replicate (unat (data_size field)) 0) w))
            in if PB_HTYPE t = PB_HTYPE_OPTIONAL \<and> pSize \<noteq> pData then init (w_put pSize [0] w)
               else if PB_HTYPE t = PB_HTYPE_REPEATED \<or> PB_HTYPE t = PB_HTYPE_ONEOF
               then Some (w_put pSize (fixed32 0) w)
               else init w)
         else if PB_ATYPE t = PB_ATYPE_POINTER then
           (let w1 = w_put pData (fixed64 0) w
            in Some (if PB_HTYPE t = PB_HTYPE_REPEATED \<or> PB_HTYPE t = PB_HTYPE_ONEOF
                     then w_put pSize (fixed32 0) w1 else w1))
         else Some w)"

fun pb_message_set_to_defaults :: "nat \<Rightarrow> 's dec_env \<Rightarrow> pb_field list \<Rightarrow> addr \<Rightarrow> world \<Rightarrow> world option" where
  "pb_message_set_to_defaults 0 env fds dest w = None"
| "pb_message_set_to_defaults (Suc n) env fds dest w =
     (case pb_field_iter_begin fds dest of
        (False, _) \<Rightarrow> Some w
      | (True, iter) \<Rightarrow> each_field (pb_field_set_to_default (Suc n) (pb_message_set_to_defaults n env) env) iter w)"

section \<open>Releasing\<close>

fun extensions_release ::
  "nat \<Rightarrow> (pb_field_iter \<Rightarrow> world \<Rightarrow> world option) \<Rightarrow> 's dec_env \<Rightarrow> addr \<Rightarrow> world \<Rightarrow> world option" where
  "extensions_release 0 f env ext w = (if ext = 0 then Some w else None)"
| "extensions_release (Suc n) f env ext w =
     (if ext = 0 then Some w
      else
        (case f (iter_from_extension env (w_mem w) ext) w of
           None \<Rightarrow> None
         | Some w' \<Rightarrow> extensions_release n f env (x_next (w_mem w') ext) w'))"

text \<open>The loops over the items of an array.\<close>

fun release_items :: "(addr \<Rightarrow> world \<Rightarrow> world option) \<Rightarrow> nat \<Rightarrow> addr \<Rightarrow> u64 \<Rightarrow> world \<Rightarrow> world option" where
  "release_items f 0 p step w = Some w"
| "release_items f (Suc count) p step w =
     (case f p w of None \<Rightarrow> None | Some w' \<Rightarrow> release_items f count (p + step) step w')"

fun free_items :: "nat \<Rightarrow> addr \<Rightarrow> world \<Rightarrow> world option" where
  "free_items 0 p w = Some w"
| "free_items (Suc count) p w =
     (case pb_free (w_u64 w p) w of None \<Rightarrow> None | Some w' \<Rightarrow> free_items count (p + 8) (w_put p (fixed64 0) w'))"

text \<open>The contents of a submessage or of an array of them; \<open>msg\<close> is \<open>pb_release\<close>.\<close>

definition release_submessages ::
  "(pb_field list \<Rightarrow> addr \<Rightarrow> world \<Rightarrow> world option) \<Rightarrow> 's dec_env \<Rightarrow> pb_field_iter \<Rightarrow> world \<Rightarrow> world option" where
  "release_submessages msg env iter w =
     (let field = it_field iter; t = pb_type field; static = (PB_ATYPE t = PB_ATYPE_STATIC);
          pItem = (if PB_ATYPE t = PB_ATYPE_POINTER then w_u64 w (it_pData iter) else it_pData iter);
          count0 = (if static \<and> it_pSize iter = it_pData iter then array_size field else w_u32 w (it_pSize iter));
          count = (if PB_HTYPE t = PB_HTYPE_REPEATED
                   then (if static \<and> count0 > array_size field then array_size field else count0) else 1)
      in if pItem = 0 then Some w
         else release_items (\<lambda>p w. if pf_ptr field = 0 then None else msg (dec_fields env (pf_ptr field)) p w)
                (unat count) pItem (ucast (data_size field)) w)"

text \<open>The block that a pointer field has, and before it the blocks of an array of strings or bytes.\<close>

definition release_pointer :: "pb_field_iter \<Rightarrow> world \<Rightarrow> world option" where
  "release_pointer iter w =
     (let field = it_field iter; t = pb_type field; repeated = (PB_HTYPE t = PB_HTYPE_REPEATED);
          strings = (PB_LTYPE t = PB_LTYPE_STRING \<or> PB_LTYPE t = PB_LTYPE_BYTES)
      in case (if repeated \<and> strings
               then free_items (unat (w_u32 w (it_pSize iter))) (w_u64 w (it_pData iter)) w else Some w) of
           None \<Rightarrow> None
         | Some w1 \<Rightarrow>
             (let w2 = (if repeated then w_put (it_pSize iter) (fixed32 0) w1 else w1)
              in case pb_free (w_u64 w2 (it_pData iter)) w2 of
                   None \<Rightarrow> None
                 | Some w3 \<Rightarrow> Some (w_put (it_pData iter) (fixed64 0) w3)))"

fun pb_release_single_field ::
  "nat \<Rightarrow> (pb_field list \<Rightarrow> addr \<Rightarrow> world \<Rightarrow> world option) \<Rightarrow> 's dec_env \<Rightarrow> pb_field_iter \<Rightarrow> world \<Rightarrow> world option" where
  "pb_release_single_field 0 msg env iter w = None"
| "pb_release_single_field (Suc n) msg env iter w =
     (let field = it_field iter; t = pb_type field
      in if PB_HTYPE t = PB_HTYPE_ONEOF \<and> w_u32 w (it_pSize iter) \<noteq> pf_tag field then Some w
         else
           (case (if PB_LTYPE t = PB_LTYPE_EXTENSION
                  then extensions_release n (pb_release_single_field n msg env) env (w_u64 w (it_pData iter)) w
                  else if PB_LTYPE t = PB_LTYPE_SUBMESSAGE \<and> PB_ATYPE t \<noteq> PB_ATYPE_CALLBACK
                  then release_submessages msg env iter w else Some w) of
              None \<Rightarrow> None
            | Some w' \<Rightarrow> if PB_ATYPE t = PB_ATYPE_POINTER then release_pointer iter w' else Some w'))"

fun pb_release :: "nat \<Rightarrow> 's dec_env \<Rightarrow> pb_field list \<Rightarrow> addr \<Rightarrow> world \<Rightarrow> world option" where
  "pb_release 0 env fds dest w = None"
| "pb_release (Suc n) env fds dest w =
     (if dest = 0 then Some w
      else
        (case pb_field_iter_begin fds dest of
           (False, _) \<Rightarrow> Some w
         | (True, iter) \<Rightarrow> each_field (pb_release_single_field (Suc n) (pb_release n env) env) iter w))"

text \<open>The iterator is found at the new field again, as the caller goes on with it.\<close>

definition pb_release_union_field :: "nat \<Rightarrow> 's dec_env \<Rightarrow> pb_field_iter \<Rightarrow> ('s, pb_field_iter) dop" where
  "pb_release_union_field n env iter = d_world (\<lambda>w.
     let old_tag = w_u32 w (it_pSize iter); new_tag = pf_tag (it_field iter)
     in if old_tag = 0 \<or> old_tag = new_tag then d_ret iter
        else
          (case pb_field_iter_find iter old_tag of
             (False, _) \<Rightarrow> d_error ''invalid union tag''
           | (True, iter1) \<Rightarrow>
               d_then (d_update (pb_release_single_field n (pb_release n env) env iter1))
                 (case pb_field_iter_find iter1 new_tag of
                    (False, _) \<Rightarrow> d_error ''iterator error''
                  | (True, iter2) \<Rightarrow> d_ret iter2)))"

section \<open>Decoding a field\<close>

text \<open>\<open>if (!pb_close_string_substream(stream, &substream)) return false; return status;\<close>\<close>

definition d_close :: "'s pb_istream \<Rightarrow> 'a option \<Rightarrow> ('s, 'a) dop" where
  "d_close substream status = d_then (d_stream (pb_close_string_substream substream)) (d_status status)"

text \<open>\<open>decode\<close> and \<open>noinit\<close> are \<open>pb_decode\<close> and \<open>pb_decode_noinit\<close> for a submessage.\<close>

definition pb_dec_submessage ::
  "(pb_field list \<Rightarrow> addr \<Rightarrow> ('s, unit) dop) \<Rightarrow> (pb_field list \<Rightarrow> addr \<Rightarrow> ('s, unit) dop) \<Rightarrow> 's dec_env \<Rightarrow>
     pb_field \<Rightarrow> addr \<Rightarrow> ('s, unit) dop" where
  "pb_dec_submessage decode noinit env field dest = d_bind (d_stream pb_make_string_substream) (\<lambda>substream.
     if pf_ptr field = 0 then d_error ''invalid field descriptor''
     else d_bind (d_on substream
            ((if PB_HTYPE (pb_type field) = PB_HTYPE_REPEATED then decode else noinit) (dec_fields env (pf_ptr field)) dest))
       (\<lambda>(status, substream'). d_close substream' status))"

definition PB_DECODERS ::
  "(pb_field list \<Rightarrow> addr \<Rightarrow> ('s, unit) dop) \<Rightarrow> (pb_field list \<Rightarrow> addr \<Rightarrow> ('s, unit) dop) \<Rightarrow> 's dec_env \<Rightarrow>
     byte \<Rightarrow> pb_field \<Rightarrow> addr \<Rightarrow> ('s, unit) dop" where
  "PB_DECODERS decode noinit env ltype =
     (if ltype = PB_LTYPE_BOOL then pb_dec_bool
      else if ltype = PB_LTYPE_VARINT then pb_dec_varint
      else if ltype = PB_LTYPE_UVARINT then pb_dec_uvarint
      else if ltype = PB_LTYPE_SVARINT then pb_dec_svarint
      else if ltype = PB_LTYPE_FIXED32 then pb_dec_fixed32
      else if ltype = PB_LTYPE_FIXED64 then pb_dec_fixed64
      else if ltype = PB_LTYPE_BYTES then pb_dec_bytes env
      else if ltype = PB_LTYPE_STRING then pb_dec_string env
      else if ltype = PB_LTYPE_SUBMESSAGE then pb_dec_submessage decode noinit env
      else if ltype = PB_LTYPE_FIXED_LENGTH_BYTES then pb_dec_fixed_length_bytes
      else (\<lambda>_ _. d_undef))"

text \<open>The address of an item: the product of the size and the index has 32 bits.\<close>

definition item_addr :: "addr \<Rightarrow> pb_field \<Rightarrow> u32 \<Rightarrow> addr" where
  "item_addr p field i = p + ucast (data_size field * i)"

text \<open>The loop over a packed array in the struct. Every decoder of a packable type takes a byte of the
  substream at least, so a turn that takes none does not occur.\<close>

function static_packed ::
  "(addr \<Rightarrow> ('s, unit) dop) \<Rightarrow> pb_field_iter \<Rightarrow> 's dstate \<Rightarrow> (unit option \<times> 's dstate) option" where
  "static_packed func iter st =
     (let field = it_field iter; i = w_u32 (snd st) (it_pSize iter)
      in if bytes_left (fst st) > 0 \<and> i < array_size field then
           (case func (item_addr (it_pData iter) field i) st of
              None \<Rightarrow> None
            | Some (None, st') \<Rightarrow> Some (None, st')
            | Some (Some _, s', w') \<Rightarrow>
                if bytes_left s' < bytes_left (fst st)
                then static_packed func iter (s', w_put (it_pSize iter) (fixed32 (w_u32 w' (it_pSize iter) + 1)) w')
                else None)
         else Some (Some (), st))"
  by pat_completeness auto
termination
  by (relation "measure (\<lambda>(_, _, st). bytes_left (fst st))") auto

declare static_packed.simps [simp del]

text \<open>\<open>msg_defaults\<close> is \<open>pb_message_set_to_defaults\<close>.\<close>

definition decode_static_field ::
  "(pb_field list \<Rightarrow> addr \<Rightarrow> world \<Rightarrow> world option) \<Rightarrow> (byte \<Rightarrow> pb_field \<Rightarrow> addr \<Rightarrow> ('s, unit) dop) \<Rightarrow> 's dec_env \<Rightarrow>
     u32 \<Rightarrow> pb_field_iter \<Rightarrow> ('s, unit) dop" where
  "decode_static_field msg_defaults decoders env wire_type iter =
     (let field = it_field iter; t = pb_type field; pData = it_pData iter; pSize = it_pSize iter;
          func = decoders (PB_LTYPE t) field
      in if PB_LTYPE t \<ge> PB_LTYPES_COUNT then d_undef
         else if PB_HTYPE t = PB_HTYPE_REQUIRED then func pData
         else if PB_HTYPE t = PB_HTYPE_OPTIONAL then
           d_then (if pSize \<noteq> pData then d_put pSize [1] else d_ret ()) (func pData)
         else if PB_HTYPE t = PB_HTYPE_REPEATED then
           (if wire_type = PB_WT_STRING \<and> PB_LTYPE t \<le> PB_LTYPE_LAST_PACKABLE then
              d_bind (d_stream pb_make_string_substream) (\<lambda>substream.
                d_bind (d_on substream (static_packed func iter)) (\<lambda>(status, substream').
                  if bytes_left substream' \<noteq> 0 then d_error ''array overflow'' else d_close substream' status))
            else
              d_world (\<lambda>w.
                let i = w_u32 w pSize
                in d_then (d_put pSize (fixed32 (i + 1)))
                     (if i \<ge> array_size field then d_error ''array overflow'' else func (item_addr pData field i))))
         else
           d_world (\<lambda>w.
             d_then
               (if PB_LTYPE t = PB_LTYPE_SUBMESSAGE \<and> w_u32 w pSize \<noteq> pf_tag field
                then d_then (d_put pData (replicate (unat (data_size field)) 0))
                       (d_update (\<lambda>w. if pf_ptr field = 0 then None
                                      else msg_defaults (dec_fields env (pf_ptr field)) pData w))
                else d_ret ())
               (d_then (d_put pSize (fixed32 (pf_tag field))) (func pData))))"

definition initialize_pointer_field ::
  "(pb_field list \<Rightarrow> addr \<Rightarrow> world \<Rightarrow> world option) \<Rightarrow> 's dec_env \<Rightarrow> addr \<Rightarrow> pb_field \<Rightarrow> world \<Rightarrow> world option" where
  "initialize_pointer_field msg_defaults env pItem field w =
     (let ltype = PB_LTYPE (pb_type field)
      in if ltype = PB_LTYPE_STRING \<or> ltype = PB_LTYPE_BYTES then Some (w_put pItem (fixed64 0) w)
         else if ltype = PB_LTYPE_SUBMESSAGE then
           (if pf_ptr field = 0 then None
            else msg_defaults (dec_fields env (pf_ptr field)) pItem (w_put pItem (replicate (unat (data_size field)) 0) w))
         else Some w)"

text \<open>The loop over a packed array in a block, with \<open>allocated_size\<close>; \<open>func\<close> initializes an item and decodes
  it. The message about too many entries goes to the stream, where closing the substream overwrites it;
  it is left out here.\<close>

function pointer_packed ::
  "(addr \<Rightarrow> ('s, unit) dop) \<Rightarrow> 's dec_env \<Rightarrow> pb_field_iter \<Rightarrow> u64 \<Rightarrow> 's dstate \<Rightarrow> (unit option \<times> 's dstate) option" where
  "pointer_packed func env iter allocated st =
     (let field = it_field iter; i = w_u32 (snd st) (it_pSize iter);
          remain = word_of_nat ((bytes_left (fst st) - 1) div unat (data_size field) + 1) :: u64;
          more = (ucast i + 1 > allocated);
          allocated' = (if more then (if remain < ucast PB_SIZE_MAX - allocated then allocated + remain else allocated + 1)
                        else allocated)
      in if bytes_left (fst st) = 0 then Some (Some (), st)
         else if i = PB_SIZE_MAX then Some (None, st)
         else if more \<and> data_size field = 0 then None
         else
           (case (if more then allocate_field env (it_pData iter) (unat (data_size field)) (unat allocated') st
                  else d_ret () st) of
              None \<Rightarrow> None
            | Some (None, st') \<Rightarrow> Some (None, st')
            | Some (Some _, st') \<Rightarrow>
                (case func (item_addr (w_u64 (snd st') (it_pData iter)) field (w_u32 (snd st') (it_pSize iter))) st' of
                   None \<Rightarrow> None
                 | Some (None, st'') \<Rightarrow> Some (None, st'')
                 | Some (Some _, s'', w'') \<Rightarrow>
                     if bytes_left s'' < bytes_left (fst st)
                     then pointer_packed func env iter allocated'
                       (s'', w_put (it_pSize iter) (fixed32 (w_u32 w'' (it_pSize iter) + 1)) w'')
                     else None)))"
  by pat_completeness auto
termination
  by (relation "measure (\<lambda>(_, _, _, _, st). bytes_left (fst st))") auto

declare pointer_packed.simps [simp del]

definition decode_pointer_field ::
  "(pb_field list \<Rightarrow> addr \<Rightarrow> world \<Rightarrow> world option) \<Rightarrow> (pb_field_iter \<Rightarrow> world \<Rightarrow> world option) \<Rightarrow>
     (byte \<Rightarrow> pb_field \<Rightarrow> addr \<Rightarrow> ('s, unit) dop) \<Rightarrow> 's dec_env \<Rightarrow> u32 \<Rightarrow> pb_field_iter \<Rightarrow> ('s, unit) dop" where
  "decode_pointer_field msg_defaults release decoders env wire_type iter =
     (let field = it_field iter; t = pb_type field; pData = it_pData iter; pSize = it_pSize iter; ltype = PB_LTYPE t;
          func = decoders ltype field; initialize = (\<lambda>p. d_update (initialize_pointer_field msg_defaults env p field))
      in if ltype \<ge> PB_LTYPES_COUNT then d_undef
         else if PB_HTYPE t = PB_HTYPE_REPEATED then
           (if wire_type = PB_WT_STRING \<and> ltype \<le> PB_LTYPE_LAST_PACKABLE then
              d_bind (d_stream pb_make_string_substream) (\<lambda>substream.
                d_world (\<lambda>w.
                  d_bind (d_on substream (pointer_packed (\<lambda>p. d_then (initialize p) (func p)) env iter (ucast (w_u32 w pSize)))) (\<lambda>(status, substream').
                    d_close substream' status)))
            else
              d_world (\<lambda>w.
                let i = w_u32 w pSize
                in if i = PB_SIZE_MAX then d_error ''too many array entries''
                   else d_then (allocate_field env pData (unat (data_size field)) (unat (i + 1)))
                     (d_world (\<lambda>w.
                       let i = w_u32 w pSize; pItem = item_addr (w_u64 w pData) field i
                       in d_then (d_put pSize (fixed32 (i + 1))) (d_then (initialize pItem) (func pItem))))))
         else
           d_world (\<lambda>w.
             d_then
               (if ltype = PB_LTYPE_SUBMESSAGE \<and> w_u64 w pData \<noteq> 0 then d_update (release iter) else d_ret ())
               (d_then (if PB_HTYPE t = PB_HTYPE_ONEOF then d_put pSize (fixed32 (pf_tag field)) else d_ret ())
                  (if ltype = PB_LTYPE_STRING \<or> ltype = PB_LTYPE_BYTES then func pData
                   else d_then (allocate_field env pData (unat (data_size field)) 1)
                          (d_world (\<lambda>w. d_then (initialize (w_u64 w pData)) (func (w_u64 w pData))))))))"

text \<open>\<open>do { if (!decode(&substream)) ... } while (substream.bytes_left)\<close>, for at most the given number of
  calls. The message of the error goes to the stream.\<close>

fun callback_loop :: "nat \<Rightarrow> ('s, unit) dop \<Rightarrow> 's dstate \<Rightarrow> (unit option \<times> 's dstate) option" where
  "callback_loop 0 call st = None"
| "callback_loop (Suc n) call st =
     (case call st of
        None \<Rightarrow> None
      | Some (None, st') \<Rightarrow> Some (None, st')
      | Some (Some _, st') \<Rightarrow> if bytes_left (fst st') \<noteq> 0 then callback_loop n call st' else Some (Some (), st'))"

definition decode_callback_field :: "nat \<Rightarrow> 's dec_env \<Rightarrow> u32 \<Rightarrow> pb_field_iter \<Rightarrow> ('s, unit) dop" where
  "decode_callback_field n env wire_type iter = d_world (\<lambda>w.
     let pCallback = it_pData iter; decode = dec_callback env (w_u64 w pCallback) (it_field iter) (pCallback + 8)
     in if pCallback = 0 \<or> w_u64 w pCallback = 0 then d_stream (pb_skip_field wire_type)
        else if wire_type = PB_WT_STRING then
          d_bind (d_stream pb_make_string_substream) (\<lambda>substream.
            d_bind (d_on substream (callback_loop n decode)) (\<lambda>(status, substream').
              if status = None then d_error ''callback failed'' else d_close substream' status))
        else
          d_bind (d_stream (read_raw_value wire_type 10)) (\<lambda>buffer.
            d_bind (d_on (pb_istream_from_buffer buffer (length buffer)) decode) (\<lambda>(status, _). d_status status)))"

text \<open>\<open>decode_field\<close>, whose submessages are decoded by \<open>decode\<close> and \<open>noinit\<close> and initialized and
  released within the bound \<open>n\<close>. It gives back the iterator, which \<open>pb_release_union_field\<close> moves.\<close>

definition decode_field ::
  "nat \<Rightarrow> (pb_field list \<Rightarrow> addr \<Rightarrow> ('s, unit) dop) \<Rightarrow> (pb_field list \<Rightarrow> addr \<Rightarrow> ('s, unit) dop) \<Rightarrow> 's dec_env \<Rightarrow>
     u32 \<Rightarrow> pb_field_iter \<Rightarrow> ('s, pb_field_iter) dop" where
  "decode_field n decode noinit env wire_type iter0 =
     d_bind (if PB_HTYPE (pb_type (it_field iter0)) = PB_HTYPE_ONEOF then pb_release_union_field n env iter0 else d_ret iter0)
       (\<lambda>iter.
          let atype = PB_ATYPE (pb_type (it_field iter)); defaults = pb_message_set_to_defaults n env;
              decoders = PB_DECODERS decode noinit env
          in d_then
               (if atype = PB_ATYPE_STATIC then decode_static_field defaults decoders env wire_type iter
                else if atype = PB_ATYPE_POINTER
                then decode_pointer_field defaults (pb_release_single_field n (pb_release n env) env) decoders env wire_type iter
                else if atype = PB_ATYPE_CALLBACK then decode_callback_field n env wire_type iter
                else d_error ''invalid field type'')
               (d_ret iter))"

section \<open>Extensions\<close>

text \<open>\<open>field\<close> is \<open>decode_field\<close>.\<close>

definition default_extension_decoder ::
  "(u32 \<Rightarrow> pb_field_iter \<Rightarrow> ('s, pb_field_iter) dop) \<Rightarrow> 's dec_env \<Rightarrow> addr \<Rightarrow> u32 \<Rightarrow> u32 \<Rightarrow> ('s, unit) dop" where
  "default_extension_decoder field env ext t wire_type = d_world (\<lambda>w.
     if pf_tag (field_at (x_fields env (w_mem w) ext) 0) \<noteq> t then d_ret ()
     else d_then (d_put (x_found ext) [1])
            (d_then (field wire_type (iter_from_extension env (w_mem w) ext)) (d_ret ())))"

fun extension_loop ::
  "nat \<Rightarrow> (u32 \<Rightarrow> pb_field_iter \<Rightarrow> ('s, pb_field_iter) dop) \<Rightarrow> 's dec_env \<Rightarrow> u32 \<Rightarrow> u32 \<Rightarrow> nat \<Rightarrow> addr \<Rightarrow> ('s, unit) dop" where
  "extension_loop 0 field env t wire_type pos ext st =
     (if ext \<noteq> 0 \<and> pos = bytes_left (fst st) then None else d_ret () st)"
| "extension_loop (Suc n) field env t wire_type pos ext st =
     (if ext \<noteq> 0 \<and> pos = bytes_left (fst st) then
        d_then
          (d_world (\<lambda>w. if x_decode (w_mem w) ext \<noteq> 0 then dec_extension env (x_decode (w_mem w) ext) ext t wire_type
                        else default_extension_decoder field env ext t wire_type))
          (d_world (\<lambda>w. extension_loop n field env t wire_type pos (x_next (w_mem w) ext))) st
      else d_ret () st)"

definition decode_extension ::
  "nat \<Rightarrow> (u32 \<Rightarrow> pb_field_iter \<Rightarrow> ('s, pb_field_iter) dop) \<Rightarrow> 's dec_env \<Rightarrow> u32 \<Rightarrow> u32 \<Rightarrow> pb_field_iter \<Rightarrow> ('s, unit) dop" where
  "decode_extension n field env t wire_type iter =
     (\<lambda>st. extension_loop n field env t wire_type (bytes_left (fst st)) (w_u64 (snd st) (it_pData iter)) st)"

definition find_extension_field :: "pb_field_iter \<Rightarrow> bool \<times> pb_field_iter" where
  "find_extension_field iter =
     find_loop (length (it_start iter) + 1) (it_pos iter) (\<lambda>field. PB_LTYPE (pb_type field) = PB_LTYPE_EXTENSION) iter"

section \<open>Decoding a message\<close>

abbreviation PB_MAX_REQUIRED_FIELDS :: nat where "PB_MAX_REQUIRED_FIELDS \<equiv> 64"

text \<open>The local variables of \<open>pb_decode_noinit\<close>; \<open>fixed_count_field\<close> is a position in the array, and
  \<open>fixed_count_size\<close> is in the memory, because \<open>pSize\<close> may point to it.\<close>

record noinit_vars =
  v_iter :: pb_field_iter
  fields_seen :: "u32 list"
  extension_range_start :: u32
  fixed_count_field :: "nat option"

text \<open>A field without an entry in the array: an extension handles it, or it is skipped.\<close>

definition decode_unknown ::
  "nat \<Rightarrow> (u32 \<Rightarrow> pb_field_iter \<Rightarrow> ('s, pb_field_iter) dop) \<Rightarrow> 's dec_env \<Rightarrow> u32 \<Rightarrow> u32 \<Rightarrow> noinit_vars \<Rightarrow>
     ('s, noinit_vars) dop" where
  "decode_unknown n field env t wire_type v =
     (let skip = (\<lambda>v. d_then (d_stream (pb_skip_field wire_type)) (d_ret v))
      in if t \<ge> extension_range_start v then
           (case find_extension_field (v_iter v) of
              (found, iter') \<Rightarrow>
                (let v' = v\<lparr>v_iter := iter', extension_range_start := (if found then pf_tag (it_field iter') else - 1)\<rparr>
                 in if t \<ge> extension_range_start v' then
                      (\<lambda>st. d_then (decode_extension n field env t wire_type iter')
                         (\<lambda>st'. if bytes_left (fst st) \<noteq> bytes_left (fst st') then d_ret v' st' else skip v' st') st)
                    else skip v'))
         else skip v)"

text \<open>A repeated field whose number of items is fixed counts them in \<open>fixed_count_size\<close>, at \<open>count\<close>.\<close>

definition fixed_count_mismatch :: "addr \<Rightarrow> noinit_vars \<Rightarrow> world \<Rightarrow> bool" where
  "fixed_count_mismatch count v w \<longleftrightarrow>
     (case fixed_count_field v of
        None \<Rightarrow> False
      | Some pos \<Rightarrow> w_u32 w count \<noteq> array_size (field_at (it_start (v_iter v)) pos))"

definition start_fixed_count :: "addr \<Rightarrow> noinit_vars \<Rightarrow> ('s, noinit_vars) dop" where
  "start_fixed_count count v =
     (let iter = v_iter v
      in if PB_HTYPE (pb_type (it_field iter)) = PB_HTYPE_REPEATED \<and> it_pSize iter = it_pData iter then
           (let v' = v\<lparr>v_iter := iter\<lparr>it_pSize := count\<rparr>\<rparr>
            in if fixed_count_field v \<noteq> Some (it_pos iter) then
                 d_world (\<lambda>w.
                   if fixed_count_mismatch count v w then d_error ''wrong size for fixed count field''
                   else d_then (d_put count (fixed32 0)) (d_ret (v'\<lparr>fixed_count_field := Some (it_pos iter)\<rparr>)))
               else d_ret v')
         else d_ret v)"

definition see_required :: "noinit_vars \<Rightarrow> noinit_vars" where
  "see_required v =
     (let i = required_field_index (v_iter v)
      in if PB_HTYPE (pb_type (it_field (v_iter v))) = PB_HTYPE_REQUIRED \<and> i < PB_MAX_REQUIRED_FIELDS
         then v\<lparr>fields_seen := (fields_seen v)[i div 32 := fields_seen v ! (i div 32) OR push_bit (i mod 32) 1]\<rparr>
         else v)"

text \<open>A turn of the loop: the result says whether it goes on.\<close>

definition noinit_turn ::
  "nat \<Rightarrow> (u32 \<Rightarrow> pb_field_iter \<Rightarrow> ('s, pb_field_iter) dop) \<Rightarrow> 's dec_env \<Rightarrow> addr \<Rightarrow> noinit_vars \<Rightarrow>
     ('s, bool \<times> noinit_vars) dop" where
  "noinit_turn n field env count v = (\<lambda>(s, w).
     case pb_decode_tag s of
       (None, eof, s') \<Rightarrow> (if eof then d_ret (False, v) (s', w) else d_false (s', w))
     | (Some (wire_type, t), _, s') \<Rightarrow>
         (case pb_field_iter_find (v_iter v) t of
            (False, iter') \<Rightarrow>
              d_bind (decode_unknown n field env t wire_type (v\<lparr>v_iter := iter'\<rparr>)) (\<lambda>v'. d_ret (True, v')) (s', w)
          | (True, iter') \<Rightarrow>
              d_bind (start_fixed_count count (v\<lparr>v_iter := iter'\<rparr>)) (\<lambda>v1.
                let v2 = see_required v1
                in d_bind (field wire_type (v_iter v2)) (\<lambda>iter''. d_ret (True, v2\<lparr>v_iter := iter''\<rparr>))) (s', w)))"

text \<open>The loop; only a function of the user can leave the stream with as many bytes as before, and then
  the outcome is undefined here.\<close>

function noinit_loop ::
  "(noinit_vars \<Rightarrow> ('s, bool \<times> noinit_vars) dop) \<Rightarrow> noinit_vars \<Rightarrow> 's dstate \<Rightarrow> (noinit_vars option \<times> 's dstate) option" where
  "noinit_loop turn v st =
     (if bytes_left (fst st) = 0 then Some (Some v, st)
      else
        (case turn v st of
           None \<Rightarrow> None
         | Some (None, st') \<Rightarrow> Some (None, st')
         | Some (Some (go, v'), s', w') \<Rightarrow>
             if \<not> go then Some (Some v', s', w')
             else if bytes_left s' < bytes_left (fst st) then noinit_loop turn v' (s', w')
             else None))"
  by pat_completeness auto
termination
  by (relation "measure (\<lambda>(_, _, st). bytes_left (fst st))") auto

declare noinit_loop.simps [simp del]

text \<open>The number of required fields, at most \<open>PB_MAX_REQUIRED_FIELDS\<close>, from where the iterator is.\<close>

function seek_end :: "pb_field_iter \<Rightarrow> nat \<times> byte \<times> pb_field_iter" where
  "seek_end iter =
     (case pb_field_iter_next iter of
        (True, iter') \<Rightarrow> seek_end iter'
      | (False, iter') \<Rightarrow> (required_field_index iter, pb_type (it_field iter), iter'))"
  by pat_completeness auto
termination
  by (relation "measure (\<lambda>iter. length (it_start iter) - it_pos iter)") (auto dest: iter_next_less)

declare seek_end.simps [simp del]

definition req_field_count :: "pb_field_iter \<Rightarrow> nat" where
  "req_field_count iter =
     (case seek_end iter of
        (n, last_type, iter') \<Rightarrow>
          min PB_MAX_REQUIRED_FIELDS
            (if PB_HTYPE last_type = PB_HTYPE_REQUIRED \<and> pf_tag (it_field iter') \<noteq> 0 then n + 1 else n))"

definition required_seen :: "nat \<Rightarrow> u32 list \<Rightarrow> bool" where
  "required_seen n seen \<longleftrightarrow>
     (\<forall>i < n div 32. seen ! i = - 1) \<and>
     (n mod 32 \<noteq> 0 \<longrightarrow> seen ! (n div 32) = drop_bit (32 - n mod 32) (- 1))"

definition noinit_end :: "addr \<Rightarrow> noinit_vars \<Rightarrow> ('s, unit) dop" where
  "noinit_end count v = d_world (\<lambda>w.
     if fixed_count_mismatch count v w then d_error ''wrong size for fixed count field''
     else if \<not> required_seen (req_field_count (v_iter v)) (fields_seen v) then d_error ''missing required field''
     else d_ret ())"

text \<open>\<open>pb_decode\<close> around \<open>pb_decode_noinit\<close>.\<close>

definition decode_by ::
  "nat \<Rightarrow> 's dec_env \<Rightarrow> (pb_field list \<Rightarrow> addr \<Rightarrow> ('s, unit) dop) \<Rightarrow> pb_field list \<Rightarrow> addr \<Rightarrow> ('s, unit) dop" where
  "decode_by n env noinit fds dest = d_then (d_update (pb_message_set_to_defaults n env fds dest))
     (\<lambda>st. case noinit fds dest st of
        Some (None, s', w') \<Rightarrow> d_then (d_update (pb_release n env fds dest)) d_false (s', w')
      | r \<Rightarrow> r)"

text \<open>The bound counts the messages inside each other, and one more.\<close>

fun pb_decode_noinit :: "nat \<Rightarrow> 's dec_env \<Rightarrow> pb_field list \<Rightarrow> addr \<Rightarrow> ('s, unit) dop" where
  "pb_decode_noinit 0 env fds dest st = None"
| "pb_decode_noinit (Suc n) env fds dest st =
     (let noinit = pb_decode_noinit n env;
          field = decode_field (Suc n) (decode_by n env noinit) noinit env;
          count = dec_local env n;
          v = \<lparr>v_iter = snd (pb_field_iter_begin fds dest), fields_seen = [0, 0], extension_range_start = 0,
               fixed_count_field = None\<rparr>
      in d_then (d_put count (fixed32 0))
           (d_bind (noinit_loop (noinit_turn (Suc n) field env count) v) (noinit_end count)) st)"

definition pb_decode :: "nat \<Rightarrow> 's dec_env \<Rightarrow> pb_field list \<Rightarrow> addr \<Rightarrow> ('s, unit) dop" where
  "pb_decode n env = decode_by n env (pb_decode_noinit n env)"

definition pb_decode_delimited_noinit :: "nat \<Rightarrow> 's dec_env \<Rightarrow> pb_field list \<Rightarrow> addr \<Rightarrow> ('s, unit) dop" where
  "pb_decode_delimited_noinit n env fds dest = d_bind (d_stream pb_make_string_substream) (\<lambda>substream.
     d_bind (d_on substream (pb_decode_noinit n env fds dest)) (\<lambda>(status, substream'). d_close substream' status))"

definition pb_decode_delimited :: "nat \<Rightarrow> 's dec_env \<Rightarrow> pb_field list \<Rightarrow> addr \<Rightarrow> ('s, unit) dop" where
  "pb_decode_delimited n env fds dest = d_bind (d_stream pb_make_string_substream) (\<lambda>substream.
     d_bind (d_on substream (pb_decode n env fds dest)) (\<lambda>(status, substream'). d_close substream' status))"

definition pb_decode_nullterminated :: "nat \<Rightarrow> 's dec_env \<Rightarrow> pb_field list \<Rightarrow> addr \<Rightarrow> ('s, unit) dop" where
  "pb_decode_nullterminated = pb_decode"

definition pb_decode_bool :: "addr \<Rightarrow> ('s, unit) dop" where
  "pb_decode_bool dest = pb_dec_bool PB_LAST_FIELD dest"

end
