(* ===== verification/PbDecodeSafe.thy ===== *)
theory PbDecodeSafe
  imports PbDecode PbTotal
begin

text \<open>
  The decoder on structs without pointers, callbacks and extensions: whatever the message is, it ends
  with a defined outcome, allocates nothing and changes the memory only at the members that the
  iterator visits, in the struct and its submessages, and at its local counter.
\<close>

section \<open>Reading from buffers\<close>

definition stream_ok :: "'s pb_istream \<Rightarrow> bool" where
  "stream_ok s \<longleftrightarrow> (\<exists>buf pos. is_source s = Buf_read buf pos \<and> pos + bytes_left s \<le> length buf)"

text \<open>A later state of the stream: it reads the same buffer up to the same place.\<close>

definition advances :: "'s pb_istream \<Rightarrow> 's pb_istream \<Rightarrow> bool" where
  "advances s s' \<longleftrightarrow> (\<exists>buf pos pos'. is_source s = Buf_read buf pos \<and> is_source s' = Buf_read buf pos' \<and>
     bytes_left s' \<le> bytes_left s \<and> pos' + bytes_left s' = pos + bytes_left s)"

lemma advances_refl [simp]: "stream_ok s \<Longrightarrow> advances s s"
  by (auto simp: stream_ok_def advances_def)

lemma advances_trans [trans]: "advances s s' \<Longrightarrow> advances s' s'' \<Longrightarrow> advances s s''"
  by (auto simp: advances_def)

lemma advances_ok: "stream_ok s \<Longrightarrow> advances s s' \<Longrightarrow> stream_ok s'"
  by (auto simp: stream_ok_def advances_def)

lemma advances_le: "advances s s' \<Longrightarrow> bytes_left s' \<le> bytes_left s"
  by (auto simp: advances_def)

definition reads :: "('s pb_istream, 'a) cop \<Rightarrow> bool" where
  "reads g \<longleftrightarrow> (\<forall>s a s'. stream_ok s \<longrightarrow> g s = (Some a, s') \<longrightarrow> advances s s')"

definition reads_some :: "('s pb_istream, 'a) cop \<Rightarrow> bool" where
  "reads_some g \<longleftrightarrow> (\<forall>s a s'. stream_ok s \<longrightarrow> g s = (Some a, s') \<longrightarrow> advances s s' \<and> bytes_left s' < bytes_left s)"

lemma reads_someD: "reads_some g \<Longrightarrow> stream_ok s \<Longrightarrow> g s = (Some a, s') \<Longrightarrow> advances s s' \<and> bytes_left s' < bytes_left s"
  unfolding reads_some_def by blast

lemma readsD: "reads g \<Longrightarrow> stream_ok s \<Longrightarrow> g s = (Some a, s') \<Longrightarrow> advances s s'"
  unfolding reads_def by blast

lemma reads_some_reads: "reads_some g \<Longrightarrow> reads g"
  by (simp add: reads_some_def reads_def)

lemma reads_bind: "reads_some g \<Longrightarrow> (\<And>a. reads (h a)) \<Longrightarrow> reads_some (op_bind g h)"
  unfolding reads_some_def [of "op_bind g h"] op_bind_Some_iff
  by (meson advances_le advances_ok advances_trans less_le_trans not_le readsD reads_someD)

lemma reads_ret: "reads (op_ret a)" and reads_error: "reads (is_error msg)"
  by (auto simp: reads_def op_ret_def is_error_def)

lemma reads_readbyte: "reads_some pb_readbyte"
  by (auto simp: reads_some_def pb_readbyte_def is_error_def stream_ok_def advances_def split: if_splits)

lemma reads_limited: "reads (pb_read_limited n)"
  by (auto simp: reads_def pb_read_limited_def is_error_def stream_ok_def advances_def split: if_splits)

lemma reads_read: "reads (pb_read n)"
  by (simp add: pb_read_def reads_limited reads_ret)

lemma reads_read_some: "0 < n \<Longrightarrow> reads_some (pb_read n)"
  using reads_read [of n] pb_read_less unfolding reads_def reads_some_def by blast

lemma read_length: "stream_ok s \<Longrightarrow> pb_read n s = (Some bs, s') \<Longrightarrow> length bs = n"
  by (auto simp: pb_read_def pb_read_limited_def op_ret_def is_error_def stream_ok_def split: if_splits)

lemma reads_varint32_loop: "stream_ok s \<Longrightarrow> varint32_loop r b s = (Some v, s') \<Longrightarrow> advances s s' \<and> bytes_left s' < bytes_left s"
proof (induction r b s rule: varint32_loop.induct)
  case (1 r b s)
  obtain x s1 where x: "pb_readbyte s = (Some x, s1)"
    using 1(3) by (auto simp: varint32_loop.simps [of r b s] split: prod.splits option.splits)
  note s1 = reads_someD [OF reads_readbyte 1(2) x]
  from 1(1) [OF x [symmetric] refl refl refl refl refl] have IH:
    "stream_ok s1 \<Longrightarrow> varint32_loop (if b \<ge> 32 then r else r OR push_bit b (ucast (x AND 0x7F))) ((b + 7) mod 256) s1 = (Some v, s') \<Longrightarrow>
      \<not> (b \<ge> 32 \<and> x AND 0x7F \<noteq> 0 \<and> (drop_bit 31 r = 0 \<or> x \<noteq> (if b < 63 then 0xFF else 0x01 :: byte))) \<Longrightarrow>
      x AND 0x80 \<noteq> 0 \<Longrightarrow> advances s1 s' \<and> bytes_left s' < bytes_left s1"
    by blast
  show ?case
    using 1(3) IH s1 advances_ok [OF 1(2)] advances_trans [of s s1 s']
    by (auto simp: varint32_loop.simps [of r b s] x Let_def is_error_def split: if_splits)
qed

lemma reads_varint_loop: "stream_ok s \<Longrightarrow> varint_loop r b s = (Some v, s') \<Longrightarrow> advances s s' \<and> bytes_left s' < bytes_left s"
proof (induction r b s rule: varint_loop.induct)
  case (1 r b s)
  then have b: "\<not> b \<ge> 64" by (auto simp: varint_loop.simps [of r b s] is_error_def split: if_splits)
  obtain x s1 where x: "pb_readbyte s = (Some x, s1)"
    using 1(3) b by (auto simp: varint_loop.simps [of r b s] split: prod.splits option.splits)
  note s1 = reads_someD [OF reads_readbyte 1(2) x]
  from 1(1) [OF b x [symmetric] refl refl refl] have IH:
    "x AND 0x80 \<noteq> 0 \<Longrightarrow> stream_ok s1 \<Longrightarrow> varint_loop (r OR push_bit b (ucast (x AND 0x7F))) ((b + 7) mod 256) s1 = (Some v, s') \<Longrightarrow>
       advances s1 s' \<and> bytes_left s' < bytes_left s1" by blast
  show ?case
    using 1(3) IH s1 advances_ok [OF 1(2)] advances_trans [of s s1 s'] b
    by (auto simp: varint_loop.simps [of r b s] x Let_def is_error_def split: if_splits)
qed

lemma reads_varint: "reads_some pb_decode_varint"
  by (auto simp: reads_some_def pb_decode_varint_def dest: reads_varint_loop)

lemma reads_varint32_eof:
  "stream_ok s \<Longrightarrow> pb_decode_varint32_eof s = (Some v, eof, s') \<Longrightarrow> advances s s' \<and> bytes_left s' < bytes_left s"
proof -
  assume ok: "stream_ok s" and d: "pb_decode_varint32_eof s = (Some v, eof, s')"
  obtain x s1 where x: "pb_readbyte s = (Some x, s1)"
    using d by (auto simp: pb_decode_varint32_eof_def split: prod.splits option.splits)
  note s1 = reads_someD [OF reads_readbyte ok x]
  show ?thesis
    using d s1 reads_varint32_loop [OF advances_ok [OF ok]] advances_trans [of s s1 s']
    by (fastforce simp: pb_decode_varint32_eof_def x split: if_splits prod.splits)
qed

lemma reads_varint32: "reads_some pb_decode_varint32"
  using reads_varint32_eof by (auto simp: reads_some_def pb_decode_varint32_def split: prod.splits)

lemma reads_svarint: "reads_some pb_decode_svarint"
  unfolding pb_decode_svarint_def by (intro reads_bind reads_varint reads_ret)

lemma reads_fixed32: "reads_some pb_decode_fixed32" and reads_fixed64: "reads_some pb_decode_fixed64"
  unfolding pb_decode_fixed32_def pb_decode_fixed64_def by (intro reads_bind reads_read_some reads_ret; simp)+

lemma reads_tag:
  "stream_ok s \<Longrightarrow> pb_decode_tag s = (Some r, eof, s') \<Longrightarrow> advances s s' \<and> bytes_left s' < bytes_left s"
  using reads_varint32_eof by (fastforce simp: pb_decode_tag_def split: option.splits prod.splits if_splits)

lemma reads_null: "reads (pb_read_null n)"
  by (auto simp: reads_def pb_read_null_def is_buf_read_def op_then_Some_iff op_ret_def stream_ok_def
      pb_read_limited_def is_error_def advances_def split: if_splits)

lemma reads_skip_varint: "stream_ok s \<Longrightarrow> pb_skip_varint s = (Some v, s') \<Longrightarrow> advances s s'"
proof (induction s rule: pb_skip_varint.induct)
  case (1 s)
  obtain x s1 where x: "pb_read 1 s = (Some x, s1)"
    using 1(3) by (auto simp: pb_skip_varint.simps [of s] split: prod.splits option.splits)
  note s1 = readsD [OF reads_read 1(2) x]
  show ?case
    using 1(3) 1(1) [OF x [symmetric] refl] s1 advances_ok [OF 1(2) s1] advances_trans [OF s1, of s']
    by (auto simp: pb_skip_varint.simps [of s] x [unfolded One_nat_def] split: if_splits)
qed

lemma reads_skip_field: "reads (pb_skip_field wire_type :: ('s pb_istream, unit) cop)"
proof -
  have "reads (pb_skip_varint :: ('s pb_istream, unit) cop)" unfolding reads_def using reads_skip_varint by blast
  moreover have "reads (pb_skip_string :: ('s pb_istream, unit) cop)" unfolding pb_skip_string_def
    by (rule reads_some_reads) (intro reads_bind reads_varint32 reads_null)
  ultimately show ?thesis by (simp add: pb_skip_field_def reads_null reads_error)
qed

text \<open>The substream of a string, and the stream behind it when it is closed.\<close>

lemma substream_open:
  assumes "stream_ok s" and "pb_make_string_substream s = (Some sub, s1)"
  shows "stream_ok sub" and "bytes_left sub + bytes_left s1 < bytes_left s" and "is_source sub = is_source s1"
    and "\<exists>buf pos pos1. is_source s = Buf_read buf pos \<and> is_source s1 = Buf_read buf pos1 \<and>
      pos1 + (bytes_left sub + bytes_left s1) = pos + bytes_left s"
proof -
  obtain len s0 where len: "pb_decode_varint32 s = (Some len, s0)" "\<not> bytes_left s0 < unat len"
    "sub = s0\<lparr>bytes_left := unat len\<rparr>" "s1 = s0\<lparr>bytes_left := bytes_left s0 - unat len\<rparr>"
    using assms(2) by (auto simp: pb_make_string_substream_def op_bind_Some_iff is_error_def split: if_splits)
  note s0 = reads_someD [OF reads_varint32 assms(1) len(1)]
  show "stream_ok sub" and "bytes_left sub + bytes_left s1 < bytes_left s" and "is_source sub = is_source s1"
    using s0 len(2-4) assms(1) by (auto simp: stream_ok_def advances_def)
  show "\<exists>buf pos pos1. is_source s = Buf_read buf pos \<and> is_source s1 = Buf_read buf pos1 \<and>
      pos1 + (bytes_left sub + bytes_left s1) = pos + bytes_left s"
    using s0 len(2-4) by (auto simp: advances_def)
qed

lemma substream_close:
  assumes "stream_ok s" and "pb_make_string_substream s = (Some sub, s1)" and "advances sub sub'"
    and "pb_close_string_substream sub' s1 = (Some u, s2)"
  shows "advances s s2" and "bytes_left s2 < bytes_left s"
proof -
  note o = substream_open [OF assms(1,2)]
  obtain sub2 where c: "(if bytes_left sub' \<noteq> 0 then pb_read_null (bytes_left sub') sub' else (Some (), sub')) = (Some (), sub2)"
    and s2: "s2 = s1\<lparr>is_source := is_source sub2, is_errmsg := is_errmsg sub2\<rparr>"
    using assms(4) by (auto simp: pb_close_string_substream_def split: prod.splits option.splits if_splits)
  have ok: "stream_ok sub'" using advances_ok [OF o(1) assms(3)] .
  have "advances sub' sub2" "bytes_left sub2 = 0"
    using c ok
    by (auto simp: pb_read_null_def is_buf_read_def stream_ok_def pb_read_limited_def op_then_apply op_ret_def is_error_def
        advances_def split: if_splits)
  then have a: "advances sub sub2" "bytes_left sub2 = 0" using advances_trans [OF assms(3)] by auto
  show "advances s s2" "bytes_left s2 < bytes_left s"
    using a o s2 by (auto simp: advances_def)
qed

section \<open>What an operation may change\<close>

definition same_outside :: "addr set \<Rightarrow> world \<Rightarrow> world \<Rightarrow> bool" where
  "same_outside A w w' \<longleftrightarrow> w_blocks w' = w_blocks w \<and> (\<forall>x. x \<notin> A \<longrightarrow> w_mem w' x = w_mem w x)"

lemma same_outside_refl [simp]: "same_outside A w w"
  by (simp add: same_outside_def)

lemma same_outside_trans [trans]: "same_outside A w w' \<Longrightarrow> same_outside A w' w'' \<Longrightarrow> same_outside A w w''"
  by (simp add: same_outside_def)

text \<open>The \<open>n\<close> addresses from \<open>p\<close> on.\<close>

definition span :: "addr \<Rightarrow> nat \<Rightarrow> addr set" where
  "span p n = {x. unat (x - p) < n}"

lemma span_mono: "m \<le> n \<Longrightarrow> span p m \<subseteq> span p n"
  by (auto simp: span_def)

lemma same_outside_put: "span p (length bs) \<subseteq> A \<Longrightarrow> same_outside A w (w_put p bs w)"
  by (auto simp: same_outside_def w_put_def mem_put_def span_def)

definition updates :: "addr set \<Rightarrow> (world \<Rightarrow> world option) \<Rightarrow> bool" where
  "updates A f \<longleftrightarrow> (\<forall>w. \<exists>w'. f w = Some w' \<and> same_outside A w w')"

lemma updates_mono: "updates A f \<Longrightarrow> A \<subseteq> B \<Longrightarrow> updates B f"
  unfolding updates_def same_outside_def by (meson subsetD)

lemma updatesE:
  assumes "updates A f"
  obtains w' where "f w = Some w'" "same_outside A w w'"
  using assms unfolding updates_def by blast

definition keeps :: "addr set \<Rightarrow> ('s, 'a) dop \<Rightarrow> bool" where
  "keeps A f \<longleftrightarrow>
     (\<forall>s w. stream_ok s \<longrightarrow>
        (\<exists>r s' w'. f (s, w) = Some (r, s', w') \<and> same_outside A w w' \<and> (r \<noteq> None \<longrightarrow> advances s s')))"

text \<open>An operation that takes a byte of the stream when it succeeds.\<close>

definition eats :: "('s, 'a) dop \<Rightarrow> bool" where
  "eats f \<longleftrightarrow> (\<forall>s w a s' w'. stream_ok s \<longrightarrow> f (s, w) = Some (Some a, s', w') \<longrightarrow> bytes_left s' < bytes_left s)"

lemma eatsD: "eats f \<Longrightarrow> stream_ok s \<Longrightarrow> f (s, w) = Some (Some a, s', w') \<Longrightarrow> bytes_left s' < bytes_left s"
  unfolding eats_def by blast

lemma keepsE:
  assumes "keeps A f" and "stream_ok s"
  obtains r s' w' where "f (s, w) = Some (r, s', w')" "same_outside A w w'" "r \<noteq> None \<Longrightarrow> advances s s'"
  using assms unfolding keeps_def by blast

named_theorems keep

lemma keeps_ret [keep]: "keeps A (d_ret a)"
  and keeps_false [keep]: "keeps A d_false"
  and keeps_error [keep]: "keeps A (d_error msg)"
  by (simp_all add: keeps_def d_ret_def d_false_def d_stream_def is_error_def)

lemma keeps_status [keep]: "keeps A (d_status r)"
  by (cases r) (auto simp: d_status_def keep)

lemma keeps_bind:
  assumes "keeps A f" and "\<And>a. keeps A (g a)"
  shows "keeps A (d_bind f g)"
  unfolding keeps_def
proof (intro allI impI)
  fix s :: "'a pb_istream" and w
  assume ok: "stream_ok s"
  from keepsE [OF assms(1) ok] obtain r s1 w1 where f: "f (s, w) = Some (r, s1, w1)"
    "same_outside A w w1" "r \<noteq> None \<Longrightarrow> advances s s1" by blast
  show "\<exists>r s' w'. d_bind f g (s, w) = Some (r, s', w') \<and> same_outside A w w' \<and> (r \<noteq> None \<longrightarrow> advances s s')"
  proof (cases r)
    case None
    with f show ?thesis by (simp add: d_bind_def)
  next
    case (Some a)
    with f(3) have a1: "advances s s1" by simp
    from keepsE [OF assms(2) advances_ok [OF ok a1]] obtain r' s2 w2 where g: "g a (s1, w1) = Some (r', s2, w2)"
      "same_outside A w1 w2" "r' \<noteq> None \<Longrightarrow> advances s1 s2" by blast
    with f(1,2) Some a1 show ?thesis
      using same_outside_trans advances_trans by (fastforce simp: d_bind_def)
  qed
qed

lemma keeps_then: "keeps A f \<Longrightarrow> keeps A g \<Longrightarrow> keeps A (d_then f g)"
  by (simp add: d_then_def keeps_bind)

lemma keeps_if: "(b \<Longrightarrow> keeps A f) \<Longrightarrow> (\<not> b \<Longrightarrow> keeps A g) \<Longrightarrow> keeps A (if b then f else g)"
  by simp

lemma keeps_world: "(\<And>w. keeps A (f w)) \<Longrightarrow> keeps A (d_world f)"
  by (simp add: keeps_def d_world_def)

lemma keeps_stream: "reads g \<Longrightarrow> keeps A (d_stream g)"
  by (fastforce simp: keeps_def d_stream_def reads_def split: prod.split)

lemma keeps_update:
  assumes "updates A f"
  shows "keeps A (d_update f)"
  unfolding keeps_def
proof (intro allI impI)
  fix s :: "'a pb_istream" and w :: world
  assume "stream_ok s"
  moreover obtain w' where "f w = Some w'" "same_outside A w w'" using updatesE [OF assms, of w] by blast
  ultimately show "\<exists>r s' w'. d_update f (s, w) = Some (r, s', w') \<and> same_outside A w w' \<and> (r \<noteq> None \<longrightarrow> advances s s')"
    by (simp add: d_update_def)
qed

lemma keeps_put: "span p (length bs) \<subseteq> A \<Longrightarrow> keeps A (d_put p bs)"
  by (rule keeps_update) (auto simp: updates_def intro: same_outside_put)

lemma keeps_read: "span p n \<subseteq> A \<Longrightarrow> keeps A (d_read p n)"
  unfolding keeps_def
proof (intro allI impI)
  fix s :: "'a pb_istream" and w
  assume p: "span p n \<subseteq> A" and ok: "stream_ok s"
  obtain r s1 where r: "pb_read n s = (r, s1)" by fastforce
  have l: "span p (length bs) \<subseteq> A" if "r = Some bs" for bs using p r that read_length [OF ok, of n bs s1] by simp
  with r ok show "\<exists>r s' w'. d_read p n (s, w) = Some (r, s', w') \<and> same_outside A w w' \<and> (r \<noteq> None \<longrightarrow> advances s s')"
    using readsD [OF reads_read ok]
    by (cases r) (auto simp: d_read_def d_bind_def d_stream_def d_update_def intro!: same_outside_put)
qed

lemma keeps_mono: "keeps A f \<Longrightarrow> A \<subseteq> B \<Longrightarrow> keeps B f"
  unfolding keeps_def same_outside_def by (meson subsetD)

lemma eats_bind:
  assumes "eats f" and "keeps A f" and "\<And>a. keeps A (g a)"
  shows "eats (d_bind f g)"
  unfolding eats_def
proof (intro allI impI)
  fix s :: "'a pb_istream" and w :: world and b s' w'
  assume ok: "stream_ok s" and d: "d_bind f g (s, w) = Some (Some b, s', w')"
  obtain a s1 w1 where f: "f (s, w) = Some (Some a, s1, w1)" and g: "g a (s1, w1) = Some (Some b, s', w')"
    using d by (auto simp: d_bind_def split: option.splits prod.splits)
  have a1: "advances s s1" using keepsE [OF assms(2) ok, where w = w] f by auto
  have "advances s1 s'" using keepsE [OF assms(3) [of a] advances_ok [OF ok a1], where w = w1] g by auto
  with eatsD [OF assms(1) ok f] show "bytes_left s' < bytes_left s" using advances_le by fastforce
qed

lemma eats_stream: "reads_some g \<Longrightarrow> eats (d_stream g)"
  unfolding eats_def d_stream_def by (auto split: prod.splits dest: reads_someD)

text \<open>A call on the substream of a string, after which the substream is closed or the call fails.\<close>

lemma keeps_substream:
  assumes "keeps A f" and "\<And>status sub'. k status sub' = d_close sub' status \<or> (\<exists>msg. k status sub' = d_error msg)"
  shows "keeps A (d_bind (d_stream pb_make_string_substream) (\<lambda>sub. d_bind (d_on sub f) (\<lambda>(status, sub'). k status sub')))"
    (is "keeps A ?f")
    and "eats (d_bind (d_stream pb_make_string_substream) (\<lambda>sub. d_bind (d_on sub f) (\<lambda>(status, sub'). k status sub')))"
proof -
  have *: "\<exists>r s' w'. ?f (s, w) = Some (r, s', w') \<and> same_outside A w w' \<and>
      (r \<noteq> None \<longrightarrow> advances s s' \<and> bytes_left s' < bytes_left s)" if ok: "stream_ok s" for s w
  proof (cases "pb_make_string_substream s")
    case (Pair m s1)
    show ?thesis
    proof (cases m)
      case None
      with Pair show ?thesis by (simp add: d_bind_def d_stream_def)
    next
      case (Some sub)
      with Pair have m: "pb_make_string_substream s = (Some sub, s1)" by simp
      from keepsE [OF assms(1) substream_open(1) [OF ok m]] obtain status sub' w1 where
        f: "f (sub, w) = Some (status, sub', w1)" "same_outside A w w1" "status \<noteq> None \<Longrightarrow> advances sub sub'" by blast
      have e: "?f (s, w) = k status sub' (s1, w1)" by (simp add: d_bind_def d_stream_def m d_on_def f(1))
      show ?thesis
      proof (cases "k status sub' = d_close sub' status")
        case True
        obtain c s2 where c: "pb_close_string_substream sub' s1 = (c, s2)" by fastforce
        then show ?thesis
          using e f(2) True substream_close [OF ok m f(3), of u s2 for u]
          by (cases c; cases status) (auto simp: d_close_def d_then_def d_bind_def d_stream_def d_status_def d_false_def d_ret_def)
      next
        case False
        then show ?thesis using e f(2) assms(2) [of status sub'] by (auto simp: d_stream_def is_error_def)
      qed
    qed
  qed
  then show "keeps A ?f" unfolding keeps_def by blast
  show "eats ?f"
    unfolding eats_def
  proof (intro allI impI)
    fix s w a s' w'
    assume "stream_ok s" and "?f (s, w) = Some (Some a, s', w')"
    with * [of s w] show "bytes_left s' < bytes_left s" by auto
  qed
qed

section \<open>Static entries\<close>

text \<open>The types whose decoder stores a fixed number of bytes have room for them.\<close>

definition static_entry :: "pb_field \<Rightarrow> bool" where
  "static_entry field \<longleftrightarrow>
     (let ltype = PB_LTYPE (pb_type field)
      in PB_ATYPE (pb_type field) = PB_ATYPE_STATIC \<and> ltype < PB_LTYPES_COUNT \<and> ltype \<noteq> PB_LTYPE_EXTENSION \<and>
         (ltype = PB_LTYPE_BOOL \<longrightarrow> 1 \<le> unat (data_size field)) \<and>
         (ltype = PB_LTYPE_FIXED32 \<longrightarrow> 4 \<le> unat (data_size field)) \<and>
         (ltype = PB_LTYPE_FIXED64 \<longrightarrow> 8 \<le> unat (data_size field)))"

lemma unat_add_nat:
  fixes y :: u64
  assumes "k + unat y < 2 ^ 64"
  shows "unat (word_of_nat k + y) = k + unat y"
  using assms by (simp add: unat_word_ariths(1) unat_of_nat)

lemma span_shift: "k + n \<le> 2 ^ 64 \<Longrightarrow> span (p + word_of_nat k) n \<subseteq> span p (k + n)"
proof
  fix x
  assume k: "k + n \<le> 2 ^ 64" and x: "x \<in> span (p + word_of_nat k) n"
  let ?y = "x - (p + word_of_nat k)"
  have y: "unat ?y < n" using x by (simp add: span_def)
  then have "k + unat ?y < 2 ^ 64" using k by simp
  from unat_add_nat [OF this] have "unat (x - p) = k + unat ?y" by simp
  then show "x \<in> span p (k + n)" using y by (simp add: span_def)
qed

lemma unat_u32_below: "unat (v :: u32) < 2 ^ 32"
  using unsigned_less [of v, where ?'a = nat] by simp

lemma store_lengths:
  "store_signed sz v = Some (bs, c) \<Longrightarrow> length bs = unat sz"
  "store_unsigned sz v = Some (bs, c) \<Longrightarrow> length bs = unat sz"
  by (auto simp: store_signed_def store_unsigned_def fixed64_def fixed32_def fixed16_def split: if_splits)

lemma keeps_dec_store:
  assumes "\<And>bs c. sv = Some (bs, c) \<Longrightarrow> length bs = unat sz"
  shows "keeps (span dest (unat sz)) (dec_store sv dest v)"
  using assms unfolding dec_store_def
  by (auto intro!: keeps_then keeps_put keep split: option.split)

lemma dec_scalars:
  fixes field :: pb_field and dest :: addr
  defines "A \<equiv> span dest (unat (data_size field))"
  shows "1 \<le> unat (data_size field) \<Longrightarrow> keeps A (pb_dec_bool field dest)"
    and "keeps A (pb_dec_varint field dest)"
    and "keeps A (pb_dec_uvarint field dest)"
    and "keeps A (pb_dec_svarint field dest)"
    and "4 \<le> unat (data_size field) \<Longrightarrow> keeps A (pb_dec_fixed32 field dest)"
    and "8 \<le> unat (data_size field) \<Longrightarrow> keeps A (pb_dec_fixed64 field dest)"
proof -
  note r = keeps_bind [OF keeps_stream [OF reads_some_reads]]
  show "keeps A (pb_dec_varint field dest)" "keeps A (pb_dec_uvarint field dest)" "keeps A (pb_dec_svarint field dest)"
    unfolding A_def pb_dec_varint_def pb_dec_uvarint_def pb_dec_svarint_def Let_def
    by (intro r reads_varint reads_svarint keeps_dec_store; erule store_lengths)+
  show "1 \<le> unat (data_size field) \<Longrightarrow> keeps A (pb_dec_bool field dest)"
    unfolding A_def pb_dec_bool_def by (intro r reads_varint32 keeps_put span_mono) simp
  show "4 \<le> unat (data_size field) \<Longrightarrow> keeps A (pb_dec_fixed32 field dest)"
    unfolding A_def pb_dec_fixed32_def by (intro r reads_fixed32 keeps_put span_mono) (simp add: fixed32_def)
  show "8 \<le> unat (data_size field) \<Longrightarrow> keeps A (pb_dec_fixed64 field dest)"
    unfolding A_def pb_dec_fixed64_def by (intro r reads_fixed64 keeps_put span_mono) (simp add: fixed64_def)
qed

lemma dec_eats:
  "eats (pb_dec_bool field dest)" "eats (pb_dec_varint field dest)" "eats (pb_dec_uvarint field dest)"
  "eats (pb_dec_svarint field dest)" "eats (pb_dec_fixed32 field dest)" "eats (pb_dec_fixed64 field dest)"
proof -
  note r = reads_varint reads_varint32 reads_svarint reads_fixed32 reads_fixed64
  have put: "keeps UNIV (d_put p bs)" for p bs by (rule keeps_put) simp
  have store: "keeps UNIV (dec_store sv p v)" for sv p v
    unfolding dec_store_def by (auto intro!: keeps_then put keep split: option.split)
  note eat = eats_bind [OF eats_stream keeps_stream [OF reads_some_reads]]
  show "eats (pb_dec_bool field dest)" unfolding pb_dec_bool_def by (rule eat [OF r(2) r(2)]) (rule put)
  show "eats (pb_dec_varint field dest)" unfolding pb_dec_varint_def Let_def by (rule eat [OF r(1) r(1)]) (rule store)
  show "eats (pb_dec_uvarint field dest)" unfolding pb_dec_uvarint_def by (rule eat [OF r(1) r(1)]) (rule store)
  show "eats (pb_dec_svarint field dest)" unfolding pb_dec_svarint_def by (rule eat [OF r(3) r(3)]) (rule store)
  show "eats (pb_dec_fixed32 field dest)" unfolding pb_dec_fixed32_def by (rule eat [OF r(4) r(4)]) (rule put)
  show "eats (pb_dec_fixed64 field dest)" unfolding pb_dec_fixed64_def by (rule eat [OF r(5) r(5)]) (rule put)
qed

lemma dec_bytes:
  assumes "PB_ATYPE (pb_type field) \<noteq> PB_ATYPE_POINTER"
  shows "keeps (span dest (unat (data_size field))) (pb_dec_bytes env field dest)"
  unfolding pb_dec_bytes_def
proof (rule keeps_bind [OF keeps_stream [OF reads_some_reads [OF reads_varint32]]])
  fix len :: u32
  have small: "size_add (unat len) 4 = unat len + 4"
    using unat_u32_below [of len] by (intro size_add_exact) simp
  have "keeps (span dest (unat (data_size field))) (d_then (d_put dest (fixed32 len)) (d_read (dest + 4) (unat len)))"
    if "unat len + 4 \<le> unat (data_size field)"
  proof -
    have "span (dest + 4) (unat len) \<subseteq> span dest (unat (data_size field))"
      using span_shift [of 4 "unat len" dest] span_mono [OF that, of dest] unat_u32_below [of len] by (simp add: add.commute)
    then show ?thesis using that by (intro keeps_then keeps_put keeps_read span_mono) (simp_all add: fixed32_def)
  qed
  then show "keeps (span dest (unat (data_size field)))
      (let alloc_size = size_add (unat len) 4;
           store = \<lambda>bdest. d_then (d_put bdest (fixed32 len)) (d_read (bdest + 4) (unat len))
       in if len > PB_SIZE_MAX then d_error ''bytes overflow''
          else if unat len > alloc_size then d_error ''size too large''
          else if PB_ATYPE (pb_type field) = PB_ATYPE_POINTER then
            d_then (allocate_field env dest alloc_size 1) (d_world (\<lambda>w. store (w_u64 w dest)))
          else if alloc_size > unat (data_size field) then d_error ''bytes overflow''
          else store dest)"
    using assms by (auto simp: small Let_def intro: keep)
qed

lemma keeps_put_status:
  assumes "keeps A f" and "span q (length bs) \<subseteq> A"
  shows "keeps A (\<lambda>st. case f st of None \<Rightarrow> None | Some (status, st') \<Rightarrow> d_then (d_put q bs) (d_status status) st')"
  unfolding keeps_def
proof (intro allI impI)
  fix s :: "'a pb_istream" and w :: world
  assume ok: "stream_ok s"
  from keepsE [OF assms(1) ok] obtain r s1 w1 where f: "f (s, w) = Some (r, s1, w1)"
    "same_outside A w w1" "r \<noteq> None \<Longrightarrow> advances s s1" by blast
  have "same_outside A w (w_put q bs w1)" using same_outside_trans [OF f(2) same_outside_put [OF assms(2)]] .
  with f show "\<exists>r s' w'. (case f (s, w) of None \<Rightarrow> None | Some (status, st') \<Rightarrow> d_then (d_put q bs) (d_status status) st') =
      Some (r, s', w') \<and> same_outside A w w' \<and> (r \<noteq> None \<longrightarrow> advances s s')"
    by (cases r) (auto simp: d_then_def d_bind_def d_update_def d_status_def d_false_def d_ret_def)
qed

lemma dec_string:
  assumes "PB_ATYPE (pb_type field) \<noteq> PB_ATYPE_POINTER"
  shows "keeps (span dest (unat (data_size field))) (pb_dec_string env field dest)"
  unfolding pb_dec_string_def
proof (rule keeps_bind [OF keeps_stream [OF reads_some_reads [OF reads_varint32]]])
  fix len :: u32
  let ?A = "span dest (unat (data_size field))"
  have "keeps ?A (\<lambda>st. case d_read dest (unat len) st of None \<Rightarrow> None
      | Some (status, st') \<Rightarrow> d_then (d_put (dest + ucast len) [0]) (d_status status) st')"
    if "\<not> len + 1 < len" "\<not> len + 1 > data_size field"
  proof -
    have "1 + len \<noteq> 0"
    proof
      assume "1 + len = 0"
      then have "len = - 1" by (simp add: eq_neg_iff_add_eq_0 add.commute)
      with that(1) show False by (simp add: word_gt_0)
    qed
    then have "unat (len + 1) = unat len + 1" using unatSuc [of len] by (simp add: add.commute)
    then have l: "unat len + 1 \<le> unat (data_size field)" using that(2) by (simp add: word_less_nat_alt)
    have "span (dest + ucast len) 1 \<subseteq> ?A"
      using span_shift [of "unat len" 1 dest] span_mono [OF l, of dest] unat_u32_below [of len] by simp
    then show ?thesis using l by (intro keeps_put_status keeps_read span_mono) simp_all
  qed
  then show "keeps ?A
      (let alloc_size = len + 1;
           store = \<lambda>p st. case d_read p (unat len) st of None \<Rightarrow> None
             | Some (status, st') \<Rightarrow> d_then (d_put (p + ucast len) [0]) (d_status status) st'
       in if alloc_size < len then d_error ''size too large''
          else if PB_ATYPE (pb_type field) = PB_ATYPE_POINTER then
            d_then (allocate_field env dest (unat alloc_size) 1) (d_world (\<lambda>w. store (w_u64 w dest)))
          else if alloc_size > data_size field then d_error ''string overflow''
          else store dest)"
    using assms by (auto simp: Let_def intro: keep)
qed

lemma dec_fixed_length_bytes: "keeps (span dest (unat (data_size field))) (pb_dec_fixed_length_bytes field dest)"
  unfolding pb_dec_fixed_length_bytes_def
  by (intro keeps_bind keeps_stream reads_some_reads reads_varint32 keeps_if keep keeps_put keeps_read) simp_all

section \<open>Where a message is stored\<close>

text \<open>The positions of an iterator from one on.\<close>

function visit_list :: "pb_field_iter \<Rightarrow> pb_field_iter list" where
  "visit_list iter = iter # (case pb_field_iter_next iter of (True, iter') \<Rightarrow> visit_list iter' | (False, _) \<Rightarrow> [])"
  by pat_completeness auto
termination
  by (relation "measure (\<lambda>iter. length (it_start iter) - it_pos iter)") (auto dest: iter_next_less)

declare visit_list.simps [simp del]

definition positions :: "pb_field list \<Rightarrow> addr \<Rightarrow> pb_field_iter set" where
  "positions fds dest = (case pb_field_iter_begin fds dest of (True, iter) \<Rightarrow> set (visit_list iter) | (False, _) \<Rightarrow> {})"

lemma visit_list_first: "iter \<in> set (visit_list iter)"
  by (simp add: visit_list.simps [of iter])

lemma visit_list_next:
  "iter' \<in> set (visit_list iter) \<Longrightarrow> pb_field_iter_next iter' = (True, iter'') \<Longrightarrow> iter'' \<in> set (visit_list iter)"
proof (induction iter rule: visit_list.induct)
  case (1 iter)
  obtain b it where n: "pb_field_iter_next iter = (b, it)" by fastforce
  show ?case
  proof (cases "iter' = iter")
    case True
    with 1 n have "b" "it = iter''" by auto
    then show ?thesis using n visit_list_first [of it] by (simp add: visit_list.simps [of iter])
  next
    case False
    with 1(2) n have b: "b" and i: "iter' \<in> set (visit_list it)"
      by (auto simp: visit_list.simps [of iter] split: bool.splits)
    have "iter'' \<in> set (visit_list it)" using 1(1) [OF n [symmetric]] b i 1(3) by simp
    then show ?thesis using n b by (simp add: visit_list.simps [of iter])
  qed
qed

lemma positions_begin: "pb_field_iter_begin fds dest = (True, iter) \<Longrightarrow> iter \<in> positions fds dest"
  by (simp add: positions_def visit_list_first)

lemma positions_next: "iter \<in> positions fds dest \<Longrightarrow> pb_field_iter_next iter = (True, iter') \<Longrightarrow> iter' \<in> positions fds dest"
  unfolding positions_def using visit_list_next by (auto split: prod.splits bool.splits)

lemma visit_list_entry: "at_entry fds iter \<Longrightarrow> iter' \<in> set (visit_list iter) \<Longrightarrow> at_entry fds iter'"
proof (induction iter rule: visit_list.induct)
  case (1 iter)
  obtain b it where n: "pb_field_iter_next iter = (b, it)" by fastforce
  show ?case
    using 1(1) [OF n [symmetric]] 1(2,3) n at_entry_next [OF 1(2), of it]
    by (auto simp: visit_list.simps [of iter] split: bool.splits)
qed

lemma positions_entry: "iter \<in> positions fds dest \<Longrightarrow> at_entry fds iter"
  using visit_list_entry at_entry_begin by (fastforce simp: positions_def split: prod.splits bool.splits)

lemma positions_field: "iter \<in> positions fds dest \<Longrightarrow> it_field iter \<in> set fds"
  by (rule at_entry_field [OF positions_entry])

text \<open>The addresses of an item of a field, where \<open>sub\<close> are those of a submessage, the items of a field, and the
  member with its count or flag.\<close>

definition item_area :: "(pb_field list \<Rightarrow> addr \<Rightarrow> addr set) \<Rightarrow> (addr \<Rightarrow> pb_field list) \<Rightarrow> pb_field \<Rightarrow> addr \<Rightarrow> addr set" where
  "item_area sub tables field p =
     span p (unat (data_size field)) \<union>
     (if PB_LTYPE (pb_type field) = PB_LTYPE_SUBMESSAGE then sub (tables (pf_ptr field)) p else {})"

definition data_area :: "(pb_field list \<Rightarrow> addr \<Rightarrow> addr set) \<Rightarrow> (addr \<Rightarrow> pb_field list) \<Rightarrow> pb_field_iter \<Rightarrow> addr set" where
  "data_area sub tables iter =
     (let field = it_field iter
      in if PB_HTYPE (pb_type field) = PB_HTYPE_REPEATED
         then (\<Union>i \<in> {i. i < array_size field}. item_area sub tables field (item_addr (it_pData iter) field i))
         else item_area sub tables field (it_pData iter))"

definition size_area :: "pb_field_iter \<Rightarrow> addr set" where
  "size_area iter =
     (let htype = PB_HTYPE (pb_type (it_field iter))
      in if htype = PB_HTYPE_REQUIRED then {}
         else if htype = PB_HTYPE_OPTIONAL then (if it_pSize iter \<noteq> it_pData iter then span (it_pSize iter) 1 else {})
         else span (it_pSize iter) 4)"

fun footprint :: "nat \<Rightarrow> (addr \<Rightarrow> pb_field list) \<Rightarrow> pb_field list \<Rightarrow> addr \<Rightarrow> addr set" where
  "footprint 0 tables fds dest = {}"
| "footprint (Suc n) tables fds dest =
     (\<Union>iter \<in> positions fds dest. data_area (footprint n tables) tables iter \<union> size_area iter)"

text \<open>Tables that have a first entry, have static entries only, and submessages nested at most \<open>n\<close> deep.\<close>

fun static_table :: "nat \<Rightarrow> (addr \<Rightarrow> pb_field list) \<Rightarrow> pb_field list \<Rightarrow> bool" where
  "static_table 0 tables fds = False"
| "static_table (Suc n) tables fds =
     (pf_tag (field_at fds 0) \<noteq> 0 \<and>
      (\<forall>field \<in> set fds. static_entry field \<and>
        (PB_LTYPE (pb_type field) = PB_LTYPE_SUBMESSAGE \<longrightarrow> pf_ptr field \<noteq> 0 \<and> static_table n tables (tables (pf_ptr field)))))"

text \<open>The counters of the activations.\<close>

definition counters :: "nat \<Rightarrow> 's dec_env \<Rightarrow> addr set" where
  "counters n env = (\<Union>m < n. span (dec_local env m) 4)"

lemma counters_mono: "n \<le> m \<Longrightarrow> counters n env \<subseteq> counters m env"
  unfolding counters_def by (intro UN_mono) auto

section \<open>Walks\<close>

lemma updates_each:
  assumes "\<And>iter. iter \<in> positions fds dest \<Longrightarrow> updates A (f iter)"
  shows "iter \<in> positions fds dest \<Longrightarrow> updates A (each_field f iter)"
proof (induction "length (it_start iter) - it_pos iter" arbitrary: iter rule: less_induct)
  case less
  obtain b iter' where n: "pb_field_iter_next iter = (b, iter')" by fastforce
  show ?case
    unfolding updates_def
  proof
    fix w
    obtain w1 where w1: "f iter w = Some w1" "same_outside A w w1" using updatesE [OF assms [OF less.prems]] by blast
    show "\<exists>w'. each_field f iter w = Some w' \<and> same_outside A w w'"
    proof (cases b)
      case True
      have "updates A (each_field f iter')"
        using less.hyps [of iter'] iter_next_less [OF n [symmetric]] positions_next [OF less.prems, of iter'] n True by simp
      then obtain w2 where "each_field f iter' w1 = Some w2" "same_outside A w1 w2" by (elim updatesE)
      then show ?thesis using n True w1 same_outside_trans by (auto simp: each_field.simps [of f iter])
    next
      case False
      then show ?thesis using n w1 by (simp add: each_field.simps [of f iter])
    qed
  qed
qed

lemma updates_put: "span p (length bs) \<subseteq> A \<Longrightarrow> updates A (\<lambda>w. Some (w_put p bs w))"
  by (auto simp: updates_def intro: same_outside_put)

lemma updates_put_then: "span p (length bs) \<subseteq> A \<Longrightarrow> updates A f \<Longrightarrow> updates A (\<lambda>w. f (w_put p bs w))"
  unfolding updates_def using same_outside_put same_outside_trans by blast

lemma length_fixed32 [simp]: "length (fixed32 v) = 4" and length_fixed64 [simp]: "length (fixed64 v') = 8"
  by (simp_all add: fixed32_def fixed64_def)

lemma updates_default:
  fixes iter :: pb_field_iter
  defines "field \<equiv> it_field iter"
  assumes "static_entry field"
    and msg: "PB_LTYPE (pb_type field) = PB_LTYPE_SUBMESSAGE \<Longrightarrow> pf_ptr field \<noteq> 0"
    and sub: "\<And>p. PB_LTYPE (pb_type field) = PB_LTYPE_SUBMESSAGE \<Longrightarrow> updates (sub (dec_fields env (pf_ptr field)) p) (msg (dec_fields env (pf_ptr field)) p)"
  shows "updates (data_area sub (dec_fields env) iter \<union> size_area iter) (pb_field_set_to_default (Suc n) msg env iter)"
    (is "updates ?A _")
proof -
  let ?t = "pb_type field" and ?pData = "it_pData iter" and ?pSize = "it_pSize iter"
  define init where "init = (\<lambda>w. if PB_LTYPE ?t = PB_LTYPE_SUBMESSAGE then
      (if pf_ptr field = 0 then None else msg (dec_fields env (pf_ptr field)) ?pData w)
    else if pf_ptr field \<noteq> 0
    then Some (w_put ?pData (mem_bytes (w_mem w) (pf_ptr field) (unat (data_size field))) w)
    else Some (w_put ?pData (replicate (unat (data_size field)) 0) w))"
  have set_default: "pb_field_set_to_default (Suc n) msg env iter = (\<lambda>w.
      if PB_HTYPE ?t = PB_HTYPE_OPTIONAL \<and> ?pSize \<noteq> ?pData then init (w_put ?pSize [0] w)
      else if PB_HTYPE ?t = PB_HTYPE_REPEATED \<or> PB_HTYPE ?t = PB_HTYPE_ONEOF then Some (w_put ?pSize (fixed32 0) w)
      else init w)"
    using assms(2) by (intro ext) (simp add: static_entry_def Let_def init_def field_def)
  have init: "updates ?A init" if "PB_HTYPE ?t \<noteq> PB_HTYPE_REPEATED"
  proof -
    have a: "item_area sub (dec_fields env) field ?pData \<subseteq> ?A"
      using that by (auto simp: data_area_def Let_def field_def)
    have "updates (item_area sub (dec_fields env) field ?pData) init"
    proof (cases "PB_LTYPE ?t = PB_LTYPE_SUBMESSAGE")
      case True
      then show ?thesis
        using msg sub by (auto simp: init_def item_area_def intro: updates_mono)
    next
      case False
      have "updates (span ?pData (unat (data_size field))) (\<lambda>w. Some (w_put ?pData (mem_bytes (w_mem w) (pf_ptr field) (unat (data_size field))) w))"
        by (auto simp: updates_def intro!: same_outside_put)
      with False show ?thesis
        by (cases "pf_ptr field = 0") (auto simp: init_def item_area_def intro!: updates_put)
    qed
    from updates_mono [OF this a] show ?thesis .
  qed
  have flag: "span ?pSize 1 \<subseteq> ?A" if "PB_HTYPE ?t = PB_HTYPE_OPTIONAL" "?pSize \<noteq> ?pData"
    using that by (auto simp: size_area_def Let_def field_def)
  have count: "span ?pSize 4 \<subseteq> ?A" if "PB_HTYPE ?t = PB_HTYPE_REPEATED \<or> PB_HTYPE ?t = PB_HTYPE_ONEOF"
    using that by (auto simp: size_area_def Let_def field_def)
  consider "PB_HTYPE ?t = PB_HTYPE_OPTIONAL \<and> ?pSize \<noteq> ?pData"
    | "\<not> (PB_HTYPE ?t = PB_HTYPE_OPTIONAL \<and> ?pSize \<noteq> ?pData)" "PB_HTYPE ?t = PB_HTYPE_REPEATED \<or> PB_HTYPE ?t = PB_HTYPE_ONEOF"
    | "\<not> (PB_HTYPE ?t = PB_HTYPE_OPTIONAL \<and> ?pSize \<noteq> ?pData)" "\<not> (PB_HTYPE ?t = PB_HTYPE_REPEATED \<or> PB_HTYPE ?t = PB_HTYPE_ONEOF)"
    by blast
  then show ?thesis
  proof cases
    case 1
    then have "updates ?A (\<lambda>w. init (w_put ?pSize [0] w))" using init flag by (intro updates_put_then) auto
    with 1 show ?thesis unfolding set_default by simp
  next
    case 2
    then have "updates ?A (\<lambda>w. Some (w_put ?pSize (fixed32 0) w))" using count by (intro updates_put) simp
    with 2 show ?thesis unfolding set_default by (simp only: if_False if_True)
  next
    case 3
    then show ?thesis using init unfolding set_default by (simp only: if_False) auto
  qed
qed

lemma static_entryD:
  assumes "static_table (Suc n) tables fds" and "field \<in> set fds"
  shows "static_entry field" and "PB_LTYPE (pb_type field) = PB_LTYPE_SUBMESSAGE \<Longrightarrow> pf_ptr field \<noteq> 0"
    and "PB_LTYPE (pb_type field) = PB_LTYPE_SUBMESSAGE \<Longrightarrow> static_table n tables (tables (pf_ptr field))"
  using assms by auto

lemma updates_defaults:
  "static_table n (dec_fields env) fds \<Longrightarrow> n \<le> m \<Longrightarrow>
    updates (footprint n (dec_fields env) fds dest) (pb_message_set_to_defaults m env fds dest)"
proof (induction n arbitrary: m fds dest)
  case 0
  then show ?case by simp
next
  case (Suc n)
  then obtain m' where m: "m = Suc m'" "n \<le> m'" by (auto dest: Suc_le_D)
  have each: "updates (footprint (Suc n) (dec_fields env) fds dest)
      (pb_field_set_to_default (Suc m') (pb_message_set_to_defaults m' env) env iter)" if i: "iter \<in> positions fds dest" for iter
  proof -
    note e = static_entryD [OF Suc.prems(1) positions_field [OF i]]
    have "data_area (footprint n (dec_fields env)) (dec_fields env) iter \<union> size_area iter \<subseteq> footprint (Suc n) (dec_fields env) fds dest"
      using i by auto
    then show ?thesis
      by (rule updates_mono [rotated], intro updates_default e Suc.IH m(2))
  qed
  have "updates (footprint (Suc n) (dec_fields env) fds dest)
      (each_field (pb_field_set_to_default (Suc m') (pb_message_set_to_defaults m' env) env) iter)"
    if "pb_field_iter_begin fds dest = (True, iter)" for iter
    using updates_each [of fds dest, OF each positions_begin [OF that]] .
  then show ?case
    unfolding m(1) by (auto simp: updates_def split: prod.split bool.split)
qed

text \<open>There is nothing to release in a static struct.\<close>

lemma release_items_same: "(\<And>p. f p w = Some w) \<Longrightarrow> release_items f count p step w = Some w"
  by (induction count arbitrary: p) auto

lemma release_field_same:
  assumes "static_entry (it_field iter)"
    and "PB_LTYPE (pb_type (it_field iter)) = PB_LTYPE_SUBMESSAGE \<Longrightarrow> pf_ptr (it_field iter) \<noteq> 0"
    and "\<And>p. PB_LTYPE (pb_type (it_field iter)) = PB_LTYPE_SUBMESSAGE \<Longrightarrow>
      msg (dec_fields env (pf_ptr (it_field iter))) p w = Some w"
  shows "pb_release_single_field (Suc n) msg env iter w = Some w"
proof -
  have "release_submessages msg env iter w = Some w" if "PB_LTYPE (pb_type (it_field iter)) = PB_LTYPE_SUBMESSAGE"
    using assms(2,3) [OF that] by (simp add: release_submessages_def Let_def release_items_same)
  with assms(1) show ?thesis by (auto simp: static_entry_def Let_def)
qed

lemma each_same:
  assumes "\<And>iter. iter \<in> positions fds dest \<Longrightarrow> f iter w = Some w"
  shows "iter \<in> positions fds dest \<Longrightarrow> each_field f iter w = Some w"
proof (induction "length (it_start iter) - it_pos iter" arbitrary: iter rule: less_induct)
  case less
  obtain b iter' where n: "pb_field_iter_next iter = (b, iter')" by fastforce
  show ?case
    using assms [OF less.prems] less.hyps [of iter'] iter_next_less [OF n [symmetric]] positions_next [OF less.prems, of iter'] n
    by (auto simp: each_field.simps [of f iter] split: bool.split)
qed

lemma release_same: "static_table n (dec_fields env) fds \<Longrightarrow> n \<le> m \<Longrightarrow> pb_release m env fds dest w = Some w"
proof (induction n arbitrary: m fds dest)
  case 0
  then show ?case by simp
next
  case (Suc n)
  then obtain m' where m: "m = Suc m'" "n \<le> m'" by (auto dest: Suc_le_D)
  have each: "pb_release_single_field (Suc m') (pb_release m' env) env iter w = Some w" if "iter \<in> positions fds dest" for iter
    using static_entryD [OF Suc.prems(1) positions_field [OF that]] Suc.IH m(2) by (intro release_field_same) simp_all
  from each_same [of fds dest "pb_release_single_field (Suc m') (pb_release m' env) env" w, OF each] positions_begin
  show ?case unfolding m(1) by (auto split: prod.split bool.split)
qed

section \<open>Fields\<close>

text \<open>What is known of the calls for the submessages of an entry, within the bound.\<close>

definition subs_keep ::
  "addr set \<Rightarrow> (pb_field list \<Rightarrow> addr \<Rightarrow> addr set) \<Rightarrow> 's dec_env \<Rightarrow> (pb_field list \<Rightarrow> addr \<Rightarrow> ('s, unit) dop) \<Rightarrow>
     (pb_field list \<Rightarrow> addr \<Rightarrow> ('s, unit) dop) \<Rightarrow> pb_field \<Rightarrow> bool" where
  "subs_keep C sub env decode noinit field \<longleftrightarrow>
     (PB_LTYPE (pb_type field) = PB_LTYPE_SUBMESSAGE \<longrightarrow>
        pf_ptr field \<noteq> 0 \<and>
        (\<forall>p. keeps (sub (dec_fields env (pf_ptr field)) p \<union> C) (decode (dec_fields env (pf_ptr field)) p) \<and>
             keeps (sub (dec_fields env (pf_ptr field)) p \<union> C) (noinit (dec_fields env (pf_ptr field)) p)))"

lemma keeps_decoder:
  assumes "static_entry field" and "subs_keep C sub env decode noinit field"
  shows "keeps (item_area sub (dec_fields env) field p \<union> C) (PB_DECODERS decode noinit env (PB_LTYPE (pb_type field)) field p)"
proof -
  let ?l = "PB_LTYPE (pb_type field)" and ?S = "span p (unat (data_size field))"
  have S: "?S \<subseteq> item_area sub (dec_fields env) field p \<union> C" by (auto simp: item_area_def)
  have st: "PB_ATYPE (pb_type field) \<noteq> PB_ATYPE_POINTER" using assms(1) by (auto simp: static_entry_def Let_def)
  have sub: "keeps (item_area sub (dec_fields env) field p \<union> C) (pb_dec_submessage decode noinit env field p)"
    if "?l = PB_LTYPE_SUBMESSAGE"
  proof -
    have "keeps (item_area sub (dec_fields env) field p \<union> C)
        ((if PB_HTYPE (pb_type field) = PB_HTYPE_REPEATED then decode else noinit) (dec_fields env (pf_ptr field)) p)"
      using assms(2) that by (auto simp: subs_keep_def item_area_def intro: keeps_mono)
    from keeps_substream(1) [OF this, of "\<lambda>status sub'. d_close sub' status"] show ?thesis
      using assms(2) that by (simp add: subs_keep_def pb_dec_submessage_def)
  qed
  have scalar: "keeps ?S (PB_DECODERS decode noinit env ?l field p)" if "?l \<noteq> PB_LTYPE_SUBMESSAGE"
    using itype_cases [of ?l] assms(1) that
    by (auto simp: PB_DECODERS_def static_entry_def Let_def dec_scalars dec_bytes [OF st] dec_string [OF st]
        dec_fixed_length_bytes)
  show ?thesis
  proof (cases "?l = PB_LTYPE_SUBMESSAGE")
    case True
    with sub show ?thesis by (simp add: PB_DECODERS_def)
  next
    case False
    from keeps_mono [OF scalar [OF this] S] show ?thesis .
  qed
qed

lemma eats_undef: "eats d_undef"
  by (simp add: eats_def d_undef_def)

lemma eats_decoder:
  assumes "ltype \<le> PB_LTYPE_LAST_PACKABLE"
  shows "eats (PB_DECODERS decode noinit env ltype field p)"
proof -
  have "unat ltype \<le> 5" using assms by (simp add: word_le_nat_alt)
  then have "ltype \<noteq> 6" "ltype \<noteq> 7" "ltype \<noteq> 8" "ltype \<noteq> 10" by auto
  then show ?thesis by (simp add: PB_DECODERS_def dec_eats eats_undef)
qed

lemma static_packed_keeps:
  assumes func: "\<And>i. i < array_size (it_field iter) \<Longrightarrow> keeps A (func (item_addr (it_pData iter) (it_field iter) i))"
    and eats: "\<And>p. eats (func p)" and size: "span (it_pSize iter) 4 \<subseteq> A"
  shows "keeps A (static_packed func iter)"
  unfolding keeps_def
proof (intro allI impI)
  fix s :: "'a pb_istream" and w :: world
  show "stream_ok s \<Longrightarrow> \<exists>r s' w'. static_packed func iter (s, w) = Some (r, s', w') \<and> same_outside A w w' \<and>
      (r \<noteq> None \<longrightarrow> advances s s')"
  proof (induction "bytes_left s" arbitrary: s w rule: less_induct)
    case less
    let ?i = "w_u32 w (it_pSize iter)"
    show ?case
    proof (cases "bytes_left s > 0 \<and> ?i < array_size (it_field iter)")
      case False
      then show ?thesis using less.prems by (auto simp: static_packed.simps [of func iter "(s, w)"] Let_def)
    next
      case True
      from keepsE [OF func less.prems] True obtain r s1 w1 where
        f: "func (item_addr (it_pData iter) (it_field iter) ?i) (s, w) = Some (r, s1, w1)"
        "same_outside A w w1" "r \<noteq> None \<Longrightarrow> advances s s1" by blast
      show ?thesis
      proof (cases r)
        case None
        with f True show ?thesis by (simp add: static_packed.simps [of func iter "(s, w)"] Let_def)
      next
        case (Some u)
        let ?w2 = "w_put (it_pSize iter) (fixed32 (w_u32 w1 (it_pSize iter) + 1)) w1"
        have a: "advances s s1" and lt: "bytes_left s1 < bytes_left s"
          using f eatsD [OF eats less.prems f(1) [unfolded Some]] Some by simp_all
        have w2: "same_outside A w ?w2" using same_outside_trans [OF f(2) same_outside_put] size by simp
        from less.hyps [OF lt advances_ok [OF less.prems a], of ?w2] obtain r' s' w' where
          "static_packed func iter (s1, ?w2) = Some (r', s', w')" "same_outside A ?w2 w'" "r' \<noteq> None \<longrightarrow> advances s1 s'" by blast
        with f(1) True lt Some show ?thesis
          using same_outside_trans [OF w2] advances_trans [OF a]
          by (auto simp: static_packed.simps [of func iter "(s, w)"] Let_def)
      qed
    qed
  qed
qed

text \<open>A position of the iterator, at which \<open>pSize\<close> may have been set to the counter.\<close>

definition placed :: "pb_field list \<Rightarrow> addr \<Rightarrow> addr \<Rightarrow> pb_field_iter \<Rightarrow> bool" where
  "placed fds dest count iter \<longleftrightarrow>
     iter \<in> positions fds dest \<or>
     (\<exists>it \<in> positions fds dest. PB_HTYPE (pb_type (it_field it)) = PB_HTYPE_REPEATED \<and> iter = it\<lparr>it_pSize := count\<rparr>)"

lemma it_field_pSize [simp]: "it_field (it\<lparr>it_pSize := c\<rparr>) = it_field it"
  by (simp add: it_field_def)

lemma placed_entry: "placed fds dest count iter \<Longrightarrow> it_field iter \<in> set fds"
  using positions_field by (auto simp: placed_def)

lemma placed_area:
  assumes "placed fds dest count iter"
  shows "data_area (footprint n tables) tables iter \<union> size_area iter \<subseteq> footprint (Suc n) tables fds dest \<union> span count 4"
  using assms unfolding placed_def
proof
  assume "\<exists>it \<in> positions fds dest. PB_HTYPE (pb_type (it_field it)) = PB_HTYPE_REPEATED \<and> iter = it\<lparr>it_pSize := count\<rparr>"
  then obtain it where it: "it \<in> positions fds dest" "PB_HTYPE (pb_type (it_field it)) = PB_HTYPE_REPEATED" "iter = it\<lparr>it_pSize := count\<rparr>"
    by blast
  then have "data_area (footprint n tables) tables iter = data_area (footprint n tables) tables it" "size_area iter = span count 4"
    by (simp_all add: data_area_def size_area_def Let_def)
  with it(1) show ?thesis by auto
qed auto

lemma positions_start: "iter \<in> positions fds dest \<Longrightarrow> it_start iter = fds"
  using positions_entry by (fastforce simp: at_entry_def)

lemma visit_list_dest: "iter' \<in> set (visit_list iter) \<Longrightarrow> dest_struct iter' = dest_struct iter"
proof (induction iter rule: visit_list.induct)
  case (1 iter)
  obtain b it where n: "pb_field_iter_next iter = (b, it)" by fastforce
  show ?case
  proof (cases b)
    case True
    with n have "dest_struct it = dest_struct iter" using iter_next_True [of iter it] by simp
    then show ?thesis using 1(1) [OF n [symmetric]] 1(2) n True by (auto simp: visit_list.simps [of iter])
  next
    case False
    then show ?thesis using 1(2) n by (simp add: visit_list.simps [of iter])
  qed
qed

lemma positions_dest: "iter \<in> positions fds dest \<Longrightarrow> dest_struct iter = dest"
  by (auto simp: positions_def pb_field_iter_begin_def Let_def dest!: visit_list_dest split: if_splits bool.splits)

lemma visit_list_tag:
  "pf_tag (it_field iter) \<noteq> 0 \<Longrightarrow> iter' \<in> set (visit_list iter) \<Longrightarrow> pf_tag (it_field iter') \<noteq> 0"
proof (induction iter rule: visit_list.induct)
  case (1 iter)
  obtain b it where n: "pb_field_iter_next iter = (b, it)" by fastforce
  show ?case
  proof (cases b)
    case True
    with n have "pf_tag (it_field it) \<noteq> 0" using iter_next_True [of iter it] by simp
    then show ?thesis using 1(1) [OF n [symmetric]] 1(2,3) n True by (auto simp: visit_list.simps [of iter])
  next
    case False
    then show ?thesis using 1(2,3) n by (simp add: visit_list.simps [of iter])
  qed
qed

lemma positions_tag: "iter \<in> positions fds dest \<Longrightarrow> pf_tag (it_field iter) \<noteq> 0"
  using visit_list_tag [of "snd (pb_field_iter_begin fds dest)" iter]
  by (auto simp: positions_def pb_field_iter_begin_def it_field_def Let_def split: if_splits bool.splits)

lemma next_counter:
  assumes "PB_HTYPE (pb_type (it_field it)) = PB_HTYPE_REPEATED"
  shows "pb_field_iter_next (it\<lparr>it_pSize := c\<rparr>) = pb_field_iter_next it \<or> pf_tag (it_field it) = 0"
proof -
  have "it_field (it\<lparr>it_pSize := c\<rparr>) = it_field it" by simp
  then show ?thesis using assms by (simp add: pb_field_iter_next_def Let_def)
qed

lemma placed_next:
  assumes "placed fds dest count iter" and "pf_tag (field_at fds 0) \<noteq> 0"
  shows "placed fds dest count (snd (pb_field_iter_next iter))"
proof -
  have pos: "snd (pb_field_iter_next it) \<in> positions fds dest" if it: "it \<in> positions fds dest" for it
  proof (cases "pb_field_iter_next it")
    case (Pair b it')
    show ?thesis
    proof (cases b)
      case True
      with Pair positions_next [OF it] show ?thesis by simp
    next
      case False
      with Pair iter_next_False(1) [of it it'] positions_tag [OF it]
      have "it' = snd (pb_field_iter_begin fds dest)" by (simp add: positions_start [OF it] positions_dest [OF it])
      moreover have "pb_field_iter_begin fds dest = (True, snd (pb_field_iter_begin fds dest))"
        using assms(2) by (simp add: pb_field_iter_begin_def Let_def)
      ultimately show ?thesis using Pair positions_begin by simp
    qed
  qed
  from assms(1) show ?thesis
    unfolding placed_def [of fds dest count iter]
  proof
    assume "\<exists>it \<in> positions fds dest. PB_HTYPE (pb_type (it_field it)) = PB_HTYPE_REPEATED \<and> iter = it\<lparr>it_pSize := count\<rparr>"
    then obtain it where "it \<in> positions fds dest" "PB_HTYPE (pb_type (it_field it)) = PB_HTYPE_REPEATED" "iter = it\<lparr>it_pSize := count\<rparr>"
      by blast
    with pos [of it] next_counter [of it count] positions_tag [of it] show ?thesis by (auto simp: placed_def)
  qed (auto simp: placed_def pos)
qed

lemma placed_find:
  "placed fds dest count iter \<Longrightarrow> pf_tag (field_at fds 0) \<noteq> 0 \<Longrightarrow> find_loop n start wanted iter = (b, iter') \<Longrightarrow>
    placed fds dest count iter'"
proof (induction n arbitrary: iter)
  case (Suc n)
  show ?case
    using Suc.IH [OF placed_next [OF Suc.prems(1,2)] Suc.prems(2)] placed_next [OF Suc.prems(1,2)] Suc.prems(1,3)
    by (auto simp: Let_def split: if_splits)
qed simp

lemma find_none:
  "(\<And>field. field \<in> set fds \<Longrightarrow> \<not> wanted field) \<Longrightarrow> placed fds dest count iter \<Longrightarrow>
    pf_tag (field_at fds 0) \<noteq> 0 \<Longrightarrow> \<not> fst (find_loop n start wanted iter)"
proof (induction n arbitrary: iter)
  case (Suc n)
  show ?case
    using Suc.IH [OF Suc.prems(1) placed_next [OF Suc.prems(2,3)] Suc.prems(3)] Suc.prems(1) [OF placed_entry [OF Suc.prems(2)]]
    by (auto simp: Let_def)
qed simp

lemma static_field_keeps:
  fixes iter :: pb_field_iter
  defines "field \<equiv> it_field iter"
  assumes e: "static_entry field" and subs: "subs_keep C sub env decode noinit field"
    and msg: "\<And>p. PB_LTYPE (pb_type field) = PB_LTYPE_SUBMESSAGE \<Longrightarrow>
      updates (sub (dec_fields env (pf_ptr field)) p) (msg (dec_fields env (pf_ptr field)) p)"
    and A: "data_area sub (dec_fields env) iter \<union> size_area iter \<union> C \<subseteq> A"
  shows "keeps A (decode_static_field msg (PB_DECODERS decode noinit env) env wire_type iter)"
proof -
  let ?t = "pb_type field" and ?func = "PB_DECODERS decode noinit env (PB_LTYPE (pb_type field)) field"
  note dec = keeps_decoder [OF e subs]
  have small: "\<not> PB_LTYPES_COUNT \<le> PB_LTYPE ?t" using e by (auto simp: static_entry_def Let_def dest: leD)
  have one: "keeps A (?func (it_pData iter))" "item_area sub (dec_fields env) field (it_pData iter) \<subseteq> A"
    if "PB_HTYPE ?t \<noteq> PB_HTYPE_REPEATED"
  proof -
    show a: "item_area sub (dec_fields env) field (it_pData iter) \<subseteq> A"
      using A that by (auto simp: data_area_def Let_def field_def)
    with A show "keeps A (?func (it_pData iter))" by (intro keeps_mono [OF dec]) auto
  qed
  have item: "keeps A (?func (item_addr (it_pData iter) field i))"
    if "PB_HTYPE ?t = PB_HTYPE_REPEATED" "i < array_size field" for i
  proof -
    have "item_area sub (dec_fields env) field (item_addr (it_pData iter) field i) \<subseteq> A"
      using A that by (auto simp: data_area_def Let_def field_def)
    with A show ?thesis by (intro keeps_mono [OF dec]) auto
  qed
  have count: "span (it_pSize iter) 4 \<subseteq> A" if "PB_HTYPE ?t \<noteq> PB_HTYPE_REQUIRED" "PB_HTYPE ?t \<noteq> PB_HTYPE_OPTIONAL"
    using A that by (auto simp: size_area_def Let_def field_def)
  have flag: "span (it_pSize iter) (Suc 0) \<subseteq> A" if "PB_HTYPE ?t = PB_HTYPE_OPTIONAL" "it_pSize iter \<noteq> it_pData iter"
    using A that by (auto simp: size_area_def Let_def field_def)
  have packed: "keeps A (d_bind (d_stream pb_make_string_substream) (\<lambda>sub. d_bind (d_on sub (static_packed ?func iter))
      (\<lambda>(status, sub'). if bytes_left sub' \<noteq> 0 then d_error ''array overflow'' else d_close sub' status)))"
    if r: "PB_HTYPE ?t = PB_HTYPE_REPEATED" and "PB_LTYPE ?t \<le> PB_LTYPE_LAST_PACKABLE"
  proof (rule keeps_substream(1) [of A "static_packed ?func iter"
        "\<lambda>status sub'. if bytes_left sub' \<noteq> 0 then d_error ''array overflow'' else d_close sub' status"])
    show "keeps A (static_packed ?func iter)"
      using item [OF r] eats_decoder [OF that(2)] count r by (intro static_packed_keeps) (simp_all add: field_def)
  qed auto
  have union: "keeps A (d_then (d_put (it_pData iter) (replicate (unat (data_size field)) 0))
      (d_update (\<lambda>w. if pf_ptr field = 0 then None else msg (dec_fields env (pf_ptr field)) (it_pData iter) w)))"
    if "PB_LTYPE ?t = PB_LTYPE_SUBMESSAGE" "PB_HTYPE ?t \<noteq> PB_HTYPE_REPEATED"
  proof (rule keeps_then)
    show "keeps A (d_put (it_pData iter) (replicate (unat (data_size field)) 0))"
      using one(2) [OF that(2)] by (intro keeps_put) (auto simp: item_area_def)
    have "sub (dec_fields env (pf_ptr field)) (it_pData iter) \<subseteq> A" using one(2) [OF that(2)] that(1) by (auto simp: item_area_def)
    from updates_mono [OF msg [OF that(1)] this]
    show "keeps A (d_update (\<lambda>w. if pf_ptr field = 0 then None else msg (dec_fields env (pf_ptr field)) (it_pData iter) w))"
      using subs that(1) by (intro keeps_update) (simp add: subs_keep_def)
  qed
  show ?thesis
    unfolding decode_static_field_def Let_def field_def [symmetric] if_not_P [OF small]
    by (intro keeps_if keeps_then keeps_world keeps_put keep one(1) packed union; simp add: count flag item not_le)
qed

definition results :: "('a \<Rightarrow> bool) \<Rightarrow> ('s, 'a) dop \<Rightarrow> bool" where
  "results Q f \<longleftrightarrow> (\<forall>s w a s' w'. stream_ok s \<longrightarrow> f (s, w) = Some (Some a, s', w') \<longrightarrow> Q a)"

lemma resultsD: "results Q f \<Longrightarrow> stream_ok s \<Longrightarrow> f (s, w) = Some (Some a, s', w') \<Longrightarrow> Q a"
  unfolding results_def by blast

lemma keeps_bind_when:
  assumes "keeps A f" and "results Q f" and "\<And>a. Q a \<Longrightarrow> keeps A (g a)"
  shows "keeps A (d_bind f g)"
proof -
  have "keeps A (d_bind f (\<lambda>a. if Q a then g a else d_false))"
    using assms by (intro keeps_bind) (auto intro: keep)
  moreover have "d_bind f (\<lambda>a. if Q a then g a else d_false) (s, w) = d_bind f g (s, w)" if "stream_ok s" for s w
    using resultsD [OF assms(2) that] by (auto simp: d_bind_def split: option.split prod.split)
  ultimately show ?thesis by (simp add: keeps_def)
qed

lemma results_bind:
  assumes "keeps A f" and "results Q f" and "\<And>a. Q a \<Longrightarrow> results R (g a)"
  shows "results R (d_bind f g)"
  unfolding results_def
proof (intro allI impI)
  fix s :: "'a pb_istream" and w b s' w'
  assume ok: "stream_ok s" and d: "d_bind f g (s, w) = Some (Some b, s', w')"
  obtain a s1 w1 where f: "f (s, w) = Some (Some a, s1, w1)" and g: "g a (s1, w1) = Some (Some b, s', w')"
    using d by (auto simp: d_bind_def split: option.splits prod.splits)
  have "advances s s1" using keepsE [OF assms(1) ok, where w = w] f by auto
  from resultsD [OF assms(3) [OF resultsD [OF assms(2) ok f]] advances_ok [OF ok this] g] show "R b" .
qed

lemma results_then: "keeps A f \<Longrightarrow> results R g \<Longrightarrow> results R (d_then f g)"
  unfolding d_then_def by (rule results_bind [where Q = "\<lambda>_. True"]) (simp_all add: results_def)

lemma results_ret: "Q a \<Longrightarrow> results Q (d_ret a)"
  and results_error: "results Q (d_error msg)"
  by (simp_all add: results_def d_ret_def d_stream_def is_error_def)

lemma results_world: "(\<And>w. results Q (f w)) \<Longrightarrow> results Q (d_world f)"
  by (simp add: results_def d_world_def)

lemma results_if: "(b \<Longrightarrow> results Q f) \<Longrightarrow> (\<not> b \<Longrightarrow> results Q g) \<Longrightarrow> results Q (if b then f else g)"
  by simp

lemma union_field_keeps:
  fixes env :: "'s dec_env"
  assumes "static_table (Suc n) (dec_fields env) fds" and i: "placed fds dest count iter"
  shows "keeps A (pb_release_union_field (Suc n) env iter)" and "results (placed fds dest count) (pb_release_union_field (Suc n) env iter)"
proof -
  have t0: "pf_tag (field_at fds 0) \<noteq> 0" using assms(1) by simp
  have find: "placed fds dest count it'" if "placed fds dest count it" "pb_field_iter_find it t = (b, it')" for it t b it'
    using placed_find [OF that(1) t0 that(2) [unfolded pb_field_iter_find_def]] .
  have same: "pb_release_single_field (Suc n) (pb_release (Suc n) env) env it w = Some w" if "placed fds dest count it" for it w
    using static_entryD [OF assms(1) placed_entry [OF that]] by (intro release_field_same) (simp_all add: release_same del: pb_release.simps)
  then have rel: "keeps A (d_update (pb_release_single_field (Suc n) (pb_release (Suc n) env) env it))" if "placed fds dest count it" for it
    using that by (intro keeps_update) (simp add: updates_def del: pb_release_single_field.simps)
  define again :: "u32 \<Rightarrow> pb_field_iter \<Rightarrow> ('s, pb_field_iter) dop" where "again t it = (case pb_field_iter_find it t of
      (False, _) \<Rightarrow> d_error ''iterator error'' | (True, iter2) \<Rightarrow> d_ret iter2)" for t it
  have again: "keeps A (again t it)" "results (placed fds dest count) (again t it)" if "placed fds dest count it" for t it
    using find [OF that] by (auto simp: again_def intro: keep results_error results_ret split: prod.split bool.split)
  define switch :: "u32 \<Rightarrow> u32 \<Rightarrow> ('s, pb_field_iter) dop" where "switch old new = (case pb_field_iter_find iter old of
      (False, _) \<Rightarrow> d_error ''invalid union tag''
    | (True, iter1) \<Rightarrow> d_then (d_update (pb_release_single_field (Suc n) (pb_release (Suc n) env) env iter1)) (again new iter1))"
    for old new
  have switch: "keeps A (switch old new)" "results (placed fds dest count) (switch old new)" for old new
    using find [OF i] again unfolding switch_def
    by (auto intro!: keeps_then keep rel results_error results_then split: prod.split bool.split simp del: pb_release_single_field.simps)
  have u: "pb_release_union_field (Suc n) env iter = d_world (\<lambda>w.
      if w_u32 w (it_pSize iter) = 0 \<or> w_u32 w (it_pSize iter) = pf_tag (it_field iter) then d_ret iter
      else switch (w_u32 w (it_pSize iter)) (pf_tag (it_field iter)))"
    by (simp only: pb_release_union_field_def Let_def switch_def again_def)
  show "keeps A (pb_release_union_field (Suc n) env iter)"
    unfolding u by (intro keeps_world keeps_if keep switch)
  show "results (placed fds dest count) (pb_release_union_field (Suc n) env iter)"
    unfolding u by (intro results_world results_if results_ret i switch)
qed

text \<open>The context of a message: its table, the calls for its submessages, and its counter.\<close>

definition message_ok ::
  "nat \<Rightarrow> addr set \<Rightarrow> 's dec_env \<Rightarrow> (pb_field list \<Rightarrow> addr \<Rightarrow> ('s, unit) dop) \<Rightarrow> (pb_field list \<Rightarrow> addr \<Rightarrow> ('s, unit) dop) \<Rightarrow>
     pb_field list \<Rightarrow> addr \<Rightarrow> addr \<Rightarrow> addr set \<Rightarrow> bool" where
  "message_ok n C env decode noinit fds dest count A \<longleftrightarrow>
     static_table (Suc n) (dec_fields env) fds \<and>
     (\<forall>field \<in> set fds. subs_keep C (footprint n (dec_fields env)) env decode noinit field) \<and>
     footprint (Suc n) (dec_fields env) fds dest \<union> span count 4 \<union> C \<subseteq> A"

lemma decode_field_keeps:
  assumes ok: "message_ok n C env decode noinit fds dest count A" and i: "placed fds dest count iter"
  shows "keeps A (decode_field (Suc n) decode noinit env wire_type iter)"
    and "results (placed fds dest count) (decode_field (Suc n) decode noinit env wire_type iter)"
proof -
  have t: "static_table (Suc n) (dec_fields env) fds" using ok by (simp add: message_ok_def)
  have field: "keeps A (decode_static_field (pb_message_set_to_defaults (Suc n) env) (PB_DECODERS decode noinit env) env wire_type it)"
    and static: "PB_ATYPE (pb_type (it_field it)) = PB_ATYPE_STATIC"
    if it: "placed fds dest count it" for it
  proof -
    note e = static_entryD [OF t placed_entry [OF it]]
    show "PB_ATYPE (pb_type (it_field it)) = PB_ATYPE_STATIC" using e(1) by (simp add: static_entry_def Let_def)
    have "subs_keep C (footprint n (dec_fields env)) env decode noinit (it_field it)"
      using ok placed_entry [OF it] by (simp add: message_ok_def)
    then show "keeps A (decode_static_field (pb_message_set_to_defaults (Suc n) env) (PB_DECODERS decode noinit env) env wire_type it)"
    proof (rule static_field_keeps [OF e(1)])
      show "updates (footprint n (dec_fields env) (dec_fields env (pf_ptr (it_field it))) p)
          (pb_message_set_to_defaults (Suc n) env (dec_fields env (pf_ptr (it_field it))) p)"
        if "PB_LTYPE (pb_type (it_field it)) = PB_LTYPE_SUBMESSAGE" for p
        using updates_defaults [OF e(3) [OF that], of "Suc n"] by simp
      show "data_area (footprint n (dec_fields env)) (dec_fields env) it \<union> size_area it \<union> C \<subseteq> A"
        using placed_area [OF it, of n "dec_fields env"] ok unfolding message_ok_def by blast
    qed
  qed
  have first: "keeps A (if b then pb_release_union_field (Suc n) env iter else d_ret iter)"
    "results (placed fds dest count) (if b then pb_release_union_field (Suc n) env iter else d_ret iter)" for b
    using union_field_keeps [OF t i] i by (auto intro: keep results_ret)
  show "keeps A (decode_field (Suc n) decode noinit env wire_type iter)"
    unfolding decode_field_def Let_def
    by (rule keeps_bind_when [OF first]) (auto simp: static intro!: keeps_then keep field)
  show "results (placed fds dest count) (decode_field (Suc n) decode noinit env wire_type iter)"
    unfolding decode_field_def Let_def
    by (rule results_bind [OF first]) (auto simp: static intro!: results_then results_ret field)
qed

section \<open>Messages\<close>

definition vars_ok :: "pb_field list \<Rightarrow> addr \<Rightarrow> addr \<Rightarrow> noinit_vars \<Rightarrow> bool" where
  "vars_ok fds dest count v \<longleftrightarrow> placed fds dest count (v_iter v)"

lemma unknown_keeps:
  assumes t: "static_table (Suc n) (dec_fields env) fds" and v: "vars_ok fds dest count v" and "k \<noteq> - 1"
  shows "keeps A (decode_unknown m field env k wire_type v)"
    and "results (vars_ok fds dest count) (decode_unknown m field env k wire_type v)"
proof -
  have t0: "pf_tag (field_at fds 0) \<noteq> 0" using t by simp
  obtain b iter' where f: "find_extension_field (v_iter v) = (b, iter')" by fastforce
  have p: "placed fds dest count iter'"
    using placed_find [OF v [unfolded vars_ok_def] t0 f [unfolded find_extension_field_def]] .
  have "\<not> fst (find_extension_field (v_iter v))"
    unfolding find_extension_field_def
    using static_entryD(1) [OF t] by (intro find_none [OF _ v [unfolded vars_ok_def] t0]) (auto simp: static_entry_def Let_def)
  then have b: "\<not> b" using f by simp
  have k: "\<not> - 1 \<le> k" using assms(3) by (metis word_n1_ge antisym)
  have skip: "keeps A (d_then (d_stream (pb_skip_field wire_type)) (d_ret v'))" for v' :: noinit_vars
    by (intro keeps_then keeps_stream reads_skip_field keep)
  show "keeps A (decode_unknown m field env k wire_type v)"
    unfolding decode_unknown_def Let_def f using b k by (auto intro!: keeps_if skip)
  show "results (vars_ok fds dest count) (decode_unknown m field env k wire_type v)"
    unfolding decode_unknown_def Let_def f using b k p v
    by (auto intro!: results_if results_then [where A = UNIV] results_ret keeps_stream reads_skip_field simp: vars_ok_def)
qed

lemma placed_counter:
  "placed fds dest count iter \<Longrightarrow> PB_HTYPE (pb_type (it_field iter)) = PB_HTYPE_REPEATED \<Longrightarrow>
    placed fds dest count (iter\<lparr>it_pSize := count\<rparr>)"
  by (auto simp: placed_def)

lemma fixed_count_keeps:
  assumes "vars_ok fds dest count v" and "span count 4 \<subseteq> A"
  shows "keeps A (start_fixed_count count v)" and "results (vars_ok fds dest count) (start_fixed_count count v)"
  using assms unfolding start_fixed_count_def Let_def
  by (auto intro!: keeps_if keeps_world keeps_then keeps_put keep)
    (auto intro!: results_if results_world results_then [where A = UNIV] keeps_put results_ret results_error
      simp: vars_ok_def placed_counter)

lemma tag_not_max: "pb_decode_tag s = (Some (wire_type, t), eof, s') \<Longrightarrow> t \<noteq> - 1"
proof -
  assume "pb_decode_tag s = (Some (wire_type, t), eof, s')"
  then obtain v :: u32 where t: "t = drop_bit 3 v"
    by (auto simp: pb_decode_tag_def split: option.splits prod.splits if_splits)
  have "\<not> bit v 34" using bit_imp_le_length [of v 34] by auto
  then have "\<not> bit (drop_bit 3 v) 31" by (simp add: bit_drop_bit_eq)
  then show "t \<noteq> - 1" using t by auto
qed

lemma reads_eof:
  assumes "stream_ok s" and "pb_decode_tag s = (None, True, s')"
  shows "advances s s'"
proof (cases "\<exists>v eof. pb_decode_varint32_eof s = (Some v, eof, s')")
  case True
  then show ?thesis using reads_varint32_eof [OF assms(1)] by blast
next
  case False
  then have "pb_decode_varint32_eof s = (None, True, s')"
    using assms(2) by (auto simp: pb_decode_tag_def split: prod.splits option.splits if_splits)
  then show ?thesis
    using assms(1) by (auto simp: pb_decode_varint32_eof_def pb_readbyte_def is_error_def stream_ok_def advances_def
        split: prod.splits option.splits if_splits)
qed

lemma turn_keeps:
  assumes ok: "message_ok n C env decode noinit fds dest count A" and v: "vars_ok fds dest count v" and s: "stream_ok s"
  shows "\<exists>r s' w'. noinit_turn (Suc n) (decode_field (Suc n) decode noinit env) env count v (s, w) = Some (r, s', w') \<and>
    same_outside A w w' \<and>
    (\<forall>go v'. r = Some (go, v') \<longrightarrow> vars_ok fds dest count v' \<and> advances s s' \<and> (go \<longrightarrow> bytes_left s' < bytes_left s))"
proof -
  let ?field = "decode_field (Suc n) decode noinit env"
  have t: "static_table (Suc n) (dec_fields env) fds" and c: "span count 4 \<subseteq> A" using ok by (auto simp: message_ok_def)
  obtain r eof s1 where d: "pb_decode_tag s = (r, eof, s1)" by (cases "pb_decode_tag s") auto
  show ?thesis
  proof (cases r)
    case None
    with d v reads_eof [OF s] show ?thesis by (cases eof) (simp_all add: noinit_turn_def d_ret_def d_false_def)
  next
    case (Some wt)
    obtain wire_type k where wt: "wt = (wire_type, k)" by fastforce
    note d = d [unfolded Some wt]
    have a: "advances s s1" and lt: "bytes_left s1 < bytes_left s" using reads_tag [OF s d] by simp_all
    obtain found iter' where f: "pb_field_iter_find (v_iter v) k = (found, iter')" by fastforce
    have t0: "pf_tag (field_at fds 0) \<noteq> 0" using t by simp
    have p: "vars_ok fds dest count (v\<lparr>v_iter := iter'\<rparr>)"
      using placed_find [OF v [unfolded vars_ok_def] t0 f [unfolded pb_field_iter_find_def]] by (simp add: vars_ok_def)
    define g where "g = (if found
      then d_bind (start_fixed_count count (v\<lparr>v_iter := iter'\<rparr>)) (\<lambda>v1. d_bind (?field wire_type (v_iter (see_required v1)))
        (\<lambda>iter''. d_ret (True, (see_required v1)\<lparr>v_iter := iter''\<rparr>)))
      else d_bind (decode_unknown (Suc n) ?field env k wire_type (v\<lparr>v_iter := iter'\<rparr>)) (\<lambda>v'. d_ret (True, v')))"
    have seen: "v_iter (see_required v1) = v_iter v1" for v1 by (simp add: see_required_def Let_def)
    note fixed = fixed_count_keeps [OF p c] and unknown = unknown_keeps [OF t p tag_not_max [OF d]]
    have field: "keeps A (?field wire_type (v_iter (see_required v1)))"
      "results (placed fds dest count) (?field wire_type (v_iter (see_required v1)))" if "vars_ok fds dest count v1" for v1
      using decode_field_keeps [OF ok, of "v_iter v1"] that by (simp_all add: seen vars_ok_def)
    have k: "keeps A g"
      unfolding g_def
      by (intro keeps_if keeps_bind_when [OF fixed] keeps_bind [OF unknown(1)] keeps_bind [OF field(1)] keep)
    have q: "results (\<lambda>r. fst r \<and> vars_ok fds dest count (snd r)) g"
      unfolding g_def
      by (intro results_if results_bind [OF fixed] results_bind [OF unknown] results_bind [OF field] results_ret)
        (simp_all add: vars_ok_def)
    have turn: "noinit_turn (Suc n) ?field env count v (s, w) = g (s1, w)"
      using d f by (cases found) (simp_all add: noinit_turn_def g_def Let_def)
    have s1: "stream_ok s1" using advances_ok [OF s a] .
    from keepsE [OF k s1, where w = w] obtain r s' w' where
      g: "g (s1, w) = Some (r, s', w')" "same_outside A w w'" "r \<noteq> None \<Longrightarrow> advances s1 s'" by blast
    have "vars_ok fds dest count v' \<and> advances s s' \<and> (go \<longrightarrow> bytes_left s' < bytes_left s)" if r: "r = Some (go, v')" for go v'
    proof -
      have a1: "advances s1 s'" using g(3) r by simp
      have "vars_ok fds dest count v'" using resultsD [OF q s1 g(1) [unfolded r]] by simp
      with advances_trans [OF a a1] advances_le [OF a1] lt show ?thesis by simp
    qed
    with g(1,2) turn show ?thesis by (simp del: split_paired_All split_paired_Ex)
  qed
qed

lemma loop_keeps:
  assumes turn: "\<And>v s w. vars_ok fds dest count v \<Longrightarrow> stream_ok s \<Longrightarrow>
    \<exists>r s' w'. turn v (s, w) = Some (r, s', w') \<and> same_outside A w w' \<and>
      (\<forall>go v'. r = Some (go, v') \<longrightarrow> vars_ok fds dest count v' \<and> advances s s' \<and> (go \<longrightarrow> bytes_left s' < bytes_left s))"
  shows "vars_ok fds dest count v \<Longrightarrow> stream_ok s \<Longrightarrow>
    \<exists>r s' w'. noinit_loop turn v (s, w) = Some (r, s', w') \<and> same_outside A w w' \<and> (r \<noteq> None \<longrightarrow> advances s s')"
proof (induction "bytes_left s" arbitrary: v s w rule: less_induct)
  case less
  show ?case
  proof (cases "bytes_left s = 0")
    case True
    then show ?thesis using less.prems(2) by (simp add: noinit_loop.simps [of turn v "(s, w)"])
  next
    case False
    from turn [OF less.prems, of w] obtain r s1 w1 where f: "turn v (s, w) = Some (r, s1, w1)" "same_outside A w w1"
      and r: "\<And>go v'. r = Some (go, v') \<Longrightarrow> vars_ok fds dest count v' \<and> advances s s1 \<and> (go \<longrightarrow> bytes_left s1 < bytes_left s)"
      by blast
    show ?thesis
    proof (cases "\<exists>v'. r = Some (True, v')")
      case False
      with f r \<open>bytes_left s \<noteq> 0\<close> show ?thesis
        by (cases r) (auto simp: noinit_loop.simps [of turn v "(s, w)"])
    next
      case True
      then obtain v' where v': "r = Some (True, v')" by blast
      note r = r [OF v']
      from less.hyps [OF _ _ advances_ok [OF less.prems(2)], of s1 v' w1] r obtain r' s' w' where
        "noinit_loop turn v' (s1, w1) = Some (r', s', w')" "same_outside A w1 w'" "r' \<noteq> None \<longrightarrow> advances s1 s'" by blast
      with f v' r \<open>bytes_left s \<noteq> 0\<close> show ?thesis
        using same_outside_trans [OF f(2)] advances_trans [of s s1 s'] by (auto simp: noinit_loop.simps [of turn v "(s, w)"])
    qed
  qed
qed

lemma keeps_decode_by:
  assumes t: "static_table n (dec_fields env) fds" and "n \<le> m" and noinit: "keeps A (noinit fds dest)"
    and A: "footprint n (dec_fields env) fds dest \<subseteq> A"
  shows "keeps A (decode_by m env noinit fds dest)"
proof -
  have "keeps A (\<lambda>st. case noinit fds dest st of
      Some (None, s', w') \<Rightarrow> d_then (d_update (pb_release m env fds dest)) d_false (s', w') | r \<Rightarrow> r)"
    unfolding keeps_def
  proof (intro allI impI)
    fix s :: "'a pb_istream" and w :: world
    assume "stream_ok s"
    from keepsE [OF noinit this] obtain r s' w' where
      f: "noinit fds dest (s, w) = Some (r, s', w')" "same_outside A w w'" "r \<noteq> None \<Longrightarrow> advances s s'" by blast
    then show "\<exists>r s' w'. (case noinit fds dest (s, w) of
        Some (None, s', w') \<Rightarrow> d_then (d_update (pb_release m env fds dest)) d_false (s', w') | r \<Rightarrow> r) = Some (r, s', w') \<and>
        same_outside A w w' \<and> (r \<noteq> None \<longrightarrow> advances s s')"
      using release_same [OF t assms(2), of dest w']
      by (cases r) (simp_all add: d_then_def d_bind_def d_update_def d_false_def)
  qed
  with updates_mono [OF updates_defaults [OF t assms(2)] A] show ?thesis
    unfolding decode_by_def by (intro keeps_then keeps_update)
qed

lemma noinit_keeps:
  "static_table n (dec_fields env) fds \<Longrightarrow>
    keeps (footprint n (dec_fields env) fds dest \<union> counters n env) (pb_decode_noinit n env fds dest)"
proof (induction n arbitrary: fds dest)
  case 0
  then show ?case by simp
next
  case (Suc n)
  let ?noinit = "pb_decode_noinit n env" and ?count = "dec_local env n"
  let ?A = "footprint (Suc n) (dec_fields env) fds dest \<union> counters (Suc n) env"
  have sub: "subs_keep (counters n env) (footprint n (dec_fields env)) env (decode_by n env ?noinit) ?noinit field"
    if "field \<in> set fds" for field
    unfolding subs_keep_def
    using static_entryD [OF Suc.prems that] Suc.IH keeps_decode_by [of n env _ n] by blast
  have c: "span ?count 4 \<subseteq> ?A" and C: "counters n env \<subseteq> ?A"
    using counters_mono [of n "Suc n" env] by (auto simp: counters_def)
  have ok: "message_ok n (counters n env) env (decode_by n env ?noinit) ?noinit fds dest ?count ?A"
    unfolding message_ok_def using Suc.prems sub c C by blast
  let ?v = "\<lparr>v_iter = snd (pb_field_iter_begin fds dest), fields_seen = [0, 0], extension_range_start = 0, fixed_count_field = None\<rparr>"
  have "pb_field_iter_begin fds dest = (True, snd (pb_field_iter_begin fds dest))"
    using Suc.prems by (simp add: pb_field_iter_begin_def Let_def)
  then have v: "vars_ok fds dest ?count ?v"
    using positions_begin by (simp add: vars_ok_def placed_def)
  have loop: "keeps ?A (noinit_loop (noinit_turn (Suc n) (decode_field (Suc n) (decode_by n env ?noinit) ?noinit env) env ?count) ?v)"
    unfolding keeps_def
    using loop_keeps [where turn = "noinit_turn (Suc n) (decode_field (Suc n) (decode_by n env ?noinit) ?noinit env) env ?count",
        OF turn_keeps [OF ok] v] by blast
  have e: "keeps ?A (noinit_end ?count v')" for v'
    unfolding noinit_end_def by (intro keeps_world keeps_if keep)
  show ?case
    unfolding pb_decode_noinit.simps Let_def using c
    by (intro keeps_then keeps_put keeps_bind loop e) simp
qed


text \<open>The messages of the transport layer that are static stay within their structs.\<close>

definition cct_dec_env :: "unit dec_env" where
  "cct_dec_env = \<lparr>dec_fields = cct_fields, dec_callback = (\<lambda>_ _ _. d_false), dec_extension = (\<lambda>_ _ _ _. d_false),
     dec_place = (\<lambda>_ _. None), dec_local = (\<lambda>n. 0x8000 + 4 * word_of_nat n)\<rparr>"

lemma static_QosTierConfiguration: "static_table (Suc 0) cct_fields gdt_cct_QosTierConfiguration_fields"
  by (simp add: QosTierConfiguration_fields pb_entry_def static_entry_def type_defs field_at_def word_less_nat_alt Let_def)

lemma positions_QosTierConfiguration:
  "positions gdt_cct_QosTierConfiguration_fields dest =
     {\<lparr>it_start = gdt_cct_QosTierConfiguration_fields, it_pos = 0, required_field_index = 0, dest_struct = dest,
       it_pData = dest + 4, it_pSize = dest\<rparr>,
      \<lparr>it_start = gdt_cct_QosTierConfiguration_fields, it_pos = 1, required_field_index = 0, dest_struct = dest,
       it_pData = 12 + dest, it_pSize = 8 + dest\<rparr>}"
  apply (simp add: QosTierConfiguration_fields pb_entry_def positions_def iter_defs)
  apply (subst visit_list.simps)
  apply (simp add: iter_defs type_defs)
  apply (subst visit_list.simps)
  apply (simp add: iter_defs type_defs)
  done

lemma footprint_QosTierConfiguration:
  "footprint (Suc 0) cct_fields gdt_cct_QosTierConfiguration_fields dest \<subseteq> span dest 16"
proof -
  have s: "span (dest + word_of_nat k) m \<subseteq> span dest 16" if "k + m \<le> 16" for k m
    using span_shift [of k m dest] span_mono [OF that, of dest] that by auto
  have "span dest 1 \<subseteq> span dest 16" "span (dest + 4) 4 \<subseteq> span dest 16" "span (8 + dest) 1 \<subseteq> span dest 16"
    "span (12 + dest) 4 \<subseteq> span dest 16"
    using s [of 0 1] s [of 4 4] s [of 8 1] s [of 12 4] by (simp_all add: add.commute [of dest])
  then show ?thesis
    unfolding footprint.simps positions_QosTierConfiguration
    by (simp add: it_field_def field_at_def QosTierConfiguration_fields pb_entry_def type_defs data_area_def
        size_area_def item_area_def Let_def)
qed


end
