(* ===== verification/PbMemory.thy ===== *)
theory PbMemory
  imports PbDecodeSafe
begin

text \<open>
  Loads from the memory after stores: the bytes and integers that were stored are read back, and those at other
  places stay as they are.
\<close>

section \<open>Stores and loads\<close>

lemma mem_bytes_put_same:
  assumes "length bs \<le> 2 ^ 64"
  shows "mem_bytes (mem_put mem a bs) a (length bs) = bs"
proof (rule nth_equalityI)
  fix i
  assume "i < length (mem_bytes (mem_put mem a bs) a (length bs))"
  then have i: "i < length bs" by simp
  then have "unat (word_of_nat i :: u64) = i" using assms by (simp add: unat_of_nat)
  with i show "mem_bytes (mem_put mem a bs) a (length bs) ! i = bs ! i"
    by (simp add: mem_bytes_def mem_put_def)
qed simp

lemma span_disjoint_less:
  assumes "span a n \<inter> span b m = {}" and "i < n" and "n \<le> 2 ^ 64"
  shows "\<not> unat (a + word_of_nat i - b) < m"
proof
  assume "unat (a + word_of_nat i - b) < m"
  then have "a + word_of_nat i \<in> span b m" by (simp add: span_def)
  moreover have "a + word_of_nat i \<in> span a n" using assms(2,3) by (simp add: span_def unat_of_nat)
  ultimately show False using assms(1) by blast
qed

lemma mem_bytes_put_other:
  assumes "span a n \<inter> span b (length bs) = {}" and "n \<le> 2 ^ 64"
  shows "mem_bytes (mem_put mem b bs) a n = mem_bytes mem a n"
  using span_disjoint_less [OF assms(1) _ assms(2)] by (simp add: mem_bytes_def mem_put_def)

lemma unat_byte_at: "unat (byte_at k v) = unat v div 2 ^ k mod 256"
proof -
  have "(0xFF :: 'a word) = mask 8" by (simp add: mask_eq_exp_minus_1)
  then have "byte_at k v = ucast (take_bit 8 (drop_bit k v))" by (simp add: byte_at_def take_bit_eq_mask)
  then have "unat (byte_at k v) = take_bit 8 (take_bit 8 (drop_bit k (unat v)))"
    by (simp only: unsigned_ucast_eq unsigned_take_bit_eq unsigned_drop_bit_eq)
      (simp add: take_bit_nat_eq_self)
  then show ?thesis by (simp add: take_bit_eq_mod drop_bit_eq_div)
qed

lemma le_digits: "j = k + 8 \<Longrightarrow> n div 2 ^ k mod 256 + 256 * (n div 2 ^ j) = n div 2 ^ k" for n :: nat
proof -
  assume "j = k + 8"
  then have "n div 2 ^ j = n div 2 ^ k div 256" by (simp add: power_add div_mult2_eq)
  then show ?thesis by simp
qed

lemma le_val_fixed: "word_of_nat (le_val (fixed32 v)) = v" "word_of_nat (le_val (fixed64 v')) = v'"
proof -
  define n where "n = unat v"
  have "n div 2 ^ 24 < 256" using unsigned_less [of v, where ?'a = nat] by (simp add: n_def div_less_iff_less_mult)
  then have top: "n div 2 ^ 24 mod 256 + 256 * 0 = n div 2 ^ 24" by simp
  have "n div 2 ^ 16 mod 256 + 256 * (n div 2 ^ 24) = n div 2 ^ 16" "n div 2 ^ 8 mod 256 + 256 * (n div 2 ^ 16) = n div 2 ^ 8"
    "n div 2 ^ 0 mod 256 + 256 * (n div 2 ^ 8) = n div 2 ^ 0" by (rule le_digits, simp)+
  note digits = this
  have "le_val (fixed32 v) = n div 2 ^ 0"
    unfolding fixed32_def le_val.simps unat_byte_at n_def [symmetric] top digits ..
  then show "word_of_nat (le_val (fixed32 v)) = v" by (simp add: n_def)
  define m where "m = unat v'"
  have "m div 2 ^ 56 < 256" using unsigned_less [of v', where ?'a = nat] by (simp add: m_def div_less_iff_less_mult)
  then have top: "m div 2 ^ 56 mod 256 + 256 * 0 = m div 2 ^ 56" by simp
  have "m div 2 ^ 48 mod 256 + 256 * (m div 2 ^ 56) = m div 2 ^ 48"
     "m div 2 ^ 40 mod 256 + 256 * (m div 2 ^ 48) = m div 2 ^ 40" "m div 2 ^ 32 mod 256 + 256 * (m div 2 ^ 40) = m div 2 ^ 32"
     "m div 2 ^ 24 mod 256 + 256 * (m div 2 ^ 32) = m div 2 ^ 24" "m div 2 ^ 16 mod 256 + 256 * (m div 2 ^ 24) = m div 2 ^ 16"
     "m div 2 ^ 8 mod 256 + 256 * (m div 2 ^ 16) = m div 2 ^ 8" "m div 2 ^ 0 mod 256 + 256 * (m div 2 ^ 8) = m div 2 ^ 0"
    by (rule le_digits, simp)+
  note digits = this
  have "le_val (fixed64 v') = m div 2 ^ 0"
    unfolding fixed64_def le_val.simps unat_byte_at m_def [symmetric] top digits ..
  then show "word_of_nat (le_val (fixed64 v')) = v'" by (simp add: m_def)
qed

lemma mem_u64_put [simp]: "mem_u64 (mem_put mem a (fixed64 v)) a = v"
  using mem_bytes_put_same [of "fixed64 v" mem a] by (simp add: mem_u64_def le_val_fixed)

lemma mem_u32_put [simp]: "mem_u32 (mem_put mem a (fixed32 v)) a = v"
  using mem_bytes_put_same [of "fixed32 v" mem a] by (simp add: mem_u32_def le_val_fixed)

lemma mem_u64_put_other: "span a 8 \<inter> span b (length bs) = {} \<Longrightarrow> mem_u64 (mem_put mem b bs) a = mem_u64 mem a"
  by (simp add: mem_u64_def mem_bytes_put_other)

lemma mem_u32_put_other: "span a 4 \<inter> span b (length bs) = {} \<Longrightarrow> mem_u32 (mem_put mem b bs) a = mem_u32 mem a"
  by (simp add: mem_u32_def mem_bytes_put_other)

text \<open>Spans at known distances.\<close>

lemma span_apart:
  assumes "unat (b - a) \<ge> n" and "unat (b - a) + m \<le> 2 ^ 64"
  shows "span a n \<inter> span b m = {}" and "span b m \<inter> span a n = {}"
proof -
  have "x \<notin> span b m" if x: "x \<in> span a n" for x
  proof
    assume "x \<in> span b m"
    then have y: "unat (x - b) < m" by (simp add: span_def)
    have "unat (word_of_nat (unat (b - a)) + (x - b)) = unat (b - a) + unat (x - b)"
      using y assms(2) by (intro unat_add_nat) simp
    then have "unat (x - a) = unat (b - a) + unat (x - b)" by simp
    with x assms(1) show False by (simp add: span_def)
  qed
  then show "span a n \<inter> span b m = {}" "span b m \<inter> span a n = {}" by blast+
qed

end
