(* ===== verification/PbUnion.thy ===== *)
theory PbUnion
  imports PbMemory
begin

text \<open>
  A defect of the decoder: in a \<open>oneof\<close> with a number and a pointer, a message with both makes the decoder
  take the number for a pointer.
\<close>

section \<open>A number that becomes a pointer\<close>

text \<open>A struct with a \<open>oneof\<close> of a \<open>fixed64\<close> and a \<open>string\<close> that is allocated: the tag at offset 0, the union at 8.\<close>

definition union_fields :: "pb_field list" where
  "union_fields =
     [\<lparr>pf_tag = 1, pb_type = PB_ATYPE_STATIC OR PB_HTYPE_ONEOF OR PB_LTYPE_FIXED64, data_offset = 8, size_offset = - 8,
       data_size = 8, array_size = 0, pf_ptr = 0\<rparr>,
      \<lparr>pf_tag = 2, pb_type = PB_ATYPE_POINTER OR PB_HTYPE_ONEOF OR PB_LTYPE_STRING, data_offset = PB_SIZE_MAX, size_offset = - 8,
       data_size = 1, array_size = 0, pf_ptr = 0\<rparr>]"

definition union_iter :: "nat \<Rightarrow> pb_field_iter" where
  "union_iter i = \<lparr>it_start = union_fields, it_pos = i, required_field_index = 0, dest_struct = 0x2000,
     it_pData = 0x2008, it_pSize = 0x2000\<rparr>"

lemmas union_eval = union_fields_def union_iter_def iter_defs type_defs

lemma union_iters:
  "pb_field_iter_begin union_fields 0x2000 = (True, union_iter 0)"
  "pb_field_iter_next (union_iter 0) = (True, union_iter 1)"
  "pb_field_iter_next (union_iter 1) = (False, union_iter 0)"
  by (simp_all add: union_eval)

lemma union_find:
  "pb_field_iter_find (union_iter 0) 1 = (True, union_iter 0)"
  "pb_field_iter_find (union_iter 0) 2 = (True, union_iter 1)"
  "pb_field_iter_find (union_iter 1) 1 = (True, union_iter 0)"
  by (simp_all add: pb_field_iter_find_def union_eval)

definition union_data :: "u64 \<Rightarrow> byte list" where
  "union_data p = 9 # fixed64 p @ [0x12, 1, 0x61]"

definition union_stream :: "u64 \<Rightarrow> nat \<Rightarrow> 's pb_istream" where
  "union_stream p pos = \<lparr>is_source = Buf_read (union_data p) pos, bytes_left = 12 - pos, is_errmsg = None\<rparr>"

lemma union_tags:
  "pb_decode_tag (union_stream p 0) = (Some (1, 1), False, union_stream p 1)"
  "pb_decode_tag (union_stream p 9) = (Some (2, 2), False, union_stream p 10)"
  "pb_decode_varint32 (union_stream p 10) = (Some 1, union_stream p 11)"
  by (simp_all add: pb_decode_tag_def pb_decode_varint32_def pb_decode_varint32_eof_def pb_readbyte_def union_stream_def
      union_data_def fixed64_def)

lemma union_read: "pb_read 8 (union_stream p 1) = (Some (fixed64 p), union_stream p 9)"
  by (simp add: pb_read_def pb_read_limited_def union_stream_def union_data_def fixed64_def)

lemma union_number: "pb_decode_fixed64 (union_stream p 1) = (Some p, union_stream p 9)"
  using from_fixed64 [of p] by (simp add: pb_decode_fixed64_def op_bind_def op_ret_def union_read [simplified] fixed64_def)

lemma union_fields_at:
  "it_field (union_iter 0) = \<lparr>pf_tag = 1, pb_type = 0x35, data_offset = 8, size_offset = - 8, data_size = 8,
     array_size = 0, pf_ptr = 0\<rparr>"
  "it_field (union_iter (Suc 0)) = \<lparr>pf_tag = 2, pb_type = 0xB7, data_offset = PB_SIZE_MAX, size_offset = - 8,
     data_size = 1, array_size = 0, pf_ptr = 0\<rparr>"
  "it_pData (union_iter i) = 0x2008" "it_pSize (union_iter i) = 0x2000" "it_pos (union_iter i) = i"
  "required_field_index (union_iter i) = 0"
  by (simp_all add: union_eval)

lemmas d_defs = d_bind_def d_then_def d_ret_def d_world_def d_update_def d_stream_def

lemma d_update_then: "f w = Some w' \<Longrightarrow> d_then (d_update f) g (s, w) = g (s, w')"
  by (simp add: d_then_def d_bind_def d_update_def)

lemma union_first:
  assumes "w_u32 w 0x2000 = 0"
  shows "noinit_turn (Suc 0) (decode_field (Suc 0) decode noinit env) env count (v\<lparr>v_iter := union_iter 0\<rparr>) (union_stream p 0, w) =
    Some (Some (True, v\<lparr>v_iter := union_iter 0\<rparr>), union_stream p 9, w_put 0x2008 (fixed64 p) (w_put 0x2000 (fixed32 1) w))"
  using assms
  by (simp add: noinit_turn_def union_tags union_find start_fixed_count_def see_required_def union_fields_at
      decode_field_def type_defs pb_release_union_field_def decode_static_field_def PB_DECODERS_def pb_dec_fixed64_def
      union_number [simplified] Let_def d_defs)

lemma union_second:
  assumes "w_u32 w 0x2000 = 1" and "w_u64 w 0x2008 = p"
  defines "w' \<equiv> w_put 0x2000 (fixed32 2) w"
  shows "noinit_turn (Suc 0) (decode_field (Suc 0) decode noinit env) env count (v\<lparr>v_iter := union_iter 0\<rparr>) (union_stream p 9, w) =
    (case pb_realloc (dec_place env) p 2 w' of
       None \<Rightarrow> None
     | Some (q, w1) \<Rightarrow>
         if q = 0 then Some (None, (union_stream p 11)\<lparr>is_errmsg := Some ''realloc failed''\<rparr>, w1)
         else
           (let w2 = w_put 0x2008 (fixed64 q) w1
            in Some (Some (True, v\<lparr>v_iter := union_iter 1\<rparr>), union_stream p 12,
              w_put (q + 1) [0] (w_put q [0x61] w2))))"
proof -
  have p: "w_u64 w' 0x2008 = p"
    using assms(2) by (simp add: w'_def w_put_def mem_u64_put_other span_apart)
  have x: "pb_read (Suc 0) (union_stream p 11) = (Some [0x61], union_stream p 12)"
    by (simp add: pb_read_def pb_read_limited_def union_stream_def union_data_def fixed64_def)
  have [simp]: "is_errmsg (union_stream p i) = None" for i by (simp add: union_stream_def)
  have put: "w_u64 (w_put a (fixed64 q) w1) a = q" for a q w1 by (simp add: w_put_def)
  note eval = noinit_turn_def union_tags union_find [simplified] start_fixed_count_def see_required_def
    union_fields_at decode_field_def type_defs pb_release_union_field_def decode_pointer_field_def
    PB_DECODERS_def pb_dec_string_def d_read_def x allocate_field_def size_mul_def Let_def d_defs w'_def [symmetric]
    word_less_nat_alt d_undef_def d_status_def is_error_def put
  show ?thesis
  proof (cases "pb_realloc (dec_place env) p 2 w'")
    case None
    then show ?thesis using assms(1) p by (simp add: eval)
  next
    case (Some r)
    obtain q w1 where "r = (q, w1)" by fastforce
    with Some show ?thesis using assms(1) p by (simp add: eval)
  qed
qed

text \<open>C33: a message that sets the number and then the string makes the decoder pass the number to \<open>realloc\<close> as the
  old pointer of the string: if the sender puts no address of a block there, the behaviour is undefined, and if the
  number is the address of any block, the block is moved and its old place is free. \<open>pb_release_union_field\<close> leaves
  the bytes of a number in the union.\<close>

theorem pb_decode_oneof_frees_number:
  fixes env :: "'s dec_env" and w :: world
  assumes "p \<noteq> 0" and "span 0x2000 16 \<inter> span (dec_local env 0) 4 = {}"
  defines "run \<equiv> pb_decode (Suc 0) env union_fields 0x2000 (pb_istream_from_buffer (9 # fixed64 p @ [0x12, 1, 0x61]) 12, w)"
  shows "(map_of (w_blocks w) p = None \<longrightarrow> run = None) \<and>
    (\<forall>size q. map_of (w_blocks w) p = Some size \<and> dec_place env (w_blocks w) 2 = Some q \<and> q \<noteq> 0 \<longrightarrow>
      (\<exists>stream' w'. run = Some (Some (), stream', w') \<and> w_blocks w' = (q, 2) # filter (\<lambda>(a, _). a \<noteq> p) (w_blocks w)))"
proof -
  let ?c = "dec_local env 0" and ?noinit = "pb_decode_noinit 0 env"
  let ?turn = "noinit_turn (Suc 0) (decode_field (Suc 0) (decode_by 0 env ?noinit) ?noinit env) env ?c"
  let ?v = "\<lambda>i. \<lparr>v_iter = union_iter i, fields_seen = [0, 0], extension_range_start = 0, fixed_count_field = None\<rparr>"
  define w1 where "w1 = w_put 0x2000 (fixed32 0) (w_put 0x2008 (fixed64 0) (w_put 0x2000 (fixed32 0) w))"
  define w2 where "w2 = w_put ?c (fixed32 0) w1"
  define w3 where "w3 = w_put 0x2008 (fixed64 p) (w_put 0x2000 (fixed32 1) w2)"
  define w4 where "w4 = w_put 0x2000 (fixed32 2) w3"
  have "span 0x2000 4 \<inter> span ?c 4 = {}" using assms(2) span_mono [of 4 16 "0x2000"] by auto
  then have "w_u32 w2 0x2000 = 0" by (simp add: w2_def w1_def w_put_def mem_u32_put_other)
  from union_first [OF this, of "decode_by 0 env ?noinit" ?noinit env ?c "?v 0" p]
  have first: "?turn (?v 0) (union_stream p 0, w2) = Some (Some (True, ?v 0), union_stream p 9, w3)" by (simp add: w3_def)
  have v: "(?v 0)\<lparr>v_iter := union_iter 0\<rparr> = ?v 0" "(?v 0)\<lparr>v_iter := union_iter 1\<rparr> = ?v 1" by simp_all
  have "w_u32 w3 0x2000 = 1" by (simp add: w3_def w_put_def mem_u32_put_other span_apart)
  moreover have "w_u64 w3 0x2008 = p" by (simp add: w3_def w_put_def)
  ultimately have second: "?turn (?v 0) (union_stream p 9, w3) =
    (case pb_realloc (dec_place env) p 2 w4 of
       None \<Rightarrow> None
     | Some (q, w5) \<Rightarrow>
         if q = 0 then Some (None, (union_stream p 11)\<lparr>is_errmsg := Some ''realloc failed''\<rparr>, w5)
         else
           (let w6 = w_put 0x2008 (fixed64 q) w5
            in Some (Some (True, ?v 1), union_stream p 12, w_put (q + 1) [0] (w_put q [0x61] w6))))"
    using union_second [of w3 p "decode_by 0 env ?noinit" ?noinit env ?c "?v 0"] unfolding v w4_def by blast
  have defaults: "pb_message_set_to_defaults (Suc 0) env union_fields 0x2000 w = Some w1"
    by (simp add: union_iters each_field.simps [of _ "union_iter 0"] each_field.simps [of _ "union_iter (Suc 0)"]
        union_iters(2,3) [simplified] union_fields_at type_defs w1_def Let_def)
  have s: "pb_istream_from_buffer (9 # fixed64 p @ [0x12, 1, 0x61]) 12 = (union_stream p 0 :: 's pb_istream)"
    by (simp add: pb_istream_from_buffer_def union_stream_def union_data_def)
  have left: "bytes_left (union_stream p i) = 12 - i" for i by (simp add: union_stream_def)
  have finish: "noinit_end ?c (?v 1) st = Some (Some (), st)" for st :: "'s dstate"
    by (simp add: noinit_end_def d_world_def d_ret_def fixed_count_mismatch_def req_field_count_def seek_end.simps union_iters(2,3) [simplified]
        union_fields_at type_defs required_seen_def)
  have blocks: "w_blocks w4 = w_blocks w" by (simp add: w4_def w3_def w2_def w1_def w_put_def)
  have noinit: "pb_decode_noinit (Suc 0) env union_fields 0x2000 (union_stream p 0, w1) =
      (case noinit_loop ?turn (?v 0) (union_stream p 0, w2) of
         None \<Rightarrow> None
       | Some (None, st) \<Rightarrow> Some (None, st)
       | Some (Some v, st) \<Rightarrow> noinit_end ?c v st)"
    by (simp add: union_iters(1) d_then_def d_bind_def d_update_def w2_def Let_def)
  have run: "run = (case pb_decode_noinit (Suc 0) env union_fields 0x2000 (union_stream p 0, w1) of
      Some (None, s', w') \<Rightarrow> d_then (d_update (pb_release (Suc 0) env union_fields 0x2000)) d_false (s', w')
    | r \<Rightarrow> r)"
    unfolding run_def pb_decode_def decode_by_def s d_update_then [where f = "pb_message_set_to_defaults (Suc 0) env union_fields 0x2000", OF defaults] ..
  note run = run [unfolded noinit]
  have loop1: "noinit_loop ?turn (?v 0) (union_stream p 0, w2) = noinit_loop ?turn (?v 0) (union_stream p 9, w3)"
    by (subst noinit_loop.simps) (simp add: first left)
  show ?thesis
  proof (intro conjI impI allI)
    assume "map_of (w_blocks w) p = None"
    then have "pb_realloc (dec_place env) p 2 w4 = None" using assms(1) by (simp add: pb_realloc_def blocks)
    then show "run = None"
      unfolding run loop1 by (subst noinit_loop.simps) (simp add: second left)
  next
    fix sz q
    assume r: "map_of (w_blocks w) p = Some sz \<and> dec_place env (w_blocks w) 2 = Some q \<and> q \<noteq> 0"
    then obtain m where "pb_realloc (dec_place env) p 2 w4 = Some (q, \<lparr>w_mem = m, w_blocks = (q, 2) # filter (\<lambda>(a, _). a \<noteq> p) (w_blocks w)\<rparr>)"
      using assms(1) by (simp add: pb_realloc_def blocks)
    moreover define w7 where "w7 = w_put (q + 1) [0] (w_put q [0x61] (w_put 0x2008 (fixed64 q)
      \<lparr>w_mem = m, w_blocks = (q, 2) # filter (\<lambda>(a, _). a \<noteq> p) (w_blocks w)\<rparr>))"
    ultimately have t: "?turn (?v 0) (union_stream p 9, w3) = Some (Some (True, ?v 1), union_stream p 12, w7)"
      using r by (simp add: second Let_def)
    have b: "w_blocks w7 = (q, 2) # filter (\<lambda>(a, _). a \<noteq> p) (w_blocks w)" by (simp add: w7_def w_put_def)
    have "noinit_loop ?turn (?v 0) (union_stream p 9, w3) = Some (Some (?v 1), union_stream p 12, w7)"
      by (subst noinit_loop.simps, simp add: t left, subst noinit_loop.simps, simp add: left)
    then have "run = Some (Some (), union_stream p 12, w7)" by (simp add: run loop1 finish [unfolded One_nat_def])
    with b show "\<exists>stream' w'. run = Some (Some (), stream', w') \<and>
        w_blocks w' = (q, 2) # filter (\<lambda>(a, _). a \<noteq> p) (w_blocks w)" by blast
  qed
qed

text \<open>A sender who puts \<open>0x3000\<close> into the number frees the block there, which the message does not own.\<close>

definition union_env :: "unit dec_env" where
  "union_env = cct_dec_env\<lparr>dec_place := (\<lambda>_ _. Some 0x5000)\<rparr>"

theorem pb_decode_oneof_frees_number_witness:
  "pb_decode (Suc 0) union_env union_fields 0x2000
     (pb_istream_from_buffer (9 # fixed64 0x41 @ [0x12, 1, 0x61]) 12, \<lparr>w_mem = (\<lambda>_. 0), w_blocks = [(0x3000, 8)]\<rparr>) = None \<and>
   (\<exists>stream' w'. pb_decode (Suc 0) union_env union_fields 0x2000
     (pb_istream_from_buffer (9 # fixed64 0x3000 @ [0x12, 1, 0x61]) 12, \<lparr>w_mem = (\<lambda>_. 0), w_blocks = [(0x3000, 8)]\<rparr>) =
       Some (Some (), stream', w') \<and> w_blocks w' = [(0x5000, 2)])"
proof -
  have s: "span 0x2000 16 \<inter> span (dec_local union_env 0) 4 = {}"
    by (simp add: union_env_def cct_dec_env_def span_apart)
  show ?thesis
    using pb_decode_oneof_frees_number [OF _ s, of "0x41" "\<lparr>w_mem = (\<lambda>_. 0), w_blocks = [(0x3000, 8)]\<rparr>"]
      pb_decode_oneof_frees_number [OF _ s, of "0x3000" "\<lparr>w_mem = (\<lambda>_. 0), w_blocks = [(0x3000, 8)]\<rparr>"]
    by (simp add: union_env_def)
qed

end
