(* ===== verification/PbTriple.thy ===== *)
theory PbTriple
  imports PbMemory
begin

text \<open>
  Total-correctness triples for the operations of the decoder: \<open>does A Q f bs a P\<close> says that \<open>f\<close>, on a
  stream that starts with the bytes \<open>bs\<close> and in a memory with \<open>Q\<close>, takes these bytes, returns \<open>a\<close>,
  changes nothing outside \<open>A\<close> and leaves a memory with \<open>P\<close>; \<open>does_all\<close> says it of a stream that ends there.
\<close>

section \<open>Triples\<close>

definition triple ::
  "(nat \<Rightarrow> bool) \<Rightarrow> addr set \<Rightarrow> (world \<Rightarrow> bool) \<Rightarrow> ('s, 'a) dop \<Rightarrow> byte list \<Rightarrow> 'a \<Rightarrow> (world \<Rightarrow> bool) \<Rightarrow> bool" where
  "triple lim A Q f bs a P \<longleftrightarrow>
     (\<forall>s w rest n e. stream_ok s \<longrightarrow> stream_at s (bs @ rest) (length bs + n) e \<longrightarrow> lim n \<longrightarrow> Q w \<longrightarrow>
        (\<exists>s' w'. f (s, w) = Some (Some a, s', w') \<and> stream_ok s' \<and> stream_at s' rest n e \<and> same_outside A w w' \<and> P w'))"

abbreviation does :: "addr set \<Rightarrow> (world \<Rightarrow> bool) \<Rightarrow> ('s, 'a) dop \<Rightarrow> byte list \<Rightarrow> 'a \<Rightarrow> (world \<Rightarrow> bool) \<Rightarrow> bool" where
  "does \<equiv> triple (\<lambda>_. True)"

abbreviation does_all :: "addr set \<Rightarrow> (world \<Rightarrow> bool) \<Rightarrow> ('s, 'a) dop \<Rightarrow> byte list \<Rightarrow> 'a \<Rightarrow> (world \<Rightarrow> bool) \<Rightarrow> bool" where
  "does_all \<equiv> triple (\<lambda>n. n = 0)"

lemma tripleI:
  assumes "\<And>s w rest n e. stream_ok s \<Longrightarrow> stream_at s (bs @ rest) (length bs + n) e \<Longrightarrow> lim n \<Longrightarrow> Q w \<Longrightarrow>
    \<exists>s' w'. f (s, w) = Some (Some a, s', w') \<and> stream_ok s' \<and> stream_at s' rest n e \<and> same_outside A w w' \<and> P w'"
  shows "triple lim A Q f bs a P"
  using assms unfolding triple_def by blast

lemma tripleE:
  assumes "triple lim A Q f bs a P" and "stream_ok s" and "stream_at s (bs @ rest) (length bs + n) e" and "lim n" and "Q w"
  obtains s' w' where "f (s, w) = Some (Some a, s', w')" "stream_ok s'" "stream_at s' rest n e" "same_outside A w w'" "P w'"
  using assms unfolding triple_def by blast

lemma triple_conseq:
  fixes f :: "('s, 'a) dop"
  assumes "triple lim A Q f bs a P" and "\<And>w. Q' w \<Longrightarrow> Q w" and "\<And>w. P w \<Longrightarrow> P' w" and "A \<subseteq> A'"
  shows "triple lim A' Q' f bs a P'"
proof (rule tripleI)
  fix s :: "'s pb_istream" and w rest n e
  assume h: "stream_ok s" "stream_at s (bs @ rest) (length bs + n) e" "lim n" "Q' w"
  from tripleE [OF assms(1) h(1-3) assms(2) [OF h(4)]] obtain s' w' where
    "f (s, w) = Some (Some a, s', w')" "stream_ok s'" "stream_at s' rest n e" "same_outside A w w'" "P w'" by blast
  moreover have "same_outside A' w w'" using calculation(4) assms(4) unfolding same_outside_def by blast
  ultimately show "\<exists>s' w'. f (s, w) = Some (Some a, s', w') \<and> stream_ok s' \<and> stream_at s' rest n e \<and> same_outside A' w w' \<and> P' w'"
    using assms(3) by blast
qed

text \<open>What a triple keeps: a property of the memory outside \<open>A\<close>.\<close>

lemma triple_frame:
  fixes f :: "('s, 'a) dop"
  assumes "triple lim A Q f bs a P" and "\<And>w w'. same_outside A w w' \<Longrightarrow> R w \<Longrightarrow> R w'"
  shows "triple lim A (\<lambda>w. Q w \<and> R w) f bs a (\<lambda>w. P w \<and> R w)"
proof (rule tripleI)
  fix s :: "'s pb_istream" and w rest n e
  assume h: "stream_ok s" "stream_at s (bs @ rest) (length bs + n) e" "lim n" and q: "Q w \<and> R w"
  from tripleE [OF assms(1) h conjunct1 [OF q]] obtain s' w' where
    "f (s, w) = Some (Some a, s', w')" "stream_ok s'" "stream_at s' rest n e" "same_outside A w w'" "P w'" by blast
  with q assms(2) show "\<exists>s' w'. f (s, w) = Some (Some a, s', w') \<and> stream_ok s' \<and> stream_at s' rest n e \<and>
      same_outside A w w' \<and> P w' \<and> R w'" by blast
qed

lemma triple_all: "does A Q f bs a P \<Longrightarrow> triple lim A Q f bs a P"
  unfolding triple_def by blast

lemma triple_bind:
  fixes f :: "('s, 'a) dop" and g :: "'a \<Rightarrow> ('s, 'b) dop"
  assumes "does A Q f bs a R" and "triple lim A R (g a) cs b P"
  shows "triple lim A Q (d_bind f g) (bs @ cs) b P"
proof (rule tripleI)
  fix s :: "'s pb_istream" and w rest n e
  assume ok: "stream_ok s" and s: "stream_at s ((bs @ cs) @ rest) (length (bs @ cs) + n) e" and n: "lim n" and q: "Q w"
  have s: "stream_at s (bs @ cs @ rest) (length bs + (length cs + n)) e" using s by (simp add: add.assoc)
  from tripleE [OF assms(1) ok s TrueI q] obtain s1 w1 where
    1: "f (s, w) = Some (Some a, s1, w1)" "stream_ok s1" "stream_at s1 (cs @ rest) (length cs + n) e" "same_outside A w w1" "R w1"
    by blast
  from tripleE [OF assms(2) 1(2,3) n 1(5)] obtain s2 w2 where
    2: "g a (s1, w1) = Some (Some b, s2, w2)" "stream_ok s2" "stream_at s2 rest n e" "same_outside A w1 w2" "P w2" by blast
  from 1 2 same_outside_trans [OF 1(4) 2(4)]
  show "\<exists>s' w'. d_bind f g (s, w) = Some (Some b, s', w') \<and> stream_ok s' \<and> stream_at s' rest n e \<and> same_outside A w w' \<and> P w'"
    by (simp add: d_bind_def)
qed

lemma triple_then: "does A Q f bs a R \<Longrightarrow> triple lim A R g cs b P \<Longrightarrow> triple lim A Q (d_then f g) (bs @ cs) b P"
  unfolding d_then_def by (rule triple_bind)

text \<open>A first operation that takes no bytes.\<close>

lemma triple_bind0: "does A Q f [] a R \<Longrightarrow> triple lim A R (g a) cs b P \<Longrightarrow> triple lim A Q (d_bind f g) cs b P"
  using triple_bind [of A Q f "[]" a R lim g cs b P] by simp

lemma triple_then0: "does A Q f [] a R \<Longrightarrow> triple lim A R g cs b P \<Longrightarrow> triple lim A Q (d_then f g) cs b P"
  unfolding d_then_def by (rule triple_bind0)

text \<open>A last operation that takes no bytes.\<close>

lemma triple_bind1: "does A Q f bs a R \<Longrightarrow> triple lim A R (g a) [] b P \<Longrightarrow> triple lim A Q (d_bind f g) bs b P"
  using triple_bind [of A Q f bs a R lim g "[]" b P] by simp

lemma does_ret: "triple lim A Q (d_ret a) [] a Q"
  by (simp add: triple_def d_ret_def)

lemma does_status: "triple lim A Q (d_status (Some a)) [] a Q"
  by (simp add: d_status_def does_ret)

lemma does_update:
  assumes "\<And>w. Q w \<Longrightarrow> \<exists>w'. f w = Some w' \<and> same_outside A w w' \<and> P w'"
  shows "triple lim A Q (d_update f) [] () P"
  unfolding triple_def using assms by (fastforce simp: d_update_def)

lemma does_put: "span p (length bs) \<subseteq> A \<Longrightarrow> (\<And>w. Q w \<Longrightarrow> P (w_put p bs w)) \<Longrightarrow> triple lim A Q (d_put p bs) [] () P"
  by (rule does_update) (auto intro: same_outside_put)

lemma does_stream: "parses g bs a \<Longrightarrow> reads g \<Longrightarrow> does A Q (d_stream g) bs a Q"
proof (rule tripleI)
  fix s :: "'a pb_istream" and w :: world and rest n e
  assume g: "parses g bs a" "reads g" and ok: "stream_ok s" and s: "stream_at s (bs @ rest) (length bs + n) e" and q: "Q w"
  obtain s' where s': "g s = (Some a, s')" "stream_at s' rest n e" by (rule parsesE [OF g(1) s])
  have "stream_ok s'" using advances_ok [OF ok readsD [OF g(2) ok s'(1)]] .
  with s' q show "\<exists>s' w'. d_stream g (s, w) = Some (Some a, s', w') \<and> stream_ok s' \<and> stream_at s' rest n e \<and>
      same_outside A w w' \<and> Q w'"
    by (simp add: d_stream_def)
qed

lemma does_world: "(\<And>w. Q w \<Longrightarrow> triple lim A (\<lambda>w'. w' = w) (f w) bs a P) \<Longrightarrow> triple lim A Q (d_world f) bs a P"
  unfolding triple_def d_world_def by fastforce

lemma does_read:
  assumes "span p (length bs) \<subseteq> A" and "\<And>w. Q w \<Longrightarrow> P (w_put p bs w)" and "n = length bs"
  shows "does A Q (d_read p n) bs () P"
proof -
  have "does A Q (d_put p bs) [] () P" by (rule does_put) (rule assms)+
  then show ?thesis unfolding d_read_def assms(3) by (rule triple_bind1 [where g = "d_put p", OF does_stream [OF parses_read reads_read]])
qed

text \<open>The contents of a substream, which are taken up to their end.\<close>

lemma does_substream:
  assumes f: "does_all A Q f bs a P" and len: "length bs < 2 ^ 32"
    and k: "\<And>sub'. bytes_left sub' = 0 \<Longrightarrow> k (Some a) sub' = d_close sub' (Some a)"
  shows "does A Q (d_bind (d_stream pb_make_string_substream) (\<lambda>sub. d_bind (d_on sub f) (\<lambda>(status, sub'). k status sub')))
    (varint (length bs) @ bs) a P" (is "does A Q ?f _ a P")
proof (rule tripleI)
  fix s :: "'a pb_istream" and w rest n e
  assume ok: "stream_ok s" and s: "stream_at s ((varint (length bs) @ bs) @ rest) (length (varint (length bs) @ bs) + n) e" and q: "Q w"
  have s': "stream_at s (varint (length bs) @ bs @ rest) (length (varint (length bs)) + length bs + n) e" using s by simp
  obtain sub s1 where 1: "pb_make_string_substream s = (Some sub, s1)"
    "stream_at sub (bs @ rest) (length bs) e" "stream_at s1 (bs @ rest) n e"
    by (rule make_substream [OF s' len])
  have sub: "stream_at sub (bs @ rest) (length bs + 0) e" using 1(2) by simp
  note o = substream_open [OF ok 1(1)]
  from tripleE [OF f o(1) sub refl q] obtain sub' w' where
    2: "f (sub, w) = Some (Some a, sub', w')" "stream_ok sub'" "stream_at sub' rest 0 e" "same_outside A w w'" "P w'" by blast
  have b: "bytes_left sub' = 0" using 2(3) by (simp add: stream_at_def)
  have n: "bytes_left s1 = n" using 1(3) by (simp add: stream_at_def)
  have "n \<le> length rest" using s by (simp add: stream_at_def)
  then obtain s2 where 3: "pb_close_string_substream sub' s1 = (Some (), s2)" "stream_at s2 rest n e"
    using close_substream [of sub' "[]" rest e s1 n] 2(3) n by auto
  have "s2 = s1\<lparr>is_source := is_source sub', is_errmsg := is_errmsg sub'\<rparr>"
    using 3(1) b by (simp add: pb_close_string_substream_def)
  moreover have "\<exists>buf pos. is_source sub' = Buf_read buf pos \<and> pos + n \<le> length buf"
  proof -
    obtain buf pos where p: "is_source sub' = Buf_read buf pos" "pos + bytes_left sub' \<le> length buf"
      using 2(2) by (auto simp: stream_ok_def)
    have g: "gives (is_source sub') rest" using 2(3) by (simp add: stream_at_def)
    have "n = 0 \<or> pos + n \<le> length buf"
    proof (cases "n = 0")
      case False
      with g \<open>n \<le> length rest\<close> obtain s3 where "is_callback (is_source sub') n = (True, take n rest, s3)"
        using givesD [OF g] by blast
      then have "length (take n (drop pos buf)) = n" using p(1) \<open>n \<le> length rest\<close>
        by (auto dest: arg_cong [of _ _ length])
      then show ?thesis by auto
    qed simp
    with p show ?thesis by auto
  qed
  ultimately have "stream_ok s2" using n by (auto simp: stream_ok_def)
  with 2 3 show "\<exists>s' w'. ?f (s, w) = Some (Some a, s', w') \<and> stream_ok s' \<and> stream_at s' rest n e \<and> same_outside A w w' \<and> P w'"
    by (simp add: d_bind_def d_stream_def 1(1) d_on_def k [OF b] d_close_def d_then_def d_status_def d_ret_def)
qed

end
