(* ===== verification/PbRound.thy ===== *)
theory PbRound
  imports PbTriple
begin

text \<open>
  The decoder reads what the encoder wrote, value by value: a record that \<open>value_wire\<close> reads out of one place
  of the memory makes the field decoders store a value from which \<open>value_wire\<close> reads the same record.
\<close>

section \<open>Integers\<close>

lemma w_mem_put [simp]: "w_mem (w_put a bs w) = mem_put (w_mem w) a bs"
  by (simp add: w_put_def)

lemma le_val_fixed16: "word_of_nat (le_val (fixed16 v)) = v"
proof -
  define n where "n = unat v"
  have "n div 2 ^ 8 < 256" using unsigned_less [of v, where ?'a = nat] by (simp add: n_def div_less_iff_less_mult)
  then have top: "n div 2 ^ 8 mod 256 + 256 * 0 = n div 2 ^ 8" by simp
  have digit: "n div 2 ^ 0 mod 256 + 256 * (n div 2 ^ 8) = n div 2 ^ 0" by (rule le_digits) simp
  have "le_val (fixed16 v) = n div 2 ^ 0"
    unfolding fixed16_def le_val.simps unat_byte_at n_def [symmetric] top digit ..
  then show ?thesis by (simp add: n_def)
qed

lemma mem_u16_put [simp]: "mem_u16 (mem_put mem a (fixed16 v)) a = v"
proof -
  have "length (fixed16 v) = 2" by (simp add: fixed16_def)
  with mem_bytes_put_same [of "fixed16 v" mem a] show ?thesis by (simp add: mem_u16_def le_val_fixed16)
qed

lemma mem_put_first [simp]: "mem_put mem a (b # bs) a = b"
  by (simp add: mem_put_def)

lemma narrow_signed:
  fixes x :: byte and y :: u16 and z :: u32
  shows "ucast (scast x :: u64) = x" and "ucast (scast y :: u64) = y" and "ucast (scast z :: u64) = z"
    and "scast (ucast (scast x :: u64) :: u32) = (scast x :: u64)" and "scast (ucast (scast y :: u64) :: u32) = (scast y :: u64)"
    and "scast (ucast (scast z :: u64) :: u32) = (scast z :: u64)"
proof -
  have top: "n = 7" if "7 \<le> n" "n < 8" for n :: nat using that by simp
  have top16: "n = 15" if "15 \<le> n" "n < 16" for n :: nat using that by simp
  have top32: "n = 31" if "31 \<le> n" "n < 32" for n :: nat using that by simp
  show "ucast (scast x :: u64) = x" by (rule bit_word_eqI) (auto simp: bit_simps min_def dest: top top16 top32)
  show "ucast (scast y :: u64) = y" by (rule bit_word_eqI) (auto simp: bit_simps min_def dest: top top16 top32)
  show "ucast (scast z :: u64) = z" by (rule bit_word_eqI) (auto simp: bit_simps min_def dest: top top16 top32)
  show "scast (ucast (scast x :: u64) :: u32) = (scast x :: u64)" by (rule bit_word_eqI) (auto simp: bit_simps min_def dest: top top16 top32)
  show "scast (ucast (scast y :: u64) :: u32) = (scast y :: u64)" by (rule bit_word_eqI) (auto simp: bit_simps min_def dest: top top16 top32)
  show "scast (ucast (scast z :: u64) :: u32) = (scast z :: u64)" by (rule bit_word_eqI) (auto simp: bit_simps min_def dest: top top16 top32)
qed

lemma narrow_unsigned:
  fixes x :: byte and y :: u16 and z :: u32
  shows "ucast (ucast x :: u64) = x" and "ucast (ucast y :: u64) = y" and "ucast (ucast z :: u64) = z"
proof -
  show "ucast (ucast x :: u64) = x" by (rule bit_word_eqI) (auto simp: bit_simps)
  show "ucast (ucast y :: u64) = y" by (rule bit_word_eqI) (auto simp: bit_simps)
  show "ucast (ucast z :: u64) = z" by (rule bit_word_eqI) (auto simp: bit_simps)
qed

lemma store_signed_at:
  assumes "signed_at mem field src = Some v"
  obtains bs where "store_signed (data_size field) v = Some (bs, v)" "\<And>m p. signed_at (mem_put m p bs) field p = Some v"
proof -
  have "data_size field \<in> {1, 2, 4, 8}" using assms by (auto simp: signed_at_def split: if_splits)
  with assms show thesis
    by (intro that [of "fst (the (store_signed (data_size field) v))"])
      (auto simp: signed_at_def store_signed_def narrow_signed)
qed

lemma store_unsigned_at:
  assumes "unsigned_at mem field src = Some v"
  obtains bs where "store_unsigned (data_size field) v = Some (bs, v)" "\<And>m p. unsigned_at (mem_put m p bs) field p = Some v"
proof -
  have "data_size field \<in> {1, 2, 4, 8}" using assms by (auto simp: unsigned_at_def split: if_splits)
  with assms show thesis
    by (intro that [of "fst (the (store_unsigned (data_size field) v))"])
      (auto simp: unsigned_at_def store_unsigned_def narrow_unsigned)
qed

section \<open>Strings\<close>

lemma string_length_props:
  "string_length mem p k \<le> k" "i < string_length mem p k \<Longrightarrow> mem (p + word_of_nat i) \<noteq> 0"
  "string_length mem p k < k \<Longrightarrow> mem (p + word_of_nat (string_length mem p k)) = 0"
proof (induction k arbitrary: p i)
  case (Suc k)
  {
    case 1
    show ?case using Suc(1) [of "p + 1"] by (simp add: string_length.simps [of mem p "Suc k"])
  next
    case 2
    then show ?case
      using Suc(2) [of "i - 1" "p + 1"] by (cases i) (auto simp: string_length.simps [of mem p "Suc k"] add.assoc split: if_splits)
  next
    case 3
    then show ?case
      using Suc(3) [of "p + 1"] by (auto simp: string_length.simps [of mem p "Suc k"] add.assoc split: if_splits)
  }
qed (simp_all add: string_length.simps)

lemma string_lengthI:
  "(\<And>i. i < n \<Longrightarrow> mem (p + word_of_nat i) \<noteq> 0) \<Longrightarrow> mem (p + word_of_nat n) = 0 \<Longrightarrow> n < k \<Longrightarrow> string_length mem p k = n"
proof (induction n arbitrary: p k)
  case 0
  then show ?case by (simp add: string_length.simps [of mem p k])
next
  case (Suc n)
  have "string_length mem (p + 1) (k - 1) = n"
    using Suc.prems(1) [of "Suc i" for i] Suc.prems(2,3) by (intro Suc.IH) (auto simp: add.assoc)
  with Suc.prems(1) [of 0] Suc.prems(3) show ?case by (simp add: string_length.simps [of mem p k])
qed

lemma string_length_less:
  assumes "mem (p + word_of_nat i) = 0" and "i < k"
  shows "string_length mem p k < k"
  using string_length_props(2) [of i mem p k] assms string_length_props(1) [of mem p k] by fastforce

lemma mem_bytes_nth: "i < n \<Longrightarrow> mem_bytes mem p n ! i = mem (p + word_of_nat i)"
  by (simp add: mem_bytes_def)

section \<open>Values\<close>

text \<open>The entries whose values come back. A \<open>pb_bytes_array_t\<close> has room for its size; the entry of an array has
  less than $2^{32}$ bytes, as the decoder computes the place of an item with 32 bits.\<close>

definition round_entry :: "pb_field \<Rightarrow> bool" where
  "round_entry field \<longleftrightarrow>
     static_entry field \<and> unat (pf_tag field) < 2 ^ 29 \<and> pf_tag field \<noteq> 0 \<and> 0 < data_size field \<and>
     (PB_LTYPE (pb_type field) = PB_LTYPE_BYTES \<longrightarrow> 4 \<le> unat (data_size field)) \<and>
     (let htype = PB_HTYPE (pb_type field)
      in htype = PB_HTYPE_REQUIRED \<or>
         (htype = PB_HTYPE_OPTIONAL \<or>
          htype = PB_HTYPE_REPEATED \<and> unat (data_size field) * unat (array_size field) < 2 ^ 32) \<and>
         size_offset field \<noteq> 0)"

lemma does_dec_store:
  assumes "store = Some (bs, v)" and "span p (length bs) \<subseteq> A" and "\<And>w. P (w_put p bs w)"
  shows "triple lim A Q (dec_store store p v) [] () P"
  unfolding dec_store_def assms(1)
  by (simp, rule triple_then0 [where R = P], rule does_put, rule assms(2), rule assms(3), rule does_ret)

lemma does_bool:
  assumes "span p 1 \<subseteq> A"
  shows "does A Q (pb_dec_bool field p) (varint (unat (if b then 1 else 0 :: u64))) () (\<lambda>w. safe_read_bool (w_mem w) p = b)"
proof -
  let ?n = "unat (if b then 1 else 0 :: u64)"
  have "does A Q (d_put p [if (word_of_nat ?n :: u32) \<noteq> 0 then 1 else 0]) [] () (\<lambda>w. safe_read_bool (w_mem w) p = b)"
    using assms by (intro does_put) (simp_all add: safe_read_bool_def w_put_def)
  moreover have "parses pb_decode_varint32 (varint ?n) (word_of_nat ?n)" by (rule parses_varint32) simp
  ultimately show ?thesis
    unfolding pb_dec_bool_def
    by (intro triple_bind1 [OF does_stream [OF _ reads_some_reads [OF reads_varint32]]])
qed

lemma does_integers:
  fixes field :: pb_field and p :: addr
  defines "A \<equiv> span p (unat (data_size field))"
  shows "signed_at mem field src = Some v \<Longrightarrow>
      does A Q (pb_dec_varint field p) (varint (unat v)) () (\<lambda>w. signed_at (w_mem w) field p = Some v)"
    and "unsigned_at mem field src = Some v \<Longrightarrow>
      does A Q (pb_dec_uvarint field p) (varint (unat v)) () (\<lambda>w. unsigned_at (w_mem w) field p = Some v)"
    and "signed_at mem field src = Some v \<Longrightarrow>
      does A Q (pb_dec_svarint field p) (varint (unat (zigzag v))) () (\<lambda>w. signed_at (w_mem w) field p = Some v)"
proof -
  note stream = triple_bind1 [OF does_stream [OF parses_varint reads_some_reads [OF reads_varint]]]
  {
    assume v: "signed_at mem field src = Some v"
    obtain bs where bs: "store_signed (data_size field) v = Some (bs, v)" "\<And>m p. signed_at (mem_put m p bs) field p = Some v"
      using store_signed_at [OF v] by blast
    have store: "does A Q (dec_store (store_signed (data_size field) v) p v) [] () (\<lambda>w. signed_at (w_mem w) field p = Some v)"
      by (rule does_dec_store [OF bs(1)]) (simp_all add: A_def store_lengths(1) [OF bs(1)] w_put_def bs(2))
    have "(if data_size field = 8 then v else scast (ucast v :: u32)) = v"
      using v by (auto simp: signed_at_def narrow_signed split: if_splits)
    with store show "does A Q (pb_dec_varint field p) (varint (unat v)) () (\<lambda>w. signed_at (w_mem w) field p = Some v)"
      unfolding pb_dec_varint_def Let_def by (intro stream) simp
    show "does A Q (pb_dec_svarint field p) (varint (unat (zigzag v))) () (\<lambda>w. signed_at (w_mem w) field p = Some v)"
      unfolding pb_dec_svarint_def
      by (rule triple_bind1 [OF does_stream [OF parses_svarint reads_some_reads [OF reads_svarint]]]) (rule store)
  }
  assume v: "unsigned_at mem field src = Some v"
  obtain bs where bs: "store_unsigned (data_size field) v = Some (bs, v)" "\<And>m p. unsigned_at (mem_put m p bs) field p = Some v"
    using store_unsigned_at [OF v] by blast
  show "does A Q (pb_dec_uvarint field p) (varint (unat v)) () (\<lambda>w. unsigned_at (w_mem w) field p = Some v)"
    unfolding pb_dec_uvarint_def
    by (rule stream, rule does_dec_store [OF bs(1)]) (simp_all add: A_def store_lengths(2) [OF bs(1)] w_put_def bs(2))
qed

lemma does_fixed:
  "span p 4 \<subseteq> A \<Longrightarrow> does A Q (pb_dec_fixed32 field p) (fixed32 v) () (\<lambda>w. w_u32 w p = v)"
  "span p 8 \<subseteq> A \<Longrightarrow> does A Q (pb_dec_fixed64 field p) (fixed64 v') () (\<lambda>w. w_u64 w p = v')"
proof -
  note stream = triple_bind1 [OF does_stream [OF _ reads_some_reads]]
  show "span p 4 \<subseteq> A \<Longrightarrow> does A Q (pb_dec_fixed32 field p) (fixed32 v) () (\<lambda>w. w_u32 w p = v)"
    unfolding pb_dec_fixed32_def by (rule stream [OF parses_fixed32 reads_fixed32], rule does_put) simp_all
  show "span p 8 \<subseteq> A \<Longrightarrow> does A Q (pb_dec_fixed64 field p) (fixed64 v') () (\<lambda>w. w_u64 w p = v')"
    unfolding pb_dec_fixed64_def by (rule stream [OF parses_fixed64 reads_fixed64], rule does_put) simp_all
qed

lemma does_length:
  "n < 2 ^ 32 \<Longrightarrow> triple lim A Q (g (word_of_nat n)) cs b P \<Longrightarrow>
    triple lim A Q (d_bind (d_stream pb_decode_varint32) g) (varint n @ cs) b P"
  by (rule triple_bind [OF does_stream [OF parses_varint32 reads_some_reads [OF reads_varint32]]])

lemma does_bytes:
  fixes field :: pb_field
  assumes "PB_ATYPE (pb_type field) = PB_ATYPE_STATIC" and "length bs + 4 \<le> unat (data_size field)"
  shows "does (span p (unat (data_size field))) Q (pb_dec_bytes env field p) (varint (length bs) @ bs) ()
    (\<lambda>w. w_u32 w p = word_of_nat (length bs) \<and> mem_bytes (w_mem w) (p + 4) (length bs) = bs)"
proof -
  let ?n = "length bs" and ?A = "span p (unat (data_size field))"
  let ?P = "\<lambda>w. w_u32 w p = word_of_nat ?n \<and> mem_bytes (w_mem w) (p + 4) ?n = bs"
  have n: "?n < 2 ^ 32" using assms(2) unat_u32_below [of "data_size field"] by simp
  have u: "unat (word_of_nat ?n :: u32) = ?n" by (rule unat_u32_of_nat [OF n])
  have small: "size_add ?n 4 = ?n + 4" using n by (intro size_add_exact) simp
  have a: "span (p + 4) ?n \<subseteq> ?A"
    using span_shift [of 4 ?n p] span_mono [OF assms(2), of p] n by (simp add: add.commute)
  have head: "span p 4 \<subseteq> ?A" using assms(2) by (intro span_mono) simp
  have apart: "span p 4 \<inter> span (p + 4) ?n = {}" using n by (intro span_apart(1)) simp_all
  have "does ?A Q (d_then (d_put p (fixed32 (word_of_nat ?n))) (d_read (p + 4) ?n)) bs () ?P"
  proof (rule triple_then0)
    show "does ?A Q (d_put p (fixed32 (word_of_nat ?n))) [] () (\<lambda>w. w_u32 w p = word_of_nat ?n)"
      using head by (intro does_put) (simp_all add: w_put_def)
    show "does ?A (\<lambda>w. w_u32 w p = word_of_nat ?n) (d_read (p + 4) ?n) bs () ?P"
    proof (rule does_read [OF a _ refl])
      fix w
      assume "w_u32 w p = word_of_nat ?n"
      moreover have "?n \<le> 2 ^ 64" using n by simp
      ultimately show "?P (w_put (p + 4) bs w)"
        by (simp only: w_mem_put mem_u32_put_other [OF apart] mem_bytes_put_same simp_thms)
    qed
  qed
  then show ?thesis
    unfolding pb_dec_bytes_def
    by (intro does_length [OF n])
      (simp add: u small Let_def assms(1) assms(2) [unfolded not_less [symmetric]] not_less)
qed

lemma does_put_status:
  fixes f :: "('s, 'a) dop"
  assumes "does A Q f bs a R" and "span q (length cs) \<subseteq> A" and "\<And>w. R w \<Longrightarrow> P (w_put q cs w)"
  shows "does A Q (\<lambda>st. case f st of None \<Rightarrow> None | Some (status, st') \<Rightarrow> d_then (d_put q cs) (d_status status) st') bs a P"
proof (rule tripleI)
  fix s :: "'s pb_istream" and w rest n e
  assume h: "stream_ok s" "stream_at s (bs @ rest) (length bs + n) e" "True" "Q w"
  from tripleE [OF assms(1) h] obtain s1 w1 where
    1: "f (s, w) = Some (Some a, s1, w1)" "stream_ok s1" "stream_at s1 rest n e" "same_outside A w w1" "R w1" by blast
  have "same_outside A w (w_put q cs w1)" using same_outside_trans [OF 1(4) same_outside_put [OF assms(2)]] .
  with 1 assms(3) [OF 1(5)] show "\<exists>s' w'. (case f (s, w) of None \<Rightarrow> None
      | Some (status, st') \<Rightarrow> d_then (d_put q cs) (d_status status) st') = Some (Some a, s', w') \<and>
      stream_ok s' \<and> stream_at s' rest n e \<and> same_outside A w w' \<and> P w'"
    by (simp add: d_then_def d_bind_def d_update_def d_status_def d_ret_def)
qed

lemma does_string:
  fixes field :: pb_field
  assumes "PB_ATYPE (pb_type field) = PB_ATYPE_STATIC" and "length bs < unat (data_size field)" and "0 \<notin> set bs"
  shows "does (span p (unat (data_size field))) Q (pb_dec_string env field p) (varint (length bs) @ bs) ()
    (\<lambda>w. string_length (w_mem w) p (unat (data_size field)) = length bs \<and> mem_bytes (w_mem w) p (length bs) = bs)"
proof -
  let ?n = "length bs" and ?k = "unat (data_size field)"
  let ?len = "word_of_nat ?n :: u32" and ?A = "span p (unat (data_size field))"
  let ?P = "\<lambda>w. string_length (w_mem w) p ?k = ?n \<and> mem_bytes (w_mem w) p ?n = bs"
  have n: "?n + 1 < 2 ^ 32" using assms(2) unat_u32_below [of "data_size field"] by simp
  then have u: "unat ?len = ?n" and u1: "unat (?len + 1) = ?n + 1"
    using unat_u32_of_nat [of "?n + 1"] by (simp_all add: unat_u32_of_nat add.commute)
  have c: "(ucast ?len :: u64) = word_of_nat ?n" using u by (metis of_nat_unat)
  have a: "span p ?n \<subseteq> ?A" using assms(2) by (intro span_mono) simp
  have z: "span (p + word_of_nat ?n) 1 \<subseteq> ?A"
    using span_shift [of ?n 1 p] span_mono [of "?n + 1" ?k p] assms(2) n by simp
  have apart: "span p ?n \<inter> span (p + word_of_nat ?n) (length [0 :: byte]) = {}"
    using n by (intro span_apart(1)) (simp_all add: unat_of_nat)
  have small: "?n \<le> 2 ^ 64" using n by simp
  have fin: "?P (w_put (p + word_of_nat ?n) [0] w)" if "mem_bytes (w_mem w) p ?n = bs" for w
  proof -
    let ?m = "mem_put (w_mem w) (p + word_of_nat ?n) [0]"
    have b: "mem_bytes ?m p ?n = bs" using mem_bytes_put_other [OF apart small] that by simp
    have "string_length ?m p ?k = ?n"
    proof (rule string_lengthI)
      fix i assume i: "i < ?n"
      have "?m (p + word_of_nat i) = bs ! i" using mem_bytes_nth [OF i, of ?m p] b by simp
      then show "?m (p + word_of_nat i) \<noteq> 0" using assms(3) i by (metis nth_mem)
    qed (use assms(2) in simp_all)
    with b show ?thesis by simp
  qed
  have read: "does ?A Q (d_read p ?n) bs () (\<lambda>w. mem_bytes (w_mem w) p ?n = bs)"
    using small by (intro does_read a refl) (simp add: mem_bytes_put_same)
  have "does ?A Q (\<lambda>st. case d_read p ?n st of None \<Rightarrow> None
      | Some (status, st') \<Rightarrow> d_then (d_put (p + word_of_nat ?n) [0]) (d_status status) st') bs () ?P"
    by (rule does_put_status [OF read]) (use z fin in simp_all)
  moreover have "\<not> ?len + 1 < ?len" "\<not> data_size field < ?len + 1"
    using u u1 assms(2) by (simp_all add: word_less_nat_alt)
  ultimately show ?thesis
    unfolding pb_dec_string_def
    by (intro does_length) (use n in simp, unfold u c, simp add: Let_def assms(1))
qed

lemma does_fixed_length_bytes:
  fixes field :: pb_field
  assumes "length bs = unat (data_size field)" and "0 < data_size field"
  shows "does (span p (unat (data_size field))) Q (pb_dec_fixed_length_bytes field p) (varint (length bs) @ bs) ()
    (\<lambda>w. mem_bytes (w_mem w) p (length bs) = bs)"
proof -
  have len: "word_of_nat (length bs) = data_size field" by (simp add: assms(1))
  have n: "length bs < 2 ^ 32" using assms(1) unat_u32_below [of "data_size field"] by simp
  then have same: "mem_bytes (mem_put m p bs) p (length bs) = bs" for m by (intro mem_bytes_put_same) simp
  have "does (span p (unat (data_size field))) Q (d_read p (unat (data_size field))) bs () (\<lambda>w. mem_bytes (w_mem w) p (length bs) = bs)"
    by (rule does_read [OF _ _ assms(1) [symmetric]]) (simp_all only: w_mem_put same assms(1) [symmetric] order_refl)
  then show ?thesis
    unfolding pb_dec_fixed_length_bytes_def using assms(2)
    by (intro does_length [OF n]) (auto simp: len)
qed

text \<open>An item whose string, or whose submessage by \<open>sub\<close>, ends within its member.\<close>

definition item_ends ::
  "(pb_field list \<Rightarrow> addr \<Rightarrow> bool) \<Rightarrow> (addr \<Rightarrow> pb_field list) \<Rightarrow> mem \<Rightarrow> pb_field \<Rightarrow> addr \<Rightarrow> bool" where
  "item_ends sub tables mem field p \<longleftrightarrow>
     (PB_LTYPE (pb_type field) = PB_LTYPE_STRING \<longrightarrow> (\<exists>i < unat (data_size field). mem (p + word_of_nat i) = 0)) \<and>
     (PB_LTYPE (pb_type field) = PB_LTYPE_SUBMESSAGE \<longrightarrow> sub (tables (pf_ptr field)) p)"

lemma string_no_zero: "0 \<notin> set (mem_bytes mem p (string_length mem p k))"
  using string_length_props(2) [of _ mem p k] by (auto simp: mem_bytes_def)

lemma does_scalar:
  assumes e: "round_entry field" and "PB_LTYPE (pb_type field) \<noteq> PB_LTYPE_SUBMESSAGE" and p: "p \<noteq> 0"
    and v: "value_wire msg tables mem field src = Some v" and str: "item_ends sub tables mem field src"
  shows "does (span p (unat (data_size field))) Q (PB_DECODERS decode noinit env (PB_LTYPE (pb_type field)) field p)
    (wire_payload v) () (\<lambda>w. value_wire (msg' w) tables' (w_mem w) field p = Some v)"
proof -
  let ?l = "PB_LTYPE (pb_type field)" and ?A = "span p (unat (data_size field))" and ?t = "pf_tag field"
  have st: "PB_ATYPE (pb_type field) = PB_ATYPE_STATIC" and s: "static_entry field" and pos: "0 < data_size field"
    and b4: "?l = PB_LTYPE_BYTES \<Longrightarrow> 4 \<le> unat (data_size field)"
    using e by (auto simp: round_entry_def static_entry_def Let_def)
  have pos': "0 < unat (data_size field)" using pos by (simp add: word_less_nat_alt)
  have ints: "\<And>P. does ?A Q f bs () P \<Longrightarrow> (\<And>w. P w \<Longrightarrow> value_wire (msg' w) tables' (w_mem w) field p = Some v) \<Longrightarrow>
      does ?A Q f bs () (\<lambda>w. value_wire (msg' w) tables' (w_mem w) field p = Some v)" for f :: "('a, unit) dop" and bs
    by (erule triple_conseq) auto
  from itype_cases [of ?l] assms(2) s consider
    (bool) "?l = PB_LTYPE_BOOL" | (varint) "?l = PB_LTYPE_VARINT" | (uvarint) "?l = PB_LTYPE_UVARINT"
    | (svarint) "?l = PB_LTYPE_SVARINT" | (fixed32) "?l = PB_LTYPE_FIXED32" | (fixed64) "?l = PB_LTYPE_FIXED64"
    | (bytes) "?l = PB_LTYPE_BYTES" | (string) "?l = PB_LTYPE_STRING" | (fixed) "?l = PB_LTYPE_FIXED_LENGTH_BYTES"
    by (auto simp: static_entry_def Let_def)
  then show ?thesis
  proof cases
    case bool
    with v have "v = Varint ?t (if safe_read_bool mem src then 1 else 0)" by (simp add: value_wire_def Let_def)
    with bool pos' show ?thesis
      by (intro ints [where P = "\<lambda>w. safe_read_bool (w_mem w) p = safe_read_bool mem src"])
        (simp_all add: PB_DECODERS_def value_wire_def Let_def does_bool span_mono Suc_leI del: One_nat_def)
  next
    case varint
    with v obtain x where "signed_at mem field src = Some x" "v = Varint ?t x" by (auto simp: value_wire_def Let_def)
    with varint show ?thesis
      by (intro ints [where P = "\<lambda>w. signed_at (w_mem w) field p = Some x"])
        (simp_all add: PB_DECODERS_def value_wire_def Let_def does_integers(1))
  next
    case uvarint
    with v obtain x where "unsigned_at mem field src = Some x" "v = Varint ?t x" by (auto simp: value_wire_def Let_def)
    with uvarint show ?thesis
      by (intro ints [where P = "\<lambda>w. unsigned_at (w_mem w) field p = Some x"])
        (simp_all add: PB_DECODERS_def value_wire_def Let_def does_integers(2))
  next
    case svarint
    with v obtain x where "signed_at mem field src = Some x" "v = Varint ?t (zigzag x)" by (auto simp: value_wire_def Let_def)
    with svarint show ?thesis
      by (intro ints [where P = "\<lambda>w. signed_at (w_mem w) field p = Some x"])
        (simp_all add: PB_DECODERS_def value_wire_def Let_def does_integers(3))
  next
    case fixed32
    with v have "v = Fix32 ?t (mem_u32 mem src)" by (simp add: value_wire_def Let_def)
    with fixed32 s show ?thesis
      by (intro ints [where P = "\<lambda>w. w_u32 w p = mem_u32 mem src"])
        (simp_all add: PB_DECODERS_def value_wire_def Let_def does_fixed span_mono static_entry_def)
  next
    case fixed64
    with v have "v = Fix64 ?t (mem_u64 mem src)" by (simp add: value_wire_def Let_def)
    with fixed64 s show ?thesis
      by (intro ints [where P = "\<lambda>w. w_u64 w p = mem_u64 mem src"])
        (simp_all add: PB_DECODERS_def value_wire_def Let_def does_fixed span_mono static_entry_def)
  next
    case bytes
    then obtain bs where bs: "v = Bytes ?t bs" "length bs + 4 \<le> unat (data_size field)"
      using v st b4 by (auto simp: value_wire_def Let_def split: if_splits)
    then have "unat (word_of_nat (length bs) :: u32) = length bs"
      using unat_u32_below [of "data_size field"] by (intro unat_u32_of_nat) simp
    note len = this
    show ?thesis
    proof (rule ints)
      show "does ?A Q (PB_DECODERS decode noinit env ?l field p) (wire_payload v) ()
          (\<lambda>w. w_u32 w p = word_of_nat (length bs) \<and> mem_bytes (w_mem w) (p + 4) (length bs) = bs)"
        using does_bytes [OF st bs(2)] bytes bs(1) by (simp add: PB_DECODERS_def)
    qed (use bytes bs p len in \<open>simp add: value_wire_def Let_def\<close>)
  next
    case string
    let ?bs = "mem_bytes mem src (string_length mem src (unat (data_size field)))"
    have "string_length mem src (unat (data_size field)) < unat (data_size field)"
      using str string by (auto simp: item_ends_def intro: string_length_less)
    then obtain bs where bs: "v = Bytes ?t bs" "length bs < unat (data_size field)" "0 \<notin> set bs"
      using v st string pos' string_no_zero [of mem src] by (auto simp: value_wire_def Let_def split: if_splits)
    show ?thesis
    proof (rule ints)
      show "does ?A Q (PB_DECODERS decode noinit env ?l field p) (wire_payload v) ()
          (\<lambda>w. string_length (w_mem w) p (unat (data_size field)) = length bs \<and> mem_bytes (w_mem w) p (length bs) = bs)"
        using does_string [OF st bs(2,3)] string bs(1) by (simp add: PB_DECODERS_def)
    qed (use string bs(1) p st in \<open>simp add: value_wire_def Let_def\<close>)
  next
    case fixed
    then have bs: "v = Bytes ?t (mem_bytes mem src (unat (data_size field)))" using v by (simp add: value_wire_def Let_def)
    show ?thesis
    proof (rule ints)
      show "does ?A Q (PB_DECODERS decode noinit env ?l field p) (wire_payload v) ()
          (\<lambda>w. mem_bytes (w_mem w) p (unat (data_size field)) = mem_bytes mem src (unat (data_size field)))"
        using does_fixed_length_bytes [of "mem_bytes mem src (unat (data_size field))" field] pos fixed bs
        by (simp add: PB_DECODERS_def)
    qed (use fixed bs in \<open>simp add: value_wire_def Let_def\<close>)
  qed
qed

end
