(* ===== verification/PbFrame.thy ===== *)
theory PbFrame
  imports PbRound
begin

text \<open>
  What the encoder reads of a struct, and what the default values are: both depend only on the members of the
  struct, its footprint, so that decoding one member leaves what was read out of the others as it is.
\<close>

section \<open>Tables\<close>

fun round_table :: "nat \<Rightarrow> (addr \<Rightarrow> pb_field list) \<Rightarrow> pb_field list \<Rightarrow> bool" where
  "round_table 0 tables fds = False"
| "round_table (Suc n) tables fds =
     (fds \<noteq> [] \<and> distinct (map pf_tag fds) \<and>
      (\<forall>field \<in> set fds. round_entry field \<and>
        (PB_LTYPE (pb_type field) = PB_LTYPE_SUBMESSAGE \<longrightarrow> pf_ptr field \<noteq> 0 \<and> round_table n tables (tables (pf_ptr field)))))"

lemma round_static: "round_table n tables fds \<Longrightarrow> static_table n tables fds"
  by (induction n arbitrary: fds) (auto simp: round_entry_def field_at_def Let_def)

lemma round_entryD:
  assumes "round_entry field"
  shows "PB_ATYPE (pb_type field) = PB_ATYPE_STATIC" "PB_LTYPE (pb_type field) < PB_LTYPES_COUNT"
    "PB_LTYPE (pb_type field) \<noteq> PB_LTYPE_EXTENSION" "static_entry field" "0 < data_size field" "pf_tag field \<noteq> 0"
    "unat (pf_tag field) < 2 ^ 29" "0 < unat (data_size field)"
  using assms by (auto simp: round_entry_def static_entry_def Let_def word_less_nat_alt)

lemma round_htype:
  assumes "round_entry field"
  obtains (required) "PB_HTYPE (pb_type field) = PB_HTYPE_REQUIRED"
    | (optional) "PB_HTYPE (pb_type field) = PB_HTYPE_OPTIONAL" "size_offset field \<noteq> 0"
    | (repeated) "PB_HTYPE (pb_type field) = PB_HTYPE_REPEATED" "size_offset field \<noteq> 0"
        "unat (data_size field) * unat (array_size field) < 2 ^ 32"
  using assms by (auto simp: round_entry_def Let_def)

lemma size_addr_other: "size_offset field \<noteq> 0 \<Longrightarrow> size_addr pData field \<noteq> pData"
proof
  assume "size_offset field \<noteq> 0" and "size_addr pData field = pData"
  then have "(scast (size_offset field) :: u64) = 0" by (simp add: size_addr_def)
  then have "ucast (scast (size_offset field) :: u64) = (0 :: u32)" by simp
  then have "size_offset field = 0" by (simp only: narrow_signed)
  with \<open>size_offset field \<noteq> 0\<close> show False ..
qed

text \<open>The positions of an iterator.\<close>

lemma positions_induct [consumes 1, case_names start step]:
  assumes "iter \<in> positions fds dest" and "P (snd (pb_field_iter_begin fds dest))"
    and "\<And>it it'. it \<in> positions fds dest \<Longrightarrow> P it \<Longrightarrow> pb_field_iter_next it = (True, it') \<Longrightarrow> P it'"
  shows "P iter"
proof -
  have step: "(\<And>x. x \<in> set (visit_list it) \<Longrightarrow> x \<in> positions fds dest) \<Longrightarrow> P it \<Longrightarrow> \<forall>x \<in> set (visit_list it). P x" for it
  proof (induction it rule: visit_list.induct)
    case (1 it)
    obtain b it' where n: "pb_field_iter_next it = (b, it')" by fastforce
    show ?case
    proof (cases b)
      case True
      have "P it'" using assms(3) [of it it'] 1(2) [of it] 1(3) n True visit_list_first [of it] by simp
      then have "\<forall>x \<in> set (visit_list it'). P x"
        using 1(2) n True by (intro 1(1) [OF n [symmetric]]) (simp_all add: visit_list.simps [of it])
      with 1(3) n True show ?thesis by (simp add: visit_list.simps [of it])
    next
      case False
      with 1(3) n show ?thesis by (simp add: visit_list.simps [of it])
    qed
  qed
  obtain b it where b: "pb_field_iter_begin fds dest = (b, it)" by fastforce
  with assms(1) have "b" and i: "iter \<in> set (visit_list it)" by (auto simp: positions_def split: bool.splits)
  with b have "positions fds dest = set (visit_list it)" by (simp add: positions_def)
  with step [of it] assms(2) b i show ?thesis by simp
qed

lemma positions_size:
  assumes "round_table (Suc n) tables fds" and "iter \<in> positions fds dest"
  shows "it_pSize iter = size_addr (it_pData iter) (it_field iter)"
  using assms(2)
proof (induction rule: positions_induct)
  case start
  then show ?case by (simp add: pb_field_iter_begin_def it_field_def Let_def)
next
  case (step it it')
  have "round_entry (it_field it)" using assms(1) positions_field [OF step(1)] by simp
  then have "PB_HTYPE (pb_type (it_field it)) \<noteq> PB_HTYPE_ONEOF" by (cases rule: round_htype) auto
  with step show ?case by (auto simp: pb_field_iter_next_def Let_def it_field_def split: if_splits)
qed

section \<open>The items of a field\<close>

definition present_items :: "mem \<Rightarrow> pb_field \<Rightarrow> addr \<Rightarrow> addr list" where
  "present_items mem field pData =
     (let htype = PB_HTYPE (pb_type field); pSize = size_addr pData field
      in if htype = PB_HTYPE_REQUIRED then [pData]
         else if htype = PB_HTYPE_OPTIONAL then (if safe_read_bool mem pSize then [pData] else [])
         else item_addrs pData (ucast (data_size field)) (unat (mem_u32 mem pSize)))"

definition packed_entry :: "pb_field \<Rightarrow> bool" where
  "packed_entry field \<longleftrightarrow> PB_HTYPE (pb_type field) = PB_HTYPE_REPEATED \<and> PB_LTYPE (pb_type field) \<le> PB_LTYPE_LAST_PACKABLE"

declare length_item_addrs [simp]

lemma item_addrs_nth: "i < n \<Longrightarrow> item_addrs p step n ! i = p + word_of_nat i * step"
proof (induction n arbitrary: p i)
  case (Suc n)
  then show ?case by (cases i) (simp_all add: algebra_simps)
qed simp

lemma item_addr_nth:
  assumes "unat (data_size field) * unat (array_size field) < 2 ^ 32" and "i < array_size field"
  shows "item_addr p field i = p + word_of_nat (unat i) * ucast (data_size field)"
proof -
  have "unat (data_size field) * unat i \<le> unat (data_size field) * unat (array_size field)"
    using assms(2) by (simp add: word_less_nat_alt)
  then have "unat (data_size field) * unat i < 2 ^ 32" using assms(1) by (rule le_less_trans)
  then have "unat (data_size field * i) = unat (data_size field) * unat i"
    by (simp add: unat_word_ariths(2))
  then have "(ucast (data_size field * i) :: u64) = word_of_nat (unat (data_size field) * unat i)" by (metis of_nat_unat)
  then show ?thesis by (simp add: item_addr_def mult.commute)
qed

text \<open>What \<open>field_wire\<close> says for such an entry.\<close>

lemma field_wire_items:
  assumes "round_entry field"
  shows "field_wire out val check mem field pData =
    (let items = present_items mem field pData
     in if PB_HTYPE (pb_type field) = PB_HTYPE_REQUIRED \<and> pData = 0 then None
        else if PB_HTYPE (pb_type field) = PB_HTYPE_REPEATED \<and> unat (array_size field) < length items then None
        else if packed_entry field then
          (if items = [] then Some []
           else map_option (\<lambda>vs. [Bytes (pf_tag field) (concat (map wire_payload vs))]) (all_some (map (val field) items)))
        else all_some (map (val field) items))"
  using assms
proof (cases rule: round_htype)
  case required
  with round_entryD(1,2) [OF assms] show ?thesis
    by (auto simp: field_wire_def basic_wire_def present_items_def packed_entry_def Let_def not_le split: option.split)
next
  case optional
  with round_entryD(1,2) [OF assms] show ?thesis
    by (auto simp: field_wire_def basic_wire_def present_items_def packed_entry_def Let_def not_le split: option.split)
next
  case repeated
  have "(item_addrs pData s k = []) = (k = 0)" for s k by (cases k) simp_all
  with repeated round_entryD(1,2) [OF assms] show ?thesis
    by (auto simp: field_wire_def basic_wire_def array_wire_def present_items_def packed_entry_def Let_def not_le)
qed

section \<open>Memories that agree\<close>

definition agree :: "addr set \<Rightarrow> mem \<Rightarrow> mem \<Rightarrow> bool" where
  "agree A m m' \<longleftrightarrow> (\<forall>x \<in> A. m x = m' x)"

lemma agree_mono: "agree A m m' \<Longrightarrow> B \<subseteq> A \<Longrightarrow> agree B m m'"
  by (auto simp: agree_def)

lemma same_outside_agree: "same_outside A w w' \<Longrightarrow> A \<inter> B = {} \<Longrightarrow> agree B (w_mem w) (w_mem w')"
  by (auto simp: same_outside_def agree_def)

lemma agree_byte: "agree (span p k) m m' \<Longrightarrow> i < k \<Longrightarrow> i < 2 ^ 64 \<Longrightarrow> m (p + word_of_nat i) = m' (p + word_of_nat i)"
  by (simp add: agree_def span_def unat_of_nat)

lemma agree_bytes:
  assumes "agree (span p k) m m'" and "j + n \<le> k" and "k \<le> 2 ^ 64"
  shows "mem_bytes m (p + word_of_nat j) n = mem_bytes m' (p + word_of_nat j) n"
proof (rule nth_equalityI)
  fix i assume "i < length (mem_bytes m (p + word_of_nat j) n)"
  then have i: "i < n" by simp
  have "m (p + word_of_nat (j + i)) = m' (p + word_of_nat (j + i))" using assms(2,3) i by (intro agree_byte [OF assms(1)]) linarith+
  with i show "mem_bytes m (p + word_of_nat j) n ! i = mem_bytes m' (p + word_of_nat j) n ! i"
    by (simp add: mem_bytes_nth add.assoc)
qed simp

lemma agree_words:
  "agree (span p 1) m m' \<Longrightarrow> m p = m' p"
  "agree (span p 2) m m' \<Longrightarrow> mem_u16 m p = mem_u16 m' p"
  "agree (span p 4) m m' \<Longrightarrow> mem_u32 m p = mem_u32 m' p"
  "agree (span p 8) m m' \<Longrightarrow> mem_u64 m p = mem_u64 m' p"
  using agree_byte [of p 1 m m' 0] agree_bytes [of p 2 m m' 0 2] agree_bytes [of p 4 m m' 0 4] agree_bytes [of p 8 m m' 0 8]
  by (simp_all add: mem_u16_def mem_u32_def mem_u64_def)

lemma agree_string:
  assumes "agree (span p k) m m'" and "k \<le> 2 ^ 64"
  shows "string_length m p k = string_length m' p k"
proof (cases "string_length m p k < k")
  case True
  have eq: "m (p + word_of_nat i) = m' (p + word_of_nat i)" if "i < k" for i
    using assms that by (intro agree_byte) simp_all
  have "string_length m' p k = string_length m p k"
  proof (rule string_lengthI [OF _ _ True])
    show "m' (p + word_of_nat i) \<noteq> 0" if "i < string_length m p k" for i
      using string_length_props(2) [OF that] eq [of i] that True by simp
    show "m' (p + word_of_nat (string_length m p k)) = 0"
      using string_length_props(3) [OF True] eq [OF True] by simp
  qed
  then show ?thesis ..
next
  case False
  then have full: "string_length m p k = k" using string_length_props(1) [of m p k] by simp
  have "\<not> string_length m' p k < k"
  proof
    assume l: "string_length m' p k < k"
    have "m (p + word_of_nat (string_length m' p k)) = m' (p + word_of_nat (string_length m' p k))"
      using assms l by (intro agree_byte) simp_all
    with string_length_props(3) [OF l] string_length_props(2) [of "string_length m' p k" m p k] full l show False by simp
  qed
  with full string_length_props(1) [of m' p k] show ?thesis by simp
qed

lemma agree_value:
  assumes e: "round_entry field" and a: "agree (span p (unat (data_size field))) m m'"
    and sub: "PB_LTYPE (pb_type field) = PB_LTYPE_SUBMESSAGE \<Longrightarrow> msg (tables (pf_ptr field)) p = msg' (tables (pf_ptr field)) p"
  shows "value_wire msg tables m field p = value_wire msg' tables m' field p"
proof -
  let ?l = "PB_LTYPE (pb_type field)" and ?k = "unat (data_size field)"
  have k: "?k < 2 ^ 32" by (rule unat_u32_below)
  have less: "agree (span p j) m m'" if "j \<le> ?k" for j using agree_mono [OF a span_mono [OF that]] .
  note words = agree_words [OF less]
  have one: "m p = m' p" using words(1) round_entryD(8) [OF e] by simp
  have size: "?k = j" if "data_size field = word_of_nat j" "j < 2 ^ 32" for j using that unat_u32_of_nat by simp
  have signed: "signed_at m field p = signed_at m' field p" and unsigned: "unsigned_at m field p = unsigned_at m' field p"
    using one words(2-4) size [of 2] size [of 4] size [of 8] by (auto simp: signed_at_def unsigned_at_def)
  have str: "string_length m p ?k = string_length m' p ?k" using k by (intro agree_string [OF a]) simp
  have strs: "mem_bytes m p (string_length m' p ?k) = mem_bytes m' p (string_length m' p ?k)"
    using agree_bytes [OF a, of 0] string_length_props(1) [of m' p ?k] k by simp
  have all: "mem_bytes m p ?k = mem_bytes m' p ?k" using agree_bytes [OF a, of 0 ?k] k by simp
  have bytes: "mem_u32 m p = mem_u32 m' p" if "?l = PB_LTYPE_BYTES" using words(3) e that by (simp add: round_entry_def)
  have body: "mem_bytes m (p + 4) (unat (mem_u32 m' p)) = mem_bytes m' (p + 4) (unat (mem_u32 m' p))"
    if "unat (mem_u32 m' p) + 4 \<le> ?k"
    using agree_bytes [OF a, of 4] that k by simp
  have fixed: "?l = PB_LTYPE_FIXED32 \<Longrightarrow> mem_u32 m p = mem_u32 m' p" "?l = PB_LTYPE_FIXED64 \<Longrightarrow> mem_u64 m p = mem_u64 m' p"
    using words(3,4) round_entryD(4) [OF e] by (simp_all add: static_entry_def)
  have st: "PB_ATYPE (pb_type field) = PB_ATYPE_STATIC" by (rule round_entryD(1) [OF e])
  have bool: "safe_read_bool m p = safe_read_bool m' p" using one by (simp add: safe_read_bool_def)
  show ?thesis
    unfolding value_wire_def Let_def
    using itype_cases [OF round_entryD(2,3) [OF e]]
    by (elim insertE emptyE) (auto simp: st bool signed unsigned str strs all bytes body fixed sub)
qed

text \<open>The items of an entry at a position lie in its area.\<close>

definition area :: "nat \<Rightarrow> (addr \<Rightarrow> pb_field list) \<Rightarrow> pb_field_iter \<Rightarrow> addr set" where
  "area n tables iter = data_area (footprint n tables) tables iter \<union> size_area iter"

lemma area_footprint: "iter \<in> positions fds dest \<Longrightarrow> area n tables iter \<subseteq> footprint (Suc n) tables fds dest"
  by (auto simp: area_def)

lemma present_repeated_nth:
  assumes "round_entry field" and "PB_HTYPE (pb_type field) = PB_HTYPE_REPEATED"
    and "i < length (present_items mem field pData)" and "length (present_items mem field pData) \<le> unat (array_size field)"
  shows "present_items mem field pData ! i = item_addr pData field (word_of_nat i)" and "word_of_nat i < array_size field"
    and "unat (word_of_nat i :: u32) = i"
proof -
  have "i < unat (array_size field)" using assms(3,4) by simp
  then show u: "unat (word_of_nat i :: u32) = i" using unat_u32_below [of "array_size field"] by (intro unat_u32_of_nat) simp
  with \<open>i < unat (array_size field)\<close> show less: "word_of_nat i < array_size field" by (simp add: word_less_nat_alt)
  have "unat (data_size field) * unat (array_size field) < 2 ^ 32"
    using assms(1,2) by (simp add: round_entry_def Let_def)
  from item_addr_nth [OF this less, of pData] u assms(2,3)
  show "present_items mem field pData ! i = item_addr pData field (word_of_nat i)"
    by (simp add: present_items_def Let_def item_addrs_nth)
qed

lemma items_area:
  assumes t: "round_table (Suc n) tables fds" and i: "iter \<in> positions fds dest"
    and a: "a \<in> set (present_items mem (it_field iter) (it_pData iter))"
    and len: "PB_HTYPE (pb_type (it_field iter)) = PB_HTYPE_REPEATED \<Longrightarrow>
      length (present_items mem (it_field iter) (it_pData iter)) \<le> unat (array_size (it_field iter))"
  shows "item_area (footprint n tables) tables (it_field iter) a \<subseteq> data_area (footprint n tables) tables iter"
proof -
  let ?f = "it_field iter"
  have e: "round_entry ?f" using t positions_field [OF i] by simp
  show ?thesis
  proof (cases "PB_HTYPE (pb_type ?f) = PB_HTYPE_REPEATED")
    case True
    from a obtain k where k: "k < length (present_items mem ?f (it_pData iter))" "a = present_items mem ?f (it_pData iter) ! k"
      by (auto simp: in_set_conv_nth)
    from present_repeated_nth [OF e True k(1) len [OF True]] k(2) True show ?thesis by (auto simp: data_area_def Let_def)
  next
    case False
    from e a False have "a = it_pData iter" by (cases rule: round_htype) (auto simp: present_items_def Let_def split: if_splits)
    with False show ?thesis by (simp add: data_area_def Let_def)
  qed
qed

lemma agree_items:
  assumes t: "round_table (Suc n) tables fds" and i: "iter \<in> positions fds dest" and a: "agree (size_area iter) m m'"
  shows "present_items m (it_field iter) (it_pData iter) = present_items m' (it_field iter) (it_pData iter)"
proof -
  let ?f = "it_field iter"
  have e: "round_entry ?f" using t positions_field [OF i] by simp
  note size = positions_size [OF t i]
  from e show ?thesis
  proof (cases rule: round_htype)
    case required
    then show ?thesis by (simp add: present_items_def)
  next
    case optional
    with a size size_addr_other [OF optional(2)] have "m (size_addr (it_pData iter) ?f) = m' (size_addr (it_pData iter) ?f)"
      by (intro agree_words(1)) (simp add: size_area_def Let_def)
    with optional show ?thesis by (simp add: present_items_def safe_read_bool_def)
  next
    case repeated
    with a size have "mem_u32 m (size_addr (it_pData iter) ?f) = mem_u32 m' (size_addr (it_pData iter) ?f)"
      by (intro agree_words(3)) (simp add: size_area_def Let_def)
    with repeated show ?thesis by (simp add: present_items_def)
  qed
qed

lemma agree_field:
  assumes t: "round_table (Suc n) tables fds" and i: "iter \<in> positions fds dest" and a: "agree (area n tables iter) m m'"
    and sub: "\<And>a. PB_LTYPE (pb_type (it_field iter)) = PB_LTYPE_SUBMESSAGE \<Longrightarrow>
      agree (footprint n tables (tables (pf_ptr (it_field iter))) a) m m' \<Longrightarrow>
      msg (tables (pf_ptr (it_field iter))) a = msg' (tables (pf_ptr (it_field iter))) a"
  shows "field_wire out (value_wire msg tables m) check m (it_field iter) (it_pData iter) =
    field_wire out (value_wire msg' tables m') check' m' (it_field iter) (it_pData iter)"
proof -
  let ?f = "it_field iter"
  have e: "round_entry ?f" using t positions_field [OF i] by simp
  have items: "present_items m ?f (it_pData iter) = present_items m' ?f (it_pData iter)"
    using a by (intro agree_items [OF t i]) (auto simp: area_def agree_def)
  define its where "its = present_items m' ?f (it_pData iter)"
  have vals: "map (value_wire msg tables m ?f) its = map (value_wire msg' tables m' ?f) its"
    if len: "PB_HTYPE (pb_type ?f) = PB_HTYPE_REPEATED \<Longrightarrow> length its \<le> unat (array_size ?f)"
  proof (rule map_cong [OF refl])
    fix p assume "p \<in> set its"
    then have "item_area (footprint n tables) tables ?f p \<subseteq> area n tables iter"
      using items_area [OF t i, of p m'] len by (auto simp: its_def area_def)
    then have "agree (item_area (footprint n tables) tables ?f p) m m'" by (rule agree_mono [OF a])
    then show "value_wire msg tables m ?f p = value_wire msg' tables m' ?f p"
      by (intro agree_value [OF e] sub) (auto simp: item_area_def agree_def)
  qed
  have "map (value_wire msg tables m ?f) its = map (value_wire msg' tables m' ?f) its \<or>
      PB_HTYPE (pb_type ?f) = PB_HTYPE_REPEATED \<and> unat (array_size ?f) < length its"
    using vals by (cases "PB_HTYPE (pb_type ?f) = PB_HTYPE_REPEATED \<and> unat (array_size ?f) < length its") auto
  then show ?thesis
    unfolding field_wire_items [OF e] Let_def items its_def [symmetric] by (elim disjE) (simp_all del: map_eq_conv)
qed

section \<open>The records of a message, as a list\<close>

lemma map_option_Some_conv: "map_option f x = Some y \<longleftrightarrow> (\<exists>z. x = Some z \<and> y = f z)"
  by (cases x) auto

lemma fields_wire_list:
  "fields_wire fw iter = map_option concat (all_some (map (\<lambda>it. fw (it_field it) (it_pData it)) (visit_list iter)))"
proof (induction iter rule: visit_list.induct)
  case (1 iter)
  obtain b it where n: "pb_field_iter_next iter = (b, it)" by fastforce
  show ?case
    using 1 [OF n [symmetric]] n
    by (cases b) (auto simp: visit_list.simps [of iter] fields_wire.simps [of fw iter] option.map_comp comp_def split: option.split)
qed

definition entry_wires :: "nat \<Rightarrow> user_out \<Rightarrow> mem \<Rightarrow> 's pb_env \<Rightarrow> pb_field_iter \<Rightarrow> wire list option" where
  "entry_wires n out mem env iter =
     field_wire out (value_wire (msg_wire n out mem env) (env_fields env) mem) (pb_check_proto3_default_value n env mem) mem
       (it_field iter) (it_pData iter)"

definition entries :: "pb_field list \<Rightarrow> addr \<Rightarrow> pb_field_iter list" where
  "entries fds dest = visit_list (snd (pb_field_iter_begin fds dest))"

lemma begin_round:
  assumes "round_table (Suc n) tables fds"
  shows "pb_field_iter_begin fds dest = (True, snd (pb_field_iter_begin fds dest))"
proof -
  have "fds ! 0 \<in> set fds" using assms by simp
  then have "pf_tag (field_at fds 0) \<noteq> 0" using assms round_entryD(6) by (auto simp: field_at_def)
  then show ?thesis by (simp add: pb_field_iter_begin_def Let_def)
qed

lemma positions_entries: "round_table (Suc n) tables fds \<Longrightarrow> positions fds dest = set (entries fds dest)"
  using begin_round [of n tables fds dest]
  by (cases "pb_field_iter_begin fds dest") (simp add: positions_def entries_def del: round_table.simps)

lemma msg_wire_list:
  assumes "round_table (Suc n) tables fds" and "env_fields env = tables"
  shows "msg_wire (Suc n) out mem env fds p = map_option concat (all_some (map (entry_wires n out mem env) (entries fds p)))"
proof -
  let ?fw = "field_wire out (value_wire (msg_wire n out mem env) tables mem) (pb_check_proto3_default_value n env mem) mem"
  have ext: "PB_LTYPE (pb_type (it_field it)) \<noteq> PB_LTYPE_EXTENSION" if "it \<in> set (entries fds p)" for it
    using that assms(1) positions_field [of it fds p] round_entryD(3) positions_entries [OF assms(1)] by auto
  have "msg_wire (Suc n) out mem env fds p = fields_wire (\<lambda>field pData.
      if PB_LTYPE (pb_type field) = PB_LTYPE_EXTENSION
      then extensions_wire n out ?fw (env_fields env) mem (mem_u64 mem pData) else ?fw field pData) (snd (pb_field_iter_begin fds p))"
    using begin_round [OF assms(1), of p] assms(2) by (cases "pb_field_iter_begin fds p") (simp add: Let_def)
  also have "\<dots> = map_option concat (all_some (map (entry_wires n out mem env) (entries fds p)))"
    unfolding fields_wire_list entries_def [symmetric]
    by (intro arg_cong [where f = "\<lambda>x. map_option concat (all_some x)"] map_cong refl) (simp add: ext entry_wires_def assms(2))
  finally show ?thesis .
qed

lemma agree_msg:
  fixes env :: "'s pb_env"
  shows "round_table n (env_fields env) fds \<Longrightarrow> agree (footprint n (env_fields env) fds p) m m' \<Longrightarrow>
    msg_wire n out m env fds p = msg_wire n out m' env fds p"
proof (induction n arbitrary: fds p)
  case (Suc n)
  have "entry_wires n out m env it = entry_wires n out m' env it" if it: "it \<in> positions fds p" for it
    unfolding entry_wires_def
  proof (rule agree_field [OF Suc.prems(1) it])
    show "agree (area n (env_fields env) it) m m'" by (rule agree_mono [OF Suc.prems(2) area_footprint [OF it]])
    show "msg_wire n out m env (env_fields env (pf_ptr (it_field it))) a = msg_wire n out m' env (env_fields env (pf_ptr (it_field it))) a"
      if "PB_LTYPE (pb_type (it_field it)) = PB_LTYPE_SUBMESSAGE"
        "agree (footprint n (env_fields env) (env_fields env (pf_ptr (it_field it))) a) m m'" for a
      using Suc.prems(1) positions_field [OF it] that by (intro Suc.IH) simp_all
  qed
  then show ?case
    unfolding msg_wire_list [OF Suc.prems(1) refl] positions_entries [OF Suc.prems(1)] by (simp cong: map_cong)
qed simp

section \<open>The order of the entries\<close>

lemma visit_list_pos: "i < length (visit_list iter) \<Longrightarrow> it_pos (visit_list iter ! i) = it_pos iter + i"
proof (induction iter arbitrary: i rule: visit_list.induct)
  case (1 iter)
  obtain b it where n: "pb_field_iter_next iter = (b, it)" by fastforce
  show ?case
  proof (cases i)
    case 0
    then show ?thesis by (simp add: visit_list.simps [of iter])
  next
    case (Suc j)
    with 1(2) n have b: "b" by (auto simp: visit_list.simps [of iter] split: bool.splits)
    with n have "it_pos it = it_pos iter + 1" using iter_next_True [of iter it] by simp
    with 1(1) [OF n [symmetric], of j] 1(2) n b Suc show ?thesis by (simp add: visit_list.simps [of iter])
  qed
qed

lemma entries_pos: "i < length (entries fds dest) \<Longrightarrow> it_pos (entries fds dest ! i) = i"
  unfolding entries_def using visit_list_pos by (simp add: pb_field_iter_begin_def Let_def)

lemma distinct_entries: "distinct (entries fds dest)"
  unfolding distinct_conv_nth using entries_pos by metis

section \<open>The layout of a struct\<close>

definition item_places :: "pb_field_iter \<Rightarrow> addr list" where
  "item_places iter =
     (let field = it_field iter
      in if PB_HTYPE (pb_type field) = PB_HTYPE_REPEATED
         then map (\<lambda>i. item_addr (it_pData iter) field (word_of_nat i)) [0..<unat (array_size field)]
         else [it_pData iter])"

text \<open>No two members, and no two items of an array, have an address in common.\<close>

fun laid_out :: "nat \<Rightarrow> (addr \<Rightarrow> pb_field list) \<Rightarrow> pb_field list \<Rightarrow> addr \<Rightarrow> bool" where
  "laid_out 0 tables fds dest = True"
| "laid_out (Suc n) tables fds dest =
     ((\<forall>it \<in> positions fds dest. \<forall>it' \<in> positions fds dest. it \<noteq> it' \<longrightarrow> area n tables it \<inter> area n tables it' = {}) \<and>
      (\<forall>it \<in> positions fds dest.
         size_area it \<inter> data_area (footprint n tables) tables it = {} \<and>
         (\<forall>i < length (item_places it). \<forall>j < i.
            item_area (footprint n tables) tables (it_field it) (item_places it ! i) \<inter>
            item_area (footprint n tables) tables (it_field it) (item_places it ! j) = {}) \<and>
         (PB_LTYPE (pb_type (it_field it)) = PB_LTYPE_SUBMESSAGE \<longrightarrow>
            (\<forall>p \<in> set (item_places it). laid_out n tables (tables (pf_ptr (it_field it))) p))))"

lemma data_area_places: "data_area sub tables iter = (\<Union>p \<in> set (item_places iter). item_area sub tables (it_field iter) p)"
proof (cases "PB_HTYPE (pb_type (it_field iter)) = PB_HTYPE_REPEATED")
  case True
  have "(\<lambda>i. item_addr (it_pData iter) (it_field iter) (word_of_nat i)) ` {0..<unat (array_size (it_field iter))} =
      item_addr (it_pData iter) (it_field iter) ` {i. i < array_size (it_field iter)}"
  proof (intro equalityI subsetI)
    fix p assume "p \<in> (\<lambda>i. item_addr (it_pData iter) (it_field iter) (word_of_nat i)) ` {0..<unat (array_size (it_field iter))}"
    then obtain i where i: "i < unat (array_size (it_field iter))" "p = item_addr (it_pData iter) (it_field iter) (word_of_nat i)" by auto
    have "unat (word_of_nat i :: u32) = i" using i(1) unat_u32_below [of "array_size (it_field iter)"] by (intro unat_u32_of_nat) simp
    then have "word_of_nat i < array_size (it_field iter)" using i(1) by (simp add: word_less_nat_alt)
    with i(2) show "p \<in> item_addr (it_pData iter) (it_field iter) ` {i. i < array_size (it_field iter)}" by blast
  next
    fix p assume "p \<in> item_addr (it_pData iter) (it_field iter) ` {i. i < array_size (it_field iter)}"
    then obtain i where "i < array_size (it_field iter)" "p = item_addr (it_pData iter) (it_field iter) i" by auto
    then show "p \<in> (\<lambda>i. item_addr (it_pData iter) (it_field iter) (word_of_nat i)) ` {0..<unat (array_size (it_field iter))}"
      by (intro image_eqI [of _ _ "unat i"]) (simp_all add: word_less_nat_alt)
  qed
  with True show ?thesis by (simp add: data_area_def item_places_def Let_def)
qed (simp add: data_area_def item_places_def Let_def)

section \<open>Default values\<close>

definition fresh_entry :: "(pb_field list \<Rightarrow> addr \<Rightarrow> bool) \<Rightarrow> (addr \<Rightarrow> pb_field list) \<Rightarrow> mem \<Rightarrow> pb_field_iter \<Rightarrow> bool" where
  "fresh_entry sub tables m iter \<longleftrightarrow>
     (let field = it_field iter; htype = PB_HTYPE (pb_type field)
      in (htype = PB_HTYPE_OPTIONAL \<longrightarrow> m (it_pSize iter) = 0) \<and>
         (htype = PB_HTYPE_REPEATED \<longrightarrow> mem_u32 m (it_pSize iter) = 0) \<and>
         (htype \<noteq> PB_HTYPE_REPEATED \<and> PB_LTYPE (pb_type field) = PB_LTYPE_SUBMESSAGE \<longrightarrow>
            sub (tables (pf_ptr field)) (it_pData iter)))"

fun fresh :: "nat \<Rightarrow> (addr \<Rightarrow> pb_field list) \<Rightarrow> mem \<Rightarrow> pb_field list \<Rightarrow> addr \<Rightarrow> bool" where
  "fresh 0 tables m fds dest = True"
| "fresh (Suc n) tables m fds dest = (\<forall>it \<in> positions fds dest. fresh_entry (fresh n tables m) tables m it)"

lemma round_size_area:
  assumes "round_table (Suc n) tables fds" and "iter \<in> positions fds dest"
  shows "PB_HTYPE (pb_type (it_field iter)) = PB_HTYPE_OPTIONAL \<Longrightarrow> size_area iter = span (it_pSize iter) 1"
    and "PB_HTYPE (pb_type (it_field iter)) = PB_HTYPE_REPEATED \<Longrightarrow> size_area iter = span (it_pSize iter) 4"
proof -
  have e: "round_entry (it_field iter)" using assms(1) positions_field [OF assms(2)] by simp
  show "size_area iter = span (it_pSize iter) 1" if o: "PB_HTYPE (pb_type (it_field iter)) = PB_HTYPE_OPTIONAL"
    using e o positions_size [OF assms] size_addr_other [of "it_field iter"]
    by (cases rule: round_htype) (simp_all add: size_area_def Let_def)
  show "size_area iter = span (it_pSize iter) 4" if "PB_HTYPE (pb_type (it_field iter)) = PB_HTYPE_REPEATED"
    using that by (simp add: size_area_def Let_def)
qed

lemma agree_fresh_entry:
  assumes t: "round_table (Suc n) tables fds" and i: "iter \<in> positions fds dest" and a: "agree (area n tables iter) m m'"
    and sub: "\<And>p. PB_LTYPE (pb_type (it_field iter)) = PB_LTYPE_SUBMESSAGE \<Longrightarrow>
      agree (footprint n tables (tables (pf_ptr (it_field iter))) p) m m' \<Longrightarrow>
      sub (tables (pf_ptr (it_field iter))) p = sub' (tables (pf_ptr (it_field iter))) p"
  shows "fresh_entry sub tables m iter = fresh_entry sub' tables m' iter"
proof -
  have s: "agree (size_area iter) m m'" using a by (auto simp: area_def agree_def)
  have d: "agree (footprint n tables (tables (pf_ptr (it_field iter))) (it_pData iter)) m m'"
    if "PB_HTYPE (pb_type (it_field iter)) \<noteq> PB_HTYPE_REPEATED" "PB_LTYPE (pb_type (it_field iter)) = PB_LTYPE_SUBMESSAGE"
    using a that by (auto simp: area_def agree_def data_area_def item_area_def Let_def)
  show ?thesis
    unfolding fresh_entry_def Let_def
    using agree_words(1,3) [of "it_pSize iter" m m'] s round_size_area [OF t i] sub d by auto
qed

lemma agree_fresh:
  "round_table n tables fds \<Longrightarrow> agree (footprint n tables fds dest) m m' \<Longrightarrow> fresh n tables m fds dest = fresh n tables m' fds dest"
proof (induction n arbitrary: fds dest)
  case (Suc n)
  have "fresh_entry (fresh n tables m) tables m it = fresh_entry (fresh n tables m') tables m' it" if it: "it \<in> positions fds dest" for it
  proof (rule agree_fresh_entry [OF Suc.prems(1) it])
    show "agree (area n tables it) m m'" by (rule agree_mono [OF Suc.prems(2) area_footprint [OF it]])
    show "fresh n tables m (tables (pf_ptr (it_field it))) p = fresh n tables m' (tables (pf_ptr (it_field it))) p"
      if "PB_LTYPE (pb_type (it_field it)) = PB_LTYPE_SUBMESSAGE" "agree (footprint n tables (tables (pf_ptr (it_field it))) p) m m'" for p
      using Suc.prems(1) positions_field [OF it] that by (intro Suc.IH) simp_all
  qed
  then show ?case by simp
qed simp

lemma default_round:
  assumes e: "round_entry (it_field iter)"
  shows "pb_field_set_to_default (Suc k) msg env iter w =
    (let field = it_field iter; pSize = it_pSize iter;
         init = (\<lambda>w. if PB_LTYPE (pb_type field) = PB_LTYPE_SUBMESSAGE then
               (if pf_ptr field = 0 then None else msg (dec_fields env (pf_ptr field)) (it_pData iter) w)
             else if pf_ptr field \<noteq> 0
             then Some (w_put (it_pData iter) (mem_bytes (w_mem w) (pf_ptr field) (unat (data_size field))) w)
             else Some (w_put (it_pData iter) (replicate (unat (data_size field)) 0) w))
     in if PB_HTYPE (pb_type field) = PB_HTYPE_OPTIONAL \<and> pSize \<noteq> it_pData iter then init (w_put pSize [0] w)
        else if PB_HTYPE (pb_type field) = PB_HTYPE_REPEATED then Some (w_put pSize (fixed32 0) w)
        else init w)"
proof -
  have "PB_HTYPE (pb_type (it_field iter)) \<noteq> PB_HTYPE_ONEOF" using e by (cases rule: round_htype) auto
  then show ?thesis using round_entryD(1,3) [OF e] by (simp add: Let_def)
qed

lemma default_fresh:
  assumes t: "round_table (Suc n) (dec_fields env) fds" and i: "iter \<in> positions fds dest" and l: "laid_out (Suc n) (dec_fields env) fds dest"
    and msg: "\<And>w w'. PB_LTYPE (pb_type (it_field iter)) = PB_LTYPE_SUBMESSAGE \<Longrightarrow> PB_HTYPE (pb_type (it_field iter)) \<noteq> PB_HTYPE_REPEATED \<Longrightarrow>
      msg (dec_fields env (pf_ptr (it_field iter))) (it_pData iter) w = Some w' \<Longrightarrow>
      same_outside (footprint n (dec_fields env) (dec_fields env (pf_ptr (it_field iter))) (it_pData iter)) w w' \<and>
      fresh n (dec_fields env) (w_mem w') (dec_fields env (pf_ptr (it_field iter))) (it_pData iter)"
    and d: "pb_field_set_to_default (Suc k) msg env iter w = Some w'"
  shows "fresh_entry (fresh n (dec_fields env) (w_mem w')) (dec_fields env) (w_mem w') iter"
proof -
  let ?f = "it_field iter"
  define init where "init = (\<lambda>w. if PB_LTYPE (pb_type ?f) = PB_LTYPE_SUBMESSAGE then
       (if pf_ptr ?f = 0 then None else msg (dec_fields env (pf_ptr ?f)) (it_pData iter) w)
     else if pf_ptr ?f \<noteq> 0
     then Some (w_put (it_pData iter) (mem_bytes (w_mem w) (pf_ptr ?f) (unat (data_size ?f))) w)
     else Some (w_put (it_pData iter) (replicate (unat (data_size ?f)) 0) w))"
  have e: "round_entry ?f" using t positions_field [OF i] by simp
  have d: "(if PB_HTYPE (pb_type ?f) = PB_HTYPE_OPTIONAL \<and> it_pSize iter \<noteq> it_pData iter then init (w_put (it_pSize iter) [0] w)
      else if PB_HTYPE (pb_type ?f) = PB_HTYPE_REPEATED then Some (w_put (it_pSize iter) (fixed32 0) w) else init w) = Some w'"
    using d by (simp only: default_round [OF e] Let_def init_def)
  have init: "same_outside (data_area (footprint n (dec_fields env)) (dec_fields env) iter) w1 w' \<and>
      (PB_LTYPE (pb_type ?f) = PB_LTYPE_SUBMESSAGE \<longrightarrow> fresh n (dec_fields env) (w_mem w') (dec_fields env (pf_ptr ?f)) (it_pData iter))"
    if h: "PB_HTYPE (pb_type ?f) \<noteq> PB_HTYPE_REPEATED" and w1: "init w1 = Some w'" for w1
  proof -
    have a: "data_area (footprint n (dec_fields env)) (dec_fields env) iter =
        item_area (footprint n (dec_fields env)) (dec_fields env) ?f (it_pData iter)"
      using h by (simp add: data_area_def Let_def)
    show ?thesis
    proof (cases "PB_LTYPE (pb_type ?f) = PB_LTYPE_SUBMESSAGE")
      case True
      with w1 have "msg (dec_fields env (pf_ptr ?f)) (it_pData iter) w1 = Some w'" by (simp add: init_def split: if_splits)
      from msg [OF True h this] True show ?thesis by (auto simp: a item_area_def same_outside_def)
    next
      case False
      with w1 have "same_outside (span (it_pData iter) (unat (data_size ?f))) w1 w'"
        by (auto simp: init_def split: if_splits intro!: same_outside_put)
      with False show ?thesis by (auto simp: a item_area_def same_outside_def)
    qed
  qed
  from e show ?thesis
  proof (cases rule: round_htype)
    case required
    with d init [of w] show ?thesis by (simp add: fresh_entry_def)
  next
    case optional
    then have "it_pSize iter \<noteq> it_pData iter" using positions_size [OF t i] size_addr_other by simp
    with optional d have w': "init (w_put (it_pSize iter) [0] w) = Some w'" by simp
    have "it_pSize iter \<notin> data_area (footprint n (dec_fields env)) (dec_fields env) iter"
    proof -
      have "it_pSize iter \<in> size_area iter" using round_size_area(1) [OF t i optional(1)] by (simp add: span_def)
      moreover have "size_area iter \<inter> data_area (footprint n (dec_fields env)) (dec_fields env) iter = {}" using l i by simp
      ultimately show ?thesis by blast
    qed
    with init [OF _ w'] optional show ?thesis by (simp add: fresh_entry_def same_outside_def)
  next
    case repeated
    with d have "w' = w_put (it_pSize iter) (fixed32 0) w" by simp
    with repeated show ?thesis by (simp add: fresh_entry_def)
  qed
qed

lemma defaults_fresh:
  "round_table n (dec_fields env) fds \<Longrightarrow> laid_out n (dec_fields env) fds dest \<Longrightarrow> n \<le> k \<Longrightarrow>
    pb_message_set_to_defaults k env fds dest w = Some w' \<Longrightarrow>
    same_outside (footprint n (dec_fields env) fds dest) w w' \<and> fresh n (dec_fields env) (w_mem w') fds dest"
proof (induction n arbitrary: k fds dest w w')
  case 0
  then show ?case by simp
next
  case (Suc n)
  then obtain k' where k: "k = Suc k'" "n \<le> k'" by (auto dest: Suc_le_D)
  let ?T = "dec_fields env"
  let ?msg = "pb_message_set_to_defaults k' env"
  define f where "f = pb_field_set_to_default (Suc k') ?msg env"
  note t = Suc.prems(1) and l = Suc.prems(2)
  have sub: "same_outside (footprint n ?T (?T (pf_ptr (it_field it))) (it_pData it)) w1 w2 \<and>
      fresh n ?T (w_mem w2) (?T (pf_ptr (it_field it))) (it_pData it)"
    if it: "it \<in> positions fds dest" and s: "PB_LTYPE (pb_type (it_field it)) = PB_LTYPE_SUBMESSAGE"
      "PB_HTYPE (pb_type (it_field it)) \<noteq> PB_HTYPE_REPEATED" and m: "?msg (?T (pf_ptr (it_field it))) (it_pData it) w1 = Some w2"
    for it w1 w2
  proof (rule Suc.IH [OF _ _ k(2) m])
    show "round_table n ?T (?T (pf_ptr (it_field it)))" using t positions_field [OF it] s(1) by simp
    have "it_pData it \<in> set (item_places it)" using s(2) by (simp add: item_places_def Let_def)
    with l it s(1) show "laid_out n ?T (?T (pf_ptr (it_field it))) (it_pData it)" by simp
  qed
  have step: "same_outside (area n ?T it) w1 w2 \<and> fresh_entry (fresh n ?T (w_mem w2)) ?T (w_mem w2) it"
    if it: "it \<in> positions fds dest" and r: "f it w1 = Some w2" for it w1 w2
  proof
    show "fresh_entry (fresh n ?T (w_mem w2)) ?T (w_mem w2) it" using default_fresh [OF t it l sub [OF it] r [unfolded f_def]] .
    note e = static_entryD [OF round_static [OF t] positions_field [OF it]]
    have "updates (area n ?T it) (f it)"
      unfolding area_def f_def by (intro updates_default e updates_defaults [OF e(3) k(2)])
    then show "same_outside (area n ?T it) w1 w2" using r by (metis option.inject updatesE)
  qed
  have walk: "entries fds dest = pre @ visit_list it \<Longrightarrow> each_field f it w1 = Some w2 \<Longrightarrow>
      (\<forall>x \<in> set pre. fresh_entry (fresh n ?T (w_mem w1)) ?T (w_mem w1) x) \<Longrightarrow>
      (\<forall>x \<in> set (entries fds dest). fresh_entry (fresh n ?T (w_mem w2)) ?T (w_mem w2) x)" for pre it w1 w2
  proof (induction it arbitrary: pre w1 rule: visit_list.induct)
    case (1 it)
    obtain b it' where nx: "pb_field_iter_next it = (b, it')" by fastforce
    have it: "it \<in> positions fds dest" using 1(2) visit_list_first [of it] positions_entries [OF t] by simp
    obtain w3 where w3: "f it w1 = Some w3" using 1(3) by (auto simp: each_field.simps [of f it] split: option.splits)
    note st = step [OF it w3]
    have keep: "fresh_entry (fresh n ?T (w_mem w3)) ?T (w_mem w3) x" if x: "x \<in> set pre" for x
    proof -
      have xp: "x \<in> positions fds dest" using 1(2) x positions_entries [OF t] by simp
      have "x \<noteq> it" using distinct_entries [of fds dest] 1(2) x visit_list_first [of it] by auto
      then have "area n ?T it \<inter> area n ?T x = {}" using l it xp by simp
      from same_outside_agree [OF conjunct1 [OF st] this] have a: "agree (area n ?T x) (w_mem w1) (w_mem w3)" .
      have "fresh_entry (fresh n ?T (w_mem w1)) ?T (w_mem w1) x = fresh_entry (fresh n ?T (w_mem w3)) ?T (w_mem w3) x"
        using t positions_field [OF xp] by (intro agree_fresh_entry [OF t xp a] agree_fresh) simp_all
      with 1(4) x show ?thesis by simp
    qed
    show ?case
    proof (cases b)
      case True
      have "visit_list it = it # visit_list it'" using nx True by (simp add: visit_list.simps [of it])
      then have "entries fds dest = (pre @ [it]) @ visit_list it'" using 1(2) by simp
      moreover have "each_field f it' w3 = Some w2" using 1(3) nx True w3 by (simp add: each_field.simps [of f it])
      ultimately show ?thesis using 1(1) [OF nx [symmetric], of "pre @ [it]" w3] True keep st by auto
    next
      case False
      then have "visit_list it = [it]" "w2 = w3" using nx w3 1(3) by (simp_all add: visit_list.simps [of it] each_field.simps [of f it])
      with keep st 1(2) show ?thesis by auto
    qed
  qed
  have "each_field f (snd (pb_field_iter_begin fds dest)) w = Some w'"
    using Suc.prems(4) begin_round [OF t, of dest] by (cases "pb_field_iter_begin fds dest") (simp add: k(1) f_def del: pb_field_set_to_default.simps)
  from walk [of "[]", OF _ this] have "fresh (Suc n) ?T (w_mem w') fds dest"
    by (simp add: positions_entries [OF t] entries_def)
  moreover have "same_outside (footprint (Suc n) ?T fds dest) w w'"
    using updates_defaults [OF round_static [OF t] Suc.prems(3), of dest] Suc.prems(4) by (metis option.inject updatesE)
  ultimately show ?case by blast
qed

end
