(* ===== verification/PbRoundField.thy ===== *)
theory PbRoundField
  imports PbFrame
begin

text \<open>
  The decoder reads what the encoder wrote, item by item and field by field: the records of a member of one struct
  make \<open>decode_static_field\<close> store a member from which the encoder reads the same records.
\<close>

section \<open>Items\<close>

abbreviation value_at :: "nat \<Rightarrow> user_out \<Rightarrow> 's pb_env \<Rightarrow> mem \<Rightarrow> pb_field \<Rightarrow> addr \<Rightarrow> wire option" where
  "value_at n out env m \<equiv> value_wire (msg_wire n out m env) (env_fields env) m"

text \<open>The decoder of an item, from a memory with \<open>Q\<close>.\<close>

definition item_does ::
  "nat \<Rightarrow> user_out \<Rightarrow> 'e pb_env \<Rightarrow> (addr \<Rightarrow> ('s, unit) dop) \<Rightarrow> addr set \<Rightarrow> pb_field \<Rightarrow> (world \<Rightarrow> bool) \<Rightarrow> addr \<Rightarrow> wire \<Rightarrow> bool" where
  "item_does n out env func C field Q p v \<longleftrightarrow>
     does (item_area (footprint n (env_fields env)) (env_fields env) field p \<union> C) Q (func p) (wire_payload v) ()
       (\<lambda>w. value_at n out env (w_mem w) field p = Some v)"

lemma wire_payload_Message: "wire_payload (Message t ws) = varint (length (concat (map wire_bytes ws))) @ concat (map wire_bytes ws)"
  by simp

lemma item_does_value:
  fixes env :: "'s dec_env" and penv :: "'e pb_env" and p :: addr
  assumes e: "round_entry field" and T: "env_fields penv = dec_fields env" and p: "p \<noteq> 0"
    and v: "value_at n out penv mem field src = Some v" and str: "item_ends fin (dec_fields env) mem field src"
    and sub: "\<And>ws. PB_LTYPE (pb_type field) = PB_LTYPE_SUBMESSAGE \<Longrightarrow> v = Message (pf_tag field) ws \<Longrightarrow>
      pf_ptr field \<noteq> 0 \<and> length (concat (map wire_bytes ws)) < 2 ^ 32 \<and>
      does_all (footprint n (dec_fields env) (dec_fields env (pf_ptr field)) p \<union> C) Q
        ((if PB_HTYPE (pb_type field) = PB_HTYPE_REPEATED then decode else noinit) (dec_fields env (pf_ptr field)) p)
        (concat (map wire_bytes ws)) () (\<lambda>w. msg_wire n out (w_mem w) penv (dec_fields env (pf_ptr field)) p = Some ws)"
  shows "item_does n out penv (PB_DECODERS decode noinit env (PB_LTYPE (pb_type field)) field) C field Q p v"
proof (cases "PB_LTYPE (pb_type field) = PB_LTYPE_SUBMESSAGE")
  case True
  then obtain ws where ws: "v = Message (pf_tag field) ws"
    using v by (auto simp: value_wire_def Let_def split: if_splits)
  note s = sub [OF True ws]
  let ?run = "(if PB_HTYPE (pb_type field) = PB_HTYPE_REPEATED then decode else noinit) (dec_fields env (pf_ptr field)) p"
  let ?A = "footprint n (dec_fields env) (dec_fields env (pf_ptr field)) p \<union> C"
  have "does ?A Q (d_bind (d_stream pb_make_string_substream) (\<lambda>substream. d_bind (d_on substream ?run)
      (\<lambda>(status, substream'). d_close substream' status))) (varint (length (concat (map wire_bytes ws))) @ concat (map wire_bytes ws)) ()
      (\<lambda>w. msg_wire n out (w_mem w) penv (dec_fields env (pf_ptr field)) p = Some ws)"
    by (rule does_substream [where k = "\<lambda>status substream'. d_close substream' status"]) (use s in simp_all)
  then have d: "does ?A Q (PB_DECODERS decode noinit env (PB_LTYPE (pb_type field)) field p) (wire_payload v) ()
      (\<lambda>w. msg_wire n out (w_mem w) penv (dec_fields env (pf_ptr field)) p = Some ws)"
    using True s by (simp add: PB_DECODERS_def pb_dec_submessage_def ws)
  show ?thesis
    unfolding item_does_def T
    by (rule triple_conseq [OF d]) (use True s in \<open>auto simp: value_wire_def Let_def ws item_area_def\<close>)
next
  case False
  show ?thesis
    unfolding item_does_def T
    by (rule triple_conseq [OF does_scalar [OF e False p v [unfolded T] str]]) (auto simp: item_area_def)
qed

section \<open>Fields with one item\<close>

lemma entry_wires_items:
  assumes "round_table (Suc n) (env_fields env) fds" and "it \<in> positions fds dest"
  shows "entry_wires n out m env it =
    (let field = it_field it; items = present_items m field (it_pData it)
     in if PB_HTYPE (pb_type field) = PB_HTYPE_REQUIRED \<and> it_pData it = 0 then None
        else if PB_HTYPE (pb_type field) = PB_HTYPE_REPEATED \<and> unat (array_size field) < length items then None
        else if packed_entry field then
          (if items = [] then Some []
           else map_option (\<lambda>vs. [Bytes (pf_tag field) (concat (map wire_payload vs))]) (all_some (map (value_at n out env m field) items)))
        else all_some (map (value_at n out env m field) items))"
proof -
  have "round_entry (it_field it)" using assms(1) positions_field [OF assms(2)] by simp
  then show ?thesis unfolding entry_wires_def by (simp only: field_wire_items Let_def)
qed

abbreviation fresh_at :: "nat \<Rightarrow> (addr \<Rightarrow> pb_field list) \<Rightarrow> pb_field_iter \<Rightarrow> world \<Rightarrow> bool" where
  "fresh_at n tables it w \<equiv> fresh_entry (fresh n tables (w_mem w)) tables (w_mem w) it"

definition fresh_sub :: "nat \<Rightarrow> (addr \<Rightarrow> pb_field list) \<Rightarrow> pb_field_iter \<Rightarrow> world \<Rightarrow> bool" where
  "fresh_sub n tables it w \<longleftrightarrow>
     (PB_LTYPE (pb_type (it_field it)) = PB_LTYPE_SUBMESSAGE \<longrightarrow> fresh n tables (w_mem w) (tables (pf_ptr (it_field it))) (it_pData it))"

lemma single_does:
  fixes env :: "'s dec_env" and penv :: "'e pb_env" and it :: pb_field_iter
    and decode noinit :: "pb_field list \<Rightarrow> addr \<Rightarrow> ('s, unit) dop"
  defines "T \<equiv> dec_fields env" and "func \<equiv> PB_DECODERS decode noinit env (PB_LTYPE (pb_type (it_field it))) (it_field it)"
  assumes T: "env_fields penv = T" and t: "round_table (Suc n) T fds" and i: "it \<in> positions fds dest"
    and l: "laid_out (Suc n) T fds dest" and h: "PB_HTYPE (pb_type (it_field it)) \<noteq> PB_HTYPE_REPEATED" and z: "it_pData it \<noteq> 0"
    and C: "area n T it \<inter> C = {}" and item: "item_does n out penv func C (it_field it) (fresh_sub n T it) (it_pData it) v"
  shows "does (area n T it \<union> C) (fresh_at n T it) (decode_static_field dm (PB_DECODERS decode noinit env) env wire_type it)
    (wire_payload v) () (\<lambda>w. entry_wires n out (w_mem w) penv it = Some [v])"
proof -
  let ?f = "it_field it"
  have e: "round_entry ?f" using t positions_field [OF i] by simp
  have small: "\<not> PB_LTYPES_COUNT \<le> PB_LTYPE (pb_type ?f)" using round_entryD(2) [OF e] by simp
  have data: "data_area (footprint n T) T it = item_area (footprint n T) T ?f (it_pData it)"
    using h by (simp add: data_area_def Let_def)
  then have A: "item_area (footprint n T) T ?f (it_pData it) \<union> C \<subseteq> area n T it \<union> C" by (auto simp: area_def)
  note d = item [unfolded item_does_def T]
  note wires = entry_wires_items [OF t [unfolded T [symmetric]] i, of out]
  have pre: "fresh_sub n T it w" if "fresh_at n T it w" for w
    using that h by (simp add: fresh_entry_def fresh_sub_def Let_def)
  from e show ?thesis
  proof (cases rule: round_htype)
    case required
    have "decode_static_field dm (PB_DECODERS decode noinit env) env wire_type it = func (it_pData it)"
      using required small by (simp add: decode_static_field_def func_def Let_def)
    moreover have "does (area n T it \<union> C) (fresh_at n T it) (func (it_pData it)) (wire_payload v) ()
        (\<lambda>w. entry_wires n out (w_mem w) penv it = Some [v])"
      by (rule triple_conseq [OF d pre _ A])
        (use required z in \<open>simp_all add: wires present_items_def packed_entry_def T\<close>)
    ultimately show ?thesis by simp
  next
    case optional
    let ?pS = "it_pSize it"
    have pS: "?pS = size_addr (it_pData it) ?f" "?pS \<noteq> it_pData it"
      using positions_size [OF t i] size_addr_other [OF optional(2)] by simp_all
    have size: "size_area it = span ?pS 1" by (rule round_size_area(1) [OF t i optional(1)])
    have apart: "size_area it \<inter> data_area (footprint n T) T it = {}" using l i by simp
    have put: "fresh_sub n T it (w_put ?pS [1] w)" if "fresh_sub n T it w" for w
    proof -
      have "fresh n T (w_mem (w_put ?pS [1] w)) (T (pf_ptr ?f)) (it_pData it)"
        if s: "PB_LTYPE (pb_type ?f) = PB_LTYPE_SUBMESSAGE" and "fresh n T (w_mem w) (T (pf_ptr ?f)) (it_pData it)"
      proof -
        have "footprint n T (T (pf_ptr ?f)) (it_pData it) \<subseteq> data_area (footprint n T) T it" using s data by (auto simp: item_area_def)
        moreover have "same_outside (span ?pS 1) w (w_put ?pS [1] w)" by (rule same_outside_put) simp
        ultimately have "agree (footprint n T (T (pf_ptr ?f)) (it_pData it)) (w_mem w) (w_mem (w_put ?pS [1] w))"
          using apart size by (intro same_outside_agree [where A = "span ?pS 1"]) auto
        moreover have "round_table n T (T (pf_ptr ?f))" using t positions_field [OF i] s by simp
        ultimately show ?thesis using agree_fresh that(2) by blast
      qed
      with that show ?thesis by (simp add: fresh_sub_def)
    qed
    have not_data: "?pS \<notin> item_area (footprint n T) T ?f (it_pData it) \<union> C"
    proof -
      have "?pS \<in> size_area it" by (simp add: size span_def)
      then show ?thesis using apart C data by (auto simp: area_def)
    qed
    have put: "does (area n T it \<union> C) (fresh_at n T it) (d_put ?pS [1] :: ('s, unit) dop) [] () (\<lambda>w. fresh_sub n T it w \<and> w_mem w ?pS = 1)"
      using pre put by (intro does_put) (auto simp: area_def size)
    have run: "does (area n T it \<union> C) (\<lambda>w. fresh_sub n T it w \<and> w_mem w ?pS = 1) (func (it_pData it)) (wire_payload v) ()
        (\<lambda>w. entry_wires n out (w_mem w) penv it = Some [v])"
    proof (rule triple_conseq [OF triple_frame [OF d, where R = "\<lambda>w. w_mem w ?pS = 1"] _ _ A])
      show "w_mem w' ?pS = 1" if "same_outside (item_area (footprint n T) T ?f (it_pData it) \<union> C) w w'" "w_mem w ?pS = 1" for w w'
        using that not_data by (simp add: same_outside_def)
      fix w :: world
      show "entry_wires n out (w_mem w) penv it = Some [v]"
        if "value_wire (msg_wire n out (w_mem w) penv) T (w_mem w) ?f (it_pData it) = Some v \<and> w_mem w ?pS = 1"
        using that optional pS(1) by (simp add: wires present_items_def packed_entry_def safe_read_bool_def T)
    qed
    have "decode_static_field dm (PB_DECODERS decode noinit env) env wire_type it = d_then (d_put ?pS [1]) (func (it_pData it))"
      using optional small pS(2) by (simp add: decode_static_field_def func_def Let_def)
    then show ?thesis using triple_then0 [OF put run] by simp
  next
    case repeated
    with h show ?thesis by simp
  qed
qed

section \<open>Arrays\<close>

text \<open>The first \<open>k\<close> items of an array have the values \<open>vs\<close>, and the count is \<open>c\<close>.\<close>

definition stored_items :: "nat \<Rightarrow> user_out \<Rightarrow> 'e pb_env \<Rightarrow> pb_field_iter \<Rightarrow> wire list \<Rightarrow> nat \<Rightarrow> nat \<Rightarrow> world \<Rightarrow> bool" where
  "stored_items n out env it vs k c w \<longleftrightarrow>
     w_u32 w (it_pSize it) = word_of_nat c \<and> (\<forall>j < k. value_at n out env (w_mem w) (it_field it) (item_places it ! j) = Some (vs ! j))"

lemma places_nth:
  assumes "PB_HTYPE (pb_type (it_field it)) = PB_HTYPE_REPEATED" and "i < unat (array_size (it_field it))"
  shows "item_places it ! i = item_addr (it_pData it) (it_field it) (word_of_nat i)" and "item_places it ! i \<in> set (item_places it)"
    and "unat (word_of_nat i :: u32) = i" and "word_of_nat i < array_size (it_field it)"
proof -
  show "item_places it ! i = item_addr (it_pData it) (it_field it) (word_of_nat i)" using assms by (simp add: item_places_def Let_def)
  show "item_places it ! i \<in> set (item_places it)" using assms by (intro nth_mem) (simp add: item_places_def Let_def)
  show u: "unat (word_of_nat i :: u32) = i" using assms(2) unat_u32_below [of "array_size (it_field it)"] by (intro unat_u32_of_nat) simp
  show "word_of_nat i < array_size (it_field it)" using u assms(2) by (simp add: word_less_nat_alt)
qed

lemma agree_item:
  assumes t: "round_table (Suc n) (env_fields env) fds" and i: "it \<in> positions fds dest"
    and a: "agree (item_area (footprint n (env_fields env)) (env_fields env) (it_field it) p) m m'"
  shows "value_at n out env m (it_field it) p = value_at n out env m' (it_field it) p"
proof (rule agree_value)
  show "round_entry (it_field it)" using t positions_field [OF i] by simp
  show "agree (span p (unat (data_size (it_field it)))) m m'" by (rule agree_mono [OF a]) (simp add: item_area_def)
  assume s: "PB_LTYPE (pb_type (it_field it)) = PB_LTYPE_SUBMESSAGE"
  show "msg_wire n out m env (env_fields env (pf_ptr (it_field it))) p = msg_wire n out m' env (env_fields env (pf_ptr (it_field it))) p"
    using t positions_field [OF i] s by (intro agree_msg agree_mono [OF a]) (auto simp: item_area_def)
qed

lemma stored_put:
  assumes t: "round_table (Suc n) (env_fields env) fds" and i: "it \<in> positions fds dest"
    and l: "laid_out (Suc n) (env_fields env) fds dest" and h: "PB_HTYPE (pb_type (it_field it)) = PB_HTYPE_REPEATED"
    and k: "k \<le> unat (array_size (it_field it))" and s: "stored_items n out env it vs k c w"
  shows "stored_items n out env it vs k c' (w_put (it_pSize it) (fixed32 (word_of_nat c')) w)"
  unfolding stored_items_def
proof (intro conjI allI impI)
  let ?w = "w_put (it_pSize it) (fixed32 (word_of_nat c')) w"
  fix j assume j: "j < k"
  have "item_area (footprint n (env_fields env)) (env_fields env) (it_field it) (item_places it ! j) \<subseteq>
      data_area (footprint n (env_fields env)) (env_fields env) it"
    using places_nth(2) [OF h, of j] j k unfolding data_area_places by auto
  moreover have "size_area it \<inter> data_area (footprint n (env_fields env)) (env_fields env) it = {}" using l i by simp
  moreover have "same_outside (size_area it) w ?w" unfolding round_size_area(2) [OF t i h] by (rule same_outside_put) simp
  ultimately have "agree (item_area (footprint n (env_fields env)) (env_fields env) (it_field it) (item_places it ! j)) (w_mem w) (w_mem ?w)"
    by (intro same_outside_agree) auto
  from agree_item [OF t i this, of out] s j
  show "value_at n out env (w_mem ?w) (it_field it) (item_places it ! j) = Some (vs ! j)" by (simp add: stored_items_def)
qed simp

lemma stored_item:
  fixes func :: "addr \<Rightarrow> ('s, unit) dop"
  defines "A it k \<equiv> \<lambda>env n C. item_area (footprint n (env_fields env)) (env_fields env) (it_field it) (item_places it ! k) \<union> C"
  assumes t: "round_table (Suc n) (env_fields env) fds" and i: "it \<in> positions fds dest"
    and l: "laid_out (Suc n) (env_fields env) fds dest" and h: "PB_HTYPE (pb_type (it_field it)) = PB_HTYPE_REPEATED"
    and k: "k < unat (array_size (it_field it))" and C: "area n (env_fields env) it \<inter> C = {}"
    and item: "item_does n out env func C (it_field it) (\<lambda>_. True) (item_places it ! k) (vs ! k)"
  shows "does (area n (env_fields env) it \<union> C) (stored_items n out env it vs k c) (func (item_places it ! k)) (wire_payload (vs ! k)) ()
    (stored_items n out env it vs (Suc k) c)"
proof -
  let ?T = "env_fields env" and ?f = "it_field it"
  let ?I = "\<lambda>j. item_area (footprint n ?T) ?T ?f (item_places it ! j)"
  have sub: "?I j \<subseteq> data_area (footprint n ?T) ?T it" if "j < unat (array_size ?f)" for j
    using places_nth(2) [OF h that] unfolding data_area_places by auto
  have len: "length (item_places it) = unat (array_size ?f)" using h by (simp add: item_places_def Let_def)
  have apart: "?I k \<inter> ?I j = {}" if "j < k" for j using l i k len that by simp
  have keep: "stored_items n out env it vs k c w'" if s: "same_outside (?I k \<union> C) w w'" and st: "stored_items n out env it vs k c w" for w w'
    unfolding stored_items_def
  proof (intro conjI allI impI)
    have "size_area it \<inter> data_area (footprint n ?T) ?T it = {}" using l i by simp
    then have "(?I k \<union> C) \<inter> span (it_pSize it) 4 = {}"
      using sub [OF k] C round_size_area(2) [OF t i h] by (auto simp: area_def)
    from agree_words(3) [OF same_outside_agree [OF s this]] st
    show "w_u32 w' (it_pSize it) = word_of_nat c" by (simp add: stored_items_def)
    fix j assume j: "j < k"
    have "(?I k \<union> C) \<inter> ?I j = {}" using apart [OF j] sub [of j] C j k by (auto simp: area_def)
    from agree_item [OF t i same_outside_agree [OF s this], of out] st j
    show "value_at n out env (w_mem w') ?f (item_places it ! j) = Some (vs ! j)" by (simp add: stored_items_def)
  qed
  show ?thesis
  proof (rule triple_conseq [OF triple_frame [OF item [unfolded item_does_def], where R = "stored_items n out env it vs k c"]])
    show "stored_items n out env it vs (Suc k) c w"
      if "value_at n out env (w_mem w) ?f (item_places it ! k) = Some (vs ! k) \<and> stored_items n out env it vs k c w" for w
      using that by (auto simp: stored_items_def less_Suc_eq)
    show "?I k \<union> C \<subseteq> area n ?T it \<union> C" using sub [OF k] by (auto simp: area_def)
  qed (use keep in auto)
qed

text \<open>One item of an array that is not packed.\<close>

lemma unpacked_does:
  fixes env :: "'s dec_env" and penv :: "'e pb_env" and it :: pb_field_iter
    and decode noinit :: "pb_field list \<Rightarrow> addr \<Rightarrow> ('s, unit) dop"
  defines "func \<equiv> PB_DECODERS decode noinit env (PB_LTYPE (pb_type (it_field it))) (it_field it)"
  assumes T: "env_fields penv = dec_fields env" and t: "round_table (Suc n) (env_fields penv) fds" and i: "it \<in> positions fds dest"
    and l: "laid_out (Suc n) (env_fields penv) fds dest" and h: "PB_HTYPE (pb_type (it_field it)) = PB_HTYPE_REPEATED"
    and u: "\<not> PB_LTYPE (pb_type (it_field it)) \<le> PB_LTYPE_LAST_PACKABLE"
    and k: "k < unat (array_size (it_field it))" and C: "area n (env_fields penv) it \<inter> C = {}"
    and item: "item_does n out penv func C (it_field it) (\<lambda>_. True) (item_places it ! k) (vs ! k)"
  shows "does (area n (env_fields penv) it \<union> C) (stored_items n out penv it vs k k)
    (decode_static_field dm (PB_DECODERS decode noinit env) env wire_type it) (wire_payload (vs ! k)) ()
    (stored_items n out penv it vs (Suc k) (Suc k))"
proof -
  let ?f = "it_field it" and ?pS = "it_pSize it" and ?A = "area n (env_fields penv) it \<union> C"
  have e: "round_entry ?f" using t positions_field [OF i] by simp
  have small: "\<not> PB_LTYPES_COUNT \<le> PB_LTYPE (pb_type ?f)" using round_entryD(2) [OF e] by simp
  note place = places_nth [OF h k]
  define step :: "u32 \<Rightarrow> ('s, unit) dop" where "step j = d_then (d_put ?pS (fixed32 (j + 1)))
      (if j \<ge> array_size ?f then d_error ''array overflow'' else func (item_addr (it_pData it) ?f j))" for j
  have field: "decode_static_field dm (PB_DECODERS decode noinit env) env wire_type it = d_world (\<lambda>w. step (w_u32 w ?pS))"
    unfolding decode_static_field_def step_def func_def Let_def using h u small by simp
  have put: "does ?A (stored_items n out penv it vs k k) (d_put ?pS (fixed32 (word_of_nat k + 1)) :: ('s, unit) dop) [] ()
      (stored_items n out penv it vs k (Suc k))"
  proof (rule does_put)
    show "span ?pS (length (fixed32 (word_of_nat k + 1))) \<subseteq> ?A" using round_size_area(2) [OF t i h] by (auto simp: area_def)
    fix w assume "stored_items n out penv it vs k k w"
    from stored_put [OF t i l h _ this, of "Suc k"] k
    show "stored_items n out penv it vs k (Suc k) (w_put ?pS (fixed32 (word_of_nat k + 1)) w)" by (simp add: add.commute)
  qed
  have run: "does ?A (stored_items n out penv it vs k k) (step (word_of_nat k)) (wire_payload (vs ! k)) ()
      (stored_items n out penv it vs (Suc k) (Suc k))"
    using triple_then0 [OF put stored_item [OF t i l h k C item]] place place(4) [unfolded not_le [symmetric]]
    by (simp add: step_def)
  show ?thesis
    unfolding field
  proof (rule does_world)
    fix w assume q: "stored_items n out penv it vs k k w"
    then have "w_u32 w ?pS = word_of_nat k" by (simp add: stored_items_def)
    with triple_conseq [OF run, where Q' = "\<lambda>w'. w' = w"] q
    show "does ?A (\<lambda>w'. w' = w) (step (w_u32 w ?pS)) (wire_payload (vs ! k)) () (stored_items n out penv it vs (Suc k) (Suc k))"
      by simp
  qed
qed

text \<open>The loop over a packed array takes all items of its substream.\<close>

lemma packed_payload:
  assumes "round_entry field" and "PB_LTYPE (pb_type field) \<le> PB_LTYPE_LAST_PACKABLE" and "value_wire msg tables m field p = Some v"
  shows "wire_payload v \<noteq> []"
proof -
  have "unat (PB_LTYPE (pb_type field)) \<le> 5" using assms(2) by (simp add: word_le_nat_alt)
  then have "PB_LTYPE (pb_type field) \<notin> {6, 7, 8, 10}" by auto
  then show ?thesis
    using assms(3) itype_cases [OF round_entryD(2,3) [OF assms(1)]]
    by (auto simp: value_wire_def Let_def fixed32_def fixed64_def split: if_splits)
qed

lemma static_packed_does:
  fixes func :: "addr \<Rightarrow> ('s, unit) dop" and env :: "'e pb_env"
  assumes t: "round_table (Suc n) (env_fields env) fds" and i: "it \<in> positions fds dest"
    and l: "laid_out (Suc n) (env_fields env) fds dest" and h: "PB_HTYPE (pb_type (it_field it)) = PB_HTYPE_REPEATED"
    and len: "length vs \<le> unat (array_size (it_field it))" and C: "area n (env_fields env) it \<inter> C = {}"
    and ne: "\<And>v. v \<in> set vs \<Longrightarrow> wire_payload v \<noteq> []"
    and item: "\<And>k. k < length vs \<Longrightarrow> item_does n out env func C (it_field it) (\<lambda>_. True) (item_places it ! k) (vs ! k)"
  shows "k \<le> length vs \<Longrightarrow> does_all (area n (env_fields env) it \<union> C) (stored_items n out env it vs k k) (static_packed func it)
    (concat (map wire_payload (drop k vs))) () (stored_items n out env it vs (length vs) (length vs))"
proof (induction "length vs - k" arbitrary: k)
  case 0
  then have k: "k = length vs" by simp
  show ?case
  proof (rule tripleI)
    fix s :: "'s pb_istream" and w rest m e
    assume h: "stream_ok s" "stream_at s (concat (map wire_payload (drop k vs)) @ rest) (length (concat (map wire_payload (drop k vs))) + m) e"
      "m = 0" "stored_items n out env it vs k k w"
    then have "bytes_left s = 0" by (simp add: k stream_at_def)
    then have "static_packed func it (s, w) = Some (Some (), s, w)" by (simp add: static_packed.simps [of func it "(s, w)"] Let_def)
    with h show "\<exists>s' w'. static_packed func it (s, w) = Some (Some (), s', w') \<and> stream_ok s' \<and> stream_at s' rest m e \<and>
        same_outside (area n (env_fields env) it \<union> C) w w' \<and> stored_items n out env it vs (length vs) (length vs) w'"
      by (simp add: k)
  qed
next
  case (Suc d)
  then have k: "k < length vs" by simp
  let ?pS = "it_pSize it" and ?A = "area n (env_fields env) it \<union> C" and ?v = "vs ! k"
  let ?P = "stored_items n out env it vs (length vs) (length vs)"
  have ka: "k < unat (array_size (it_field it))" using k len by simp
  note place = places_nth [OF h ka]
  have drop: "drop k vs = ?v # drop (Suc k) vs" using k by (simp add: Cons_nth_drop_Suc)
  have IH: "does_all ?A (stored_items n out env it vs (Suc k) (Suc k)) (static_packed func it) (concat (map wire_payload (drop (Suc k) vs))) () ?P"
    using Suc by simp
  show ?case
  proof (rule tripleI)
    fix s :: "'s pb_istream" and w rest m e
    assume ok: "stream_ok s" and s: "stream_at s (concat (map wire_payload (drop k vs)) @ rest) (length (concat (map wire_payload (drop k vs))) + m) e"
      and m: "m = 0" and q: "stored_items n out env it vs k k w"
    let ?cs = "concat (map wire_payload (drop (Suc k) vs))"
    have s': "stream_at s (wire_payload ?v @ ?cs @ rest) (length (wire_payload ?v) + (length ?cs + m)) e"
      using s by (simp add: drop add.assoc)
    have pos: "0 < length (wire_payload ?v)" using ne [of ?v] k by simp
    from tripleE [OF stored_item [OF t i l h ka C item [OF k], of k] ok s' TrueI q] obtain s1 w1 where
      1: "func (item_places it ! k) (s, w) = Some (Some (), s1, w1)" "stream_ok s1" "stream_at s1 (?cs @ rest) (length ?cs + m) e"
        "same_outside ?A w w1" "stored_items n out env it vs (Suc k) k w1" by blast
    let ?w2 = "w_put ?pS (fixed32 (w_u32 w1 ?pS + 1)) w1"
    have "w_u32 w1 ?pS + 1 = word_of_nat (Suc k)" using 1(5) by (simp add: stored_items_def add.commute)
    with stored_put [OF t i l h _ 1(5), of "Suc k"] k len
    have q2: "stored_items n out env it vs (Suc k) (Suc k) ?w2" by (simp add: add.commute)
    have w2: "same_outside ?A w1 ?w2" using round_size_area(2) [OF t i h] by (intro same_outside_put) (auto simp: area_def)
    from tripleE [OF IH 1(2,3) m q2] obtain s3 w3 where
      3: "static_packed func it (s1, ?w2) = Some (Some (), s3, w3)" "stream_ok s3" "stream_at s3 rest m e" "same_outside ?A ?w2 w3" "?P w3"
      by blast
    have "w_u32 w ?pS = word_of_nat k" using q by (simp add: stored_items_def)
    moreover have "bytes_left s1 < bytes_left s" "0 < bytes_left s" using s' 1(3) pos by (auto simp: stream_at_def)
    ultimately have "static_packed func it (s, w) = Some (Some (), s3, w3)"
      using place(1,4) 1(1) 3(1) by (simp add: static_packed.simps [of func it "(s, w)"] Let_def)
    with 3(2-5) show "\<exists>s' w'. static_packed func it (s, w) = Some (Some (), s', w') \<and> stream_ok s' \<and> stream_at s' rest m e \<and>
        same_outside ?A w w' \<and> ?P w'"
      using same_outside_trans [OF same_outside_trans [OF 1(4) w2]] by blast
  qed
qed

lemma packed_does:
  fixes env :: "'s dec_env" and penv :: "'e pb_env" and it :: pb_field_iter
    and decode noinit :: "pb_field list \<Rightarrow> addr \<Rightarrow> ('s, unit) dop"
  defines "func \<equiv> PB_DECODERS decode noinit env (PB_LTYPE (pb_type (it_field it))) (it_field it)"
  assumes T: "env_fields penv = dec_fields env" and t: "round_table (Suc n) (env_fields penv) fds" and i: "it \<in> positions fds dest"
    and l: "laid_out (Suc n) (env_fields penv) fds dest" and h: "PB_HTYPE (pb_type (it_field it)) = PB_HTYPE_REPEATED"
    and u: "PB_LTYPE (pb_type (it_field it)) \<le> PB_LTYPE_LAST_PACKABLE"
    and len: "length vs \<le> unat (array_size (it_field it))" and C: "area n (env_fields penv) it \<inter> C = {}"
    and ne: "\<And>v. v \<in> set vs \<Longrightarrow> wire_payload v \<noteq> []" and bytes: "length (concat (map wire_payload vs)) < 2 ^ 32"
    and item: "\<And>k. k < length vs \<Longrightarrow> item_does n out penv func C (it_field it) (\<lambda>_. True) (item_places it ! k) (vs ! k)"
  shows "does (area n (env_fields penv) it \<union> C) (stored_items n out penv it vs 0 0)
    (decode_static_field dm (PB_DECODERS decode noinit env) env PB_WT_STRING it)
    (wire_payload (Bytes (pf_tag (it_field it)) (concat (map wire_payload vs)))) ()
    (stored_items n out penv it vs (length vs) (length vs))"
proof -
  let ?A = "area n (env_fields penv) it \<union> C"
  have e: "round_entry (it_field it)" using t positions_field [OF i] by simp
  have small: "\<not> PB_LTYPES_COUNT \<le> PB_LTYPE (pb_type (it_field it))" using round_entryD(2) [OF e] by simp
  have "does ?A (stored_items n out penv it vs 0 0)
      (d_bind (d_stream pb_make_string_substream) (\<lambda>sub. d_bind (d_on sub (static_packed func it))
        (\<lambda>(status, sub'). if bytes_left sub' \<noteq> 0 then d_error ''array overflow'' else d_close sub' status)))
      (varint (length (concat (map wire_payload vs))) @ concat (map wire_payload vs)) () (stored_items n out penv it vs (length vs) (length vs))"
    using static_packed_does [OF t i l h len C ne item, of 0] bytes
    by (intro does_substream [where k = "\<lambda>status sub'. if bytes_left sub' \<noteq> 0 then d_error ''array overflow'' else d_close sub' status"]) simp_all
  moreover have "decode_static_field dm (PB_DECODERS decode noinit env) env PB_WT_STRING it =
      d_bind (d_stream pb_make_string_substream) (\<lambda>sub. d_bind (d_on sub (static_packed func it))
        (\<lambda>(status, sub'). if bytes_left sub' \<noteq> 0 then d_error ''array overflow'' else d_close sub' status))"
    unfolding decode_static_field_def func_def Let_def using h u small by simp
  ultimately show ?thesis by simp
qed

section \<open>The records of an entry\<close>

lemma all_some_iff: "all_some xs = Some ys \<longleftrightarrow> xs = map Some ys"
proof (induction xs arbitrary: ys)
  case (Cons x xs)
  then show ?case by (cases ys) (auto split: option.split)
qed auto

lemma value_wire_key:
  assumes "value_wire msg tables mem field p = Some v"
  obtains wire_type where "unat wire_type < 8" "wire_bytes v = wire_key (pf_tag field) wire_type @ wire_payload v"
proof -
  have "(\<exists>x. v = Varint (pf_tag field) x) \<or> (\<exists>x. v = Fix64 (pf_tag field) x) \<or> (\<exists>x. v = Fix32 (pf_tag field) x) \<or>
      (\<exists>bs. v = Bytes (pf_tag field) bs) \<or> (\<exists>ws. v = Message (pf_tag field) ws)"
    using assms by (auto simp: value_wire_def Let_def split: if_splits)
  then show thesis
    using that [of PB_WT_VARINT] that [of PB_WT_64BIT] that [of PB_WT_32BIT] that [of PB_WT_STRING] by fastforce
qed

lemma present_single:
  assumes "round_entry field" and "PB_HTYPE (pb_type field) \<noteq> PB_HTYPE_REPEATED"
  shows "present_items mem field pData \<in> {[], [pData]}"
    and "PB_HTYPE (pb_type field) = PB_HTYPE_REQUIRED \<Longrightarrow> present_items mem field pData = [pData]"
  using assms by (cases rule: round_htype; simp add: present_items_def)+

lemma fresh_wires:
  assumes t: "round_table (Suc n) (env_fields env) fds" and i: "it \<in> positions fds dest"
    and f: "fresh_at n (env_fields env) it w" and h: "PB_HTYPE (pb_type (it_field it)) \<noteq> PB_HTYPE_REQUIRED"
  shows "entry_wires n out (w_mem w) env it = Some []"
proof -
  have e: "round_entry (it_field it)" using t positions_field [OF i] by simp
  from e h have "present_items (w_mem w) (it_field it) (it_pData it) = []"
    using f positions_size [OF t i]
    by (cases rule: round_htype) (simp_all add: fresh_entry_def present_items_def safe_read_bool_def Let_def)
  with h show ?thesis unfolding entry_wires_items [OF t i] by (simp add: Let_def)
qed

lemma stored_all:
  assumes t: "round_table (Suc n) (env_fields env) fds" and i: "it \<in> positions fds dest"
    and h: "PB_HTYPE (pb_type (it_field it)) = PB_HTYPE_REPEATED" and len: "length vs \<le> unat (array_size (it_field it))"
    and s: "stored_items n out env it vs (length vs) (length vs) w"
  shows "length (present_items (w_mem w) (it_field it) (it_pData it)) = length vs"
    and "map (value_at n out env (w_mem w) (it_field it)) (present_items (w_mem w) (it_field it) (it_pData it)) = map Some vs"
proof -
  let ?is = "present_items (w_mem w) (it_field it) (it_pData it)"
  have e: "round_entry (it_field it)" using t positions_field [OF i] by simp
  have "unat (word_of_nat (length vs) :: u32) = length vs"
    using len unat_u32_below [of "array_size (it_field it)"] by (intro unat_u32_of_nat) simp
  then have "unat (mem_u32 (w_mem w) (size_addr (it_pData it) (it_field it))) = length vs"
    using s positions_size [OF t i] by (simp add: stored_items_def)
  then show l: "length ?is = length vs" using h by (simp add: present_items_def Let_def)
  show "map (value_at n out env (w_mem w) (it_field it)) ?is = map Some vs"
  proof (rule nth_equalityI)
    fix j assume "j < length (map (value_at n out env (w_mem w) (it_field it)) ?is)"
    then have j: "j < length vs" using l by simp
    have "?is ! j = item_places it ! j"
      using present_repeated_nth(1) [OF e h, of j "w_mem w" "it_pData it"] places_nth(1) [OF h, of j] j l len by simp
    with s j l show "map (value_at n out env (w_mem w) (it_field it)) ?is ! j = map Some vs ! j" by (simp add: stored_items_def)
  qed (simp add: l)
qed

text \<open>A way through the records of an entry: \<open>Q k\<close> holds when \<open>k\<close> of them are decoded.\<close>

definition entry_path ::
  "nat \<Rightarrow> user_out \<Rightarrow> 'e pb_env \<Rightarrow> (u32 \<Rightarrow> pb_field_iter \<Rightarrow> ('s, unit) dop) \<Rightarrow> addr set \<Rightarrow> pb_field_iter \<Rightarrow> wire list \<Rightarrow>
     (nat \<Rightarrow> world \<Rightarrow> bool) \<Rightarrow> bool" where
  "entry_path n out env field C it rs Q \<longleftrightarrow>
     (\<forall>w. fresh_at n (env_fields env) it w \<longrightarrow> Q 0 w) \<and>
     (\<forall>w. Q (length rs) w \<longrightarrow> entry_wires n out (w_mem w) env it = Some rs) \<and>
     (PB_HTYPE (pb_type (it_field it)) = PB_HTYPE_REQUIRED \<longrightarrow> length rs = 1) \<and>
     (\<forall>k < length rs. \<exists>wire_type payload. unat wire_type < 8 \<and>
        wire_bytes (rs ! k) = wire_key (pf_tag (it_field it)) wire_type @ payload \<and>
        does (area n (env_fields env) it \<union> C) (Q k) (field wire_type it) payload () (Q (Suc k)))"

lemma length_nth_bytes: "k < length rs \<Longrightarrow> length (wire_bytes (rs ! k)) \<le> length (concat (map wire_bytes rs))"
proof (induction rs arbitrary: k)
  case (Cons r rs)
  show ?case
  proof (cases k)
    case (Suc j)
    then show ?thesis using Cons.IH [of j] Cons.prems by simp
  qed simp
qed simp

lemma length_nth_payload: "v \<in> set vs \<Longrightarrow> length (wire_payload v) \<le> length (concat (map wire_payload vs))"
proof (induction vs)
  case (Cons r rs)
  then show ?case by (cases "v = r") auto
qed simp

lemma entry_path_exists:
  fixes env :: "'s dec_env" and penv :: "'e pb_env" and it it0 :: pb_field_iter
    and decode noinit :: "pb_field list \<Rightarrow> addr \<Rightarrow> ('s, unit) dop"
  defines "func \<equiv> PB_DECODERS decode noinit env (PB_LTYPE (pb_type (it_field it))) (it_field it)"
  assumes T: "env_fields penv = dec_fields env" and t: "round_table (Suc n) (env_fields penv) fds" and i: "it \<in> positions fds dest"
    and l: "laid_out (Suc n) (env_fields penv) fds dest" and C: "area n (env_fields penv) it \<inter> C = {}"
    and i0: "it0 \<in> positions fds src" and same: "it_field it0 = it_field it" and z: "0 \<notin> area n (env_fields penv) it"
    and rs: "entry_wires n out mem penv it0 = Some rs" and len: "length (concat (map wire_bytes rs)) < 2 ^ 32"
    and item: "\<And>a v p. a \<in> set (present_items mem (it_field it) (it_pData it0)) \<Longrightarrow>
      value_at n out penv mem (it_field it) a = Some v \<Longrightarrow> length (wire_payload v) < 2 ^ 32 \<Longrightarrow> p \<in> set (item_places it) \<Longrightarrow> p \<noteq> 0 \<Longrightarrow>
      item_does n out penv func C (it_field it)
        (if PB_HTYPE (pb_type (it_field it)) = PB_HTYPE_REPEATED then \<lambda>_. True else fresh_sub n (env_fields penv) it) p v"
  shows "\<exists>Q. entry_path n out penv (decode_static_field dm (PB_DECODERS decode noinit env) env) C it rs Q"
proof -
  let ?f = "it_field it" and ?T = "env_fields penv" and ?field = "decode_static_field dm (PB_DECODERS decode noinit env) env"
  let ?is = "present_items mem (it_field it) (it_pData it0)"
  have e: "round_entry ?f" using t positions_field [OF i] by simp
  note wires0 = rs [unfolded entry_wires_items [OF t i0] same Let_def]
  have zero: "p \<noteq> 0" if "p \<in> set (item_places it)" for p
  proof -
    have "p \<in> span p (unat (data_size ?f))" using round_entryD(8) [OF e] by (simp add: span_def)
    then have "p \<in> area n ?T it" using that unfolding area_def data_area_places by (auto simp: item_area_def)
    then show ?thesis using z by auto
  qed
  show ?thesis
  proof (cases "rs = []")
    case True
    have "PB_HTYPE (pb_type ?f) \<noteq> PB_HTYPE_REQUIRED"
    proof
      assume r: "PB_HTYPE (pb_type ?f) = PB_HTYPE_REQUIRED"
      then have "?is = [it_pData it0]" by (simp add: present_items_def)
      with wires0 True r show False by (auto simp: packed_entry_def split: if_splits option.splits)
    qed
    then have "entry_path n out penv ?field C it rs (\<lambda>_ w. entry_wires n out (w_mem w) penv it = Some rs)"
      using True fresh_wires [OF t i, of _ out] by (simp add: entry_path_def)
    then show ?thesis by blast
  next
    case False
    show ?thesis
    proof (cases "PB_HTYPE (pb_type ?f) = PB_HTYPE_REPEATED")
      case single: False
      have "length ?is \<le> 1" using present_single(1) [OF e single, of mem "it_pData it0"] by auto
      moreover have rs': "map (value_at n out penv mem ?f) ?is = map Some rs"
        using wires0 single by (simp add: packed_entry_def all_some_iff split: if_splits)
      ultimately obtain a v where a: "?is = [a]" "rs = [v]" "value_at n out penv mem ?f a = Some v"
        using False by (cases ?is; cases rs) auto
      obtain wt where wt: "unat wt < 8" "wire_bytes v = wire_key (pf_tag ?f) wt @ wire_payload v"
        using value_wire_key [OF a(3)] by blast
      have place: "it_pData it \<in> set (item_places it)" using single by (simp add: item_places_def Let_def)
      have lv: "length (wire_payload v) < 2 ^ 32" using len a(2) wt(2) by simp
      have "item_does n out penv func C ?f (fresh_sub n ?T it) (it_pData it) v"
        using item [OF _ a(3) lv place zero [OF place]] a(1) single by simp
      from single_does [OF T t [unfolded T] i l [unfolded T] single zero [OF place] C [unfolded T] this [unfolded func_def T], of dm wt]
      have "does (area n ?T it \<union> C) (fresh_at n ?T it) (?field wt it) (wire_payload v) () (\<lambda>w. entry_wires n out (w_mem w) penv it = Some [v])"
        by (simp add: T)
      then have "entry_path n out penv ?field C it rs
          (\<lambda>k. if k = 0 then fresh_at n ?T it else (\<lambda>w. entry_wires n out (w_mem w) penv it = Some rs))"
        using wt a(2) by (auto simp: entry_path_def)
      then show ?thesis by blast
    next
      case rep: True
      have count: "length ?is \<le> unat (array_size ?f)" using wires0 rep by (simp split: if_splits)
      have fresh0: "stored_items n out penv it vs 0 0 w" if "fresh_at n ?T it w" for vs w
        using that rep by (simp add: fresh_entry_def stored_items_def Let_def)
      obtain vs where vs: "map (value_at n out penv mem ?f) ?is = map Some vs"
        "rs = (if packed_entry ?f then [Bytes (pf_tag ?f) (concat (map wire_payload vs))] else vs)"
        using wires0 rep False by (auto simp: all_some_iff split: if_splits)
      have lenvs: "length ?is = length vs" using vs(1) by (metis length_map)
      have val: "value_at n out penv mem ?f (?is ! k) = Some (vs ! k)" "?is ! k \<in> set ?is" if "k < length vs" for k
        using arg_cong [OF vs(1), of "\<lambda>xs. xs ! k"] that lenvs by simp_all
      have lp: "length (wire_payload v) < 2 ^ 32" if v: "v \<in> set vs" for v
      proof (cases "packed_entry ?f")
        case True
        with vs(2) len length_nth_payload [OF v] show ?thesis by simp
      next
        case False
        obtain k where k: "k < length vs" "v = vs ! k" using v by (auto simp: in_set_conv_nth)
        obtain wt where "wire_bytes v = wire_key (pf_tag ?f) wt @ wire_payload v"
          using value_wire_key [OF val(1) [OF k(1)]] k(2) by blast
        with length_nth_bytes [OF k(1)] len vs(2) False k(2) show ?thesis by simp
      qed
      have it_does: "item_does n out penv func C ?f (\<lambda>_. True) (item_places it ! k) (vs ! k)" if k: "k < length vs" for k
      proof -
        have place: "item_places it ! k \<in> set (item_places it)" using places_nth(2) [OF rep, of k] k lenvs count by simp
        show ?thesis using item [OF val(2) [OF k] val(1) [OF k] lp place zero [OF place]] k rep by simp
      qed
      have lenle: "length vs \<le> unat (array_size ?f)" using lenvs count by simp
      have final: "entry_wires n out (w_mem w) penv it = Some rs" if s: "stored_items n out penv it vs (length vs) (length vs) w" for w
      proof -
        note all = stored_all [OF t i rep lenle s]
        have "present_items (w_mem w) ?f (it_pData it) = [] \<longleftrightarrow> vs = []" using all(1) by auto
        moreover have "vs \<noteq> []" if "packed_entry ?f"
          using wires0 rep that False lenvs by (auto split: if_splits)
        ultimately show ?thesis
          unfolding entry_wires_items [OF t i] Let_def using all vs(2) rep lenle
          by (auto simp: all_some_iff simp del: map_eq_conv)
      qed
      show ?thesis
      proof (cases "packed_entry ?f")
        case True
        have ne: "wire_payload v \<noteq> []" if "v \<in> set vs" for v
        proof -
          obtain k where k: "k < length vs" "v = vs ! k" using \<open>v \<in> set vs\<close> by (auto simp: in_set_conv_nth)
          show ?thesis using packed_payload [OF e _ val(1) [OF k(1)]] True k(2) by (simp add: packed_entry_def)
        qed
        have bytes: "length (concat (map wire_payload vs)) < 2 ^ 32" using len vs(2) True by simp
        have "does (area n ?T it \<union> C) (stored_items n out penv it vs 0 0) (?field PB_WT_STRING it)
            (wire_payload (Bytes (pf_tag ?f) (concat (map wire_payload vs)))) () (stored_items n out penv it vs (length vs) (length vs))"
          using True it_does unfolding func_def
          by (intro packed_does [OF T t i l rep _ lenle C ne bytes]) (simp_all add: packed_entry_def)
        then have "entry_path n out penv ?field C it rs
            (\<lambda>k. if k = 0 then stored_items n out penv it vs 0 0 else stored_items n out penv it vs (length vs) (length vs))"
          using vs(2) True fresh0 final rep unfolding entry_path_def
          by (auto intro!: exI [of _ PB_WT_STRING])
        then show ?thesis by blast
      next
        case False
        have "\<exists>wire_type payload. unat wire_type < 8 \<and> wire_bytes (rs ! k) = wire_key (pf_tag ?f) wire_type @ payload \<and>
            does (area n ?T it \<union> C) (stored_items n out penv it vs k k) (?field wire_type it) payload ()
              (stored_items n out penv it vs (Suc k) (Suc k))" if k: "k < length rs" for k
        proof -
          have k: "k < length vs" "rs ! k = vs ! k" using k vs(2) False by simp_all
          obtain wt where wt: "unat wt < 8" "wire_bytes (vs ! k) = wire_key (pf_tag ?f) wt @ wire_payload (vs ! k)"
            using value_wire_key [OF val(1) [OF k(1)]] by blast
          have "does (area n ?T it \<union> C) (stored_items n out penv it vs k k) (?field wt it) (wire_payload (vs ! k)) ()
              (stored_items n out penv it vs (Suc k) (Suc k))"
            using False rep k(1) lenle it_does [OF k(1)] unfolding func_def
            by (intro unpacked_does [OF T t i l rep _ _ C]) (simp_all add: packed_entry_def)
          with wt k(2) show ?thesis by auto
        qed
        then have "entry_path n out penv ?field C it rs (\<lambda>k. stored_items n out penv it vs k k)"
          using vs(2) False fresh0 final rep by (simp add: entry_path_def)
        then show ?thesis by blast
      qed
    qed
  qed
qed

end
