(* ===== verification/PbRoundtrip.thy ===== *)
theory PbRoundtrip
  imports PbRoundField
begin

text \<open>
  The decoder reads what the encoder wrote: the message that \<open>pb_encode\<close> writes for a struct makes \<open>pb_decode\<close>
  fill another struct, from which the encoder reads the same records.
\<close>

section \<open>The search for an entry\<close>

lemma visit_list_next_nth:
  "Suc i < length (visit_list iter) \<Longrightarrow> pb_field_iter_next (visit_list iter ! i) = (True, visit_list iter ! Suc i)"
  "Suc i = length (visit_list iter) \<Longrightarrow> \<not> fst (pb_field_iter_next (visit_list iter ! i))"
proof (induction iter arbitrary: i rule: visit_list.induct)
  case (1 iter)
  obtain b it where n: "pb_field_iter_next iter = (b, it)" by fastforce
  note IH = 1 [OF n [symmetric]]
  have first: "visit_list it ! 0 = it" by (simp add: visit_list.simps [of it])
  {
    case 1
    then have b: "b" using n by (auto simp: visit_list.simps [of iter] split: bool.splits)
    with 1 n IH(1) [of "i - 1"] first show ?case by (cases i) (simp_all add: visit_list.simps [of iter])
  next
    case 2
    show ?case
    proof (cases b)
      case True
      moreover have "0 < length (visit_list it)" by (simp add: visit_list.simps [of it])
      ultimately show ?thesis using 2 n IH(2) [of "i - 1"] by (cases i) (simp_all add: visit_list.simps [of iter])
    next
      case False
      with 2 n show ?thesis by (simp add: visit_list.simps [of iter])
    qed
  }
qed

lemma entries_next:
  "Suc i < length (entries fds dest) \<Longrightarrow> pb_field_iter_next (entries fds dest ! i) = (True, entries fds dest ! Suc i)"
  "Suc i = length (entries fds dest) \<Longrightarrow> \<not> fst (pb_field_iter_next (entries fds dest ! i))"
  unfolding entries_def using visit_list_next_nth by blast+

lemma entries_first: "entries fds dest ! 0 = snd (pb_field_iter_begin fds dest)" "entries fds dest \<noteq> []"
  by (simp_all add: entries_def visit_list.simps)

lemma entries_at:
  assumes "round_table (Suc n) tables fds" and "i < length (entries fds dest)"
  shows "entries fds dest ! i \<in> positions fds dest" and "it_start (entries fds dest ! i) = fds"
    and "i < length fds" and "it_field (entries fds dest ! i) = fds ! i"
proof -
  show p: "entries fds dest ! i \<in> positions fds dest" using positions_entries [OF assms(1)] assms(2) by simp
  show s: "it_start (entries fds dest ! i) = fds" by (rule positions_start [OF p])
  show "i < length fds" using positions_entry [OF p] entries_pos [OF assms(2)] by (simp add: at_entry_def)
  then show "it_field (entries fds dest ! i) = fds ! i" by (simp add: it_field_def s entries_pos [OF assms(2)] field_at_def)
qed

lemma find_walk:
  assumes "k < length (entries fds dest)" and "wanted (it_field (entries fds dest ! k))"
    and "\<And>i. i < k \<Longrightarrow> \<not> wanted (it_field (entries fds dest ! i))"
  shows "start \<le> j \<Longrightarrow> j \<le> k \<Longrightarrow> k - j < fuel \<Longrightarrow> find_loop fuel start wanted (entries fds dest ! j) = (True, entries fds dest ! k)"
proof (induction fuel arbitrary: j)
  case (Suc fuel)
  show ?case
  proof (cases "j = k")
    case True
    with assms(2) show ?thesis by simp
  next
    case False
    with Suc.prems assms(1) entries_next(1) [of j fds dest] entries_pos [of "Suc j" fds dest] assms(3) [of j] Suc.IH [of "Suc j"]
    show ?thesis by simp
  qed
qed simp

lemma find_entry:
  assumes t: "round_table (Suc n) tables fds" and k: "k < length (entries fds dest)" and j: "j \<le> k"
  shows "pb_field_iter_find (entries fds dest ! j) (pf_tag (it_field (entries fds dest ! k))) = (True, entries fds dest ! k)"
proof -
  note at = entries_at [OF t]
  have jl: "j < length (entries fds dest)" using j k by simp
  let ?w = "\<lambda>field. pf_tag field = pf_tag (it_field (entries fds dest ! k)) \<and> PB_LTYPE (pb_type field) \<noteq> PB_LTYPE_EXTENSION"
  have "round_entry (it_field (entries fds dest ! k))" using t positions_field [OF at(1) [OF k]] by simp
  then have "?w (it_field (entries fds dest ! k))" using round_entryD(3) by simp
  moreover have "\<not> ?w (it_field (entries fds dest ! i))" if i: "i < k" for i
  proof -
    have il: "i < length (entries fds dest)" using i k by simp
    have "distinct (map pf_tag fds)" using t by simp
    then have "map pf_tag fds ! i \<noteq> map pf_tag fds ! k" using at(3) [OF il] at(3) [OF k] i by (auto simp: nth_eq_iff_index_eq simp del: nth_map)
    then show ?thesis using at(3,4) [OF il] at(3,4) [OF k] by simp
  qed
  ultimately show ?thesis
    unfolding pb_field_iter_find_def at(2) [OF jl] entries_pos [OF jl]
    using at(3) [OF k] by (intro find_walk [OF k]) (use j in auto)
qed

section \<open>Required fields\<close>

text \<open>The number of required entries before one, and the bits of \<open>fields_seen\<close> for them.\<close>

definition is_required :: "pb_field_iter \<Rightarrow> bool" where
  "is_required it \<longleftrightarrow> PB_HTYPE (pb_type (it_field it)) = PB_HTYPE_REQUIRED"

definition required_before :: "pb_field list \<Rightarrow> addr \<Rightarrow> nat \<Rightarrow> nat" where
  "required_before fds dest k = length (filter is_required (take k (entries fds dest)))"

definition seen_mask :: "nat \<Rightarrow> u32 list" where
  "seen_mask r = [mask (min r 32), mask (min (r - 32) 32)]"

lemma required_before_Suc:
  "k < length (entries fds dest) \<Longrightarrow>
    required_before fds dest (Suc k) = required_before fds dest k + (if is_required (entries fds dest ! k) then 1 else 0)"
  by (simp add: required_before_def take_Suc_conv_app_nth)

lemma next_required:
  "pb_field_iter_next it = (True, it') \<Longrightarrow> PB_HTYPE (pb_type (it_field it)) \<noteq> PB_HTYPE_ONEOF \<Longrightarrow>
    required_field_index it' = required_field_index it + (if is_required it then 1 else 0)"
  by (auto simp: pb_field_iter_next_def Let_def is_required_def split: if_splits)

lemma required_index:
  assumes t: "round_table (Suc n) tables fds"
  shows "k < length (entries fds dest) \<Longrightarrow> required_field_index (entries fds dest ! k) = required_before fds dest k"
proof (induction k)
  case 0
  then show ?case by (simp add: entries_first pb_field_iter_begin_def Let_def required_before_def)
next
  case (Suc k)
  let ?it = "entries fds dest ! k"
  have "round_entry (it_field ?it)" using t positions_field [OF entries_at(1) [OF t, of k]] Suc.prems by simp
  then have o: "PB_HTYPE (pb_type (it_field ?it)) \<noteq> PB_HTYPE_ONEOF" by (cases rule: round_htype) auto
  have "pb_field_iter_next ?it = (True, entries fds dest ! Suc k)" using entries_next(1) Suc.prems by simp
  then have "required_field_index (entries fds dest ! Suc k) = required_field_index ?it + (if is_required ?it then 1 else 0)"
    using o by (rule next_required)
  with Suc show ?case by (simp add: required_before_Suc)
qed

lemma mask_bit: "mask k OR push_bit k 1 = (mask (Suc k) :: u32)"
  by (simp add: mask_Suc_exp push_bit_eq_mult or.commute)

lemma see_mask:
  assumes "required_field_index (v_iter v) = r" and "fields_seen v = seen_mask r"
  shows "fields_seen (see_required v) = seen_mask (if is_required (v_iter v) then Suc r else r)"
proof -
  have low: "mask (min (Suc r) 32) = (mask (min r 32) OR push_bit r 1 :: u32)" if "r < 32"
    using that mask_bit [of r] by simp
  have high: "mask (min (Suc r - 32) 32) = (mask (min (r - 32) 32) OR push_bit (r - 32) 1 :: u32)" if "32 \<le> r" "r < 64"
  proof -
    have a: "min (Suc r - 32) 32 = Suc (r - 32)" "min (r - 32) 32 = r - 32" using that by simp_all
    show ?thesis unfolding a mask_bit ..
  qed
  consider "r < 32" | "32 \<le> r" "r < 64" | "64 \<le> r" by linarith
  then show ?thesis
  proof cases
    case 1
    with assms low show ?thesis by (simp add: see_required_def is_required_def seen_mask_def Let_def)
  next
    case 2
    have "r div 32 = 1" "r mod 32 = r - 32" using 2 by (simp_all add: div_nat_eqI mod_nat_eqI)
    with 2 assms high show ?thesis by (simp add: see_required_def is_required_def seen_mask_def Let_def)
  next
    case 3
    with assms show ?thesis by (simp add: see_required_def is_required_def seen_mask_def Let_def)
  qed
qed

lemma required_seen_mask: "required_seen (min 64 r) (seen_mask r)"
proof -
  have full: "(mask 32 :: u32) = - 1" by (simp add: mask_eq_exp_minus_1)
  have part: "drop_bit (32 - k) (- 1 :: u32) = mask k" if "k \<le> 32" for k
    using that by (intro bit_word_eqI) (auto simp: bit_simps)
  consider "r < 32" | "32 \<le> r" "r < 64" | "64 \<le> r" by linarith
  then show ?thesis
  proof cases
    case 1
    then show ?thesis by (simp add: required_seen_def seen_mask_def part)
  next
    case 2
    have "r div 32 = 1" "r mod 32 = r - 32" using 2 by (simp_all add: div_nat_eqI mod_nat_eqI)
    with 2 show ?thesis using full by (simp add: required_seen_def seen_mask_def part)
  next
    case 3
    have "[- 1, - 1 :: u32] ! i = - 1" if "i < 2" for i using that by (auto simp: less_2_cases_iff)
    with 3 full show ?thesis by (simp add: required_seen_def seen_mask_def)
  qed
qed

lemma seek_entries:
  "j < length (entries fds dest) \<Longrightarrow> \<exists>iter'.
    seek_end (entries fds dest ! j) = (required_field_index (last (entries fds dest)), pb_type (it_field (last (entries fds dest))), iter') \<and>
    iter' = snd (pb_field_iter_next (last (entries fds dest)))"
proof (induction "length (entries fds dest) - j" arbitrary: j)
  case (Suc d)
  show ?case
  proof (cases "Suc j = length (entries fds dest)")
    case True
    then have "entries fds dest ! j = last (entries fds dest)" by (simp add: last_conv_nth entries_first(2) True [symmetric])
    with entries_next(2) [OF True] show ?thesis
      by (cases "pb_field_iter_next (entries fds dest ! j)") (simp add: seek_end.simps [of "last (entries fds dest)"])
  next
    case False
    with Suc have "Suc j < length (entries fds dest)" by simp
    with entries_next(1) [OF this] Suc show ?thesis by (simp add: seek_end.simps [of "entries fds dest ! j"])
  qed
qed simp

lemma req_count:
  assumes t: "round_table (Suc n) tables fds" and j: "j < length (entries fds dest)"
  shows "req_field_count (entries fds dest ! j) = min 64 (required_before fds dest (length (entries fds dest)))"
proof -
  let ?E = "entries fds dest" and ?l = "last (entries fds dest)"
  define m where "m = length ?E - 1"
  have m: "length ?E = Suc m" "?l = ?E ! m" using entries_first(2) by (simp_all add: m_def last_conv_nth)
  have mp: "?l \<in> positions fds dest" using entries_at(1) [OF t, of m] m by simp
  obtain b it' where nx: "pb_field_iter_next ?l = (b, it')" by fastforce
  have b: "\<not> b" using entries_next(2) [of m fds dest] m nx by simp
  then have "it' = snd (pb_field_iter_begin fds dest)"
    using iter_next_False(1) [of ?l it'] nx positions_tag [OF mp] positions_start [OF mp] positions_dest [OF mp] by simp
  then have "it' = ?E ! 0" by (simp add: entries_first)
  then have tag: "pf_tag (it_field it') \<noteq> 0" using positions_tag [of "?E ! 0" fds dest] entries_at(1) [OF t, of 0] m by simp
  have seek: "seek_end (?E ! j) = (required_field_index ?l, pb_type (it_field ?l), it')" using seek_entries [OF j] nx by simp
  have "required_field_index ?l = required_before fds dest m" using required_index [OF t, of m] m by simp
  then show ?thesis
    using required_before_Suc [of m fds dest] m tag by (simp add: req_field_count_def seek is_required_def)
qed

section \<open>The loop over the records\<close>

lemma d_bind_ret: "d_bind (d_ret a) g = g a"
  by (rule ext) (simp add: d_bind_def d_ret_def)

lemma decode_field_does:
  assumes "does A Q (decode_static_field (pb_message_set_to_defaults n env) (PB_DECODERS decode noinit env) env wire_type it) bs () P"
    and "round_entry (it_field it)"
  shows "does A Q (decode_field n decode noinit env wire_type it) bs it P"
proof -
  have o: "PB_HTYPE (pb_type (it_field it)) \<noteq> PB_HTYPE_ONEOF" using assms(2) by (cases rule: round_htype) auto
  have ret: "does A P (d_ret it) [] it P" by (rule does_ret)
  have "does A Q (d_then (decode_static_field (pb_message_set_to_defaults n env) (PB_DECODERS decode noinit env) env wire_type it) (d_ret it)) bs it P"
    using triple_then [OF assms(1) ret] by simp
  then show ?thesis using o round_entryD(1) [OF assms(2)] by (simp add: decode_field_def Let_def d_bind_ret)
qed

lemma v_iter_seen [simp]: "v_iter (see_required v) = v_iter v" and fixed_seen [simp]: "fixed_count_field (see_required v) = fixed_count_field v"
  by (simp_all add: see_required_def Let_def)

lemma turn_does:
  fixes env :: "'s dec_env" and field :: "u32 \<Rightarrow> pb_field_iter \<Rightarrow> ('s, pb_field_iter) dop"
  assumes find: "pb_field_iter_find (v_iter v) t = (True, it)" and t: "unat t < 2 ^ 29" "t \<noteq> 0" "unat wire_type < 8"
    and pSize: "it_pSize it \<noteq> it_pData it \<or> PB_HTYPE (pb_type (it_field it)) \<noteq> PB_HTYPE_REPEATED"
    and field: "does A Q (field wire_type it) payload it P"
  shows "does A Q (noinit_turn m field env count v) (wire_key t wire_type @ payload) (True, see_required (v\<lparr>v_iter := it\<rparr>)) P"
proof (rule tripleI)
  fix s :: "'s pb_istream" and w rest n e
  assume ok: "stream_ok s" and q: "Q w"
    and s: "stream_at s ((wire_key t wire_type @ payload) @ rest) (length (wire_key t wire_type @ payload) + n) e"
  have s': "stream_at s (wire_key t wire_type @ payload @ rest) (length (wire_key t wire_type) + (length payload + n)) e"
    using s by (simp add: add.assoc)
  obtain s1 where 1: "pb_decode_tag s = (Some (wire_type, t), False, s1)" "stream_at s1 (payload @ rest) (length payload + n) e"
    using parses_tag [where ?'a = 's, OF t(1,3)] t(2) s' unfolding parses_eof_def by blast
  have ok1: "stream_ok s1" using advances_ok [OF ok] reads_tag [OF ok 1(1)] by blast
  from tripleE [OF field ok1 1(2) TrueI q] obtain s2 w2 where
    2: "field wire_type it (s1, w) = Some (Some it, s2, w2)" "stream_ok s2" "stream_at s2 rest n e" "same_outside A w w2" "P w2" by blast
  have "start_fixed_count count (v\<lparr>v_iter := it\<rparr>) = (d_ret (v\<lparr>v_iter := it\<rparr>) :: ('s, noinit_vars) dop)" using pSize by (auto simp: start_fixed_count_def Let_def)
  moreover have "(see_required (v\<lparr>v_iter := it\<rparr>))\<lparr>v_iter := it\<rparr> = see_required (v\<lparr>v_iter := it\<rparr>)"
    by (simp add: see_required_def Let_def)
  ultimately have "noinit_turn m field env count v (s, w) = Some (Some (True, see_required (v\<lparr>v_iter := it\<rparr>)), s2, w2)"
    using 1(1) 2(1) by (simp add: noinit_turn_def find d_bind_def d_ret_def Let_def)
  with 2 show "\<exists>s' w'. noinit_turn m field env count v (s, w) = Some (Some (True, see_required (v\<lparr>v_iter := it\<rparr>)), s', w') \<and>
      stream_ok s' \<and> stream_at s' rest n e \<and> same_outside A w w' \<and> P w'"
    by blast
qed

definition loop_does ::
  "addr set \<Rightarrow> (world \<Rightarrow> bool) \<Rightarrow> (noinit_vars \<Rightarrow> ('s, bool \<times> noinit_vars) dop) \<Rightarrow> noinit_vars \<Rightarrow> byte list \<Rightarrow>
     (noinit_vars \<Rightarrow> bool) \<Rightarrow> (world \<Rightarrow> bool) \<Rightarrow> bool" where
  "loop_does A Q turn v bs V P \<longleftrightarrow> (\<exists>v'. V v' \<and> does_all A Q (noinit_loop turn v) bs v' P)"

lemma loop_end:
  fixes turn :: "noinit_vars \<Rightarrow> ('s, bool \<times> noinit_vars) dop"
  assumes "V v"
  shows "loop_does A Q turn v [] V Q"
proof -
  have "does_all A Q (noinit_loop turn v) [] v Q"
  proof (rule tripleI)
    fix s :: "'s pb_istream" and w rest n e
    assume h: "stream_ok s" "stream_at s ([] @ rest) (length [] + n) e" "n = 0" "Q w"
    then have "bytes_left s = 0" by (simp add: stream_at_def)
    then have "noinit_loop turn v (s, w) = Some (Some v, s, w)" by (simp add: noinit_loop.simps [of turn v "(s, w)"])
    with h show "\<exists>s' w'. noinit_loop turn v (s, w) = Some (Some v, s', w') \<and> stream_ok s' \<and> stream_at s' rest n e \<and>
        same_outside A w w' \<and> Q w'" by simp
  qed
  with assms show ?thesis unfolding loop_does_def by blast
qed

lemma loop_step:
  fixes turn :: "noinit_vars \<Rightarrow> ('s, bool \<times> noinit_vars) dop"
  assumes step: "does A Q (turn v) bs (True, v1) R" and ne: "bs \<noteq> []" and rest: "loop_does A R turn v1 cs V P"
  shows "loop_does A Q turn v (bs @ cs) V P"
proof -
  obtain v' where v': "V v'" "does_all A R (noinit_loop turn v1) cs v' P" using rest by (auto simp: loop_does_def)
  have "does_all A Q (noinit_loop turn v) (bs @ cs) v' P"
  proof (rule tripleI)
    fix s :: "'s pb_istream" and w rest n e
    assume ok: "stream_ok s" and s: "stream_at s ((bs @ cs) @ rest) (length (bs @ cs) + n) e" and n: "n = 0" and q: "Q w"
    have s': "stream_at s (bs @ cs @ rest) (length bs + (length cs + n)) e" using s by (simp add: add.assoc)
    from tripleE [OF step ok s' TrueI q] obtain s1 w1 where
      1: "turn v (s, w) = Some (Some (True, v1), s1, w1)" "stream_ok s1" "stream_at s1 (cs @ rest) (length cs + n) e"
        "same_outside A w w1" "R w1" by blast
    from tripleE [OF v'(2) 1(2,3) n 1(5)] obtain s2 w2 where
      2: "noinit_loop turn v1 (s1, w1) = Some (Some v', s2, w2)" "stream_ok s2" "stream_at s2 rest n e" "same_outside A w1 w2" "P w2"
      by blast
    have "bytes_left s1 < bytes_left s" using s' 1(3) ne by (auto simp: stream_at_def)
    then have "noinit_loop turn v (s, w) = Some (Some v', s2, w2)"
      using 1(1) 2(1) by (simp add: noinit_loop.simps [of turn v "(s, w)"])
    with 2 same_outside_trans [OF 1(4) 2(4)]
    show "\<exists>s' w'. noinit_loop turn v (s, w) = Some (Some v', s', w') \<and> stream_ok s' \<and> stream_at s' rest n e \<and>
        same_outside A w w' \<and> P w'" by blast
  qed
  with v'(1) show ?thesis unfolding loop_does_def by blast
qed

lemma triple_grow: "triple lim A Q f bs a P \<Longrightarrow> A \<subseteq> A' \<Longrightarrow> triple lim A' Q f bs a P"
  by (erule triple_conseq) assumption

lemma loop_pre: "loop_does A Q turn v bs V P \<Longrightarrow> (\<And>w. Q' w \<Longrightarrow> Q w) \<Longrightarrow> loop_does A Q' turn v bs V P"
proof -
  assume h: "loop_does A Q turn v bs V P" and q: "\<And>w. Q' w \<Longrightarrow> Q w"
  then obtain v' where v: "V v'" "does_all A Q (noinit_loop turn v) bs v' P" by (auto simp: loop_does_def)
  have "does_all A Q' (noinit_loop turn v) bs v' P" by (rule triple_conseq [where P = P and A = A, OF v(2) q]) simp_all
  with v(1) show ?thesis unfolding loop_does_def by blast
qed

lemma wire_key_nonempty [simp]: "wire_key t wire_type \<noteq> []"
  by (simp add: wire_key_def)

text \<open>The records of one entry, \<open>S k\<close> being what is known of the variables after \<open>k\<close> of them.\<close>

lemma entry_loop:
  fixes env :: "'s dec_env" and field :: "u32 \<Rightarrow> pb_field_iter \<Rightarrow> ('s, pb_field_iter) dop"
    and m :: nat and count :: addr
  defines "turn \<equiv> noinit_turn m field env count"
  assumes path: "entry_path n out penv sfield C it rs Q" and e: "round_entry (it_field it)"
    and pSize: "it_pSize it = size_addr (it_pData it) (it_field it)"
    and field: "\<And>wire_type bs Q P. does (area n (env_fields penv) it \<union> C) Q (sfield wire_type it) bs () P \<Longrightarrow>
      does (area n (env_fields penv) it \<union> C) Q (field wire_type it) bs it P"
    and frame: "\<And>w w'. same_outside (area n (env_fields penv) it \<union> C) w w' \<Longrightarrow> R w \<Longrightarrow> R w'"
    and A: "area n (env_fields penv) it \<union> C \<subseteq> A"
    and vars: "\<And>k v. k < length rs \<Longrightarrow> S k v \<Longrightarrow>
      pb_field_iter_find (v_iter v) (pf_tag (it_field it)) = (True, it) \<and> S (Suc k) (see_required (v\<lparr>v_iter := it\<rparr>))"
    and rest: "\<And>v. S (length rs) v \<Longrightarrow> loop_does A (\<lambda>w. Q (length rs) w \<and> R w) turn v cs V P"
  shows "k \<le> length rs \<Longrightarrow> S k v \<Longrightarrow>
    loop_does A (\<lambda>w. Q k w \<and> R w) turn v (concat (map wire_bytes (drop k rs)) @ cs) V P"
proof (induction "length rs - k" arbitrary: k v)
  case 0
  then show ?case using rest by simp
next
  case (Suc d)
  then have k: "k < length rs" by simp
  obtain wt payload where wt: "unat wt < 8" "wire_bytes (rs ! k) = wire_key (pf_tag (it_field it)) wt @ payload"
    and d: "does (area n (env_fields penv) it \<union> C) (Q k) (sfield wt it) payload () (Q (Suc k))"
    using path k unfolding entry_path_def by blast
  have p: "it_pSize it \<noteq> it_pData it \<or> PB_HTYPE (pb_type (it_field it)) \<noteq> PB_HTYPE_REPEATED"
    using e pSize size_addr_other [of "it_field it"] by (cases rule: round_htype) auto
  note v = vars [OF k Suc.prems(2)]
  have step: "does A (\<lambda>w. Q k w \<and> R w) (turn v) (wire_bytes (rs ! k)) (True, see_required (v\<lparr>v_iter := it\<rparr>)) (\<lambda>w. Q (Suc k) w \<and> R w)"
    unfolding turn_def wt(2)
  proof (rule turn_does [OF conjunct1 [OF v] round_entryD(7,6) [OF e] wt(1) p])
    show "does A (\<lambda>w. Q k w \<and> R w) (field wt it) payload it (\<lambda>w. Q (Suc k) w \<and> R w)"
      by (rule triple_grow [OF triple_frame [where R = R, OF field [OF d] frame] A])
  qed
  have "loop_does A (\<lambda>w. Q (Suc k) w \<and> R w) turn (see_required (v\<lparr>v_iter := it\<rparr>)) (concat (map wire_bytes (drop (Suc k) rs)) @ cs) V P"
    using Suc v k by simp
  from loop_step [OF step _ this] wt(2)
  have "loop_does A (\<lambda>w. Q k w \<and> R w) turn v (wire_bytes (rs ! k) @ concat (map wire_bytes (drop (Suc k) rs)) @ cs) V P" by simp
  moreover have "drop k rs = rs ! k # drop (Suc k) rs" using k by (simp add: Cons_nth_drop_Suc)
  ultimately show ?case by simp
qed

section \<open>The loop over all entries\<close>

lemma agree_entry:
  fixes env :: "'s pb_env"
  assumes t: "round_table (Suc n) (env_fields env) fds" and it: "it \<in> positions fds dest" and a: "agree (area n (env_fields env) it) m m'"
  shows "entry_wires n out m env it = entry_wires n out m' env it"
  unfolding entry_wires_def
proof (rule agree_field [OF t it a])
  show "msg_wire n out m env (env_fields env (pf_ptr (it_field it))) p = msg_wire n out m' env (env_fields env (pf_ptr (it_field it))) p"
    if "PB_LTYPE (pb_type (it_field it)) = PB_LTYPE_SUBMESSAGE"
      "agree (footprint n (env_fields env) (env_fields env (pf_ptr (it_field it))) p) m m'" for p
    using t positions_field [OF it] that by (intro agree_msg) simp_all
qed

text \<open>
  The memory and the variables of the loop when the records of \<open>k\<close> entries are decoded: these entries are read as
  \<open>wss\<close> says, the others are at their default values, and the iterator is at an entry before.
\<close>

definition decoded_to ::
  "nat \<Rightarrow> user_out \<Rightarrow> 's pb_env \<Rightarrow> pb_field list \<Rightarrow> addr \<Rightarrow> wire list list \<Rightarrow> nat \<Rightarrow> world \<Rightarrow> bool" where
  "decoded_to n out env fds dest wss k w \<longleftrightarrow>
     (\<forall>j < k. entry_wires n out (w_mem w) env (entries fds dest ! j) = Some (wss ! j)) \<and>
     (\<forall>j. k \<le> j \<longrightarrow> j < length (entries fds dest) \<longrightarrow> fresh_at n (env_fields env) (entries fds dest ! j) w)"

definition seen_to :: "pb_field list \<Rightarrow> addr \<Rightarrow> nat \<Rightarrow> nat \<Rightarrow> noinit_vars \<Rightarrow> bool" where
  "seen_to fds dest k r v \<longleftrightarrow> fixed_count_field v = None \<and> fields_seen v = seen_mask r \<and>
     (\<exists>j \<le> k. j < length (entries fds dest) \<and> v_iter v = entries fds dest ! j)"

lemma seen_step:
  assumes t: "round_table (Suc n) tables fds" and k: "k < length (entries fds dest)" and v: "seen_to fds dest k (required_before fds dest k) v"
  shows "seen_to fds dest k (required_before fds dest (Suc k)) (see_required (v\<lparr>v_iter := entries fds dest ! k\<rparr>))"
  using see_mask [of "v\<lparr>v_iter := entries fds dest ! k\<rparr>" "required_before fds dest k"] required_index [OF t k] v k
  by (auto simp: seen_to_def required_before_Suc [OF k])

lemma seen_again:
  assumes "\<not> is_required (entries fds dest ! k)" and "k < length (entries fds dest)" and "seen_to fds dest k r v"
  shows "seen_to fds dest k r (see_required (v\<lparr>v_iter := entries fds dest ! k\<rparr>))"
  using assms by (auto simp: seen_to_def see_required_def is_required_def Let_def)

lemma seen_later: "seen_to fds dest k r v \<Longrightarrow> seen_to fds dest (Suc k) r v"
  unfolding seen_to_def by (meson le_SucI)

lemma message_loop:
  fixes env :: "'s dec_env" and penv :: "'e pb_env" and m :: nat and count :: addr and out :: user_out
    and field :: "u32 \<Rightarrow> pb_field_iter \<Rightarrow> ('s, pb_field_iter) dop" and sfield :: "u32 \<Rightarrow> pb_field_iter \<Rightarrow> ('s, unit) dop"
    and wss :: "wire list list" and C :: "addr set"
  defines "turn \<equiv> noinit_turn m field env count"
  assumes t: "round_table (Suc n) (env_fields penv) fds" and l: "laid_out (Suc n) (env_fields penv) fds dest"
    and C: "footprint (Suc n) (env_fields penv) fds dest \<inter> C = {}"
    and path: "\<And>k. k < length (entries fds dest) \<Longrightarrow> \<exists>Q. entry_path n out penv sfield C (entries fds dest ! k) (wss ! k) Q"
    and len: "length wss = length (entries fds dest)"
    and field: "\<And>wire_type it bs Q P. it \<in> positions fds dest \<Longrightarrow>
      does (area n (env_fields penv) it \<union> C) Q (sfield wire_type it) bs () P \<Longrightarrow>
      does (area n (env_fields penv) it \<union> C) Q (field wire_type it) bs it P"
  shows "k \<le> length wss \<Longrightarrow> seen_to fds dest k (required_before fds dest k) v \<Longrightarrow>
    loop_does (footprint (Suc n) (env_fields penv) fds dest \<union> C) (decoded_to n out penv fds dest wss k) turn v
      (concat (map wire_bytes (concat (drop k wss))))
      (seen_to fds dest (length wss) (required_before fds dest (length wss))) (decoded_to n out penv fds dest wss (length wss))"
proof (induction "length wss - k" arbitrary: k v)
  case 0
  then show ?case by (simp add: loop_end)
next
  case (Suc d)
  let ?E = "entries fds dest" and ?T = "env_fields penv" and ?A = "footprint (Suc n) (env_fields penv) fds dest \<union> C"
  let ?it = "entries fds dest ! k" and ?rs = "wss ! k"
  have k: "k < length wss" "k < length ?E" using Suc len by simp_all
  note pos = entries_at(1) [OF t]
  have e: "round_entry (it_field ?it)" using t positions_field [OF pos [OF k(2)]] by simp
  obtain Q where Q: "entry_path n out penv sfield C ?it ?rs Q" using path k by blast
  define R where "R = (\<lambda>w. (\<forall>j < k. entry_wires n out (w_mem w) penv (?E ! j) = Some (wss ! j)) \<and>
    (\<forall>j. k < j \<longrightarrow> j < length ?E \<longrightarrow> fresh_at n ?T (?E ! j) w))"
  define S where "S = (\<lambda>i. seen_to fds dest k (required_before fds dest (if i = (0::nat) then k else Suc k)))"
  have pre: "Q 0 w \<and> R w" if "decoded_to n out penv fds dest wss k w" for w
    using that Q k by (auto simp: decoded_to_def R_def entry_path_def)
  have post: "decoded_to n out penv fds dest wss (Suc k) w" if "Q (length ?rs) w \<and> R w" for w
    using that Q k by (auto simp: decoded_to_def R_def entry_path_def less_Suc_eq Suc_le_eq)
  have keep: "agree (area n ?T (?E ! j)) (w_mem w) (w_mem w')"
    if s: "same_outside (area n ?T ?it \<union> C) w w'" and j: "j < length ?E" "j \<noteq> k" for j w w'
  proof (rule same_outside_agree [OF s])
    have "?it \<noteq> ?E ! j" using distinct_entries [of fds dest] j k(2) by (auto simp: nth_eq_iff_index_eq)
    then have "area n ?T ?it \<inter> area n ?T (?E ! j) = {}" using l pos k(2) j(1) by simp
    with C area_footprint [OF pos [OF j(1)], of n ?T] show "(area n ?T ?it \<union> C) \<inter> area n ?T (?E ! j) = {}" by blast
  qed
  have frame: "R w'" if s: "same_outside (area n ?T ?it \<union> C) w w'" and r: "R w" for w w'
  proof -
    have "entry_wires n out (w_mem w') penv (?E ! j) = Some (wss ! j)" if j: "j < k" for j
      using agree_entry [OF t pos keep [OF s], of j out] r j k(2) by (simp add: R_def)
    moreover have "fresh_at n ?T (?E ! j) w'" if j: "k < j" "j < length ?E" for j
    proof -
      have "fresh_at n ?T (?E ! j) w = fresh_at n ?T (?E ! j) w'"
        using t positions_field [OF pos [OF j(2)]] j by (intro agree_fresh_entry [OF t pos keep [OF s]] agree_fresh) simp_all
      with r j show ?thesis by (simp add: R_def)
    qed
    ultimately show ?thesis by (simp add: R_def)
  qed
  have vars: "pb_field_iter_find (v_iter v) (pf_tag (it_field ?it)) = (True, ?it) \<and> S (Suc i) (see_required (v\<lparr>v_iter := ?it\<rparr>))"
    if i: "i < length ?rs" and s: "S i v" for i v
  proof
    from s obtain j where "j \<le> k" "v_iter v = ?E ! j" by (auto simp: S_def seen_to_def)
    with find_entry [OF t k(2)] show "pb_field_iter_find (v_iter v) (pf_tag (it_field ?it)) = (True, ?it)" by simp
    show "S (Suc i) (see_required (v\<lparr>v_iter := ?it\<rparr>))"
    proof (cases "i = 0")
      case True
      with s seen_step [OF t k(2)] show ?thesis by (simp add: S_def)
    next
      case False
      then have "\<not> is_required ?it" using Q i by (auto simp: entry_path_def is_required_def)
      with s False seen_again k(2) show ?thesis by (simp add: S_def)
    qed
  qed
  have rest: "loop_does ?A (\<lambda>w. Q (length ?rs) w \<and> R w) turn v (concat (map wire_bytes (concat (drop (Suc k) wss))))
      (seen_to fds dest (length wss) (required_before fds dest (length wss))) (decoded_to n out penv fds dest wss (length wss))"
    if s: "S (length ?rs) v" for v
  proof -
    have "required_before fds dest k = required_before fds dest (Suc k)" if "?rs = []"
      using Q that k(2) by (auto simp: entry_path_def required_before_Suc is_required_def)
    then have "seen_to fds dest k (required_before fds dest (Suc k)) v" using s by (cases "?rs = []") (simp_all add: S_def)
    then have "loop_does ?A (decoded_to n out penv fds dest wss (Suc k)) turn v (concat (map wire_bytes (concat (drop (Suc k) wss))))
        (seen_to fds dest (length wss) (required_before fds dest (length wss))) (decoded_to n out penv fds dest wss (length wss))"
      using Suc k by (intro Suc.hyps(1) seen_later) simp_all
    then show ?thesis by (rule loop_pre) (rule post)
  qed
  have A: "area n ?T ?it \<union> C \<subseteq> ?A" using area_footprint [OF pos [OF k(2)]] by blast
  have "loop_does ?A (\<lambda>w. Q 0 w \<and> R w) turn v (concat (map wire_bytes (drop 0 ?rs)) @ concat (map wire_bytes (concat (drop (Suc k) wss))))
      (seen_to fds dest (length wss) (required_before fds dest (length wss))) (decoded_to n out penv fds dest wss (length wss))"
    unfolding turn_def
    by (rule entry_loop [where S = S, OF Q e positions_size [OF t pos [OF k(2)]] field [OF pos [OF k(2)]] frame A vars rest [unfolded turn_def]])
      (use Suc.prems in \<open>simp_all add: S_def\<close>)
  then have "loop_does ?A (decoded_to n out penv fds dest wss k) turn v
      (concat (map wire_bytes (drop 0 ?rs)) @ concat (map wire_bytes (concat (drop (Suc k) wss))))
      (seen_to fds dest (length wss) (required_before fds dest (length wss))) (decoded_to n out penv fds dest wss (length wss))"
    by (rule loop_pre) (rule pre)
  moreover have "drop k wss = ?rs # drop (Suc k) wss" using k by (simp add: Cons_nth_drop_Suc)
  ultimately show ?case by simp
qed

section \<open>Messages\<close>

lemma length_entries:
  assumes t: "round_table (Suc n) tables fds"
  shows "length (entries fds dest) = length fds"
proof -
  let ?E = "entries fds dest"
  define m where "m = length ?E - 1"
  have m: "length ?E = Suc m" using entries_first(2) [of fds dest] by (simp add: m_def)
  note at = entries_at [OF t, of m dest]
  have mp: "?E ! m \<in> positions fds dest" using at(1) m by simp
  obtain b it' where nx: "pb_field_iter_next (?E ! m) = (b, it')" by fastforce
  have "\<not> b" using entries_next(2) [of m fds dest] m nx by simp
  then have tag: "pf_tag (field_at fds (Suc m)) = 0"
    using iter_next_False(2) [of "?E ! m" it'] nx positions_tag [OF mp] at(2) entries_pos [of m fds dest] m by simp
  have "\<not> Suc m < length fds"
  proof
    assume l: "Suc m < length fds"
    then have "round_entry (fds ! Suc m)" using t by simp
    with tag l round_entryD(6) show False by (simp add: field_at_def)
  qed
  with at(3) m show ?thesis by simp
qed

text \<open>
  A struct as the library expects it: each string of it that the encoder reads has its terminator within the member.
\<close>

fun struct_ends :: "nat \<Rightarrow> (addr \<Rightarrow> pb_field list) \<Rightarrow> mem \<Rightarrow> pb_field list \<Rightarrow> addr \<Rightarrow> bool" where
  "struct_ends 0 tables mem fds src = True"
| "struct_ends (Suc n) tables mem fds src =
     (\<forall>it \<in> positions fds src. \<forall>a \<in> set (present_items mem (it_field it) (it_pData it)).
        item_ends (struct_ends n tables mem) tables mem (it_field it) a)"

text \<open>The submessages are decoded as the message is.\<close>

definition subs_do ::
  "nat \<Rightarrow> user_out \<Rightarrow> 'e pb_env \<Rightarrow> mem \<Rightarrow> (pb_field list \<Rightarrow> addr \<Rightarrow> ('s, unit) dop) \<Rightarrow> (pb_field list \<Rightarrow> addr \<Rightarrow> ('s, unit) dop) \<Rightarrow>
     addr set \<Rightarrow> addr set \<Rightarrow> bool" where
  "subs_do n out penv mem decode noinit F C \<longleftrightarrow>
     (\<forall>fds p a ws. round_table n (env_fields penv) fds \<longrightarrow> laid_out n (env_fields penv) fds p \<longrightarrow>
        footprint n (env_fields penv) fds p \<subseteq> F \<longrightarrow> msg_wire n out mem penv fds a = Some ws \<longrightarrow>
        struct_ends n (env_fields penv) mem fds a \<longrightarrow> length (concat (map wire_bytes ws)) < 2 ^ 32 \<longrightarrow>
        does_all (footprint n (env_fields penv) fds p \<union> C) (\<lambda>_. True) (decode fds p) (concat (map wire_bytes ws)) ()
          (\<lambda>w. msg_wire n out (w_mem w) penv fds p = Some ws) \<and>
        does_all (footprint n (env_fields penv) fds p \<union> C) (\<lambda>w. fresh n (env_fields penv) (w_mem w) fds p) (noinit fds p)
          (concat (map wire_bytes ws)) () (\<lambda>w. msg_wire n out (w_mem w) penv fds p = Some ws))"

lemma sub_item_does:
  fixes env :: "'s dec_env" and penv :: "'e pb_env" and decode noinit :: "pb_field list \<Rightarrow> addr \<Rightarrow> ('s, unit) dop" and it :: pb_field_iter
  defines "T \<equiv> env_fields penv"
  assumes T: "T = dec_fields env" and t: "round_table (Suc n) T fds" and l: "laid_out (Suc n) T fds dest"
    and i: "it \<in> positions fds dest" and p: "p \<in> set (item_places it)" "p \<noteq> 0"
    and v: "value_at n out penv mem (it_field it) x = Some v" and lv: "length (wire_payload v) < 2 ^ 32"
    and x: "item_ends (struct_ends n T mem) T mem (it_field it) x"
    and sub: "subs_do n out penv mem decode noinit (footprint (Suc n) T fds dest) C"
  shows "item_does n out penv (PB_DECODERS decode noinit env (PB_LTYPE (pb_type (it_field it))) (it_field it)) C (it_field it)
    (if PB_HTYPE (pb_type (it_field it)) = PB_HTYPE_REPEATED then \<lambda>_. True else fresh_sub n T it) p v"
proof (rule item_does_value)
  note tf = t [unfolded round_table.simps] positions_field [OF i]
  show "round_entry (it_field it)" using tf by blast
  show "env_fields penv = dec_fields env" using T by (simp add: T_def)
  show "p \<noteq> 0" by (rule p)
  show "value_at n out penv mem (it_field it) x = Some v" by (rule v)
  show "item_ends (struct_ends n T mem) (dec_fields env) mem (it_field it) x" using x T by simp
  fix vs
  let ?f = "it_field it"
  let ?sub = "T (pf_ptr ?f)"
  assume s: "PB_LTYPE (pb_type ?f) = PB_LTYPE_SUBMESSAGE" and vs: "v = Message (pf_tag ?f) vs"
  have ptr: "pf_ptr ?f \<noteq> 0" and rt: "round_table n T ?sub" using tf s by blast+
  have lo: "laid_out n T ?sub p" using l [unfolded laid_out.simps] i s p(1) by blast
  have "item_area (footprint n T) T ?f p \<subseteq> area n T it" using p(1) unfolding area_def data_area_places by blast
  then have fp: "footprint n T ?sub p \<subseteq> footprint (Suc n) T fds dest"
    using area_footprint [OF i, of n T] s unfolding item_area_def by auto
  have mw: "msg_wire n out mem penv ?sub x = Some vs"
    using v s vs ptr unfolding value_wire_def T_def by (auto simp: Let_def split: option.splits if_splits)
  have se: "struct_ends n T mem ?sub x" using x s unfolding item_ends_def by blast
  have lvs: "length (concat (map wire_bytes vs)) < 2 ^ 32" using lv vs by simp
  have d: "does_all (footprint n T ?sub p \<union> C) (\<lambda>_. True) (decode ?sub p) (concat (map wire_bytes vs)) ()
        (\<lambda>w. msg_wire n out (w_mem w) penv ?sub p = Some vs)"
    "does_all (footprint n T ?sub p \<union> C) (\<lambda>w. fresh n T (w_mem w) ?sub p) (noinit ?sub p) (concat (map wire_bytes vs)) ()
        (\<lambda>w. msg_wire n out (w_mem w) penv ?sub p = Some vs)"
    using sub rt lo fp mw se lvs unfolding subs_do_def T_def [symmetric] by blast+
  have "does_all (footprint n T ?sub p \<union> C) (if PB_HTYPE (pb_type ?f) = PB_HTYPE_REPEATED then \<lambda>_. True else fresh_sub n T it)
      ((if PB_HTYPE (pb_type ?f) = PB_HTYPE_REPEATED then decode else noinit) ?sub p)
      (concat (map wire_bytes vs)) () (\<lambda>w. msg_wire n out (w_mem w) penv ?sub p = Some vs)"
  proof (cases "PB_HTYPE (pb_type ?f) = PB_HTYPE_REPEATED")
    case True
    with d(1) show ?thesis by simp
  next
    case False
    then have "p = it_pData it" using p(1) by (simp add: item_places_def Let_def)
    then have f: "fresh n T (w_mem w) ?sub p" if "fresh_sub n T it w" for w
      using that s by (simp add: fresh_sub_def)
    have "does_all (footprint n T ?sub p \<union> C) (fresh_sub n T it) (noinit ?sub p) (concat (map wire_bytes vs)) ()
        (\<lambda>w. msg_wire n out (w_mem w) penv ?sub p = Some vs)"
      by (rule triple_conseq [OF d(2) f]) simp_all
    with False show ?thesis by simp
  qed
  with ptr lvs show "pf_ptr ?f \<noteq> 0 \<and> length (concat (map wire_bytes vs)) < 2 ^ 32 \<and>
      does_all (footprint n (dec_fields env) (dec_fields env (pf_ptr ?f)) p \<union> C)
        (if PB_HTYPE (pb_type ?f) = PB_HTYPE_REPEATED then \<lambda>_. True else fresh_sub n T it)
        ((if PB_HTYPE (pb_type ?f) = PB_HTYPE_REPEATED then decode else noinit) (dec_fields env (pf_ptr ?f)) p)
        (concat (map wire_bytes vs)) () (\<lambda>w. msg_wire n out (w_mem w) penv (dec_fields env (pf_ptr ?f)) p = Some vs)"
    unfolding T by blast
qed

lemma entry_paths:
  fixes env :: "'s dec_env" and penv :: "'e pb_env" and decode noinit :: "pb_field list \<Rightarrow> addr \<Rightarrow> ('s, unit) dop"
  defines "T \<equiv> env_fields penv"
  assumes T: "T = dec_fields env" and t: "round_table (Suc n) T fds" and l: "laid_out (Suc n) T fds dest"
    and C: "footprint (Suc n) T fds dest \<inter> C = {}" and z: "0 \<notin> footprint (Suc n) T fds dest"
    and wss: "map (entry_wires n out mem penv) (entries fds src) = map Some wss" and ends_ok: "struct_ends (Suc n) T mem fds src"
    and len: "length (concat (map wire_bytes (concat wss))) < 2 ^ 32"
    and sub: "subs_do n out penv mem decode noinit (footprint (Suc n) T fds dest) C"
    and k: "k < length (entries fds dest)"
  shows "\<exists>Q. entry_path n out penv (decode_static_field (pb_message_set_to_defaults m env) (PB_DECODERS decode noinit env) env) C
    (entries fds dest ! k) (wss ! k) Q"
proof -
  let ?it = "entries fds dest ! k" and ?sit = "entries fds src ! k"
  have ks: "k < length (entries fds src)" using k length_entries [OF t] by simp
  have kw: "k < length wss" using arg_cong [OF wss, of length] ks by simp
  have i: "?it \<in> positions fds dest" by (rule entries_at(1) [OF t k])
  have si: "?sit \<in> positions fds src" by (rule entries_at(1) [OF t ks])
  have same: "it_field ?sit = it_field ?it" using entries_at(4) [OF t k] entries_at(4) [OF t ks] by simp
  have a: "area n T ?it \<subseteq> footprint (Suc n) T fds dest" by (rule area_footprint [OF i])
  have rs: "entry_wires n out mem penv ?sit = Some (wss ! k)" using arg_cong [OF wss, of "\<lambda>xs. xs ! k"] ks kw by simp
  have "length (concat (map wire_bytes (wss ! k))) \<le> length (concat (map wire_bytes (concat wss)))"
  proof -
    have "concat wss = concat (take k wss) @ wss ! k @ concat (drop (Suc k) wss)"
      using arg_cong [OF id_take_nth_drop [OF kw], of concat] by simp
    then show ?thesis by simp
  qed
  then have lrs: "length (concat (map wire_bytes (wss ! k))) < 2 ^ 32" using len by simp
  have aC: "area n (env_fields penv) ?it \<inter> C = {}" and az: "0 \<notin> area n (env_fields penv) ?it"
    using a C z unfolding T_def by blast+
  show ?thesis
  proof (rule entry_path_exists [where env = env, OF T [unfolded T_def] t [unfolded T_def] i l [unfolded T_def] aC si same az rs lrs])
    fix x v p
    assume x: "x \<in> set (present_items mem (it_field ?it) (it_pData ?sit))" and v: "value_at n out penv mem (it_field ?it) x = Some v"
      and lv: "length (wire_payload v) < 2 ^ 32" and p: "p \<in> set (item_places ?it)" "p \<noteq> 0"
    have xe: "item_ends (struct_ends n T mem) T mem (it_field ?it) x"
      using ends_ok [unfolded struct_ends.simps] si x unfolding same [symmetric] by blast
    show "item_does n out penv (PB_DECODERS decode noinit env (PB_LTYPE (pb_type (it_field ?it))) (it_field ?it)) C (it_field ?it)
        (if PB_HTYPE (pb_type (it_field ?it)) = PB_HTYPE_REPEATED then \<lambda>_. True else fresh_sub n (env_fields penv) ?it) p v"
      by (rule sub_item_does [OF T [unfolded T_def] t [unfolded T_def] l [unfolded T_def] i p v lv xe [unfolded T_def] sub [unfolded T_def]])
  qed
qed

lemma noinit_loop_does:
  fixes env :: "'s dec_env" and penv :: "'e pb_env" and decode noinit :: "pb_field list \<Rightarrow> addr \<Rightarrow> ('s, unit) dop"
  defines "T \<equiv> env_fields penv"
  assumes T: "T = dec_fields env" and t: "round_table (Suc n) T fds" and l: "laid_out (Suc n) T fds dest"
    and C: "footprint (Suc n) T fds dest \<inter> C = {}" and z: "0 \<notin> footprint (Suc n) T fds dest"
    and ws: "msg_wire (Suc n) out mem penv fds src = Some ws" and ends_ok: "struct_ends (Suc n) T mem fds src"
    and len: "length (concat (map wire_bytes ws)) < 2 ^ 32"
    and sub: "subs_do n out penv mem decode noinit (footprint (Suc n) T fds dest) C"
  shows "loop_does (footprint (Suc n) T fds dest \<union> C) (\<lambda>w. fresh (Suc n) T (w_mem w) fds dest)
    (noinit_turn m (decode_field m decode noinit env) env count)
    \<lparr>v_iter = snd (pb_field_iter_begin fds dest), fields_seen = [0, 0], extension_range_start = 0, fixed_count_field = None\<rparr>
    (concat (map wire_bytes ws)) (seen_to fds dest (length fds) (required_before fds dest (length fds)))
    (\<lambda>w. msg_wire (Suc n) out (w_mem w) penv fds dest = Some ws)"
proof -
  let ?E = "entries fds dest" and ?S = "entries fds src"
  have lenE: "length ?E = length fds" "length ?S = length fds" using length_entries [OF t] by simp_all
  note t' = t [unfolded T_def]
  obtain wss where wss: "map (entry_wires n out mem penv) ?S = map Some wss" "ws = concat wss"
    using ws unfolding msg_wire_list [OF t' refl] map_option_Some_conv all_some_iff by blast
  have len_wss: "length wss = length fds" using arg_cong [OF wss(1), of length] lenE by simp
  have len': "length (concat (map wire_bytes (concat wss))) < 2 ^ 32" using len unfolding wss(2) .
  have entry: "round_entry (it_field it)" if "it \<in> positions fds dest" for it
    using t [unfolded round_table.simps] positions_field [OF that] by blast
  note path = entry_paths [OF T [unfolded T_def] t' l [unfolded T_def] C [unfolded T_def] z [unfolded T_def] wss(1)
      ends_ok [unfolded T_def] len' sub [unfolded T_def], of _ m]
  let ?v = "\<lparr>v_iter = snd (pb_field_iter_begin fds dest), fields_seen = [0, 0], extension_range_start = 0, fixed_count_field = None\<rparr>"
  have v0: "seen_to fds dest 0 (required_before fds dest 0) ?v"
    using entries_first [of fds dest] by (auto simp: seen_to_def seen_mask_def required_before_def intro!: exI [of _ 0])
  have loop: "loop_does (footprint (Suc n) T fds dest \<union> C) (decoded_to n out penv fds dest wss 0)
      (noinit_turn m (decode_field m decode noinit env) env count) ?v (concat (map wire_bytes (concat (drop 0 wss))))
      (seen_to fds dest (length wss) (required_before fds dest (length wss))) (decoded_to n out penv fds dest wss (length wss))"
    unfolding T_def
    by (rule message_loop [OF t' l [unfolded T_def] C [unfolded T_def] path _ decode_field_does [OF _ entry] _ v0])
      (simp_all add: len_wss lenE)
  then obtain v' where v': "seen_to fds dest (length fds) (required_before fds dest (length fds)) v'"
    "does_all (footprint (Suc n) T fds dest \<union> C) (decoded_to n out penv fds dest wss 0)
      (noinit_loop (noinit_turn m (decode_field m decode noinit env) env count) ?v) (concat (map wire_bytes ws)) v'
      (decoded_to n out penv fds dest wss (length fds))"
    unfolding loop_does_def wss(2) len_wss drop_0 by blast
  have pre: "decoded_to n out penv fds dest wss 0 w" if f: "fresh (Suc n) T (w_mem w) fds dest" for w
    using f entries_at(1) [OF t] unfolding decoded_to_def fresh.simps T_def by simp
  have post: "msg_wire (Suc n) out (w_mem w) penv fds dest = Some ws" if d: "decoded_to n out penv fds dest wss (length fds) w" for w
  proof -
    have "map (entry_wires n out (w_mem w) penv) ?E = map Some wss"
      using d lenE len_wss by (intro nth_equalityI) (simp_all add: decoded_to_def)
    then have "all_some (map (entry_wires n out (w_mem w) penv) ?E) = Some wss" unfolding all_some_iff .
    then show ?thesis unfolding msg_wire_list [OF t' refl] by (simp add: wss(2))
  qed
  have "does_all (footprint (Suc n) T fds dest \<union> C) (\<lambda>w. fresh (Suc n) T (w_mem w) fds dest)
      (noinit_loop (noinit_turn m (decode_field m decode noinit env) env count) ?v) (concat (map wire_bytes ws)) v'
      (\<lambda>w. msg_wire (Suc n) out (w_mem w) penv fds dest = Some ws)"
    by (rule triple_conseq [OF v'(2) pre post order_refl])
  with v'(1) show ?thesis unfolding loop_does_def by blast
qed

lemma noinit_end_does:
  assumes t: "round_table (Suc n) tables fds" and v: "seen_to fds dest (length fds) (required_before fds dest (length fds)) v"
  shows "triple lim A Q (noinit_end count v :: ('s, unit) dop) [] () Q"
proof -
  obtain j where j: "j < length (entries fds dest)" "v_iter v = entries fds dest ! j" using v by (auto simp: seen_to_def)
  have "req_field_count (v_iter v) = min 64 (required_before fds dest (length fds))"
    unfolding j(2) req_count [OF t j(1)] length_entries [OF t] ..
  then have "required_seen (req_field_count (v_iter v)) (fields_seen v)"
    using v required_seen_mask by (simp add: seen_to_def)
  moreover have "\<not> fixed_count_mismatch count v w" for w using v by (simp add: seen_to_def fixed_count_mismatch_def)
  ultimately have "noinit_end count v st = d_ret () st" for st :: "'s pb_istream \<times> world"
    by (cases st) (simp add: noinit_end_def d_world_def)
  then have "(noinit_end count v :: ('s, unit) dop) = d_ret ()" by (rule ext)
  then show ?thesis using does_ret by simp
qed

lemma decode_by_does:
  fixes env :: "'s dec_env" and noinit :: "pb_field list \<Rightarrow> addr \<Rightarrow> ('s, unit) dop"
  assumes t: "round_table n (dec_fields env) fds" and l: "laid_out n (dec_fields env) fds dest" and "n \<le> k"
    and noinit: "triple lim (footprint n (dec_fields env) fds dest \<union> C) (\<lambda>w. fresh n (dec_fields env) (w_mem w) fds dest)
      (noinit fds dest) bs () P"
  shows "triple lim (footprint n (dec_fields env) fds dest \<union> C) (\<lambda>_. True) (decode_by k env noinit fds dest) bs () P"
proof -
  let ?F = "footprint n (dec_fields env) fds dest"
  have "triple lim (?F \<union> C) (\<lambda>w. fresh n (dec_fields env) (w_mem w) fds dest)
      (\<lambda>st. case noinit fds dest st of
        Some (None, s', w') \<Rightarrow> d_then (d_update (pb_release k env fds dest)) d_false (s', w') | r \<Rightarrow> r) bs () P"
  proof (rule tripleI)
    fix s :: "'s pb_istream" and w :: world and rest m e
    assume h: "stream_ok s" "stream_at s (bs @ rest) (length bs + m) e" "lim m" "fresh n (dec_fields env) (w_mem w) fds dest"
    from tripleE [OF noinit h] obtain s' w' where
      "noinit fds dest (s, w) = Some (Some (), s', w')" "stream_ok s'" "stream_at s' rest m e" "same_outside (?F \<union> C) w w'" "P w'"
      by blast
    then show "\<exists>s' w'. (case noinit fds dest (s, w) of
          Some (None, s', w') \<Rightarrow> d_then (d_update (pb_release k env fds dest)) d_false (s', w') | r \<Rightarrow> r) = Some (Some (), s', w') \<and>
        stream_ok s' \<and> stream_at s' rest m e \<and> same_outside (?F \<union> C) w w' \<and> P w'" by simp
  qed
  moreover have "does (?F \<union> C) (\<lambda>_. True) (d_update (pb_message_set_to_defaults k env fds dest) :: ('s, unit) dop) [] ()
      (\<lambda>w. fresh n (dec_fields env) (w_mem w) fds dest)"
  proof (rule does_update)
    fix w :: world
    obtain w' where w': "pb_message_set_to_defaults k env fds dest w = Some w'"
      by (rule updatesE [OF updates_defaults [OF round_static [OF t] assms(3), of dest]])
    from defaults_fresh [OF t l assms(3) w'] w'
    show "\<exists>w'. pb_message_set_to_defaults k env fds dest w = Some w' \<and> same_outside (?F \<union> C) w w' \<and>
        fresh n (dec_fields env) (w_mem w') fds dest"
      unfolding same_outside_def by blast
  qed
  ultimately show ?thesis unfolding decode_by_def by (intro triple_then0)
qed

lemma noinit_does:
  fixes env :: "'s dec_env" and penv :: "'e pb_env"
  assumes T: "env_fields penv = dec_fields env"
  shows "round_table n (env_fields penv) fds \<Longrightarrow> laid_out n (env_fields penv) fds dest \<Longrightarrow>
    footprint n (env_fields penv) fds dest \<inter> counters n env = {} \<Longrightarrow> 0 \<notin> footprint n (env_fields penv) fds dest \<Longrightarrow>
    msg_wire n out mem penv fds src = Some ws \<Longrightarrow> struct_ends n (env_fields penv) mem fds src \<Longrightarrow>
    length (concat (map wire_bytes ws)) < 2 ^ 32 \<Longrightarrow>
    does_all (footprint n (env_fields penv) fds dest \<union> counters n env) (\<lambda>w. fresh n (env_fields penv) (w_mem w) fds dest)
      (pb_decode_noinit n env fds dest) (concat (map wire_bytes ws)) () (\<lambda>w. msg_wire n out (w_mem w) penv fds dest = Some ws)"
proof (induction n arbitrary: fds dest src ws)
  case 0
  then show ?case by simp
next
  case (Suc n)
  let ?T = "env_fields penv" and ?noinit = "pb_decode_noinit n env" and ?count = "dec_local env n" and ?bs = "concat (map wire_bytes ws)"
  let ?F = "footprint (Suc n) (env_fields penv) fds dest" and ?C = "counters n env" and ?A = "footprint (Suc n) (env_fields penv) fds dest \<union> counters (Suc n) env"
  let ?Q = "\<lambda>w. fresh (Suc n) (env_fields penv) (w_mem w) fds dest" and ?P = "\<lambda>w. msg_wire (Suc n) out (w_mem w) penv fds dest = Some ws"
  note t = Suc.prems(1) and l = Suc.prems(2)
  have C: "?C \<subseteq> counters (Suc n) env" by (rule counters_mono) simp
  have FC: "?F \<inter> ?C = {}" using C Suc.prems(3) by blast
  have sub: "subs_do n out penv mem (decode_by n env ?noinit) ?noinit ?F ?C"
    unfolding subs_do_def
  proof (intro allI impI)
    fix sfds p a vs
    assume st: "round_table n ?T sfds" and sl: "laid_out n ?T sfds p" and sF: "footprint n ?T sfds p \<subseteq> ?F"
      and sw: "msg_wire n out mem penv sfds a = Some vs" and se: "struct_ends n ?T mem sfds a" and sb: "length (concat (map wire_bytes vs)) < 2 ^ 32"
    have sC: "footprint n ?T sfds p \<inter> ?C = {}" and sz: "0 \<notin> footprint n ?T sfds p" using sF FC Suc.prems(4) by blast+
    note d = Suc.IH [OF st sl sC sz sw se sb]
    with decode_by_does [where noinit = ?noinit and n = n and k = n, OF st [unfolded T] sl [unfolded T] order_refl d [unfolded T]]
    show "does_all (footprint n ?T sfds p \<union> ?C) (\<lambda>_. True) (decode_by n env ?noinit sfds p) (concat (map wire_bytes vs)) ()
          (\<lambda>w. msg_wire n out (w_mem w) penv sfds p = Some vs) \<and>
        does_all (footprint n ?T sfds p \<union> ?C) (\<lambda>w. fresh n ?T (w_mem w) sfds p) (?noinit sfds p) (concat (map wire_bytes vs)) ()
          (\<lambda>w. msg_wire n out (w_mem w) penv sfds p = Some vs)"
      by (simp add: T)
  qed
  let ?v = "\<lparr>v_iter = snd (pb_field_iter_begin fds dest), fields_seen = [0, 0], extension_range_start = 0, fixed_count_field = None\<rparr>"
  let ?loop = "noinit_loop (noinit_turn (Suc n) (decode_field (Suc n) (decode_by n env ?noinit) ?noinit env) env ?count) ?v"
  have "loop_does (?F \<union> ?C) ?Q (noinit_turn (Suc n) (decode_field (Suc n) (decode_by n env ?noinit) ?noinit env) env ?count) ?v
      ?bs (seen_to fds dest (length fds) (required_before fds dest (length fds))) ?P"
    by (rule noinit_loop_does [OF T t l FC Suc.prems(4,5,6,7) sub])
  then obtain v' where v': "seen_to fds dest (length fds) (required_before fds dest (length fds)) v'"
    "does_all (?F \<union> ?C) ?Q ?loop ?bs v' ?P" unfolding loop_does_def by blast
  have loop: "does_all ?A ?Q ?loop ?bs v' ?P" by (rule triple_grow [OF v'(2)]) (use C in blast)
  have body: "does_all ?A ?Q (d_bind ?loop (noinit_end ?count)) ?bs () ?P"
  proof (rule tripleI)
    fix s :: "'s pb_istream" and w :: world and rest m e
    assume h: "stream_ok s" "stream_at s (?bs @ rest) (length ?bs + m) e" "m = 0" "?Q w"
    from tripleE [OF loop h] obtain s' w' where
      1: "?loop (s, w) = Some (Some v', s', w')" "stream_ok s'" "stream_at s' rest m e" "same_outside ?A w w'" "?P w'" by blast
    have s': "stream_at s' ([] @ rest) (length ([] :: byte list) + m) e" using 1(3) by simp
    have e: "does ?A ?P (noinit_end ?count v' :: ('s, unit) dop) [] () ?P" by (rule noinit_end_does [OF t v'(1)])
    from tripleE [OF e 1(2) s' TrueI 1(5)] obtain s2 w2 where
      2: "noinit_end ?count v' (s', w') = Some (Some (), s2, w2)" "stream_ok s2" "stream_at s2 rest m e" "same_outside ?A w' w2" "?P w2"
      by blast
    have "d_bind ?loop (noinit_end ?count) (s, w) = Some (Some (), s2, w2)" unfolding d_bind_def using 1(1) 2(1) by simp
    with 2 same_outside_trans [OF 1(4) 2(4)]
    show "\<exists>s' w'. d_bind ?loop (noinit_end ?count) (s, w) = Some (Some (), s', w') \<and> stream_ok s' \<and> stream_at s' rest m e \<and>
        same_outside ?A w w' \<and> ?P w'" by blast
  qed
  have c: "span ?count 4 \<subseteq> counters (Suc n) env" by (auto simp: counters_def)
  have put: "does ?A ?Q (d_put ?count (fixed32 0) :: ('s, unit) dop) [] () ?Q"
  proof (rule does_put)
    show "span ?count (length (fixed32 0)) \<subseteq> ?A" using c by auto
    fix w :: world
    assume q: "?Q w"
    have "same_outside (span ?count 4) w (w_put ?count (fixed32 0) w)" by (rule same_outside_put) simp
    then have "agree ?F (w_mem w) (w_mem (w_put ?count (fixed32 0) w))"
      using c Suc.prems(3) by (intro same_outside_agree [where A = "span ?count 4"]) auto
    from agree_fresh [OF t this] q show "?Q (w_put ?count (fixed32 0) w)" by blast
  qed
  have "pb_decode_noinit (Suc n) env fds dest = d_then (d_put ?count (fixed32 0)) (d_bind ?loop (noinit_end ?count))"
    by (rule ext) (simp only: pb_decode_noinit.simps Let_def)
  then show ?case using triple_then0 [OF put body] by simp
qed

section \<open>The round trip\<close>


text \<open>A message of the transport layer, decoded over a struct with other contents.\<close>

definition tier_mem :: mem where
  "tier_mem a = (if a = 0x100 \<or> a = 0x108 then 1 else if a = 0x104 then 2 else if a = 0x10C then 7 else 0)"

lemma round_QosTierConfiguration: "round_table (Suc 0) cct_fields gdt_cct_QosTierConfiguration_fields"
  by (simp add: QosTierConfiguration_fields pb_entry_def round_entry_def static_entry_def type_defs word_less_nat_alt Let_def)

lemma laid_out_QosTierConfiguration: "laid_out (Suc 0) cct_fields gdt_cct_QosTierConfiguration_fields 0x2000"
  unfolding laid_out.simps positions_QosTierConfiguration
  by (simp add: it_field_def field_at_def QosTierConfiguration_fields pb_entry_def type_defs area_def data_area_def size_area_def item_area_def item_places_def Let_def span_apart Int_Un_distrib Int_Un_distrib2)

lemma wire_QosTierConfiguration:
  "msg_wire (Suc 0) no_user tier_mem cct_env gdt_cct_QosTierConfiguration_fields 0x100 = Some [Varint 2 2, Varint 3 7]"
  by (simp add: QosTierConfiguration_fields wire_eval mem_u32_eval mem_u64_eval not_count_le_1 tier_mem_def)


end
