(* ===== verification/LdbCoding.thy ===== *)
theory LdbCoding
  imports PbWire
begin

text \<open>
  \<open>util/coding.cc\<close> and \<open>util/coding.h\<close> of LevelDB: integers of fixed and of variable length, and strings with
  their length in front, as they are appended to a \<open>std::string\<close> and taken off a \<open>Slice\<close>. A \<open>Slice\<close>, and the
  bytes between a pointer and its \<open>limit\<close>, are a byte list; a null result is \<open>None\<close>.
\<close>

section \<open>Fixed-length integers\<close>

text \<open>The stores of the general case; on a little-endian machine they are the copy of the value.\<close>

definition EncodeFixed32 :: "u32 \<Rightarrow> byte list" where
  "EncodeFixed32 v =
     [ucast (v AND 0xFF), ucast (drop_bit 8 v AND 0xFF), ucast (drop_bit 16 v AND 0xFF), ucast (drop_bit 24 v AND 0xFF)]"

definition EncodeFixed64 :: "u64 \<Rightarrow> byte list" where
  "EncodeFixed64 v =
     [ucast (v AND 0xFF), ucast (drop_bit 8 v AND 0xFF), ucast (drop_bit 16 v AND 0xFF), ucast (drop_bit 24 v AND 0xFF),
      ucast (drop_bit 32 v AND 0xFF), ucast (drop_bit 40 v AND 0xFF), ucast (drop_bit 48 v AND 0xFF),
      ucast (drop_bit 56 v AND 0xFF)]"

definition PutFixed32 :: "byte list \<Rightarrow> u32 \<Rightarrow> byte list" where
  "PutFixed32 dst v = dst @ EncodeFixed32 v"

definition PutFixed64 :: "byte list \<Rightarrow> u64 \<Rightarrow> byte list" where
  "PutFixed64 dst v = dst @ EncodeFixed64 v"

definition DecodeFixed32 :: "byte list \<Rightarrow> u32" where
  "DecodeFixed32 p = ucast (p ! 0) OR push_bit 8 (ucast (p ! 1)) OR push_bit 16 (ucast (p ! 2)) OR push_bit 24 (ucast (p ! 3))"

definition DecodeFixed64 :: "byte list \<Rightarrow> u64" where
  "DecodeFixed64 p =
     (let lo = ucast (DecodeFixed32 p); hi = ucast (DecodeFixed32 (drop 4 p)) in push_bit 32 hi OR lo)"

lemma EncodeFixed32_eq: "EncodeFixed32 v = fixed32 v"
  by (simp add: EncodeFixed32_def fixed32_def byte_at_def)

lemma EncodeFixed64_eq: "EncodeFixed64 v = fixed64 v"
  by (simp add: EncodeFixed64_def fixed64_def byte_at_def)

lemma length_EncodeFixed [simp]: "length (EncodeFixed32 v) = 4" "length (EncodeFixed64 v') = 8"
  by (simp_all add: EncodeFixed32_def EncodeFixed64_def)

lemma DecodeFixed32_Encode [simp]: "DecodeFixed32 (EncodeFixed32 v @ rest) = v"
  using from_fixed32 [of v] by (simp add: EncodeFixed32_eq DecodeFixed32_def fixed32_def)

lemma DecodeFixed64_Encode [simp]: "DecodeFixed64 (EncodeFixed64 v @ rest) = v"
proof -
  have "push_bit 32 (ucast (ucast (drop_bit 32 v) :: u32)) OR ucast (ucast v :: u32) = v"
    by (rule bit_word_eqI) (auto simp: bit_simps)
  moreover have "EncodeFixed64 v = EncodeFixed32 (ucast v) @ EncodeFixed32 (ucast (drop_bit 32 v))"
    by (simp add: EncodeFixed64_def EncodeFixed32_def) (intro conjI bit_word_eqI; auto simp: bit_simps)
  ultimately show ?thesis by (simp add: DecodeFixed64_def Let_def)
qed

section \<open>Variable-length integers\<close>

definition EncodeVarint32 :: "u32 \<Rightarrow> byte list" where
  "EncodeVarint32 v =
     (if v < 2 ^ 7 then [ucast v]
      else if v < 2 ^ 14 then [ucast (v OR 128), ucast (drop_bit 7 v)]
      else if v < 2 ^ 21 then [ucast (v OR 128), ucast (drop_bit 7 v OR 128), ucast (drop_bit 14 v)]
      else if v < 2 ^ 28 then
        [ucast (v OR 128), ucast (drop_bit 7 v OR 128), ucast (drop_bit 14 v OR 128), ucast (drop_bit 21 v)]
      else
        [ucast (v OR 128), ucast (drop_bit 7 v OR 128), ucast (drop_bit 14 v OR 128), ucast (drop_bit 21 v OR 128),
         ucast (drop_bit 28 v)])"

lemma drop7_less: "128 \<le> v \<Longrightarrow> unat (drop_bit 7 v) < unat v" for v :: u64
  unfolding unat_drop_bit by (simp add: word_le_nat_alt)

function EncodeVarint64 :: "u64 \<Rightarrow> byte list" where
  "EncodeVarint64 v = (if v \<ge> 128 then ucast (v OR 128) # EncodeVarint64 (drop_bit 7 v) else [ucast v])"
  by pat_completeness auto
termination by (relation "measure unat") (simp_all add: drop7_less)

definition PutVarint32 :: "byte list \<Rightarrow> u32 \<Rightarrow> byte list" where
  "PutVarint32 dst v = dst @ EncodeVarint32 v"

definition PutVarint64 :: "byte list \<Rightarrow> u64 \<Rightarrow> byte list" where
  "PutVarint64 dst v = dst @ EncodeVarint64 v"

definition PutLengthPrefixedSlice :: "byte list \<Rightarrow> byte list \<Rightarrow> byte list" where
  "PutLengthPrefixedSlice dst val = PutVarint32 dst (word_of_nat (length val)) @ val"

function VarintLength_loop :: "nat \<Rightarrow> u64 \<Rightarrow> nat" where
  "VarintLength_loop len v = (if v \<ge> 128 then VarintLength_loop (len + 1) (drop_bit 7 v) else len)"
  by pat_completeness auto
termination by (relation "measure (unat \<circ> snd)") (simp_all add: drop7_less)

definition VarintLength :: "u64 \<Rightarrow> nat" where
  "VarintLength v = VarintLength_loop 1 v"

declare EncodeVarint64.simps [simp del] VarintLength_loop.simps [simp del]

text \<open>The loop of both readers, for shifts up to a last one.\<close>

fun varint_ptr_loop :: "nat \<Rightarrow> nat \<Rightarrow> 'a::len word \<Rightarrow> byte list \<Rightarrow> ('a word \<times> byte list) option" where
  "varint_ptr_loop last_shift shift res [] = None"
| "varint_ptr_loop last_shift shift res (b # p) =
     (if shift \<le> last_shift then
        (if b AND 128 \<noteq> 0 then varint_ptr_loop last_shift (shift + 7) (res OR push_bit shift (ucast (b AND 127))) p
         else Some (res OR push_bit shift (ucast b), p))
      else None)"

definition GetVarint32PtrFallback :: "byte list \<Rightarrow> (u32 \<times> byte list) option" where
  "GetVarint32PtrFallback p = varint_ptr_loop 28 0 0 p"

definition GetVarint32Ptr :: "byte list \<Rightarrow> (u32 \<times> byte list) option" where
  "GetVarint32Ptr p = (if p \<noteq> [] \<and> (ucast (hd p) :: u32) AND 128 = 0 then Some (ucast (hd p), tl p) else GetVarint32PtrFallback p)"

definition GetVarint64Ptr :: "byte list \<Rightarrow> (u64 \<times> byte list) option" where
  "GetVarint64Ptr p = varint_ptr_loop 63 0 0 p"

text \<open>The readers of a \<open>Slice\<close> leave it as it was when they fail.\<close>

definition GetVarint32 :: "(byte list, u32) cop" where
  "GetVarint32 input = (case GetVarint32Ptr input of None \<Rightarrow> (None, input) | Some (v, q) \<Rightarrow> (Some v, q))"

definition GetVarint64 :: "(byte list, u64) cop" where
  "GetVarint64 input = (case GetVarint64Ptr input of None \<Rightarrow> (None, input) | Some (v, q) \<Rightarrow> (Some v, q))"

text \<open>The one for pointers and the one for slices; the latter has taken the length off when the string is too short.\<close>

definition GetLengthPrefixedSlicePtr :: "byte list \<Rightarrow> (byte list \<times> byte list) option" where
  "GetLengthPrefixedSlicePtr p =
     (case GetVarint32Ptr p of None \<Rightarrow> None
      | Some (len, p) \<Rightarrow> if unat len > length p then None else Some (take (unat len) p, drop (unat len) p))"

definition GetLengthPrefixedSlice :: "(byte list, byte list) cop" where
  "GetLengthPrefixedSlice = op_bind GetVarint32 (\<lambda>len input.
     if length input \<ge> unat len then (Some (take (unat len) input), drop (unat len) input) else (None, input))"

section \<open>What is written\<close>

lemma byte_or_128: "b OR 128 = word_of_nat (unat b mod 128 + 128)" for b :: byte
proof -
  have "b OR 128 = (b AND 0x7F) OR 0x80"
  proof (rule bit_word_eqI)
    fix n assume n: "n < LENGTH(8)"
    have m: "(0x7F :: byte) = mask 7" and e: "(128 :: byte) = 2 ^ 7" by (simp_all add: mask_eq_exp_minus_1)
    show "bit (b OR 128) n = bit ((b AND 0x7F) OR 0x80) n"
      using n unfolding m e by (auto simp only: bit_or_iff bit_and_iff bit_mask_iff bit_exp_iff possible_bit_word) simp_all
  qed
  moreover have "unat ((b AND 0x7F) OR 0x80) = unat b mod 128 + 128"
    using unat_byte_or_0x80 [of "b AND 0x7F"] by (simp add: byte_and_0x7f)
  ultimately show ?thesis by (metis of_nat_unat ucast_id)
qed

lemma ucast_byte: "(ucast v :: byte) = word_of_nat (unat v mod 256)" for v :: "'a::len word"
  by (rule word_unat_eq_iff [THEN iffD2]) (simp add: unsigned_ucast_eq take_bit_eq_mod unat_of_nat)

lemma or_128:
  "ucast (v OR 128) = (word_of_nat (unat v mod 128 + 128) :: byte)"
  "ucast (v' OR 128) = (word_of_nat (unat v' mod 128 + 128) :: byte)" for v :: u32 and v' :: u64
proof -
  have "ucast (v OR 128) = ucast v OR (128 :: byte)" "ucast (v' OR 128) = ucast v' OR (128 :: byte)"
    by (simp_all add: unsigned_or_eq)
  then show "ucast (v OR 128) = (word_of_nat (unat v mod 128 + 128) :: byte)"
    "ucast (v' OR 128) = (word_of_nat (unat v' mod 128 + 128) :: byte)"
    unfolding byte_or_128 ucast_byte by (simp_all add: unat_of_nat mod_mod_cancel)
qed

lemma ucast_nat: "(ucast v :: byte) = word_of_nat (unat v)" for v :: "'a::len word"
  by simp

lemma EncodeVarint64_eq: "EncodeVarint64 v = varint (unat v)"
proof (induction v rule: EncodeVarint64.induct)
  case (1 v)
  have s: "EncodeVarint64 v = (if v \<ge> 128 then ucast (v OR 128) # EncodeVarint64 (drop_bit 7 v) else [ucast v])"
    by (rule EncodeVarint64.simps)
  have d: "unat (drop_bit 7 v) = unat v div 128" by (simp add: unat_drop_bit)
  show ?case
  proof (cases "128 \<le> v")
    case True
    then have "128 \<le> unat v" by (simp add: word_le_nat_alt)
    with True 1 show ?thesis unfolding s or_128 by (simp add: d varint_big)
  next
    case False
    then have "unat v < 128" by (simp add: word_le_nat_alt)
    with False show ?thesis unfolding s by (simp add: varint_small)
  qed
qed

lemma EncodeVarint32_eq: "EncodeVarint32 v = varint (unat v)"
proof -
  define n where "n = unat v"
  have n: "n < 2 ^ 32" using unsigned_less [of v, where ?'a = nat] by (simp add: n_def)
  have d: "unat (drop_bit k v) = n div 2 ^ k" for k unfolding n_def by (rule unat_drop_bit)
  have c: "v < 2 ^ 7 \<longleftrightarrow> n < 128" "v < 2 ^ 14 \<longleftrightarrow> n < 128 * 128" "v < 2 ^ 21 \<longleftrightarrow> n < 128 * 128 * 128"
    "v < 2 ^ 28 \<longleftrightarrow> n < 128 * 128 * 128 * 128"
    by (simp_all add: word_less_nat_alt n_def)
  have big: "varint m = word_of_nat (m mod 128 + 128) # varint (m div 128)" if "128 \<le> m" for m using that by (rule varint_big)
  have q: "n div 2 ^ 7 = n div 128" "n div 2 ^ 14 = n div 128 div 128" "n div 2 ^ 21 = n div 128 div 128 div 128"
    "n div 2 ^ 28 = n div 128 div 128 div 128 div 128"
    by (simp_all add: div_mult2_eq [symmetric])
  have e: "EncodeVarint32 v =
     (if n < 128 then [word_of_nat n]
      else if n < 128 * 128 then [word_of_nat (n mod 128 + 128), word_of_nat (n div 128)]
      else if n < 128 * 128 * 128 then
        [word_of_nat (n mod 128 + 128), word_of_nat (n div 128 mod 128 + 128), word_of_nat (n div 128 div 128)]
      else if n < 128 * 128 * 128 * 128 then
        [word_of_nat (n mod 128 + 128), word_of_nat (n div 128 mod 128 + 128), word_of_nat (n div 128 div 128 mod 128 + 128),
         word_of_nat (n div 128 div 128 div 128)]
      else
        [word_of_nat (n mod 128 + 128), word_of_nat (n div 128 mod 128 + 128), word_of_nat (n div 128 div 128 mod 128 + 128),
         word_of_nat (n div 128 div 128 div 128 mod 128 + 128), word_of_nat (n div 128 div 128 div 128 div 128)])"
    unfolding EncodeVarint32_def c unfolding or_128 unfolding ucast_nat d q unfolding n_def [symmetric] ..
  have l: "n div 128 div 128 div 128 div 128 < 128" using n by (simp add: less_mult_imp_div_less)
  show ?thesis
    unfolding e n_def [symmetric]
    using l by (simp add: varint_small big not_less less_mult_imp_div_less del: of_nat_add)
qed

lemma VarintLength_eq: "VarintLength v = length (varint (unat v))"
proof -
  have "VarintLength_loop (Suc len) v = len + length (varint (unat v))" for len
  proof (induction v arbitrary: len rule: EncodeVarint64.induct)
    case (1 v)
    have s: "VarintLength_loop (Suc len) v = (if v \<ge> 128 then VarintLength_loop (Suc (Suc len)) (drop_bit 7 v) else Suc len)"
      by (simp add: VarintLength_loop.simps [of "Suc len" v])
    have d: "unat (drop_bit 7 v) = unat v div 128" by (simp add: unat_drop_bit)
    show ?case
    proof (cases "128 \<le> v")
      case True
      then have "128 \<le> unat v" by (simp add: word_le_nat_alt)
      with True 1 [of "Suc len"] show ?thesis unfolding s by (simp add: d varint_big)
    next
      case False
      then have "unat v < 128" by (simp add: word_le_nat_alt)
      with False show ?thesis unfolding s by (simp add: varint_small)
    qed
  qed
  from this [of 0] show ?thesis by (simp add: VarintLength_def)
qed

section \<open>What is read\<close>

lemma byte_and_128: "(b AND 128 = 0) \<longleftrightarrow> unat b < 128" for b :: byte
  using byte_and_0x80 by simp

lemma ucast_group_word:
  fixes b :: byte
  shows "(ucast (b AND 127) :: 'a::len word) = word_of_nat (unat b mod 128)"
    and "unat b < 128 \<Longrightarrow> (ucast b :: 'a word) = word_of_nat (unat b mod 128)"
proof -
  have "(ucast (b AND 127) :: 'a word) = word_of_nat (unat (b AND 127))" by simp
  then show "(ucast (b AND 127) :: 'a word) = word_of_nat (unat b mod 128)" unfolding byte_and_0x7f .
  show "unat b < 128 \<Longrightarrow> (ucast b :: 'a word) = word_of_nat (unat b mod 128)" by simp
qed

text \<open>One group added to the result.\<close>

lemma add_group:
  fixes res :: "'a::len word"
  assumes "unat res < 2 ^ k"
  shows "res OR push_bit k (word_of_nat m) = res + word_of_nat m * 2 ^ k"
    and "m < 128 \<Longrightarrow> unat (res + word_of_nat m * 2 ^ k) < 2 ^ (k + 7)"
proof -
  show "res OR push_bit k (word_of_nat m) = res + word_of_nat m * 2 ^ k"
    using push_bit_or_small [OF assms, of "word_of_nat m"] by (simp add: or.commute add.commute)
  assume "m < 128"
  then have m: "m \<le> 127" by simp
  have "m * 2 ^ k + unat res < 127 * 2 ^ k + 2 ^ k"
    using mult_right_mono [OF m, of "2 ^ k"] assms by linarith
  also have "\<dots> = 2 ^ (k + 7)" by (simp add: power_add)
  finally have l: "unat res + m * 2 ^ k < 2 ^ (k + 7)" by simp
  have "res + word_of_nat m * 2 ^ k = word_of_nat (unat res + m * 2 ^ k)" by simp
  then have "unat (res + word_of_nat m * 2 ^ k) = (unat res + m * 2 ^ k) mod 2 ^ LENGTH('a)" by (simp only: unat_of_nat)
  also have "\<dots> \<le> unat res + m * 2 ^ k" by (rule mod_less_eq_dividend)
  finally show "unat (res + word_of_nat m * 2 ^ k) < 2 ^ (k + 7)" using l by simp
qed

definition takes_varint :: "nat \<Rightarrow> nat \<Rightarrow> 'a::len word \<Rightarrow> byte list \<Rightarrow> 'a word \<Rightarrow> byte list \<Rightarrow> bool" where
  "takes_varint last_shift shift res p v rest \<longleftrightarrow>
     (\<exists>bs. p = bs @ rest \<and> is_varint bs \<and> shift + 7 * length bs \<le> last_shift + 7 \<and>
        v = res + word_of_nat (groups_val bs) * 2 ^ shift)"

lemma takes_varint_Nil: "\<not> takes_varint last_shift shift res [] v rest"
  by (auto simp: takes_varint_def)

lemma takes_varint_Cons:
  "takes_varint last_shift shift res (b # p) v rest \<longleftrightarrow> shift \<le> last_shift \<and>
     (if unat b < 128 then rest = p \<and> v = res + word_of_nat (unat b mod 128) * 2 ^ shift
      else takes_varint last_shift (shift + 7) (res + word_of_nat (unat b mod 128) * 2 ^ shift) p v rest)"
    (is "?L \<longleftrightarrow> ?R")
proof -
  have step: "res + word_of_nat (groups_val (b # bs)) * 2 ^ shift =
      res + word_of_nat (unat b mod 128) * 2 ^ shift + word_of_nat (groups_val bs) * 2 ^ (shift + 7)" for bs
    by (simp add: algebra_simps power_add)
  show ?thesis
  proof
    assume ?L
    then obtain bs where bs: "b # p = bs @ rest" "is_varint bs" "shift + 7 * length bs \<le> last_shift + 7"
      "v = res + word_of_nat (groups_val bs) * 2 ^ shift" unfolding takes_varint_def by blast
    then obtain cs where cs: "bs = b # cs" "p = cs @ rest" by (cases bs) auto
    show ?R
    proof (cases "unat b < 128")
      case True
      with bs cs show ?thesis by simp
    next
      case False
      with bs cs have "takes_varint last_shift (shift + 7) (res + word_of_nat (unat b mod 128) * 2 ^ shift) p v rest"
        unfolding takes_varint_def using step by (intro exI [of _ cs]) simp
      with False bs cs show ?thesis by simp
    qed
  next
    assume r: ?R
    show ?L
    proof (cases "unat b < 128")
      case True
      with r show ?thesis unfolding takes_varint_def by (intro exI [of _ "[b]"]) simp
    next
      case False
      with r obtain cs where "p = cs @ rest" "is_varint cs" "shift + 7 + 7 * length cs \<le> last_shift + 7"
        "v = res + word_of_nat (unat b mod 128) * 2 ^ shift + word_of_nat (groups_val cs) * 2 ^ (shift + 7)"
        unfolding takes_varint_def by auto
      with False step show ?thesis unfolding takes_varint_def by (intro exI [of _ "b # cs"]) simp
    qed
  qed
qed

lemma ptr_loop_iff:
  fixes res :: "'a::len word"
  shows "unat res < 2 ^ shift \<Longrightarrow> varint_ptr_loop last_shift shift res p = Some (v, rest) \<longleftrightarrow>
    takes_varint last_shift shift res p v rest"
proof (induction p arbitrary: shift res)
  case Nil
  then show ?case by (simp add: takes_varint_Nil)
next
  case (Cons b p)
  let ?r = "res + word_of_nat (unat b mod 128) * 2 ^ shift"
  note group = add_group [OF Cons.prems, of "unat b mod 128"]
  show ?case
  proof (cases "unat b < 128")
    case True
    have "varint_ptr_loop last_shift shift res (b # p) =
        (if shift \<le> last_shift then Some (res OR push_bit shift (ucast b), p) else None)"
      using True by (simp add: byte_and_0x80)
    then have "varint_ptr_loop last_shift shift res (b # p) = (if shift \<le> last_shift then Some (?r, p) else None)"
      unfolding ucast_group_word(2) [OF True] group(1) .
    then show ?thesis unfolding takes_varint_Cons using True by (cases "shift \<le> last_shift") auto
  next
    case False
    have "varint_ptr_loop last_shift (shift + 7) ?r p = Some (v, rest) \<longleftrightarrow> takes_varint last_shift (shift + 7) ?r p v rest"
      using group(2) by (intro Cons.IH) simp
    moreover have "varint_ptr_loop last_shift shift res (b # p) =
        (if shift \<le> last_shift then varint_ptr_loop last_shift (shift + 7) (res OR push_bit shift (ucast (b AND 127))) p else None)"
      using False by (simp add: byte_and_0x80)
    then have "varint_ptr_loop last_shift shift res (b # p) =
        (if shift \<le> last_shift then varint_ptr_loop last_shift (shift + 7) ?r p else None)"
      unfolding ucast_group_word(1) group(1) .
    ultimately show ?thesis unfolding takes_varint_Cons using False by simp
  qed
qed

text \<open>Both readers accept exactly the base-128 integers of at most five and ten bytes, and drop what has no room.\<close>

lemma takes_varint_start:
  "takes_varint last_shift 0 0 p v rest \<longleftrightarrow>
     (\<exists>bs. p = bs @ rest \<and> is_varint bs \<and> 7 * length bs \<le> last_shift + 7 \<and> v = word_of_nat (groups_val bs))"
  by (simp add: takes_varint_def)

lemma GetVarint32Ptr_fallback: "GetVarint32Ptr p = GetVarint32PtrFallback p"
proof (cases "p \<noteq> [] \<and> (ucast (hd p) :: u32) AND 128 = 0")
  case True
  then obtain b q where p: "p = b # q" by (cases p) auto
  have "(ucast b :: u32) AND 128 = ucast (b AND 128)" by (simp add: unsigned_and_eq)
  with True p have "(ucast (b AND 128) :: u32) = 0" by simp
  then have "unat (ucast (b AND 128) :: u32) = 0" by simp
  then have "unat (b AND 128) = 0" by (simp add: unat_ucast_up)
  then have "b AND 128 = 0" by (simp add: unat_eq_zero)
  then show ?thesis using True p by (simp add: GetVarint32Ptr_def GetVarint32PtrFallback_def)
qed (auto simp: GetVarint32Ptr_def)

lemma GetVarint32Ptr_iff:
  "GetVarint32Ptr p = Some (v, rest) \<longleftrightarrow>
     (\<exists>bs. p = bs @ rest \<and> is_varint bs \<and> length bs \<le> 5 \<and> v = word_of_nat (groups_val bs))"
proof -
  have "7 * length bs \<le> 28 + 7 \<longleftrightarrow> length bs \<le> 5" for bs :: "byte list" by linarith
  then show ?thesis
    unfolding GetVarint32Ptr_fallback GetVarint32PtrFallback_def by (simp add: ptr_loop_iff takes_varint_start)
qed

lemma GetVarint64Ptr_iff:
  "GetVarint64Ptr p = Some (v, rest) \<longleftrightarrow>
     (\<exists>bs. p = bs @ rest \<and> is_varint bs \<and> length bs \<le> 10 \<and> v = word_of_nat (groups_val bs))"
proof -
  have "7 * length bs \<le> 63 + 7 \<longleftrightarrow> length bs \<le> 10" for bs :: "byte list" by linarith
  then show ?thesis unfolding GetVarint64Ptr_def by (simp add: ptr_loop_iff takes_varint_start)
qed

section \<open>Round trips\<close>

lemma length_varint_u32: "length (varint (unat (v :: u32))) \<le> 5"
proof -
  have "unat v < 2 ^ 32" using unsigned_less [of v, where ?'a = nat] by simp
  also have "(2 :: nat) ^ 32 < 128 ^ Suc 4" by simp
  finally show ?thesis using length_varint_le [of "unat v" 4] by simp
qed

lemma GetVarint32Ptr_Encode [simp]: "GetVarint32Ptr (EncodeVarint32 v @ rest) = Some (v, rest)"
  unfolding GetVarint32Ptr_iff EncodeVarint32_eq
  using is_varint_varint [of "unat v"] groups_val_varint [of "unat v"] length_varint_u32 [of v]
  by (intro exI [of _ "varint (unat v)"]) simp

lemma GetVarint64Ptr_Encode [simp]: "GetVarint64Ptr (EncodeVarint64 v @ rest) = Some (v, rest)"
  unfolding GetVarint64Ptr_iff EncodeVarint64_eq
  using is_varint_varint [of "unat v"] groups_val_varint [of "unat v"] length_varint_u64 [of v]
  by (intro exI [of _ "varint (unat v)"]) simp

lemma GetVarint_Encode [simp]:
  "GetVarint32 (EncodeVarint32 v @ rest) = (Some v, rest)" "GetVarint64 (EncodeVarint64 v' @ rest) = (Some v', rest)"
  by (simp_all add: GetVarint32_def GetVarint64_def)

definition length_prefixed :: "byte list \<Rightarrow> byte list" where
  "length_prefixed val = varint (length val) @ val"

lemma PutLengthPrefixedSlice_eq: "length val < 2 ^ 32 \<Longrightarrow> PutLengthPrefixedSlice dst val = dst @ length_prefixed val"
  by (simp add: PutLengthPrefixedSlice_def PutVarint32_def EncodeVarint32_eq length_prefixed_def unat_of_nat)

lemma GetLengthPrefixedSlice_Put:
  assumes "length val < 2 ^ 32"
  shows "GetLengthPrefixedSlice (length_prefixed val @ rest) = (Some val, rest)"
    and "GetLengthPrefixedSlicePtr (length_prefixed val @ rest) = Some (val, rest)"
proof -
  have "varint (length val) = EncodeVarint32 (word_of_nat (length val))" using assms by (simp add: EncodeVarint32_eq unat_of_nat)
  then show "GetLengthPrefixedSlice (length_prefixed val @ rest) = (Some val, rest)"
    "GetLengthPrefixedSlicePtr (length_prefixed val @ rest) = Some (val, rest)"
    using assms by (simp_all add: GetLengthPrefixedSlice_def GetLengthPrefixedSlicePtr_def length_prefixed_def op_bind_def unat_of_nat)
qed

end
