(* ===== verification/LdbCrc.thy ===== *)
theory LdbCrc
  imports LdbCrcTables
begin

text \<open>
  \<open>util/crc32c.cc\<close> and \<open>util/crc32c.h\<close> of LevelDB: the checksum of the log and of the table files. The code works on
  four words at a time with the stride tables and joins the four partial results at the end; it computes the CRC-32C of
  the bytes one after the other, wherever the bytes are in memory.
\<close>

section \<open>The code\<close>

definition STEP1 :: "u32 \<Rightarrow> byte \<Rightarrow> u32" where
  "STEP1 l b = (let c = unat ((l AND 0xFF) XOR ucast b) in kByteExtensionTable ! c XOR drop_bit 8 l)"

definition STEP4 :: "u32 \<Rightarrow> byte list \<Rightarrow> u32" where
  "STEP4 crc p =
     DecodeFixed32 p XOR kStrideExtensionTable3 ! unat (crc AND 0xFF) XOR
     kStrideExtensionTable2 ! unat (drop_bit 8 crc AND 0xFF) XOR
     kStrideExtensionTable1 ! unat (drop_bit 16 crc AND 0xFF) XOR kStrideExtensionTable0 ! unat (drop_bit 24 crc)"

type_synonym strides = "u32 \<times> u32 \<times> u32 \<times> u32"

fun STEP16 :: "strides \<Rightarrow> byte list \<Rightarrow> strides" where
  "STEP16 (crc0, crc1, crc2, crc3) p =
     (STEP4 crc0 p, STEP4 crc1 (drop 4 p), STEP4 crc2 (drop 8 p), STEP4 crc3 (drop 12 p))"

definition STEP4W :: "u32 \<Rightarrow> u32 \<Rightarrow> u32" where
  "STEP4W l w = ((\<lambda>w. drop_bit 8 w XOR kByteExtensionTable ! unat (w AND 0xFF)) ^^ 4) (w XOR l)"

text \<open>The loop over swaths of 16 bytes, then the loop over words.\<close>

function swath_loop :: "strides \<Rightarrow> byte list \<Rightarrow> strides \<times> byte list" where
  "swath_loop crcs p = (if length p \<ge> 16 then swath_loop (STEP16 crcs p) (drop 16 p) else (crcs, p))"
  by pat_completeness auto
termination by (relation "measure (\<lambda>(_, p). length p)") auto

function word_loop :: "strides \<Rightarrow> byte list \<Rightarrow> strides \<times> byte list" where
  "word_loop (crc0, crc1, crc2, crc3) p =
     (if length p \<ge> 4 then word_loop (crc1, crc2, crc3, STEP4 crc0 p) (drop 4 p) else ((crc0, crc1, crc2, crc3), p))"
  by pat_completeness auto
termination by (relation "measure (\<lambda>(_, p). length p)") auto

declare swath_loop.simps [simp del] word_loop.simps [simp del]

definition kCRC32Xor :: u32 where
  "kCRC32Xor = 0xFFFFFFFF"

text \<open>The address that is a multiple of four, for a pointer at the address \<open>p\<close>.\<close>

definition RoundUp4 :: "nat \<Rightarrow> nat" where
  "RoundUp4 p = (p + 3) div 4 * 4"

text \<open>The build of the app has no \<open>HAVE_CRC32C\<close>.\<close>

definition AcceleratedCRC32C :: "u32 \<Rightarrow> byte list \<Rightarrow> u32" where
  "AcceleratedCRC32C crc buf = 0"

definition kTestCRCBuffer :: "byte list" where
  "kTestCRCBuffer = map (word_of_nat \<circ> of_char) ''TestCRCBuffer''"

definition CanAccelerateCRC32C :: bool where
  "CanAccelerateCRC32C \<longleftrightarrow> AcceleratedCRC32C 0 kTestCRCBuffer = 0xDCBC59FA"

definition Extend_strides :: "u32 \<Rightarrow> byte list \<Rightarrow> u32 \<times> byte list" where
  "Extend_strides l p =
     (let crc0 = DecodeFixed32 p XOR l;
          crc1 = DecodeFixed32 (drop 4 p);
          crc2 = DecodeFixed32 (drop 8 p);
          crc3 = DecodeFixed32 (drop 12 p);
          (crcs, p) = swath_loop (crc0, crc1, crc2, crc3) (drop 16 p);
          ((crc0, crc1, crc2, crc3), p) = word_loop crcs p
      in (STEP4W (STEP4W (STEP4W (STEP4W 0 crc0) crc1) crc2) crc3, p))"

text \<open>\<open>Extend\<close> on the bytes \<open>data\<close> at the address \<open>addr\<close>.\<close>

definition Extend :: "nat \<Rightarrow> u32 \<Rightarrow> byte list \<Rightarrow> u32" where
  "Extend addr crc data =
     (if CanAccelerateCRC32C then AcceleratedCRC32C crc data
      else
        let l = crc XOR kCRC32Xor;
            x = RoundUp4 addr - addr;
            (l, p) = (if x \<le> length data then (foldl STEP1 l (take x data), drop x data) else (l, data));
            (l, p) = (if length p \<ge> 16 then Extend_strides l p else (l, p))
        in foldl STEP1 l p XOR kCRC32Xor)"

definition crc32c_Value :: "nat \<Rightarrow> byte list \<Rightarrow> u32" where
  "crc32c_Value addr data = Extend addr 0 data"

definition kMaskDelta :: u32 where
  "kMaskDelta = 0xA282EAD8"

definition Mask :: "u32 \<Rightarrow> u32" where
  "Mask crc = (drop_bit 15 crc OR push_bit 17 crc) + kMaskDelta"

definition Unmask :: "u32 \<Rightarrow> u32" where
  "Unmask masked_crc = (let rot = masked_crc - kMaskDelta in drop_bit 17 rot OR push_bit 15 rot)"

section \<open>The specification\<close>

text \<open>The register after a byte, eight steps after the byte came in, and the checksum of bytes.\<close>

definition crc_byte :: "u32 \<Rightarrow> byte \<Rightarrow> u32" where
  "crc_byte l b = crc_8 (l XOR ucast b)"

definition crc32c :: "u32 \<Rightarrow> byte list \<Rightarrow> u32" where
  "crc32c crc data = NOT (foldl crc_byte (NOT crc) data)"

lemma crc32c_append: "crc32c crc (a @ b) = crc32c (crc32c crc a) b"
  by (simp add: crc32c_def)

lemma Unmask_Mask [simp]: "Unmask (Mask crc) = crc"
proof -
  have "drop_bit 17 (drop_bit 15 crc OR push_bit 17 crc) OR push_bit 15 (drop_bit 15 crc OR push_bit 17 crc) = crc"
  proof (rule bit_word_eqI)
    fix n assume "n < LENGTH(32)"
    then show "bit (drop_bit 17 (drop_bit 15 crc OR push_bit 17 crc) OR push_bit 15 (drop_bit 15 crc OR push_bit 17 crc)) n = bit crc n"
      by (cases "n < 15") (auto simp: bit_simps)
  qed
  then show ?thesis by (simp add: Unmask_def Mask_def)
qed

section \<open>The steps\<close>

lemma crc_8_push:
  "crc_8 (push_bit 8 (drop_bit 8 x)) = drop_bit 8 x"
proof -
  have s: "crc_step (push_bit (Suc k) (drop_bit 8 x)) = push_bit k (drop_bit 8 x)" if "k < 8" for k
  proof -
    have "even (push_bit (Suc k) (drop_bit 8 x))" by (simp del: push_bit_Suc)
    moreover have "drop_bit 1 (push_bit (Suc k) (drop_bit 8 x)) = push_bit k (drop_bit 8 x)"
    proof (rule bit_word_eqI)
      fix n assume "n < LENGTH(32)"
      then show "bit (drop_bit 1 (push_bit (Suc k) (drop_bit 8 x))) n = bit (push_bit k (drop_bit 8 x)) n"
        using that by (auto simp: bit_simps simp del: push_bit_Suc dest: bit_imp_le_length)
    qed
    ultimately show ?thesis by (simp add: crc_step_def del: push_bit_Suc)
  qed
  have "(crc_step ^^ k) (push_bit k (drop_bit 8 x)) = drop_bit 8 x" if "k \<le> 8" for k
    using that
  proof (induction k)
    case (Suc k)
    have "(crc_step ^^ Suc k) (push_bit (Suc k) (drop_bit 8 x)) = (crc_step ^^ k) (crc_step (push_bit (Suc k) (drop_bit 8 x)))"
      by (simp only: funpow_Suc_right comp_apply)
    also have "\<dots> = drop_bit 8 x" using s [of k] Suc by simp
    finally show ?case .
  qed simp
  then show ?thesis by (simp add: crc_8_def)
qed

lemma split_byte: "x = (x AND 0xFF) XOR push_bit 8 (drop_bit 8 x)" for x :: u32
proof (rule bit_word_eqI)
  fix n assume n: "n < LENGTH(32)"
  have m: "(0xFF :: u32) = mask 8" by (simp add: mask_eq_exp_minus_1)
  show "bit x n = bit ((x AND 0xFF) XOR push_bit 8 (drop_bit 8 x)) n"
    using n unfolding m by (cases "n < 8") (auto simp: bit_simps)
qed

lemma byte_less: "unat (x AND 0xFF) < 256" for x :: u32
proof -
  have "x AND 0xFF = take_bit 8 x" by (simp add: take_bit_eq_mask mask_eq_exp_minus_1)
  then show ?thesis by (simp add: unat_take_bit take_bit_nat_less_exp [of 8, simplified])
qed

lemma crc_8_table: "drop_bit 8 x XOR kByteExtensionTable ! unat (x AND 0xFF) = crc_8 x"
proof -
  have "crc_8 x = crc_8 (x AND 0xFF) XOR crc_8 (push_bit 8 (drop_bit 8 x))"
    using additiveD [OF additive_8] split_byte [of x] by metis
  then show ?thesis using crc_tables(1) [OF byte_less [of x]] by (simp add: crc_8_push xor.commute)
qed

lemma STEP1_eq: "STEP1 l b = crc_byte l b"
proof -
  let ?x = "l XOR ucast b"
  have "(ucast b :: u32) AND 0xFF = ucast b"
  proof (rule bit_word_eqI)
    fix n assume n: "n < LENGTH(32)"
    have m: "(0xFF :: u32) = mask 8" by (simp add: mask_eq_exp_minus_1)
    show "bit ((ucast b :: u32) AND 0xFF) n = bit (ucast b :: u32) n"
      unfolding m by (auto simp: bit_simps dest: bit_imp_le_length)
  qed
  then have low: "?x AND 0xFF = (l AND 0xFF) XOR ucast b" by (simp add: bit.conj_xor_distrib2)
  have "drop_bit 8 (ucast b :: u32) = 0"
    by (rule bit_word_eqI) (auto simp: bit_simps dest: bit_imp_le_length)
  then have high: "drop_bit 8 ?x = drop_bit 8 l" by (simp add: drop_bit_xor)
  show ?thesis
    using crc_8_table [of ?x] unfolding low high by (simp add: STEP1_def Let_def crc_byte_def xor.commute)
qed

lemma STEP4W_eq: "STEP4W l w = (crc_8 ^^ 4) (w XOR l)"
  unfolding STEP4W_def crc_8_table ..

lemma STEP4_eq: "STEP4 crc p = DecodeFixed32 p XOR (crc_8 ^^ 16) crc"
proof -
  let ?f = "crc_8 ^^ 13"
  have a: "additive (crc_8 ^^ n)" for n by (rule additive_funpow [OF additive_8])
  let ?b0 = "crc AND 0xFF" and ?b1 = "drop_bit 8 crc AND 0xFF" and ?b2 = "drop_bit 16 crc AND 0xFF" and ?b3 = "drop_bit 24 crc"
  have shift: "(crc_8 ^^ Suc n) (push_bit 8 (drop_bit 8 x)) = (crc_8 ^^ n) (drop_bit 8 x)" for n x
    by (simp only: funpow_Suc_right comp_apply crc_8_push)
  have part: "(crc_8 ^^ Suc n) x = (crc_8 ^^ Suc n) (x AND 0xFF) XOR (crc_8 ^^ n) (drop_bit 8 x)" for n x
    using additiveD [OF a [of "Suc n"], of "x AND 0xFF" "push_bit 8 (drop_bit 8 x)"] split_byte [of x] shift [of n x] by simp
  have d: "drop_bit 8 (drop_bit 8 crc) = drop_bit 16 crc" "drop_bit 8 (drop_bit 16 crc) = ?b3" by simp_all
  have l: "unat ?b3 < 256"
  proof -
    have "unat crc < 2 ^ 32" using unsigned_less [of crc, where ?'a = nat] by simp
    then show ?thesis by (simp add: unat_drop_bit less_mult_imp_div_less)
  qed
  have e: "(16 :: nat) = Suc 15" "(15 :: nat) = Suc 14" "(14 :: nat) = Suc 13" by simp_all
  have "(crc_8 ^^ 16) crc = (crc_8 ^^ 16) ?b0 XOR ((crc_8 ^^ 15) ?b1 XOR ((crc_8 ^^ 14) ?b2 XOR (crc_8 ^^ 13) ?b3))"
    using part [of 15 crc] part [of 14 "drop_bit 8 crc"] part [of 13 "drop_bit 16 crc"] unfolding d by (simp only: e)
  then show ?thesis
    unfolding STEP4_def using crc_tables(2) [OF l] crc_tables(3-5) [OF byte_less] by (simp add: xor.assoc)
qed

section \<open>Four bytes at once\<close>

lemma additive_pow: "additive (crc_8 ^^ n)"
  by (rule additive_funpow [OF additive_8])

lemmas crc_pow_xor = additiveD [OF additive_pow]

lemma crc_pow_pow: "(crc_8 ^^ m) ((crc_8 ^^ n) x) = (crc_8 ^^ (m + n)) x"
  by (simp add: funpow_add)

lemma Decode_xor:
  "DecodeFixed32 p = ucast (p ! 0) XOR push_bit 8 (ucast (p ! 1) XOR push_bit 8 (ucast (p ! 2) XOR push_bit 8 (ucast (p ! 3))))"
proof (rule bit_word_eqI)
  fix n assume n: "n < LENGTH(32)"
  have b: "bit b i \<Longrightarrow> i < 8" for b :: byte and i by (auto dest: bit_imp_le_length)
  consider "n < 8" | "8 \<le> n" "n < 16" | "16 \<le> n" "n < 24" | "24 \<le> n" by linarith
  then show "bit (DecodeFixed32 p) n = bit (ucast (p ! 0) XOR push_bit 8 (ucast (p ! 1) XOR push_bit 8 (ucast (p ! 2) XOR
      push_bit 8 (ucast (p ! 3)))) :: u32) n"
    using n by cases (auto simp: DecodeFixed32_def bit_simps dest: b)
qed

lemma crc_8_next:
  assumes "drop_bit 8 (push_bit 8 y) = y"
  shows "crc_8 (x XOR push_bit 8 y) = crc_8 x XOR y"
  using additiveD [OF additive_8, of x "push_bit 8 y"] crc_8_push [of "push_bit 8 y"] unfolding assms by simp

lemma fits:
  fixes b b' b'' :: byte
  shows "drop_bit 8 (push_bit 8 (ucast b)) = (ucast b :: u32)"
    and "drop_bit 8 (push_bit 8 (ucast b XOR push_bit 8 (ucast b'))) = (ucast b XOR push_bit 8 (ucast b') :: u32)"
    and "drop_bit 8 (push_bit 8 (ucast b XOR push_bit 8 (ucast b' XOR push_bit 8 (ucast b'')))) =
      (ucast b XOR push_bit 8 (ucast b' XOR push_bit 8 (ucast b'')) :: u32)"
proof -
  have b: "bit b i \<Longrightarrow> i < 8" for b :: byte and i by (auto dest: bit_imp_le_length)
  show "drop_bit 8 (push_bit 8 (ucast b)) = (ucast b :: u32)"
    by (rule bit_word_eqI) (auto simp: bit_simps dest: b)
  show "drop_bit 8 (push_bit 8 (ucast b XOR push_bit 8 (ucast b'))) = (ucast b XOR push_bit 8 (ucast b') :: u32)"
    by (rule bit_word_eqI) (auto simp: bit_simps dest: b)
  show "drop_bit 8 (push_bit 8 (ucast b XOR push_bit 8 (ucast b' XOR push_bit 8 (ucast b'')))) =
      (ucast b XOR push_bit 8 (ucast b' XOR push_bit 8 (ucast b'')) :: u32)"
    by (rule bit_word_eqI) (auto simp: bit_simps dest: b)
qed

lemma crc_word:
  assumes "length p \<ge> 4"
  shows "foldl crc_byte l (take 4 p) = (crc_8 ^^ 4) (l XOR DecodeFixed32 p)"
proof -
  obtain b0 b1 b2 b3 q where p: "p = b0 # b1 # b2 # b3 # q"
    using assms by (auto simp: numeral_eq_Suc Suc_le_length_iff)
  define w3 w2 w1 :: u32 where w: "w3 = ucast b3" "w2 = ucast b2 XOR push_bit 8 w3" "w1 = ucast b1 XOR push_bit 8 w2"
  have d: "DecodeFixed32 p = ucast b0 XOR push_bit 8 w1" unfolding Decode_xor p w by (simp add: numeral_2_eq_2 numeral_3_eq_3)
  have n3: "crc_8 (x XOR push_bit 8 w3) = crc_8 x XOR w3" for x unfolding w by (rule crc_8_next [OF fits(1)])
  have n2: "crc_8 (x XOR push_bit 8 w2) = crc_8 x XOR w2" for x unfolding w by (rule crc_8_next [OF fits(2)])
  have n1: "crc_8 (x XOR push_bit 8 w1) = crc_8 x XOR w1" for x unfolding w by (rule crc_8_next [OF fits(3)])
  have "crc_8 (crc_8 (crc_8 (crc_8 (l XOR DecodeFixed32 p)))) = crc_8 (crc_8 (crc_8 (crc_8 (l XOR ucast b0) XOR w1)))"
    unfolding d xor.assoc [symmetric] n1 ..
  also have "\<dots> = crc_8 (crc_8 (crc_8 (crc_8 (l XOR ucast b0) XOR ucast b1) XOR w2))"
    unfolding w(3) xor.assoc [symmetric] n2 ..
  also have "\<dots> = crc_8 (crc_8 (crc_8 (crc_8 (l XOR ucast b0) XOR ucast b1) XOR ucast b2) XOR w3)"
    unfolding w(2) xor.assoc [symmetric] n3 ..
  also have "\<dots> = foldl crc_byte l (take 4 p)" unfolding w(1) by (simp add: p crc_byte_def numeral_eq_Suc)
  finally show ?thesis by (simp add: eval_nat_numeral)
qed

section \<open>The four partial results\<close>

text \<open>What the partial results stand for: each of them is four bytes before the next.\<close>

fun combine :: "strides \<Rightarrow> u32" where
  "combine (crc0, crc1, crc2, crc3) =
     (crc_8 ^^ 16) crc0 XOR (crc_8 ^^ 12) crc1 XOR (crc_8 ^^ 8) crc2 XOR (crc_8 ^^ 4) crc3"

lemma combine_word:
  assumes "length p \<ge> 4"
  shows "combine (crc1, crc2, crc3, STEP4 crc0 p) = foldl crc_byte (combine (crc0, crc1, crc2, crc3)) (take 4 p)"
  unfolding crc_word [OF assms]
  by (simp add: STEP4_eq crc_pow_xor crc_pow_pow) (simp only: xor.assoc xor.commute xor.left_commute)

lemma foldl_take_drop: "foldl f (foldl f a (take m p)) (take n (drop m p)) = foldl f a (take (m + n) p)"
  by (simp add: take_add)

lemma combine_swath:
  assumes "length p \<ge> 16"
  shows "combine (STEP16 crcs p) = foldl crc_byte (combine crcs) (take 16 p)"
proof -
  obtain crc0 crc1 crc2 crc3 where c: "crcs = (crc0, crc1, crc2, crc3)" by (cases crcs)
  have "combine (STEP16 crcs p) = foldl crc_byte (foldl crc_byte (foldl crc_byte (foldl crc_byte (combine crcs) (take 4 p))
      (take 4 (drop 4 p))) (take 4 (drop 8 p))) (take 4 (drop 12 p))"
    unfolding c STEP16.simps using assms by (subst combine_word, simp)+ simp
  then show ?thesis by (simp add: foldl_take_drop)
qed

lemma swath_loop_eq:
  "swath_loop crcs p = (crcs', p') \<Longrightarrow> foldl crc_byte (combine crcs') p' = foldl crc_byte (combine crcs) p"
proof (induction crcs p rule: swath_loop.induct)
  case (1 crcs p)
  show ?case
  proof (cases "length p \<ge> 16")
    case True
    with 1 have "foldl crc_byte (combine crcs') p' = foldl crc_byte (combine (STEP16 crcs p)) (drop 16 p)"
      by (simp add: swath_loop.simps [of crcs p])
    also have "\<dots> = foldl crc_byte (combine crcs) (take 16 p @ drop 16 p)"
      unfolding combine_swath [OF True] by (simp only: foldl_append)
    finally show ?thesis by simp
  next
    case False
    with 1 show ?thesis by (simp add: swath_loop.simps [of crcs p])
  qed
qed

lemma word_loop_eq:
  "word_loop crcs p = (crcs', p') \<Longrightarrow> foldl crc_byte (combine crcs') p' = foldl crc_byte (combine crcs) p"
proof (induction crcs p rule: word_loop.induct)
  case (1 crc0 crc1 crc2 crc3 p)
  show ?case
  proof (cases "length p \<ge> 4")
    case True
    with 1 have "foldl crc_byte (combine crcs') p' = foldl crc_byte (combine (crc1, crc2, crc3, STEP4 crc0 p)) (drop 4 p)"
      by (simp add: word_loop.simps [of crc0 crc1 crc2 crc3 p])
    also have "\<dots> = foldl crc_byte (combine (crc0, crc1, crc2, crc3)) (take 4 p @ drop 4 p)"
      unfolding combine_word [OF True] by (simp only: foldl_append)
    finally show ?thesis by simp
  next
    case False
    with 1 show ?thesis by (simp add: word_loop.simps [of crc0 crc1 crc2 crc3 p])
  qed
qed

lemma strides_eq:
  assumes "length p \<ge> 16" and "Extend_strides l p = (l', p')"
  shows "foldl crc_byte l' p' = foldl crc_byte l p"
proof -
  let ?start = "(DecodeFixed32 p XOR l, DecodeFixed32 (drop 4 p), DecodeFixed32 (drop 8 p), DecodeFixed32 (drop 12 p))"
  obtain crcs1 p1 where 1: "swath_loop ?start (drop 16 p) = (crcs1, p1)" by fastforce
  obtain crc0 crc1 crc2 crc3 p2 where 2: "word_loop crcs1 p1 = ((crc0, crc1, crc2, crc3), p2)" by (metis prod.exhaust)
  have f: "STEP4W (STEP4W (STEP4W (STEP4W 0 crc0) crc1) crc2) crc3 = combine (crc0, crc1, crc2, crc3)"
    by (simp add: STEP4W_eq crc_pow_xor crc_pow_pow) (simp only: xor.assoc xor.commute xor.left_commute)
  have "combine ?start = foldl crc_byte l (take 16 p)"
  proof -
    have "foldl crc_byte l (take 16 p) = foldl crc_byte (foldl crc_byte (foldl crc_byte (foldl crc_byte l (take 4 p))
        (take 4 (drop 4 p))) (take 4 (drop 8 p))) (take 4 (drop 12 p))"
      by (simp add: foldl_take_drop)
    also have "\<dots> = combine ?start"
      using assms(1) by (simp add: crc_word crc_pow_xor crc_pow_pow xor.assoc xor.commute xor.left_commute)
    finally show ?thesis ..
  qed
  then have "foldl crc_byte (combine ?start) (drop 16 p) = foldl crc_byte l (take 16 p @ drop 16 p)"
    by (simp only: foldl_append)
  moreover have "l' = combine (crc0, crc1, crc2, crc3)" "p' = p2"
    using assms(2) f by (simp_all add: Extend_strides_def Let_def 1 2)
  ultimately show ?thesis using swath_loop_eq [OF 1] word_loop_eq [OF 2] by simp
qed

section \<open>The checksum\<close>

lemma not_accelerated: "\<not> CanAccelerateCRC32C"
  by (simp add: CanAccelerateCRC32C_def AcceleratedCRC32C_def)

lemma kCRC32Xor_eq: "kCRC32Xor = - 1"
  by (simp add: kCRC32Xor_def)

lemma xor_kCRC32Xor: "x XOR kCRC32Xor = NOT x"
  by (simp add: kCRC32Xor_eq)

lemma Extend_eq: "Extend addr crc data = crc32c crc data"
proof -
  have x: "x XOR kCRC32Xor = NOT x" for x
    by (simp add: xor_kCRC32Xor)
  have s: "STEP1 = crc_byte" by (intro ext) (rule STEP1_eq)
  obtain l p where lp: "(if RoundUp4 addr - addr \<le> length data
     then (foldl STEP1 (NOT crc) (take (RoundUp4 addr - addr) data), drop (RoundUp4 addr - addr) data) else (NOT crc, data)) = (l, p)"
    by (rule prod.exhaust)
  obtain l' p' where lp': "(if length p \<ge> 16 then Extend_strides l p else (l, p)) = (l', p')" by (rule prod.exhaust)
  have "foldl crc_byte l p = foldl crc_byte (NOT crc) data"
  proof (cases "RoundUp4 addr - addr \<le> length data")
    case True
    with lp have "foldl crc_byte l p = foldl crc_byte (NOT crc) (take (RoundUp4 addr - addr) data @ drop (RoundUp4 addr - addr) data)"
      unfolding s by (simp only: foldl_append if_True) auto
    then show ?thesis by simp
  next
    case False
    with lp show ?thesis by simp
  qed
  moreover have "foldl crc_byte l' p' = foldl crc_byte l p"
    using lp' strides_eq [of p l l' p'] by (cases "length p \<ge> 16") auto
  moreover have "Extend addr crc data = NOT (foldl crc_byte l' p')"
    unfolding Extend_def x Let_def s using not_accelerated lp [unfolded s] lp' by simp
  ultimately show ?thesis by (simp add: crc32c_def)
qed

lemma Value_eq: "crc32c_Value addr data = crc32c 0 data"
  by (simp add: crc32c_Value_def Extend_eq)

text \<open>C7: the checksum of LevelDB: whatever the alignment of the data, \<open>Extend\<close> computes the CRC-32C of the bytes bit by
  bit, so that it can be continued over the parts of a string, and a masked checksum is unmasked again.\<close>

theorem crc32c_Extend_correct:
  "Extend addr crc data = crc32c crc data \<and>
   Extend addr crc (data @ more_data) = Extend addr' (Extend addr crc data) more_data \<and> Unmask (Mask crc) = crc"
  by (simp add: Extend_eq crc32c_append)

end
