(* ===== verification/LdbLog.thy ===== *)
theory LdbLog
  imports LdbCrc
begin

text \<open>
  The write-ahead log of LevelDB: \<open>db/log_format.h\<close>, \<open>db/log_writer.cc\<close> and \<open>db/log_reader.cc\<close>. A log is a sequence of
  blocks of \<open>kBlockSize\<close> bytes; a record is cut into fragments, each with a header, that do not cross the blocks. The
  file that a writer appends to and the one that a reader reads are parameters: the former may fail at any call, or not
  return, which is \<open>None\<close>.
\<close>

section \<open>Status and files\<close>

datatype status = OK | NotFound string | Corruption string | NotSupported string | InvalidArgument string | IOError string

text \<open>The operations that the log uses of a \<open>WritableFile\<close> and of a \<open>SequentialFile\<close>.\<close>

record 'f writable_ops =
  Append :: "byte list \<Rightarrow> 'f \<Rightarrow> (status \<times> 'f) option"
  Flush :: "'f \<Rightarrow> (status \<times> 'f) option"

record 'g sequential_ops =
  Read :: "nat \<Rightarrow> 'g \<Rightarrow> status \<times> byte list \<times> 'g"
  Skip :: "u64 \<Rightarrow> 'g \<Rightarrow> status \<times> 'g"

section \<open>The format\<close>

abbreviation kZeroType :: u32 where "kZeroType \<equiv> 0"
abbreviation kFullType :: u32 where "kFullType \<equiv> 1"
abbreviation kFirstType :: u32 where "kFirstType \<equiv> 2"
abbreviation kMiddleType :: u32 where "kMiddleType \<equiv> 3"
abbreviation kLastType :: u32 where "kLastType \<equiv> 4"

definition kMaxRecordType :: u32 where
  "kMaxRecordType = kLastType"

definition kBlockSize :: nat where
  "kBlockSize = 32768"

definition kHeaderSize :: nat where
  "kHeaderSize = 4 + 2 + 1"

section \<open>The writer\<close>

record 'f log_writer =
  log_dest :: 'f
  block_offset :: nat

definition type_crc :: "u32 \<Rightarrow> u32" where
  "type_crc t = crc32c_Value 0 [ucast t]"

definition log_Writer :: "'f \<Rightarrow> 'f log_writer" where
  "log_Writer dest = \<lparr>log_dest = dest, block_offset = 0\<rparr>"

definition log_Writer_at :: "'f \<Rightarrow> u64 \<Rightarrow> 'f log_writer" where
  "log_Writer_at dest dest_length = \<lparr>log_dest = dest, block_offset = unat dest_length mod kBlockSize\<rparr>"

text \<open>A fragment, whose bytes are at the address \<open>ptr\<close>.\<close>

definition EmitPhysicalRecord ::
  "'f writable_ops \<Rightarrow> u32 \<Rightarrow> nat \<Rightarrow> byte list \<Rightarrow> 'f log_writer \<Rightarrow> (status \<times> 'f log_writer) option" where
  "EmitPhysicalRecord ops t ptr data w =
     (let len = length data;
          crc = Mask (Extend ptr (type_crc t) data);
          buf = EncodeFixed32 crc @ [word_of_nat (len mod 256), word_of_nat (len div 256), ucast t];
          finish = (\<lambda>(s, dest). (s, w\<lparr>log_dest := dest, block_offset := block_offset w + (kHeaderSize + len)\<rparr>))
      in case Append ops buf (log_dest w) of
           None \<Rightarrow> None
         | Some (s, dest) \<Rightarrow>
             if s \<noteq> OK then Some (finish (s, dest))
             else (case Append ops data dest of
                     None \<Rightarrow> None
                   | Some (s, dest) \<Rightarrow>
                       if s \<noteq> OK then Some (finish (s, dest)) else map_option finish (Flush ops dest)))"

lemma Emit_offset:
  "EmitPhysicalRecord ops t ptr data w = Some (s, w') \<Longrightarrow> block_offset w' = block_offset w + kHeaderSize + length data"
  by (auto simp: EmitPhysicalRecord_def Let_def split: option.splits if_splits prod.splits)

text \<open>The switch to a new block, when a header does not fit any more; the status of the padding is not looked at.\<close>

definition new_block :: "'f writable_ops \<Rightarrow> 'f log_writer \<Rightarrow> 'f log_writer option" where
  "new_block ops w =
     (let leftover = kBlockSize - block_offset w
      in if leftover < kHeaderSize then
           (if leftover > 0 then
              (case Append ops (replicate leftover 0) (log_dest w) of
                 None \<Rightarrow> None
               | Some (s, dest) \<Rightarrow> Some (w\<lparr>log_dest := dest, block_offset := 0\<rparr>))
            else Some (w\<lparr>block_offset := 0\<rparr>))
         else Some w)"

lemma new_block_offset:
  "new_block ops w = Some w' \<Longrightarrow>
    block_offset w' = (if kBlockSize - block_offset w < kHeaderSize then 0 else block_offset w)"
  by (auto simp: new_block_def Let_def split: option.splits if_splits)

definition fragment_type :: "bool \<Rightarrow> bool \<Rightarrow> u32" where
  "fragment_type is_begin is_end =
     (if is_begin \<and> is_end then kFullType else if is_begin then kFirstType else if is_end then kLastType else kMiddleType)"

function AddRecord_loop ::
  "'f writable_ops \<Rightarrow> bool \<Rightarrow> nat \<Rightarrow> byte list \<Rightarrow> 'f log_writer \<Rightarrow> (status \<times> 'f log_writer) option" where
  "AddRecord_loop ops is_begin ptr data w =
     (case new_block ops w of
        None \<Rightarrow> None
      | Some w1 \<Rightarrow>
          (let avail = kBlockSize - block_offset w1 - kHeaderSize;
               fragment_length = (if length data < avail then length data else avail)
           in case EmitPhysicalRecord ops (fragment_type is_begin (length data = fragment_length)) ptr (take fragment_length data) w1 of
                None \<Rightarrow> None
              | Some (s, w2) \<Rightarrow>
                  if s = OK \<and> length data - fragment_length > 0
                  then AddRecord_loop ops False (ptr + fragment_length) (drop fragment_length data) w2
                  else Some (s, w2)))"
  by pat_completeness auto
termination
proof (relation "measure (\<lambda>(ops, is_begin, ptr, data, w). 2 * length data + (if block_offset w = kBlockSize - kHeaderSize then 1 else 0))")
  fix ops :: "'f writable_ops" and is_begin :: bool and ptr :: nat and data :: "byte list" and w w1 w2 :: "'f log_writer"
    and avail fragment_length :: nat and y :: "status \<times> 'f log_writer" and s :: status
  assume n: "new_block ops w = Some w1" and avail: "avail = kBlockSize - block_offset w1 - kHeaderSize"
    and len: "fragment_length = (if length data < avail then length data else avail)"
    and e: "EmitPhysicalRecord ops (fragment_type is_begin (length data = fragment_length)) ptr (take fragment_length data) w1 = Some y"
    and y: "(s, w2) = y" and more_data: "s = OK \<and> 0 < length data - fragment_length"
  have w2: "block_offset w2 = block_offset w1 + kHeaderSize + fragment_length"
    using Emit_offset [of ops _ ptr "take fragment_length data" w1 s w2] e y len by auto
  have w1: "block_offset w1 = (if kBlockSize - block_offset w < kHeaderSize then 0 else block_offset w)"
    by (rule new_block_offset [OF n])
  show "((ops, False, ptr + fragment_length, drop fragment_length data, w2), ops, is_begin, ptr, data, w) \<in>
      measure (\<lambda>(ops, is_begin, ptr, data, w). 2 * length data + (if block_offset w = kBlockSize - kHeaderSize then 1 else 0))"
  proof (cases "fragment_length = 0")
    case True
    then have "avail = 0" using len more_data by (auto split: if_splits)
    then have "block_offset w = kBlockSize - kHeaderSize" "block_offset w2 = kBlockSize"
      using avail w1 w2 True by (auto simp: kBlockSize_def kHeaderSize_def split: if_splits)
    with True show ?thesis by (simp add: kBlockSize_def kHeaderSize_def)
  next
    case False
    with more_data show ?thesis by auto
  qed
qed auto

declare AddRecord_loop.simps [simp del]

definition AddRecord ::
  "'f writable_ops \<Rightarrow> nat \<Rightarrow> byte list \<Rightarrow> 'f log_writer \<Rightarrow> (status \<times> 'f log_writer) option" where
  "AddRecord ops ptr data w = AddRecord_loop ops True ptr data w"

section \<open>The reader\<close>

text \<open>The results of \<open>ReadPhysicalRecord\<close> that are not types of records.\<close>

definition kEof :: u32 where
  "kEof = kMaxRecordType + 1"

definition kBadRecord :: u32 where
  "kBadRecord = kMaxRecordType + 2"

text \<open>The reports to the reporter, if there is one, are collected in the order in which they are made.\<close>

record 'g log_reader =
  log_file :: 'g
  reporter :: bool
  reports :: "(u64 \<times> status) list"
  checksum :: bool
  log_buffer :: "byte list"
  at_eof :: bool
  last_record_offset :: u64
  end_of_buffer_offset :: u64
  initial_offset :: u64
  resyncing :: bool

definition log_Reader :: "'g \<Rightarrow> bool \<Rightarrow> bool \<Rightarrow> u64 \<Rightarrow> 'g log_reader" where
  "log_Reader f has_reporter check offset =
     \<lparr>log_file = f, reporter = has_reporter, reports = [], checksum = check, log_buffer = [], at_eof = False,
      last_record_offset = 0, end_of_buffer_offset = 0, initial_offset = offset, resyncing = (offset > 0)\<rparr>"

abbreviation buffer_size :: "'g log_reader \<Rightarrow> u64" where
  "buffer_size r \<equiv> word_of_nat (length (log_buffer r))"

text \<open>The comparison is one of unsigned numbers, which may have wrapped around.\<close>

definition ReportDrop :: "u64 \<Rightarrow> status \<Rightarrow> 'g log_reader \<Rightarrow> 'g log_reader" where
  "ReportDrop bytes reason r =
     (if reporter r \<and> end_of_buffer_offset r - buffer_size r - bytes \<ge> initial_offset r
      then r\<lparr>reports := reports r @ [(bytes, reason)]\<rparr> else r)"

definition ReportCorruption :: "u64 \<Rightarrow> string \<Rightarrow> 'g log_reader \<Rightarrow> 'g log_reader" where
  "ReportCorruption bytes reason = ReportDrop bytes (Corruption reason)"

definition SkipToInitialBlock :: "'g sequential_ops \<Rightarrow> 'g log_reader \<Rightarrow> bool \<times> 'g log_reader" where
  "SkipToInitialBlock ops r =
     (let offset_in_block = initial_offset r mod word_of_nat kBlockSize;
          block_start_location = initial_offset r - offset_in_block;
          block_start_location =
            (if offset_in_block > word_of_nat kBlockSize - 6 then block_start_location + word_of_nat kBlockSize
             else block_start_location);
          r = r\<lparr>end_of_buffer_offset := block_start_location\<rparr>
      in if block_start_location > 0 then
           (case Skip ops block_start_location (log_file r) of
              (skip_status, f) \<Rightarrow>
                let r = r\<lparr>log_file := f\<rparr>
                in if skip_status \<noteq> OK then (False, ReportDrop block_start_location skip_status r) else (True, r))
         else (True, r))"

text \<open>The test of a header at the front of the buffer and what follows, with the fragment that is the result.\<close>

definition parse_header :: "byte list \<Rightarrow> 'g log_reader \<Rightarrow> u32 \<times> byte list \<times> 'g log_reader" where
  "parse_header fragment r =
     (let header = log_buffer r;
          a = ucast (header ! 4) AND 0xFF :: u32;
          b = ucast (header ! 5) AND 0xFF :: u32;
          t = scast (header ! 6) :: u32;
          len = a OR push_bit 8 b
      in if kHeaderSize + unat len > length header then
           (let drop_size = buffer_size r; r = r\<lparr>log_buffer := []\<rparr>
            in if \<not> at_eof r then (kBadRecord, fragment, ReportCorruption drop_size ''bad record length'' r)
               else (kEof, fragment, r))
         else if t = kZeroType \<and> len = 0 then (kBadRecord, fragment, r\<lparr>log_buffer := []\<rparr>)
         else if checksum r \<and> crc32c_Value 0 (take (1 + unat len) (drop 6 header)) \<noteq> Unmask (DecodeFixed32 header) then
           (let drop_size = buffer_size r; r = r\<lparr>log_buffer := []\<rparr>
            in (kBadRecord, fragment, ReportCorruption drop_size ''checksum mismatch'' r))
         else
           (let r = r\<lparr>log_buffer := drop (kHeaderSize + unat len) header\<rparr>
            in if end_of_buffer_offset r - buffer_size r - word_of_nat kHeaderSize - ucast len < initial_offset r
               then (kBadRecord, [], r)
               else (t, take (unat len) (drop kHeaderSize header), r)))"

function ReadPhysicalRecord ::
  "'g sequential_ops \<Rightarrow> byte list \<Rightarrow> 'g log_reader \<Rightarrow> u32 \<times> byte list \<times> 'g log_reader" where
  "ReadPhysicalRecord ops fragment r =
     (if length (log_buffer r) < kHeaderSize then
        (if \<not> at_eof r then
           (case Read ops kBlockSize (log_file r) of
              (s, buf, f) \<Rightarrow>
                let r = r\<lparr>log_file := f, log_buffer := buf, end_of_buffer_offset := end_of_buffer_offset r + word_of_nat (length buf)\<rparr>
                in if s \<noteq> OK then
                     (kEof, fragment,
                      (ReportDrop (word_of_nat kBlockSize) s (r\<lparr>log_buffer := []\<rparr>))\<lparr>at_eof := True\<rparr>)
                   else if length buf < kBlockSize then ReadPhysicalRecord ops fragment (r\<lparr>at_eof := True\<rparr>)
                   else ReadPhysicalRecord ops fragment r)
         else (kEof, fragment, r\<lparr>log_buffer := []\<rparr>))
      else parse_header fragment r)"
  by pat_completeness auto
termination
  by (relation "measure (\<lambda>(ops, fragment, r). if length (log_buffer r) < kHeaderSize \<and> \<not> at_eof r then 1 else 0)")
    (auto simp: kBlockSize_def kHeaderSize_def)

declare ReadPhysicalRecord.simps [simp del]

function decimal_string :: "nat \<Rightarrow> string" where
  "decimal_string n =
     (if n < 10 then [char_of (48 + n)] else decimal_string (n div 10) @ [char_of (48 + n mod 10)])"
  by pat_completeness auto
termination by (relation "measure id") auto

text \<open>The local variables of \<open>ReadRecord\<close>, and its loop. The result is that of the function with the record.\<close>

record read_vars =
  in_fragmented_record :: bool
  prospective_record_offset :: u64
  fragment :: "byte list"
  scratch :: "byte list"

datatype read_step = Return bool "byte list" | Continue

definition partial_record :: "read_vars \<Rightarrow> string \<Rightarrow> 'g log_reader \<Rightarrow> 'g log_reader" where
  "partial_record v reason r =
     (if in_fragmented_record v \<and> scratch v \<noteq> [] then ReportCorruption (word_of_nat (length (scratch v))) reason r else r)"

text \<open>The \<open>switch\<close> on the type of a physical record at an offset.\<close>

definition handle_record ::
  "u32 \<Rightarrow> u64 \<Rightarrow> read_vars \<Rightarrow> 'g log_reader \<Rightarrow> read_step \<times> read_vars \<times> 'g log_reader" where
  "handle_record record_type offset v r =
     (let fragment_size = word_of_nat (length (fragment v)) :: u64
      in if record_type = kFullType then
           (let r = partial_record v ''partial record without end(1)'' r
            in (Return True (fragment v), v\<lparr>prospective_record_offset := offset, scratch := []\<rparr>,
                r\<lparr>last_record_offset := offset\<rparr>))
         else if record_type = kFirstType then
           (let r = partial_record v ''partial record without end(2)'' r
            in (Continue, v\<lparr>prospective_record_offset := offset, scratch := fragment v, in_fragmented_record := True\<rparr>, r))
         else if record_type = kMiddleType then
           (if \<not> in_fragmented_record v
            then (Continue, v, ReportCorruption fragment_size ''missing start of fragmented record(1)'' r)
            else (Continue, v\<lparr>scratch := scratch v @ fragment v\<rparr>, r))
         else if record_type = kLastType then
           (if \<not> in_fragmented_record v
            then (Continue, v, ReportCorruption fragment_size ''missing start of fragmented record(2)'' r)
            else (Return True (scratch v @ fragment v), v\<lparr>scratch := scratch v @ fragment v\<rparr>,
                  r\<lparr>last_record_offset := prospective_record_offset v\<rparr>))
         else if record_type = kEof then
           (Return False [], (if in_fragmented_record v then v\<lparr>scratch := []\<rparr> else v), r)
         else if record_type = kBadRecord then
           (if in_fragmented_record v
            then (Continue, v\<lparr>in_fragmented_record := False, scratch := []\<rparr>,
                  ReportCorruption (word_of_nat (length (scratch v))) ''error in middle of record'' r)
            else (Continue, v, r))
         else
           (Continue, v\<lparr>in_fragmented_record := False, scratch := []\<rparr>,
            ReportCorruption (fragment_size + (if in_fragmented_record v then word_of_nat (length (scratch v)) else 0))
              (''unknown record type '' @ decimal_string (unat record_type)) r))"

partial_function (option) ReadRecord_loop ::
  "'g sequential_ops \<Rightarrow> read_vars \<Rightarrow> 'g log_reader \<Rightarrow> (bool \<times> byte list \<times> 'g log_reader) option" where
  "ReadRecord_loop ops v r =
     (case ReadPhysicalRecord ops (fragment v) r of
        (record_type, frag, r) \<Rightarrow>
          let v = v\<lparr>fragment := frag\<rparr>;
              offset = end_of_buffer_offset r - buffer_size r - word_of_nat kHeaderSize - word_of_nat (length frag)
          in if resyncing r \<and> record_type = kMiddleType then ReadRecord_loop ops v r
             else if resyncing r \<and> record_type = kLastType then ReadRecord_loop ops v (r\<lparr>resyncing := False\<rparr>)
             else
               (case handle_record record_type offset v (r\<lparr>resyncing := False\<rparr>) of
                  (Return b rec, _, r) \<Rightarrow> Some (b, rec, r)
                | (Continue, v, r) \<Rightarrow> ReadRecord_loop ops v r))"

definition ReadRecord :: "'g sequential_ops \<Rightarrow> 'g log_reader \<Rightarrow> (bool \<times> byte list \<times> 'g log_reader) option" where
  "ReadRecord ops r =
     (case (if last_record_offset r < initial_offset r then SkipToInitialBlock ops r else (True, r)) of
        (False, r) \<Rightarrow> Some (False, [], r)
      | (True, r) \<Rightarrow>
          ReadRecord_loop ops \<lparr>in_fragmented_record = False, prospective_record_offset = 0, fragment = [], scratch = []\<rparr> r)"

definition LastRecordOffset :: "'g log_reader \<Rightarrow> u64" where
  "LastRecordOffset r = last_record_offset r"

end
