(* ===== verification/LdbLogSpec.thy ===== *)
theory LdbLogSpec
  imports LdbLog "HOL-Library.Sublist"
begin

text \<open>
  What the log promises: the bytes that the writer appends for a sequence of records, and that the reader gets the
  records back out of them, and out of every part of them that a crash leaves, the records that are complete.
\<close>

section \<open>The bytes of a record\<close>

definition physical :: "u32 \<Rightarrow> byte list \<Rightarrow> byte list" where
  "physical t data =
     EncodeFixed32 (Mask (crc32c 0 (ucast t # data))) @
     [word_of_nat (length data mod 256), word_of_nat (length data div 256), ucast t] @ data"

lemma length_physical [simp]: "length (physical t data) = kHeaderSize + length data"
  by (simp add: physical_def kHeaderSize_def)

definition padding :: "nat \<Rightarrow> byte list" where
  "padding offset = (if kBlockSize - offset < kHeaderSize then replicate (kBlockSize - offset) 0 else [])"

definition block_start :: "nat \<Rightarrow> nat" where
  "block_start offset = (if kBlockSize - offset < kHeaderSize then 0 else offset)"

text \<open>How much of a record of length \<open>n\<close> goes into the block.\<close>

definition room :: "nat \<Rightarrow> nat \<Rightarrow> nat" where
  "room offset n = min n (kBlockSize - block_start offset - kHeaderSize)"

function record_bytes :: "bool \<Rightarrow> nat \<Rightarrow> byte list \<Rightarrow> byte list \<times> nat" where
  "record_bytes first offset data =
     (let n = room offset (length data);
          here = padding offset @ physical (fragment_type first (length data = n)) (take n data);
          offset' = block_start offset + kHeaderSize + n
      in if length data > n then (case record_bytes False offset' (drop n data) of (bs, offset'') \<Rightarrow> (here @ bs, offset''))
         else (here, offset'))"
  by pat_completeness auto
termination
proof (relation "measure (\<lambda>(first, offset, data). 2 * length data + (if offset = kBlockSize - kHeaderSize then 1 else 0))")
  fix first :: bool and offset n offset' :: nat and data here :: "byte list"
  assume n: "n = room offset (length data)" and o: "offset' = block_start offset + kHeaderSize + n" and l: "length data > n"
  show "((False, offset', drop n data), first, offset, data) \<in>
      measure (\<lambda>(first, offset, data). 2 * length data + (if offset = kBlockSize - kHeaderSize then 1 else 0))"
  proof (cases "n = 0")
    case True
    then show ?thesis using n o l
      by (auto simp: room_def block_start_def kBlockSize_def kHeaderSize_def min_def split: if_splits)
  next
    case False
    with l show ?thesis by auto
  qed
qed simp

declare record_bytes.simps [simp del]

fun log_bytes :: "nat \<Rightarrow> byte list list \<Rightarrow> byte list" where
  "log_bytes offset [] = []"
| "log_bytes offset (data # records) =
     fst (record_bytes True offset data) @ log_bytes (snd (record_bytes True offset data)) records"

lemma room_le: "room offset n \<le> n" and room_block: "block_start offset + kHeaderSize + room offset n \<le> max kBlockSize offset"
  by (auto simp: room_def block_start_def kBlockSize_def kHeaderSize_def)

section \<open>A physical record in the buffer\<close>

lemma record_type_byte: "t \<in> {1, 2, 3, 4} \<Longrightarrow> scast (ucast t :: byte) = (t :: u32)"
  by auto

lemma length_bytes:
  assumes "n < 65536"
  shows "(ucast (word_of_nat (n mod 256) :: byte) AND 0xFF) OR push_bit 8 (ucast (word_of_nat (n div 256) :: byte) AND 0xFF) = (word_of_nat n :: u32)"
proof -
  have d: "n div 256 < 256" using assms by (simp add: less_mult_imp_div_less)
  have b: "(ucast (word_of_nat k :: byte) AND 0xFF :: u32) = word_of_nat k" if "k < 256" for k
  proof -
    have "(ucast (word_of_nat k :: byte) :: u32) = word_of_nat (unat (word_of_nat k :: byte))" by simp
    also have "\<dots> = word_of_nat k" using unat_byte_of_nat [OF that] by simp
    finally have "(ucast (word_of_nat k :: byte) :: u32) = word_of_nat k" .
    moreover have "(word_of_nat k :: u32) AND 0xFF = take_bit 8 (word_of_nat k)" by (simp add: take_bit_eq_mask mask_eq_exp_minus_1)
    moreover have "take_bit 8 (word_of_nat k :: u32) = word_of_nat k" using that by (intro take_bit_word_self) (simp add: unat_of_nat)
    ultimately show ?thesis by simp
  qed
  have "unat (word_of_nat (n mod 256) :: u32) < 2 ^ 8" by (simp add: unat_of_nat)
  note p = push_bit_or_small [OF this, of "word_of_nat (n div 256)"]
  have "(word_of_nat (n div 256) * 2 ^ 8 + word_of_nat (n mod 256) :: u32) = word_of_nat (n div 256 * 2 ^ 8 + n mod 256)"
    by (simp only: of_nat_add of_nat_mult of_nat_power of_nat_numeral)
  also have "n div 256 * 2 ^ 8 + n mod 256 = n" by simp
  finally have "push_bit 8 (word_of_nat (n div 256)) OR word_of_nat (n mod 256) = (word_of_nat n :: u32)" using p by simp
  then show ?thesis using b [of "n mod 256"] b [OF d] by (simp add: or.commute)
qed

lemma header_fields:
  assumes "length data < 65536"
  shows "physical t data ! 6 = ucast t"
    and "(ucast (physical t data ! 4) AND 0xFF) OR push_bit 8 (ucast (physical t data ! 5) AND 0xFF) = (word_of_nat (length data) :: u32)"
    and "unat (word_of_nat (length data) :: u32) = length data"
proof -
  let ?c = "EncodeFixed32 (Mask (crc32c 0 (ucast t # data)))"
  have n: "physical t data ! (4 + k) = ([word_of_nat (length data mod 256), word_of_nat (length data div 256), ucast t] @ data) ! k" for k
    unfolding physical_def using nth_append_length_plus [of ?c _ k] by simp
  show "physical t data ! 6 = ucast t" using n [of 2] by simp
  have "physical t data ! 4 = word_of_nat (length data mod 256)" "physical t data ! 5 = word_of_nat (length data div 256)"
    using n [of 0] n [of 1] by simp_all
  then show "(ucast (physical t data ! 4) AND 0xFF) OR push_bit 8 (ucast (physical t data ! 5) AND 0xFF) = (word_of_nat (length data) :: u32)"
    using length_bytes [OF assms] by simp
  show "unat (word_of_nat (length data) :: u32) = length data" using assms by (simp add: unat_of_nat)
qed

lemma parse_whole:
  assumes buf: "log_buffer r = physical t data @ rest" and len: "length data < 65536" and t: "t \<in> {1, 2, 3, 4}"
    and start: "initial_offset r = 0"
  shows "parse_header frag r = (t, data, r\<lparr>log_buffer := rest\<rparr>)"
proof -
  note f = header_fields [OF len]
  have n: "log_buffer r ! k = physical t data ! k" if "k < 7" for k
    using that unfolding buf by (simp add: nth_append kHeaderSize_def)
  have c: "take (1 + length data) (drop 6 (log_buffer r)) = ucast t # data"
    unfolding buf by (simp add: physical_def)
  have u: "Unmask (DecodeFixed32 (log_buffer r)) = crc32c 0 (ucast t # data)" unfolding buf by (simp add: physical_def)
  have d: "drop (kHeaderSize + length data) (log_buffer r) = rest" unfolding buf by simp
  have d': "take (length data) (drop kHeaderSize (log_buffer r)) = data" unfolding buf by (simp add: physical_def kHeaderSize_def)
  have s: "scast (physical t data ! 6) = t" unfolding f(1) by (rule record_type_byte [OF t])
  have l: "kHeaderSize + length data \<le> length (log_buffer r)" unfolding buf by simp
  have z: "t \<noteq> 0" using t by auto
  show ?thesis
    unfolding parse_header_def Let_def n [of 4, simplified] n [of 5, simplified] n [of 6, simplified] f(2) f(3) s c u d d' Value_eq
    using l z start by simp
qed

lemma parse_part:
  assumes buf: "log_buffer r @ missing = physical t data" and m: "missing \<noteq> []" and h: "kHeaderSize \<le> length (log_buffer r)"
    and len: "length data < 65536" and e: "at_eof r"
  shows "parse_header frag r = (kEof, frag, r\<lparr>log_buffer := []\<rparr>)"
proof -
  note f = header_fields [OF len]
  have n: "log_buffer r ! k = physical t data ! k" if "k < 7" for k
    using that h unfolding buf [symmetric] by (simp add: nth_append kHeaderSize_def)
  have "length (log_buffer r) + length missing = kHeaderSize + length data" using arg_cong [OF buf, of length] by simp
  then have l: "length (log_buffer r) < kHeaderSize + length data" using m by (cases missing) auto
  show ?thesis
    unfolding parse_header_def Let_def n [of 4, simplified] n [of 5, simplified] n [of 6, simplified] f(2) f(3)
    using l e by simp
qed

section \<open>The position of the reader\<close>

text \<open>A file that delivers what is left of it, as regular files do.\<close>

definition reads_file :: "'g sequential_ops \<Rightarrow> ('g \<Rightarrow> byte list) \<Rightarrow> bool" where
  "reads_file ops rest \<longleftrightarrow> (\<forall>n f. \<exists>f'. Read ops n f = (OK, take n (rest f), f') \<and> rest f' = drop n (rest f))"

definition next_block :: "nat \<Rightarrow> nat" where
  "next_block pos = (pos + (kBlockSize - 1)) div kBlockSize * kBlockSize"

text \<open>The reader has taken \<open>pos\<close> of the bytes \<open>D\<close>, from the start, and has the rest of the block in its buffer.\<close>

definition at_position :: "('g \<Rightarrow> byte list) \<Rightarrow> byte list \<Rightarrow> nat \<Rightarrow> 'g log_reader \<Rightarrow> bool" where
  "at_position rest D pos r \<longleftrightarrow>
     log_buffer r = drop pos (take (next_block pos) D) \<and> rest (log_file r) = drop (next_block pos) D \<and>
     (at_eof r \<longleftrightarrow> length D < next_block pos) \<and> pos \<le> length D \<and> initial_offset r = 0 \<and> \<not> resyncing r"

lemma next_block_bounds: "pos \<le> next_block pos" "next_block pos < pos + kBlockSize" "next_block pos mod kBlockSize = 0"
  "next_block (next_block pos) = next_block pos"
proof -
  have "(pos + 32767) div 32768 * 32768 + (pos + 32767) mod 32768 = pos + 32767" by (rule div_mult_mod_eq)
  moreover have "(pos + 32767) mod 32768 < 32768" by simp
  ultimately have "pos \<le> (pos + 32767) div 32768 * 32768" "(pos + 32767) div 32768 * 32768 < pos + 32768" by linarith+
  then show "pos \<le> next_block pos" "next_block pos < pos + kBlockSize" by (simp_all add: next_block_def kBlockSize_def)
  show "next_block pos mod kBlockSize = 0" "next_block (next_block pos) = next_block pos" by (simp_all add: next_block_def kBlockSize_def)
qed

lemma next_block_eq:
  assumes "b mod kBlockSize = 0" and "pos \<le> b" and "b < pos + kBlockSize"
  shows "next_block pos = b"
proof -
  obtain k where b: "b = k * 32768" using assms(1) by (auto simp: kBlockSize_def mod_eq_0_iff_dvd dvd_def mult.commute)
  have "(pos + 32767) div 32768 = k"
    using assms(2,3) unfolding b kBlockSize_def by (intro div_nat_eqI) simp_all
  then show ?thesis by (simp add: next_block_def kBlockSize_def b)
qed

text \<open>What is left of the block, and the zeros in front of the next header.\<close>

definition gap :: "nat \<Rightarrow> byte list" where
  "gap pos = (if next_block pos - pos < kHeaderSize then replicate (next_block pos - pos) 0 else [])"

definition fits :: "nat \<Rightarrow> nat \<Rightarrow> bool" where
  "fits pos n \<longleftrightarrow> kHeaderSize + n \<le> (if next_block pos - pos < kHeaderSize then kBlockSize else next_block pos - pos)"

lemma after_physical:
  assumes "fits pos n"
  shows "next_block (pos + length (gap pos) + (kHeaderSize + n)) =
    (if next_block pos - pos < kHeaderSize then next_block pos + kBlockSize else next_block pos)"
proof (rule next_block_eq)
  note b = next_block_bounds [of pos]
  show "(if next_block pos - pos < kHeaderSize then next_block pos + kBlockSize else next_block pos) mod kBlockSize = 0"
    using b(3) by simp
  show "pos + length (gap pos) + (kHeaderSize + n) \<le> (if next_block pos - pos < kHeaderSize then next_block pos + kBlockSize else next_block pos)"
    using assms b(1,2) by (auto simp: fits_def gap_def)
  show "(if next_block pos - pos < kHeaderSize then next_block pos + kBlockSize else next_block pos)
      < pos + length (gap pos) + (kHeaderSize + n) + kBlockSize"
    using assms b(1,2) by (auto simp: fits_def gap_def kHeaderSize_def)
qed

lemma read_next_block:
  assumes f: "reads_file ops rest" and at: "at_position rest D pos r" and small: "next_block pos - pos < kHeaderSize"
    and more_data: "next_block pos \<le> length D"
  obtains r' where "ReadPhysicalRecord ops frag r = ReadPhysicalRecord ops frag r'"
    and "log_buffer r' = take kBlockSize (drop (next_block pos) D)" and "rest (log_file r') = drop (next_block pos + kBlockSize) D"
    and "at_eof r' \<longleftrightarrow> length D < next_block pos + kBlockSize" and "initial_offset r' = 0" and "\<not> resyncing r'"
    and "reports r' = reports r"
proof -
  note at' = at [unfolded at_position_def]
  obtain f' where f': "Read ops kBlockSize (log_file r) = (OK, take kBlockSize (rest (log_file r)), f')"
    "rest f' = drop kBlockSize (rest (log_file r))" using f unfolding reads_file_def by blast
  let ?buf = "take kBlockSize (drop (next_block pos) D)"
  define r1 where "r1 = r\<lparr>log_file := f', log_buffer := ?buf, end_of_buffer_offset := end_of_buffer_offset r + word_of_nat (length ?buf)\<rparr>"
  have "length (log_buffer r) \<le> next_block pos - pos" using at' by auto
  then have small': "length (log_buffer r) < kHeaderSize" using small by simp
  have e: "\<not> at_eof r" using at' more_data by simp
  have R: "ReadPhysicalRecord ops frag r =
      (if length ?buf < kBlockSize then ReadPhysicalRecord ops frag (r1\<lparr>at_eof := True\<rparr>) else ReadPhysicalRecord ops frag r1)"
    using small' e f'(1) at' by (simp add: ReadPhysicalRecord.simps [of ops frag r] r1_def Let_def)
  have len: "length ?buf < kBlockSize \<longleftrightarrow> length D < next_block pos + kBlockSize" using more_data by auto
  show thesis
  proof (rule that)
    let ?r = "if length ?buf < kBlockSize then r1\<lparr>at_eof := True\<rparr> else r1"
    show "ReadPhysicalRecord ops frag r = ReadPhysicalRecord ops frag ?r" unfolding R by simp
    show "log_buffer ?r = ?buf" by (simp add: r1_def)
    show "rest (log_file ?r) = drop (next_block pos + kBlockSize) D" using f'(2) at' by (simp add: r1_def add.commute)
    show "at_eof ?r \<longleftrightarrow> length D < next_block pos + kBlockSize" using len e by (simp add: r1_def)
    show "initial_offset ?r = 0" "\<not> resyncing ?r" "reports ?r = reports r" using at' by (simp_all add: r1_def)
  qed
qed

lemma ReadPhysicalRecord_header: "kHeaderSize \<le> length (log_buffer r) \<Longrightarrow> ReadPhysicalRecord ops frag r = parse_header frag r"
  by (simp add: ReadPhysicalRecord.simps [of ops frag r])

lemma ReadPhysicalRecord_eof:
  "length (log_buffer r) < kHeaderSize \<Longrightarrow> at_eof r \<Longrightarrow> ReadPhysicalRecord ops frag r = (kEof, frag, r\<lparr>log_buffer := []\<rparr>)"
  by (simp add: ReadPhysicalRecord.simps [of ops frag r])

text \<open>A physical record that is there, and one that is cut off.\<close>

lemma read_physical:
  assumes f: "reads_file ops rest" and at: "at_position rest D pos r" and D: "drop pos D = gap pos @ physical t data @ Y"
    and n: "fits pos (length data)" and t: "t \<in> {1, 2, 3, 4}"
  obtains r' where "ReadPhysicalRecord ops frag r = (t, data, r')" and "reports r' = reports r"
    and "at_position rest D (pos + length (gap pos) + (kHeaderSize + length data)) r'"
proof -
  note at' = at [unfolded at_position_def]
  let ?b = "next_block pos" and ?pos' = "pos + length (gap pos) + (kHeaderSize + length data)"
  note b = next_block_bounds [of pos]
  have small: "length data < 65536" using n b(2) by (auto simp: fits_def kBlockSize_def kHeaderSize_def split: if_splits)
  have lenD: "length D = ?pos' + length Y"
  proof -
    have "length D - pos = length (gap pos) + (kHeaderSize + length data) + length Y" using arg_cong [OF D, of length] by simp
    then show ?thesis using at' by linarith
  qed
  have Y: "drop ?pos' D = Y"
  proof -
    have "drop ?pos' D = drop (length (gap pos) + (kHeaderSize + length data)) (drop pos D)" by (simp add: add.commute add.left_commute)
    then show ?thesis unfolding D by simp
  qed
  show thesis
  proof (cases "?b - pos < kHeaderSize")
    case True
    have g: "pos + length (gap pos) = ?b" using True b(1) by (simp add: gap_def)
    obtain r1 where r1: "ReadPhysicalRecord ops frag r = ReadPhysicalRecord ops frag r1"
      "log_buffer r1 = take kBlockSize (drop ?b D)" "rest (log_file r1) = drop (?b + kBlockSize) D"
      "at_eof r1 \<longleftrightarrow> length D < ?b + kBlockSize" "initial_offset r1 = 0" "\<not> resyncing r1" "reports r1 = reports r"
      using read_next_block [OF f at True, of frag] lenD g by auto
    have "drop ?b D = physical t data @ Y"
      using arg_cong [OF D, of "drop (length (gap pos))"] g by (simp add: add.commute)
    then have buf: "log_buffer r1 = physical t data @ take (kBlockSize - (kHeaderSize + length data)) Y"
      using n True unfolding r1(2) by (simp add: fits_def)
    have run: "ReadPhysicalRecord ops frag r = (t, data, r1\<lparr>log_buffer := take (kBlockSize - (kHeaderSize + length data)) Y\<rparr>)"
      unfolding r1(1) using ReadPhysicalRecord_header [of r1] parse_whole [OF buf small t r1(5)] buf by simp
    have nb: "next_block ?pos' = ?b + kBlockSize" using after_physical [OF n] True by simp
    have "take (kBlockSize - (kHeaderSize + length data)) Y = drop ?pos' (take (?b + kBlockSize) D)"
      unfolding drop_take Y using g by (intro arg_cong2 [where f = take]) auto
    then have "at_position rest D ?pos' (r1\<lparr>log_buffer := take (kBlockSize - (kHeaderSize + length data)) Y\<rparr>)"
      using r1 lenD unfolding at_position_def nb by simp
    with run r1(7) show ?thesis by (intro that) simp_all
  next
    case False
    then have g: "gap pos = []" by (simp add: gap_def)
    have "log_buffer r = take (?b - pos) (physical t data @ Y)" using at' D unfolding g by (simp add: drop_take)
    then have buf: "log_buffer r = physical t data @ take (?b - pos - (kHeaderSize + length data)) Y"
      using n False by (simp add: fits_def)
    have start: "initial_offset r = 0" using at' by simp
    have run: "ReadPhysicalRecord ops frag r = (t, data, r\<lparr>log_buffer := take (?b - pos - (kHeaderSize + length data)) Y\<rparr>)"
      using ReadPhysicalRecord_header [of r] parse_whole [OF buf small t start] buf by simp
    have nb: "next_block ?pos' = ?b" using after_physical [OF n] False by simp
    have "take (?b - pos - (kHeaderSize + length data)) Y = drop ?pos' (take ?b D)"
      unfolding drop_take Y using g by (intro arg_cong2 [where f = take]) auto
    then have "at_position rest D ?pos' (r\<lparr>log_buffer := take (?b - pos - (kHeaderSize + length data)) Y\<rparr>)"
      using at' lenD unfolding at_position_def nb by simp
    with run show ?thesis by (intro that) simp_all
  qed
qed

lemma read_cut:
  assumes f: "reads_file ops rest" and at: "at_position rest D pos r"
    and D: "drop pos D @ missing = gap pos @ physical t data" and m: "missing \<noteq> []" and n: "fits pos (length data)"
  obtains r' where "ReadPhysicalRecord ops frag r = (kEof, frag, r')" and "reports r' = reports r" and "\<not> resyncing r'"
proof -
  note at' = at [unfolded at_position_def]
  let ?b = "next_block pos"
  note b = next_block_bounds [of pos]
  have small: "length data < 65536" using n b(2) by (auto simp: fits_def kBlockSize_def kHeaderSize_def split: if_splits)
  have lenD: "length D < pos + length (gap pos) + (kHeaderSize + length data)"
  proof -
    have "length D - pos + length missing = length (gap pos) + (kHeaderSize + length data)" using arg_cong [OF D, of length] by simp
    then show ?thesis using at' m by (cases missing) auto
  qed
  have cut: "\<exists>r'. ReadPhysicalRecord ops frag r1 = (kEof, frag, r') \<and> reports r' = reports r1 \<and> \<not> resyncing r'"
    if e: "at_eof r1" "\<not> resyncing r1" and buf: "log_buffer r1 @ missing = physical t data" for r1
  proof (cases "kHeaderSize \<le> length (log_buffer r1)")
    case True
    then show ?thesis using ReadPhysicalRecord_header [OF True] parse_part [OF buf m True small e(1)] e(2) by simp
  next
    case False
    then show ?thesis using ReadPhysicalRecord_eof [of r1 ops frag] e by simp
  qed
  show thesis
  proof (cases "?b - pos < kHeaderSize")
    case True
    have g: "pos + length (gap pos) = ?b" using True b(1) by (simp add: gap_def)
    show thesis
    proof (cases "?b \<le> length D")
      case more: True
      obtain r1 where r1: "ReadPhysicalRecord ops frag r = ReadPhysicalRecord ops frag r1"
        "log_buffer r1 = take kBlockSize (drop ?b D)" "at_eof r1 \<longleftrightarrow> length D < ?b + kBlockSize" "\<not> resyncing r1" "reports r1 = reports r"
        using read_next_block [OF f at True more, of frag] by auto
      have "length D < ?b + kBlockSize" using lenD n True g by (simp add: fits_def)
      moreover have "drop ?b D @ missing = physical t data"
        using arg_cong [OF D, of "drop (length (gap pos))"] g more by (simp add: add.commute)
      ultimately obtain r' where "ReadPhysicalRecord ops frag r1 = (kEof, frag, r')" "reports r' = reports r1" "\<not> resyncing r'"
        using cut [of r1] r1 by auto
      with r1(1,5) show thesis by (intro that [of r']) simp_all
    next
      case False
      have "length (log_buffer r) \<le> ?b - pos" using at' by auto
      then have "length (log_buffer r) < kHeaderSize" using True by simp
      then show thesis using ReadPhysicalRecord_eof [of r ops frag] at' False by (intro that [of "r\<lparr>log_buffer := []\<rparr>"]) simp_all
    qed
  next
    case False
    then have g: "gap pos = []" by (simp add: gap_def)
    have "kHeaderSize + length data \<le> ?b - pos" using n False by (simp add: fits_def)
    then have l: "length D < ?b" using lenD g False by (simp add: kHeaderSize_def)
    then have "log_buffer r @ missing = physical t data" using at' D g by simp
    then obtain r' where "ReadPhysicalRecord ops frag r = (kEof, frag, r')" "reports r' = reports r" "\<not> resyncing r'"
      using cut [of r] at' l by auto
    then show thesis by (rule that)
  qed
qed

section \<open>Whole records\<close>

text \<open>The offset of the writer in its block and the position of the reader.\<close>

definition same_place :: "nat \<Rightarrow> nat \<Rightarrow> bool" where
  "same_place offset pos \<longleftrightarrow> offset \<le> kBlockSize \<and> offset mod kBlockSize = pos mod kBlockSize"

lemma same_place_gap:
  assumes "same_place offset pos"
  shows "padding offset = gap pos" and "n \<le> room offset n' \<Longrightarrow> fits pos n"
    and "same_place (block_start offset + kHeaderSize + room offset n') (pos + length (gap pos) + (kHeaderSize + room offset n'))"
proof -
  note b = next_block_bounds [of pos]
  have left: "if offset = 0 \<or> offset = kBlockSize then next_block pos = pos else next_block pos - pos = kBlockSize - offset \<and> pos < next_block pos"
  proof (cases "offset = 0 \<or> offset = kBlockSize")
    case True
    then have "pos mod kBlockSize = 0" using assms by (auto simp: same_place_def)
    then have "next_block pos = pos" by (intro next_block_eq) (simp_all add: kBlockSize_def)
    with True show ?thesis by simp
  next
    case False
    then have o: "0 < offset" "offset < kBlockSize" "pos mod kBlockSize = offset" using assms by (auto simp: same_place_def)
    have "next_block pos = pos + (kBlockSize - offset)"
    proof (rule next_block_eq)
      have "pos + (kBlockSize - offset) = pos div kBlockSize * kBlockSize + kBlockSize"
        using o div_mult_mod_eq [of pos kBlockSize] by linarith
      then show "(pos + (kBlockSize - offset)) mod kBlockSize = 0" by simp
    qed (use o in auto)
    with False o show ?thesis by simp
  qed
  show "padding offset = gap pos" using left by (auto simp: padding_def gap_def kHeaderSize_def kBlockSize_def split: if_splits)
  show "n \<le> room offset n' \<Longrightarrow> fits pos n"
    using left by (auto simp: fits_def room_def block_start_def kHeaderSize_def kBlockSize_def split: if_splits)
  show "same_place (block_start offset + kHeaderSize + room offset n') (pos + length (gap pos) + (kHeaderSize + room offset n'))"
  proof (cases "kBlockSize - offset < kHeaderSize")
    case True
    then have g: "pos + length (gap pos) = next_block pos" "block_start offset = 0"
      using left b(1) by (auto simp: gap_def block_start_def kHeaderSize_def kBlockSize_def split: if_splits)
    have "(next_block pos + (kHeaderSize + room offset n')) mod kBlockSize = (kHeaderSize + room offset n') mod kBlockSize"
      using b(3) by (metis add.left_neutral mod_add_left_eq)
    moreover have "kHeaderSize + room offset n' \<le> kBlockSize" using g(2) by (auto simp: room_def kHeaderSize_def kBlockSize_def)
    ultimately show ?thesis unfolding g same_place_def by simp
  next
    case False
    then have g: "gap pos = []" "block_start offset = offset"
      using left by (auto simp: gap_def block_start_def kHeaderSize_def kBlockSize_def split: if_splits)
    have "offset + kHeaderSize + room offset n' \<le> kBlockSize" using False g(2) by (auto simp: room_def kHeaderSize_def)
    moreover have "(pos + (kHeaderSize + room offset n')) mod kBlockSize = (offset + kHeaderSize + room offset n') mod kBlockSize"
      using assms unfolding same_place_def add.assoc by (intro mod_add_cong) simp_all
    ultimately show ?thesis unfolding g same_place_def by simp
  qed
qed

lemma fragment_types: "fragment_type b e \<in> {1, 2, 3, 4}"
  by (simp add: fragment_type_def)

lemma types_distinct: "kEof = 5" "kBadRecord = 6"
  by (simp_all add: kEof_def kBadRecord_def kMaxRecordType_def)

text \<open>One turn of the loop on a fragment of a record.\<close>

lemma loop_fragment:
  assumes run: "ReadPhysicalRecord ops (fragment v) r = (fragment_type first final, data, r')" and r': "\<not> resyncing r'"
    and v: "in_fragmented_record v \<longleftrightarrow> \<not> first"
  obtains v' r'' where "ReadRecord_loop ops v r = (if final then Some (True, (if first then data else scratch v @ data), r'')
      else ReadRecord_loop ops v' r'')"
    and "in_fragmented_record v'" and "scratch v' = (if first then data else scratch v @ data)"
    and "reports r'' = reports r'" and "\<And>rest D pos. at_position rest D pos r'' = at_position rest D pos r'"
proof -
  let ?o = "end_of_buffer_offset r' - buffer_size r' - word_of_nat kHeaderSize - word_of_nat (length data)"
  let ?v = "v\<lparr>fragment := data\<rparr>"
  have L: "ReadRecord_loop ops v r = (case handle_record (fragment_type first final) ?o ?v (r'\<lparr>resyncing := False\<rparr>) of
      (Return b rec, _, r) \<Rightarrow> Some (b, rec, r) | (Continue, v, r) \<Rightarrow> ReadRecord_loop ops v r)"
    using run r' by (subst ReadRecord_loop.simps) (simp add: Let_def)
  show thesis
  proof (cases first; cases final)
    assume "first" "final"
    then show thesis using L v
      by (intro that [of "r'\<lparr>resyncing := False, last_record_offset := ?o\<rparr>" "v\<lparr>in_fragmented_record := True, scratch := data\<rparr>"])
        (simp_all add: fragment_type_def handle_record_def partial_record_def Let_def at_position_def r')
  next
    assume "first" "\<not> final"
    then show thesis using L v
      by (intro that [of "r'\<lparr>resyncing := False\<rparr>" "v\<lparr>fragment := data, prospective_record_offset := ?o, scratch := data, in_fragmented_record := True\<rparr>"])
        (simp_all add: fragment_type_def handle_record_def partial_record_def Let_def at_position_def r')
  next
    assume "\<not> first" "final"
    then show thesis using L v
      by (intro that [of "r'\<lparr>resyncing := False, last_record_offset := prospective_record_offset v\<rparr>" "v\<lparr>scratch := scratch v @ data\<rparr>"])
        (simp_all add: fragment_type_def handle_record_def Let_def at_position_def r')
  next
    assume "\<not> first" "\<not> final"
    then show thesis using L v
      by (intro that [of "r'\<lparr>resyncing := False\<rparr>" "v\<lparr>fragment := data, scratch := scratch v @ data\<rparr>"])
        (simp_all add: fragment_type_def handle_record_def Let_def at_position_def r')
  qed
qed

lemma loop_eof:
  assumes "ReadPhysicalRecord ops (fragment v) r = (kEof, frag, r')" and "\<not> resyncing r'"
  obtains r'' where "ReadRecord_loop ops v r = Some (False, [], r'')" and "reports r'' = reports r'"
  using assms by (subst (asm) ReadRecord_loop.simps) (auto simp: Let_def handle_record_def types_distinct)

lemma at_position_not_resyncing: "at_position rest D pos r \<Longrightarrow> \<not> resyncing r"
  by (simp add: at_position_def)

lemma read_record:
  assumes f: "reads_file ops rest"
  shows "at_position rest D pos r \<Longrightarrow> same_place offset pos \<Longrightarrow> (in_fragmented_record v \<longleftrightarrow> \<not> first) \<Longrightarrow>
      drop pos D = fst (record_bytes first offset data) @ Y \<Longrightarrow>
      \<exists>r'. ReadRecord_loop ops v r = Some (True, (if first then data else scratch v @ data), r') \<and> reports r' = reports r \<and>
        at_position rest D (pos + length (fst (record_bytes first offset data))) r' \<and>
        same_place (snd (record_bytes first offset data)) (pos + length (fst (record_bytes first offset data)))"
proof (induction first offset data arbitrary: pos r v rule: record_bytes.induct)
  case (1 first offset data)
  define n where "n = room offset (length data)"
  let ?t = "fragment_type first (length data = n)" and ?off = "block_start offset + kHeaderSize + n"
  let ?here = "padding offset @ physical (fragment_type first (length data = n)) (take n data)"
  let ?pos' = "pos + length (gap pos) + (kHeaderSize + n)"
  have nle: "n \<le> length data" unfolding n_def by (rule room_le)
  then have ln: "length (take n data) = n" by simp
  note g = same_place_gap [OF 1(3)]
  have fit: "fits pos (length (take n data))" unfolding ln by (rule g(2) [of _ "length data"]) (simp add: n_def)
  have place: "same_place ?off ?pos'" using g(3) [of "length data"] by (simp add: n_def)
  define bs where "bs = (if length data > n then fst (record_bytes False ?off (drop n data)) else [])"
  have rb: "record_bytes first offset data =
      (?here @ bs, if length data > n then snd (record_bytes False ?off (drop n data)) else ?off)"
    unfolding record_bytes.simps [of first offset data] Let_def n_def [symmetric] bs_def by (simp split: prod.split)
  have D: "drop pos D = gap pos @ physical ?t (take n data) @ (bs @ Y)" using 1(5) rb g(1) by simp
  obtain r1 where r1: "ReadPhysicalRecord ops (fragment v) r = (?t, take n data, r1)" "reports r1 = reports r"
    "at_position rest D ?pos' r1"
    using read_physical [OF f 1(2) D fit fragment_types, of "fragment v"] unfolding ln by blast
  obtain v2 r2 where r2: "ReadRecord_loop ops v r = (if length data = n then Some (True, (if first then take n data else scratch v @ take n data), r2)
      else ReadRecord_loop ops v2 r2)"
    "in_fragmented_record v2" "scratch v2 = (if first then take n data else scratch v @ take n data)"
    "reports r2 = reports r1" "at_position rest D ?pos' r2"
    using loop_fragment [OF r1(1) at_position_not_resyncing [OF r1(3)] 1(4)] r1(3) by metis
  have len_here: "pos + length ?here = ?pos'" using g(1) ln by simp
  show ?case
  proof (cases "length data > n")
    case False
    then have "length data = n" using nle by simp
    then show ?thesis unfolding rb using r1 r2 place len_here False by (intro exI [of _ r2]) (simp add: bs_def add.assoc)
  next
    case True
    have "drop ?pos' D = bs @ Y"
    proof -
      have "drop ?pos' D = drop (length (gap pos) + (kHeaderSize + n)) (drop pos D)" by (simp add: add.commute add.left_commute)
      then show ?thesis unfolding D using ln by simp
    qed
    then have D': "drop ?pos' D = fst (record_bytes False ?off (drop n data)) @ Y" using True by (simp add: bs_def)
    have v2: "in_fragmented_record v2 \<longleftrightarrow> \<not> False" using r2(2) by simp
    obtain r3 where r3: "ReadRecord_loop ops v2 r2 = Some (True, scratch v2 @ drop n data, r3)" "reports r3 = reports r2"
      "at_position rest D (?pos' + length (fst (record_bytes False ?off (drop n data)))) r3"
      "same_place (snd (record_bytes False ?off (drop n data))) (?pos' + length (fst (record_bytes False ?off (drop n data))))"
      using 1(1) [OF n_def refl refl True r2(5) place v2 D'] by auto
    show ?thesis
    proof (intro exI [of _ r3] conjI)
      show "ReadRecord_loop ops v r = Some (True, (if first then data else scratch v @ data), r3)"
        using r2(1,3) r3(1) True by simp
      show "reports r3 = reports r" using r3 r2 r1 by simp
      have e: "pos + length (fst (record_bytes first offset data)) = ?pos' + length (fst (record_bytes False ?off (drop n data)))"
        unfolding rb using len_here True by (simp add: bs_def)
      show "at_position rest D (pos + length (fst (record_bytes first offset data))) r3" unfolding e by (rule r3)
      show "same_place (snd (record_bytes first offset data)) (pos + length (fst (record_bytes first offset data)))"
        unfolding e unfolding rb using r3(4) True by simp
    qed
  qed
qed

lemma append_split: "xs @ m = h @ bs \<Longrightarrow> length h \<le> length xs \<Longrightarrow> \<exists>Y. xs = h @ Y \<and> Y @ m = bs"
  by (auto simp: append_eq_append_conv2)

lemma append_cut: "xs @ m = h @ bs \<Longrightarrow> length xs < length h \<Longrightarrow> \<exists>us. xs @ us = h \<and> m = us @ bs \<and> us \<noteq> []"
  by (auto simp: append_eq_append_conv2)

lemma read_record_cut:
  assumes f: "reads_file ops rest"
  shows "at_position rest D pos r \<Longrightarrow> same_place offset pos \<Longrightarrow> (in_fragmented_record v \<longleftrightarrow> \<not> first) \<Longrightarrow>
      drop pos D @ missing = fst (record_bytes first offset data) \<Longrightarrow> missing \<noteq> [] \<Longrightarrow>
      \<exists>r'. ReadRecord_loop ops v r = Some (False, [], r') \<and> reports r' = reports r"
proof (induction first offset data arbitrary: pos r v rule: record_bytes.induct)
  case (1 first offset data)
  define n where "n = room offset (length data)"
  let ?t = "fragment_type first (length data = n)" and ?off = "block_start offset + kHeaderSize + n"
  let ?here = "padding offset @ physical (fragment_type first (length data = n)) (take n data)"
  let ?pos' = "pos + length (gap pos) + (kHeaderSize + n)"
  have nle: "n \<le> length data" unfolding n_def by (rule room_le)
  then have ln: "length (take n data) = n" by simp
  note g = same_place_gap [OF 1(3)]
  have fit: "fits pos (length (take n data))" unfolding ln by (rule g(2) [of _ "length data"]) (simp add: n_def)
  have place: "same_place ?off ?pos'" using g(3) [of "length data"] by (simp add: n_def)
  define bs where "bs = (if length data > n then fst (record_bytes False ?off (drop n data)) else [])"
  have rb: "fst (record_bytes first offset data) = ?here @ bs"
    unfolding record_bytes.simps [of first offset data] Let_def n_def [symmetric] bs_def by (simp split: prod.split)
  have D: "drop pos D @ missing = gap pos @ physical ?t (take n data) @ bs" using 1(5) rb g(1) by simp
  show ?case
  proof (cases "length (drop pos D) < length (gap pos @ physical ?t (take n data))")
    case True
    obtain m where m: "drop pos D @ m = gap pos @ physical ?t (take n data)" "missing = m @ bs" "m \<noteq> []"
      using append_cut [of "drop pos D" missing "gap pos @ physical ?t (take n data)" bs] D True by auto
    obtain r1 where r1: "ReadPhysicalRecord ops (fragment v) r = (kEof, fragment v, r1)" "reports r1 = reports r" "\<not> resyncing r1"
      using read_cut [OF f 1(2) m(1,3) fit, of "fragment v"] by blast
    from loop_eof [OF r1(1,3)] r1(2) show ?thesis by metis
  next
    case False
    then obtain Y where Y: "drop pos D = gap pos @ physical ?t (take n data) @ Y" "Y @ missing = bs"
      using append_split [of "drop pos D" missing "gap pos @ physical ?t (take n data)" bs] D by auto
    have more_data: "length data > n" using Y(2) 1(6) by (auto simp: bs_def split: if_splits)
    obtain r1 where r1: "ReadPhysicalRecord ops (fragment v) r = (?t, take n data, r1)" "reports r1 = reports r"
      "at_position rest D ?pos' r1"
      using read_physical [OF f 1(2) Y(1) fit fragment_types, of "fragment v"] unfolding ln by blast
    obtain v2 r2 where r2: "ReadRecord_loop ops v r = ReadRecord_loop ops v2 r2"
      "in_fragmented_record v2" "reports r2 = reports r1" "at_position rest D ?pos' r2"
      using loop_fragment [OF r1(1) at_position_not_resyncing [OF r1(3)] 1(4)] r1(3) more_data by (metis nat_neq_iff)
    have "drop ?pos' D = Y"
    proof -
      have "drop ?pos' D = drop (length (gap pos) + (kHeaderSize + n)) (drop pos D)" by (simp add: add.commute add.left_commute)
      then show ?thesis unfolding Y(1) using ln by simp
    qed
    then have D': "drop ?pos' D @ missing = fst (record_bytes False ?off (drop n data))" using Y(2) more_data by (simp add: bs_def)
    have v2: "in_fragmented_record v2 \<longleftrightarrow> \<not> False" using r2(2) by simp
    from 1(1) [OF n_def refl refl more_data r2(4) place v2 D' 1(6)] r1(2) r2(1,3) show ?thesis by auto
  qed
qed

section \<open>All records of a file\<close>

text \<open>The records until \<open>ReadRecord\<close> returns false.\<close>

partial_function (option) read_all :: "'g sequential_ops \<Rightarrow> 'g log_reader \<Rightarrow> (byte list list \<times> 'g log_reader) option" where
  "read_all ops r =
     (case ReadRecord ops r of
        None \<Rightarrow> None
      | Some (b, rec, r1) \<Rightarrow>
          if b then Option.bind (read_all ops r1) (\<lambda>(recs, r2). Some (rec # recs, r2)) else Some ([], r1))"

abbreviation start_vars :: read_vars where
  "start_vars \<equiv> \<lparr>in_fragmented_record = False, prospective_record_offset = 0, fragment = [], scratch = []\<rparr>"

lemma ReadRecord_start: "initial_offset r = 0 \<Longrightarrow> ReadRecord ops r = ReadRecord_loop ops start_vars r"
  by (simp add: ReadRecord_def)

lemma read_log:
  assumes f: "reads_file ops rest"
  shows "at_position rest D pos r \<Longrightarrow> same_place offset pos \<Longrightarrow> prefix (drop pos D) (log_bytes offset records) \<Longrightarrow>
    \<exists>m r'. read_all ops r = Some (take m records, r') \<and> m \<le> length records \<and> reports r' = reports r \<and>
      (\<forall>k \<le> length records. k \<le> m \<longleftrightarrow> length (log_bytes offset (take k records)) \<le> length D - pos)"
proof (induction records arbitrary: offset pos r)
  case Nil
  have i: "initial_offset r = 0" using Nil(1) by (simp add: at_position_def)
  have "drop pos D @ gap pos @ physical 1 [] = gap pos @ physical 1 []" using Nil(3) by simp
  moreover have "fits pos (length ([] :: byte list))" by (auto simp: fits_def kHeaderSize_def kBlockSize_def)
  moreover have "gap pos @ physical 1 [] \<noteq> []" by (simp add: physical_def)
  ultimately obtain r1 where "ReadPhysicalRecord ops [] r = (kEof, [], r1)" "reports r1 = reports r" "\<not> resyncing r1"
    using read_cut [OF f Nil(1), of "gap pos @ physical 1 []" 1 "[]" "[]"] by blast
  then obtain r2 where "ReadRecord ops r = Some (False, [], r2)" "reports r2 = reports r"
    unfolding ReadRecord_start [OF i] using loop_eof [of ops start_vars r "[]" r1] by auto
  then show ?case by (subst read_all.simps) auto
next
  case (Cons data records)
  let ?bs = "fst (record_bytes True offset data)" and ?off = "snd (record_bytes True offset data)"
  have i: "initial_offset r = 0" using Cons(2) by (simp add: at_position_def)
  obtain zs where zs: "?bs @ log_bytes ?off records = drop pos D @ zs" using Cons(4) by (auto simp: prefix_def)
  show ?case
  proof (cases "length ?bs \<le> length (drop pos D)")
    case True
    obtain Y where Y: "drop pos D = ?bs @ Y" "Y @ zs = log_bytes ?off records"
      using append_split [OF zs [symmetric] True] by blast
    obtain r1 where r1: "ReadRecord ops r = Some (True, data, r1)" "reports r1 = reports r"
      "at_position rest D (pos + length ?bs) r1" "same_place ?off (pos + length ?bs)"
      using read_record [OF f Cons(2,3) _ Y(1), of start_vars] unfolding ReadRecord_start [OF i] by auto
    have d: "drop (pos + length ?bs) D = Y" using arg_cong [OF Y(1), of "drop (length ?bs)"] by (simp add: add.commute)
    then have "prefix (drop (pos + length ?bs) D) (log_bytes ?off records)"
      unfolding d prefix_def using Y(2) [symmetric] by blast
    from Cons.IH [OF r1(3,4) this] obtain m r2 where m: "read_all ops r1 = Some (take m records, r2)" "m \<le> length records"
      "reports r2 = reports r1" "\<forall>k \<le> length records. k \<le> m \<longleftrightarrow> length (log_bytes ?off (take k records)) \<le> length D - (pos + length ?bs)"
      by blast
    have "read_all ops r = Some (take (Suc m) (data # records), r2)" using r1(1) m(1) by (subst read_all.simps) simp
    moreover have "k \<le> Suc m \<longleftrightarrow> length (log_bytes offset (take k (data # records))) \<le> length D - pos" if k: "k \<le> length (data # records)" for k
    proof (cases k)
      case (Suc j)
      have "length ?bs \<le> length D - pos" using True by simp
      with Suc k m(4) [rule_format, of j] show ?thesis by auto
    qed simp
    ultimately show ?thesis using m(2,3) r1(2) by (intro exI [of _ "Suc m"] exI [of _ r2]) auto
  next
    case False
    obtain us where us: "drop pos D @ us = ?bs" "us \<noteq> []" using append_cut [OF zs [symmetric]] False by auto
    obtain r1 where r1: "ReadRecord ops r = Some (False, [], r1)" "reports r1 = reports r"
      using read_record_cut [OF f Cons(2,3) _ us(1,2), of start_vars] unfolding ReadRecord_start [OF i] by auto
    have "read_all ops r = Some (take 0 (data # records), r1)" using r1(1) by (subst read_all.simps) simp
    moreover have "k \<le> 0 \<longleftrightarrow> length (log_bytes offset (take k (data # records))) \<le> length D - pos" for k
      using False by (cases k) auto
    ultimately show ?thesis using r1(2) by (intro exI [of _ 0] exI [of _ r1]) auto
  qed
qed

lemma reader_start: "rest f = D \<Longrightarrow> at_position rest D 0 (log_Reader f has_reporter check 0)"
  by (simp add: at_position_def log_Reader_def next_block_def kBlockSize_def)

section \<open>The writer\<close>

text \<open>
  A file that buffers what is appended up to a capacity, as \<open>PosixWritableFile\<close> does: \<open>whole\<close> is what was appended,
  \<open>disk\<close> what the system has got of it. \<open>Flush\<close> passes the rest on, or a part of it, and then the file is not used any
  more.
\<close>

definition buffered_file ::
  "'f writable_ops \<Rightarrow> ('f \<Rightarrow> byte list) \<Rightarrow> ('f \<Rightarrow> byte list) \<Rightarrow> ('f \<Rightarrow> bool) \<Rightarrow> nat \<Rightarrow> bool" where
  "buffered_file ops whole disk usable cap \<longleftrightarrow>
     (\<forall>f data. usable f \<longrightarrow> length (whole f) + length data \<le> length (disk f) + cap \<longrightarrow>
        (\<exists>f'. Append ops data f = Some (OK, f') \<and> usable f' \<and> whole f' = whole f @ data \<and> disk f' = disk f)) \<and>
     (\<forall>f. usable f \<longrightarrow>
        (\<exists>s f'. Flush ops f = Some (s, f') \<and> prefix (disk f) (disk f') \<and> prefix (disk f') (whole f) \<and>
           (s = OK \<longrightarrow> usable f' \<and> whole f' = whole f \<and> disk f' = whole f)))"

lemma buffered_append:
  assumes "buffered_file ops whole disk usable cap" and "usable f" and "length (whole f) + length data \<le> length (disk f) + cap"
  obtains f' where "Append ops data f = Some (OK, f')" "usable f'" "whole f' = whole f @ data" "disk f' = disk f"
  using assms unfolding buffered_file_def by blast

lemma buffered_flush:
  assumes "buffered_file ops whole disk usable cap" and "usable f"
  obtains s f' where "Flush ops f = Some (s, f')" "prefix (disk f) (disk f')" "prefix (disk f') (whole f)"
    "s = OK \<Longrightarrow> usable f' \<and> whole f' = whole f \<and> disk f' = whole f"
  using assms unfolding buffered_file_def by blast

lemma new_block_writes:
  assumes f: "buffered_file ops whole disk usable cap" and cap: "kBlockSize + 2 * kHeaderSize \<le> cap"
    and w: "usable (log_dest w)" "whole (log_dest w) = disk (log_dest w)"
  obtains w1 where "new_block ops w = Some w1" "usable (log_dest w1)" "block_offset w1 = block_start (block_offset w)"
    "whole (log_dest w1) = whole (log_dest w) @ padding (block_offset w)" "disk (log_dest w1) = disk (log_dest w)"
proof (cases "kBlockSize - block_offset w < kHeaderSize \<and> 0 < kBlockSize - block_offset w")
  case True
  obtain f' where f': "Append ops (replicate (kBlockSize - block_offset w) 0) (log_dest w) = Some (OK, f')" "usable f'"
    "whole f' = whole (log_dest w) @ replicate (kBlockSize - block_offset w) 0" "disk f' = disk (log_dest w)"
    using buffered_append [OF f w(1), of "replicate (kBlockSize - block_offset w) 0"] w(2) cap True by auto
  then show thesis
    using True by (intro that [of "w\<lparr>log_dest := f', block_offset := 0\<rparr>"]) (simp_all add: new_block_def padding_def block_start_def Let_def)
next
  case False
  then show thesis
    using w by (intro that [of "if kBlockSize - block_offset w < kHeaderSize then w\<lparr>block_offset := 0\<rparr> else w"])
      (auto simp: new_block_def padding_def block_start_def Let_def)
qed

lemma emit_writes:
  assumes f: "buffered_file ops whole disk usable cap" and w: "usable (log_dest w)"
    and room: "length (whole (log_dest w)) + (kHeaderSize + length data) \<le> length (disk (log_dest w)) + cap"
  obtains s w' where "EmitPhysicalRecord ops t ptr data w = Some (s, w')" "block_offset w' = block_offset w + kHeaderSize + length data"
    "prefix (disk (log_dest w)) (disk (log_dest w'))" "prefix (disk (log_dest w')) (whole (log_dest w) @ physical t data)"
    "s = OK \<Longrightarrow> usable (log_dest w') \<and> whole (log_dest w') = whole (log_dest w) @ physical t data \<and>
       disk (log_dest w') = whole (log_dest w) @ physical t data"
proof -
  let ?buf = "EncodeFixed32 (Mask (Extend ptr (type_crc t) data)) @ [word_of_nat (length data mod 256), word_of_nat (length data div 256), ucast t]"
  have "Extend ptr (type_crc t) data = crc32c 0 (ucast t # data)"
    using crc32c_append [of 0 "[ucast t]" data] by (simp add: Extend_eq type_crc_def Value_eq)
  then have p: "?buf @ data = physical t data" by (simp add: physical_def)
  have lb: "length ?buf = kHeaderSize" by (simp add: kHeaderSize_def)
  obtain f1 where f1: "Append ops ?buf (log_dest w) = Some (OK, f1)" "usable f1" "whole f1 = whole (log_dest w) @ ?buf" "disk f1 = disk (log_dest w)"
    using buffered_append [OF f w, of ?buf] room lb by auto
  obtain f2 where f2: "Append ops data f1 = Some (OK, f2)" "usable f2" "whole f2 = whole f1 @ data" "disk f2 = disk f1"
    using buffered_append [OF f f1(2), of data] room lb f1(3,4) by auto
  obtain s f3 where f3: "Flush ops f2 = Some (s, f3)" "prefix (disk f2) (disk f3)" "prefix (disk f3) (whole f2)"
    "s = OK \<Longrightarrow> usable f3 \<and> whole f3 = whole f2 \<and> disk f3 = whole f2"
    using buffered_flush [OF f f2(2)] by blast
  have i: "whole f2 = whole (log_dest w) @ physical t data" using f1(3) f2(3) p by simp
  show thesis
  proof (rule that)
    show "EmitPhysicalRecord ops t ptr data w = Some (s, w\<lparr>log_dest := f3, block_offset := block_offset w + (kHeaderSize + length data)\<rparr>)"
      using f1(1) f2(1) f3(1) by (simp add: EmitPhysicalRecord_def Let_def)
  qed (use f1(4) f2(4) f3 i in simp_all)
qed

lemma AddRecord_writes:
  assumes f: "buffered_file ops whole disk usable cap" and cap: "kBlockSize + 2 * kHeaderSize \<le> cap"
  shows "usable (log_dest w) \<Longrightarrow> whole (log_dest w) = disk (log_dest w) \<Longrightarrow> block_offset w = offset \<Longrightarrow>
    \<exists>s w'. AddRecord_loop ops first ptr data w = Some (s, w') \<and>
      prefix (disk (log_dest w)) (disk (log_dest w')) \<and> prefix (disk (log_dest w')) (disk (log_dest w) @ fst (record_bytes first offset data)) \<and>
      (s = OK \<longrightarrow> usable (log_dest w') \<and> whole (log_dest w') = disk (log_dest w') \<and>
         disk (log_dest w') = disk (log_dest w) @ fst (record_bytes first offset data) \<and>
         block_offset w' = snd (record_bytes first offset data))"
proof (induction first offset data arbitrary: ptr w rule: record_bytes.induct)
  case (1 first offset data)
  define n where "n = room offset (length data)"
  let ?t = "fragment_type first (length data = n)" and ?off = "block_start offset + kHeaderSize + n"
  let ?here = "padding offset @ physical (fragment_type first (length data = n)) (take n data)"
  have nle: "n \<le> length data" unfolding n_def by (rule room_le)
  then have ln: "length (take n data) = n" by simp
  have rb: "record_bytes first offset data =
      (if length data > n then (?here @ fst (record_bytes False ?off (drop n data)), snd (record_bytes False ?off (drop n data))) else (?here, ?off))"
    unfolding record_bytes.simps [of first offset data] Let_def n_def [symmetric] by (simp split: prod.split)
  obtain w1 where w1: "new_block ops w = Some w1" "usable (log_dest w1)" "block_offset w1 = block_start offset"
    "whole (log_dest w1) = disk (log_dest w) @ padding offset" "disk (log_dest w1) = disk (log_dest w)"
    using new_block_writes [OF f cap 1(2,3)] 1(3,4) by metis
  have len: "(if length data < kBlockSize - block_offset w1 - kHeaderSize then length data else kBlockSize - block_offset w1 - kHeaderSize) = n"
    by (auto simp: n_def room_def w1(3) min_def)
  have "n + kHeaderSize + kHeaderSize \<le> cap" using cap by (auto simp: n_def room_def kBlockSize_def kHeaderSize_def)
  then have "length (whole (log_dest w1)) + (kHeaderSize + length (take n data)) \<le> length (disk (log_dest w1)) + cap"
    using w1(4,5) ln by (auto simp: padding_def)
  from emit_writes [OF f w1(2) this] obtain s w2 where
    w2: "EmitPhysicalRecord ops ?t ptr (take n data) w1 = Some (s, w2)" "block_offset w2 = ?off"
      "prefix (disk (log_dest w)) (disk (log_dest w2))" "prefix (disk (log_dest w2)) (disk (log_dest w) @ ?here)"
      "s = OK \<Longrightarrow> usable (log_dest w2) \<and> whole (log_dest w2) = disk (log_dest w2) \<and> disk (log_dest w2) = disk (log_dest w) @ ?here"
    unfolding w1 ln append_assoc by metis
  have L: "AddRecord_loop ops first ptr data w =
      (if s = OK \<and> length data > n then AddRecord_loop ops False (ptr + n) (drop n data) w2 else Some (s, w2))"
    unfolding AddRecord_loop.simps [of ops first ptr data w] w1(1) option.case Let_def len w2(1) prod.case by simp
  show ?case
  proof (cases "s = OK \<and> length data > n")
    case True
    then have w2': "usable (log_dest w2)" "whole (log_dest w2) = disk (log_dest w2)" "disk (log_dest w2) = disk (log_dest w) @ ?here"
      using w2(5) by simp_all
    from 1(1) [OF n_def refl refl conjunct2 [OF True] w2'(1,2) w2(2), of "ptr + n"] obtain s' w3 where
      w3: "AddRecord_loop ops False (ptr + n) (drop n data) w2 = Some (s', w3)" "prefix (disk (log_dest w2)) (disk (log_dest w3))"
        "prefix (disk (log_dest w3)) (disk (log_dest w2) @ fst (record_bytes False ?off (drop n data)))"
        "s' = OK \<longrightarrow> usable (log_dest w3) \<and> whole (log_dest w3) = disk (log_dest w3) \<and>
         disk (log_dest w3) = disk (log_dest w2) @ fst (record_bytes False ?off (drop n data)) \<and>
         block_offset w3 = snd (record_bytes False ?off (drop n data))"
      by blast
    have "prefix (disk (log_dest w)) (disk (log_dest w3))" using w2(3) w3(2) by (rule prefix_order.trans)
    with L True w3 w2'(3) show ?thesis unfolding rb by (intro exI [of _ s'] exI [of _ w3]) simp
  next
    case False
    have "prefix (disk (log_dest w2)) (disk (log_dest w) @ fst (record_bytes first offset data))"
    proof (cases "length data > n")
      case True
      then have "disk (log_dest w) @ fst (record_bytes first offset data) =
          (disk (log_dest w) @ ?here) @ fst (record_bytes False ?off (drop n data))" by (simp add: rb)
      then show ?thesis using w2(4) by (metis prefix_prefix)
    next
      case False
      then show ?thesis using w2(4) by (simp add: rb)
    qed
    with L False w2 show ?thesis by (intro exI [of _ s] exI [of _ w2]) (auto simp: rb)
  qed
qed

end
