(* ===== verification/LdbPosix.thy ===== *)
theory LdbPosix
  imports LdbLogSpec
begin

text \<open>
  The file behind the log, \<open>PosixWritableFile\<close> of \<open>util/env_posix.cc\<close> of LevelDB: a buffer in front of \<open>write(2)\<close>,
  which is a parameter and may be interrupted, write a part or fail. With it the log survives a crash: whatever part
  of the file is on the disk, its reader gets complete records in order and no report of a corruption.
\<close>

section \<open>The code\<close>

datatype write_result = Written nat | Write_error nat

definition EINTR :: nat where
  "EINTR = 4"

definition ENOENT :: nat where
  "ENOENT = 2"

text \<open>The message of the operating system after the context is left out.\<close>

definition PosixError :: "string \<Rightarrow> nat \<Rightarrow> status" where
  "PosixError context error_number = (if error_number = ENOENT then NotFound context else IOError context)"

definition kWritableFileBufferSize :: nat where
  "kWritableFileBufferSize = 65536"

text \<open>The first \<open>pos_\<close> bytes of the buffer, and the state of the system behind the descriptor.\<close>

record 'k posix_file =
  file_buf :: "byte list"
  file_fd :: 'k
  file_name :: string

partial_function (option) WriteUnbuffered ::
  "('k \<Rightarrow> byte list \<Rightarrow> write_result \<times> 'k) \<Rightarrow> string \<Rightarrow> byte list \<Rightarrow> 'k \<Rightarrow> (status \<times> 'k) option" where
  "WriteUnbuffered sys_write name data k =
     (if data = [] then Some (OK, k)
      else case sys_write k data of
          (Written n, k') \<Rightarrow> WriteUnbuffered sys_write name (drop n data) k'
        | (Write_error e, k') \<Rightarrow>
            if e = EINTR then WriteUnbuffered sys_write name data k' else Some (PosixError name e, k'))"

definition FlushBuffer ::
  "('k \<Rightarrow> byte list \<Rightarrow> write_result \<times> 'k) \<Rightarrow> 'k posix_file \<Rightarrow> (status \<times> 'k posix_file) option" where
  "FlushBuffer sys_write f =
     map_option (\<lambda>(s, k). (s, f\<lparr>file_buf := [], file_fd := k\<rparr>))
       (WriteUnbuffered sys_write (file_name f) (file_buf f) (file_fd f))"

definition posix_Append ::
  "('k \<Rightarrow> byte list \<Rightarrow> write_result \<times> 'k) \<Rightarrow> byte list \<Rightarrow> 'k posix_file \<Rightarrow> (status \<times> 'k posix_file) option" where
  "posix_Append sys_write data f =
     (let copy_size = min (length data) (kWritableFileBufferSize - length (file_buf f));
          f = f\<lparr>file_buf := file_buf f @ take copy_size data\<rparr>;
          data = drop copy_size data
      in if length data = 0 then Some (OK, f)
         else case FlushBuffer sys_write f of
             None \<Rightarrow> None
           | Some (s, f) \<Rightarrow>
               if s \<noteq> OK then Some (s, f)
               else if length data < kWritableFileBufferSize then Some (OK, f\<lparr>file_buf := data\<rparr>)
               else map_option (\<lambda>(s, k). (s, f\<lparr>file_fd := k\<rparr>)) (WriteUnbuffered sys_write (file_name f) data (file_fd f)))"

definition posix_Flush ::
  "('k \<Rightarrow> byte list \<Rightarrow> write_result \<times> 'k) \<Rightarrow> 'k posix_file \<Rightarrow> (status \<times> 'k posix_file) option" where
  "posix_Flush sys_write f = FlushBuffer sys_write f"

definition posix_ops :: "('k \<Rightarrow> byte list \<Rightarrow> write_result \<times> 'k) \<Rightarrow> 'k posix_file writable_ops" where
  "posix_ops sys_write = \<lparr>Append = posix_Append sys_write, Flush = posix_Flush sys_write\<rparr>"

section \<open>The system\<close>

text \<open>
  What \<open>write(2)\<close> promises: it appends a part of the data to the file, or fails without a change; and it is not
  interrupted, and does not write nothing, for ever, for which \<open>rank\<close> is a bound.
\<close>

definition write_law :: "('k \<Rightarrow> byte list \<Rightarrow> write_result \<times> 'k) \<Rightarrow> ('k \<Rightarrow> byte list) \<Rightarrow> ('k \<Rightarrow> nat) \<Rightarrow> bool" where
  "write_law sys_write disk rank \<longleftrightarrow> (\<forall>k data. data \<noteq> [] \<longrightarrow>
     (case sys_write k data of
        (Written n, k') \<Rightarrow> n \<le> length data \<and> disk k' = disk k @ take n data \<and> (n = 0 \<longrightarrow> rank k' < rank k)
      | (Write_error e, k') \<Rightarrow> disk k' = disk k \<and> (e = EINTR \<longrightarrow> rank k' < rank k)))"

lemma write_lawD:
  assumes "write_law sys_write disk rank" and "data \<noteq> []"
  shows "sys_write k data = (Written n, k') \<Longrightarrow> n \<le> length data \<and> disk k' = disk k @ take n data \<and> (n = 0 \<longrightarrow> rank k' < rank k)"
    and "sys_write k data = (Write_error e, k') \<Longrightarrow> disk k' = disk k \<and> (e = EINTR \<longrightarrow> rank k' < rank k)"
  using assms unfolding write_law_def by (fastforce split: prod.splits write_result.splits)+

lemma PosixError_not_OK [simp]: "PosixError context e \<noteq> OK"
  by (simp add: PosixError_def)

lemma unbuffered_writes:
  assumes law: "write_law sys_write disk rank"
  shows "\<exists>s k'. WriteUnbuffered sys_write name data k = Some (s, k') \<and> prefix (disk k) (disk k') \<and>
    prefix (disk k') (disk k @ data) \<and> (s = OK \<longrightarrow> disk k' = disk k @ data)"
proof (induction "length data" arbitrary: data k rule: less_induct)
  case less
  note shorter = less
  show ?case
  proof (induction "rank k" arbitrary: k rule: less_induct)
    case less
    show ?case
    proof (cases "data = []")
      case True
      then show ?thesis by (subst WriteUnbuffered.simps) simp
    next
      case False
      note W = WriteUnbuffered.simps [of sys_write name data k]
      obtain res k' where call: "sys_write k data = (res, k')" by fastforce
      show ?thesis
      proof (cases res)
        case (Written n)
        note d = write_lawD(1) [OF law False call [unfolded Written]]
        have run: "WriteUnbuffered sys_write name data k = WriteUnbuffered sys_write name (drop n data) k'"
          using False call Written by (subst W) simp
        show ?thesis
        proof (cases "n = 0")
          case True
          with d have "disk k' = disk k" "rank k' < rank k" by simp_all
          with less [of k'] run True show ?thesis by simp
        next
          case n: False
          then have "length (drop n data) < length data" using False by (cases data) auto
          from shorter [OF this, of k'] obtain s k'' where
            s: "WriteUnbuffered sys_write name (drop n data) k' = Some (s, k'')" "prefix (disk k') (disk k'')"
              "prefix (disk k'') (disk k' @ drop n data)" "s = OK \<longrightarrow> disk k'' = disk k' @ drop n data" by blast
          have e: "disk k' @ drop n data = disk k @ data" using d by simp
          have "prefix (disk k) (disk k'')" using d s(2) by (metis prefix_order.trans prefixI)
          with s e run show ?thesis by auto
        qed
      next
        case (Write_error e)
        note d = write_lawD(2) [OF law False call [unfolded Write_error]]
        show ?thesis
        proof (cases "e = EINTR")
          case True
          have "WriteUnbuffered sys_write name data k = WriteUnbuffered sys_write name data k'"
            using False call Write_error True by (subst W) simp
          with less [of k'] d True show ?thesis by simp
        next
          case e: False
          have "WriteUnbuffered sys_write name data k = Some (PosixError name e, k')"
            using False call Write_error e by (subst W) simp
          with d show ?thesis by simp
        qed
      qed
    qed
  qed
qed

lemma posix_buffered:
  fixes disk :: "'k \<Rightarrow> byte list" and sys_write :: "'k \<Rightarrow> byte list \<Rightarrow> write_result \<times> 'k"
  assumes law: "write_law sys_write disk rank"
  shows "buffered_file (posix_ops sys_write) (\<lambda>f. disk (file_fd f) @ file_buf f) (\<lambda>f. disk (file_fd f))
    (\<lambda>f. length (file_buf f) \<le> kWritableFileBufferSize) kWritableFileBufferSize"
  unfolding buffered_file_def
proof (intro conjI allI impI)
  fix f :: "'k posix_file" and data :: "byte list"
  assume "length (file_buf f) \<le> kWritableFileBufferSize"
    and "length (disk (file_fd f) @ file_buf f) + length data \<le> length (disk (file_fd f)) + kWritableFileBufferSize"
  then have "min (length data) (kWritableFileBufferSize - length (file_buf f)) = length data"
    "length (file_buf f) + length data \<le> kWritableFileBufferSize" by auto
  then show "\<exists>f'. Append (posix_ops sys_write) data f = Some (OK, f') \<and> length (file_buf f') \<le> kWritableFileBufferSize \<and>
      disk (file_fd f') @ file_buf f' = (disk (file_fd f) @ file_buf f) @ data \<and> disk (file_fd f') = disk (file_fd f)"
    by (simp add: posix_ops_def posix_Append_def Let_def)
next
  fix f :: "'k posix_file"
  obtain s k' where s: "WriteUnbuffered sys_write (file_name f) (file_buf f) (file_fd f) = Some (s, k')"
    "prefix (disk (file_fd f)) (disk k')" "prefix (disk k') (disk (file_fd f) @ file_buf f)"
    "s = OK \<longrightarrow> disk k' = disk (file_fd f) @ file_buf f"
    using unbuffered_writes [OF law] by blast
  then show "\<exists>s f'. Flush (posix_ops sys_write) f = Some (s, f') \<and> prefix (disk (file_fd f)) (disk (file_fd f')) \<and>
      prefix (disk (file_fd f')) (disk (file_fd f) @ file_buf f) \<and>
      (s = OK \<longrightarrow> length (file_buf f') \<le> kWritableFileBufferSize \<and> disk (file_fd f') @ file_buf f' = disk (file_fd f) @ file_buf f \<and>
         disk (file_fd f') = disk (file_fd f) @ file_buf f)"
    by (simp add: posix_ops_def posix_Flush_def FlushBuffer_def)
qed

section \<open>A crash\<close>

text \<open>The records that are added until one fails, and how many were not reported as failed.\<close>

fun add_records :: "'f writable_ops \<Rightarrow> (nat \<times> byte list) list \<Rightarrow> 'f log_writer \<Rightarrow> (nat \<times> 'f log_writer) option" where
  "add_records ops [] w = Some (0, w)"
| "add_records ops ((ptr, data) # records) w =
     (case AddRecord ops ptr data w of
        None \<Rightarrow> None
      | Some (s, w1) \<Rightarrow>
          if s = OK then map_option (\<lambda>(n, w2). (Suc n, w2)) (add_records ops records w1) else Some (0, w1))"

lemma add_log:
  assumes f: "buffered_file ops whole disk usable cap" and cap: "kBlockSize + 2 * kHeaderSize \<le> cap"
  shows "usable (log_dest w) \<Longrightarrow> whole (log_dest w) = disk (log_dest w) \<Longrightarrow> block_offset w = offset \<Longrightarrow>
    \<exists>n w'. add_records ops records w = Some (n, w') \<and> n \<le> length records \<and>
      prefix (disk (log_dest w')) (disk (log_dest w) @ log_bytes offset (map snd records)) \<and>
      length (disk (log_dest w) @ log_bytes offset (take n (map snd records))) \<le> length (disk (log_dest w'))"
proof (induction records arbitrary: w offset)
  case (Cons pd records)
  obtain ptr data where pd: "pd = (ptr, data)" by fastforce
  let ?bs = "fst (record_bytes True offset data)" and ?off = "snd (record_bytes True offset data)"
  from AddRecord_writes [OF f cap Cons(2-4), of True ptr data] obtain s w1 where
    s: "AddRecord ops ptr data w = Some (s, w1)" "prefix (disk (log_dest w)) (disk (log_dest w1))"
      "prefix (disk (log_dest w1)) (disk (log_dest w) @ ?bs)"
      "s = OK \<longrightarrow> usable (log_dest w1) \<and> whole (log_dest w1) = disk (log_dest w1) \<and> disk (log_dest w1) = disk (log_dest w) @ ?bs \<and>
         block_offset w1 = ?off"
    unfolding AddRecord_def by blast
  show ?case
  proof (cases "s = OK")
    case True
    with s(4) have w1: "usable (log_dest w1)" "whole (log_dest w1) = disk (log_dest w1)" "block_offset w1 = ?off"
      "disk (log_dest w1) = disk (log_dest w) @ ?bs" by simp_all
    from Cons.IH [OF w1(1-3)] obtain n w2 where "add_records ops records w1 = Some (n, w2)" "n \<le> length records"
      "prefix (disk (log_dest w2)) (disk (log_dest w1) @ log_bytes ?off (map snd records))"
      "length (disk (log_dest w1) @ log_bytes ?off (take n (map snd records))) \<le> length (disk (log_dest w2))" by blast
    with s(1) True w1(4) show ?thesis unfolding pd by (intro exI [of _ "Suc n"] exI [of _ w2]) simp
  next
    case False
    have "prefix (disk (log_dest w1)) (disk (log_dest w) @ log_bytes offset (map snd (pd # records)))"
      using s(3) unfolding pd by (simp add: append_assoc [symmetric] prefix_prefix del: append_assoc)
    moreover have "length (disk (log_dest w)) \<le> length (disk (log_dest w1))" using s(2) by (rule prefix_length_le)
    ultimately show ?thesis using s(1) False unfolding pd by (intro exI [of _ 0] exI [of _ w1]) simp
  qed
qed simp



end
